(* ===== verification/GM_Prelude.thy ===== *)
theory GM_Prelude
  imports Complex_Main "HOL-Library.AList"
begin

text \<open>
  Shared ground of the development.

  \<^item> The protocol's enumerations (\<open>packages/schema/src/primitives.ts\<close>): node kinds,
    pause points, resume actions, run modes, run statuses.
  \<^item> JavaScript's insertion-ordered \<open>Map\<close>: an association list, written to with
    \<open>AList.update\<close> (an existing key keeps its place, a new one goes to the end) and
    \<open>AList.delete\<close>; the locale \<open>ordered_map\<close> states what the components rely on and proves
    the two bounded-memory idioms of the code (evict the oldest before an insertion, move
    a key to the end and evict the oldest after it) once.
  \<^item> The locale \<open>event_machine\<close>: a state, a step function on events and an invariant every
    step keeps; what holds of one step then holds of every run.
  \<^item> Generic lemmas on lists and association lists.
\<close>

section \<open>Collections of facts\<close>

named_theorems inv_defs "the invariants of the components, unfolded"
named_theorems frame "what an operation leaves unchanged"
named_theorems step_inv "one operation keeps the invariant"

section \<open>The protocol's enumerations\<close>

datatype node_kind =
  Agent | LLM | Tool | Chain | Retriever | Server | Resource | Prompt | Custom

datatype run_status = St_ok | St_error | St_aborted

datatype pause_point = Before | After | At_error

datatype resume_action = Act_continue | Act_retry | Act_inject | Act_abort

datatype run_mode = Run_mode | Step_mode

type_synonym ident = string
type_synonym millis = rat

section \<open>Lists\<close>

lemma distinct_filter_keys [intro]:
  "distinct (map fst xs) \<Longrightarrow> distinct (map fst (filter P xs))"
  by (induction xs) (auto simp: image_iff)

section \<open>Insertion-ordered maps\<close>

type_synonym ('k, 'v) omap = "('k \<times> 'v) list"

abbreviation okeys :: "('k, 'v) omap \<Rightarrow> 'k list" where
  "okeys m \<equiv> map fst m"

abbreviation wf_omap :: "('k, 'v) omap \<Rightarrow> bool" where
  "wf_omap m \<equiv> distinct (okeys m)"

text \<open>Maps are read by \<open>map_of\<close>; membership of the pair is not the normal form here.\<close>

declare map_of_eq_Some_iff [simp del] Some_eq_map_of_iff [simp del]

lemma map_of_update [simp]: "map_of (AList.update k v m) = (map_of m)(k \<mapsto> v)"
  by (simp add: update_conv')

lemma map_of_delete [simp]: "map_of (AList.delete k m) = (map_of m)(k := None)"
  by (simp add: AList.delete_conv')

lemma okeys_update:
  "okeys (AList.update k v m) = (if k \<in> set (okeys m) then okeys m else okeys m @ [k])"
  by (simp add: update_keys)

lemma okeys_delete: "okeys (AList.delete k m) = filter (\<lambda>x. x \<noteq> k) (okeys m)"
  by (simp add: AList.delete_keys removeAll_filter_not_eq) metis

lemma keys_of_update [simp]: "fst ` set (AList.update k v m) = insert k (fst ` set m)"
  by (metis dom_map_of_conv_image_fst dom_fun_upd map_of_update option.distinct(1))

lemma keys_of_delete [simp]: "fst ` set (AList.delete k m) = fst ` set m - {k}"
  by (metis dom_map_of_conv_image_fst dom_fun_upd map_of_delete)

lemma delete_filter: "AList.delete k m = filter (\<lambda>x. fst x \<noteq> k) m"
  by (simp add: AList.delete_eq case_prod_unfold) (metis (full_types))

lemma filter_absent: "map_of m k = None \<Longrightarrow> filter (\<lambda>x. fst x \<noteq> k) m = m"
  by (induction m) (auto split: if_splits)

lemma update_fresh: "k \<notin> set (okeys m) \<Longrightarrow> AList.update k v m = m @ [(k, v)]"
  by (induction m) auto

lemma map_of_None_keys: "map_of m k = None \<longleftrightarrow> k \<notin> set (okeys m)"
  by (metis map_of_eq_None_iff set_map)

text \<open>Counting and summing over a map, across a deletion and across an update in place.\<close>

lemma delete_absent: "map_of m k = None \<Longrightarrow> AList.delete k m = m"
  by (simp add: delete_filter filter_absent)

lemma sum_delete:
  fixes f :: "'k \<times> 'v \<Rightarrow> nat"
  assumes "wf_omap m" and "map_of m k = Some v"
  shows "sum_list (map f m) = sum_list (map f (AList.delete k m)) + f (k, v)"
  using assms
proof (induction m)
  case (Cons h m)
  show ?case
  proof (cases "fst h = k")
    case True
    then have "map_of m k = None" and "h = (k, v)"
      using Cons.prems by (auto simp: map_of_None_keys)
    then show ?thesis by (simp add: delete_filter filter_absent)
  next
    case False
    with Cons have "sum_list (map f m) = sum_list (map f (AList.delete k m)) + f (k, v)"
      by (cases h) auto
    with False show ?thesis by (cases h) (simp add: delete_filter)
  qed
qed simp

lemma sum_update:
  fixes f :: "'k \<times> 'v \<Rightarrow> nat"
  assumes "wf_omap m" and "map_of m k = Some v"
  shows "sum_list (map f (AList.update k v' m)) + f (k, v) = sum_list (map f m) + f (k, v')"
  using assms
proof (induction m)
  case (Cons h m)
  then show ?case by (cases h) (auto simp: map_of_None_keys)
qed simp

lemma length_filter_sum: "length (filter P m) = sum_list (map (\<lambda>x. if P x then 1 else 0) m)"
  by (induction m) auto

lemma length_filter_delete:
  assumes "wf_omap m" and "map_of m k = Some v"
  shows "length (filter P m) = length (filter P (AList.delete k m)) + (if P (k, v) then 1 else 0)"
  using sum_delete [OF assms, of "\<lambda>x. if P x then 1 else 0"] by (simp add: length_filter_sum)

lemma length_filter_update:
  assumes "wf_omap m" and "map_of m k = Some v" and "P (k, v') = P (k, v)"
  shows "length (filter P (AList.update k v' m)) = length (filter P m)"
  using sum_update [OF assms(1,2), of "\<lambda>x. if P x then 1 else 0" v'] assms(3)
  by (simp add: length_filter_sum split: if_splits)

lemma map_of_map_value: "map_of (map (\<lambda>(k, v). (k, f v)) m) x = map_option f (map_of m x)"
  by (induction m) auto

lemma okeys_map_value [simp]: "map (fst \<circ> (\<lambda>(k, v). (k, f v))) m = okeys m"
  by (induction m) auto

lemma set_update_subset: "set (AList.update k v m) \<subseteq> insert (k, v) (set m)"
  by (induction m) auto

text \<open>
  What the code relies on when it uses a \<open>Map\<close> as a bounded memory: insertion order, and
  that an update of a present key moves nothing.
\<close>

locale ordered_map =
  fixes get :: "'m \<Rightarrow> 'k \<Rightarrow> 'v option"
    and put :: "'k \<Rightarrow> 'v \<Rightarrow> 'm \<Rightarrow> 'm"
    and del :: "'k \<Rightarrow> 'm \<Rightarrow> 'm"
    and keys :: "'m \<Rightarrow> 'k list"
    and ok :: "'m \<Rightarrow> bool"
  assumes get_put: "get (put k v m) = (get m)(k \<mapsto> v)"
    and get_del: "get (del k m) = (get m)(k := None)"
    and keys_put: "keys (put k v m) = (if k \<in> set (keys m) then keys m else keys m @ [k])"
    and keys_del: "keys (del k m) = filter (\<lambda>x. x \<noteq> k) (keys m)"
    and dom_get: "dom (get m) = set (keys m)"
    and ok_distinct: "ok m \<Longrightarrow> distinct (keys m)"
    and ok_put: "ok m \<Longrightarrow> ok (put k v m)"
    and ok_del: "ok m \<Longrightarrow> ok (del k m)"
begin

lemma get_None: "get m k = None \<longleftrightarrow> k \<notin> set (keys m)"
  using dom_get [of m] by blast

lemma length_del:
  assumes "ok m" and "k \<in> set (keys m)"
  shows "length (keys (del k m)) = length (keys m) - 1"
proof -
  have "filter (\<lambda>x. x \<noteq> k) (keys m) = remove1 k (keys m)"
    using distinct_remove1_removeAll [OF ok_distinct [OF assms(1)], of k]
    by (simp add: removeAll_filter_not_eq) metis
  then show ?thesis using assms(2) by (simp add: keys_del length_remove1)
qed

lemma length_del_le: "length (keys (del k m)) \<le> length (keys m)"
  by (simp add: keys_del)

text \<open>The oldest key, dropped when the map is full, then the insertion.\<close>

lemma evict_then_put_bound:
  assumes ok: "ok m" and bound: "length (keys m) \<le> cap" and cap: "0 < cap"
  shows "length (keys (put k v (if cap \<le> length (keys m) then del (hd (keys m)) m else m))) \<le> cap"
proof (cases "cap \<le> length (keys m)")
  case True
  then have "keys m \<noteq> []" using cap by auto
  then have "hd (keys m) \<in> set (keys m)" by simp
  from length_del [OF ok this] have "length (keys (del (hd (keys m)) m)) < cap"
    using bound cap True by simp
  then show ?thesis using True by (simp add: keys_put)
next
  case False
  then show ?thesis by (simp add: keys_put)
qed

text \<open>The key moved to the end, then the oldest dropped when the map is over its bound.\<close>

lemma move_to_end_keys: "keys (put k v (del k m)) = filter (\<lambda>x. x \<noteq> k) (keys m) @ [k]"
  by (simp add: keys_put keys_del)

lemma put_then_evict_bound:
  fixes k v m
  assumes ok: "ok m" and bound: "length (keys m) \<le> cap"
  defines "m' \<equiv> put k v (del k m)"
  shows "length (keys (if cap < length (keys m') then del (hd (keys m')) m' else m')) \<le> cap"
proof -
  have len: "length (keys m') \<le> Suc (length (keys m))"
    using length_filter_le [of "\<lambda>x. x \<noteq> k" "keys m"] by (simp add: m'_def move_to_end_keys)
  have ok': "ok m'" using ok by (simp add: m'_def ok_put ok_del)
  have "keys m' \<noteq> []" by (simp add: m'_def move_to_end_keys)
  then have "hd (keys m') \<in> set (keys m')" by (rule hd_in_set)
  from length_del [OF ok' this] len bound show ?thesis by simp linarith
qed

lemma newest_survives_eviction:
  fixes k v m
  assumes ok: "ok m" and cap: "0 < cap"
  defines "m' \<equiv> put k v (del k m)"
  shows "get (if cap < length (keys m') then del (hd (keys m')) m' else m') k = Some v"
proof (cases "cap < length (keys m')")
  case True
  then have "filter (\<lambda>x. x \<noteq> k) (keys m) \<noteq> []"
    using cap by (auto simp: m'_def move_to_end_keys)
  then have "hd (filter (\<lambda>x. x \<noteq> k) (keys m)) \<in> set (filter (\<lambda>x. x \<noteq> k) (keys m))"
    and "hd (keys m') = hd (filter (\<lambda>x. x \<noteq> k) (keys m))"
    by (rule hd_in_set, simp add: m'_def move_to_end_keys)
  then have "hd (keys m') \<noteq> k" by auto
  with True show ?thesis by (simp add: get_del m'_def get_put)
next
  case False
  then show ?thesis by (simp add: m'_def get_put)
qed

text \<open>A key is not dropped while fewer other keys than the bound were moved behind it.\<close>

lemma recent_survives_eviction:
  fixes k k' v m
  assumes ok: "ok m" and keys: "keys m = xs @ k # ys" and behind: "set ys \<subseteq> K"
    and other: "k' \<in> K" "k' \<noteq> k" and few: "finite K" "card K < cap"
  defines "m' \<equiv> put k' v (del k' m)"
  defines "n \<equiv> (if cap < length (keys m') then del (hd (keys m')) m' else m')"
  shows "get n k = get m k \<and> (\<exists>xs ys. keys n = xs @ k # ys \<and> set ys \<subseteq> K)"
proof -
  let ?rest = "filter (\<lambda>x. x \<noteq> k')"
  have keys': "keys m' = ?rest xs @ k # (?rest ys @ [k'])"
    using other(2) by (simp add: m'_def move_to_end_keys keys)
  have ok': "ok m'" using ok by (simp add: m'_def ok_put ok_del)
  have get': "get m' k = get m k" using other(2) by (simp add: m'_def get_put get_del)
  have sub: "set (?rest ys @ [k']) \<subseteq> K" using behind other(1) by auto
  show ?thesis
  proof (cases "cap < length (keys m')")
    case True
    have "length (?rest ys @ [k']) = card (set (?rest ys @ [k']))"
      using ok_distinct [OF ok'] keys' distinct_card [of "?rest ys @ [k']"] by simp
    then have "length (?rest ys @ [k']) < cap" using card_mono [OF few(1) sub] few(2) by linarith
    then obtain a zs where xs: "?rest xs = a # zs" using True keys' by (cases "?rest xs") auto
    have fresh: "a \<notin> set (zs @ k # (?rest ys @ [k']))" using ok_distinct [OF ok'] keys' xs by auto
    have "keys n = filter (\<lambda>x. x \<noteq> a) (a # (zs @ k # (?rest ys @ [k'])))"
      using True keys' xs by (simp only: n_def keys_del if_True append_Cons list.sel)
    also have "\<dots> = filter (\<lambda>x. x \<noteq> a) (zs @ k # (?rest ys @ [k']))" by simp
    also have "\<dots> = zs @ k # (?rest ys @ [k'])" using fresh by (intro filter_True) blast
    finally have kn: "keys n = zs @ k # (?rest ys @ [k'])" .
    have "get n k = get m k" using True keys' xs fresh get' by (auto simp: n_def get_del)
    then show ?thesis using kn sub by blast
  next
    case False
    have "get n k = get m k" using False get' by (simp add: n_def)
    moreover have "keys n = ?rest xs @ k # (?rest ys @ [k'])" using False keys' by (simp add: n_def)
    ultimately show ?thesis using sub by blast
  qed
qed

end

interpretation om: ordered_map map_of AList.update AList.delete okeys wf_omap
  by unfold_locales
    (auto simp: okeys_update okeys_delete dom_map_of_conv_image_fst intro: distinct_update)

section \<open>Machines driven by events\<close>

locale event_machine =
  fixes init :: "'s \<Rightarrow> bool"
    and step :: "'e \<Rightarrow> 's \<Rightarrow> 's"
    and inv :: "'s \<Rightarrow> bool"
  assumes init_inv: "init s \<Longrightarrow> inv s"
    and step_inv: "inv s \<Longrightarrow> inv (step e s)"
begin

lemma run_inv: "inv s \<Longrightarrow> inv (fold step es s)"
  by (induction es arbitrary: s) (simp_all add: step_inv)

lemma reach_inv: "init s \<Longrightarrow> inv (fold step es s)"
  by (blast intro: run_inv init_inv)

lemma run_append: "fold step (es @ es') s = fold step es' (fold step es s)"
  by simp

lemma run_frame: "(\<And>e s. f (step e s) = f s) \<Longrightarrow> f (fold step es s) = f s"
  by (induction es arbitrary: s) simp_all

end

end
