(* ===== verification/Ring_Buffer.thy ===== *)
theory Ring_Buffer
  imports GM_Prelude
begin

text \<open>
  \<open>packages/client/src/ring-buffer.ts\<close>: the bounded replay buffer. The class is modelled on
  its circular array (\<open>push\<close>, the byte-bound shedding loop, \<open>toArray\<close>, \<open>clear\<close>), refined to
  a specification on plain lists, and offered to the session as the locale
  \<open>replay_buffer\<close>: whatever is pushed is retained, evicted or refused, in order.
\<close>

section \<open>Numbers as the constructor receives them\<close>

text \<open>A JavaScript number: an exact rational (every finite double is one), or not finite.\<close>

datatype jsnum = Fin rat | Pos_inf | Neg_inf | NaN

definition is_js_integer :: "jsnum \<Rightarrow> bool" where
  "is_js_integer n = (case n of Fin r \<Rightarrow> snd (quotient_of r) = 1 | _ \<Rightarrow> False)"

fun js_gt_zero :: "jsnum \<Rightarrow> bool" where
  "js_gt_zero (Fin r) = (0 < r)"
| "js_gt_zero Pos_inf = True"
| "js_gt_zero _ = False"

section \<open>The buffer\<close>

text \<open>
  \<open>rb_max = None\<close> is \<open>maxBytes = Infinity\<close>; a slot holds \<open>None\<close> for the array's
  \<open>undefined\<close>. \<open>onEvict\<close> is not called here: every operation returns the evicted items,
  oldest first, in the order the code announces them.
\<close>

record 'a ring =
  rb_capacity :: nat
  rb_items :: "'a option list"
  rb_max :: "rat option"
  rb_sizeOf :: "'a \<Rightarrow> rat"
  rb_reject :: bool
  rb_start :: nat
  rb_count :: nat
  rb_bytes :: rat
  rb_dropped :: nat
  rb_rejected :: nat

datatype ring_error = Bad_capacity | Bad_max_bytes

definition ring_new ::
  "jsnum \<Rightarrow> jsnum option \<Rightarrow> ('a \<Rightarrow> rat) option \<Rightarrow> bool \<Rightarrow> ring_error + 'a ring" where
  "ring_new capacity maxBytes sizeOf rejectOversize =
     (case capacity of
        Fin c \<Rightarrow>
          if \<not> is_js_integer capacity \<or> c < 1 then Inl Bad_capacity
          else if maxBytes \<noteq> None \<and> \<not> js_gt_zero (the maxBytes) then Inl Bad_max_bytes
          else Inr \<lparr>rb_capacity = nat \<lfloor>c\<rfloor>, rb_items = replicate (nat \<lfloor>c\<rfloor>) None,
                    rb_max = (case maxBytes of Some (Fin m) \<Rightarrow> Some m | _ \<Rightarrow> None),
                    rb_sizeOf = (case sizeOf of None \<Rightarrow> (\<lambda>_. 0) | Some f \<Rightarrow> f),
                    rb_reject = rejectOversize,
                    rb_start = 0, rb_count = 0, rb_bytes = 0, rb_dropped = 0, rb_rejected = 0\<rparr>
      | _ \<Rightarrow> Inl Bad_capacity)"

text \<open>The size of an item: not measured at all when there is no byte bound.\<close>

definition ring_size :: "'a ring \<Rightarrow> 'a \<Rightarrow> rat" where
  "ring_size rb x = (case rb_max rb of None \<Rightarrow> 0 | Some _ \<Rightarrow> rb_sizeOf rb x)"

definition over_max :: "'a ring \<Rightarrow> rat \<Rightarrow> bool" where
  "over_max rb n = (case rb_max rb of None \<Rightarrow> False | Some m \<Rightarrow> m < n)"

text \<open>The byte-bound loop: drop from the oldest end, never down to empty.\<close>

function ring_shed :: "'a ring \<Rightarrow> 'a ring \<times> 'a list" where
  "ring_shed rb =
     (if over_max rb (rb_bytes rb) \<and> 1 < rb_count rb
      then let evicted = the (rb_items rb ! rb_start rb);
               rb' = rb\<lparr>rb_items := (rb_items rb)[rb_start rb := None],
                        rb_start := (rb_start rb + 1) mod rb_capacity rb,
                        rb_count := rb_count rb - 1,
                        rb_bytes := rb_bytes rb - rb_sizeOf rb evicted,
                        rb_dropped := rb_dropped rb + 1\<rparr>;
               (rb'', ev) = ring_shed rb'
           in (rb'', evicted # ev)
      else (rb, []))"
  by pat_completeness auto
termination
  by (relation "measure rb_count") auto

declare ring_shed.simps [simp del]

definition ring_store :: "'a ring \<Rightarrow> 'a \<Rightarrow> 'a ring \<times> 'a list" where
  "ring_store rb x =
     (if rb_count rb = rb_capacity rb
      then let evicted = the (rb_items rb ! rb_start rb)
           in (rb\<lparr>rb_bytes := rb_bytes rb - ring_size rb evicted + ring_size rb x,
                  rb_items := (rb_items rb)[rb_start rb := Some x],
                  rb_start := (rb_start rb + 1) mod rb_capacity rb,
                  rb_dropped := rb_dropped rb + 1\<rparr>, [evicted])
      else (rb\<lparr>rb_items := (rb_items rb)[(rb_start rb + rb_count rb) mod rb_capacity rb := Some x],
               rb_count := rb_count rb + 1,
               rb_bytes := rb_bytes rb + ring_size rb x\<rparr>, []))"

definition ring_push :: "'a ring \<Rightarrow> 'a \<Rightarrow> 'a ring \<times> 'a list \<times> bool" where
  "ring_push rb x =
     (if rb_reject rb \<and> over_max rb (ring_size rb x)
      then (rb\<lparr>rb_rejected := rb_rejected rb + 1\<rparr>, [], False)
      else let (rb1, ev1) = ring_store rb x;
               (rb2, ev2) = ring_shed rb1
           in (rb2, ev1 @ ev2, True))"

definition ring_list :: "'a ring \<Rightarrow> 'a list" where
  "ring_list rb =
     map (\<lambda>i. the (rb_items rb ! ((rb_start rb + i) mod rb_capacity rb))) [0..<rb_count rb]"

definition ring_clear :: "'a ring \<Rightarrow> 'a ring" where
  "ring_clear rb = rb\<lparr>rb_items := replicate (length (rb_items rb)) None,
                      rb_start := 0, rb_count := 0, rb_bytes := 0\<rparr>"

section \<open>Invariant\<close>

definition ring_ok :: "'a ring \<Rightarrow> bool" where
  "ring_ok rb \<longleftrightarrow>
     0 < rb_capacity rb \<and> length (rb_items rb) = rb_capacity rb \<and>
     rb_start rb < rb_capacity rb \<and> rb_count rb \<le> rb_capacity rb \<and>
     (\<forall>i < rb_count rb. rb_items rb ! ((rb_start rb + i) mod rb_capacity rb) \<noteq> None) \<and>
     rb_bytes rb = sum_list (map (ring_size rb) (ring_list rb))"

lemma ring_new_ok: "ring_new c m s r = Inr rb \<Longrightarrow> ring_ok rb \<and> ring_list rb = []"
  by (auto simp: ring_new_def ring_ok_def ring_list_def split: jsnum.splits if_splits)

lemma length_ring_list [simp]: "length (ring_list rb) = rb_count rb"
  by (simp add: ring_list_def)

lemma ring_clear_ok: "ring_ok rb \<Longrightarrow> ring_ok (ring_clear rb) \<and> ring_list (ring_clear rb) = []"
  by (auto simp: ring_clear_def ring_ok_def ring_list_def)

text \<open>Two slots of the live window are different slots of the array.\<close>

lemma window_inj_le:
  assumes "i \<le> j" "j < c" "(s + i) mod c = (s + j) mod (c::nat)"
  shows "i = j"
proof -
  have "c dvd (s + j) - (s + i)"
    using assms by (subst mod_eq_dvd_iff_nat [symmetric]) auto
  then have "c dvd j - i" by simp
  with assms show ?thesis by (auto dest: dvd_imp_le)
qed

lemma window_inj:
  assumes "i < c" "j < c" "(s + i) mod c = (s + j) mod (c::nat)"
  shows "i = j"
  using assms window_inj_le [of i j c s] window_inj_le [of j i c s] by (cases "i \<le> j") auto

lemma next_slot: "(((s::nat) + 1) mod c + i) mod c = (s + Suc i) mod c"
  by (simp add: mod_simps)

lemma ring_size_frame [simp]:
  "ring_size (rb\<lparr>rb_items := a\<rparr>) = ring_size rb"
  "ring_size (rb\<lparr>rb_start := b\<rparr>) = ring_size rb"
  "ring_size (rb\<lparr>rb_count := c\<rparr>) = ring_size rb"
  "ring_size (rb\<lparr>rb_bytes := d\<rparr>) = ring_size rb"
  "ring_size (rb\<lparr>rb_dropped := e\<rparr>) = ring_size rb"
  "ring_size (rb\<lparr>rb_rejected := e\<rparr>) = ring_size rb"
  by (simp_all add: ring_size_def fun_eq_iff split: option.split)

lemma ring_list_frame [simp]:
  "ring_list (rb\<lparr>rb_bytes := d\<rparr>) = ring_list rb"
  "ring_list (rb\<lparr>rb_dropped := e\<rparr>) = ring_list rb"
  "ring_list (rb\<lparr>rb_rejected := e\<rparr>) = ring_list rb"
  by (simp_all add: ring_list_def)

lemma nth_ring_list:
  "i < rb_count rb \<Longrightarrow>
   ring_list rb ! i = the (rb_items rb ! ((rb_start rb + i) mod rb_capacity rb))"
  by (simp add: ring_list_def)

text \<open>How the three array writes of the code look on the list of live items.\<close>

definition wrote_last :: "'a ring \<Rightarrow> 'a \<Rightarrow> 'a ring" where
  "wrote_last rb x =
     rb\<lparr>rb_items := (rb_items rb)[(rb_start rb + rb_count rb) mod rb_capacity rb := Some x],
        rb_count := rb_count rb + 1\<rparr>"

definition dropped_first :: "'a ring \<Rightarrow> 'a ring" where
  "dropped_first rb =
     rb\<lparr>rb_items := (rb_items rb)[rb_start rb := None],
        rb_start := (rb_start rb + 1) mod rb_capacity rb,
        rb_count := rb_count rb - 1\<rparr>"

definition rotated :: "'a ring \<Rightarrow> 'a \<Rightarrow> 'a ring" where
  "rotated rb x =
     rb\<lparr>rb_items := (rb_items rb)[rb_start rb := Some x],
        rb_start := (rb_start rb + 1) mod rb_capacity rb\<rparr>"

text \<open>The shape of the array, without the byte count.\<close>

definition ring_shape :: "'a ring \<Rightarrow> bool" where
  "ring_shape rb \<longleftrightarrow>
     0 < rb_capacity rb \<and> length (rb_items rb) = rb_capacity rb \<and>
     rb_start rb < rb_capacity rb \<and> rb_count rb \<le> rb_capacity rb \<and>
     (\<forall>i < rb_count rb. rb_items rb ! ((rb_start rb + i) mod rb_capacity rb) \<noteq> None)"

lemma ring_ok_shape:
  "ring_ok rb \<longleftrightarrow> ring_shape rb \<and> rb_bytes rb = sum_list (map (ring_size rb) (ring_list rb))"
  by (simp add: ring_ok_def ring_shape_def)

lemma ring_shapeD:
  assumes "ring_shape rb"
  shows "0 < rb_capacity rb" "length (rb_items rb) = rb_capacity rb"
    "rb_start rb < rb_capacity rb" "rb_count rb \<le> rb_capacity rb"
  using assms by (simp_all add: ring_shape_def)

lemma ring_shape_nth:
  "ring_shape rb \<Longrightarrow> i < rb_count rb \<Longrightarrow>
   rb_items rb ! ((rb_start rb + i) mod rb_capacity rb) \<noteq> None"
  by (simp add: ring_shape_def)

lemma wrote_last_slot:
  assumes "ring_shape rb" and "rb_count rb < rb_capacity rb" and "i \<le> rb_count rb"
  shows "rb_items (wrote_last rb x) ! ((rb_start rb + i) mod rb_capacity rb)
         = (if i = rb_count rb then Some x
            else rb_items rb ! ((rb_start rb + i) mod rb_capacity rb))"
proof (cases "i = rb_count rb")
  case True
  then show ?thesis using ring_shapeD [OF assms(1)] by (simp add: wrote_last_def)
next
  case False
  then have "(rb_start rb + rb_count rb) mod rb_capacity rb \<noteq> (rb_start rb + i) mod rb_capacity rb"
    using window_inj [of i "rb_capacity rb" "rb_count rb" "rb_start rb"] assms by auto
  with False show ?thesis by (simp add: wrote_last_def)
qed

lemma wrote_last_list:
  assumes "ring_shape rb" and "rb_count rb < rb_capacity rb"
  shows "ring_list (wrote_last rb x) = ring_list rb @ [x]" and "ring_shape (wrote_last rb x)"
proof -
  have fr: "rb_start (wrote_last rb x) = rb_start rb" "rb_capacity (wrote_last rb x) = rb_capacity rb"
    "rb_count (wrote_last rb x) = Suc (rb_count rb)"
    "length (rb_items (wrote_last rb x)) = length (rb_items rb)"
    by (simp_all add: wrote_last_def)
  show "ring_list (wrote_last rb x) = ring_list rb @ [x]"
    by (rule nth_equalityI)
      (auto simp: fr nth_ring_list wrote_last_slot [OF assms] nth_append less_Suc_eq_le)
  show "ring_shape (wrote_last rb x)"
    using assms ring_shapeD [OF assms(1)] ring_shape_nth [OF assms(1)]
    unfolding ring_shape_def [of "wrote_last rb x"] fr
    by (auto simp: wrote_last_slot [OF assms] less_Suc_eq_le)
qed

lemma dropped_first_slot:
  assumes "ring_shape rb" and "Suc i < rb_count rb"
  shows "rb_items (dropped_first rb) ! ((rb_start (dropped_first rb) + i) mod rb_capacity rb)
         = rb_items rb ! ((rb_start rb + Suc i) mod rb_capacity rb)"
proof -
  have "rb_start rb \<noteq> (rb_start rb + Suc i) mod rb_capacity rb"
    using window_inj [of "Suc i" "rb_capacity rb" 0 "rb_start rb"] assms ring_shapeD [OF assms(1)]
    by auto
  moreover have "(rb_start (dropped_first rb) + i) mod rb_capacity rb
                 = (rb_start rb + Suc i) mod rb_capacity rb"
    using next_slot [of "rb_start rb" "rb_capacity rb" i] by (simp add: dropped_first_def)
  ultimately show ?thesis by (simp add: dropped_first_def)
qed

lemma dropped_first_list:
  assumes "ring_shape rb" and "0 < rb_count rb"
  shows "ring_list (dropped_first rb) = tl (ring_list rb)" and "ring_shape (dropped_first rb)"
proof -
  have fr: "rb_capacity (dropped_first rb) = rb_capacity rb"
    "rb_count (dropped_first rb) = rb_count rb - 1"
    "length (rb_items (dropped_first rb)) = length (rb_items rb)"
    by (simp_all add: dropped_first_def)
  have st: "rb_start (dropped_first rb) < rb_capacity rb"
    using ring_shapeD [OF assms(1)] by (simp add: dropped_first_def)
  have slot: "rb_items (dropped_first rb) ! ((rb_start (dropped_first rb) + i) mod rb_capacity rb)
         = rb_items rb ! ((rb_start rb + Suc i) mod rb_capacity rb)" if "i < rb_count rb - 1" for i
    using dropped_first_slot [OF assms(1), of i] that by simp
  show "ring_list (dropped_first rb) = tl (ring_list rb)"
    by (rule nth_equalityI) (auto simp: fr nth_ring_list slot nth_tl)
  have live: "Suc i < rb_count rb \<Longrightarrow>
      rb_items rb ! ((rb_start rb + Suc i) mod rb_capacity rb) \<noteq> None" for i
    by (rule ring_shape_nth [OF assms(1)])
  show "ring_shape (dropped_first rb)"
    using assms ring_shapeD [OF assms(1)] live
    unfolding ring_shape_def [of "dropped_first rb"] fr
    by (auto simp: slot st)
qed

lemma rotated_slot:
  assumes "ring_shape rb" and "rb_count rb = rb_capacity rb" and "i < rb_capacity rb"
  shows "rb_items (rotated rb x) ! ((rb_start (rotated rb x) + i) mod rb_capacity rb)
         = (if Suc i = rb_capacity rb then Some x
            else rb_items rb ! ((rb_start rb + Suc i) mod rb_capacity rb))"
proof -
  have slot: "(rb_start (rotated rb x) + i) mod rb_capacity rb
              = (rb_start rb + Suc i) mod rb_capacity rb"
    using next_slot [of "rb_start rb" "rb_capacity rb" i] by (simp add: rotated_def)
  show ?thesis
  proof (cases "Suc i = rb_capacity rb")
    case True
    then have "(rb_start rb + Suc i) mod rb_capacity rb = rb_start rb"
      using ring_shapeD [OF assms(1)] by simp
    then show ?thesis unfolding slot using True ring_shapeD [OF assms(1)] by (simp add: rotated_def)
  next
    case False
    then have "rb_start rb \<noteq> (rb_start rb + Suc i) mod rb_capacity rb"
      using window_inj [of "Suc i" "rb_capacity rb" 0 "rb_start rb"] assms ring_shapeD [OF assms(1)]
      by auto
    then show ?thesis unfolding slot using False by (simp add: rotated_def)
  qed
qed

lemma rotated_list:
  assumes "ring_shape rb" and "rb_count rb = rb_capacity rb"
  shows "ring_list (rotated rb x) = tl (ring_list rb) @ [x]" and "ring_shape (rotated rb x)"
proof -
  have fr: "rb_capacity (rotated rb x) = rb_capacity rb" "rb_count (rotated rb x) = rb_count rb"
    "length (rb_items (rotated rb x)) = length (rb_items rb)"
    by (simp_all add: rotated_def)
  have st: "rb_start (rotated rb x) < rb_capacity rb"
    using ring_shapeD [OF assms(1)] by (simp add: rotated_def)
  have "(tl (ring_list rb) @ [x]) ! i =
        (if Suc i = rb_capacity rb then x
         else the (rb_items rb ! ((rb_start rb + Suc i) mod rb_capacity rb)))"
    if "i < rb_capacity rb" for i
    using that assms(2) by (auto simp: nth_append nth_tl nth_ring_list)
  then show "ring_list (rotated rb x) = tl (ring_list rb) @ [x]"
    using ring_shapeD [OF assms(1)]
    by (intro nth_equalityI) (auto simp: fr nth_ring_list rotated_slot [OF assms] assms(2))
  have live: "Suc i < rb_count rb \<Longrightarrow>
      rb_items rb ! ((rb_start rb + Suc i) mod rb_capacity rb) \<noteq> None" for i
    by (rule ring_shape_nth [OF assms(1)])
  show "ring_shape (rotated rb x)"
    using assms ring_shapeD [OF assms(1)] live
    unfolding ring_shape_def [of "rotated rb x"] fr
    by (auto simp: rotated_slot [OF assms] st)
qed

lemma first_slot:
  assumes "ring_shape rb" and "0 < rb_count rb"
  shows "the (rb_items rb ! rb_start rb) = hd (ring_list rb)"
  using assms nth_ring_list [of 0 rb] ring_shapeD [OF assms(1)]
  by (simp add: hd_conv_nth flip: length_greater_0_conv)

section \<open>Refinement to lists\<close>

text \<open>The same operations on the list of retained items.\<close>

fun shed_list :: "('a \<Rightarrow> rat) \<Rightarrow> rat option \<Rightarrow> 'a list \<Rightarrow> 'a list \<times> 'a list" where
  "shed_list sz m [] = ([], [])"
| "shed_list sz m [x] = ([x], [])"
| "shed_list sz m (x # y # xs) =
     (if (case m of None \<Rightarrow> False | Some b \<Rightarrow> b < sum_list (map sz (x # y # xs)))
      then let (kept, ev) = shed_list sz m (y # xs) in (kept, x # ev)
      else (x # y # xs, []))"

definition push_list ::
  "nat \<Rightarrow> ('a \<Rightarrow> rat) \<Rightarrow> rat option \<Rightarrow> bool \<Rightarrow> 'a list \<Rightarrow> 'a \<Rightarrow> 'a list \<times> 'a list \<times> bool" where
  "push_list cap sz m reject xs x =
     (if reject \<and> (case m of None \<Rightarrow> False | Some b \<Rightarrow> b < sz x) then (xs, [], False)
      else let (ys, ev1) = (if length xs = cap then (tl xs @ [x], [hd xs]) else (xs @ [x], []));
               (zs, ev2) = shed_list sz m ys
           in (zs, ev1 @ ev2, True))"

definition ring_config :: "'a ring \<Rightarrow> nat \<times> rat option \<times> ('a \<Rightarrow> rat) \<times> bool" where
  "ring_config rb = (rb_capacity rb, rb_max rb, rb_sizeOf rb, rb_reject rb)"

lemma ring_size_cong: "ring_config rb' = ring_config rb \<Longrightarrow> ring_size rb' = ring_size rb"
  by (simp add: ring_size_def ring_config_def fun_eq_iff split: option.split)

lemma dropped_first_config [simp]: "ring_config (dropped_first rb) = ring_config rb"
  and wrote_last_config [simp]: "ring_config (wrote_last rb x) = ring_config rb"
  and rotated_config [simp]: "ring_config (rotated rb x) = ring_config rb"
  by (simp_all add: ring_config_def dropped_first_def wrote_last_def rotated_def)

lemma ring_shape_frame [simp]:
  "ring_shape (rb\<lparr>rb_bytes := d\<rparr>) = ring_shape rb"
  "ring_shape (rb\<lparr>rb_dropped := e\<rparr>) = ring_shape rb"
  "ring_shape (rb\<lparr>rb_rejected := e\<rparr>) = ring_shape rb"
  by (simp_all add: ring_shape_def)

lemma ring_config_frame [simp]:
  "ring_config (rb\<lparr>rb_bytes := d\<rparr>) = ring_config rb"
  "ring_config (rb\<lparr>rb_dropped := e\<rparr>) = ring_config rb"
  "ring_config (rb\<lparr>rb_rejected := e\<rparr>) = ring_config rb"
  by (simp_all add: ring_config_def)

lemma sum_tl: "xs \<noteq> [] \<Longrightarrow> sum_list (map f (tl xs)) = sum_list (map f xs) - (f (hd xs) :: rat)"
  by (cases xs) auto

text \<open>One turn of the shedding loop, and the loop.\<close>

lemma ring_shed_step:
  assumes ok: "ring_ok rb" and go: "over_max rb (rb_bytes rb)" "1 < rb_count rb"
  defines "rb' \<equiv> (dropped_first rb)\<lparr>rb_bytes := rb_bytes rb - rb_sizeOf rb (hd (ring_list rb)),
                                    rb_dropped := rb_dropped rb + 1\<rparr>"
  shows "ring_shed rb = (fst (ring_shed rb'), hd (ring_list rb) # snd (ring_shed rb'))"
    and "ring_ok rb'" and "ring_list rb' = tl (ring_list rb)"
    and "ring_config rb' = ring_config rb" and "rb_dropped rb' = Suc (rb_dropped rb)"
    and "rb_rejected rb' = rb_rejected rb" and "rb_count rb' = rb_count rb - 1"
proof -
  have sh: "ring_shape rb" and c: "0 < rb_count rb"
    using ok go by (auto simp: ring_ok_shape)
  have "rb' = rb\<lparr>rb_items := (rb_items rb)[rb_start rb := None],
                 rb_start := (rb_start rb + 1) mod rb_capacity rb,
                 rb_count := rb_count rb - 1,
                 rb_bytes := rb_bytes rb - rb_sizeOf rb (hd (ring_list rb)),
                 rb_dropped := rb_dropped rb + 1\<rparr>"
    by (simp add: rb'_def dropped_first_def)
  then show "ring_shed rb = (fst (ring_shed rb'), hd (ring_list rb) # snd (ring_shed rb'))"
    using go first_slot [OF sh c] by (subst ring_shed.simps) (simp add: Let_def split: prod.split)
  show l: "ring_list rb' = tl (ring_list rb)"
    by (simp add: rb'_def dropped_first_list [OF sh c])
  show cfg: "ring_config rb' = ring_config rb" by (simp add: rb'_def)
  obtain m where m: "rb_max rb = Some m" using go(1) by (auto simp: over_max_def split: option.splits)
  have "ring_list rb \<noteq> []" using c by (simp flip: length_greater_0_conv)
  moreover have "ring_size rb = rb_sizeOf rb" using m by (simp add: ring_size_def fun_eq_iff)
  ultimately have "rb_bytes rb' = sum_list (map (ring_size rb) (tl (ring_list rb)))"
    using ok by (simp add: rb'_def ring_ok_shape sum_tl)
  then show "ring_ok rb'"
    unfolding ring_ok_shape l ring_size_cong [OF cfg]
    by (simp add: rb'_def dropped_first_list [OF sh c])
  show "rb_dropped rb' = Suc (rb_dropped rb)" "rb_rejected rb' = rb_rejected rb"
    "rb_count rb' = rb_count rb - 1"
    by (simp_all add: rb'_def dropped_first_def)
qed

lemma shed_list_stop:
  "length xs \<le> 1 \<or> \<not> (case m of None \<Rightarrow> False | Some b \<Rightarrow> b < sum_list (map sz xs)) \<Longrightarrow>
   shed_list sz m xs = (xs, [])"
  by (cases "(sz, m, xs)" rule: shed_list.cases) auto

lemma shed_list_go:
  "1 < length xs \<Longrightarrow> (case m of None \<Rightarrow> False | Some b \<Rightarrow> b < sum_list (map sz xs)) \<Longrightarrow>
   shed_list sz m xs = (fst (shed_list sz m (tl xs)), hd xs # snd (shed_list sz m (tl xs)))"
  by (cases "(sz, m, xs)" rule: shed_list.cases) (auto split: prod.split)

lemma ring_shed_refines:
  assumes "ring_ok rb"
  shows "ring_ok (fst (ring_shed rb)) \<and>
     ring_config (fst (ring_shed rb)) = ring_config rb \<and>
     (ring_list (fst (ring_shed rb)), snd (ring_shed rb))
       = shed_list (ring_size rb) (rb_max rb) (ring_list rb) \<and>
     rb_dropped (fst (ring_shed rb)) = rb_dropped rb + length (snd (ring_shed rb)) \<and>
     rb_rejected (fst (ring_shed rb)) = rb_rejected rb"
  using assms
proof (induction "rb_count rb" arbitrary: rb rule: less_induct)
  case less
  show ?case
  proof (cases "over_max rb (rb_bytes rb) \<and> 1 < rb_count rb")
    case False
    then have "ring_shed rb = (rb, [])" by (subst ring_shed.simps) auto
    moreover have "shed_list (ring_size rb) (rb_max rb) (ring_list rb) = (ring_list rb, [])"
      using False less.prems by (intro shed_list_stop) (auto simp: over_max_def ring_ok_shape split: option.splits)
    ultimately show ?thesis using less.prems by simp
  next
    case True
    define rb' where "rb' = (dropped_first rb)\<lparr>rb_bytes := rb_bytes rb - rb_sizeOf rb (hd (ring_list rb)),
                                    rb_dropped := rb_dropped rb + 1\<rparr>"
    have go: "over_max rb (rb_bytes rb)" "1 < rb_count rb" using True by auto
    note step = ring_shed_step [OF less.prems go, folded rb'_def]
    have "rb_count rb' < rb_count rb" using step(7) go(2) by simp
    note IH = less.hyps [OF this step(2)]
    have "shed_list (ring_size rb) (rb_max rb) (ring_list rb) =
      (fst (shed_list (ring_size rb) (rb_max rb) (tl (ring_list rb))),
       hd (ring_list rb) # snd (shed_list (ring_size rb) (rb_max rb) (tl (ring_list rb))))"
      using go less.prems
      by (intro shed_list_go) (auto simp: over_max_def ring_ok_shape split: option.splits)
    moreover have "rb_max rb' = rb_max rb" using step(4) by (simp add: ring_config_def)
    ultimately show ?thesis
      using IH step(1,3,4,5,6) ring_size_cong [OF step(4)] by (auto simp: prod_eq_iff)
  qed
qed

lemma ring_store_refines:
  assumes ok: "ring_ok rb"
  shows "ring_ok (fst (ring_store rb x)) \<and>
     ring_config (fst (ring_store rb x)) = ring_config rb \<and>
     (ring_list (fst (ring_store rb x)), snd (ring_store rb x))
       = (if length (ring_list rb) = rb_capacity rb then (tl (ring_list rb) @ [x], [hd (ring_list rb)])
          else (ring_list rb @ [x], [])) \<and>
     rb_dropped (fst (ring_store rb x)) = rb_dropped rb + length (snd (ring_store rb x)) \<and>
     rb_rejected (fst (ring_store rb x)) = rb_rejected rb"
proof (cases "rb_count rb = rb_capacity rb")
  case True
  have sh: "ring_shape rb" using ok by (simp add: ring_ok_shape)
  have c: "0 < rb_count rb" using True ring_shapeD [OF sh] by simp
  then have ne: "ring_list rb \<noteq> []" by (simp flip: length_greater_0_conv)
  have eq: "ring_store rb x =
    ((rotated rb x)\<lparr>rb_bytes := rb_bytes rb - ring_size rb (hd (ring_list rb)) + ring_size rb x,
                    rb_dropped := rb_dropped rb + 1\<rparr>, [hd (ring_list rb)])"
    using True by (simp add: ring_store_def rotated_def first_slot [OF sh c, symmetric] Let_def)
  have "rb_bytes rb - ring_size rb (hd (ring_list rb)) + ring_size rb x
        = sum_list (map (ring_size rb) (tl (ring_list rb) @ [x]))"
    using ok ne by (simp add: ring_ok_shape sum_tl)
  then show ?thesis
    using True unfolding eq
    by (simp add: ring_ok_shape rotated_list [OF sh True]
        ring_size_cong [OF rotated_config]) (simp add: rotated_def)
next
  case False
  have sh: "ring_shape rb" using ok by (simp add: ring_ok_shape)
  have c: "rb_count rb < rb_capacity rb" using False ring_shapeD [OF sh] by simp
  have eq: "ring_store rb x = ((wrote_last rb x)\<lparr>rb_bytes := rb_bytes rb + ring_size rb x\<rparr>, [])"
    using False by (simp add: ring_store_def wrote_last_def)
  show ?thesis
    using False ok unfolding eq
    by (simp add: ring_ok_shape wrote_last_list [OF sh c]
        ring_size_cong [OF wrote_last_config]) (simp add: wrote_last_def)
qed

lemma ring_push_step:
  assumes ok: "ring_ok rb" and push: "ring_push rb x = (rb', ev, acc)"
  shows "ring_ok rb'" and "ring_config rb' = ring_config rb"
    and "(ring_list rb', ev, acc)
         = push_list (rb_capacity rb) (ring_size rb) (rb_max rb) (rb_reject rb) (ring_list rb) x"
    and "rb_dropped rb' = rb_dropped rb + length ev"
    and "rb_rejected rb' = rb_rejected rb + (if acc then 0 else 1)"
proof -
  note st = ring_store_refines [OF ok, of x]
  define rb1 where "rb1 = fst (ring_store rb x)"
  note sh = ring_shed_refines [of rb1]
  have ok1: "ring_ok rb1" and cfg1: "ring_config rb1 = ring_config rb"
    using st by (simp_all add: rb1_def)
  have cap1: "rb_capacity rb1 = rb_capacity rb" "rb_max rb1 = rb_max rb"
    using cfg1 by (simp_all add: ring_config_def)
  note sz1 = ring_size_cong [OF cfg1]
  have all: "ring_ok rb' \<and> ring_config rb' = ring_config rb \<and>
    (ring_list rb', ev, acc)
      = push_list (rb_capacity rb) (ring_size rb) (rb_max rb) (rb_reject rb) (ring_list rb) x \<and>
    rb_dropped rb' = rb_dropped rb + length ev \<and>
    rb_rejected rb' = rb_rejected rb + (if acc then 0 else 1)"
  proof (cases "rb_reject rb \<and> over_max rb (ring_size rb x)")
    case True
    then have "rb' = rb\<lparr>rb_rejected := rb_rejected rb + 1\<rparr>" "ev = []" "\<not> acc"
      using push by (auto simp: ring_push_def)
    moreover have "push_list (rb_capacity rb) (ring_size rb) (rb_max rb) (rb_reject rb)
        (ring_list rb) x = (ring_list rb, [], False)"
      using True by (simp add: push_list_def over_max_def)
    ultimately show ?thesis using ok by (simp add: ring_ok_shape)
  next
    case False
    then have eqs: "rb' = fst (ring_shed rb1)" "ev = snd (ring_store rb x) @ snd (ring_shed rb1)" "acc"
      using push by (auto simp: ring_push_def rb1_def split: prod.splits)
    have "push_list (rb_capacity rb) (ring_size rb) (rb_max rb) (rb_reject rb) (ring_list rb) x
      = (let (ys, ev1) = (ring_list rb1, snd (ring_store rb x));
             (zs, ev2) = shed_list (ring_size rb) (rb_max rb) ys in (zs, ev1 @ ev2, True))"
      unfolding push_list_def if_not_P [OF False [unfolded over_max_def]]
      using st by (simp only: rb1_def)
    then show ?thesis
      using sh [OF ok1] st eqs cfg1
      by (auto simp: rb1_def [symmetric] sz1 cap1 prod_eq_iff split: prod.splits)
  qed
  then show "ring_ok rb'" and "ring_config rb' = ring_config rb"
    and "(ring_list rb', ev, acc)
         = push_list (rb_capacity rb) (ring_size rb) (rb_max rb) (rb_reject rb) (ring_list rb) x"
    and "rb_dropped rb' = rb_dropped rb + length ev"
    and "rb_rejected rb' = rb_rejected rb + (if acc then 0 else 1)"
    by blast+
qed

section \<open>What the list operations promise\<close>

lemma shed_list_split: "snd (shed_list sz m xs) @ fst (shed_list sz m xs) = xs"
  by (induction sz m xs rule: shed_list.induct) (auto split: prod.split)

lemma shed_list_nonempty: "xs \<noteq> [] \<Longrightarrow> fst (shed_list sz m xs) \<noteq> []"
  by (induction sz m xs rule: shed_list.induct) (auto split: prod.splits)

lemma shed_list_bound:
  "m = Some b \<Longrightarrow> 1 < length (fst (shed_list sz m xs)) \<Longrightarrow>
   sum_list (map sz (fst (shed_list sz m xs))) \<le> b"
  by (induction sz m xs rule: shed_list.induct) (auto split: prod.splits if_splits)

lemma shed_list_bound_one:
  "m = Some b \<Longrightarrow> xs \<noteq> [] \<Longrightarrow> sz (last xs) \<le> b \<Longrightarrow>
   sum_list (map sz (fst (shed_list sz m xs))) \<le> b"
  by (induction sz m xs rule: shed_list.induct) (auto split: prod.splits if_splits)

lemma shed_list_length: "length (fst (shed_list sz m xs)) \<le> length xs"
  by (metis shed_list_split length_append le_add2)

lemma push_list_conserves:
  assumes "push_list cap sz m rej xs x = (ys, ev, acc)" and "0 < cap" and "length xs \<le> cap"
  shows "if acc then ev @ ys = xs @ [x] else ev = [] \<and> ys = xs"
proof -
  have full: "length xs = cap \<Longrightarrow> hd xs # tl xs = xs" using assms(2) by (cases xs) auto
  show ?thesis
    using assms(1) full shed_list_split [of sz m "tl xs @ [x]"] shed_list_split [of sz m "xs @ [x]"]
    by (auto simp: push_list_def split: if_splits prod.splits)
qed

lemma push_list_bounds:
  assumes "push_list cap sz m rej xs x = (ys, ev, acc)" and "0 < cap" and "length xs \<le> cap"
  shows "length ys \<le> cap"
    and "acc \<Longrightarrow> ys \<noteq> [] \<and> last ys = x"
    and "acc \<Longrightarrow> m = Some b \<Longrightarrow> 1 < length ys \<Longrightarrow> sum_list (map sz ys) \<le> b"
    and "acc \<Longrightarrow> m = Some b \<Longrightarrow> rej \<Longrightarrow> sum_list (map sz ys) \<le> b"
proof -
  define zs where "zs = (if length xs = cap then tl xs @ [x] else xs @ [x])"
  have zs: "zs \<noteq> []" "last zs = x" "length zs \<le> cap"
    using assms(2,3) by (auto simp: zs_def)
  have cases_: "(ys = xs \<and> \<not> acc) \<or>
      (acc \<and> ys = fst (shed_list sz m zs) \<and> (rej \<longrightarrow> m = Some b \<longrightarrow> sz x \<le> b))" for b
    using assms(1) by (auto simp: push_list_def zs_def split: if_splits prod.splits)
  show "length ys \<le> cap"
    using cases_ assms(3) zs(3) shed_list_length [of sz m zs] by (metis le_trans)
  show "acc \<Longrightarrow> ys \<noteq> [] \<and> last ys = x"
    using cases_ zs shed_list_nonempty [of zs sz m] shed_list_split [of sz m zs] by (metis last_appendR)
  show "acc \<Longrightarrow> m = Some b \<Longrightarrow> 1 < length ys \<Longrightarrow> sum_list (map sz ys) \<le> b"
    using cases_ shed_list_bound [of m b sz zs] by auto
  show "acc \<Longrightarrow> m = Some b \<Longrightarrow> rej \<Longrightarrow> sum_list (map sz ys) \<le> b"
    using cases_ [of b] zs shed_list_bound_one [of m b zs sz] by auto
qed

lemma ring_ok_bounds: "ring_ok rb \<Longrightarrow> 0 < rb_capacity rb \<and> length (ring_list rb) \<le> rb_capacity rb"
  by (simp add: ring_ok_def)

section \<open>The interface the session relies on\<close>

locale replay_buffer =
  fixes push :: "'b \<Rightarrow> 'a \<Rightarrow> 'b \<times> 'a list \<times> bool"
    and contents :: "'b \<Rightarrow> 'a list"
    and ok :: "'b \<Rightarrow> bool"
  assumes push_ok: "ok b \<Longrightarrow> push b x = (b', ev, acc) \<Longrightarrow> ok b'"
    and accepted: "ok b \<Longrightarrow> push b x = (b', ev, True) \<Longrightarrow> ev @ contents b' = contents b @ [x]"
    and refused: "ok b \<Longrightarrow> push b x = (b', ev, False) \<Longrightarrow> ev = [] \<and> contents b' = contents b"
    and keeps_newest: "ok b \<Longrightarrow> push b x = (b', ev, True) \<Longrightarrow> contents b' \<noteq> []"
begin

lemma newest_last: "ok b \<Longrightarrow> push b x = (b', ev, True) \<Longrightarrow> last (contents b') = x"
  using accepted [of b x b' ev] keeps_newest [of b x b' ev] by (metis last_appendR last_snoc)

lemma members:
  assumes "ok b" and "push b x = (b', ev, acc)"
  shows "set ev \<union> set (contents b') = set (contents b) \<union> (if acc then {x} else {})"
proof (cases acc)
  case True
  with accepted [of b x b' ev] assms have "set (ev @ contents b') = set (contents b @ [x])" by simp
  with True show ?thesis by simp
next
  case False
  with refused [of b x b' ev] assms show ?thesis by simp
qed

lemma evicted_were_there: "ok b \<Longrightarrow> push b x = (b', ev, acc) \<Longrightarrow> set ev \<subseteq> set (contents b)"
proof (cases acc)
  case True
  assume a: "ok b" "push b x = (b', ev, acc)"
  with True have e: "ev @ contents b' = contents b @ [x]" by (simp add: accepted)
  moreover have "contents b' \<noteq> []" using a True by (simp add: keeps_newest)
  ultimately have "ev @ butlast (contents b') = contents b"
    by (metis butlast_append butlast_snoc)
  then show ?thesis by (metis Un_upper1 set_append)
next
  case False
  assume "ok b" "push b x = (b', ev, acc)"
  with False refused [of b x b' ev] show ?thesis by auto
qed

end

interpretation rb: replay_buffer ring_push ring_list ring_ok
proof
  fix b b' :: "'a ring" and x :: 'a and ev acc
  assume ok: "ring_ok b"
  {
    assume p: "ring_push b x = (b', ev, acc)"
    show "ring_ok b'" by (rule ring_push_step(1) [OF ok p])
  next
    assume p: "ring_push b x = (b', ev, True)"
    show "ev @ ring_list b' = ring_list b @ [x]"
      using push_list_conserves [OF ring_push_step(3) [OF ok p, symmetric]] ring_ok_bounds [OF ok]
      by simp
    show "ring_list b' \<noteq> []"
      using push_list_bounds(2) [OF ring_push_step(3) [OF ok p, symmetric]] ring_ok_bounds [OF ok]
      by simp
  next
    assume p: "ring_push b x = (b', ev, False)"
    show "ev = [] \<and> ring_list b' = ring_list b"
      using push_list_conserves [OF ring_push_step(3) [OF ok p, symmetric]] ring_ok_bounds [OF ok]
      by simp
  }
qed

section \<open>Runs of the buffer\<close>

text \<open>A sequence of pushes: the buffer, everything evicted, everything accepted.\<close>

fun ring_pushes :: "'a ring \<Rightarrow> 'a list \<Rightarrow> 'a ring \<times> 'a list \<times> 'a list" where
  "ring_pushes rb [] = (rb, [], [])"
| "ring_pushes rb (x # xs) =
     (let (rb1, ev1, acc) = ring_push rb x;
          (rb2, ev2, taken) = ring_pushes rb1 xs
      in (rb2, ev1 @ ev2, (if acc then [x] else []) @ taken))"

lemma ring_pushes_step:
  assumes "ring_ok rb" and "ring_pushes rb xs = (rb', ev, taken)"
  shows "ring_ok rb' \<and> ev @ ring_list rb' = ring_list rb @ taken \<and>
         rb_dropped rb' = rb_dropped rb + length ev \<and>
         rb_rejected rb' + length taken = rb_rejected rb + length xs"
  using assms
proof (induction xs arbitrary: rb rb' ev taken)
  case (Cons x xs)
  obtain rb1 ev1 acc where p: "ring_push rb x = (rb1, ev1, acc)" by (metis prod_cases3)
  obtain rb2 ev2 rest where q: "ring_pushes rb1 xs = (rb2, ev2, rest)" by (metis prod_cases3)
  note st = ring_push_step [OF Cons.prems(1) p]
  have one: "ev1 @ ring_list rb1 = ring_list rb @ (if acc then [x] else [])"
    using push_list_conserves [OF st(3) [symmetric]] ring_ok_bounds [OF Cons.prems(1)]
    by (auto split: if_splits)
  have IH: "ring_ok rb2 \<and> ev2 @ ring_list rb2 = ring_list rb1 @ rest \<and>
      rb_dropped rb2 = rb_dropped rb1 + length ev2 \<and>
      rb_rejected rb2 + length rest = rb_rejected rb1 + length xs"
    by (rule Cons.IH [OF st(1) q])
  have eqs: "rb' = rb2" "ev = ev1 @ ev2" "taken = (if acc then [x] else []) @ rest"
    using Cons.prems(2) by (auto simp: p q)
  have "ev @ ring_list rb' = (ev1 @ ring_list rb1) @ rest" using IH eqs by simp
  then show ?case using IH eqs st(4,5) one by (auto split: if_splits)
qed simp

section \<open>Properties\<close>

text \<open>
  C11: Every \<open>push\<close> on the circular array (the wrap-around of \<open>start\<close>, the byte counter kept
  by difference, the shedding loop) does to the retained items exactly what the plain list
  operation does: same items in the same order, same evictions in the same order, same
  verdict; and the well-formedness of the array is kept.
\<close>

theorem ring_push_refines_list:
  assumes "ring_ok rb" and "ring_push rb x = (rb', ev, acc)"
  shows "ring_ok rb' \<and>
    (ring_list rb', ev, acc)
      = push_list (rb_capacity rb) (ring_size rb) (rb_max rb) (rb_reject rb) (ring_list rb) x"
  using ring_push_step(1,3) [OF assms] by blast

definition ring_sample :: "nat ring" where
  "ring_sample =
     \<lparr>rb_capacity = 3, rb_items = [Some 4, Some 2, Some 3], rb_max = Some 10, rb_sizeOf = of_nat,
      rb_reject = True, rb_start = 1, rb_count = 3, rb_bytes = 9, rb_dropped = 1, rb_rejected = 0\<rparr>"

lemma ring_sample_ok: "ring_ok ring_sample"
proof -
  have "rb_items ring_sample ! ((1 + i) mod 3) \<noteq> None" if "i < 3" for i
  proof -
    have "i = 0 \<or> i = 1 \<or> i = 2" using that by linarith
    then show ?thesis by (auto simp: ring_sample_def)
  qed
  moreover have "ring_list ring_sample = [2, 3, 4]" by code_simp
  ultimately show ?thesis
    by (simp add: ring_ok_def ring_size_def) (simp add: ring_sample_def)
qed

lemma ring_push_refines_list_witness:
  "ring_list (fst (ring_push ring_sample 7)) = [7] \<and> fst (snd (ring_push ring_sample 7)) = [2, 3, 4]"
proof -
  obtain rb' ev acc where p: "ring_push ring_sample 7 = (rb', ev, acc)" by (metis prod_cases3)
  have "push_list 3 (of_nat :: nat \<Rightarrow> rat) (Some 10) True [2, 3, 4] 7 = ([7], [2, 3, 4], True)" by code_simp
  moreover have "ring_list ring_sample = [2, 3, 4]" by code_simp
  moreover have "ring_size ring_sample = of_nat" by (rule ext) (simp add: ring_size_def ring_sample_def)
  ultimately show ?thesis
    using ring_push_refines_list [OF ring_sample_ok p] by (simp add: p) (simp add: ring_sample_def)
qed

text \<open>
  C15: Over any sequence of pushes on a new buffer nothing is lost silently and nothing is
  reordered: the evicted items followed by the retained ones are exactly the accepted items in
  the order of their arrival, and the two diagnostic counters say how many were evicted and
  how many were refused.
\<close>

theorem ring_run_conserves:
  assumes "ring_new c m s r = Inr rb" and "ring_pushes rb xs = (rb', ev, taken)"
  shows "ev @ ring_list rb' = taken \<and> rb_dropped rb' = length ev \<and>
         rb_rejected rb' + length taken = length xs"
proof -
  have new: "ring_ok rb" "ring_list rb = []" using ring_new_ok [OF assms(1)] by simp_all
  have "rb_dropped rb = 0" "rb_rejected rb = 0"
    using assms(1) by (auto simp: ring_new_def split: jsnum.splits if_splits)
  with ring_pushes_step [OF new(1) assms(2)] new(2) show ?thesis by simp
qed

lemma ring_run_conserves_witness:
  "\<exists>rb rb' ev taken. ring_new (Fin 2) (Some (Fin 10)) (Some of_nat) True = Inr rb \<and>
     ring_pushes rb [4, 20, 5, 3 :: nat] = (rb', ev, taken) \<and> ev @ ring_list rb' = [4, 5, 3]"
proof -
  obtain rb where rb: "ring_new (Fin 2) (Some (Fin 10)) (Some (of_nat :: nat \<Rightarrow> rat)) True = Inr rb"
    by (simp add: ring_new_def is_js_integer_def)
  obtain rb' ev taken where p: "ring_pushes rb [4, 20, 5, 3] = (rb', ev, taken)" by (metis prod_cases3)
  have "snd (snd (ring_pushes (projr (ring_new (Fin 2) (Some (Fin 10)) (Some (of_nat :: nat \<Rightarrow> rat)) True))
          [4, 20, 5, 3])) = [4, 5, 3]" by code_simp
  then have "taken = [4, 5, 3]" using rb p by simp
  with ring_run_conserves [OF rb p] rb p show ?thesis by auto
qed

text \<open>
  The bounds hold after every push: never more than \<open>capacity\<close> items; an accepted item is
  retained as the newest; whenever more than the newest item remains, or oversized items are
  refused, the retained bytes are within \<open>maxBytes\<close>.
\<close>

theorem ring_push_bounds:
  assumes ok: "ring_ok rb" and push: "ring_push rb x = (rb', ev, acc)"
  shows "length (ring_list rb') \<le> rb_capacity rb \<and>
    (acc \<longrightarrow> ring_list rb' \<noteq> [] \<and> last (ring_list rb') = x) \<and>
    (acc \<longrightarrow> rb_max rb = Some b \<longrightarrow> 1 < length (ring_list rb') \<or> rb_reject rb \<longrightarrow> rb_bytes rb' \<le> b)"
proof -
  note st = ring_push_step [OF ok push]
  note bd = push_list_bounds [OF st(3) [symmetric]]
  have c: "0 < rb_capacity rb" "length (ring_list rb) \<le> rb_capacity rb"
    using ring_ok_bounds [OF ok] by simp_all
  have "rb_bytes rb' = sum_list (map (ring_size rb) (ring_list rb'))"
    using st(1) ring_size_cong [OF st(2)] by (simp add: ring_ok_def)
  then show ?thesis using bd [OF c] by auto
qed

lemma ring_push_bounds_witness:
  "length (ring_list (fst (ring_push ring_sample 7))) \<le> 3 \<and>
   rb_bytes (fst (ring_push ring_sample 7)) \<le> 10"
proof -
  obtain rb' ev acc where p: "ring_push ring_sample 7 = (rb', ev, acc)" by (metis prod_cases3)
  have "snd (snd (ring_push ring_sample 7))" by code_simp
  then have "acc" by (simp add: p)
  moreover have "rb_capacity ring_sample = 3" "rb_max ring_sample = Some 10" "rb_reject ring_sample"
    by (simp_all add: ring_sample_def)
  ultimately show ?thesis using ring_push_bounds [OF ring_sample_ok p, of 10] by (simp add: p)
qed

end
