(* ===== verification/Clock.thy ===== *)
theory Clock
  imports Ring_Buffer
begin

text \<open>
  \<open>packages/client/src/clock.ts\<close> (the wire contract of durations) and
  \<open>packages/client/src/ids.ts\<close> (the per-process counter ids the pauses are named by).

  Clock readings are exact rationals: every finite double is one. The rounding of the
  subtraction and of \<open>Number(toFixed(2))\<close> to the nearest double is not modelled.
\<close>

section \<open>Durations\<close>

text \<open>
  \<open>toFixed(2)\<close>: the integer nearest to \<open>100 x\<close>, the larger one on a tie, over 100;
  from \<open>10^21\<close> on it prints the number as it is.
\<close>

definition to_fixed2 :: "rat \<Rightarrow> rat" where
  "to_fixed2 x = (if 10 ^ 21 \<le> x then x else of_int \<lfloor>x * 100 + 1 / 2\<rfloor> / 100)"

definition normalizeDurationMs :: "jsnum \<Rightarrow> millis" where
  "normalizeDurationMs raw =
     (case raw of Fin r \<Rightarrow> if r \<le> 0 then 0 else to_fixed2 r | _ \<Rightarrow> 0)"

definition elapsedMs :: "millis \<Rightarrow> millis \<Rightarrow> millis" where
  "elapsedMs startedAt now = normalizeDurationMs (Fin (now - startedAt))"

lemma normalize_nonneg: "0 \<le> normalizeDurationMs raw"
proof (cases raw)
  case (Fin r)
  have "0 < r \<Longrightarrow> 0 \<le> \<lfloor>r * 100 + 1 / 2\<rfloor>" by (simp add: zero_le_floor)
  then have "0 < r \<Longrightarrow> (0::rat) \<le> of_int \<lfloor>r * 100 + 1 / 2\<rfloor>" by (simp only: of_int_0_le_iff)
  then show ?thesis using Fin by (auto simp: normalizeDurationMs_def to_fixed2_def)
qed (simp_all add: normalizeDurationMs_def)

lemma to_fixed2_error: "x < 10 ^ 21 \<Longrightarrow> \<bar>to_fixed2 x - x\<bar> \<le> 1 / 200"
proof -
  assume "x < 10 ^ 21"
  then have e: "to_fixed2 x = of_int \<lfloor>x * 100 + 1 / 2\<rfloor> / 100" by (simp add: to_fixed2_def)
  have "of_int \<lfloor>x * 100 + 1 / 2\<rfloor> \<le> x * 100 + 1 / 2" by simp
  moreover have "x * 100 + 1 / 2 < of_int \<lfloor>x * 100 + 1 / 2\<rfloor> + 1"
    using floor_correct [of "x * 100 + 1 / 2"] by linarith
  ultimately have "of_int \<lfloor>x * 100 + 1 / 2\<rfloor> / 100 - x \<le> 1 / 200"
    and "x - of_int \<lfloor>x * 100 + 1 / 2\<rfloor> / 100 \<le> 1 / 200"
    by linarith+
  then show ?thesis unfolding e by linarith
qed

lemma to_fixed2_hundredths: "to_fixed2 (of_int n / 100) = of_int n / 100"
proof -
  have "\<lfloor>of_int n / 100 * 100 + (1 / 2 :: rat)\<rfloor> = n" by (simp add: floor_unique)
  then show ?thesis by (simp add: to_fixed2_def)
qed

lemma to_fixed2_idem: "to_fixed2 (to_fixed2 x) = to_fixed2 x"
  using to_fixed2_hundredths [of "\<lfloor>x * 100 + 1 / 2\<rfloor>"]
  by (cases "10 ^ 21 \<le> x") (simp_all add: to_fixed2_def)

lemma to_fixed2_mono: "x \<le> y \<Longrightarrow> y < 10 ^ 21 \<Longrightarrow> to_fixed2 x \<le> to_fixed2 y"
  by (simp add: to_fixed2_def divide_right_mono floor_mono)

section \<open>Counter ids\<close>

text \<open>Decimal digits of a counter, as a template literal prints it.\<close>

fun show_nat :: "nat \<Rightarrow> string" where
  "show_nat n = (if n < 10 then [char_of (48 + n)] else show_nat (n div 10) @ [char_of (48 + n mod 10)])"

declare show_nat.simps [simp del]

definition digits_value :: "string \<Rightarrow> nat" where
  "digits_value s = foldl (\<lambda>a c. 10 * a + (of_char c - 48)) 0 s"

lemma digit_value: "d < 10 \<Longrightarrow> of_char (char_of (48 + d :: nat)) - 48 = (d :: nat)"
  by (simp add: of_char_of)

lemma digits_value_show: "digits_value (show_nat n) = n"
proof (induction n rule: show_nat.induct)
  case (1 n)
  show ?case
  proof (cases "n < 10")
    case True
    then show ?thesis using digit_value [of n]
      by (simp add: show_nat.simps [of n] digits_value_def)
  next
    case False
    with 1 have "digits_value (show_nat (n div 10)) = n div 10" by simp
    then show ?thesis using False digit_value [of "n mod 10"]
      by (simp add: show_nat.simps [of n] digits_value_def)
  qed
qed

lemma show_nat_inj: "show_nat m = show_nat n \<longleftrightarrow> m = n"
  by (metis digits_value_show)

text \<open>
  \<open>makeCounterIds(prefix)\<close>: the \<open>n\<close>-th call returns \<open>prefix_base_n\<close>; \<open>base\<close> is the
  random part drawn once.
\<close>

definition counter_id :: "string \<Rightarrow> string \<Rightarrow> nat \<Rightarrow> ident" where
  "counter_id prefix base n = prefix @ ''_'' @ base @ ''_'' @ show_nat n"

lemma counter_id_inj: "counter_id p b m = counter_id p b n \<longleftrightarrow> m = n"
  by (simp add: counter_id_def show_nat_inj)

section \<open>Properties\<close>

text \<open>
  The wire contract of a duration: whatever the raw number is (negative, NaN, infinite), the
  normalised value is non-negative; normalising twice changes nothing; and a positive reading
  below \<open>10^21\<close> is reported within half a hundredth of a millisecond.
\<close>

theorem duration_contract:
  "0 \<le> normalizeDurationMs raw \<and>
   normalizeDurationMs (Fin (normalizeDurationMs raw)) = normalizeDurationMs raw \<and>
   (\<forall>r. raw = Fin r \<and> 0 < r \<and> r < 10 ^ 21 \<longrightarrow> \<bar>normalizeDurationMs raw - r\<bar> \<le> 1 / 200)"
proof (intro conjI allI impI)
  show "0 \<le> normalizeDurationMs raw" by (rule normalize_nonneg)
  then show "normalizeDurationMs (Fin (normalizeDurationMs raw)) = normalizeDurationMs raw"
    by (cases raw) (auto simp: normalizeDurationMs_def to_fixed2_idem)
  show "\<bar>normalizeDurationMs raw - r\<bar> \<le> 1 / 200" if "raw = Fin r \<and> 0 < r \<and> r < 10 ^ 21" for r
    using that to_fixed2_error [of r] by (simp add: normalizeDurationMs_def)
qed

lemma duration_contract_witness:
  "\<bar>normalizeDurationMs (Fin (1234567 / 1000)) - 1234567 / 1000\<bar> \<le> 1 / 200"
  using duration_contract [of "Fin (1234567 / 1000)"] by simp

end
