(* ===== verification/Gate_Engine.thy ===== *)
theory Gate_Engine
  imports Clock
begin

text \<open>
  \<open>packages/client/src/gate-engine.ts\<close>: the bookkeeping of held gates inside the
  instrumented process. Every public method of \<open>GateEngine\<close> is one definition on an explicit
  engine state; what it does to the outside (the two callbacks and the promise of
  \<open>hold\<close>) is returned as a list of effects. A clock reading is an argument,
  \<open>None\<close> when the injected clock throws.

  The lemmas show the invariant of the held map, that every gate is answered exactly once,
  that a verdict presented with a stale ticket changes nothing, and the fail-open release.
\<close>

section \<open>Data\<close>

record gate_node =
  gn_nodeId :: ident
  gn_kind :: node_kind
  gn_name :: ident
  gn_instanceId :: "ident option"

definition withInstanceId :: "gate_node \<Rightarrow> ident option \<Rightarrow> gate_node" where
  "withInstanceId node i =
     (case i of Some s \<Rightarrow> if s \<noteq> [] then node\<lparr>gn_instanceId := Some s\<rparr> else node | None \<Rightarrow> node)"

text \<open>\<open>input\<close> is \<open>None\<close> where the decision object has no such key.\<close>

datatype 'v decision =
  D_continue "'v option" | D_retry "'v option" | D_abort | D_inject 'v

fun decision_action :: "'v decision \<Rightarrow> resume_action" where
  "decision_action (D_continue _) = Act_continue"
| "decision_action (D_retry _) = Act_retry"
| "decision_action D_abort = Act_abort"
| "decision_action (D_inject _) = Act_inject"

abbreviation CONTINUE_DECISION :: "'v decision" where
  "CONTINUE_DECISION \<equiv> D_continue None"

record 'v resume_info =
  ri_requestId :: "ident option"
  ri_edited :: "'v option"

record matcher =
  bm_kind :: "node_kind option"
  bm_name :: "ident option"
  bm_point :: "pause_point option"

definition matcherMatches :: "matcher \<Rightarrow> pause_point \<Rightarrow> gate_node \<Rightarrow> bool" where
  "matcherMatches m point node =
     (if (case bm_point m of None \<Rightarrow> Before | Some p \<Rightarrow> p) \<noteq> point then False
      else if bm_kind m \<noteq> None \<and> bm_kind m \<noteq> Some (gn_kind node) then False
      else if bm_name m \<noteq> None \<and> bm_name m \<noteq> Some (gn_name node) then False
      else True)"

definition matcherEquals :: "matcher \<Rightarrow> matcher \<Rightarrow> bool" where
  "matcherEquals a b \<longleftrightarrow>
     bm_kind a = bm_kind b \<and> bm_name a = bm_name b \<and> bm_point a = bm_point b"

datatype gate_state = Gs_held | Gs_validating

text \<open>A ticket is an object: its pause id and its identity.\<close>

type_synonym ticket = "ident \<times> nat"

text \<open>
  \<open>hg_timer\<close>: a pause timeout is armed. \<open>hg_live\<close>: the promise of \<open>hold\<close> is
  pending (it was rejected when announcing the pause threw).
\<close>

record held_gate =
  hg_node :: gate_node
  hg_point :: pause_point
  hg_runId :: ident
  hg_openedAt :: millis
  hg_timer :: bool
  hg_live :: bool
  hg_state :: gate_state
  hg_ticket :: "ticket option"

record engine =
  ge_breakpoints :: "matcher list"
  ge_mode :: run_mode
  ge_held :: "(ident, held_gate) omap"
  ge_pauseTimeoutMs :: "millis option"
  ge_tickets :: nat

datatype 'v gate_effect =
    Eff_paused ident gate_node pause_point ident
  | Eff_rejected ident
  | Eff_resumed ident gate_node resume_action ident millis "'v resume_info option"
  | Eff_resolved ident "'v decision"

definition engine_new :: "millis option \<Rightarrow> engine" where
  "engine_new timeout =
     \<lparr>ge_breakpoints = [], ge_mode = Run_mode, ge_held = [], ge_pauseTimeoutMs = timeout,
      ge_tickets = 0\<rparr>"

section \<open>Breakpoints and mode\<close>

definition arm :: "matcher list \<Rightarrow> run_mode \<Rightarrow> engine \<Rightarrow> engine" where
  "arm bps mode e = e\<lparr>ge_breakpoints := bps, ge_mode := mode\<rparr>"

definition disarm :: "engine \<Rightarrow> engine" where
  "disarm e = e\<lparr>ge_breakpoints := [], ge_mode := Run_mode\<rparr>"

definition setMode :: "run_mode \<Rightarrow> engine \<Rightarrow> engine" where
  "setMode mode e = e\<lparr>ge_mode := mode\<rparr>"

definition addBreakpoint :: "matcher \<Rightarrow> engine \<Rightarrow> engine" where
  "addBreakpoint m e =
     (if \<not> list_ex (\<lambda>existing. matcherEquals existing m) (ge_breakpoints e)
      then e\<lparr>ge_breakpoints := ge_breakpoints e @ [m]\<rparr> else e)"

definition removeBreakpoint :: "matcher \<Rightarrow> engine \<Rightarrow> engine" where
  "removeBreakpoint m e =
     e\<lparr>ge_breakpoints := filter (\<lambda>existing. \<not> matcherEquals existing m) (ge_breakpoints e)\<rparr>"

definition shouldPause :: "pause_point \<Rightarrow> gate_node \<Rightarrow> engine \<Rightarrow> bool" where
  "shouldPause point node e =
     (if ge_mode e = Step_mode \<and> point \<noteq> After then True
      else list_ex (\<lambda>m. matcherMatches m point node) (ge_breakpoints e))"

section \<open>Holding and releasing\<close>

text \<open>
  \<open>hold\<close>: the id has been drawn; a clock that throws here rejects the promise before
  anything is registered. \<open>announced\<close> says whether \<open>onPaused\<close> returned: if it
  threw, the gate stays registered and its promise is rejected.
\<close>

definition hold ::
  "ident \<Rightarrow> pause_point \<Rightarrow> gate_node \<Rightarrow> ident \<Rightarrow> millis option \<Rightarrow> bool \<Rightarrow> engine \<Rightarrow>
   engine \<times> 'v gate_effect list" where
  "hold pauseId point node runId now announced e =
     (case now of
        None \<Rightarrow> (e, [Eff_rejected pauseId])
      | Some t \<Rightarrow>
          let gate = \<lparr>hg_node = node, hg_point = point, hg_runId = runId, hg_openedAt = t,
                      hg_timer = (ge_pauseTimeoutMs e \<noteq> None), hg_live = announced,
                      hg_state = Gs_held, hg_ticket = None\<rparr>
          in (e\<lparr>ge_held := AList.update pauseId gate (ge_held e)\<rparr>,
              [if announced then Eff_paused pauseId node point runId else Eff_rejected pauseId]))"

definition settle ::
  "ident \<Rightarrow> 'v decision \<Rightarrow> resume_action \<Rightarrow> 'v resume_info option \<Rightarrow> millis option \<Rightarrow> engine \<Rightarrow>
   engine \<times> 'v gate_effect list \<times> bool" where
  "settle pauseId decision action info now e =
     (case map_of (ge_held e) pauseId of
        None \<Rightarrow> (e, [], False)
      | Some gate \<Rightarrow>
          let heldMs = (case now of None \<Rightarrow> 0 | Some t \<Rightarrow> normalizeDurationMs (Fin (t - hg_openedAt gate)))
          in (e\<lparr>ge_held := AList.delete pauseId (ge_held e)\<rparr>,
              Eff_resumed pauseId (hg_node gate) action (hg_runId gate) heldMs info
                # (if hg_live gate then [Eff_resolved pauseId decision] else []),
              True))"

definition gate_timeout ::
  "ident \<Rightarrow> millis option \<Rightarrow> engine \<Rightarrow> engine \<times> 'v gate_effect list \<times> bool" where
  "gate_timeout pauseId now e =
     (case map_of (ge_held e) pauseId of
        Some gate \<Rightarrow> if hg_timer gate then settle pauseId CONTINUE_DECISION Act_continue None now e
                    else (e, [], False)
      | None \<Rightarrow> (e, [], False))"

definition resume ::
  "ident \<Rightarrow> resume_action \<Rightarrow> 'v \<Rightarrow> 'v resume_info option \<Rightarrow> millis option \<Rightarrow> engine \<Rightarrow>
   engine \<times> 'v gate_effect list \<times> bool" where
  "resume pauseId action output info now e =
     (if map_option hg_state (map_of (ge_held e) pauseId) \<noteq> Some Gs_held then (e, [], False)
      else let decision = (case action of Act_inject \<Rightarrow> D_inject output
                             | Act_continue \<Rightarrow> D_continue None
                             | Act_retry \<Rightarrow> D_retry None
                             | Act_abort \<Rightarrow> D_abort)
           in settle pauseId decision action info now e)"

record held_view =
  hv_pauseId :: ident
  hv_node :: gate_node
  hv_point :: pause_point
  hv_runId :: ident
  hv_state :: gate_state

definition peek :: "ident \<Rightarrow> engine \<Rightarrow> held_view option" where
  "peek pauseId e =
     (case map_of (ge_held e) pauseId of
        None \<Rightarrow> None
      | Some gate \<Rightarrow> Some \<lparr>hv_pauseId = pauseId, hv_node = hg_node gate, hv_point = hg_point gate,
                          hv_runId = hg_runId gate, hv_state = hg_state gate\<rparr>)"

definition beginValidation :: "ident \<Rightarrow> engine \<Rightarrow> engine \<times> ticket option" where
  "beginValidation pauseId e =
     (case map_of (ge_held e) pauseId of
        None \<Rightarrow> (e, None)
      | Some gate \<Rightarrow>
          if hg_state gate \<noteq> Gs_held then (e, None)
          else let ticket = (pauseId, ge_tickets e)
               in (e\<lparr>ge_held := AList.update pauseId
                       (gate\<lparr>hg_state := Gs_validating, hg_ticket := Some ticket\<rparr>) (ge_held e),
                     ge_tickets := Suc (ge_tickets e)\<rparr>,
                   Some ticket))"

definition overdue :: "millis option \<Rightarrow> held_gate \<Rightarrow> engine \<Rightarrow> bool" where
  "overdue now gate e =
     (case ge_pauseTimeoutMs e of
        None \<Rightarrow> False
      | Some limit \<Rightarrow> (case now of None \<Rightarrow> False | Some t \<Rightarrow> limit \<le> t - hg_openedAt gate))"

definition reopen ::
  "ticket \<Rightarrow> millis option \<Rightarrow> engine \<Rightarrow> engine \<times> 'v gate_effect list \<times> bool" where
  "reopen ticket now e =
     (case map_of (ge_held e) (fst ticket) of
        None \<Rightarrow> (e, [], False)
      | Some gate \<Rightarrow>
          if hg_ticket gate \<noteq> Some ticket then (e, [], False)
          else if overdue now gate e
          then let (e', eff, _) = settle (fst ticket) CONTINUE_DECISION Act_continue None now e
               in (e', eff, False)
          else (e\<lparr>ge_held := AList.update (fst ticket)
                     (gate\<lparr>hg_state := Gs_held, hg_ticket := None\<rparr>) (ge_held e)\<rparr>, [], True))"

definition completeValidation ::
  "ticket \<Rightarrow> 'v decision \<Rightarrow> 'v resume_info option \<Rightarrow> millis option \<Rightarrow> engine \<Rightarrow>
   engine \<times> 'v gate_effect list \<times> bool" where
  "completeValidation ticket decision info now e =
     (case map_of (ge_held e) (fst ticket) of
        None \<Rightarrow> (e, [], False)
      | Some gate \<Rightarrow>
          if hg_ticket gate \<noteq> Some ticket then (e, [], False)
          else if overdue now gate e
          then let (e', eff, _) = settle (fst ticket) CONTINUE_DECISION Act_continue None now e
               in (e', eff, False)
          else settle (fst ticket) decision (decision_action decision) info now e)"

definition release ::
  "ident \<Rightarrow> millis option \<Rightarrow> engine \<Rightarrow> engine \<times> 'v gate_effect list \<times> bool" where
  "release pauseId now e = settle pauseId CONTINUE_DECISION Act_continue None now e"

text \<open>The loop of \<open>releaseAll\<close> over the ids it took first; \<open>now\<close> reads the clock per gate.\<close>

fun release_each ::
  "ident list \<Rightarrow> (ident \<Rightarrow> millis option) \<Rightarrow> engine \<Rightarrow> engine \<times> 'v gate_effect list" where
  "release_each [] now e = (e, [])"
| "release_each (p # ps) now e =
     (let (e1, eff1, _) = settle p CONTINUE_DECISION Act_continue None (now p) e;
          (e2, eff2) = release_each ps now e1
      in (e2, eff1 @ eff2))"

definition releaseAll ::
  "(ident \<Rightarrow> millis option) \<Rightarrow> engine \<Rightarrow> engine \<times> 'v gate_effect list \<times> nat" where
  "releaseAll now e =
     (let ids = okeys (ge_held e); (e', eff) = release_each ids now e in (e', eff, length ids))"

definition heldCount :: "engine \<Rightarrow> nat" where
  "heldCount e = length (ge_held e)"

section \<open>The invariant of the held map\<close>

definition gate_ok :: "engine \<Rightarrow> ident \<Rightarrow> held_gate \<Rightarrow> bool" where
  "gate_ok e p g \<longleftrightarrow>
     (hg_state g = Gs_validating) = (hg_ticket g \<noteq> None) \<and>
     (\<forall>t. hg_ticket g = Some t \<longrightarrow> fst t = p \<and> snd t < ge_tickets e) \<and>
     hg_timer g = (ge_pauseTimeoutMs e \<noteq> None)"

definition engine_ok :: "engine \<Rightarrow> bool" where
  "engine_ok e \<longleftrightarrow>
     wf_omap (ge_held e) \<and> (\<forall>p g. map_of (ge_held e) p = Some g \<longrightarrow> gate_ok e p g)"

lemma engine_okD: "engine_ok e \<Longrightarrow> map_of (ge_held e) p = Some g \<Longrightarrow> gate_ok e p g"
  by (simp add: engine_ok_def)

lemma engine_new_ok: "engine_ok (engine_new timeout)"
  by (simp add: engine_ok_def engine_new_def)

lemma breakpoint_ops_held [frame]:
  "ge_held (arm b m e) = ge_held e" "ge_held (disarm e) = ge_held e"
  "ge_held (setMode m e) = ge_held e" "ge_held (addBreakpoint x e) = ge_held e"
  "ge_held (removeBreakpoint x e) = ge_held e"
  by (simp_all add: arm_def disarm_def setMode_def addBreakpoint_def removeBreakpoint_def)

lemma breakpoint_ops_ok [step_inv]:
  assumes "engine_ok e"
  shows "engine_ok (arm b m e)" "engine_ok (disarm e)" "engine_ok (setMode m e)"
    "engine_ok (addBreakpoint x e)" "engine_ok (removeBreakpoint x e)"
  using assms
  by (simp_all add: engine_ok_def gate_ok_def arm_def disarm_def setMode_def addBreakpoint_def
      removeBreakpoint_def)

text \<open>The two writes to the held map: one gate replaced, one gate removed.\<close>

lemma engine_ok_update:
  assumes "engine_ok e" and "gate_ok e' p g" and "ge_held e' = AList.update p g (ge_held e)"
    and "ge_pauseTimeoutMs e' = ge_pauseTimeoutMs e" and "ge_tickets e \<le> ge_tickets e'"
  shows "engine_ok e'"
  using assms unfolding engine_ok_def gate_ok_def
  by (fastforce intro: distinct_update split: if_splits)

lemma engine_ok_delete:
  assumes "engine_ok e" and "ge_held e' = AList.delete p (ge_held e)"
    and "ge_pauseTimeoutMs e' = ge_pauseTimeoutMs e" and "ge_tickets e' = ge_tickets e"
  shows "engine_ok e'"
  using assms unfolding engine_ok_def gate_ok_def
  by (auto intro: distinct_delete split: if_splits)

lemma hold_ok: "hold p pt n r now a e = (e', l) \<Longrightarrow> engine_ok e \<Longrightarrow> engine_ok e'"
  by (auto simp: hold_def gate_ok_def Let_def split: option.splits elim!: engine_ok_update)

lemma settle_ok: "settle p d a i now e = (e', l, b) \<Longrightarrow> engine_ok e \<Longrightarrow> engine_ok e'"
  by (auto simp: settle_def Let_def split: option.splits elim!: engine_ok_delete)

lemma gate_timeout_ok: "gate_timeout p now e = (e', l, b) \<Longrightarrow> engine_ok e \<Longrightarrow> engine_ok e'"
  by (auto simp: gate_timeout_def split: option.splits if_splits dest: settle_ok)

lemma resume_ok: "resume p a out i now e = (e', l, b) \<Longrightarrow> engine_ok e \<Longrightarrow> engine_ok e'"
  by (auto simp: resume_def Let_def split: if_splits dest: settle_ok)

lemma beginValidation_ok:
  assumes "beginValidation p e = (e', t)" and ok: "engine_ok e"
  shows "engine_ok e'"
proof (cases "map_of (ge_held e) p")
  case None
  then show ?thesis using assms by (simp add: beginValidation_def)
next
  case (Some g)
  show ?thesis
  proof (cases "hg_state g = Gs_held")
    case True
    let ?g = "g\<lparr>hg_state := Gs_validating, hg_ticket := Some (p, ge_tickets e)\<rparr>"
    have e': "e' = e\<lparr>ge_held := AList.update p ?g (ge_held e), ge_tickets := Suc (ge_tickets e)\<rparr>"
      using assms(1) Some True by (auto simp: beginValidation_def Let_def)
    have "gate_ok e' p ?g" using engine_okD [OF ok Some] by (simp add: gate_ok_def e')
    then show ?thesis by (rule engine_ok_update [OF ok]) (simp_all add: e')
  next
    case False
    then show ?thesis using assms Some by (simp add: beginValidation_def)
  qed
qed

text \<open>A ticket is either stale, too late, or in time.\<close>

lemma reopen_cases:
  assumes "reopen t now e = (e', l, b)"
  obtains (stale) "e' = e" "l = []" "\<not> b"
      "\<forall>g. map_of (ge_held e) (fst t) = Some g \<longrightarrow> hg_ticket g \<noteq> Some t"
    | (late) g where "map_of (ge_held e) (fst t) = Some g" "hg_ticket g = Some t" "overdue now g e"
      "\<not> b" "settle (fst t) CONTINUE_DECISION Act_continue None now e = (e', l, True)"
    | (in_time) g where "map_of (ge_held e) (fst t) = Some g" "hg_ticket g = Some t"
      "\<not> overdue now g e" "b" "l = []"
      "e' = e\<lparr>ge_held := AList.update (fst t) (g\<lparr>hg_state := Gs_held, hg_ticket := None\<rparr>) (ge_held e)\<rparr>"
  using assms
  by (auto simp: reopen_def settle_def Let_def split: option.splits if_splits prod.splits)

lemma completeValidation_cases:
  assumes "completeValidation t d i now e = (e', l, b)"
  obtains (stale) "e' = e" "l = []" "\<not> b"
      "\<forall>g. map_of (ge_held e) (fst t) = Some g \<longrightarrow> hg_ticket g \<noteq> Some t"
    | (late) g where "map_of (ge_held e) (fst t) = Some g" "hg_ticket g = Some t" "overdue now g e"
      "\<not> b" "settle (fst t) CONTINUE_DECISION Act_continue None now e = (e', l, True)"
    | (in_time) g where "map_of (ge_held e) (fst t) = Some g" "hg_ticket g = Some t"
      "\<not> overdue now g e" "b" "settle (fst t) d (decision_action d) i now e = (e', l, True)"
  using assms
  by (auto simp: completeValidation_def settle_def Let_def
      split: option.splits if_splits prod.splits)

lemma reopen_ok:
  assumes "reopen t now e = (e', l, b)" and ok: "engine_ok e"
  shows "engine_ok e'"
  using assms(1)
proof (cases rule: reopen_cases)
  case (in_time g)
  have "gate_ok e' (fst t) (g\<lparr>hg_state := Gs_held, hg_ticket := None\<rparr>)"
    using engine_okD [OF ok in_time(1)] by (simp add: gate_ok_def in_time(6))
  then show ?thesis by (rule engine_ok_update [OF ok]) (simp_all add: in_time(6))
qed (auto intro: ok dest: settle_ok [OF _ ok])

lemma completeValidation_ok:
  "completeValidation t d i now e = (e', l, b) \<Longrightarrow> engine_ok e \<Longrightarrow> engine_ok e'"
  by (erule completeValidation_cases) (auto dest: settle_ok)

lemma release_each_ok:
  fixes l :: "'v gate_effect list"
  shows "release_each ps now e = (e', l) \<Longrightarrow> engine_ok e \<Longrightarrow> engine_ok e'"
proof (induction ps arbitrary: e e' l)
  case (Cons p ps)
  obtain e1 b and eff1 :: "'v gate_effect list"
    where s: "settle p CONTINUE_DECISION Act_continue None (now p) e = (e1, eff1, b)"
    by (metis prod_cases3)
  obtain e2 and l2 :: "'v gate_effect list" where r: "release_each ps now e1 = (e2, l2)" by fastforce
  have "engine_ok e1" by (rule settle_ok [OF s Cons.prems(2)])
  with Cons.IH [OF r] Cons.prems(1) show ?case by (simp add: s r)
qed simp

lemma releaseAll_ok: "releaseAll now e = (e', l, n) \<Longrightarrow> engine_ok e \<Longrightarrow> engine_ok e'"
  by (auto simp: releaseAll_def split: prod.splits dest: release_each_ok)

lemmas engine_op_ok =
  hold_ok settle_ok gate_timeout_ok resume_ok beginValidation_ok reopen_ok completeValidation_ok
  releaseAll_ok

section \<open>The machine the session drives\<close>

text \<open>
  The engine with the id source the session gives it (\<open>makeCounterIds('pause')\<close>) and the
  log of everything it told the outside.
\<close>

record 'v gate_machine =
  gm_engine :: engine
  gm_base :: string
  gm_ids :: nat
  gm_log :: "'v gate_effect list"

datatype 'v gate_event =
    Ev_arm "matcher list" run_mode
  | Ev_disarm
  | Ev_mode run_mode
  | Ev_break_set matcher
  | Ev_break_clear matcher
  | Ev_hold pause_point gate_node ident "millis option" bool
  | Ev_timeout ident "millis option"
  | Ev_resume ident resume_action 'v "'v resume_info option" "millis option"
  | Ev_begin ident
  | Ev_reopen ticket "millis option"
  | Ev_complete ticket "'v decision" "'v resume_info option" "millis option"
  | Ev_release ident "millis option"
  | Ev_release_all "ident \<Rightarrow> millis option"

definition pause_id :: "string \<Rightarrow> nat \<Rightarrow> ident" where
  "pause_id base n = counter_id ''pause'' base n"

text \<open>Every event but the hold is one engine operation; its effects go to the log.\<close>

fun engine_event :: "'v gate_event \<Rightarrow> engine \<Rightarrow> engine \<times> 'v gate_effect list" where
  "engine_event (Ev_arm b m) e = (arm b m e, [])"
| "engine_event Ev_disarm e = (disarm e, [])"
| "engine_event (Ev_mode m) e = (setMode m e, [])"
| "engine_event (Ev_break_set m) e = (addBreakpoint m e, [])"
| "engine_event (Ev_break_clear m) e = (removeBreakpoint m e, [])"
| "engine_event (Ev_timeout p now) e = (let (e', l, _) = gate_timeout p now e in (e', l))"
| "engine_event (Ev_resume p a out i now) e = (let (e', l, _) = resume p a out i now e in (e', l))"
| "engine_event (Ev_begin p) e = (fst (beginValidation p e), [])"
| "engine_event (Ev_reopen t now) e = (let (e', l, _) = reopen t now e in (e', l))"
| "engine_event (Ev_complete t d i now) e =
     (let (e', l, _) = completeValidation t d i now e in (e', l))"
| "engine_event (Ev_release p now) e = (let (e', l, _) = release p now e in (e', l))"
| "engine_event (Ev_release_all now) e = (let (e', l, _) = releaseAll now e in (e', l))"
| "engine_event (Ev_hold _ _ _ _ _) e = (e, [])"

fun gate_step :: "'v gate_event \<Rightarrow> 'v gate_machine \<Rightarrow> 'v gate_machine" where
  "gate_step (Ev_hold pt n r now a) s =
     (let (e', l) = hold (pause_id (gm_base s) (Suc (gm_ids s))) pt n r now a (gm_engine s)
      in s\<lparr>gm_engine := e', gm_ids := Suc (gm_ids s), gm_log := gm_log s @ l\<rparr>)"
| "gate_step ev s =
     (let (e', l) = engine_event ev (gm_engine s) in s\<lparr>gm_engine := e', gm_log := gm_log s @ l\<rparr>)"

definition gate_init :: "'v gate_machine \<Rightarrow> bool" where
  "gate_init s \<longleftrightarrow>
     (\<exists>timeout. gm_engine s = engine_new timeout) \<and> gm_ids s = 0 \<and> gm_log s = []"

definition paused_count :: "ident \<Rightarrow> 'v gate_effect list \<Rightarrow> nat" where
  "paused_count p l = length (filter (\<lambda>e. case e of Eff_paused q _ _ _ \<Rightarrow> q = p | _ \<Rightarrow> False) l)"

definition resolved_count :: "ident \<Rightarrow> 'v gate_effect list \<Rightarrow> nat" where
  "resolved_count p l = length (filter (\<lambda>e. case e of Eff_resolved q _ \<Rightarrow> q = p | _ \<Rightarrow> False) l)"

definition live :: "ident \<Rightarrow> engine \<Rightarrow> nat" where
  "live p e = (case map_of (ge_held e) p of Some g \<Rightarrow> if hg_live g then 1 else 0 | None \<Rightarrow> 0)"

lemma count_simps [simp]:
  "paused_count p [] = 0" "resolved_count p [] = 0"
  "paused_count p (l @ l') = paused_count p l + paused_count p l'"
  "resolved_count p (l @ l') = resolved_count p l + resolved_count p l'"
  "paused_count p (x # l) = (case x of Eff_paused q _ _ _ \<Rightarrow> if q = p then 1 else 0 | _ \<Rightarrow> 0) + paused_count p l"
  "resolved_count p (x # l) = (case x of Eff_resolved q _ \<Rightarrow> if q = p then 1 else 0 | _ \<Rightarrow> 0) + resolved_count p l"
  by (simp_all add: paused_count_def resolved_count_def split: gate_effect.split)

text \<open>
  A settled gate is answered once, and nothing else is: the effects of an operation add to
  a pause id's answers exactly what they take from the held gates.
\<close>

definition answers :: "engine \<Rightarrow> engine \<Rightarrow> 'v gate_effect list \<Rightarrow> bool" where
  "answers e e' l \<longleftrightarrow>
     (\<forall>p. paused_count p l = 0 \<and> resolved_count p l + live p e' = live p e) \<and>
     (\<forall>p. map_of (ge_held e) p = None \<longrightarrow> map_of (ge_held e') p = None)"

lemma answers_refl: "ge_held e' = ge_held e \<Longrightarrow> answers e e' []"
  by (simp add: answers_def live_def)

lemma answers_trans: "answers e e1 l1 \<Longrightarrow> answers e1 e2 l2 \<Longrightarrow> answers e e2 (l1 @ l2)"
  unfolding answers_def by (metis (no_types, lifting) add.assoc add.commute add_0 count_simps(3,4) subset_trans)

lemma settle_answers: "settle p d a i now e = (e', l, b) \<Longrightarrow> answers e e' l"
  by (auto simp: settle_def answers_def live_def split: option.splits if_splits)

lemma update_answers:
  assumes "map_of (ge_held e) p = Some g" and "hg_live g' = hg_live g"
    and "ge_held e' = AList.update p g' (ge_held e)"
  shows "answers e e' []"
  using assms by (auto simp: answers_def live_def)

lemma gate_timeout_answers: "gate_timeout p now e = (e', l, b) \<Longrightarrow> answers e e' l"
  by (auto simp: gate_timeout_def intro: settle_answers answers_refl split: option.splits if_splits)

lemma resume_answers: "resume p a out i now e = (e', l, b) \<Longrightarrow> answers e e' l"
  by (auto simp: resume_def Let_def intro: settle_answers answers_refl split: if_splits)

lemma beginValidation_answers: "answers e (fst (beginValidation p e)) []"
proof (cases "map_of (ge_held e) p")
  case (Some g)
  then show ?thesis
    by (auto simp: beginValidation_def Let_def intro: answers_refl
        update_answers [OF Some, of "g\<lparr>hg_state := s, hg_ticket := t\<rparr>" for s t])
qed (simp add: beginValidation_def answers_refl)

lemma reopen_answers:
  assumes "reopen t now e = (e', l, b)"
  shows "answers e e' l"
  using assms
proof (cases rule: reopen_cases)
  case (in_time g)
  then show ?thesis
    using update_answers [OF in_time(1), of "g\<lparr>hg_state := Gs_held, hg_ticket := None\<rparr>" e'] by simp
qed (auto intro: answers_refl dest: settle_answers)

lemma completeValidation_answers: "completeValidation t d i now e = (e', l, b) \<Longrightarrow> answers e e' l"
  by (erule completeValidation_cases) (auto intro: answers_refl dest: settle_answers)

lemma release_each_answers:
  fixes l :: "'v gate_effect list"
  shows "release_each ps now e = (e', l) \<Longrightarrow> answers e e' l"
proof (induction ps arbitrary: e e' l)
  case (Cons p ps)
  obtain e1 b and l1 :: "'v gate_effect list"
    where s: "settle p CONTINUE_DECISION Act_continue None (now p) e = (e1, l1, b)"
    by (metis prod_cases3)
  obtain e2 and l2 :: "'v gate_effect list" where r: "release_each ps now e1 = (e2, l2)" by fastforce
  have "answers e e1 l1" by (rule settle_answers [OF s])
  moreover have "answers e1 e2 l2" by (rule Cons.IH [OF r])
  ultimately show ?case using Cons.prems by (auto simp: s r intro: answers_trans)
qed (auto intro: answers_refl)

lemma engine_event_answers:
  assumes "engine_event ev e = (e', l)"
  shows "answers e e' l"
  using assms
  by (cases ev)
    (auto simp: release_def releaseAll_def Let_def frame beginValidation_answers
      intro: answers_refl gate_timeout_answers resume_answers reopen_answers
        completeValidation_answers settle_answers release_each_answers
      split: prod.splits)

lemma engine_event_ok:
  assumes "engine_event ev e = (e', l)" and "engine_ok e"
  shows "engine_ok e'"
  using assms
  by (cases ev)
    (auto simp: release_def step_inv dest: engine_op_ok split: prod.splits
      intro: beginValidation_ok [OF surjective_pairing])

definition machine_ok :: "'v gate_machine \<Rightarrow> bool" where
  "machine_ok s \<longleftrightarrow>
     engine_ok (gm_engine s) \<and>
     (\<forall>p. resolved_count p (gm_log s) + live p (gm_engine s) = paused_count p (gm_log s)) \<and>
     (\<forall>p. paused_count p (gm_log s) \<le> 1) \<and>
     (\<forall>p. (\<forall>k \<le> gm_ids s. p \<noteq> pause_id (gm_base s) k) \<longrightarrow>
          paused_count p (gm_log s) = 0 \<and> map_of (ge_held (gm_engine s)) p = None)"

lemma pause_id_inj: "pause_id b m = pause_id b n \<longleftrightarrow> m = n"
  by (simp add: pause_id_def counter_id_inj)

lemma gate_init_ok: "gate_init s \<Longrightarrow> machine_ok s"
  by (auto simp: gate_init_def machine_ok_def engine_new_ok live_def engine_new_def)
     (simp_all add: engine_ok_def)

lemma answers_machine_ok:
  assumes ok: "machine_ok s" and e: "engine_event ev (gm_engine s) = (e', l)"
  shows "machine_ok (s\<lparr>gm_engine := e', gm_log := gm_log s @ l\<rparr>)"
proof -
  have a: "answers (gm_engine s) e' l" by (rule engine_event_answers [OF e])
  then have p0: "paused_count p l = 0" and r: "resolved_count p l + live p e' = live p (gm_engine s)"
    and d: "map_of (ge_held (gm_engine s)) p = None \<Longrightarrow> map_of (ge_held e') p = None" for p
    by (simp_all add: answers_def)
  have "resolved_count p (gm_log s) + (resolved_count p l + live p e') = paused_count p (gm_log s)" for p
    using ok by (simp add: r machine_ok_def)
  then show ?thesis
    using ok d engine_event_ok [OF e] unfolding machine_ok_def
    by (auto simp: p0 add.assoc)
qed

lemma hold_machine_ok:
  fixes s :: "'v gate_machine"
  assumes ok: "machine_ok s"
  shows "machine_ok (gate_step (Ev_hold pt n r now a) s)"
proof -
  let ?p = "pause_id (gm_base s) (Suc (gm_ids s))"
  have new: "?p \<noteq> pause_id (gm_base s) k" if "k \<le> gm_ids s" for k
    using that by (simp add: pause_id_inj)
  then have fresh: "paused_count ?p (gm_log s) = 0" "map_of (ge_held (gm_engine s)) ?p = None"
    using ok unfolding machine_ok_def by blast+
  then have r0: "resolved_count ?p (gm_log s) = 0" "live ?p (gm_engine s) = 0"
    using ok unfolding machine_ok_def by (metis add_is_0)+
  show ?thesis
  proof (cases now)
    case None
    then show ?thesis using ok by (simp add: hold_def machine_ok_def)
  next
    case (Some t)
    obtain e' and l :: "'v gate_effect list" where h: "hold ?p pt n r now a (gm_engine s) = (e', l)" by fastforce
    have ok': "engine_ok e'" using hold_ok [OF h] ok by (simp add: machine_ok_def)
    have l: "paused_count q l = (if q = ?p \<and> a then 1 else 0)" "resolved_count q l = 0" for q
      using h Some by (auto simp: hold_def Let_def)
    have lv: "live q e' = (if q = ?p then (if a then 1 else 0) else live q (gm_engine s))"
      and none: "map_of (ge_held e') q = None \<longleftrightarrow> q \<noteq> ?p \<and> map_of (ge_held (gm_engine s)) q = None" for q
      using h Some by (auto simp: hold_def Let_def live_def split: if_splits)
    have eq: "gate_step (Ev_hold pt n r now a) s
      = s\<lparr>gm_engine := e', gm_ids := Suc (gm_ids s), gm_log := gm_log s @ l\<rparr>"
      by (simp add: h)
    show ?thesis
      unfolding eq using ok ok' fresh r0
      by (auto simp: machine_ok_def l lv none le_Suc_eq)
  qed
qed

lemma gate_step_ok: "machine_ok s \<Longrightarrow> machine_ok (gate_step ev s)"
  by (cases ev) (auto simp del: engine_event.simps gate_step.simps(1)
      simp: hold_machine_ok answers_machine_ok split: prod.split)

interpretation gm: event_machine gate_init gate_step machine_ok
  by unfold_locales (rule gate_init_ok, assumption, rule gate_step_ok)

section \<open>Tickets never come back\<close>

definition current_ticket :: "ticket \<Rightarrow> engine \<Rightarrow> bool" where
  "current_ticket t e \<longleftrightarrow> (\<exists>g. map_of (ge_held e) (fst t) = Some g \<and> hg_ticket g = Some t)"

definition spent :: "ticket \<Rightarrow> engine \<Rightarrow> bool" where
  "spent t e \<longleftrightarrow> snd t < ge_tickets e \<and> \<not> current_ticket t e"

lemma spent_delete:
  "spent t e \<Longrightarrow> ge_held e' = AList.delete p (ge_held e) \<Longrightarrow> ge_tickets e' = ge_tickets e \<Longrightarrow> spent t e'"
  by (auto simp: spent_def current_ticket_def split: if_splits)

lemma spent_update:
  "spent t e \<Longrightarrow> ge_held e' = AList.update p g (ge_held e) \<Longrightarrow> ge_tickets e \<le> ge_tickets e' \<Longrightarrow>
   hg_ticket g \<noteq> Some t \<Longrightarrow> spent t e'"
  by (auto simp: spent_def current_ticket_def split: if_splits)

lemma spent_cong:
  "spent t e \<Longrightarrow> ge_held e' = ge_held e \<Longrightarrow> ge_tickets e' = ge_tickets e \<Longrightarrow> spent t e'"
  by (simp add: spent_def current_ticket_def)

lemma settle_spent: "settle p d a i now e = (e', l, b) \<Longrightarrow> spent t e \<Longrightarrow> spent t e'"
  by (auto simp: settle_def Let_def intro: spent_delete split: option.splits)

lemma release_each_spent:
  fixes l :: "'v gate_effect list"
  shows "release_each ps now e = (e', l) \<Longrightarrow> spent t e \<Longrightarrow> spent t e'"
proof (induction ps arbitrary: e e' l)
  case (Cons p ps)
  obtain e1 b and l1 :: "'v gate_effect list"
    where s: "settle p CONTINUE_DECISION Act_continue None (now p) e = (e1, l1, b)"
    by (metis prod_cases3)
  obtain e2 and l2 :: "'v gate_effect list" where r: "release_each ps now e1 = (e2, l2)" by fastforce
  from Cons.IH [OF r settle_spent [OF s Cons.prems(2)]] Cons.prems(1) show ?case
    by (simp add: s r)
qed simp

lemma beginValidation_spent: "spent t e \<Longrightarrow> spent t (fst (beginValidation p e))"
proof -
  assume sp: "spent t e"
  then have n: "t \<noteq> (q, ge_tickets e)" for q by (auto simp: spent_def)
  have upd: "spent t e'"
    if "e' = e\<lparr>ge_held := AList.update p (g\<lparr>hg_state := Gs_validating, hg_ticket := Some (p, ge_tickets e)\<rparr>) (ge_held e),
              ge_tickets := Suc (ge_tickets e)\<rparr>" for e' g
    using that n [of p] by (intro spent_update [OF sp]) auto
  show ?thesis using sp upd by (auto simp: beginValidation_def Let_def split: option.splits)
qed

lemma reopen_spent:
  assumes "reopen u now e = (e', l, b)" and sp: "spent t e"
  shows "spent t e'"
  using assms(1)
proof (cases rule: reopen_cases)
  case (in_time g)
  show ?thesis by (rule spent_update [OF sp, of e' "fst u" "g\<lparr>hg_state := Gs_held, hg_ticket := None\<rparr>"]) (simp_all add: in_time(6))
qed (auto intro: sp dest: settle_spent [OF _ sp])

lemma completeValidation_spent: "completeValidation u d i now e = (e', l, b) \<Longrightarrow> spent t e \<Longrightarrow> spent t e'"
  by (erule completeValidation_cases) (auto dest: settle_spent)

lemma engine_event_spent:
  assumes "engine_event ev e = (e', l)" and "spent t e"
  shows "spent t e'"
  using assms
  by (cases ev)
    (auto simp: release_def releaseAll_def gate_timeout_def resume_def Let_def frame
        beginValidation_spent arm_def disarm_def setMode_def addBreakpoint_def removeBreakpoint_def
      dest: settle_spent release_each_spent reopen_spent completeValidation_spent
      elim: spent_cong split: prod.splits option.splits if_splits)

lemma gate_step_spent: "spent t (gm_engine s) \<Longrightarrow> spent t (gm_engine (gate_step ev s))"
proof (cases ev)
  case (Ev_hold pt n r now a)
  assume "spent t (gm_engine s)"
  with Ev_hold show ?thesis
    by (auto simp: hold_def Let_def split: option.split elim!: spent_update)
qed (auto simp del: engine_event.simps dest: engine_event_spent split: prod.split)

lemma gate_run_spent: "spent t (gm_engine s) \<Longrightarrow> spent t (gm_engine (fold gate_step es s))"
  by (induction es arbitrary: s) (simp_all del: gate_step.simps add: gate_step_spent)

lemma spent_no_effect:
  assumes "spent t (gm_engine s)"
  shows "gate_step (Ev_complete t d i now) s = s" and "gate_step (Ev_reopen t now) s = s"
  using assms
  by (auto simp: completeValidation_def reopen_def spent_def current_ticket_def split: option.split)

section \<open>What the engine guarantees\<close>

text \<open>
  Every operation leaves the answers in balance, so a gate that was announced has been
  resolved once or is still held, never both and never twice.
\<close>

lemma gate_run_balance:
  "gate_init s \<Longrightarrow>
   resolved_count p (gm_log (fold gate_step es s)) + live p (gm_engine (fold gate_step es s))
     = paused_count p (gm_log (fold gate_step es s)) \<and>
   paused_count p (gm_log (fold gate_step es s)) \<le> 1"
  using gm.reach_inv [of s es] by (simp add: machine_ok_def)

lemma release_each_held:
  "ge_held (fst (release_each ps now e :: engine \<times> 'v gate_effect list))
   = filter (\<lambda>x. fst x \<notin> set ps) (ge_held e)"
proof (induction ps arbitrary: e)
  case (Cons p ps)
  obtain e1 b and l1 :: "'v gate_effect list"
    where s: "settle p CONTINUE_DECISION Act_continue None (now p) e = (e1, l1, b)"
    by (metis prod_cases3)
  then have "ge_held e1 = filter (\<lambda>x. fst x \<noteq> p) (ge_held e)"
    by (auto simp: settle_def Let_def delete_filter filter_absent split: option.splits)
  with Cons.IH [of e1] show ?case by (auto simp: s split: prod.split intro: filter_cong)
qed simp

lemma releaseAll_empty:
  fixes l :: "'v gate_effect list"
  assumes "releaseAll now e = (e', l, n)"
  shows "ge_held e' = [] \<and> n = length (ge_held e)"
proof -
  have "e' = fst (release_each (okeys (ge_held e)) now e :: engine \<times> 'v gate_effect list)"
    and "n = length (ge_held e)"
    using assms by (auto simp: releaseAll_def split: prod.splits)
  then show ?thesis by (simp add: release_each_held filter_empty_conv)
qed

lemma gate_step_release_all:
  "ge_held (gm_engine (gate_step (Ev_release_all now) s)) = []"
  by (auto dest: releaseAll_empty split: prod.split)

lemma addBreakpoint_bps:
  "ge_breakpoints (addBreakpoint m e)
   = (if m \<in> set (ge_breakpoints e) then ge_breakpoints e else ge_breakpoints e @ [m])"
proof -
  have "matcherEquals x m \<longleftrightarrow> x = m" for x
    by (simp add: matcherEquals_def) (metis matcher.surjective old.unit.exhaust)
  then show ?thesis by (auto simp: addBreakpoint_def list_ex_iff)
qed

lemma removeBreakpoint_bps:
  "ge_breakpoints (removeBreakpoint m e) = filter (\<lambda>x. x \<noteq> m) (ge_breakpoints e)"
proof -
  have "matcherEquals x m \<longleftrightarrow> x = m" for x
    by (simp add: matcherEquals_def) (metis matcher.surjective old.unit.exhaust)
  then show ?thesis by (simp add: removeBreakpoint_def)
qed

lemma begin_then_reopen:
  assumes g: "map_of (ge_held e) p = Some g" and ok: "engine_ok e" and b: "beginValidation p e = (e1, Some t)"
    and time: "\<not> overdue now g e"
  shows "reopen t now e1 = (e\<lparr>ge_tickets := Suc (ge_tickets e)\<rparr>, [], True)"
proof -
  have s: "hg_state g = Gs_held"
    using b g by (auto simp: beginValidation_def split: if_splits)
  then have n: "hg_ticket g = None"
    using engine_okD [OF ok g] by (cases "hg_ticket g") (auto simp: gate_ok_def)
  let ?g = "g\<lparr>hg_state := Gs_validating, hg_ticket := Some (p, ge_tickets e)\<rparr>"
  have e1: "e1 = e\<lparr>ge_held := AList.update p ?g (ge_held e), ge_tickets := Suc (ge_tickets e)\<rparr>"
    and t: "t = (p, ge_tickets e)"
    using b g s by (auto simp: beginValidation_def Let_def)
  have "?g\<lparr>hg_state := Gs_held, hg_ticket := None\<rparr> = g" using s n by simp
  moreover have "\<not> overdue now ?g e1" using time by (auto simp: overdue_def e1 split: option.splits)
  moreover have "AList.update p g (AList.update p ?g (ge_held e)) = ge_held e"
    using update_triv [OF g] by simp
  ultimately show ?thesis by (simp add: reopen_def t e1)
qed

section \<open>Properties\<close>

text \<open>
  C1: Exactly one answer. After any sequence of operations on a new engine (holds, timeouts,
  debugger verdicts, validations that succeed, fail or come late, releases, clocks that throw),
  the promise of an announced gate has been resolved once and the gate is gone, or it has
  not been resolved and the gate is still held. No id is announced twice.
\<close>

theorem gate_answered_exactly_once:
  assumes "gate_init s"
  shows "paused_count p (gm_log (fold gate_step es s)) \<le> 1 \<and>
    resolved_count p (gm_log (fold gate_step es s))
      + (case map_of (ge_held (gm_engine (fold gate_step es s))) p of
           Some g \<Rightarrow> if hg_live g then 1 else 0 | None \<Rightarrow> 0)
    = paused_count p (gm_log (fold gate_step es s))"
  using gate_run_balance [OF assms, of p es] unfolding live_def by blast

definition gate_machine_new :: "millis option \<Rightarrow> 'v gate_machine" where
  "gate_machine_new timeout =
     \<lparr>gm_engine = engine_new timeout, gm_base = ''ab'', gm_ids = 0, gm_log = []\<rparr>"

lemma gate_machine_new_init: "gate_init (gate_machine_new timeout)"
  by (auto simp: gate_init_def gate_machine_new_def)

definition sample_node :: gate_node where
  "sample_node = \<lparr>gn_nodeId = ''n'', gn_kind = Tool, gn_name = ''search'', gn_instanceId = None\<rparr>"

definition sample_events :: "nat gate_event list" where
  "sample_events =
     [Ev_hold Before sample_node ''r'' (Some 5) True, Ev_begin ''pause_ab_1'',
      Ev_resume ''pause_ab_1'' Act_abort 0 None (Some 6),
      Ev_complete (''pause_ab_1'', 0) (D_inject 7) None (Some 9),
      Ev_complete (''pause_ab_1'', 0) D_abort None (Some 9)]"

lemma gate_answered_exactly_once_witness:
  "resolved_count ''pause_ab_1'' (gm_log (fold gate_step sample_events (gate_machine_new (Some 100)))) = 1"
proof -
  let ?s = "fold gate_step sample_events (gate_machine_new (Some 100))"
  have "map_of (ge_held (gm_engine ?s)) ''pause_ab_1'' = None" by code_simp
  moreover have "paused_count ''pause_ab_1'' (gm_log ?s) = 1" by code_simp
  ultimately show ?thesis
    using gate_answered_exactly_once [OF gate_machine_new_init, of "''pause_ab_1''" sample_events "Some 100"]
    by simp
qed

text \<open>
  C2: Fail-open. However the engine got where it is, \<open>releaseAll\<close> (the session's answer to a
  debugger that went away) leaves nothing held, and then every gate ever announced has been
  resolved: no agent stays blocked.
\<close>

theorem release_all_fails_open:
  fixes es :: "'v gate_event list"
  assumes "gate_init s"
  shows "let s' = fold gate_step (es @ [Ev_release_all now]) s
    in ge_held (gm_engine s') = [] \<and>
       (\<forall>p. resolved_count p (gm_log s') = paused_count p (gm_log s'))"
proof -
  define s' where "s' = fold gate_step (es @ [Ev_release_all now]) s"
  have e: "ge_held (gm_engine s') = []"
    using gate_step_release_all [of now "fold gate_step es s"] by (simp add: s'_def)
  then have "live p (gm_engine s') = 0" for p by (simp add: live_def)
  with e gate_run_balance [OF assms(1), of _ "es @ [Ev_release_all now]"] show ?thesis
    unfolding s'_def Let_def by (metis add_0_right)
qed

lemma release_all_fails_open_witness:
  "ge_held (gm_engine (fold gate_step
     ([Ev_hold Before sample_node ''r'' (Some 5) True, Ev_begin ''pause_ab_1''] @
      [Ev_release_all (\<lambda>_. None) :: nat gate_event]) (gate_machine_new None))) = []"
  using release_all_fails_open [OF gate_machine_new_init] unfolding Let_def by blast

text \<open>
  A verdict that comes too late changes nothing. A ticket that is no longer the gate's (the
  gate was answered, released, timed out, or reopened) stays so for every later sequence
  of operations, and completing or reopening with it is the identity: no state change, no
  callback, no second answer.
\<close>

theorem stale_ticket_is_dropped:
  assumes "snd t < ge_tickets (gm_engine s)"
    and "\<forall>g. map_of (ge_held (gm_engine s)) (fst t) = Some g \<longrightarrow> hg_ticket g \<noteq> Some t"
  shows "let s' = fold gate_step es s
    in gate_step (Ev_complete t d i now) s' = s' \<and> gate_step (Ev_reopen t now) s' = s'"
proof -
  define s' where "s' = fold gate_step es s"
  have "spent t (gm_engine s)" using assms(1,2) by (auto simp: spent_def current_ticket_def)
  then have "spent t (gm_engine s')" unfolding s'_def by (rule gate_run_spent)
  then show ?thesis using spent_no_effect unfolding s'_def Let_def by blast
qed

lemma stale_ticket_is_dropped_witness:
  "let s = fold gate_step sample_events (gate_machine_new (Some 100));
       s' = fold gate_step [Ev_hold After sample_node ''r'' (Some 20) True] s
   in gate_step (Ev_complete (''pause_ab_1'', 0) (D_inject 8) None (Some 9)) s' = s'"
proof -
  have "0 < ge_tickets (gm_engine (fold gate_step sample_events (gate_machine_new (Some 100))))"
    and "map_of (ge_held (gm_engine (fold gate_step sample_events (gate_machine_new (Some 100))))) ''pause_ab_1'' = None"
    by code_simp+
  then show ?thesis
    using stale_ticket_is_dropped [of "(''pause_ab_1'', 0)"
        "fold gate_step sample_events (gate_machine_new (Some 100))"
        "[Ev_hold After sample_node ''r'' (Some 20) True]"]
    by (simp add: Let_def del: gate_step.simps)
qed

text \<open>The promises a list of effects resolves, and the decisions they get.\<close>

definition resolved_with :: "'v gate_effect list \<Rightarrow> (ident \<times> 'v decision) list" where
  "resolved_with l = concat (map (\<lambda>x. case x of Eff_resolved p d \<Rightarrow> [(p, d)] | _ \<Rightarrow> []) l)"

lemma resolved_with_simps [simp]:
  "resolved_with [] = []"
  "resolved_with (x # l) = (case x of Eff_resolved p d \<Rightarrow> [(p, d)] | _ \<Rightarrow> []) @ resolved_with l"
  by (simp_all add: resolved_with_def)

lemma settle_resolves:
  assumes "settle p d a i now e = (e', l, b)" and "map_of (ge_held e) p = Some g"
  shows "map_of (ge_held e') = (map_of (ge_held e))(p := None) \<and> b
    \<and> resolved_with l = (if hg_live g then [(p, d)] else [])"
  using assms by (auto simp: settle_def Let_def delete_conv')

text \<open>
  C4: The pause timeout is a deadline on the verdict, not only on the wait. When a validation ends, with
  a verdict (\<open>completeValidation\<close>) or by giving the gate back (\<open>reopen\<close>), and its ticket is the gate's
  current one: from the moment on at which the gate has been open for the whole timeout, both release
  the gate, with the original input (\<open>continue\<close> without an override) whatever the verdict was - the gate
  leaves the map, its promise is resolved, once, and the caller is told that the verdict did not count.
  Before that moment the verdict is what the promise is resolved with, and \<open>reopen\<close> resolves nothing and
  leaves the gate held and resumable. No other gate is touched. With a stale ticket nothing happens.
\<close>

theorem validation_deadline:
  assumes "completeValidation t d i now e = (e', l, b)" and "reopen t now e = (e2, l2, b2)"
  shows "(\<forall>g. map_of (ge_held e) (fst t) = Some g \<and> hg_ticket g = Some t \<longrightarrow>
      (let late = (\<exists>limit m. ge_pauseTimeoutMs e = Some limit \<and> now = Some m \<and> hg_openedAt g + limit \<le> m);
           whom = (\<lambda>d. if hg_live g then [(fst t, d)] else [])
       in map_of (ge_held e') = (map_of (ge_held e))(fst t := None) \<and> b = (\<not> late)
          \<and> resolved_with l = whom (if late then D_continue None else d)
          \<and> map_of (ge_held e2) = (map_of (ge_held e))
              (fst t := if late then None else Some (g\<lparr>hg_state := Gs_held, hg_ticket := None\<rparr>))
          \<and> b2 = (\<not> late) \<and> resolved_with l2 = (if late then whom (D_continue None) else [])))
    \<and> ((\<forall>g. map_of (ge_held e) (fst t) = Some g \<longrightarrow> hg_ticket g \<noteq> Some t) \<longrightarrow>
         (e', l, b) = (e, [], False) \<and> (e2, l2, b2) = (e, [], False))"
proof (rule conjI, intro allI impI)
  fix g
  assume "map_of (ge_held e) (fst t) = Some g \<and> hg_ticket g = Some t"
  then have g: "map_of (ge_held e) (fst t) = Some g" "hg_ticket g = Some t" by simp_all
  let ?late = "\<exists>limit m. ge_pauseTimeoutMs e = Some limit \<and> now = Some m \<and> hg_openedAt g + limit \<le> m"
  have late: "overdue now g e \<longleftrightarrow> ?late" by (auto simp: overdue_def split: option.splits)
  from assms(1) have "map_of (ge_held e') = (map_of (ge_held e))(fst t := None) \<and> b = (\<not> overdue now g e)
    \<and> resolved_with l = (if hg_live g then [(fst t, if overdue now g e then D_continue None else d)] else [])"
    by (cases rule: completeValidation_cases) (use g in \<open>auto dest: settle_resolves\<close>)
  moreover from assms(2) have "map_of (ge_held e2) = (map_of (ge_held e))
        (fst t := if overdue now g e then None else Some (g\<lparr>hg_state := Gs_held, hg_ticket := None\<rparr>))
      \<and> b2 = (\<not> overdue now g e)
      \<and> resolved_with l2 = (if overdue now g e then if hg_live g then [(fst t, D_continue None)] else [] else [])"
    by (cases rule: reopen_cases) (use g in \<open>auto simp: update_conv' dest: settle_resolves\<close>)
  ultimately show "let late = ?late; whom = (\<lambda>d. if hg_live g then [(fst t, d)] else [])
     in map_of (ge_held e') = (map_of (ge_held e))(fst t := None) \<and> b = (\<not> late)
        \<and> resolved_with l = whom (if late then D_continue None else d)
        \<and> map_of (ge_held e2) = (map_of (ge_held e))
            (fst t := if late then None else Some (g\<lparr>hg_state := Gs_held, hg_ticket := None\<rparr>))
        \<and> b2 = (\<not> late) \<and> resolved_with l2 = (if late then whom (D_continue None) else [])"
    unfolding Let_def late by simp
next
  show "(\<forall>g. map_of (ge_held e) (fst t) = Some g \<longrightarrow> hg_ticket g \<noteq> Some t) \<longrightarrow>
      (e', l, b) = (e, [], False) \<and> (e2, l2, b2) = (e, [], False)"
    using assms by (auto simp: completeValidation_def reopen_def split: option.splits)
qed

definition validating_engine :: engine where
  "validating_engine =
     gm_engine (fold gate_step [Ev_hold Before sample_node ''r'' (Some 5) True, Ev_begin ''pause_ab_1'' :: nat gate_event]
       (gate_machine_new (Some 100)))"

text \<open>Opened at 5 with 100 to wait: the verdict at 105 is too late, that at 104 is not.\<close>

lemma triple_eta: "x = (fst x, fst (snd x), snd (snd x))"
  by simp

lemma validation_deadline_witness:
  "resolved_with (fst (snd (completeValidation (''pause_ab_1'', 0) (D_inject (7 :: nat)) None (Some 105) validating_engine)))
     = [(''pause_ab_1'', D_continue None)]
   \<and> resolved_with (fst (snd (completeValidation (''pause_ab_1'', 0) (D_inject (7 :: nat)) None (Some 104) validating_engine)))
     = [(''pause_ab_1'', D_inject 7)]"
proof -
  let ?t = "(''pause_ab_1'', 0)"
  have g: "map_of (ge_held validating_engine) ''pause_ab_1''
      = Some (the (map_of (ge_held validating_engine) ''pause_ab_1''))"
    and ticket: "hg_ticket (the (map_of (ge_held validating_engine) ''pause_ab_1'')) = Some ?t"
    and live: "hg_live (the (map_of (ge_held validating_engine) ''pause_ab_1''))"
    and opened: "hg_openedAt (the (map_of (ge_held validating_engine) ''pause_ab_1'')) = 5"
    and timeout: "ge_pauseTimeoutMs validating_engine = Some 100"
    by code_simp+
  note at = validation_deadline [where t = ?t and d = "D_inject (7 :: nat)" and i = None and e = validating_engine,
      OF triple_eta triple_eta, THEN conjunct1, THEN spec, THEN mp, OF conjI, unfolded Let_def fst_conv, OF g ticket]
  have "resolved_with (fst (snd (completeValidation ?t (D_inject (7 :: nat)) None (Some 105) validating_engine)))
      = [(''pause_ab_1'', D_continue None)]"
    using at [of "Some 105"] live opened timeout by simp
  moreover have "resolved_with (fst (snd (completeValidation ?t (D_inject (7 :: nat)) None (Some 104) validating_engine)))
      = [(''pause_ab_1'', D_inject 7)]"
    using at [of "Some 104"] live opened timeout by simp
  ultimately show ?thesis ..
qed

text \<open>
  Taking a held gate into validation and reopening it before the deadline gives back the
  engine as it was, up to the ticket number used: the gate is held again, resumable, with its
  timer, and nothing was told to the outside.
\<close>

theorem begin_reopen_roundtrip:
  assumes "engine_ok e" and "beginValidation p e = (e1, Some t)"
    and "\<forall>g. map_of (ge_held e) p = Some g \<longrightarrow> \<not> overdue now g e"
  shows "reopen t now e1 = (e\<lparr>ge_tickets := Suc (ge_tickets e)\<rparr>, [], True)"
proof -
  obtain g where g: "map_of (ge_held e) p = Some g"
    using assms(2) by (auto simp: beginValidation_def split: option.splits)
  with assms show ?thesis by (intro begin_then_reopen) auto
qed

definition held_engine :: engine where
  "held_engine =
     fst (hold ''q'' Before sample_node ''r'' (Some 5) True (engine_new (Some 100))
       :: engine \<times> nat gate_effect list)"

lemma held_engine_ok: "engine_ok held_engine"
  unfolding held_engine_def using hold_ok [OF surjective_pairing engine_new_ok] .

lemma begin_reopen_roundtrip_witness:
  "reopen (''q'', 0) (Some 20) (fst (beginValidation ''q'' held_engine))
   = (held_engine\<lparr>ge_tickets := 1\<rparr>, [] :: nat gate_effect list, True)"
proof -
  have b: "beginValidation ''q'' held_engine = (fst (beginValidation ''q'' held_engine), Some (''q'', 0))"
    and g: "\<not> overdue (Some 20) (the (map_of (ge_held held_engine) ''q'')) held_engine"
    and n: "ge_tickets held_engine = 0"
    by code_simp+
  have "\<forall>g. map_of (ge_held held_engine) ''q'' = Some g \<longrightarrow> \<not> overdue (Some 20) g held_engine"
    using g by auto
  from begin_reopen_roundtrip [OF held_engine_ok b this] show ?thesis by (simp add: n)
qed

text \<open>
  Breakpoints behave as a set kept in order of arrival. Adding a matcher twice is adding it
  once, removing one removes exactly it, removing what was just added restores the list, and
  outside step mode the engine pauses where, and only where, some breakpoint in the list matches.
\<close>

theorem breakpoints_are_a_set:
  "addBreakpoint m (addBreakpoint m e) = addBreakpoint m e \<and>
   set (ge_breakpoints (addBreakpoint m e)) = insert m (set (ge_breakpoints e)) \<and>
   set (ge_breakpoints (removeBreakpoint m e)) = set (ge_breakpoints e) - {m} \<and>
   (m \<notin> set (ge_breakpoints e) \<longrightarrow> removeBreakpoint m (addBreakpoint m e) = e) \<and>
   (distinct (ge_breakpoints e) \<longrightarrow> distinct (ge_breakpoints (addBreakpoint m e))) \<and>
   (ge_mode e = Run_mode \<longrightarrow>
      shouldPause pt n (addBreakpoint m e) = (matcherMatches m pt n \<or> shouldPause pt n e))"
proof -
  have restored: "removeBreakpoint m (addBreakpoint m e) = e" if "m \<notin> set (ge_breakpoints e)"
  proof -
    have "filter (\<lambda>x. x \<noteq> m) (ge_breakpoints e) = ge_breakpoints e"
      using that by (intro filter_True) auto
    then have "ge_breakpoints (removeBreakpoint m (addBreakpoint m e)) = ge_breakpoints e"
      using that by (simp add: removeBreakpoint_bps addBreakpoint_bps)
    then show ?thesis by (simp add: removeBreakpoint_def addBreakpoint_def)
  qed
  have mode: "ge_mode (addBreakpoint m e) = ge_mode e" by (simp add: addBreakpoint_def)
  have twice: "addBreakpoint m (addBreakpoint m e) = addBreakpoint m e"
    by (auto simp: addBreakpoint_def matcherEquals_def)
  have pause: "shouldPause pt n (addBreakpoint m e) = (matcherMatches m pt n \<or> shouldPause pt n e)"
    if "ge_mode e = Run_mode"
    using that mode by (auto simp: shouldPause_def list_ex_iff addBreakpoint_bps)
  show ?thesis
    using restored twice pause by (auto simp: addBreakpoint_bps removeBreakpoint_bps)
qed

definition tool_matcher :: matcher where
  "tool_matcher = \<lparr>bm_kind = Some Tool, bm_name = None, bm_point = None\<rparr>"

lemma breakpoints_are_a_set_witness:
  "shouldPause Before sample_node (addBreakpoint tool_matcher (engine_new None)) \<and>
   removeBreakpoint tool_matcher (addBreakpoint tool_matcher (engine_new None)) = engine_new None"
proof -
  have "matcherMatches tool_matcher Before sample_node" "ge_mode (engine_new None) = Run_mode"
    "ge_breakpoints (engine_new None) = []"
    by code_simp+
  then show ?thesis
    using breakpoints_are_a_set [of tool_matcher "engine_new None" Before sample_node] by simp
qed

end
