(* ===== verification/Held_Ledger.thy ===== *)
theory Held_Ledger
  imports Gate_Engine
begin

text \<open>
  \<open>packages/client/src/held-ledger.ts\<close>: how much of a node instance's duration was the
  debugger holding it. The class keeps its \<open>OpenInstance\<close> objects in three maps and in
  the pin lists of the open holds, and mutates them through every one of these references:
  the model keeps the objects in an explicit store and the maps hold references into it.
  A clock that throws is \<open>None\<close>; an operation then returns \<open>Inl ()\<close> with the state it
  had reached.

  The lemmas show that an instance's counter of open holds is the number of holds pinned to
  it, that every reference is to a tracked instance, and that the time an instance
  accumulates is the time during which at least one hold pinned to it was open.
\<close>

section \<open>Data\<close>

type_synonym ref = nat

record instance_rec =
  in_key :: string
  in_nodeKey :: string
  in_instanceId :: ident
  in_heldMs :: millis
  in_openHolds :: nat
  in_heldSince :: millis
  in_errored :: bool

record ledger =
  ld_max :: nat
  ld_store :: "ref \<Rightarrow> instance_rec"
  ld_next :: ref
  ld_instances :: "(string, ref) omap"
  ld_byNode :: "(string, ref list) omap"
  ld_parentByNode :: "(string, ident) omap"
  ld_rootByRun :: "(ident, ref) omap"
  ld_holds :: "(ident, ref list) omap"

definition DEFAULT_MAX_TRACKED_INSTANCES :: nat where
  "DEFAULT_MAX_TRACKED_INSTANCES = 10000"

definition MAX_DEPTH :: nat where
  "MAX_DEPTH = 64"

definition NUL :: char where
  "NUL = CHR 0x00"

definition join :: "string \<Rightarrow> string \<Rightarrow> string" where
  "join a b = a @ NUL # b"

definition blank_instance :: "string \<Rightarrow> string \<Rightarrow> ident \<Rightarrow> instance_rec" where
  "blank_instance key nodeKey i =
     \<lparr>in_key = key, in_nodeKey = nodeKey, in_instanceId = i, in_heldMs = 0, in_openHolds = 0,
      in_heldSince = 0, in_errored = False\<rparr>"

definition ledger_new :: "nat \<Rightarrow> ledger" where
  "ledger_new maxInstances =
     \<lparr>ld_max = maxInstances, ld_store = (\<lambda>_. blank_instance [] [] []), ld_next = 0, ld_instances = [],
      ld_byNode = [], ld_parentByNode = [], ld_rootByRun = [], ld_holds = []\<rparr>"

section \<open>One instance\<close>

definition pin :: "millis \<Rightarrow> instance_rec \<Rightarrow> instance_rec" where
  "pin now i =
     (let i' = (if in_openHolds i = 0 then i\<lparr>in_heldSince := now\<rparr> else i)
      in i'\<lparr>in_openHolds := in_openHolds i' + 1\<rparr>)"

definition unpin :: "millis \<Rightarrow> instance_rec \<Rightarrow> instance_rec" where
  "unpin now i =
     (if in_openHolds i = 0 then i
      else let i' = i\<lparr>in_openHolds := in_openHolds i - 1\<rparr>
           in if in_openHolds i' = 0
              then i'\<lparr>in_heldMs := in_heldMs i' + max 0 (now - in_heldSince i')\<rparr> else i')"

definition raw_total :: "instance_rec \<Rightarrow> millis \<Rightarrow> millis" where
  "raw_total i now =
     in_heldMs i + (if 0 < in_openHolds i then max 0 (now - in_heldSince i) else 0)"

definition total :: "instance_rec \<Rightarrow> millis \<Rightarrow> millis" where
  "total i now = normalizeDurationMs (Fin (raw_total i now))"

section \<open>The ledger's operations\<close>

definition upd_store :: "ref \<Rightarrow> (instance_rec \<Rightarrow> instance_rec) \<Rightarrow> ledger \<Rightarrow> ledger" where
  "upd_store r f l = l\<lparr>ld_store := (ld_store l)(r := f (ld_store l r))\<rparr>"

text \<open>Exact instance when named; otherwise the newest open one of the node.\<close>

definition pick :: "string \<Rightarrow> ident option \<Rightarrow> ledger \<Rightarrow> ref option" where
  "pick nodeKey instanceId l =
     (case map_of (ld_byNode l) nodeKey of
        None \<Rightarrow> None
      | Some list \<Rightarrow>
          if list = [] then None
          else (case instanceId of
                  Some i \<Rightarrow> map_of (ld_instances l) (join nodeKey i)
                | None \<Rightarrow> Some (last list)))"

definition drop_pins :: "ref \<Rightarrow> (ident, ref list) omap \<Rightarrow> (ident, ref list) omap" where
  "drop_pins r holds = filter (\<lambda>h. snd h \<noteq> []) (map (\<lambda>h. (fst h, remove1 r (snd h))) holds)"

definition ledger_remove :: "ref \<Rightarrow> ledger \<Rightarrow> ledger" where
  "ledger_remove r l =
     (let i = ld_store l r;
          l1 = l\<lparr>ld_instances := AList.delete (in_key i) (ld_instances l)\<rparr>;
          runId = takeWhile (\<lambda>c. c \<noteq> NUL) (in_nodeKey i);
          l2 = (if map_of (ld_rootByRun l1) runId = Some r
                then l1\<lparr>ld_rootByRun := AList.delete runId (ld_rootByRun l1)\<rparr> else l1);
          l3 = (case map_of (ld_byNode l2) (in_nodeKey i) of
                  None \<Rightarrow> l2
                | Some list \<Rightarrow>
                    let list' = remove1 r list
                    in l2\<lparr>ld_byNode := (if list' = [] then AList.delete (in_nodeKey i) (ld_byNode l2)
                                       else AList.update (in_nodeKey i) list' (ld_byNode l2))\<rparr>)
      in if 0 < in_openHolds i
         then upd_store r (\<lambda>i. i\<lparr>in_openHolds := 0\<rparr>) (l3\<lparr>ld_holds := drop_pins r (ld_holds l3)\<rparr>)
         else l3)"

text \<open>
  \<open>started\<close>: a restarted key is dropped first, then the oldest instance of a full ledger;
  the parent is noted; then the instance is entered into the maps.
\<close>

definition make_room :: "string \<Rightarrow> ledger \<Rightarrow> ledger" where
  "make_room key l =
     (let l1 = (case map_of (ld_instances l) key of None \<Rightarrow> l | Some r \<Rightarrow> ledger_remove r l)
      in if ld_max l1 \<le> length (ld_instances l1)
         then (case ld_instances l1 of [] \<Rightarrow> l1 | (_, oldest) # _ \<Rightarrow> ledger_remove oldest l1)
         else l1)"

definition note_parent :: "ident \<Rightarrow> ident \<Rightarrow> ident option \<Rightarrow> ledger \<Rightarrow> ledger" where
  "note_parent runId nodeId parentId l =
     (let l3 = (if ld_max l * 4 \<le> length (ld_parentByNode l) then l\<lparr>ld_parentByNode := []\<rparr> else l)
      in case parentId of
           None \<Rightarrow> l3
         | Some p \<Rightarrow> if p \<noteq> nodeId
                    then l3\<lparr>ld_parentByNode := AList.update (join runId nodeId) p (ld_parentByNode l3)\<rparr>
                    else l3)"

definition add_instance :: "ident \<Rightarrow> ident \<Rightarrow> ident \<Rightarrow> ledger \<Rightarrow> ledger" where
  "add_instance runId nodeId instanceId l =
     (let nodeKey = join runId nodeId;
          key = join nodeKey instanceId;
          r = ld_next l;
          l5 = l\<lparr>ld_store := (ld_store l)(r := blank_instance key nodeKey instanceId),
                 ld_next := Suc r,
                 ld_instances := AList.update key r (ld_instances l)\<rparr>;
          l6 = (if instanceId = runId
                then l5\<lparr>ld_rootByRun := AList.update runId r (ld_rootByRun l5)\<rparr> else l5);
          list = (case map_of (ld_byNode l6) nodeKey of None \<Rightarrow> [] | Some xs \<Rightarrow> xs)
      in l6\<lparr>ld_byNode := AList.update nodeKey (list @ [r]) (ld_byNode l6)\<rparr>)"

definition ledger_started :: "ident \<Rightarrow> ident \<Rightarrow> ident \<Rightarrow> ident option \<Rightarrow> ledger \<Rightarrow> ledger" where
  "ledger_started runId nodeId instanceId parentId l =
     add_instance runId nodeId instanceId
       (note_parent runId nodeId parentId (make_room (join (join runId nodeId) instanceId) l))"

definition ledger_errored :: "ident \<Rightarrow> ident \<Rightarrow> ident option \<Rightarrow> ledger \<Rightarrow> ledger" where
  "ledger_errored runId nodeId instanceId l =
     (case pick (join runId nodeId) instanceId l of
        None \<Rightarrow> l
      | Some r \<Rightarrow> upd_store r (\<lambda>i. i\<lparr>in_errored := True\<rparr>) l)"

text \<open>
  The instance a hold is pinned to, before its ancestors: the execution the gate names, else
  the oldest open one (\<open>after\<close>), the newest failed one (\<open>error\<close>), the newest one.
\<close>

definition unnamed_target :: "string \<Rightarrow> pause_point \<Rightarrow> ledger \<Rightarrow> ref option" where
  "unnamed_target nodeKey point l =
     (case map_of (ld_byNode l) nodeKey of
        None \<Rightarrow> None
      | Some list \<Rightarrow>
          if list = [] then None
          else if point = After then Some (hd list)
          else (case (if point = At_error
                      then find (\<lambda>r. in_errored (ld_store l r)) (rev list) else None) of
                  Some r \<Rightarrow> Some r
                | None \<Rightarrow> Some (last list)))"

definition hold_target :: "string \<Rightarrow> pause_point \<Rightarrow> ident option \<Rightarrow> ledger \<Rightarrow> ref option" where
  "hold_target nodeKey point instanceId l =
     (case instanceId of
        Some i \<Rightarrow> if i \<noteq> [] then map_of (ld_instances l) (join nodeKey i)
                  else unnamed_target nodeKey point l
      | None \<Rightarrow> unnamed_target nodeKey point l)"

text \<open>The newest open instance of each parent up the chain, at most \<open>MAX_DEPTH\<close> hops.\<close>

fun ancestors :: "nat \<Rightarrow> ident \<Rightarrow> string \<Rightarrow> string list \<Rightarrow> ledger \<Rightarrow> ref list" where
  "ancestors 0 runId current seen l = []"
| "ancestors (Suc hops) runId current seen l =
     (case map_of (ld_parentByNode l) current of
        None \<Rightarrow> []
      | Some parentId \<Rightarrow>
          let parentKey = join runId parentId
          in if parentKey \<in> set seen then []
             else (case map_of (ld_byNode l) parentKey of
                     None \<Rightarrow> []
                   | Some parents \<Rightarrow> if parents = [] then [] else [last parents])
                  @ ancestors hops runId parentKey (parentKey # seen) l)"

definition pinned_refs :: "ident \<Rightarrow> string \<Rightarrow> ref option \<Rightarrow> ledger \<Rightarrow> ref list" where
  "pinned_refs runId nodeKey target l =
     (let chain = (case target of None \<Rightarrow> [] | Some r \<Rightarrow> [r])
                  @ ancestors MAX_DEPTH runId nodeKey [nodeKey] l
      in case map_of (ld_rootByRun l) runId of
           None \<Rightarrow> chain
         | Some rt \<Rightarrow> if rt \<in> set chain then chain else chain @ [rt])"

definition holdOpened ::
  "ident \<Rightarrow> ident \<Rightarrow> ident \<Rightarrow> pause_point \<Rightarrow> ident option \<Rightarrow> millis option \<Rightarrow> ledger \<Rightarrow>
   ledger \<times> (unit + unit)" where
  "holdOpened pauseId runId nodeId point instanceId now l =
     (let nodeKey = join runId nodeId;
          target = hold_target nodeKey point instanceId l;
          l1 = (case target of
                  Some r \<Rightarrow> if point = At_error then upd_store r (\<lambda>i. i\<lparr>in_errored := False\<rparr>) l else l
                | None \<Rightarrow> l);
          pinned = pinned_refs runId nodeKey target l1
      in if pinned = [] then (l1, Inr ())
         else (case now of
                 None \<Rightarrow> (l1, Inl ())
               | Some t \<Rightarrow>
                   let l2 = fold (\<lambda>r. upd_store r (pin t)) pinned l1
                   in (l2\<lparr>ld_holds := AList.update pauseId pinned (ld_holds l2)\<rparr>, Inr ())))"

definition holdClosed :: "ident \<Rightarrow> millis option \<Rightarrow> ledger \<Rightarrow> ledger \<times> (unit + unit)" where
  "holdClosed pauseId now l =
     (case map_of (ld_holds l) pauseId of
        None \<Rightarrow> (l, Inr ())
      | Some pinned \<Rightarrow>
          let l1 = l\<lparr>ld_holds := AList.delete pauseId (ld_holds l)\<rparr>
          in case now of
               None \<Rightarrow> (l1, Inl ())
             | Some t \<Rightarrow> (fold (\<lambda>r. upd_store r (unpin t)) pinned l1, Inr ()))"

definition ledger_peek ::
  "ident \<Rightarrow> ident \<Rightarrow> ident option \<Rightarrow> millis option \<Rightarrow> ledger \<Rightarrow> unit + millis option" where
  "ledger_peek runId nodeId instanceId now l =
     (case pick (join runId nodeId) instanceId l of
        None \<Rightarrow> Inr None
      | Some r \<Rightarrow> (case now of None \<Rightarrow> Inl () | Some t \<Rightarrow> Inr (Some (total (ld_store l r) t))))"

definition ledger_finished ::
  "ident \<Rightarrow> ident \<Rightarrow> ident option \<Rightarrow> millis option \<Rightarrow> ledger \<Rightarrow> ledger \<times> (unit + millis option)" where
  "ledger_finished runId nodeId instanceId now l =
     (case pick (join runId nodeId) instanceId l of
        None \<Rightarrow> (l, Inr None)
      | Some r \<Rightarrow>
          (case now of
             None \<Rightarrow> (l, Inl ())
           | Some t \<Rightarrow> (ledger_remove r l, Inr (Some (total (ld_store l r) t)))))"

section \<open>The invariant\<close>

text \<open>
  An instance is tracked when the map of instances holds its key. Run and node identifiers
  contain no separator, so that a key splits in one way.
\<close>

definition tracked :: "ledger \<Rightarrow> ref \<Rightarrow> bool" where
  "tracked l r \<longleftrightarrow> map_of (ld_instances l) (in_key (ld_store l r)) = Some r"

definition plain_id :: "ident \<Rightarrow> bool" where
  "plain_id s \<longleftrightarrow> NUL \<notin> set s"

definition holds_of :: "ref \<Rightarrow> (ident, ref list) omap \<Rightarrow> nat" where
  "holds_of r hs = length (filter (\<lambda>h. r \<in> set (snd h)) hs)"

definition keys_ok :: "ledger \<Rightarrow> bool" where
  "keys_ok l \<longleftrightarrow> wf_omap (ld_instances l) \<and> wf_omap (ld_holds l) \<and>
     (\<forall>k r. map_of (ld_instances l) k = Some r \<longrightarrow> r < ld_next l \<and> in_key (ld_store l r) = k \<and>
        (\<exists>run node. plain_id run \<and> plain_id node \<and> in_nodeKey (ld_store l r) = join run node \<and>
           k = join (join run node) (in_instanceId (ld_store l r))))"

definition nodes_ok :: "ledger \<Rightarrow> bool" where
  "nodes_ok l \<longleftrightarrow>
     (\<forall>nk xs. map_of (ld_byNode l) nk = Some xs \<longrightarrow> xs \<noteq> [] \<and> distinct xs \<and>
        (\<forall>r \<in> set xs. tracked l r \<and> in_nodeKey (ld_store l r) = nk)) \<and>
     (\<forall>r. tracked l r \<longrightarrow>
        (\<exists>xs. map_of (ld_byNode l) (in_nodeKey (ld_store l r)) = Some xs \<and> r \<in> set xs))"

definition roots_ok :: "ledger \<Rightarrow> bool" where
  "roots_ok l \<longleftrightarrow>
     (\<forall>run r. map_of (ld_rootByRun l) run = Some r \<longrightarrow>
        tracked l r \<and> takeWhile (\<lambda>c. c \<noteq> NUL) (in_nodeKey (ld_store l r)) = run)"

definition holds_ok :: "ledger \<Rightarrow> bool" where
  "holds_ok l \<longleftrightarrow>
     (\<forall>h \<in> set (ld_holds l). snd h \<noteq> [] \<and> distinct (snd h) \<and> (\<forall>r \<in> set (snd h). tracked l r)) \<and>
     (\<forall>r. tracked l r \<longrightarrow> in_openHolds (ld_store l r) = holds_of r (ld_holds l))"

definition ledger_ok :: "ledger \<Rightarrow> bool" where
  "ledger_ok l \<longleftrightarrow> keys_ok l \<and> nodes_ok l \<and> roots_ok l \<and> holds_ok l"

lemmas ledger_parts = keys_ok_def nodes_ok_def roots_ok_def holds_ok_def

lemma ledger_new_ok: "ledger_ok (ledger_new m)"
  by (simp add: ledger_ok_def ledger_parts ledger_new_def tracked_def)

lemma takeWhile_join [simp]: "plain_id run \<Longrightarrow> takeWhile (\<lambda>c. c \<noteq> NUL) (join run x) = run"
  by (auto simp: join_def plain_id_def takeWhile_append2 takeWhile_tail)

lemma dropWhile_join: "plain_id run \<Longrightarrow> dropWhile (\<lambda>c. c \<noteq> NUL) (join run x) = NUL # x"
  by (auto simp: join_def plain_id_def dropWhile_append2 dropWhile_append3)

lemma join_inj:
  assumes "plain_id a" and "plain_id b" and "join a x = join b y"
  shows "a = b \<and> x = y"
  using takeWhile_join [OF assms(1), of x] takeWhile_join [OF assms(2), of y]
    dropWhile_join [OF assms(1), of x] dropWhile_join [OF assms(2), of y] assms(3)
  by auto

lemma join_join: "join (join a b) c = join a (join b c)"
  by (simp add: join_def)

lemma join_join_inj:
  assumes "plain_id a" "plain_id b" "plain_id c" "plain_id d"
    and "join (join a b) x = join (join c d) y"
  shows "join a b = join c d \<and> x = y"
  using assms join_inj [of a c "join b x" "join d y"] join_inj [of b d x y]
  by (auto simp: join_join)

lemma upd_store_sel [simp]:
  "ld_max (upd_store r f l) = ld_max l" "ld_next (upd_store r f l) = ld_next l"
  "ld_instances (upd_store r f l) = ld_instances l" "ld_byNode (upd_store r f l) = ld_byNode l"
  "ld_parentByNode (upd_store r f l) = ld_parentByNode l"
  "ld_rootByRun (upd_store r f l) = ld_rootByRun l" "ld_holds (upd_store r f l) = ld_holds l"
  "ld_store (upd_store r f l) = (ld_store l)(r := f (ld_store l r))"
  by (simp_all add: upd_store_def)

lemma tracked_inj: "tracked l r \<Longrightarrow> tracked l r' \<Longrightarrow> in_key (ld_store l r) = in_key (ld_store l r') \<Longrightarrow> r = r'"
  by (simp add: tracked_def)

lemma tracked_key: "keys_ok l \<Longrightarrow> map_of (ld_instances l) k = Some r \<Longrightarrow> tracked l r"
  by (auto simp: keys_ok_def tracked_def)

lemma tracked_bound: "keys_ok l \<Longrightarrow> tracked l r \<Longrightarrow> r < ld_next l"
  by (auto simp: keys_ok_def tracked_def)

section \<open>Removing an instance\<close>

lemma drop_pins_mem:
  "h \<in> set (drop_pins r hs) \<longleftrightarrow>
     snd h \<noteq> [] \<and> (\<exists>h0 \<in> set hs. fst h = fst h0 \<and> snd h = remove1 r (snd h0))"
  by (cases h) (auto simp: drop_pins_def)

lemma drop_pins_keys: "wf_omap hs \<Longrightarrow> wf_omap (drop_pins r hs)"
proof -
  have "okeys (map (\<lambda>h. (fst h, remove1 r (snd h))) hs) = okeys hs"
    by (simp add: comp_def)
  then show "wf_omap hs \<Longrightarrow> wf_omap (drop_pins r hs)"
    unfolding drop_pins_def by (intro distinct_filter_keys) (simp add: comp_def)
qed

lemma mem_remove1_other: "r' \<noteq> r \<Longrightarrow> r' \<in> set (remove1 r xs) \<longleftrightarrow> r' \<in> set xs"
  by (rule in_set_remove1)

lemma remove1_nonempty: "r' \<noteq> r \<Longrightarrow> r' \<in> set xs \<Longrightarrow> remove1 r xs \<noteq> []"
  by (metis mem_remove1_other empty_iff list.set(1))

lemma holds_of_drop_pins: "r' \<noteq> r \<Longrightarrow> holds_of r' (drop_pins r hs) = holds_of r' hs"
proof (induction hs)
  case Nil
  then show ?case by (simp add: holds_of_def drop_pins_def)
next
  case (Cons h hs)
  show ?case
  proof (cases "remove1 r (snd h) = []")
    case True
    then have "r' \<notin> set (snd h)" using remove1_nonempty [OF Cons.prems] by blast
    with True Cons show ?thesis by (simp add: holds_of_def drop_pins_def)
  next
    case False
    with Cons show ?thesis
      using mem_remove1_other [OF Cons.prems, of "snd h"] by (simp add: holds_of_def drop_pins_def)
  qed
qed

lemma holds_of_pos: "0 < holds_of r hs \<longleftrightarrow> (\<exists>h \<in> set hs. r \<in> set (snd h))"
  by (auto simp: holds_of_def filter_empty_conv)

lemma remove_sel:
  "ld_max (ledger_remove r l) = ld_max l"
  "ld_next (ledger_remove r l) = ld_next l"
  "ld_instances (ledger_remove r l) = AList.delete (in_key (ld_store l r)) (ld_instances l)"
  "ld_parentByNode (ledger_remove r l) = ld_parentByNode l"
  "ld_holds (ledger_remove r l) =
     (if 0 < in_openHolds (ld_store l r) then drop_pins r (ld_holds l) else ld_holds l)"
  "ld_store (ledger_remove r l) =
     (if 0 < in_openHolds (ld_store l r)
      then (ld_store l)(r := (ld_store l r)\<lparr>in_openHolds := 0\<rparr>) else ld_store l)"
  by (simp_all add: ledger_remove_def Let_def split: option.split)

lemma remove_byNode:
  "map_of (ld_byNode (ledger_remove r l)) nk =
     (if nk = in_nodeKey (ld_store l r)
      then (case map_of (ld_byNode l) nk of
              None \<Rightarrow> None
            | Some xs \<Rightarrow> if remove1 r xs = [] then None else Some (remove1 r xs))
      else map_of (ld_byNode l) nk)"
  by (auto simp: ledger_remove_def Let_def split: option.split)

lemma remove_roots:
  "map_of (ld_rootByRun (ledger_remove r l)) run =
     (if run = takeWhile (\<lambda>c. c \<noteq> NUL) (in_nodeKey (ld_store l r)) \<and>
         map_of (ld_rootByRun l) run = Some r
      then None else map_of (ld_rootByRun l) run)"
  by (auto simp: ledger_remove_def Let_def split: option.split)

lemma remove_store_other: "r' \<noteq> r \<Longrightarrow> ld_store (ledger_remove r l) r' = ld_store l r'"
  by (simp add: remove_sel)

lemma remove_store_fields [simp]:
  "in_key (ld_store (ledger_remove r l) r') = in_key (ld_store l r')"
  "in_nodeKey (ld_store (ledger_remove r l) r') = in_nodeKey (ld_store l r')"
  "in_instanceId (ld_store (ledger_remove r l) r') = in_instanceId (ld_store l r')"
  by (simp_all add: remove_sel)

lemma remove_tracked:
  assumes "tracked l r"
  shows "tracked (ledger_remove r l) r' \<longleftrightarrow> tracked l r' \<and> r' \<noteq> r"
  using assms by (auto simp: tracked_def remove_sel(3) fun_upd_def)

lemma remove_keys_ok: "keys_ok l \<Longrightarrow> keys_ok (ledger_remove r l)"
  unfolding keys_ok_def
  by (auto simp: remove_sel(1-5) drop_pins_keys distinct_delete split: if_splits)

lemma remove_nodes_ok:
  assumes ok: "nodes_ok l" and tr: "tracked l r"
  shows "nodes_ok (ledger_remove r l)"
proof -
  have lists: "xs \<noteq> [] \<and> distinct xs \<and>
      (\<forall>x \<in> set xs. tracked (ledger_remove r l) x \<and> in_nodeKey (ld_store (ledger_remove r l) x) = nk)"
    if "map_of (ld_byNode (ledger_remove r l)) nk = Some xs" for nk xs
    using that ok tr unfolding nodes_ok_def
    by (fastforce simp: remove_byNode remove_tracked [OF tr] split: if_splits option.splits)
  have covered: "\<exists>xs. map_of (ld_byNode (ledger_remove r l)) (in_nodeKey (ld_store l x)) = Some xs \<and> x \<in> set xs"
    if "tracked l x" "x \<noteq> r" for x
  proof -
    from ok that(1) obtain xs
      where xs: "map_of (ld_byNode l) (in_nodeKey (ld_store l x)) = Some xs" "x \<in> set xs"
      unfolding nodes_ok_def by blast
    have "x \<in> set (remove1 r xs)" using xs(2) that(2) by simp
    then show ?thesis using xs by (auto simp: remove_byNode)
  qed
  show ?thesis
    unfolding nodes_ok_def using lists covered by (auto simp: remove_tracked [OF tr])
qed

lemma remove_roots_ok:
  assumes "roots_ok l" and "tracked l r" shows "roots_ok (ledger_remove r l)"
  using assms unfolding roots_ok_def
  by (auto simp: remove_roots remove_tracked [OF assms(2)] split: if_splits)

lemma remove_holds_ok:
  assumes ok: "holds_ok l" and tr: "tracked l r"
  shows "holds_ok (ledger_remove r l)"
proof (cases "0 < in_openHolds (ld_store l r)")
  case True
  have "snd h \<noteq> [] \<and> distinct (snd h) \<and> (\<forall>x \<in> set (snd h). tracked l x \<and> x \<noteq> r)"
    if "h \<in> set (drop_pins r (ld_holds l))" for h
  proof -
    from that obtain h0
      where h0: "snd h \<noteq> []" "h0 \<in> set (ld_holds l)" "snd h = remove1 r (snd h0)"
      by (auto simp: drop_pins_mem)
    with ok have "distinct (snd h0)" "\<forall>x \<in> set (snd h0). tracked l x"
      unfolding holds_ok_def by auto
    with h0 show ?thesis by (auto simp: distinct_remove1)
  qed
  with True show ?thesis
    using ok unfolding holds_ok_def
    by (auto simp: remove_sel(5) remove_tracked [OF tr] remove_store_other holds_of_drop_pins)
next
  case False
  then have "\<forall>h \<in> set (ld_holds l). r \<notin> set (snd h)"
    using ok tr holds_of_pos [of r "ld_holds l"] unfolding holds_ok_def by auto
  with False show ?thesis
    using ok unfolding holds_ok_def
    by (auto simp: remove_sel(5) remove_tracked [OF tr] remove_store_other)
qed

lemma ledger_remove_ok: "ledger_ok l \<Longrightarrow> tracked l r \<Longrightarrow> ledger_ok (ledger_remove r l)"
  by (simp add: ledger_ok_def remove_keys_ok remove_nodes_ok remove_roots_ok remove_holds_ok)

section \<open>Opening an instance\<close>

lemma oldest_tracked:
  assumes "keys_ok l" and "ld_instances l = (k, r) # rest"
  shows "tracked l r"
  using assms tracked_key [of l k r] by simp

lemma make_room_ok:
  assumes "ledger_ok l" shows "ledger_ok (make_room key l)"
proof -
  define l1 where "l1 = (case map_of (ld_instances l) key of None \<Rightarrow> l | Some r \<Rightarrow> ledger_remove r l)"
  have ok1: "ledger_ok l1"
    using assms by (auto simp: l1_def ledger_ok_def [of l] split: option.split
        intro!: ledger_remove_ok tracked_key)
  then have "keys_ok l1" by (simp add: ledger_ok_def)
  with ok1 show ?thesis
    unfolding make_room_def Let_def l1_def [symmetric]
    by (auto split: list.split intro: ledger_remove_ok oldest_tracked)
qed

lemma make_room_fresh:
  assumes ok: "keys_ok l" shows "map_of (ld_instances (make_room key l)) key = None"
proof -
  define l1 where "l1 = (case map_of (ld_instances l) key of None \<Rightarrow> l | Some r \<Rightarrow> ledger_remove r l)"
  have "in_key (ld_store l r) = key" if "map_of (ld_instances l) key = Some r" for r
    using that ok by (auto simp: keys_ok_def)
  then have "map_of (ld_instances l1) key = None"
    by (auto simp: l1_def remove_sel(3) split: option.split)
  then show ?thesis
    unfolding make_room_def Let_def l1_def [symmetric]
    by (auto simp: remove_sel(3) split: list.split)
qed

lemma note_parent_sel [simp]:
  "ld_max (note_parent a b c l) = ld_max l" "ld_next (note_parent a b c l) = ld_next l"
  "ld_store (note_parent a b c l) = ld_store l" "ld_instances (note_parent a b c l) = ld_instances l"
  "ld_byNode (note_parent a b c l) = ld_byNode l" "ld_rootByRun (note_parent a b c l) = ld_rootByRun l"
  "ld_holds (note_parent a b c l) = ld_holds l"
  by (simp_all add: note_parent_def Let_def split: option.split)

lemma note_parent_ok: "ledger_ok l \<Longrightarrow> ledger_ok (note_parent a b c l)"
  unfolding ledger_ok_def ledger_parts tracked_def note_parent_sel .

lemma add_sel:
  "ld_max (add_instance a b c l) = ld_max l"
  "ld_next (add_instance a b c l) = Suc (ld_next l)"
  "ld_store (add_instance a b c l) =
     (ld_store l)(ld_next l := blank_instance (join (join a b) c) (join a b) c)"
  "ld_instances (add_instance a b c l) = AList.update (join (join a b) c) (ld_next l) (ld_instances l)"
  "ld_parentByNode (add_instance a b c l) = ld_parentByNode l"
  "ld_holds (add_instance a b c l) = ld_holds l"
  "map_of (ld_rootByRun (add_instance a b c l)) run =
     (if c = a \<and> run = a then Some (ld_next l) else map_of (ld_rootByRun l) run)"
  "map_of (ld_byNode (add_instance a b c l)) nk =
     (if nk = join a b
      then Some ((case map_of (ld_byNode l) nk of None \<Rightarrow> [] | Some xs \<Rightarrow> xs) @ [ld_next l])
      else map_of (ld_byNode l) nk)"
  by (simp_all add: add_instance_def Let_def)

lemma blank_sel [simp]:
  "in_key (blank_instance k n i) = k" "in_nodeKey (blank_instance k n i) = n"
  "in_instanceId (blank_instance k n i) = i" "in_openHolds (blank_instance k n i) = 0"
  "in_heldMs (blank_instance k n i) = 0"
  by (simp_all add: blank_instance_def)

lemma add_tracked:
  assumes ok: "keys_ok l" and fresh: "map_of (ld_instances l) (join (join a b) c) = None"
  shows "tracked (add_instance a b c l) r \<longleftrightarrow> tracked l r \<or> r = ld_next l"
proof (cases "r = ld_next l")
  case True
  then show ?thesis by (simp add: tracked_def add_sel(3,4))
next
  case False
  then have "in_key (ld_store l r) = join (join a b) c \<Longrightarrow> \<not> tracked l r"
    using fresh by (simp add: tracked_def)
  with False show ?thesis by (auto simp: tracked_def add_sel(3,4))
qed

lemma add_instance_ok:
  assumes ok: "ledger_ok l" and fresh: "map_of (ld_instances l) (join (join a b) c) = None"
    and plain: "plain_id a" "plain_id b"
  shows "ledger_ok (add_instance a b c l)"
proof -
  have k: "keys_ok l" and n: "nodes_ok l" and rt: "roots_ok l" and h: "holds_ok l"
    using ok by (simp_all add: ledger_ok_def)
  note tr = add_tracked [OF k fresh]
  have lt: "r < ld_next l" if "tracked l r" for r by (rule tracked_bound [OF k that])
  have neq: "r \<noteq> ld_next l" if "tracked l r" for r using lt [OF that] by simp
  have "keys_ok (add_instance a b c l)"
    using k plain unfolding keys_ok_def
    by (auto simp: add_sel(2-6) distinct_update less_Suc_eq split: if_splits)
  moreover have "nodes_ok (add_instance a b c l)"
  proof -
    have old: "xs \<noteq> [] \<and> distinct xs \<and>
        (\<forall>r \<in> set xs. tracked l r \<and> in_nodeKey (ld_store l r) = nk \<and> r \<noteq> ld_next l)"
      if "map_of (ld_byNode l) nk = Some xs" for nk xs
      using that n neq unfolding nodes_ok_def by blast
    have lists: "xs \<noteq> [] \<and> distinct xs \<and> (\<forall>r \<in> set xs.
        (tracked l r \<or> r = ld_next l) \<and> in_nodeKey (ld_store (add_instance a b c l) r) = nk)"
      if "map_of (ld_byNode (add_instance a b c l)) nk = Some xs" for nk xs
    proof (cases "nk = join a b")
      case True
      show ?thesis
      proof (cases "map_of (ld_byNode l) nk")
        case None
        with that True show ?thesis by (auto simp: add_sel(3,8))
      next
        case (Some ys)
        with that True have "xs = ys @ [ld_next l]" by (simp add: add_sel(8))
        with old [OF Some] True show ?thesis by (auto simp: add_sel(3))
      qed
    next
      case False
      with that have "map_of (ld_byNode l) nk = Some xs" by (simp add: add_sel(8))
      from old [OF this] show ?thesis by (auto simp: add_sel(3))
    qed
    have covered: "\<exists>xs. map_of (ld_byNode (add_instance a b c l))
        (in_nodeKey (ld_store (add_instance a b c l) r)) = Some xs \<and> r \<in> set xs"
      if "tracked l r \<or> r = ld_next l" for r
    proof (cases "r = ld_next l")
      case True
      then show ?thesis by (simp add: add_sel(3,8))
    next
      case False
      with that n obtain xs
        where "map_of (ld_byNode l) (in_nodeKey (ld_store l r)) = Some xs" "r \<in> set xs"
        unfolding nodes_ok_def by blast
      with False show ?thesis by (auto simp: add_sel(3,8))
    qed
    show ?thesis
      unfolding nodes_ok_def tr using lists covered by blast
  qed
  moreover have "roots_ok (add_instance a b c l)"
    using rt neq plain unfolding roots_ok_def
    by (auto simp: add_sel(3,7) tr split: if_splits)
  moreover have "holds_ok (add_instance a b c l)"
  proof -
    have "holds_of (ld_next l) (ld_holds l) = 0"
      using h neq holds_of_pos [of "ld_next l" "ld_holds l"] unfolding holds_ok_def by auto
    then show ?thesis
      using h neq unfolding holds_ok_def by (auto simp: add_sel(3,6) tr)
  qed
  ultimately show ?thesis by (simp add: ledger_ok_def)
qed

lemma ledger_started_ok:
  assumes "ledger_ok l" and "plain_id runId" and "plain_id nodeId"
  shows "ledger_ok (ledger_started runId nodeId instanceId parentId l)"
  unfolding ledger_started_def
  using assms make_room_fresh [of l]
  by (intro add_instance_ok note_parent_ok make_room_ok) (simp_all add: ledger_ok_def [of l])

section \<open>Writing to instances\<close>

text \<open>Only the counters and the times of instances change: the references stay what they were.\<close>

definition same_shape :: "ledger \<Rightarrow> ledger \<Rightarrow> bool" where
  "same_shape l l' \<longleftrightarrow>
     ld_next l' = ld_next l \<and> ld_instances l' = ld_instances l \<and> ld_byNode l' = ld_byNode l \<and>
     ld_rootByRun l' = ld_rootByRun l \<and> ld_parentByNode l' = ld_parentByNode l \<and> ld_max l' = ld_max l \<and>
     (\<forall>r. in_key (ld_store l' r) = in_key (ld_store l r) \<and>
          in_nodeKey (ld_store l' r) = in_nodeKey (ld_store l r) \<and>
          in_instanceId (ld_store l' r) = in_instanceId (ld_store l r))"

lemma same_shape_tracked: "same_shape l l' \<Longrightarrow> tracked l' r = tracked l r"
  by (simp add: same_shape_def tracked_def)

lemma same_shape_ok:
  assumes sh: "same_shape l l'" and ok: "ledger_ok l"
    and wf: "wf_omap (ld_holds l')" and h: "holds_ok l'"
  shows "ledger_ok l'"
proof -
  have eqs: "ld_next l' = ld_next l" "ld_instances l' = ld_instances l" "ld_byNode l' = ld_byNode l"
    "ld_rootByRun l' = ld_rootByRun l"
    "in_key (ld_store l' r) = in_key (ld_store l r)"
    "in_nodeKey (ld_store l' r) = in_nodeKey (ld_store l r)"
    "in_instanceId (ld_store l' r) = in_instanceId (ld_store l r)" for r
    using sh by (simp_all add: same_shape_def)
  note tr = same_shape_tracked [OF sh]
  have "keys_ok l'" using ok wf unfolding ledger_ok_def keys_ok_def eqs by blast
  moreover have "nodes_ok l'" using ok unfolding ledger_ok_def nodes_ok_def eqs tr by blast
  moreover have "roots_ok l'" using ok unfolding ledger_ok_def roots_ok_def eqs tr by blast
  ultimately show ?thesis using h by (simp add: ledger_ok_def)
qed

lemma upd_store_ok:
  assumes ok: "ledger_ok l"
    and f: "\<And>i. in_key (f i) = in_key i \<and> in_nodeKey (f i) = in_nodeKey i \<and>
                  in_instanceId (f i) = in_instanceId i \<and> in_openHolds (f i) = in_openHolds i"
  shows "ledger_ok (upd_store r f l)"
proof (rule same_shape_ok [OF _ ok])
  show sh: "same_shape l (upd_store r f l)" using f by (simp add: same_shape_def)
  show "wf_omap (ld_holds (upd_store r f l))" using ok by (simp add: ledger_ok_def keys_ok_def)
  have "in_openHolds (ld_store (upd_store r f l) x) = in_openHolds (ld_store l x)" for x
    using f by simp
  then show "holds_ok (upd_store r f l)"
    using ok unfolding ledger_ok_def holds_ok_def same_shape_tracked [OF sh] by auto
qed

lemma fold_upd_sel [simp]:
  "ld_max (fold (\<lambda>r. upd_store r f) rs l) = ld_max l"
  "ld_next (fold (\<lambda>r. upd_store r f) rs l) = ld_next l"
  "ld_instances (fold (\<lambda>r. upd_store r f) rs l) = ld_instances l"
  "ld_byNode (fold (\<lambda>r. upd_store r f) rs l) = ld_byNode l"
  "ld_parentByNode (fold (\<lambda>r. upd_store r f) rs l) = ld_parentByNode l"
  "ld_rootByRun (fold (\<lambda>r. upd_store r f) rs l) = ld_rootByRun l"
  "ld_holds (fold (\<lambda>r. upd_store r f) rs l) = ld_holds l"
  by (induction rs arbitrary: l) simp_all

lemma fold_upd_store:
  "distinct rs \<Longrightarrow>
   ld_store (fold (\<lambda>r. upd_store r f) rs l) x = (if x \<in> set rs then f (ld_store l x) else ld_store l x)"
  by (induction rs arbitrary: l) auto

lemma pin_sel [simp]:
  "in_key (pin t i) = in_key i" "in_nodeKey (pin t i) = in_nodeKey i"
  "in_instanceId (pin t i) = in_instanceId i" "in_heldMs (pin t i) = in_heldMs i"
  "in_openHolds (pin t i) = Suc (in_openHolds i)"
  "in_heldSince (pin t i) = (if in_openHolds i = 0 then t else in_heldSince i)"
  by (simp_all add: pin_def Let_def)

lemma unpin_sel [simp]:
  "in_key (unpin t i) = in_key i" "in_nodeKey (unpin t i) = in_nodeKey i"
  "in_instanceId (unpin t i) = in_instanceId i"
  "in_openHolds (unpin t i) = in_openHolds i - 1"
  "in_heldSince (unpin t i) = in_heldSince i"
  by (simp_all add: unpin_def Let_def)

section \<open>The instances a hold is pinned to\<close>

lemma listed:
  assumes "ledger_ok l" and "map_of (ld_byNode l) nk = Some xs" and "x \<in> set xs"
  shows "tracked l x \<and> in_nodeKey (ld_store l x) = nk"
  using assms unfolding ledger_ok_def nodes_ok_def by blast

lemma newest_listed:
  assumes "ledger_ok l" and "map_of (ld_byNode l) nk = Some xs"
  shows "xs \<noteq> []" and "tracked l (last xs)" and "in_nodeKey (ld_store l (last xs)) = nk"
proof -
  show ne: "xs \<noteq> []" using assms unfolding ledger_ok_def nodes_ok_def by blast
  show "tracked l (last xs)" and "in_nodeKey (ld_store l (last xs)) = nk"
    using listed [OF assms last_in_set [OF ne]] by simp_all
qed

lemma ancestors_ok:
  "ledger_ok l \<Longrightarrow> distinct (ancestors n run cur seen l) \<and>
    (\<forall>r \<in> set (ancestors n run cur seen l). tracked l r \<and> in_nodeKey (ld_store l r) \<notin> set seen)"
proof (induction n arbitrary: cur seen)
  case 0
  then show ?case by simp
next
  case (Suc hops)
  show ?case
  proof (cases "map_of (ld_parentByNode l) cur")
    case None
    then show ?thesis by simp
  next
    case (Some p)
    define key where "key = join run p"
    define rest where "rest = ancestors hops run key (key # seen) l"
    have rest: "distinct rest \<and>
        (\<forall>r \<in> set rest. tracked l r \<and> in_nodeKey (ld_store l r) \<notin> set (key # seen))"
      unfolding rest_def by (rule Suc.IH [OF Suc.prems])
    show ?thesis
    proof (cases "key \<in> set seen")
      case True
      with Some show ?thesis by (simp add: key_def)
    next
      case False
      show ?thesis
      proof (cases "map_of (ld_byNode l) key")
        case None
        then have "ancestors (Suc hops) run cur seen l = rest"
          using Some False by (simp add: key_def rest_def Let_def)
        with rest show ?thesis by simp
      next
        case xs: (Some xs)
        note new = newest_listed [OF Suc.prems xs]
        have "ancestors (Suc hops) run cur seen l = last xs # rest"
          using Some False xs new(1) by (simp add: key_def rest_def Let_def)
        with rest new False show ?thesis by auto
      qed
    qed
  qed
qed

lemma hold_target_ok:
  assumes ok: "ledger_ok l" and plain: "plain_id run" "plain_id node"
    and t: "hold_target (join run node) point i l = Some r"
  shows "tracked l r \<and> in_nodeKey (ld_store l r) = join run node"
proof -
  have unnamed: "tracked l r \<and> in_nodeKey (ld_store l r) = join run node"
    if "unnamed_target (join run node) point l = Some r"
  proof -
    from that obtain xs where xs: "map_of (ld_byNode l) (join run node) = Some xs"
      and "r \<in> set xs"
      by (auto simp: unnamed_target_def find_Some_iff split: option.splits if_splits)
        (metis nth_mem set_rev length_rev)+
    then show ?thesis using listed [OF ok xs] by simp
  qed
  show ?thesis
  proof (cases "unnamed_target (join run node) point l = Some r")
    case True
    then show ?thesis by (rule unnamed)
  next
    case False
    then obtain i' where "map_of (ld_instances l) (join (join run node) i') = Some r"
      using t by (auto simp: hold_target_def split: option.splits if_splits)
    moreover from this ok obtain run' node' where "plain_id run'" "plain_id node'"
      "in_nodeKey (ld_store l r) = join run' node'"
      "join (join run node) i' = join (join run' node') (in_instanceId (ld_store l r))"
      unfolding ledger_ok_def keys_ok_def by metis
    ultimately show ?thesis
      using join_join_inj [OF plain] ok tracked_key by (metis ledger_ok_def)
  qed
qed

lemma pinned_refs_ok:
  assumes ok: "ledger_ok l"
    and t: "\<And>r. target = Some r \<Longrightarrow> tracked l r \<and> in_nodeKey (ld_store l r) = nk"
  shows "distinct (pinned_refs run nk target l) \<and> (\<forall>r \<in> set (pinned_refs run nk target l). tracked l r)"
proof -
  define chain where
    "chain = (case target of None \<Rightarrow> [] | Some r \<Rightarrow> [r]) @ ancestors MAX_DEPTH run nk [nk] l"
  have chain: "distinct chain \<and> (\<forall>r \<in> set chain. tracked l r)"
    using ancestors_ok [OF ok, of MAX_DEPTH run nk "[nk]"] t
    by (auto simp: chain_def split: option.split)
  have "tracked l r" if "map_of (ld_rootByRun l) run = Some r" for r
    using that ok unfolding ledger_ok_def roots_ok_def by blast
  with chain show ?thesis
    unfolding pinned_refs_def chain_def [symmetric] Let_def by (auto split: option.split)
qed

section \<open>Every operation keeps the invariant\<close>

lemma holds_of_append [simp]:
  "holds_of r (hs @ [(p, xs)]) = holds_of r hs + (if r \<in> set xs then 1 else 0)"
  by (simp add: holds_of_def)

lemma holds_of_delete:
  assumes "wf_omap hs" and "map_of hs p = Some xs"
  shows "holds_of r hs = holds_of r (AList.delete p hs) + (if r \<in> set xs then 1 else 0)"
  using length_filter_delete [OF assms, of "\<lambda>h. r \<in> set (snd h)"] by (simp add: holds_of_def)

definition clear_errored :: "pause_point \<Rightarrow> ref option \<Rightarrow> ledger \<Rightarrow> ledger" where
  "clear_errored point target l =
     (case target of
        Some r \<Rightarrow> if point = At_error then upd_store r (\<lambda>i. i\<lparr>in_errored := False\<rparr>) l else l
      | None \<Rightarrow> l)"

definition put_hold :: "ident \<Rightarrow> ref list \<Rightarrow> millis \<Rightarrow> ledger \<Rightarrow> ledger" where
  "put_hold p pinned t l =
     (fold (\<lambda>r. upd_store r (pin t)) pinned l)\<lparr>ld_holds := AList.update p pinned (ld_holds l)\<rparr>"

definition drop_hold :: "ident \<Rightarrow> ref list \<Rightarrow> millis \<Rightarrow> ledger \<Rightarrow> ledger" where
  "drop_hold p pinned t l =
     fold (\<lambda>r. upd_store r (unpin t)) pinned (l\<lparr>ld_holds := AList.delete p (ld_holds l)\<rparr>)"

lemma clear_errored_ok: "ledger_ok l \<Longrightarrow> ledger_ok (clear_errored point target l)"
  by (auto simp: clear_errored_def intro: upd_store_ok split: option.split)

lemma clear_errored_holds [simp]: "ld_holds (clear_errored point target l) = ld_holds l"
  by (simp add: clear_errored_def split: option.split)

lemma clear_errored_shape: "same_shape l (clear_errored point target l)"
  by (simp add: clear_errored_def same_shape_def split: option.split)

lemma holdOpened_stages:
  fixes p run node point i t l
  defines "nk \<equiv> join run node"
  defines "l1 \<equiv> clear_errored point (hold_target nk point i l) l"
  defines "pinned \<equiv> pinned_refs run nk (hold_target nk point i l) l1"
  shows "fst (holdOpened p run node point i (Some t) l) =
           (if pinned = [] then l1 else put_hold p pinned t l1)"
  unfolding holdOpened_def Let_def pinned_def l1_def nk_def clear_errored_def put_hold_def
  by simp

lemma put_hold_ok:
  assumes ok: "ledger_ok l" and fresh: "map_of (ld_holds l) p = None"
    and ne: "pinned \<noteq> []" and d: "distinct pinned" and tr: "\<forall>r \<in> set pinned. tracked l r"
  shows "ledger_ok (put_hold p pinned t l)"
proof (rule same_shape_ok [OF _ ok])
  show sh: "same_shape l (put_hold p pinned t l)"
    by (simp add: same_shape_def put_hold_def fold_upd_store [OF d])
  show "wf_omap (ld_holds (put_hold p pinned t l))"
    using ok by (simp add: put_hold_def ledger_ok_def keys_ok_def distinct_update)
  have hs: "ld_holds (put_hold p pinned t l) = ld_holds l @ [(p, pinned)]"
    using fresh by (simp add: put_hold_def update_fresh map_of_None_keys)
  have st: "ld_store (put_hold p pinned t l) r =
      (if r \<in> set pinned then pin t (ld_store l r) else ld_store l r)" for r
    by (simp add: put_hold_def fold_upd_store [OF d])
  show "holds_ok (put_hold p pinned t l)"
    using ok ne d tr unfolding ledger_ok_def holds_ok_def same_shape_tracked [OF sh] hs st
    by auto
qed

lemma drop_hold_ok:
  assumes ok: "ledger_ok l" and p: "map_of (ld_holds l) p = Some pinned"
  shows "ledger_ok (drop_hold p pinned t l)"
proof (rule same_shape_ok [OF _ ok])
  have mem: "(p, pinned) \<in> set (ld_holds l)" using p by (rule map_of_SomeD)
  with ok have d: "distinct pinned" unfolding ledger_ok_def holds_ok_def by auto
  show sh: "same_shape l (drop_hold p pinned t l)"
    by (simp add: same_shape_def drop_hold_def fold_upd_store [OF d])
  have wf: "wf_omap (ld_holds l)" using ok by (simp add: ledger_ok_def keys_ok_def)
  then show "wf_omap (ld_holds (drop_hold p pinned t l))"
    by (simp add: drop_hold_def distinct_delete)
  have hs: "ld_holds (drop_hold p pinned t l) = AList.delete p (ld_holds l)"
    by (simp add: drop_hold_def)
  have st: "in_openHolds (ld_store (drop_hold p pinned t l) r) =
      in_openHolds (ld_store l r) - (if r \<in> set pinned then 1 else 0)" for r
    by (simp add: drop_hold_def fold_upd_store [OF d])
  have sub: "set (AList.delete p (ld_holds l)) \<subseteq> set (ld_holds l)"
    by (auto simp: delete_filter)
  show "holds_ok (drop_hold p pinned t l)"
    using ok sub holds_of_delete [OF wf p]
    unfolding ledger_ok_def holds_ok_def same_shape_tracked [OF sh] hs st by auto
qed

lemma holdOpened_pinned:
  fixes point i
  assumes ok: "ledger_ok l" and plain: "plain_id run" "plain_id node"
  defines "target \<equiv> hold_target (join run node) point i l"
  defines "l1 \<equiv> clear_errored point target l"
  shows "distinct (pinned_refs run (join run node) target l1) \<and>
         (\<forall>r \<in> set (pinned_refs run (join run node) target l1). tracked l1 r)"
proof (rule pinned_refs_ok)
  show "ledger_ok l1" using ok by (simp add: l1_def clear_errored_ok)
  have sh: "same_shape l l1" by (simp add: l1_def clear_errored_shape)
  show "tracked l1 r \<and> in_nodeKey (ld_store l1 r) = join run node" if "target = Some r" for r
    using hold_target_ok [OF ok plain] that sh same_shape_tracked [OF sh]
    by (simp add: target_def same_shape_def)
qed

lemma holdOpened_ok:
  assumes ok: "ledger_ok l" and plain: "plain_id run" "plain_id node"
    and fresh: "map_of (ld_holds l) p = None"
  shows "ledger_ok (fst (holdOpened p run node point i (Some t) l))"
  unfolding holdOpened_stages
  using holdOpened_pinned [OF ok plain, of point i] fresh
    clear_errored_ok [OF ok]
  by (auto intro!: put_hold_ok)

lemma holdClosed_stages:
  "fst (holdClosed p (Some t) l) =
     (case map_of (ld_holds l) p of None \<Rightarrow> l | Some pinned \<Rightarrow> drop_hold p pinned t l)"
  by (simp add: holdClosed_def drop_hold_def Let_def split: option.split)

lemma holdClosed_ok: "ledger_ok l \<Longrightarrow> ledger_ok (fst (holdClosed p (Some t) l))"
  by (auto simp: holdClosed_stages intro: drop_hold_ok split: option.split)

lemma ledger_errored_ok: "ledger_ok l \<Longrightarrow> ledger_ok (ledger_errored run node i l)"
  by (auto simp: ledger_errored_def intro: upd_store_ok split: option.split)

lemma pick_tracked:
  assumes ok: "ledger_ok l" and p: "pick nk i l = Some r" shows "tracked l r"
proof -
  have k: "keys_ok l" using ok by (simp add: ledger_ok_def)
  show ?thesis
    using p tracked_key [OF k] newest_listed [OF ok]
    by (auto simp: pick_def split: option.splits if_splits)
qed

lemma ledger_finished_ok: "ledger_ok l \<Longrightarrow> ledger_ok (fst (ledger_finished run node i now l))"
  by (auto simp: ledger_finished_def intro: ledger_remove_ok pick_tracked split: option.split)

section \<open>Runs of the ledger\<close>

datatype ledger_event =
    L_started ident ident ident "ident option"
  | L_errored ident ident "ident option"
  | L_opened ident ident ident pause_point "ident option"
  | L_closed ident
  | L_finished ident ident "ident option"

fun ledger_step :: "millis \<Rightarrow> ledger_event \<Rightarrow> ledger \<Rightarrow> ledger" where
  "ledger_step t (L_started run node i parent) l = ledger_started run node i parent l"
| "ledger_step t (L_errored run node i) l = ledger_errored run node i l"
| "ledger_step t (L_opened p run node point i) l = fst (holdOpened p run node point i (Some t) l)"
| "ledger_step t (L_closed p) l = fst (holdClosed p (Some t) l)"
| "ledger_step t (L_finished run node i) l = fst (ledger_finished run node i (Some t) l)"

text \<open>Identifiers without a separator, and a pause id that is not open already.\<close>

fun admissible :: "ledger_event \<Rightarrow> ledger \<Rightarrow> bool" where
  "admissible (L_started run node i parent) l = (plain_id run \<and> plain_id node)"
| "admissible (L_opened p run node point i) l =
     (plain_id run \<and> plain_id node \<and> map_of (ld_holds l) p = None)"
| "admissible _ l = True"

lemma ledger_step_ok: "ledger_ok l \<Longrightarrow> admissible e l \<Longrightarrow> ledger_ok (ledger_step t e l)"
  by (cases e) (auto intro: ledger_started_ok ledger_errored_ok holdOpened_ok holdClosed_ok
      ledger_finished_ok)

fun ledger_run :: "(millis \<times> ledger_event) list \<Rightarrow> ledger \<Rightarrow> ledger" where
  "ledger_run [] l = l"
| "ledger_run ((t, e) # es) l = ledger_run es (ledger_step t e l)"

text \<open>A run on a clock that never goes back, every event of it admissible.\<close>

fun good_run :: "millis \<Rightarrow> (millis \<times> ledger_event) list \<Rightarrow> ledger \<Rightarrow> bool" where
  "good_run t0 [] l = True"
| "good_run t0 ((t, e) # es) l \<longleftrightarrow> t0 \<le> t \<and> admissible e l \<and> good_run t es (ledger_step t e l)"

lemma ledger_run_ok: "ledger_ok l \<Longrightarrow> good_run t0 es l \<Longrightarrow> ledger_ok (ledger_run es l)"
  by (induction t0 es l rule: good_run.induct) (auto intro: ledger_step_ok)

section \<open>Accounting\<close>

text \<open>
  What the debugger held an instance for, read off the run alone: the time between two
  events counts when a hold pinned to the instance was open in between.
\<close>

definition held :: "ledger \<Rightarrow> ref \<Rightarrow> bool" where
  "held l r \<longleftrightarrow> (\<exists>h \<in> set (ld_holds l). r \<in> set (snd h))"

fun held_clock :: "ref \<Rightarrow> millis \<Rightarrow> (millis \<times> ledger_event) list \<Rightarrow> millis \<Rightarrow> ledger \<Rightarrow> millis" where
  "held_clock r t0 [] t' l = (if held l r then t' - t0 else 0)"
| "held_clock r t0 ((t, e) # es) t' l =
     (if held l r then t - t0 else 0) + held_clock r t es t' (ledger_step t e l)"

fun last_time :: "millis \<Rightarrow> (millis \<times> ledger_event) list \<Rightarrow> millis" where
  "last_time t0 [] = t0"
| "last_time t0 ((t, e) # es) = last_time t es"

fun stays :: "ref \<Rightarrow> (millis \<times> ledger_event) list \<Rightarrow> ledger \<Rightarrow> bool" where
  "stays r [] l = tracked l r"
| "stays r ((t, e) # es) l \<longleftrightarrow> tracked l r \<and> stays r es (ledger_step t e l)"

definition since_ok :: "millis \<Rightarrow> instance_rec \<Rightarrow> bool" where
  "since_ok t i \<longleftrightarrow> (0 < in_openHolds i \<longrightarrow> in_heldSince i \<le> t)"

text \<open>A step that takes no time moves no time: the total at its own instant is unchanged.\<close>

definition settled :: "millis \<Rightarrow> instance_rec \<Rightarrow> instance_rec \<Rightarrow> bool" where
  "settled t i i' \<longleftrightarrow> (since_ok t i \<longrightarrow> since_ok t i' \<and> raw_total i' t = raw_total i t)"

lemma settled_refl [simp]: "settled t i i"
  by (simp add: settled_def)

lemma settled_trans: "settled t i j \<Longrightarrow> settled t j k \<Longrightarrow> settled t i k"
  by (auto simp: settled_def)

lemma settled_pin: "settled t i (pin t i)"
  by (auto simp: settled_def since_ok_def raw_total_def)

lemma settled_unpin: "settled t i (unpin t i)"
  by (auto simp: settled_def since_ok_def raw_total_def unpin_def Let_def)

lemma settled_errored: "settled t i (i\<lparr>in_errored := b\<rparr>)"
  by (auto simp: settled_def since_ok_def raw_total_def)

lemma settled_remove: "tracked l r \<Longrightarrow> tracked (ledger_remove r l) x \<Longrightarrow>
    settled t (ld_store l x) (ld_store (ledger_remove r l) x) \<and> tracked l x"
  by (simp add: remove_tracked remove_store_other)

lemma settled_clear: "settled t (ld_store l x) (ld_store (clear_errored point target l) x)"
  by (simp add: clear_errored_def settled_errored split: option.split)

lemma make_room_settled:
  assumes ok: "ledger_ok l" and tr: "tracked (make_room key l) x"
  shows "ld_store (make_room key l) x = ld_store l x \<and> tracked l x"
proof -
  define l1 where "l1 = (case map_of (ld_instances l) key of None \<Rightarrow> l | Some r \<Rightarrow> ledger_remove r l)"
  have k: "keys_ok l" using ok by (simp add: ledger_ok_def)
  have ok1: "ledger_ok l1"
    using ok k by (auto simp: l1_def split: option.split intro!: ledger_remove_ok tracked_key)
  have one: "ld_store l1 x = ld_store l x \<and> tracked l x" if "tracked l1 x"
    using that tracked_key [OF k]
    by (auto simp: l1_def remove_tracked remove_store_other split: option.splits)
  have k1: "keys_ok l1" using ok1 by (simp add: ledger_ok_def)
  have "ld_store (make_room key l) x = ld_store l1 x \<and> tracked l1 x"
    using tr oldest_tracked [OF k1] unfolding make_room_def Let_def l1_def [symmetric]
    by (auto simp: remove_tracked remove_store_other split: list.splits if_splits)
  with one show ?thesis by simp
qed

lemma make_room_next [simp]: "ld_next (make_room key l) = ld_next l"
  by (auto simp: make_room_def Let_def remove_sel split: option.split list.split)

lemma started_settled:
  assumes ok: "ledger_ok l" and plain: "plain_id a" "plain_id b"
    and tr: "tracked (ledger_started a b c p l) x"
  shows "(x = ld_next l \<and> ld_store (ledger_started a b c p l) x = blank_instance (join (join a b) c) (join a b) c) \<or>
         (x \<noteq> ld_next l \<and> ld_store (ledger_started a b c p l) x = ld_store l x \<and> tracked l x)"
proof -
  define l2 where "l2 = note_parent a b p (make_room (join (join a b) c) l)"
  have k: "keys_ok l2" and k0: "keys_ok l"
    using ok make_room_ok [OF ok] note_parent_ok by (simp_all add: l2_def ledger_ok_def)
  have fresh: "map_of (ld_instances l2) (join (join a b) c) = None"
    by (simp add: l2_def make_room_fresh [OF k0])
  have n: "ld_next l2 = ld_next l" by (simp add: l2_def)
  have "tracked l2 x = tracked (make_room (join (join a b) c) l) x"
    by (simp add: l2_def tracked_def)
  then have "tracked l2 x \<Longrightarrow> ld_store l2 x = ld_store l x \<and> tracked l x"
    using make_room_settled [OF ok] by (simp add: l2_def)
  moreover have "tracked l2 x \<or> x = ld_next l"
    using tr add_tracked [OF k fresh] n by (simp add: ledger_started_def l2_def)
  ultimately show ?thesis
    by (auto simp: ledger_started_def l2_def [symmetric] add_sel(3) n)
qed

lemma holdOpened_settled:
  assumes ok: "ledger_ok l" and plain: "plain_id run" "plain_id node"
  shows "settled t (ld_store l x) (ld_store (fst (holdOpened p run node point i (Some t) l)) x)"
  using holdOpened_pinned [OF ok plain, of point i]
  by (auto simp: holdOpened_stages put_hold_def fold_upd_store settled_clear
      intro: settled_trans [OF settled_clear settled_pin])

lemma holdClosed_settled:
  assumes ok: "ledger_ok l"
  shows "settled t (ld_store l x) (ld_store (fst (holdClosed p (Some t) l)) x)"
proof (cases "map_of (ld_holds l) p")
  case None
  then show ?thesis by (simp add: holdClosed_stages)
next
  case (Some pinned)
  then have "(p, pinned) \<in> set (ld_holds l)" by (rule map_of_SomeD)
  with ok have "distinct pinned" unfolding ledger_ok_def holds_ok_def by auto
  with Some show ?thesis
    by (simp add: holdClosed_stages drop_hold_def fold_upd_store settled_unpin)
qed

lemma holdOpened_shape: "same_shape l (fst (holdOpened p run node point i (Some t) l))"
  if "ledger_ok l" "plain_id run" "plain_id node"
  using holdOpened_pinned [OF that, of point i]
  by (auto simp: holdOpened_stages same_shape_def put_hold_def fold_upd_store clear_errored_def
      split: option.split)

lemma holdClosed_shape: "same_shape l (fst (holdClosed p (Some t) l))" if "ledger_ok l"
proof (cases "map_of (ld_holds l) p")
  case None
  then show ?thesis by (simp add: holdClosed_stages same_shape_def)
next
  case (Some pinned)
  then have "(p, pinned) \<in> set (ld_holds l)" by (rule map_of_SomeD)
  with that have "distinct pinned" unfolding ledger_ok_def holds_ok_def by auto
  with Some show ?thesis
    by (simp add: holdClosed_stages drop_hold_def fold_upd_store same_shape_def)
qed

lemma ledger_step_settled:
  assumes ok: "ledger_ok l" and adm: "admissible e l"
    and tr: "tracked l x" and tr': "tracked (ledger_step t e l) x"
  shows "settled t (ld_store l x) (ld_store (ledger_step t e l) x)"
proof (cases e)
  case (L_started a b i p)
  have "x \<noteq> ld_next l" using tracked_bound [of l x] ok tr by (simp add: ledger_ok_def)
  then show ?thesis using started_settled [OF ok, of a b i p x] adm tr' L_started by auto
next
  case (L_errored run node i)
  then show ?thesis by (simp add: ledger_errored_def settled_errored split: option.split)
next
  case (L_opened p run node point i)
  then show ?thesis using holdOpened_settled [OF ok] adm by simp
next
  case (L_closed p)
  then show ?thesis using holdClosed_settled [OF ok] by simp
next
  case (L_finished run node i)
  then show ?thesis
    using tr' pick_tracked [OF ok]
    by (auto simp: ledger_finished_def remove_tracked remove_store_other split: option.splits)
qed

lemma time_passes:
  assumes "ledger_ok l" and "tracked l r" and "since_ok t (ld_store l r)" and "t \<le> t'"
  shows "raw_total (ld_store l r) t' = raw_total (ld_store l r) t + (if held l r then t' - t else 0)"
    and "since_ok t' (ld_store l r)"
proof -
  have "in_openHolds (ld_store l r) = holds_of r (ld_holds l)"
    using assms(1,2) unfolding ledger_ok_def holds_ok_def by blast
  then have "held l r \<longleftrightarrow> 0 < in_openHolds (ld_store l r)" by (simp add: held_def holds_of_pos)
  then show "raw_total (ld_store l r) t' = raw_total (ld_store l r) t + (if held l r then t' - t else 0)"
    using assms(3,4) by (auto simp: raw_total_def since_ok_def)
  show "since_ok t' (ld_store l r)" using assms(3,4) by (auto simp: since_ok_def)
qed

lemma accounting:
  assumes "ledger_ok l" and "good_run t0 es l" and "stays r es l"
    and "since_ok t0 (ld_store l r)" and "last_time t0 es \<le> t'"
  shows "raw_total (ld_store (ledger_run es l) r) t' =
         raw_total (ld_store l r) t0 + held_clock r t0 es t' l"
  using assms
proof (induction es arbitrary: t0 l)
  case Nil
  have "tracked l r" and "t0 \<le> t'" using Nil.prems(3,5) by simp_all
  from time_passes(1) [OF Nil.prems(1) this(1) Nil.prems(4) this(2)] show ?case by simp
next
  case (Cons te es)
  obtain t e where te: "te = (t, e)" by (cases te)
  define l' where "l' = ledger_step t e l"
  have adm: "admissible e l" "t0 \<le> t" and good: "good_run t es l'"
    using Cons.prems(2) by (auto simp: te l'_def)
  have tr: "tracked l r" and stay: "stays r es l'" using Cons.prems(3) by (auto simp: te l'_def)
  have tr': "tracked l' r" using stay by (cases es) auto
  have ok': "ledger_ok l'" unfolding l'_def by (rule ledger_step_ok [OF Cons.prems(1) adm(1)])
  have pass: "raw_total (ld_store l r) t = raw_total (ld_store l r) t0 + (if held l r then t - t0 else 0)"
    and since: "since_ok t (ld_store l r)"
    using time_passes [OF Cons.prems(1) tr Cons.prems(4) adm(2)] by blast+
  have "settled t (ld_store l r) (ld_store l' r)"
    unfolding l'_def using ledger_step_settled [OF Cons.prems(1) adm(1) tr] tr' by (simp add: l'_def)
  then have "since_ok t (ld_store l' r)" and eq: "raw_total (ld_store l' r) t = raw_total (ld_store l r) t"
    using since by (auto simp: settled_def)
  then have "raw_total (ld_store (ledger_run es l') r) t' = raw_total (ld_store l' r) t + held_clock r t es t' l'"
    using Cons.IH [OF ok' good stay] Cons.prems(5) by (simp add: te)
  then show ?case using pass eq by (simp add: te l'_def [symmetric])
qed

lemma held_clock_bounds:
  assumes "good_run t0 es l" and "last_time t0 es \<le> t'"
  shows "0 \<le> held_clock r t0 es t' l" and "held_clock r t0 es t' l \<le> t' - t0"
proof -
  have "0 \<le> held_clock r t0 es t' l \<and> held_clock r t0 es t' l \<le> t' - t0" using assms
  proof (induction es arbitrary: t0 l)
    case (Cons te es)
    obtain t e where te: "te = (t, e)" by (cases te)
    have t: "t0 \<le> t" and good: "good_run t es (ledger_step t e l)" and last: "last_time t es \<le> t'"
      using Cons.prems by (simp_all add: te)
    note IH = Cons.IH [OF good last]
    show ?case
    proof (cases "held l r")
      case True
      then have "held_clock r t0 (te # es) t' l = t - t0 + held_clock r t es t' (ledger_step t e l)"
        by (simp add: te)
      with IH t show ?thesis by linarith
    next
      case False
      then have "held_clock r t0 (te # es) t' l = held_clock r t es t' (ledger_step t e l)"
        by (simp add: te)
      with IH t show ?thesis by linarith
    qed
  qed simp
  then show "0 \<le> held_clock r t0 es t' l" and "held_clock r t0 es t' l \<le> t' - t0" by auto
qed

section \<open>Bounded memory, stable names\<close>

lemma length_update_le: "length (AList.update k v m) \<le> Suc (length m)"
  by (induction m) (auto split: if_splits)

lemma delete_shorter:
  assumes "map_of m k = Some v" shows "length (AList.delete k m) < length m"
proof -
  have "k \<in> fst ` set m" using assms by (metis domI dom_map_of_conv_image_fst)
  then have "k \<in> set (okeys m)" by simp
  then show ?thesis by (induction m) (force simp: less_Suc_eq_le length_delete_le)+
qed

lemma make_room_length:
  assumes ok: "ledger_ok l" and bound: "length (ld_instances l) \<le> ld_max l" and pos: "0 < ld_max l"
  shows "length (ld_instances (make_room key l)) < ld_max l"
proof -
  define l1 where "l1 = (case map_of (ld_instances l) key of None \<Rightarrow> l | Some r \<Rightarrow> ledger_remove r l)"
  have k: "keys_ok l" using ok by (simp add: ledger_ok_def)
  have ok1: "ledger_ok l1"
    using ok k by (auto simp: l1_def split: option.split intro!: ledger_remove_ok tracked_key)
  have m1: "ld_max l1 = ld_max l" by (simp add: l1_def remove_sel split: option.split)
  have b1: "length (ld_instances l1) \<le> ld_max l"
    using bound length_delete_le [of _ "ld_instances l"]
    by (auto simp: l1_def remove_sel split: option.split intro: order_trans)
  have "length (ld_instances (ledger_remove r l1)) < length (ld_instances l1)"
    if "ld_instances l1 = (k', r) # rest" for k' r rest
  proof -
    have "keys_ok l1" using ok1 by (simp add: ledger_ok_def)
    from oldest_tracked [OF this that] have "map_of (ld_instances l1) (in_key (ld_store l1 r)) = Some r"
      by (simp add: tracked_def)
    from delete_shorter [OF this] show ?thesis by (simp add: remove_sel)
  qed
  then show ?thesis
    unfolding make_room_def Let_def l1_def [symmetric] m1
    using b1 pos by (auto split: list.split)
qed

lemma ledger_step_max [simp]: "ledger_ok l \<Longrightarrow> admissible e l \<Longrightarrow> ld_max (ledger_step t e l) = ld_max l"
proof (cases e)
  case (L_started a b c p)
  then show ?thesis
    by (auto simp: ledger_started_def add_sel make_room_def remove_sel Let_def split: option.split list.split)
qed (auto simp: ledger_errored_def ledger_finished_def remove_sel holdClosed_stages drop_hold_def
    holdOpened_stages put_hold_def clear_errored_def split: option.split)

lemma ledger_step_bound:
  assumes ok: "ledger_ok l" and adm: "admissible e l"
    and bound: "length (ld_instances l) \<le> ld_max l" and pos: "0 < ld_max l"
  shows "length (ld_instances (ledger_step t e l)) \<le> ld_max l"
proof (cases e)
  case (L_started a b c p)
  have "length (ld_instances (make_room (join (join a b) c) l)) < ld_max l"
    by (rule make_room_length [OF ok bound pos])
  then show ?thesis
    using length_update_le [of "join (join a b) c" "ld_next l" "ld_instances (make_room (join (join a b) c) l)"]
    by (simp add: L_started ledger_started_def add_sel)
next
  case (L_opened p run node point i)
  then show ?thesis
    using holdOpened_shape [OF ok, of run node p point i t] adm bound by (simp add: same_shape_def)
next
  case (L_closed p)
  then show ?thesis using holdClosed_shape [OF ok, of p t] bound by (simp add: same_shape_def)
next
  case (L_finished run node i)
  then show ?thesis
    using bound length_delete_le [of _ "ld_instances l"]
    by (auto simp: ledger_finished_def remove_sel split: option.split intro: order_trans)
qed (use bound in \<open>auto simp: ledger_errored_def split: option.split\<close>)

lemma ledger_run_bound:
  assumes "ledger_ok l" and "good_run t0 es l" and "length (ld_instances l) \<le> ld_max l" and "0 < ld_max l"
  shows "length (ld_instances (ledger_run es l)) \<le> ld_max l"
  using assms
proof (induction es arbitrary: t0 l)
  case (Cons te es)
  obtain t e where te: "te = (t, e)" by (cases te)
  have adm: "admissible e l" and good: "good_run t es (ledger_step t e l)"
    using Cons.prems(2) by (simp_all add: te)
  have m: "ld_max (ledger_step t e l) = ld_max l" by (rule ledger_step_max [OF Cons.prems(1) adm])
  have "length (ld_instances (ledger_run es (ledger_step t e l))) \<le> ld_max (ledger_step t e l)"
    using Cons.IH [OF ledger_step_ok [OF Cons.prems(1) adm] good]
      ledger_step_bound [OF Cons.prems(1) adm Cons.prems(3,4)] Cons.prems(4) m by simp
  then show ?case by (simp add: te m)
qed simp

lemma make_room_fields [simp]:
  "in_key (ld_store (make_room key l) r) = in_key (ld_store l r)"
  "in_nodeKey (ld_store (make_room key l) r) = in_nodeKey (ld_store l r)"
  by (auto simp: make_room_def Let_def split: option.split list.split)

lemma ledger_step_names:
  assumes ok: "ledger_ok l" and adm: "admissible e l" and old: "r < ld_next l"
  shows "in_key (ld_store (ledger_step t e l) r) = in_key (ld_store l r) \<and>
         in_nodeKey (ld_store (ledger_step t e l) r) = in_nodeKey (ld_store l r) \<and>
         ld_next l \<le> ld_next (ledger_step t e l)"
proof (cases e)
  case (L_started a b c p)
  then show ?thesis using old by (simp add: ledger_started_def add_sel)
next
  case (L_opened p run node point i)
  then show ?thesis
    using holdOpened_shape [OF ok, of run node p point i t] adm by (simp add: same_shape_def)
next
  case (L_closed p)
  then show ?thesis using holdClosed_shape [OF ok, of p t] by (simp add: same_shape_def)
next
  case (L_finished run node i)
  then show ?thesis by (auto simp: ledger_finished_def remove_sel(2) split: option.split)
qed (auto simp: ledger_errored_def split: option.split)

lemma ledger_run_names:
  assumes "ledger_ok l" and "good_run t0 es l" and "r < ld_next l"
  shows "in_key (ld_store (ledger_run es l) r) = in_key (ld_store l r) \<and>
         in_nodeKey (ld_store (ledger_run es l) r) = in_nodeKey (ld_store l r)"
  using assms
proof (induction es arbitrary: t0 l)
  case (Cons te es)
  obtain t e where te: "te = (t, e)" by (cases te)
  have adm: "admissible e l" and good: "good_run t es (ledger_step t e l)"
    using Cons.prems(2) by (simp_all add: te)
  note names = ledger_step_names [OF Cons.prems(1) adm Cons.prems(3), of t]
  show ?case
    using Cons.IH [OF ledger_step_ok [OF Cons.prems(1) adm] good] names Cons.prems(3) by (simp add: te)
qed simp

lemma stays_end: "stays r es l \<Longrightarrow> tracked (ledger_run es l) r"
  by (induction r es l rule: stays.induct) auto

lemma pick_exact:
  assumes ok: "ledger_ok l" and tr: "tracked l r"
    and n: "in_nodeKey (ld_store l r) = nk" and k: "in_key (ld_store l r) = join nk i"
  shows "pick nk (Some i) l = Some r"
proof -
  from ok tr obtain xs where "map_of (ld_byNode l) nk = Some xs" "r \<in> set xs"
    unfolding ledger_ok_def nodes_ok_def n [symmetric] by blast
  then show ?thesis using tr k by (auto simp: pick_def tracked_def)
qed

lemma new_instance:
  fixes i parent
  assumes ok: "ledger_ok l" and plain: "plain_id run" "plain_id node"
  defines "l1 \<equiv> ledger_started run node i parent l"
  shows "ledger_ok l1" and "tracked l1 (ld_next l)" and "ld_next l < ld_next l1"
    and "ld_store l1 (ld_next l) = blank_instance (join (join run node) i) (join run node) i"
  using ledger_started_ok [OF ok plain]
  by (simp_all add: l1_def ledger_started_def add_sel tracked_def)

lemma finished_total:
  fixes inst parent
  assumes ok: "ledger_ok l" and plain: "plain_id run" "plain_id node"
  defines "l1 \<equiv> ledger_started run node inst parent l"
  assumes run: "good_run t0 es l1" "stays (ld_next l) es l1" "last_time t0 es \<le> t"
  shows "snd (ledger_finished run node (Some inst) (Some t) (ledger_run es l1)) =
         Inr (Some (normalizeDurationMs (Fin (held_clock (ld_next l) t0 es t l1))))"
proof -
  note new = new_instance [OF ok plain, of inst parent, folded l1_def]
  have ok': "ledger_ok (ledger_run es l1)" by (rule ledger_run_ok [OF new(1) run(1)])
  have p: "pick (join run node) (Some inst) (ledger_run es l1) = Some (ld_next l)"
    using ledger_run_names [OF new(1) run(1) new(3)] new(4)
    by (intro pick_exact [OF ok' stays_end [OF run(2)]]) simp_all
  have "since_ok t0 (ld_store l1 (ld_next l))" and "raw_total (ld_store l1 (ld_next l)) t0 = 0"
    by (simp_all add: new(4) since_ok_def raw_total_def)
  then have "raw_total (ld_store (ledger_run es l1) (ld_next l)) t = held_clock (ld_next l) t0 es t l1"
    using accounting [OF new(1) run(1,2) _ run(3)] by simp
  then show ?thesis by (simp add: ledger_finished_def p total_def)
qed

section \<open>Properties\<close>

text \<open>
  C6: Held time is exact. An instance that starts at \<open>t0\<close>, stays tracked and finishes at
  \<open>t\<close> reports, rounded to the wire contract, exactly the time during which at least one
  open hold was pinned to it: overlapping holds count once, holds of other instances do not
  count, and a hold still open at the end counts up to now.
\<close>

theorem held_time_is_exact:
  assumes "ledger_ok l" and "plain_id run" and "plain_id node"
    and "good_run t0 es (ledger_started run node inst parent l)"
    and "stays (ld_next l) es (ledger_started run node inst parent l)"
    and "last_time t0 es \<le> t"
  shows "snd (ledger_finished run node (Some inst) (Some t)
                (ledger_run es (ledger_started run node inst parent l))) =
         Inr (Some (normalizeDurationMs
           (Fin (held_clock (ld_next l) t0 es t (ledger_started run node inst parent l)))))"
  by (rule finished_total [OF assms])

definition sample_holds :: "(millis \<times> ledger_event) list" where
  "sample_holds =
     [(10, L_opened ''p1'' ''r'' ''n'' Before None), (12, L_opened ''p2'' ''r'' ''n'' Before None),
      (15, L_closed ''p1''), (20, L_closed ''p2''), (30, L_opened ''p3'' ''r'' ''n'' After None)]"

lemma held_time_is_exact_witness:
  "snd (ledger_finished ''r'' ''n'' (Some ''i'') (Some 34)
     (ledger_run sample_holds (ledger_started ''r'' ''n'' ''i'' None (ledger_new 5)))) = Inr (Some 14)"
proof -
  let ?l1 = "ledger_started ''r'' ''n'' ''i'' None (ledger_new 5)"
  have "good_run 0 sample_holds ?l1" "stays 0 sample_holds ?l1" "last_time 0 sample_holds \<le> 34"
    "plain_id ''r''" "plain_id ''n''" "ld_next (ledger_new 5) = 0"
    by code_simp+
  moreover have "normalizeDurationMs (Fin (held_clock 0 0 sample_holds 34 ?l1)) = 14" by code_simp
  ultimately show ?thesis
    using held_time_is_exact [OF ledger_new_ok, of "''r''" "''n''" 0 sample_holds "''i''" None 5 34]
    by simp
qed

text \<open>
  The debugger's share never exceeds the duration: for every run on a clock that does not
  go back, the held time reported at the end is between zero and the wall-clock duration of
  the same instance (both normalised), so that the time the node itself ran is never negative.
\<close>

theorem held_time_within_duration:
  assumes "ledger_ok l" and "plain_id run" and "plain_id node"
    and "good_run t0 es (ledger_started run node inst parent l)"
    and "stays (ld_next l) es (ledger_started run node inst parent l)"
    and "last_time t0 es \<le> t" and "t - t0 < 10 ^ 21"
  shows "\<exists>h. snd (ledger_finished run node (Some inst) (Some t)
                (ledger_run es (ledger_started run node inst parent l))) = Inr (Some h) \<and>
             0 \<le> h \<and> h \<le> elapsedMs t0 t"
proof -
  let ?c = "held_clock (ld_next l) t0 es t (ledger_started run node inst parent l)"
  have "0 \<le> ?c" "?c \<le> t - t0" using held_clock_bounds [OF assms(4,6)] by simp_all
  then have "normalizeDurationMs (Fin ?c) \<le> elapsedMs t0 t"
    using to_fixed2_mono [of ?c "t - t0"] assms(7) normalize_nonneg [of "Fin (t - t0)"]
    by (auto simp: elapsedMs_def normalizeDurationMs_def split: if_splits)
  then show ?thesis using finished_total [OF assms(1-6)] normalize_nonneg by simp
qed

lemma held_time_within_duration_witness:
  "\<exists>h. snd (ledger_finished ''r'' ''n'' (Some ''i'') (Some 34)
     (ledger_run sample_holds (ledger_started ''r'' ''n'' ''i'' None (ledger_new 5)))) = Inr (Some h) \<and>
     0 \<le> h \<and> h \<le> elapsedMs 0 34"
proof -
  let ?l1 = "ledger_started ''r'' ''n'' ''i'' None (ledger_new 5)"
  have "good_run 0 sample_holds ?l1" "stays 0 sample_holds ?l1" "last_time 0 sample_holds \<le> 34"
    "plain_id ''r''" "plain_id ''n''" "ld_next (ledger_new 5) = 0"
    by code_simp+
  then show ?thesis by (intro held_time_within_duration ledger_new_ok) simp_all
qed

text \<open>
  The ledger's references stay consistent in every run: an instance's counter of open
  holds is the number of holds pinned to it, every hold and every list of open instances
  refers to tracked instances only and none of them is empty, and no more instances
  are tracked than the configured maximum.
\<close>

theorem ledger_stays_consistent:
  assumes "good_run t0 es (ledger_new m)" and "0 < m"
  shows "let l = ledger_run es (ledger_new m) in
    (\<forall>r. tracked l r \<longrightarrow> in_openHolds (ld_store l r) = holds_of r (ld_holds l)) \<and>
    (\<forall>h \<in> set (ld_holds l). snd h \<noteq> [] \<and> (\<forall>r \<in> set (snd h). tracked l r)) \<and>
    (\<forall>nk xs. map_of (ld_byNode l) nk = Some xs \<longrightarrow> xs \<noteq> [] \<and> distinct xs \<and> (\<forall>r \<in> set xs. tracked l r)) \<and>
    length (ld_instances l) \<le> m"
proof -
  have ok: "ledger_ok (ledger_run es (ledger_new m))" by (rule ledger_run_ok [OF ledger_new_ok assms(1)])
  have "length (ld_instances (ledger_run es (ledger_new m))) \<le> m"
    using ledger_run_bound [OF ledger_new_ok assms(1)] assms(2) by (simp add: ledger_new_def)
  with ok show ?thesis unfolding Let_def ledger_ok_def holds_ok_def nodes_ok_def by blast
qed

lemma ledger_stays_consistent_witness:
  "length (ld_instances (ledger_run
     ((0, L_started ''r'' ''n'' ''i'' None) # (1, L_started ''r'' ''m'' ''j'' None) # sample_holds)
     (ledger_new 1))) \<le> 1"
proof -
  have "good_run 0 ((0, L_started ''r'' ''n'' ''i'' None) # (1, L_started ''r'' ''m'' ''j'' None) # sample_holds)
     (ledger_new 1)" by code_simp
  from ledger_stays_consistent [OF this] show ?thesis by (simp add: Let_def)
qed

end
