(* ===== verification/Js_Text.thy ===== *)
theory Js_Text
  imports GM_Prelude "HOL-Library.List_Lexorder"
begin

text \<open>
  JavaScript text. Environment variables, headers and tokens are \<open>string\<close> (8-bit characters);
  values a program hands over are lists of UTF-16 code units (\<open>jstr\<close>), because the code cuts,
  sorts and searches them by code unit. \<open>quote\<close> is the string case of \<open>JSON.stringify\<close>.

  The lemmas show that \<open>quote\<close> can be read back: it is injective, and injective in front of
  any further text.
\<close>

section \<open>Strings of 8-bit characters\<close>

definition js_space :: "char \<Rightarrow> bool" where
  "js_space c \<longleftrightarrow> (of_char c :: nat) \<in> {9, 10, 11, 12, 13, 32, 160}"

definition js_trim :: "string \<Rightarrow> string" where
  "js_trim s = rev (dropWhile js_space (rev (dropWhile js_space s)))"

definition lower_char :: "char \<Rightarrow> char" where
  "lower_char c =
     (let n = of_char c :: nat
      in if 65 \<le> n \<and> n \<le> 90 \<or> 192 \<le> n \<and> n \<le> 222 \<and> n \<noteq> 215 then char_of (n + 32) else c)"

definition js_lower :: "string \<Rightarrow> string" where
  "js_lower = map lower_char"

fun split_on :: "char \<Rightarrow> string \<Rightarrow> string list" where
  "split_on d [] = [[]]"
| "split_on d (c # s) =
     (if c = d then [] # split_on d s
      else (case split_on d s of [] \<Rightarrow> [[c]] | w # ws \<Rightarrow> (c # w) # ws))"

definition starts_with :: "string \<Rightarrow> string \<Rightarrow> bool" where
  "starts_with p s \<longleftrightarrow> take (length p) s = p"

section \<open>UTF-16 text\<close>

type_synonym jstr = "nat list"

text \<open>A literal of the source.\<close>

definition lit :: "string \<Rightarrow> jstr" where
  "lit = map of_char"

lemma lit_simps [simp]:
  "lit [] = []"
  "lit (c # s) = of_char c # lit s"
  "lit (s @ t) = lit s @ lit t"
  by (simp_all add: lit_def)

lemma lit_inj: "lit s = lit t \<longleftrightarrow> s = t"
  unfolding lit_def by (rule inj_map_eq_map) (simp add: inj_on_def)

definition unit_space :: "nat \<Rightarrow> bool" where
  "unit_space n \<longleftrightarrow>
     n \<in> {9, 10, 11, 12, 13, 32, 160, 5760, 8232, 8233, 8239, 8287, 12288, 65279}
     \<or> 8192 \<le> n \<and> n \<le> 8202"

definition units_trim :: "jstr \<Rightarrow> jstr" where
  "units_trim s = rev (dropWhile unit_space (rev (dropWhile unit_space s)))"

text \<open>\<open>replace(/C+/g, ' ')\<close> for a class of code units.\<close>

fun collapse_run :: "(nat \<Rightarrow> bool) \<Rightarrow> bool \<Rightarrow> jstr \<Rightarrow> jstr" where
  "collapse_run C inside [] = []"
| "collapse_run C inside (c # s) =
     (if C c then (if inside then collapse_run C True s else 32 # collapse_run C True s)
      else c # collapse_run C False s)"

definition collapse :: "(nat \<Rightarrow> bool) \<Rightarrow> jstr \<Rightarrow> jstr" where
  "collapse C s = collapse_run C False s"

fun js_includes :: "jstr \<Rightarrow> jstr \<Rightarrow> bool" where
  "js_includes p [] \<longleftrightarrow> p = []"
| "js_includes p (c # s) \<longleftrightarrow> take (length p) (c # s) = p \<or> js_includes p s"

section \<open>JSON strings\<close>

definition high_surrogate :: "nat \<Rightarrow> bool" where
  "high_surrogate n \<longleftrightarrow> 55296 \<le> n \<and> n \<le> 56319"

definition low_surrogate :: "nat \<Rightarrow> bool" where
  "low_surrogate n \<longleftrightarrow> 56320 \<le> n \<and> n \<le> 57343"

definition hex_digit :: "nat \<Rightarrow> nat" where
  "hex_digit d = (if d < 10 then 48 + d else 87 + d)"

definition hex4 :: "nat \<Rightarrow> jstr" where
  "hex4 n = [92, 117, hex_digit (n div 4096 mod 16), hex_digit (n div 256 mod 16),
             hex_digit (n div 16 mod 16), hex_digit (n mod 16)]"

definition escape_unit :: "nat \<Rightarrow> jstr" where
  "escape_unit n =
     (if n = 34 then [92, 34] else if n = 92 then [92, 92]
      else if n = 8 then [92, 98] else if n = 9 then [92, 116] else if n = 10 then [92, 110]
      else if n = 12 then [92, 102] else if n = 13 then [92, 114]
      else if n < 32 then hex4 n else [n])"

fun quote_units :: "jstr \<Rightarrow> jstr" where
  "quote_units [] = []"
| "quote_units [c] = (if high_surrogate c \<or> low_surrogate c then hex4 c else escape_unit c)"
| "quote_units (c # d # s) =
     (if high_surrogate c \<and> low_surrogate d then c # d # quote_units s
      else (if high_surrogate c \<or> low_surrogate c then hex4 c else escape_unit c) @ quote_units (d # s))"

definition quote :: "jstr \<Rightarrow> jstr" where
  "quote text = [34] @ quote_units text @ [34]"

text \<open>Reading a string back, from after its opening quote.\<close>

definition hex_value :: "nat \<Rightarrow> nat" where
  "hex_value c = (if c < 58 then c - 48 else c - 87)"

definition unescape_unit :: "nat \<Rightarrow> nat" where
  "unescape_unit d =
     (if d = 98 then 8 else if d = 116 then 9 else if d = 110 then 10
      else if d = 102 then 12 else if d = 114 then 13 else d)"

definition prepend :: "nat \<Rightarrow> (jstr \<times> jstr) option \<Rightarrow> (jstr \<times> jstr) option" where
  "prepend n = map_option (apfst ((#) n))"

function unquote :: "jstr \<Rightarrow> (jstr \<times> jstr) option" where
  "unquote [] = None"
| "unquote (c # s) =
     (if c = 34 then Some ([], s)
      else if c \<noteq> 92 then prepend c (unquote s)
      else if s = [] then None
      else if hd s \<noteq> 117 then prepend (unescape_unit (hd s)) (unquote (tl s))
      else if length s < 5 then None
      else prepend (4096 * hex_value (s ! 1) + 256 * hex_value (s ! 2) + 16 * hex_value (s ! 3)
                    + hex_value (s ! 4)) (unquote (drop 5 s)))"
  by pat_completeness auto
termination by (relation "measure length") auto

declare unquote.simps(2) [simp del]

lemma unquote_close [simp]: "unquote (34 # s) = Some ([], s)"
  using unquote.simps(2) [of 34 s] by simp

lemma unquote_raw [simp]:
  "c \<noteq> 34 \<Longrightarrow> c \<noteq> 92 \<Longrightarrow> unquote (c # s) = prepend c (unquote s)"
  using unquote.simps(2) [of c s] by simp

lemma unquote_letter [simp]:
  "d \<noteq> 117 \<Longrightarrow> unquote (92 # d # s) = prepend (unescape_unit d) (unquote s)"
  using unquote.simps(2) [of 92 "d # s"] by simp

lemma unquote_u [simp]:
  "unquote (92 # 117 # a # b # c # d # s) =
     prepend (4096 * hex_value a + 256 * hex_value b + 16 * hex_value c + hex_value d) (unquote s)"
  using unquote.simps(2) [of 92 "117 # a # b # c # d # s"] by simp

lemma hex_value_digit [simp]: "d < 16 \<Longrightarrow> hex_value (hex_digit d) = d"
  by (simp add: hex_value_def hex_digit_def)

lemma base_16:
  fixes n :: nat
  shows "n = 16 * a + x \<Longrightarrow> a = 16 * b + y \<Longrightarrow> b = 16 * c + z
    \<Longrightarrow> 4096 * c + 256 * z + 16 * y + x = n"
  by simp

lemma hex_digits_value:
  fixes n :: nat
  assumes "n < 65536"
  shows "4096 * (n div 4096 mod 16) + 256 * (n div 256 mod 16) + 16 * (n div 16 mod 16) + n mod 16 = n"
proof -
  have "n div 256 = n div 16 div 16" "n div 4096 = n div 16 div 16 div 16"
    by (simp_all add: div_mult2_eq [symmetric])
  moreover have "n div 4096 mod 16 = n div 4096"
    using assms by (intro mod_less) (simp add: less_mult_imp_div_less)
  ultimately show ?thesis
    by (intro base_16 [of n "n div 16" _ "n div 16 div 16"]) simp_all
qed

lemma unquote_hex4: "n < 65536 \<Longrightarrow> unquote (hex4 n @ r) = prepend n (unquote r)"
  using hex_digits_value [of n] by (simp add: hex4_def)

lemma unquote_escape: "unquote (escape_unit n @ r) = prepend n (unquote r)"
  by (simp add: escape_unit_def unquote_hex4 unescape_unit_def)

lemma unquote_quote_units: "unquote (quote_units s @ 34 # r) = Some (s, r)"
proof (induction s rule: quote_units.induct)
  case 1
  then show ?case by simp
next
  case (2 c)
  then show ?case
    by (auto simp: unquote_escape unquote_hex4 high_surrogate_def low_surrogate_def prepend_def)
next
  case (3 c d s)
  then show ?case
    by (auto simp: unquote_escape unquote_hex4 high_surrogate_def low_surrogate_def prepend_def)
qed

lemma quote_prefix_free:
  assumes "quote s @ r = quote t @ r'"
  shows "s = t \<and> r = r'"
  using arg_cong [OF assms, of "unquote \<circ> tl"] by (simp add: quote_def unquote_quote_units)

lemma hd_quote [simp]: "hd (quote s) = 34" "quote s \<noteq> []"
  by (simp_all add: quote_def)

end
