(* ===== verification/Control_Auth.thy ===== *)
theory Control_Auth
  imports Js_Text
begin

text \<open>
  \<open>packages/cli/src/control-auth.ts\<close>: who may drive a paused agent, and with what. Tokens,
  the credential of a request, the authorization tables, the operator label and the request
  id the hub accepts. SHA-256 is a parameter; the Unicode classes of the operator label are
  parameters. Strings are lists of 8-bit characters: JavaScript's whitespace and ASCII case
  folding are written out for those.

  The lemmas show that rights grow with the level and with the principal, that a credential is
  accepted only when every presentation is the same known token, and what is left of an
  operator label.
\<close>

section \<open>Principals and levels\<close>

datatype principal = P_viewer | P_agent | P_anonymous

datatype control_level = Lv_off | Lv_resume | Lv_inject | Lv_edit

fun level_index :: "control_level \<Rightarrow> nat" where
  "level_index Lv_off = 0"
| "level_index Lv_resume = 1"
| "level_index Lv_inject = 2"
| "level_index Lv_edit = 3"

fun level_name :: "control_level \<Rightarrow> string" where
  "level_name Lv_off = ''off''"
| "level_name Lv_resume = ''resume''"
| "level_name Lv_inject = ''inject''"
| "level_name Lv_edit = ''edit''"

definition CONTROL_LEVELS :: "control_level list" where
  "CONTROL_LEVELS = [Lv_off, Lv_resume, Lv_inject, Lv_edit]"

definition DEFAULT_CONTROL_LEVEL :: control_level where
  "DEFAULT_CONTROL_LEVEL = Lv_off"

text \<open>Levels are ordered as the code's array lists them.\<close>

instantiation control_level :: linorder
begin

definition less_eq_control_level :: "control_level \<Rightarrow> control_level \<Rightarrow> bool" where
  "less_eq_control_level a b \<longleftrightarrow> level_index a \<le> level_index b"

definition less_control_level :: "control_level \<Rightarrow> control_level \<Rightarrow> bool" where
  "less_control_level a b \<longleftrightarrow> level_index a < level_index b"

instance
proof
  fix a b c :: control_level
  show "a < b \<longleftrightarrow> a \<le> b \<and> \<not> b \<le> a"
    by (auto simp: less_eq_control_level_def less_control_level_def)
  show "a \<le> a" by (simp add: less_eq_control_level_def)
  show "a \<le> b \<Longrightarrow> b \<le> c \<Longrightarrow> a \<le> c" by (simp add: less_eq_control_level_def)
  show "a \<le> b \<Longrightarrow> b \<le> a \<Longrightarrow> a = b"
    by (cases a; cases b) (simp_all add: less_eq_control_level_def)
  show "a \<le> b \<or> b \<le> a" by (auto simp: less_eq_control_level_def)
qed

end

definition levelAtLeast :: "control_level \<Rightarrow> control_level \<Rightarrow> bool" where
  "levelAtLeast level need \<longleftrightarrow> need \<le> level"

record control_policy =
  cp_agentLevel :: control_level
  cp_editInput :: bool

record refusal =
  rf_code :: string
  rf_message :: string

section \<open>Credentials\<close>

record control_tokens =
  tk_viewer :: string
  tk_agent :: string

text \<open>\<open>generateTokens\<close>: the two random parts are arguments.\<close>

definition generateTokens :: "string \<Rightarrow> string \<Rightarrow> control_tokens" where
  "generateTokens hex1 hex2 = \<lparr>tk_viewer = ''gmv_'' @ hex1, tk_agent = ''gma_'' @ hex2\<rparr>"

definition parseControlLevel :: "string option \<Rightarrow> control_level option" where
  "parseControlLevel raw =
     (let value = js_lower (js_trim (case raw of None \<Rightarrow> [] | Some s \<Rightarrow> s))
      in find (\<lambda>l. level_name l = value) CONTROL_LEVELS)"

definition identify :: "(string \<Rightarrow> 'd) \<Rightarrow> control_tokens \<Rightarrow> string \<Rightarrow> principal option" where
  "identify sha256 tokens presented =
     (let digest = sha256 presented;
          viewer = (digest = sha256 (tk_viewer tokens));
          agent = (digest = sha256 (tk_agent tokens))
      in if viewer then Some P_viewer else if agent then Some P_agent else None)"

datatype credential_result = Cred_none | Cred_ok principal | Cred_invalid string

definition is_blank :: "char \<Rightarrow> bool" where
  "is_blank c \<longleftrightarrow> c = CHR '' '' \<or> c = CHR 0x09"

definition is_printable :: "char \<Rightarrow> bool" where
  "is_printable c \<longleftrightarrow> 33 \<le> (of_char c :: nat) \<and> (of_char c :: nat) \<le> 126"

text \<open>
  \<open>None\<close> is \<open>undefined\<close> (no header), \<open>Some None\<close> is \<open>null\<close> (malformed). The regular
  expression is \<open>Bearer\<close> in any case, blanks, one run of printable characters, blanks.
\<close>

definition bearer_match :: "string \<Rightarrow> string option" where
  "bearer_match h =
     (if js_lower (take 6 h) \<noteq> ''bearer'' then None
      else let r1 = drop 6 h; r2 = dropWhile is_blank r1;
               token = takeWhile is_printable r2; r3 = dropWhile is_printable r2
           in if (case r1 of [] \<Rightarrow> False | c # _ \<Rightarrow> is_blank c) \<and> token \<noteq> [] \<and> list_all is_blank r3
              then Some token else None)"

definition bearerToken :: "string option \<Rightarrow> string option option" where
  "bearerToken header =
     (case header of
        None \<Rightarrow> None
      | Some h \<Rightarrow> if js_trim h = [] then None else Some (bearer_match h))"

definition AUTH_SUBPROTOCOL_PREFIX :: string where
  "AUTH_SUBPROTOCOL_PREFIX = ''gm.auth.''"

text \<open>A header is absent, one string, or several.\<close>

definition subprotocolTokens :: "string list option \<Rightarrow> string list" where
  "subprotocolTokens header =
     (case header of
        None \<Rightarrow> []
      | Some values \<Rightarrow>
          map (drop (length AUTH_SUBPROTOCOL_PREFIX))
            (filter (starts_with AUTH_SUBPROTOCOL_PREFIX)
              (map js_trim (concat (map (split_on (CHR '','')) values)))))"

definition resolveCredential ::
  "(string \<Rightarrow> principal option) \<Rightarrow> string option list \<Rightarrow> credential_result" where
  "resolveCredential ident_of presented =
     (if presented = [] then Cred_none
      else if list_ex (\<lambda>t. t = None \<or> t = Some []) presented
      then Cred_invalid ''malformed credential (expected \"Authorization: Bearer <token>\")''
      else if 1 < length (remdups presented) then Cred_invalid ''conflicting credentials''
      else (case ident_of (the (hd presented)) of
              None \<Rightarrow> Cred_invalid ''unknown or expired token''
            | Some p \<Rightarrow> Cred_ok p))"

section \<open>Authorization\<close>

definition agentNeeds :: "control_level \<Rightarrow> control_level \<Rightarrow> string \<Rightarrow> refusal" where
  "agentNeeds need current what =
     \<lparr>rf_code = ''forbidden'',
      rf_message =
        (if current = Lv_off
         then ''agent control is off on this server; restart it with --allow-control='' @
              level_name need @ '' to allow '' @ what
         else ''agent control level \"'' @ level_name current @ ''\" does not allow '' @ what @
              ''; that needs --allow-control='' @ level_name need)\<rparr>"

definition authorizeResume ::
  "principal \<Rightarrow> control_policy \<Rightarrow> resume_action \<Rightarrow> bool \<Rightarrow> refusal option" where
  "authorizeResume p policy action hasInput =
     (if p = P_viewer then None
      else if p = P_anonymous then
        (if hasInput then
           Some \<lparr>rf_code = ''edit-refused'', rf_message =
             ''input edits need a credential: open the viewer from the link `graphmind serve` prints '' @
             ''(or its redirect file), or use `graphmind resume` with --allow-control=edit''\<rparr>
         else if action = Act_inject then
           Some \<lparr>rf_code = ''forbidden'', rf_message =
             ''injecting a result needs a credential: open the viewer from the link `graphmind serve` prints '' @
             ''(or its redirect file), or use `graphmind resume` with --allow-control=inject''\<rparr>
         else None)
      else let level = cp_agentLevel policy
           in if hasInput then
                (if levelAtLeast level Lv_edit then None else Some (agentNeeds Lv_edit level ''input edits''))
              else if action = Act_inject then
                (if levelAtLeast level Lv_inject then None
                 else Some (agentNeeds Lv_inject level ''injecting results''))
              else if levelAtLeast level Lv_resume then None
              else Some (agentNeeds Lv_resume level ''resuming pauses''))"

definition authorizeDebugState :: "principal \<Rightarrow> control_policy \<Rightarrow> refusal option" where
  "authorizeDebugState p policy =
     (if p = P_viewer then None
      else if p = P_anonymous then
        Some \<lparr>rf_code = ''forbidden'', rf_message =
          ''changing breakpoints or step mode needs a credential: open the viewer from the link '' @
          ''`graphmind serve` prints (or its redirect file)''\<rparr>
      else if levelAtLeast (cp_agentLevel policy) Lv_resume then None
      else Some (agentNeeds Lv_resume (cp_agentLevel policy) ''changing breakpoints or step mode''))"

definition authorizeDemoStart :: "principal \<Rightarrow> control_policy \<Rightarrow> refusal option" where
  "authorizeDemoStart p policy =
     (if p = P_viewer then None
      else if p = P_agent then
        (if levelAtLeast (cp_agentLevel policy) Lv_resume then None
         else Some (agentNeeds Lv_resume (cp_agentLevel policy) ''starting the demo''))
      else Some \<lparr>rf_code = ''forbidden'', rf_message = ''starting the demo needs a credential''\<rparr>)"

section \<open>Untrusted labels\<close>

definition MAX_OPERATOR_CHARS :: nat where
  "MAX_OPERATOR_CHARS = 64"

text \<open>
  The loop of \<open>sanitizeOperator\<close> over code points: \<open>zs\<close> and \<open>visible\<close> are the two Unicode
  classes, \<open>sp\<close> the plain space, \<open>out\<close> the label so far (its length is the code's \<open>count\<close>).
\<close>

fun sanitize_loop ::
  "('c \<Rightarrow> bool) \<Rightarrow> ('c \<Rightarrow> bool) \<Rightarrow> 'c \<Rightarrow> 'c list \<Rightarrow> bool \<Rightarrow> 'c list \<Rightarrow> 'c list" where
  "sanitize_loop zs visible sp out pending [] = out"
| "sanitize_loop zs visible sp out pending (ch # rest) =
     (if zs ch then sanitize_loop zs visible sp out (out \<noteq> []) rest
      else if \<not> visible ch then sanitize_loop zs visible sp out pending rest
      else if pending \<and> MAX_OPERATOR_CHARS \<le> length out + 1 then out
      else let out' = (if pending then out @ [sp] else out)
           in if MAX_OPERATOR_CHARS \<le> length out' then out'
              else sanitize_loop zs visible sp (out' @ [ch]) False rest)"

definition sanitizeOperator ::
  "('c \<Rightarrow> bool) \<Rightarrow> ('c \<Rightarrow> bool) \<Rightarrow> 'c \<Rightarrow> 'c list option \<Rightarrow> 'c list option" where
  "sanitizeOperator zs visible sp value =
     (case value of
        None \<Rightarrow> None
      | Some s \<Rightarrow> let out = sanitize_loop zs visible sp [] False s in if out = [] then None else Some out)"

definition request_id_char :: "char \<Rightarrow> bool" where
  "request_id_char c \<longleftrightarrow>
     (let n = of_char c :: nat
      in 65 \<le> n \<and> n \<le> 90 \<or> 97 \<le> n \<and> n \<le> 122 \<or> 48 \<le> n \<and> n \<le> 57) \<or>
     c \<in> {CHR ''.'', CHR ''_'', CHR '':'', CHR ''-''}"

definition acceptableRequestId :: "string option \<Rightarrow> bool" where
  "acceptableRequestId value =
     (case value of
        None \<Rightarrow> False
      | Some s \<Rightarrow> s \<noteq> [] \<and> length s \<le> 128 \<and> list_all request_id_char s)"

section \<open>Operator labels are clean\<close>

text \<open>
  Starts and ends with a visible character, plain single spaces between, at most 64 code
  points.
\<close>

definition body_char :: "('c \<Rightarrow> bool) \<Rightarrow> ('c \<Rightarrow> bool) \<Rightarrow> 'c \<Rightarrow> bool" where
  "body_char zs visible c \<longleftrightarrow> visible c \<and> \<not> zs c"

fun spaced :: "('c \<Rightarrow> bool) \<Rightarrow> 'c \<Rightarrow> 'c list \<Rightarrow> bool" where
  "spaced body sp [] = True"
| "spaced body sp [x] = body x"
| "spaced body sp (x # y # xs) = ((body x \<or> x = sp \<and> body y) \<and> spaced body sp (y # xs))"

definition clean_label :: "('c \<Rightarrow> bool) \<Rightarrow> 'c \<Rightarrow> 'c list \<Rightarrow> bool" where
  "clean_label body sp s \<longleftrightarrow>
     length s \<le> MAX_OPERATOR_CHARS \<and> (s \<noteq> [] \<longrightarrow> body (hd s)) \<and> spaced body sp s"

lemma spaced_snoc: "spaced body sp xs \<Longrightarrow> body x \<Longrightarrow> spaced body sp (xs @ [x])"
  by (induction body sp xs rule: spaced.induct) auto

lemma spaced_snoc_space: "spaced body sp xs \<Longrightarrow> xs \<noteq> [] \<Longrightarrow> body x \<Longrightarrow> spaced body sp (xs @ [sp, x])"
  by (induction body sp xs rule: spaced.induct) auto

lemma spaced_tail: "spaced body sp (x # xs) \<Longrightarrow> spaced body sp xs"
  by (cases xs) auto

lemma sanitize_loop_clean:
  assumes "clean_label (body_char zs visible) sp out" and "pending \<Longrightarrow> out \<noteq> []"
  shows "clean_label (body_char zs visible) sp (sanitize_loop zs visible sp out pending s)"
  using assms
proof (induction zs visible sp out pending s rule: sanitize_loop.induct)
  case (2 zs visible sp out pending ch rest)
  let ?b = "body_char zs visible"
  show ?case
  proof (cases "zs ch \<or> \<not> visible ch \<or> pending \<and> MAX_OPERATOR_CHARS \<le> length out + 1 \<or>
      \<not> pending \<and> MAX_OPERATOR_CHARS \<le> length out")
    case True
    then show ?thesis using "2.IH"(1,2) "2.prems" by (auto simp: Let_def)
  next
    case False
    then have b: "?b ch" by (simp add: body_char_def)
    define out' where "out' = (if pending then out @ [sp] else out)"
    have len: "length (out' @ [ch]) \<le> MAX_OPERATOR_CHARS" using False by (auto simp: out'_def)
    have "spaced ?b sp (out' @ [ch])"
      using "2.prems" b by (auto simp: out'_def clean_label_def spaced_snoc spaced_snoc_space)
    moreover have "hd (out' @ [ch]) = ch \<and> out = [] \<and> \<not> pending \<or> hd (out' @ [ch]) = hd out \<and> out \<noteq> []"
      using "2.prems"(2) by (cases out) (auto simp: out'_def)
    ultimately have "clean_label ?b sp (out' @ [ch])"
      using len b "2.prems"(1) by (auto simp: clean_label_def)
    moreover have "sanitize_loop zs visible sp out pending (ch # rest)
        = sanitize_loop zs visible sp (out' @ [ch]) False rest"
      using False by (auto simp: out'_def Let_def)
    moreover have "\<not> MAX_OPERATOR_CHARS \<le> length out'" using False by (auto simp: out'_def)
    ultimately show ?thesis
      using "2.IH"(3) [OF _ _ _ out'_def] False by auto
  qed
qed simp

lemma sanitize_loop_fixes:
  assumes "zs sp" and "spaced (body_char zs visible) sp s"
  shows "length pre + length s \<le> MAX_OPERATOR_CHARS \<Longrightarrow>
      (pre = [] \<longrightarrow> s \<noteq> [] \<longrightarrow> body_char zs visible (hd s)) \<Longrightarrow>
      sanitize_loop zs visible sp pre False s = pre @ s"
    and "length pre + 1 + length s \<le> MAX_OPERATOR_CHARS \<Longrightarrow> pre \<noteq> [] \<Longrightarrow> s \<noteq> [] \<Longrightarrow>
      body_char zs visible (hd s) \<Longrightarrow>
      sanitize_loop zs visible sp pre True s = pre @ sp # s"
  using assms(2)
proof (induction s arbitrary: pre)
  case (Cons x s)
  {
    case 1
    show ?case
    proof (cases "body_char zs visible x")
      case True
      have "sanitize_loop zs visible sp (pre @ [x]) False s = (pre @ [x]) @ s"
        using 1 spaced_tail [OF 1(3)] by (intro Cons.IH(1)) simp_all
      with True 1 show ?thesis by (simp add: body_char_def Let_def)
    next
      case False
      then obtain y r where s: "s = y # r" "x = sp" "body_char zs visible y"
        using 1(3) by (cases s) auto
      then have "pre \<noteq> []" using 1(2) False by auto
      then show ?thesis using Cons.IH(2) [of pre] 1 s assms(1) by simp
    qed
  next
    case 2
    then have "sanitize_loop zs visible sp pre True (x # s) = sanitize_loop zs visible sp (pre @ [sp, x]) False s"
      by (auto simp: body_char_def Let_def)
    also have "\<dots> = (pre @ [sp, x]) @ s"
      using 2 spaced_tail [OF 2(5)] by (intro Cons.IH(1)) auto
    finally show ?case by simp
  }
qed simp_all

section \<open>Reading a header back\<close>

lemma takeWhile_printable_stop:
  "list_all is_printable t \<Longrightarrow> takeWhile is_printable (t @ bs) = t @ takeWhile is_printable bs"
  by (induction t) auto

lemma blank_not_printable: "is_blank c \<Longrightarrow> \<not> is_printable c"
  by (auto simp: is_blank_def is_printable_def)

lemma dropWhile_blanks: "list_all is_blank bs \<Longrightarrow> dropWhile is_blank (bs @ r) = dropWhile is_blank r"
  by (induction bs) auto

lemma takeWhile_blanks: "list_all is_blank bs \<Longrightarrow> takeWhile is_printable bs = []"
  by (cases bs) (auto simp: blank_not_printable)

lemma dropWhile_printable_blanks:
  "list_all is_printable t \<Longrightarrow> list_all is_blank bs \<Longrightarrow> dropWhile is_printable (t @ bs) = bs"
proof (induction t)
  case Nil
  then show ?case by (cases bs) (auto simp: blank_not_printable)
qed auto

lemma printable_not_blank: "list_all is_printable t \<Longrightarrow> t \<noteq> [] \<Longrightarrow> dropWhile is_blank (t @ r) = t @ r"
  using blank_not_printable by (cases t) auto

section \<open>Properties\<close>

text \<open>
  The authorization table. Rights only grow with the agent level; whatever a tokenless
  socket may release, the agent token may release at level \<open>resume\<close>; whatever anyone may do,
  the viewer token may. A tokenless socket never edits an input, never injects a result and
  never changes breakpoints or step mode, and the agent token needs exactly the level named:
  \<open>edit\<close> for an edited input, \<open>inject\<close> for an injected result, \<open>resume\<close> otherwise, so at
  \<open>off\<close> it may do nothing.
\<close>

theorem authorization_table:
  "(authorizeResume P_viewer pol a h = None) \<and>
   (authorizeResume P_anonymous pol a h = None \<longleftrightarrow> \<not> h \<and> a \<noteq> Act_inject) \<and>
   (authorizeResume P_agent pol a h = None \<longleftrightarrow>
      (if h then Lv_edit else if a = Act_inject then Lv_inject else Lv_resume) \<le> cp_agentLevel pol) \<and>
   (authorizeDebugState p pol = None \<longleftrightarrow>
      p = P_viewer \<or> p = P_agent \<and> Lv_resume \<le> cp_agentLevel pol) \<and>
   (authorizeDemoStart p pol = None \<longleftrightarrow>
      p = P_viewer \<or> p = P_agent \<and> Lv_resume \<le> cp_agentLevel pol)"
  by (cases p)
    (auto simp: authorizeResume_def authorizeDebugState_def authorizeDemoStart_def levelAtLeast_def
      Let_def)

text \<open>
  Rights are monotone: raising \<open>--allow-control\<close> never takes a right away, and no principal
  may release a gate in a way the viewer may not, nor a tokenless socket in a way the agent
  token at level \<open>resume\<close> may not.
\<close>

theorem rights_are_monotone:
  assumes "cp_agentLevel pol \<le> cp_agentLevel pol'"
  shows "(authorizeResume p pol a h = None \<longrightarrow> authorizeResume p pol' a h = None) \<and>
    (authorizeDebugState p pol = None \<longrightarrow> authorizeDebugState p pol' = None) \<and>
    (authorizeResume p pol a h = None \<longrightarrow> authorizeResume P_viewer pol a h = None) \<and>
    (Lv_resume \<le> cp_agentLevel pol \<longrightarrow> authorizeResume P_anonymous pol a h = None \<longrightarrow>
       authorizeResume P_agent pol a h = None)"
  using assms
  by (cases p)
    (auto simp: authorizeResume_def authorizeDebugState_def levelAtLeast_def Let_def
      intro: order_trans split: if_splits)

lemma rights_are_monotone_witness:
  "authorizeResume P_agent \<lparr>cp_agentLevel = Lv_edit, cp_editInput = True\<rparr> Act_retry False = None"
proof -
  have "cp_agentLevel \<lparr>cp_agentLevel = Lv_inject, cp_editInput = True\<rparr>
      \<le> cp_agentLevel \<lparr>cp_agentLevel = Lv_edit, cp_editInput = True\<rparr>"
    and "authorizeResume P_agent \<lparr>cp_agentLevel = Lv_inject, cp_editInput = True\<rparr> Act_retry False = None"
    by code_simp+
  then show ?thesis using rights_are_monotone by blast
qed

lemma resolve_malformed:
  assumes "presented \<noteq> []" and "list_ex (\<lambda>t. t = None \<or> t = Some []) presented"
  shows "resolveCredential (identify sha256 tokens) presented =
      Cred_invalid ''malformed credential (expected \"Authorization: Bearer <token>\")''"
    and "u \<noteq> [] \<Longrightarrow> set presented \<noteq> {Some u}"
proof -
  show "resolveCredential (identify sha256 tokens) presented =
      Cred_invalid ''malformed credential (expected \"Authorization: Bearer <token>\")''"
    unfolding resolveCredential_def using assms by (simp only: if_False if_True)
  obtain x where "x \<in> set presented" "x = None \<or> x = Some []"
    using assms(2) by (auto simp: list_ex_iff)
  then show "u \<noteq> [] \<Longrightarrow> set presented \<noteq> {Some u}" by (metis option.distinct(1) option.inject singletonD)
qed

lemma distinct_presentations:
  "1 < length (remdups (t # ts)) \<longleftrightarrow> set (t # ts) \<noteq> {t}"
proof -
  have "length (remdups (t # ts)) = Suc (card (set ts - {t}))"
    by (simp only: length_remdups_card_conv list.set card.insert_remove [OF finite_set])
  moreover have "set (t # ts) = {t} \<longleftrightarrow> set ts - {t} = {}" by auto
  ultimately show ?thesis by (simp add: card_gt_0_iff)
qed

lemma resolve_wellformed:
  assumes "presented = Some s # ts" and "\<not> list_ex (\<lambda>t. t = None \<or> t = Some []) presented"
  shows "resolveCredential (identify sha256 tokens) presented =
      (if set presented \<noteq> {Some s} then Cred_invalid ''conflicting credentials''
       else case identify sha256 tokens s of
              None \<Rightarrow> Cred_invalid ''unknown or expired token'' | Some p \<Rightarrow> Cred_ok p)"
proof -
  have "1 < length (remdups presented) \<longleftrightarrow> set presented \<noteq> {Some s}"
    unfolding assms(1) by (rule distinct_presentations)
  moreover have "hd presented = Some s" "presented \<noteq> []" using assms(1) by simp_all
  ultimately show ?thesis
    unfolding resolveCredential_def using assms(2) by simp
qed

text \<open>
  C31: A credential is accepted only when something was presented, every presentation is the
  same non-empty token, and that token has the digest of the viewer's or the agent's; with
  a hash that does not collide on them the principal is the one whose token it is. Anything
  else that was presented is refused, never downgraded to a tokenless socket.
\<close>

theorem credential_accepted_iff:
  assumes "\<And>t u. Some t \<in> set presented \<Longrightarrow> u \<in> {tk_viewer tokens, tk_agent tokens} \<Longrightarrow>
      sha256 t = sha256 u \<Longrightarrow> t = u"
    and "tk_viewer tokens \<noteq> tk_agent tokens"
    and "tk_viewer tokens \<noteq> []" and "tk_agent tokens \<noteq> []"
  shows "(resolveCredential (identify sha256 tokens) presented = Cred_ok p \<longleftrightarrow>
      presented \<noteq> [] \<and>
      (p = P_viewer \<and> set presented = {Some (tk_viewer tokens)} \<or>
       p = P_agent \<and> set presented = {Some (tk_agent tokens)})) \<and>
    (resolveCredential (identify sha256 tokens) presented = Cred_none \<longleftrightarrow> presented = [])"
proof (cases "presented = [] \<or> list_ex (\<lambda>t. t = None \<or> t = Some []) presented")
  case True
  then show ?thesis
    using resolve_malformed [of presented] assms(3,4)
    by (cases "presented = []") (simp_all add: resolveCredential_def)
next
  case False
  then obtain s ts where pr: "presented = Some s # ts" by (cases presented) auto
  have eq: "sha256 s = sha256 (tk_viewer tokens) \<longleftrightarrow> s = tk_viewer tokens"
    "sha256 s = sha256 (tk_agent tokens) \<longleftrightarrow> s = tk_agent tokens"
    using assms(1) [of s] by (auto simp: pr)
  have id: "identify sha256 tokens s =
      (if s = tk_viewer tokens then Some P_viewer else if s = tk_agent tokens then Some P_agent else None)"
    by (simp add: identify_def Let_def eq)
  have res: "resolveCredential (identify sha256 tokens) presented =
      (if set presented \<noteq> {Some s} then Cred_invalid ''conflicting credentials''
       else case identify sha256 tokens s of
              None \<Rightarrow> Cred_invalid ''unknown or expired token'' | Some p \<Rightarrow> Cred_ok p)"
    by (rule resolve_wellformed [OF pr]) (use False in blast)
  have set: "set presented = {u} \<Longrightarrow> u = Some s" for u using pr by auto
  have ne: "presented \<noteq> []" using pr by simp
  show ?thesis
  proof (cases "set presented = {Some s}")
    case True
    then show ?thesis using ne assms(2) by (simp add: res id) blast
  next
    case False
    then have "set presented \<noteq> {u}" for u using set by blast
    with False ne show ?thesis by (simp add: res)
  qed
qed

lemma credential_accepted_iff_witness:
  "resolveCredential (identify (\<lambda>s. s) \<lparr>tk_viewer = ''gmv_1'', tk_agent = ''gma_2''\<rparr>)
     [Some ''gma_2'', Some ''gma_2''] = Cred_ok P_agent"
  using credential_accepted_iff [of "[Some ''gma_2'', Some ''gma_2'']"
      "\<lparr>tk_viewer = ''gmv_1'', tk_agent = ''gma_2''\<rparr>" "\<lambda>s. s" P_agent] by simp

text \<open>
  A token survives the header: \<open>Authorization: Bearer\<close> in any case, any blanks, the token,
  any blanks, reads back as that token, for every non-empty printable token.
\<close>

theorem bearer_roundtrip:
  assumes "js_lower scheme = ''bearer''" and "list_all is_printable token" and "token \<noteq> []"
    and "list_all is_blank bs" and "bs \<noteq> []" and "list_all is_blank bs'"
  shows "bearerToken (Some (scheme @ bs @ token @ bs')) = Some (Some token)"
proof -
  have len: "length scheme = 6"
    using arg_cong [OF assms(1), of length] by (simp add: js_lower_def)
  obtain c r where bs: "bs = c # r" "is_blank c" using assms(4,5) by (cases bs) auto
  have m: "bearer_match (scheme @ bs @ token @ bs') = Some token"
    using assms bs len
    by (simp add: bearer_match_def Let_def dropWhile_blanks printable_not_blank
        takeWhile_printable_stop takeWhile_blanks dropWhile_printable_blanks)
  obtain s0 rest where sc: "scheme = s0 # rest" "lower_char s0 = CHR ''b''"
    using assms(1) by (cases scheme) (auto simp: js_lower_def)
  have "\<not> js_space s0"
    using sc(2) by (auto simp: js_space_def lower_char_def Let_def split: if_splits)
  then have "js_trim (scheme @ bs @ token @ bs') \<noteq> []"
    by (auto simp: js_trim_def sc(1) dropWhile_eq_Nil_conv)
  with m show ?thesis by (simp add: bearerToken_def)
qed

lemma bearer_roundtrip_witness:
  "bearerToken (Some (''BEARER'' @ '' '' @ ''gmv_0a'' @ ''  '')) = Some (Some ''gmv_0a'')"
  by (rule bearer_roundtrip) code_simp+

text \<open>
  What is left of an operator label is harmless text: at most 64 code points, only visible
  characters and single plain spaces between them, no space at either end; and sanitizing it
  again changes nothing.
\<close>

theorem operator_label_clean:
  assumes "zs sp" and "sanitizeOperator zs visible sp value = Some out"
  shows "out \<noteq> [] \<and> clean_label (body_char zs visible) sp out \<and>
    sanitizeOperator zs visible sp (Some out) = Some out"
proof -
  obtain s where "value = Some s" "out = sanitize_loop zs visible sp [] False s" "out \<noteq> []"
    using assms(2) by (auto simp: sanitizeOperator_def Let_def split: option.splits if_splits)
  moreover from this have c: "clean_label (body_char zs visible) sp out"
    using sanitize_loop_clean [of zs visible sp "[]" False s] by (simp add: clean_label_def)
  moreover have "sanitize_loop zs visible sp [] False out = out"
    using sanitize_loop_fixes(1) [of zs sp visible out "[]"] assms(1) c by (simp add: clean_label_def)
  ultimately show ?thesis by (simp add: sanitizeOperator_def Let_def)
qed

lemma operator_label_clean_witness:
  "clean_label (body_char (\<lambda>c. c = CHR '' '') is_printable) (CHR '' '') ''ann b''"
proof -
  have "sanitizeOperator (\<lambda>c. c = CHR '' '') is_printable (CHR '' '') (Some (''  ann'' @ [CHR 0x01] @ ''   b '')) = Some ''ann b''"
    by code_simp
  from operator_label_clean [of "\<lambda>c. c = CHR '' ''", OF _ this] show ?thesis by simp
qed

end
