(* ===== verification/Pause_Registry.thy ===== *)
theory Pause_Registry
  imports Control_Auth Clock
begin

text \<open>
  \<open>packages/cli/src/pause-registry.ts\<close>: the hub's registry of held gates and of the resume
  requests that race to release them. Every public method of \<open>PauseRegistry\<close> is one
  definition on an explicit state; calls of change listeners and of waiting request
  listeners are effects, in the order the code makes them. A timer is a field that says it
  is armed (and what its callback captured); its firing is an operation of its own.
  Owners (app connections) are compared by identity: a type parameter. \<open>randomUUID\<close> is an
  argument, and so is the clock a deadline is armed at. Calls to \<open>log\<close> are left out.

  The lemmas show that the counters agree with the entries, that the memories are bounded,
  that a pause has at most one winner at a time, that a waiting listener is answered exactly
  once, and what each answer of the app does to every request.
\<close>

section \<open>Data\<close>

definition RESOLVING_TIMEOUT_MS :: millis where "RESOLVING_TIMEOUT_MS = 5000"
definition MAX_PAUSES_PER_OWNER :: nat where "MAX_PAUSES_PER_OWNER = 1000"
definition MAX_CLOSED :: nat where "MAX_CLOSED = 10000"
definition MAX_REQUESTS :: nat where "MAX_REQUESTS = 1000"
definition MAX_UNKNOWN_PENDING :: nat where "MAX_UNKNOWN_PENDING = 100"
definition DEFAULT_REQUEST_DEADLINE_MS :: millis where "DEFAULT_REQUEST_DEADLINE_MS = 30000"

record 'v pause_info =
  pi_runId :: ident
  pi_pauseId :: ident
  pi_nodeId :: ident
  pi_point :: pause_point
  pi_reason :: "string option"
  pi_smart :: "'v option"
  pi_loop :: "'v option"
  pi_editable :: "bool option"
  pi_since :: millis
  pi_app :: "string option"

datatype pause_state = Ps_open | Ps_resolving

datatype outcome_kind = Ok_resumed | Ok_refused | Ok_taken | Ok_timeout | Ok_no_such_pause

record outcome =
  oc_outcome :: outcome_kind
  oc_runId :: ident
  oc_pauseId :: ident
  oc_requestId :: ident
  oc_code :: "string option"
  oc_message :: "string option"
  oc_principal :: "principal option"

text \<open>\<open>pe_timer\<close>: the resolving timeout is armed for this request id.\<close>

record ('o, 'v) pause_entry =
  pe_info :: "'v pause_info"
  pe_owner :: 'o
  pe_resolving :: "ident option"
  pe_timer :: "ident option"

text \<open>\<open>rq_deadline\<close>: the deadline timer is armed: when it fires, and the delay it was given.\<close>

record 'o request =
  rq_id :: ident
  rq_runId :: ident
  rq_pauseId :: ident
  rq_key :: string
  rq_principal :: principal
  rq_operator :: "string option"
  rq_owner :: 'o
  rq_action :: "resume_action option"
  rq_known :: bool
  rq_outcome :: "outcome option"
  rq_listeners :: "nat list"
  rq_deadline :: "(millis \<times> millis) option"

datatype begin_result = B_claimed ident | B_unknown ident | B_taken | B_closed

record attribution_rec =
  at_principal :: principal
  at_operator :: "string option"
  at_requestId :: ident

record ('o, 'v) registry =
  pr_entries :: "(string, ('o, 'v) pause_entry) omap"
  pr_closed :: "(string, unit) omap"
  pr_requests :: "(ident, 'o request) omap"
  pr_ownerCounts :: "('o, nat) omap"
  pr_changeListeners :: "nat list"
  pr_maxPerOwner :: nat
  pr_disposed :: bool

text \<open>Calls to the outside: a request's listener with its outcome, a change listener.\<close>

datatype reg_effect = Re_answer nat outcome | Re_change nat

definition registry_new :: "nat option \<Rightarrow> ('o, 'v) registry" where
  "registry_new maxPerOwner =
     \<lparr>pr_entries = [], pr_closed = [], pr_requests = [], pr_ownerCounts = [],
      pr_changeListeners = [],
      pr_maxPerOwner = (case maxPerOwner of None \<Rightarrow> MAX_PAUSES_PER_OWNER | Some n \<Rightarrow> n),
      pr_disposed = False\<rparr>"

definition keyOf :: "ident \<Rightarrow> ident \<Rightarrow> string" where
  "keyOf runId pauseId = runId @ CHR 0x00 # pauseId"

section \<open>Internals\<close>

definition emitChange :: "('o, 'v) registry \<Rightarrow> reg_effect list" where
  "emitChange reg = map Re_change (pr_changeListeners reg)"

definition countFor :: "'o \<Rightarrow> ('o, 'v) registry \<Rightarrow> nat" where
  "countFor owner reg = (case map_of (pr_ownerCounts reg) owner of None \<Rightarrow> 0 | Some n \<Rightarrow> n)"

definition settle_record :: "outcome \<Rightarrow> 'o request \<Rightarrow> 'o request \<times> reg_effect list" where
  "settle_record out r =
     (if rq_outcome r \<noteq> None then (r, [])
      else (r\<lparr>rq_outcome := Some out, rq_deadline := None, rq_listeners := []\<rparr>,
            map (\<lambda>l. Re_answer l out) (rq_listeners r)))"

text \<open>The loops that settle requests: every request that \<open>P\<close> selects, in the map's order.\<close>

definition settle_where ::
  "('o request \<Rightarrow> bool) \<Rightarrow> ('o request \<Rightarrow> outcome) \<Rightarrow> ('o, 'v) registry \<Rightarrow>
   ('o, 'v) registry \<times> reg_effect list" where
  "settle_where P mk reg =
     (reg\<lparr>pr_requests := map (\<lambda>(k, r). (k, if P r then fst (settle_record (mk r) r) else r)) (pr_requests reg)\<rparr>,
      concat (map (\<lambda>(k, r). if P r then snd (settle_record (mk r) r) else []) (pr_requests reg)))"

definition answer ::
  "outcome_kind \<Rightarrow> string option \<Rightarrow> string option \<Rightarrow> principal option \<Rightarrow> 'o request \<Rightarrow> outcome" where
  "answer kind code message pr r =
     \<lparr>oc_outcome = kind, oc_runId = rq_runId r, oc_pauseId = rq_pauseId r, oc_requestId = rq_id r,
      oc_code = code, oc_message = message, oc_principal = pr\<rparr>"

text \<open>One request settled, by its id (the key it has in the map).\<close>

definition settle_one ::
  "ident \<Rightarrow> ('o request \<Rightarrow> outcome) \<Rightarrow> ('o, 'v) registry \<Rightarrow> ('o, 'v) registry \<times> reg_effect list" where
  "settle_one i mk reg = settle_where (\<lambda>r. rq_id r = i) mk reg"

definition on_request :: "ident \<Rightarrow> ('o request \<Rightarrow> 'o request) \<Rightarrow> ('o, 'v) registry \<Rightarrow> ('o, 'v) registry" where
  "on_request i f reg =
     reg\<lparr>pr_requests := map (\<lambda>(k, r). (k, if rq_id r = i then f r else r)) (pr_requests reg)\<rparr>"

definition reopen_entry :: "('o, 'v) pause_entry \<Rightarrow> ('o, 'v) pause_entry" where
  "reopen_entry e = e\<lparr>pe_resolving := None, pe_timer := None\<rparr>"

definition put_entry :: "string \<Rightarrow> ('o, 'v) pause_entry \<Rightarrow> ('o, 'v) registry \<Rightarrow> ('o, 'v) registry" where
  "put_entry key e reg = reg\<lparr>pr_entries := AList.update key e (pr_entries reg)\<rparr>"

definition removeEntry :: "string \<Rightarrow> ('o, 'v) pause_entry \<Rightarrow> ('o, 'v) registry \<Rightarrow> ('o, 'v) registry" where
  "removeEntry key e reg =
     (let count = countFor (pe_owner e) reg
      in reg\<lparr>pr_entries := AList.delete key (pr_entries reg),
             pr_ownerCounts := (if count \<le> 1 then AList.delete (pe_owner e) (pr_ownerCounts reg)
                                else AList.update (pe_owner e) (count - 1) (pr_ownerCounts reg))\<rparr>)"

definition markClosed :: "string \<Rightarrow> ('o, 'v) registry \<Rightarrow> ('o, 'v) registry" where
  "markClosed key reg =
     (let closed = AList.update key () (AList.delete key (pr_closed reg))
      in reg\<lparr>pr_closed := (if MAX_CLOSED < length closed
                           then (case closed of [] \<Rightarrow> [] | (k, _) # _ \<Rightarrow> AList.delete k closed)
                           else closed)\<rparr>)"

text \<open>The entries of a snapshot removed one by one and remembered as closed.\<close>

definition close_entries :: "(('o, 'v) pause_entry \<Rightarrow> bool) \<Rightarrow> ('o, 'v) registry \<Rightarrow> ('o, 'v) registry" where
  "close_entries P reg =
     fold (\<lambda>(key, e) rg. markClosed key (removeEntry key e rg))
       (filter (\<lambda>ke. P (snd ke)) (pr_entries reg)) reg"

definition no_answer :: "string \<Rightarrow> 'o request \<Rightarrow> outcome" where
  "no_answer message = answer Ok_timeout (Some ''no-answer'') (Some message) None"

text \<open>
  Which request the size bound forgets: the oldest answered one, else the oldest best-effort
  one, else the oldest.
\<close>

definition request_victim :: "(ident, 'o request) omap \<Rightarrow> 'o request option" where
  "request_victim rs =
     (case find (\<lambda>r. rq_outcome r \<noteq> None) (map snd rs) of
        Some r \<Rightarrow> Some r
      | None \<Rightarrow>
          (case find (\<lambda>r. \<not> rq_known r) (map snd rs) of
             Some r \<Rightarrow> Some r
           | None \<Rightarrow> (case rs of [] \<Rightarrow> None | (_, r) # _ \<Rightarrow> Some r)))"

fun forget_requests :: "nat \<Rightarrow> ('o, 'v) registry \<Rightarrow> ('o, 'v) registry \<times> reg_effect list" where
  "forget_requests 0 reg = (reg, [])"
| "forget_requests (Suc n) reg =
     (if MAX_REQUESTS < length (pr_requests reg)
      then (case request_victim (pr_requests reg) of
              None \<Rightarrow> (reg, [])
            | Some v \<Rightarrow>
                let reg1 = reg\<lparr>pr_requests := AList.delete (rq_id v) (pr_requests reg)\<rparr>;
                    eff1 = snd (settle_record (no_answer ''no answer from the app'' v) v);
                    (reg2, eff2) = forget_requests n reg1
                in (reg2, eff1 @ eff2))
      else (reg, []))"

definition unknown_victims :: "('o, 'v) registry \<Rightarrow> ident list" where
  "unknown_victims reg =
     (let pendingUnknown = filter (\<lambda>r. \<not> rq_known r \<and> rq_outcome r = None) (map snd (pr_requests reg))
      in map rq_id (take (length pendingUnknown - MAX_UNKNOWN_PENDING) pendingUnknown))"

definition rememberRequest ::
  "'o request \<Rightarrow> ('o, 'v) registry \<Rightarrow> ('o, 'v) registry \<times> reg_effect list" where
  "rememberRequest r reg =
     (let reg1 = reg\<lparr>pr_requests := AList.update (rq_id r) r (pr_requests reg)\<rparr>;
          (reg2, eff2) =
            (if \<not> rq_known r
             then settle_where (\<lambda>x. rq_id x \<in> set (unknown_victims reg1))
                    (no_answer ''no answer from the app (too many resumes for pauses this server never saw)'') reg1
             else (reg1, []));
          (reg3, eff3) = forget_requests (length (pr_requests reg2)) reg2
      in (reg3, eff2 @ eff3))"

definition armDeadline :: "bool \<Rightarrow> millis \<Rightarrow> millis \<Rightarrow> 'o request \<Rightarrow> 'o request" where
  "armDeadline disposed now ms r =
     (if rq_outcome r \<noteq> None \<or> disposed then r else r\<lparr>rq_deadline := Some (now + ms, ms)\<rparr>)"

definition correlate ::
  "ident \<Rightarrow> ident \<Rightarrow> ident option \<Rightarrow> bool \<Rightarrow> resume_action option \<Rightarrow> ('o, 'v) registry \<Rightarrow>
   'o request option" where
  "correlate runId pauseId requestId echoes action reg =
     (let key = keyOf runId pauseId
      in case requestId of
           Some i \<Rightarrow> (case map_of (pr_requests reg) i of
                       Some r \<Rightarrow> if rq_key r = key then Some r else None
                     | None \<Rightarrow> None)
         | None \<Rightarrow>
             if echoes then None
             else let matches = (\<lambda>r. rq_key r = key \<and>
                         (case rq_outcome r of
                            None \<Rightarrow> True
                          | Some out \<Rightarrow> oc_outcome out = Ok_timeout \<and> oc_code out = Some ''no-answer'') \<and>
                         (action = None \<or> rq_action r = None \<or> rq_action r = action));
                      resolving = (case map_of (pr_entries reg) key of
                                     None \<Rightarrow> None
                                   | Some e \<Rightarrow> (case pe_resolving e of
                                                None \<Rightarrow> None | Some i \<Rightarrow> map_of (pr_requests reg) i))
                  in case resolving of
                       Some r \<Rightarrow> if matches r then Some r
                                 else find matches (rev (map snd (pr_requests reg)))
                     | None \<Rightarrow> find matches (rev (map snd (pr_requests reg))))"

section \<open>Reads\<close>

definition entry_state :: "('o, 'v) pause_entry \<Rightarrow> pause_state" where
  "entry_state e = (if pe_resolving e = None then Ps_open else Ps_resolving)"

definition reg_get :: "ident \<Rightarrow> ident \<Rightarrow> ('o, 'v) registry \<Rightarrow> ('v pause_info \<times> pause_state) option" where
  "reg_get runId pauseId reg =
     map_option (\<lambda>e. (pe_info e, entry_state e)) (map_of (pr_entries reg) (keyOf runId pauseId))"

definition ownerOf :: "ident \<Rightarrow> ident \<Rightarrow> ('o, 'v) registry \<Rightarrow> 'o option" where
  "ownerOf runId pauseId reg = map_option pe_owner (map_of (pr_entries reg) (keyOf runId pauseId))"

definition isKnownClosed :: "ident \<Rightarrow> ident \<Rightarrow> ('o, 'v) registry \<Rightarrow> bool" where
  "isKnownClosed runId pauseId reg \<longleftrightarrow> map_of (pr_closed reg) (keyOf runId pauseId) \<noteq> None"

definition reg_list :: "ident option \<Rightarrow> ('o, 'v) registry \<Rightarrow> ('v pause_info \<times> pause_state) list" where
  "reg_list runId reg =
     sort_key (\<lambda>i. pi_since (fst i))
       (map (\<lambda>ke. (pe_info (snd ke), entry_state (snd ke)))
         (filter (\<lambda>ke. runId = None \<or> runId = Some (pi_runId (pe_info (snd ke)))) (pr_entries reg)))"

definition hasOpen :: "ident option \<Rightarrow> ('o, 'v) registry \<Rightarrow> bool" where
  "hasOpen runId reg =
     list_ex (\<lambda>ke. pe_resolving (snd ke) = None \<and>
                   (runId = None \<or> runId = Some (pi_runId (pe_info (snd ke))))) (pr_entries reg)"

definition resolvingUnanswered :: "ident \<Rightarrow> ident \<Rightarrow> ('o, 'v) registry \<Rightarrow> bool" where
  "resolvingUnanswered runId pauseId reg =
     (case map_of (pr_entries reg) (keyOf runId pauseId) of
        None \<Rightarrow> False
      | Some e \<Rightarrow>
          (case pe_resolving e of
             None \<Rightarrow> False
           | Some i \<Rightarrow> (case map_of (pr_requests reg) i of None \<Rightarrow> True | Some r \<Rightarrow> rq_outcome r = None)))"

section \<open>Lifecycle\<close>

definition onChange :: "nat \<Rightarrow> ('o, 'v) registry \<Rightarrow> ('o, 'v) registry" where
  "onChange l reg = reg\<lparr>pr_changeListeners := List.insert l (pr_changeListeners reg)\<rparr>"

definition reg_open ::
  "'o \<Rightarrow> 'v pause_info \<Rightarrow> ('o, 'v) registry \<Rightarrow> ('o, 'v) registry \<times> reg_effect list \<times> bool" where
  "reg_open owner info reg =
     (let key = keyOf (pi_runId info) (pi_pauseId info);
          reg1 = (case map_of (pr_entries reg) key of None \<Rightarrow> reg | Some e \<Rightarrow> removeEntry key e reg)
      in if pr_maxPerOwner reg1 \<le> countFor owner reg1 then (reg1, [], False)
         else let reg2 = reg1\<lparr>pr_closed := AList.delete key (pr_closed reg1),
                    pr_entries := AList.update key
                      \<lparr>pe_info = info, pe_owner = owner, pe_resolving = None, pe_timer = None\<rparr> (pr_entries reg1),
                    pr_ownerCounts := AList.update owner (countFor owner reg1 + 1) (pr_ownerCounts reg1)\<rparr>
              in (reg2, emitChange reg2, True))"

definition reg_attribution ::
  "ident \<Rightarrow> ident \<Rightarrow> ident option \<Rightarrow> bool \<Rightarrow> resume_action option \<Rightarrow> ('o, 'v) registry \<Rightarrow>
   attribution_rec option" where
  "reg_attribution runId pauseId requestId echoes action reg =
     map_option (\<lambda>r. \<lparr>at_principal = rq_principal r, at_operator = rq_operator r, at_requestId = rq_id r\<rparr>)
       (correlate runId pauseId requestId echoes action reg)"

text \<open>The answers of \<open>resumed\<close> and \<open>refused\<close>, which name the pause by the frame's own ids.\<close>

definition resumed_answer :: "ident \<Rightarrow> ident \<Rightarrow> 'o request \<Rightarrow> outcome" where
  "resumed_answer runId pauseId r =
     answer Ok_resumed None None (Some (rq_principal r)) (r\<lparr>rq_runId := runId, rq_pauseId := pauseId\<rparr>)"

definition superseded_answer :: "ident \<Rightarrow> ident \<Rightarrow> 'o request \<Rightarrow> outcome" where
  "superseded_answer runId pauseId r =
     answer Ok_taken (Some ''superseded'')
       (Some ''the pause was released by something else (another resume, or the app on its own)'') None
       (r\<lparr>rq_runId := runId, rq_pauseId := pauseId\<rparr>)"

definition refused_answer :: "ident \<Rightarrow> ident \<Rightarrow> string \<Rightarrow> string option \<Rightarrow> 'o request \<Rightarrow> outcome" where
  "refused_answer runId pauseId code message r =
     answer Ok_refused (Some code) message None (r\<lparr>rq_runId := runId, rq_pauseId := pauseId\<rparr>)"

definition reg_resumed ::
  "ident \<Rightarrow> ident \<Rightarrow> ident option \<Rightarrow> bool \<Rightarrow> resume_action option \<Rightarrow> ('o, 'v) registry \<Rightarrow>
   ('o, 'v) registry \<times> reg_effect list" where
  "reg_resumed runId pauseId requestId echoes action reg =
     (let key = keyOf runId pauseId;
          correlated = correlate runId pauseId requestId echoes action reg;
          reg1 = (case map_of (pr_entries reg) key of None \<Rightarrow> reg | Some e \<Rightarrow> removeEntry key e reg);
          reg2 = markClosed key reg1;
          (reg3, eff3) =
            (case correlated of
               None \<Rightarrow> (reg2, [])
             | Some c \<Rightarrow> settle_one (rq_id c) (resumed_answer runId pauseId) reg2);
          (reg4, eff4) = settle_where (\<lambda>r. rq_key r = key \<and> rq_outcome r = None)
            (superseded_answer runId pauseId) reg3
      in (reg4, eff3 @ eff4 @ emitChange reg4))"

definition refused_target ::
  "ident \<Rightarrow> ident \<Rightarrow> ident option \<Rightarrow> ('o, 'v) registry \<Rightarrow> 'o request option" where
  "refused_target runId pauseId requestId reg =
     (if requestId \<noteq> None then correlate runId pauseId requestId False None reg
      else case map_of (pr_entries reg) (keyOf runId pauseId) of
             None \<Rightarrow> correlate runId pauseId None False None reg
           | Some e \<Rightarrow> (case pe_resolving e of
                        Some i \<Rightarrow> map_of (pr_requests reg) i
                      | None \<Rightarrow> correlate runId pauseId None False None reg))"

definition reg_refused ::
  "ident \<Rightarrow> ident \<Rightarrow> ident option \<Rightarrow> string \<Rightarrow> string option \<Rightarrow> ('o, 'v) registry \<Rightarrow>
   ('o, 'v) registry \<times> reg_effect list" where
  "reg_refused runId pauseId requestId code message reg =
     (let key = keyOf runId pauseId;
          entry = map_of (pr_entries reg) key;
          correlated = refused_target runId pauseId requestId reg;
          reg1 = (case entry of
                    None \<Rightarrow> reg
                  | Some e \<Rightarrow> if pe_resolving e \<noteq> None then put_entry key (reopen_entry e) reg else reg);
          (reg2, eff2) =
            (case correlated of
               None \<Rightarrow> (reg1, [])
             | Some c \<Rightarrow> settle_one (rq_id c) (refused_answer runId pauseId code message) reg1)
      in (reg2, eff2 @ emitChange reg2))"

definition reg_closeRun :: "ident \<Rightarrow> ('o, 'v) registry \<Rightarrow> ('o, 'v) registry \<times> reg_effect list" where
  "reg_closeRun runId reg =
     (let reg1 = close_entries (\<lambda>e. pi_runId (pe_info e) = runId) reg;
          (reg2, eff2) = settle_where (\<lambda>r. rq_runId r = runId \<and> rq_outcome r = None)
            (answer Ok_no_such_pause (Some ''run-finished'') (Some ''the run finished before the app answered'') None) reg1
      in (reg2, eff2 @ emitChange reg2))"

definition reg_closeOwner :: "'o \<Rightarrow> ('o, 'v) registry \<Rightarrow> ('o, 'v) registry \<times> reg_effect list" where
  "reg_closeOwner owner reg =
     (let reg1 = close_entries (\<lambda>e. pe_owner e = owner) reg;
          reg2 = reg1\<lparr>pr_ownerCounts := AList.delete owner (pr_ownerCounts reg1)\<rparr>;
          (reg3, eff3) = settle_where (\<lambda>r. rq_owner r = owner \<and> rq_outcome r = None)
            (answer Ok_timeout (Some ''app-disconnected'')
              (Some (''the app disconnected before answering; a detached app releases its gates '' @
                     ''on its own (fail-open)'')) None) reg2
      in (reg3, eff3 @ emitChange reg3))"

section \<open>The resume race\<close>

record 'o begin_args =
  ba_runId :: ident
  ba_pauseId :: ident
  ba_principal :: principal
  ba_operator :: "string option"
  ba_requestId :: "ident option"
  ba_owner :: 'o
  ba_action :: "resume_action option"
  ba_deadlineMs :: "millis option"

definition reg_begin ::
  "'o begin_args \<Rightarrow> ident \<Rightarrow> millis \<Rightarrow> ('o, 'v) registry \<Rightarrow>
   ('o, 'v) registry \<times> reg_effect list \<times> begin_result" where
  "reg_begin a uuid now reg =
     (let key = keyOf (ba_runId a) (ba_pauseId a);
          entry = map_of (pr_entries reg) key
      in if (case entry of None \<Rightarrow> False | Some e \<Rightarrow> pe_resolving e \<noteq> None) then (reg, [], B_taken)
         else if entry = None \<and> map_of (pr_closed reg) key \<noteq> None then (reg, [], B_closed)
         else
           let i = (if acceptableRequestId (ba_requestId a) \<and>
                       map_of (pr_requests reg) (the (ba_requestId a)) = None
                    then the (ba_requestId a) else uuid);
               r = \<lparr>rq_id = i, rq_runId = ba_runId a, rq_pauseId = ba_pauseId a, rq_key = key,
                    rq_principal = ba_principal a, rq_operator = ba_operator a, rq_owner = ba_owner a,
                    rq_action = ba_action a, rq_known = (entry \<noteq> None), rq_outcome = None,
                    rq_listeners = [], rq_deadline = None\<rparr>;
               (reg1, eff1) = rememberRequest r reg;
               reg2 = on_request i (armDeadline (pr_disposed reg1) now
                        (case ba_deadlineMs a of None \<Rightarrow> DEFAULT_REQUEST_DEADLINE_MS | Some ms \<Rightarrow> ms)) reg1
           in case entry of
                None \<Rightarrow> (reg2, eff1, B_unknown i)
              | Some e \<Rightarrow>
                  let reg3 = put_entry key (e\<lparr>pe_resolving := Some i, pe_timer := Some i\<rparr>) reg2
                  in (reg3, eff1 @ emitChange reg3, B_claimed i))"

text \<open>The resolving timeout of an entry fires, if it is armed.\<close>

definition resolving_fires :: "string \<Rightarrow> ('o, 'v) registry \<Rightarrow> ('o, 'v) registry \<times> reg_effect list" where
  "resolving_fires key reg =
     (case map_of (pr_entries reg) key of
        None \<Rightarrow> (reg, [])
      | Some e \<Rightarrow>
          (case pe_timer e of
             None \<Rightarrow> (reg, [])
           | Some i \<Rightarrow>
               if pe_resolving e \<noteq> Some i then (put_entry key (e\<lparr>pe_timer := None\<rparr>) reg, [])
               else let reg1 = put_entry key (reopen_entry e) reg in (reg1, emitChange reg1)))"

text \<open>The deadline of a request fires, if it is armed and due.\<close>

definition deadline_fires :: "ident \<Rightarrow> millis \<Rightarrow> ('o, 'v) registry \<Rightarrow> ('o, 'v) registry \<times> reg_effect list" where
  "deadline_fires i now reg =
     (case map_of (pr_requests reg) i of
        None \<Rightarrow> (reg, [])
      | Some r \<Rightarrow>
          (case rq_deadline r of
             None \<Rightarrow> (reg, [])
           | Some (due, ms) \<Rightarrow>
               if now < due then (reg, [])
               else settle_one i
                 (no_answer (''no answer from the app within '' @ show_nat (nat \<lfloor>ms / 1000 + 1 / 2\<rfloor>) @ '' s'')) reg))"

definition reg_abort ::
  "ident \<Rightarrow> outcome_kind \<Rightarrow> string option \<Rightarrow> string option \<Rightarrow> ('o, 'v) registry \<Rightarrow>
   ('o, 'v) registry \<times> reg_effect list" where
  "reg_abort i kind code message reg =
     (case map_of (pr_requests reg) i of
        None \<Rightarrow> (reg, [])
      | Some r \<Rightarrow>
          let (reg1, eff1) =
                (case map_of (pr_entries reg) (rq_key r) of
                   None \<Rightarrow> (reg, [])
                 | Some e \<Rightarrow>
                     if pe_resolving e = Some i
                     then let rg = put_entry (rq_key r) (reopen_entry e) reg in (rg, emitChange rg)
                     else (reg, []));
              (reg2, eff2) = settle_one i (answer kind code message None) reg1
          in (reg2, eff1 @ eff2))"

text \<open>A fresh listener on a request: called now, kept, or dropped when the request is unknown.\<close>

definition whenAnswered ::
  "ident \<Rightarrow> nat \<Rightarrow> millis option \<Rightarrow> millis \<Rightarrow> ('o, 'v) registry \<Rightarrow>
   ('o, 'v) registry \<times> reg_effect list" where
  "whenAnswered i l deadlineMs now reg =
     (case map_of (pr_requests reg) i of
        None \<Rightarrow> (reg, [])
      | Some r \<Rightarrow>
          (case rq_outcome r of
             Some out \<Rightarrow> (reg, [Re_answer l out])
           | None \<Rightarrow>
               (on_request i (\<lambda>r. let r1 = r\<lparr>rq_listeners := rq_listeners r @ [l]\<rparr>
                   in case deadlineMs of None \<Rightarrow> r1 | Some ms \<Rightarrow> armDeadline (pr_disposed reg) now ms r1) reg,
                [])))"

text \<open>What \<open>whenAnswered\<close> returned is called: the listener is taken off the request.\<close>

definition stop_waiting :: "ident \<Rightarrow> nat \<Rightarrow> ('o, 'v) registry \<Rightarrow> ('o, 'v) registry" where
  "stop_waiting i l reg = on_request i (\<lambda>r. r\<lparr>rq_listeners := removeAll l (rq_listeners r)\<rparr>) reg"

definition reg_dispose :: "('o, 'v) registry \<Rightarrow> ('o, 'v) registry \<times> reg_effect list" where
  "reg_dispose reg =
     (let reg1 = reg\<lparr>pr_disposed := True,
                     pr_entries := map (\<lambda>(k, e). (k, e\<lparr>pe_timer := None\<rparr>)) (pr_entries reg)\<rparr>;
          (reg2, eff2) = settle_where (\<lambda>r. rq_outcome r = None)
            (answer Ok_timeout (Some ''server-closing'') (Some ''the GraphMind server is shutting down'') None) reg1
      in (reg2\<lparr>pr_changeListeners := []\<rparr>, eff2 @ emitChange reg2))"

section \<open>The invariant\<close>

definition owned :: "'o \<Rightarrow> (string, ('o, 'v) pause_entry) omap \<Rightarrow> nat" where
  "owned o' es = length (filter (\<lambda>ke. pe_owner (snd ke) = o') es)"

definition entry_ok :: "string \<Rightarrow> ('o, 'v) pause_entry \<Rightarrow> bool" where
  "entry_ok k e \<longleftrightarrow> k = keyOf (pi_runId (pe_info e)) (pi_pauseId (pe_info e)) \<and>
     (\<forall>i. pe_timer e = Some i \<longrightarrow> pe_resolving e = Some i)"

definition entries_ok :: "('o, 'v) registry \<Rightarrow> bool" where
  "entries_ok reg \<longleftrightarrow> wf_omap (pr_entries reg) \<and>
     (\<forall>k e. map_of (pr_entries reg) k = Some e \<longrightarrow> entry_ok k e)"

definition counts_ok :: "('o, 'v) registry \<Rightarrow> bool" where
  "counts_ok reg \<longleftrightarrow>
     (\<forall>o'. countFor o' reg = owned o' (pr_entries reg) \<and> map_of (pr_ownerCounts reg) o' \<noteq> Some 0 \<and>
           owned o' (pr_entries reg) \<le> pr_maxPerOwner reg)"

definition closed_ok :: "('o, 'v) registry \<Rightarrow> bool" where
  "closed_ok reg \<longleftrightarrow> wf_omap (pr_closed reg) \<and> length (pr_closed reg) \<le> MAX_CLOSED \<and>
     (\<forall>k. map_of (pr_entries reg) k \<noteq> None \<longrightarrow> map_of (pr_closed reg) k = None)"

definition req_ok :: "ident \<Rightarrow> 'o request \<Rightarrow> bool" where
  "req_ok k r \<longleftrightarrow> k = rq_id r \<and> rq_key r = keyOf (rq_runId r) (rq_pauseId r) \<and>
     (rq_outcome r \<noteq> None \<longrightarrow> rq_listeners r = [] \<and> rq_deadline r = None)"

definition requests_ok :: "('o, 'v) registry \<Rightarrow> bool" where
  "requests_ok reg \<longleftrightarrow> wf_omap (pr_requests reg) \<and>
     (\<forall>kr \<in> set (pr_requests reg). req_ok (fst kr) (snd kr))"

definition reg_ok :: "('o, 'v) registry \<Rightarrow> bool" where
  "reg_ok reg \<longleftrightarrow> entries_ok reg \<and> counts_ok reg \<and> closed_ok reg \<and> requests_ok reg \<and>
     length (pr_requests reg) \<le> MAX_REQUESTS"

lemma registry_new_ok: "reg_ok (registry_new m)"
  by (simp add: reg_ok_def entries_ok_def counts_ok_def closed_ok_def requests_ok_def registry_new_def
      countFor_def owned_def)

text \<open>The request operations leave the pauses alone, and the other way round.\<close>

definition pauses_same :: "('o, 'v) registry \<Rightarrow> ('o, 'v) registry \<Rightarrow> bool" where
  "pauses_same reg reg' \<longleftrightarrow> pr_entries reg' = pr_entries reg \<and> pr_closed reg' = pr_closed reg \<and>
     pr_ownerCounts reg' = pr_ownerCounts reg \<and> pr_maxPerOwner reg' = pr_maxPerOwner reg \<and>
     pr_changeListeners reg' = pr_changeListeners reg \<and> pr_disposed reg' = pr_disposed reg"

lemma pauses_same_refl [simp]: "pauses_same reg reg"
  by (simp add: pauses_same_def)

lemma pauses_same_trans: "pauses_same a b \<Longrightarrow> pauses_same b c \<Longrightarrow> pauses_same a c"
  by (simp add: pauses_same_def)

lemma pauses_same_ok:
  assumes "pauses_same reg reg'" and "reg_ok reg" and "requests_ok reg'"
    and "length (pr_requests reg') \<le> MAX_REQUESTS"
  shows "reg_ok reg'"
proof -
  have eqs: "pr_entries reg' = pr_entries reg" "pr_closed reg' = pr_closed reg"
    "pr_ownerCounts reg' = pr_ownerCounts reg" "pr_maxPerOwner reg' = pr_maxPerOwner reg"
    "countFor o' reg' = countFor o' reg" for o'
    using assms(1) by (simp_all add: pauses_same_def countFor_def)
  show ?thesis
    using assms(2-4) unfolding reg_ok_def entries_ok_def counts_ok_def closed_ok_def eqs by blast
qed

lemma settle_where_same: "settle_where P mk reg = (reg', eff) \<Longrightarrow> pauses_same reg reg'"
  by (auto simp: settle_where_def pauses_same_def)

lemma on_request_same: "pauses_same reg (on_request i f reg)"
  by (simp add: on_request_def pauses_same_def)

lemma on_request_cong:
  assumes "\<And>k r. (k, r) \<in> set (pr_requests reg) \<Longrightarrow> rq_id r = i \<Longrightarrow> f r = g r"
  shows "on_request i f reg = on_request i g reg"
proof -
  have "map (\<lambda>(k, r). (k, if rq_id r = i then f r else r)) (pr_requests reg)
      = map (\<lambda>(k, r). (k, if rq_id r = i then g r else r)) (pr_requests reg)"
    using assms by (intro map_cong) auto
  then show ?thesis by (simp add: on_request_def)
qed

lemma requests_ok_map:
  assumes "requests_ok reg" and "pr_requests reg' = map (\<lambda>(k, r). (k, f r)) (pr_requests reg)"
    and "\<And>k r. req_ok k r \<Longrightarrow> req_ok k (f r)"
  shows "requests_ok reg'"
  using assms by (auto simp: requests_ok_def)

lemma settle_record_ok: "req_ok k r \<Longrightarrow> req_ok k (fst (settle_record out r))"
  by (simp add: settle_record_def req_ok_def)

lemma settle_where_requests:
  "pr_requests (fst (settle_where P mk reg)) =
     map (\<lambda>(k, r). (k, if P r then fst (settle_record (mk r) r) else r)) (pr_requests reg)"
  by (simp add: settle_where_def)

lemma settle_where_requests_ok:
  "settle_where P mk reg = (reg', eff) \<Longrightarrow> requests_ok reg \<Longrightarrow> requests_ok reg'"
  using settle_where_requests [of P mk reg]
    requests_ok_map [of reg reg' "\<lambda>r. if P r then fst (settle_record (mk r) r) else r"]
  by (simp add: settle_record_ok)

lemma settle_where_length:
  "settle_where P mk reg = (reg', eff) \<Longrightarrow> length (pr_requests reg') = length (pr_requests reg)"
  using settle_where_requests [of P mk reg] by simp

lemma settle_where_ok: "settle_where P mk reg = (reg', eff) \<Longrightarrow> reg_ok reg \<Longrightarrow> reg_ok reg'"
  by (rule pauses_same_ok [OF settle_where_same])
    (auto simp: settle_where_length settle_where_requests_ok reg_ok_def)

lemma settle_one_ok: "settle_one i mk reg = (reg', eff) \<Longrightarrow> reg_ok reg \<Longrightarrow> reg_ok reg'"
  unfolding settle_one_def by (rule settle_where_ok)

lemma on_request_ok:
  assumes "reg_ok reg" and "\<And>k r. req_ok k r \<Longrightarrow> req_ok k (f r)"
  shows "reg_ok (on_request i f reg)"
  using assms
  by (intro pauses_same_ok [OF on_request_same])
    (auto simp: reg_ok_def on_request_def intro: requests_ok_map)

lemma armDeadline_ok: "req_ok k r \<Longrightarrow> req_ok k (armDeadline d now ms r)"
  by (simp add: armDeadline_def req_ok_def)

subsection \<open>Requests remembered and forgotten\<close>

lemma requests_key: "requests_ok reg \<Longrightarrow> map_of (pr_requests reg) i = Some r \<Longrightarrow> req_ok i r"
  by (auto simp: requests_ok_def dest!: map_of_SomeD)

lemma request_victim_mem: "request_victim rs = Some v \<Longrightarrow> \<exists>k. (k, v) \<in> set rs"
proof -
  assume v: "request_victim rs = Some v"
  have found: "find P (map snd rs) = Some v \<Longrightarrow> v \<in> snd ` set rs" for P
    by (auto simp: find_Some_iff)
  have "v \<in> snd ` set rs"
    using v found by (auto simp: request_victim_def split: option.splits list.splits)
  then show ?thesis by auto
qed

lemma request_victim_some: "rs \<noteq> [] \<Longrightarrow> request_victim rs \<noteq> None"
  by (auto simp: request_victim_def split: option.split list.split)

lemma victim_lookup:
  assumes ok: "requests_ok reg" and v: "request_victim (pr_requests reg) = Some v"
  shows "map_of (pr_requests reg) (rq_id v) = Some v"
proof -
  obtain k where k: "(k, v) \<in> set (pr_requests reg)" using request_victim_mem [OF v] by blast
  then have "k = rq_id v" using ok by (auto simp: requests_ok_def req_ok_def)
  with k ok show ?thesis by (simp add: requests_ok_def)
qed

lemma requests_ok_delete:
  "requests_ok reg \<Longrightarrow> requests_ok (reg\<lparr>pr_requests := AList.delete i (pr_requests reg)\<rparr>)"
  by (auto simp: requests_ok_def distinct_delete delete_filter)

lemma forget_requests_ok:
  "forget_requests n reg = (reg', eff) \<Longrightarrow> requests_ok reg \<Longrightarrow>
   requests_ok reg' \<and> pauses_same reg reg' \<and>
   (length (pr_requests reg) \<le> MAX_REQUESTS + n \<longrightarrow> length (pr_requests reg') \<le> MAX_REQUESTS)"
proof (induction n arbitrary: reg reg' eff)
  case (Suc n)
  show ?case
  proof (cases "MAX_REQUESTS < length (pr_requests reg)")
    case True
    then obtain v where v: "request_victim (pr_requests reg) = Some v"
      using request_victim_some [of "pr_requests reg"] by fastforce
    define reg1 where "reg1 = reg\<lparr>pr_requests := AList.delete (rq_id v) (pr_requests reg)\<rparr>"
    obtain reg2 eff2 where f: "forget_requests n reg1 = (reg2, eff2)" by fastforce
    have "requests_ok reg1" unfolding reg1_def by (rule requests_ok_delete [OF Suc.prems(2)])
    note IH = Suc.IH [OF f this]
    have "length (pr_requests reg) = length (pr_requests reg1) + 1"
      using length_filter_delete [OF _ victim_lookup [OF Suc.prems(2) v], of "\<lambda>_. True"] Suc.prems(2)
      by (simp add: requests_ok_def reg1_def)
    moreover have "pauses_same reg reg1" by (simp add: reg1_def pauses_same_def)
    moreover have "reg' = reg2" using Suc.prems(1) True v f by (simp add: reg1_def Let_def)
    ultimately show ?thesis using IH by (auto intro: pauses_same_trans)
  next
    case False
    then show ?thesis using Suc.prems by auto
  qed
qed simp

lemma rememberRequest_ok:
  assumes rem: "rememberRequest r reg = (reg', eff)" and ok: "reg_ok reg" and r: "req_ok (rq_id r) r"
  shows "reg_ok reg' \<and> pauses_same reg reg'"
proof -
  define reg1 where "reg1 = reg\<lparr>pr_requests := AList.update (rq_id r) r (pr_requests reg)\<rparr>"
  obtain reg2 eff2 where two: "(if \<not> rq_known r
             then settle_where (\<lambda>x. rq_id x \<in> set (unknown_victims reg1))
                    (no_answer ''no answer from the app (too many resumes for pauses this server never saw)'') reg1
             else (reg1, [])) = (reg2, eff2)" by fastforce
  obtain reg3 eff3 where three: "forget_requests (length (pr_requests reg2)) reg2 = (reg3, eff3)" by fastforce
  have reg': "reg' = reg3"
    using rem two three unfolding rememberRequest_def reg1_def [symmetric] Let_def by simp
  have "kr \<in> set (pr_requests reg1) \<Longrightarrow> kr \<in> set (pr_requests reg) \<or> kr = (rq_id r, r)" for kr
    using set_update_subset [of "rq_id r" r "pr_requests reg"] by (auto simp: reg1_def)
  moreover have "wf_omap (pr_requests reg1)"
    using ok by (simp add: reg_ok_def requests_ok_def reg1_def distinct_update)
  ultimately have ok1: "requests_ok reg1"
    using ok r unfolding requests_ok_def reg_ok_def by fastforce
  have same1: "pauses_same reg reg1" by (simp add: reg1_def pauses_same_def)
  have ok2: "requests_ok reg2 \<and> pauses_same reg1 reg2"
    using two ok1 by (auto split: if_splits dest: settle_where_requests_ok settle_where_same)
  note f = forget_requests_ok [OF three conjunct1 [OF ok2]]
  have same: "pauses_same reg reg3" using same1 ok2 f by (blast intro: pauses_same_trans)
  have "reg_ok reg3" by (rule pauses_same_ok [OF same ok]) (use f in auto)
  then show ?thesis using same reg' by simp
qed

subsection \<open>Entries opened and removed\<close>

lemma owned_delete:
  assumes "wf_omap es" and "map_of es k = Some e"
  shows "owned o' es = owned o' (AList.delete k es) + (if pe_owner e = o' then 1 else 0)"
  using length_filter_delete [OF assms, of "\<lambda>ke. pe_owner (snd ke) = o'"] by (simp add: owned_def)

lemma owned_update:
  assumes "wf_omap es" and "map_of es k = Some e" and "pe_owner e' = pe_owner e"
  shows "owned o' (AList.update k e' es) = owned o' es"
  using length_filter_update [OF assms(1,2), of "\<lambda>ke. pe_owner (snd ke) = o'"] assms(3)
  by (simp add: owned_def)

lemma owned_fresh:
  "map_of es k = None \<Longrightarrow> owned o' (AList.update k e es) = owned o' es + (if pe_owner e = o' then 1 else 0)"
  by (simp add: owned_def update_fresh map_of_None_keys)

definition pauses_ok :: "('o, 'v) registry \<Rightarrow> bool" where
  "pauses_ok reg \<longleftrightarrow> entries_ok reg \<and> counts_ok reg \<and> closed_ok reg"

lemma reg_ok_split:
  "reg_ok reg \<longleftrightarrow> pauses_ok reg \<and> requests_ok reg \<and> length (pr_requests reg) \<le> MAX_REQUESTS"
  by (auto simp: reg_ok_def pauses_ok_def)

lemma reg_ok_pauses:
  assumes "reg_ok reg" and "pauses_ok reg'" and "pr_requests reg' = pr_requests reg"
  shows "reg_ok reg'"
  using assms unfolding reg_ok_split requests_ok_def by simp

text \<open>An entry replaced by one of the same pause and owner.\<close>

lemma put_entry_ok:
  assumes ok: "pauses_ok reg" and e: "map_of (pr_entries reg) k = Some e"
    and e': "entry_ok k e'" "pe_owner e' = pe_owner e"
  shows "pauses_ok (put_entry k e' reg)"
proof -
  have wf: "wf_omap (pr_entries reg)" using ok by (simp add: pauses_ok_def entries_ok_def)
  have "entries_ok (put_entry k e' reg)"
    using ok e' by (auto simp: pauses_ok_def entries_ok_def put_entry_def distinct_update)
  moreover have "counts_ok (put_entry k e' reg)"
    using ok owned_update [OF wf e e'(2)]
    by (simp add: pauses_ok_def counts_ok_def put_entry_def countFor_def)
  moreover have "closed_ok (put_entry k e' reg)"
    using ok e by (auto simp: pauses_ok_def closed_ok_def put_entry_def)
  ultimately show ?thesis by (simp add: pauses_ok_def)
qed

lemma reopen_entry_ok: "entry_ok k e \<Longrightarrow> entry_ok k (reopen_entry e) \<and> pe_owner (reopen_entry e) = pe_owner e"
  by (simp add: entry_ok_def reopen_entry_def)

lemma entry_lookup: "pauses_ok reg \<Longrightarrow> map_of (pr_entries reg) k = Some e \<Longrightarrow> entry_ok k e"
  by (simp add: pauses_ok_def entries_ok_def)

lemma put_reopened_ok:
  assumes "pauses_ok reg" and "map_of (pr_entries reg) k = Some e"
  shows "pauses_ok (put_entry k (reopen_entry e) reg)"
  using put_entry_ok [OF assms] reopen_entry_ok [OF entry_lookup [OF assms]] by blast

lemma removeEntry_sel [simp]:
  "pr_entries (removeEntry k e reg) = AList.delete k (pr_entries reg)"
  "pr_closed (removeEntry k e reg) = pr_closed reg"
  "pr_requests (removeEntry k e reg) = pr_requests reg"
  "pr_maxPerOwner (removeEntry k e reg) = pr_maxPerOwner reg"
  "pr_changeListeners (removeEntry k e reg) = pr_changeListeners reg"
  "pr_disposed (removeEntry k e reg) = pr_disposed reg"
  "countFor o' (removeEntry k e reg) =
     (if o' = pe_owner e then countFor o' reg - 1 else countFor o' reg)"
  by (auto simp: removeEntry_def Let_def countFor_def split: option.split)

lemma removeEntry_counts:
  "map_of (pr_ownerCounts (removeEntry k e reg)) o' =
     (if o' = pe_owner e then (if countFor o' reg \<le> 1 then None else Some (countFor o' reg - 1))
      else map_of (pr_ownerCounts reg) o')"
  by (auto simp: removeEntry_def Let_def)

lemma removeEntry_ok:
  assumes ok: "pauses_ok reg" and e: "map_of (pr_entries reg) k = Some e"
  shows "pauses_ok (removeEntry k e reg)"
proof -
  have wf: "wf_omap (pr_entries reg)" using ok by (simp add: pauses_ok_def entries_ok_def)
  have "entries_ok (removeEntry k e reg)"
    using ok by (auto simp: pauses_ok_def entries_ok_def distinct_delete)
  moreover have "counts_ok (removeEntry k e reg)"
  proof -
    have own: "owned o' (AList.delete k (pr_entries reg)) =
        owned o' (pr_entries reg) - (if pe_owner e = o' then 1 else 0)" for o'
      using owned_delete [OF wf e, of o'] by simp
    show ?thesis
      using ok unfolding pauses_ok_def counts_ok_def
      by (auto simp: removeEntry_counts own intro: le_trans [OF diff_le_self])
  qed
  moreover have "closed_ok (removeEntry k e reg)"
    using ok by (auto simp: pauses_ok_def closed_ok_def)
  ultimately show ?thesis by (simp add: pauses_ok_def)
qed

lemma markClosed_sel [simp]:
  "pr_entries (markClosed k reg) = pr_entries reg" "pr_requests (markClosed k reg) = pr_requests reg"
  "pr_ownerCounts (markClosed k reg) = pr_ownerCounts reg"
  "pr_maxPerOwner (markClosed k reg) = pr_maxPerOwner reg"
  "pr_changeListeners (markClosed k reg) = pr_changeListeners reg"
  "pr_disposed (markClosed k reg) = pr_disposed reg"
  "countFor o' (markClosed k reg) = countFor o' reg"
  by (simp_all add: markClosed_def Let_def countFor_def)

text \<open>The closed keys are the bounded memory of the prelude: moved to the end, oldest forgotten.\<close>

lemma markClosed_closed:
  "pr_closed (markClosed k reg) =
     (let m' = AList.update k () (AList.delete k (pr_closed reg))
      in if MAX_CLOSED < length (okeys m') then AList.delete (hd (okeys m')) m' else m')"
  by (auto simp: markClosed_def Let_def split: list.split)

lemma markClosed_ok:
  assumes ok: "pauses_ok reg" and none: "map_of (pr_entries reg) k = None"
  shows "pauses_ok (markClosed k reg)" and "map_of (pr_closed (markClosed k reg)) k = Some ()"
proof -
  have wf: "wf_omap (pr_closed reg)" and len: "length (okeys (pr_closed reg)) \<le> MAX_CLOSED"
    using ok by (simp_all add: pauses_ok_def closed_ok_def)
  define c where "c = pr_closed (markClosed k reg)"
  define m' where "m' = AList.update k () (AList.delete k (pr_closed reg))"
  have c: "c = (if MAX_CLOSED < length (okeys m') then AList.delete (hd (okeys m')) m' else m')"
    by (simp only: c_def markClosed_closed m'_def Let_def)
  have wf': "wf_omap c"
    using wf unfolding c m'_def by (auto intro: distinct_update distinct_delete)
  have len': "length (okeys c) \<le> MAX_CLOSED"
    unfolding c m'_def using om.put_then_evict_bound [OF wf len, of k "()"] by simp
  have kept: "map_of c k = Some ()"
    unfolding c m'_def using om.newest_survives_eviction [OF wf, of MAX_CLOSED k "()"]
    by (simp add: MAX_CLOSED_def)
  have others: "map_of c x \<noteq> None \<Longrightarrow> x = k \<or> map_of (pr_closed reg) x \<noteq> None" for x
    unfolding c m'_def by (auto split: if_splits)
  show "map_of (pr_closed (markClosed k reg)) k = Some ()" using kept by (simp add: c_def)
  have "closed_ok (markClosed k reg)"
    unfolding closed_ok_def c_def [symmetric] markClosed_sel
    using ok wf' len' others none unfolding pauses_ok_def closed_ok_def
    by (metis length_map)
  moreover have "counts_ok (markClosed k reg)" "entries_ok (markClosed k reg)"
    using ok by (simp_all add: pauses_ok_def counts_ok_def entries_ok_def)
  ultimately show "pauses_ok (markClosed k reg)" by (simp add: pauses_ok_def)
qed

text \<open>Closing the entries of a snapshot.\<close>

lemma close_fold_ok:
  assumes "pauses_ok reg" and "wf_omap kes" and "\<And>k e. (k, e) \<in> set kes \<Longrightarrow> map_of (pr_entries reg) k = Some e"
  shows "pauses_ok (fold (\<lambda>(key, e) rg. markClosed key (removeEntry key e rg)) kes reg) \<and>
    pr_entries (fold (\<lambda>(key, e) rg. markClosed key (removeEntry key e rg)) kes reg)
      = filter (\<lambda>ke. fst ke \<notin> set (okeys kes)) (pr_entries reg) \<and>
    pr_requests (fold (\<lambda>(key, e) rg. markClosed key (removeEntry key e rg)) kes reg) = pr_requests reg"
  using assms
proof (induction kes arbitrary: reg)
  case (Cons ke kes)
  obtain k e where ke: "ke = (k, e)" by (cases ke)
  define reg1 where "reg1 = markClosed k (removeEntry k e reg)"
  have e: "map_of (pr_entries reg) k = Some e" using Cons.prems(3) ke by simp
  have rm: "pauses_ok (removeEntry k e reg)" by (rule removeEntry_ok [OF Cons.prems(1) e])
  have ok1: "pauses_ok reg1" unfolding reg1_def by (rule markClosed_ok(1) [OF rm]) simp
  have es1: "pr_entries reg1 = AList.delete k (pr_entries reg)" by (simp add: reg1_def)
  have "map_of (pr_entries reg1) k' = Some e'" if "(k', e') \<in> set kes" for k' e'
  proof -
    have "k' \<noteq> k" using that Cons.prems(2) ke by (force simp: image_iff)
    then show ?thesis using Cons.prems(3) [of k' e'] that by (simp add: es1)
  qed
  note IH = Cons.IH [OF ok1 _ this]
  have "filter (\<lambda>x. fst x \<notin> set (okeys kes)) (pr_entries reg1)
      = filter (\<lambda>x. fst x \<notin> set (okeys (ke # kes))) (pr_entries reg)"
    unfolding es1 delete_filter filter_filter ke by (rule filter_cong) auto
  with IH Cons.prems(2) show ?case by (simp add: ke reg1_def [symmetric]) (simp add: reg1_def)
qed simp

lemma close_entries_ok:
  assumes ok: "pauses_ok reg"
  shows "pauses_ok (close_entries P reg)"
    and "pr_entries (close_entries P reg) = filter (\<lambda>ke. \<not> P (snd ke)) (pr_entries reg)"
    and "pr_requests (close_entries P reg) = pr_requests reg"
proof -
  let ?kes = "filter (\<lambda>ke. P (snd ke)) (pr_entries reg)"
  have wf: "wf_omap (pr_entries reg)" using ok by (simp add: pauses_ok_def entries_ok_def)
  have sub: "map_of (pr_entries reg) k = Some e" if "(k, e) \<in> set ?kes" for k e
    using that wf by simp
  have wfk: "wf_omap ?kes" using wf by (rule distinct_filter_keys)
  note f = close_fold_ok [OF ok wfk sub, folded close_entries_def]
  show "pauses_ok (close_entries P reg)" and "pr_requests (close_entries P reg) = pr_requests reg"
    using f by blast+
  have "fst ke \<notin> set (okeys ?kes) \<longleftrightarrow> \<not> P (snd ke)" if "ke \<in> set (pr_entries reg)" for ke
  proof -
    obtain k e where ke: "ke = (k, e)" by (cases ke)
    then have e: "map_of (pr_entries reg) k = Some e" using that wf by simp
    have "e' = e" if "(k, e') \<in> set ?kes" for e' using sub [OF that] e by simp
    moreover have "P e \<Longrightarrow> (k, e) \<in> set ?kes" using that ke by simp
    ultimately show ?thesis unfolding ke by (auto simp only: fst_conv snd_conv set_map image_iff) (auto intro: rev_bexI)
  qed
  then have "filter (\<lambda>ke. fst ke \<notin> set (okeys ?kes)) (pr_entries reg)
      = filter (\<lambda>ke. \<not> P (snd ke)) (pr_entries reg)"
    by (rule filter_cong [OF refl])
  with f show "pr_entries (close_entries P reg) = filter (\<lambda>ke. \<not> P (snd ke)) (pr_entries reg)" by simp
qed

subsection \<open>Every operation keeps the invariant\<close>

lemma onChange_ok: "reg_ok reg \<Longrightarrow> reg_ok (onChange l reg)"
  unfolding reg_ok_def entries_ok_def counts_ok_def closed_ok_def requests_ok_def
  by (simp add: onChange_def countFor_def)

lemma drop_old_ok:
  fixes key reg
  assumes ok: "reg_ok reg"
  defines "reg1 \<equiv> (case map_of (pr_entries reg) key of None \<Rightarrow> reg | Some e \<Rightarrow> removeEntry key e reg)"
  shows "reg_ok reg1" and "map_of (pr_entries reg1) key = None" and "pr_requests reg1 = pr_requests reg"
    and "pr_changeListeners reg1 = pr_changeListeners reg"
    and "k \<noteq> key \<Longrightarrow> map_of (pr_entries reg1) k = map_of (pr_entries reg) k"
proof -
  show "map_of (pr_entries reg1) key = None" and rq: "pr_requests reg1 = pr_requests reg"
    and "pr_changeListeners reg1 = pr_changeListeners reg"
    and "k \<noteq> key \<Longrightarrow> map_of (pr_entries reg1) k = map_of (pr_entries reg) k"
    by (auto simp: reg1_def split: option.split)
  have "pauses_ok reg1"
    using ok removeEntry_ok [of reg key] by (auto simp: reg1_def reg_ok_split split: option.split)
  then show "reg_ok reg1" by (rule reg_ok_pauses [OF ok _ rq])
qed

lemma reg_open_ok:
  fixes info owner reg
  assumes op: "reg_open owner info reg = (reg', eff, b)" and ok: "reg_ok reg"
  shows "reg_ok reg'"
proof -
  let ?key = "keyOf (pi_runId info) (pi_pauseId info)"
  define reg1 where "reg1 = (case map_of (pr_entries reg) ?key of None \<Rightarrow> reg | Some e \<Rightarrow> removeEntry ?key e reg)"
  note r1 = drop_old_ok [OF ok, of ?key, folded reg1_def]
  show ?thesis
  proof (cases "pr_maxPerOwner reg1 \<le> countFor owner reg1")
    case True
    then have "reg' = reg1" using op by (simp add: reg_open_def reg1_def Let_def)
    then show ?thesis using r1 by simp
  next
    case False
    let ?e = "\<lparr>pe_info = info, pe_owner = owner, pe_resolving = None, pe_timer = None\<rparr>"
    have reg': "reg' = reg1\<lparr>pr_closed := AList.delete ?key (pr_closed reg1),
        pr_entries := AList.update ?key ?e (pr_entries reg1),
        pr_ownerCounts := AList.update owner (countFor owner reg1 + 1) (pr_ownerCounts reg1)\<rparr>"
      using op False by (simp add: reg_open_def reg1_def Let_def)
    have p1: "pauses_ok reg1" using r1(1) by (simp add: reg_ok_split)
    have "entries_ok reg'"
      using p1 by (auto simp: reg' pauses_ok_def entries_ok_def entry_ok_def distinct_update)
    moreover have "counts_ok reg'"
    proof -
      have "countFor o' reg' = (if o' = owner then countFor owner reg1 + 1 else countFor o' reg1)" for o'
        by (simp add: reg' countFor_def)
      moreover have "owned o' (pr_entries reg') = owned o' (pr_entries reg1) + (if owner = o' then 1 else 0)" for o'
        using owned_fresh [OF r1(2), of o' ?e] by (simp add: reg')
      moreover have "countFor owner reg1 < pr_maxPerOwner reg'" using False by (simp add: reg')
      moreover have "pr_maxPerOwner reg' = pr_maxPerOwner reg1" by (simp add: reg')
      moreover have "map_of (pr_ownerCounts reg') o' \<noteq> Some 0" for o'
        using p1 by (simp add: reg' pauses_ok_def counts_ok_def)
      ultimately show ?thesis using p1 unfolding pauses_ok_def counts_ok_def by auto
    qed
    moreover have "closed_ok reg'"
      using p1 length_delete_le [of ?key "pr_closed reg1"]
      by (auto simp: reg' pauses_ok_def closed_ok_def distinct_delete intro: le_trans)
    ultimately have "pauses_ok reg'" by (simp add: pauses_ok_def)
    then show ?thesis by (rule reg_ok_pauses [OF r1(1)]) (simp add: reg')
  qed
qed

lemma close_key_ok:
  fixes key
  assumes ok: "reg_ok reg"
  defines "reg2 \<equiv> markClosed key (case map_of (pr_entries reg) key of None \<Rightarrow> reg | Some e \<Rightarrow> removeEntry key e reg)"
  shows "reg_ok reg2"
proof -
  note r1 = drop_old_ok [OF ok, of key]
  have "pauses_ok reg2"
    unfolding reg2_def by (rule markClosed_ok(1)) (use r1 in \<open>simp_all add: reg_ok_split\<close>)
  then show ?thesis by (rule reg_ok_pauses [OF ok]) (simp add: reg2_def r1(3))
qed

lemma reg_resumed_ok:
  assumes op: "reg_resumed runId pauseId i echoes action reg = (reg', eff)" and ok: "reg_ok reg"
  shows "reg_ok reg'"
  using op close_key_ok [OF ok, of "keyOf runId pauseId"]
  by (auto simp: reg_resumed_def Let_def split: prod.splits option.splits dest: settle_where_ok settle_one_ok)

lemma reopen_slot_ok:
  assumes ok: "reg_ok reg" and e: "map_of (pr_entries reg) key = Some e"
  shows "reg_ok (put_entry key (reopen_entry e) reg)"
  by (rule reg_ok_pauses [OF ok put_reopened_ok])
    (use ok e in \<open>simp_all add: reg_ok_split put_entry_def\<close>)

lemma reg_refused_ok:
  assumes op: "reg_refused runId pauseId i code msg reg = (reg', eff)" and ok: "reg_ok reg"
  shows "reg_ok reg'"
proof -
  define reg1 where "reg1 = (case map_of (pr_entries reg) (keyOf runId pauseId) of
      None \<Rightarrow> reg
    | Some e \<Rightarrow> if pe_resolving e \<noteq> None then put_entry (keyOf runId pauseId) (reopen_entry e) reg else reg)"
  have ok1: "reg_ok reg1" using ok by (auto simp: reg1_def intro: reopen_slot_ok split: option.split)
  show ?thesis
    using op ok1 unfolding reg_refused_def Let_def reg1_def [symmetric]
    by (auto split: prod.splits option.splits if_splits dest: settle_one_ok)
qed

lemma reg_close_entries_ok: "reg_ok reg \<Longrightarrow> reg_ok (close_entries P reg)"
  using close_entries_ok [of reg P] reg_ok_pauses [of reg "close_entries P reg"]
  by (simp add: reg_ok_split)

lemma reg_closeRun_ok: "reg_closeRun runId reg = (reg', eff) \<Longrightarrow> reg_ok reg \<Longrightarrow> reg_ok reg'"
  using reg_close_entries_ok [of reg]
  by (auto simp: reg_closeRun_def Let_def split: prod.splits dest: settle_where_ok)

lemma reg_closeOwner_ok:
  assumes op: "reg_closeOwner owner reg = (reg', eff)" and ok: "reg_ok reg"
  shows "reg_ok reg'"
proof -
  define reg1 where "reg1 = close_entries (\<lambda>e. pe_owner e = owner) reg"
  define reg2 where "reg2 = reg1\<lparr>pr_ownerCounts := AList.delete owner (pr_ownerCounts reg1)\<rparr>"
  have ok1: "reg_ok reg1" unfolding reg1_def by (rule reg_close_entries_ok [OF ok])
  have "pauses_ok reg" using ok by (simp add: reg_ok_split)
  then have "owned owner (pr_entries reg1) = 0"
    by (simp add: reg1_def close_entries_ok(2) owned_def filter_empty_conv)
  moreover have "countFor o' reg2 = (if o' = owner then 0 else countFor o' reg1)" for o'
    by (simp add: reg2_def countFor_def)
  moreover have "map_of (pr_ownerCounts reg2) o' \<noteq> Some 0" for o'
    using ok1 by (simp add: reg2_def reg_ok_def counts_ok_def)
  moreover have "pr_entries reg2 = pr_entries reg1" "pr_maxPerOwner reg2 = pr_maxPerOwner reg1"
    by (simp_all add: reg2_def)
  ultimately have "counts_ok reg2"
    using ok1 unfolding reg_ok_def counts_ok_def by auto
  then have "reg_ok reg2"
    using ok1 by (auto simp: reg_ok_def reg2_def entries_ok_def closed_ok_def requests_ok_def)
  then show ?thesis
    using op unfolding reg_closeOwner_def Let_def reg1_def [symmetric] reg2_def [symmetric]
    by (auto split: prod.splits dest: settle_where_ok)
qed

lemma deadline_fires_ok: "deadline_fires i now reg = (reg', eff) \<Longrightarrow> reg_ok reg \<Longrightarrow> reg_ok reg'"
  by (auto simp: deadline_fires_def split: option.splits prod.splits if_splits dest: settle_one_ok)

lemma resolving_fires_ok:
  assumes op: "resolving_fires key reg = (reg', eff)" and ok: "reg_ok reg"
  shows "reg_ok reg'"
proof (cases "map_of (pr_entries reg) key")
  case None
  then show ?thesis using assms by (simp add: resolving_fires_def)
next
  case (Some e)
  have e: "entry_ok key e" using entry_lookup [OF _ Some] ok by (simp add: reg_ok_split)
  show ?thesis
    using op e reopen_slot_ok [OF ok Some] ok
    by (auto simp: resolving_fires_def Some entry_ok_def Let_def split: option.splits)
qed

lemma reg_abort_ok:
  assumes op: "reg_abort i kind code msg reg = (reg', eff)" and ok: "reg_ok reg"
  shows "reg_ok reg'"
  using op reopen_slot_ok [OF ok] ok
  by (auto simp: reg_abort_def Let_def split: option.splits prod.splits if_splits dest: settle_one_ok)

lemma whenAnswered_ok:
  fixes reg reg' :: "('o, 'v) registry"
  assumes op: "whenAnswered i l ms now reg = (reg', eff)" and ok: "reg_ok reg"
  shows "reg_ok reg'"
proof -
  let ?f = "\<lambda>r :: 'o request. let r1 = r\<lparr>rq_listeners := rq_listeners r @ [l]\<rparr>
      in case ms of None \<Rightarrow> r1 | Some d \<Rightarrow> armDeadline (pr_disposed reg) now d r1"
  show ?thesis
  proof (cases "\<exists>r. map_of (pr_requests reg) i = Some r \<and> rq_outcome r = None")
    case True
    then obtain r where r: "map_of (pr_requests reg) i = Some r" "rq_outcome r = None" by blast
    define g where "g (x :: 'o request) = (if rq_outcome x = None then ?f x else x)" for x
    have "on_request i ?f reg = on_request i g reg"
    proof (rule on_request_cong)
      fix k x
      assume mem: "(k, x) \<in> set (pr_requests reg)" and id: "rq_id x = i"
      have "k = i" using mem id ok by (auto simp: reg_ok_def requests_ok_def req_ok_def)
      then have "map_of (pr_requests reg) i = Some x"
        using mem ok by (simp add: reg_ok_def requests_ok_def)
      then show "?f x = g x" using r by (simp add: g_def)
    qed
    moreover have "req_ok k (g x)" if "req_ok k x" for k x
      using that by (auto simp: g_def req_ok_def armDeadline_def Let_def split: option.split)
    ultimately have "reg_ok (on_request i ?f reg)" using on_request_ok [OF ok] by metis
    then show ?thesis using op r by (simp add: whenAnswered_def)
  next
    case False
    then show ?thesis using op ok by (auto simp: whenAnswered_def split: option.splits)
  qed
qed

lemma stop_waiting_ok: "reg_ok reg \<Longrightarrow> reg_ok (stop_waiting i l reg)"
  unfolding stop_waiting_def by (rule on_request_ok) (auto simp: req_ok_def)

lemma owned_map_timer: "owned o' (map (\<lambda>(k, e). (k, e\<lparr>pe_timer := None\<rparr>)) es) = owned o' es"
  by (induction es) (auto simp: owned_def)

lemma reg_dispose_ok:
  assumes op: "reg_dispose reg = (reg', eff)" and ok: "reg_ok reg"
  shows "reg_ok reg'"
proof -
  define reg1 where "reg1 = reg\<lparr>pr_disposed := True,
      pr_entries := map (\<lambda>(k, e). (k, e\<lparr>pe_timer := None\<rparr>)) (pr_entries reg)\<rparr>"
  have es: "map_of (pr_entries reg1) k = map_option (\<lambda>e. e\<lparr>pe_timer := None\<rparr>) (map_of (pr_entries reg) k)" for k
    by (simp add: reg1_def map_of_map_value)
  have "entries_ok reg1"
    using ok by (auto simp: reg_ok_def entries_ok_def es entry_ok_def) (simp add: reg1_def)
  moreover have "closed_ok reg1"
    using ok unfolding reg_ok_def closed_ok_def es by (simp add: reg1_def)
  moreover have "requests_ok reg1" using ok by (simp add: reg_ok_def requests_ok_def reg1_def)
  moreover have "counts_ok reg1"
    using ok by (simp add: reg_ok_def counts_ok_def countFor_def reg1_def owned_map_timer)
  moreover have "length (pr_requests reg1) \<le> MAX_REQUESTS" using ok by (simp add: reg1_def reg_ok_def)
  ultimately have "reg_ok reg1" by (simp add: reg_ok_def)
  moreover obtain reg2 eff2 where s: "settle_where (\<lambda>r. rq_outcome r = None)
            (answer Ok_timeout (Some ''server-closing'') (Some ''the GraphMind server is shutting down'') None) reg1
       = (reg2, eff2)" by fastforce
  ultimately have "reg_ok reg2" by (blast intro: settle_where_ok)
  moreover have "reg' = reg2\<lparr>pr_changeListeners := []\<rparr>"
    using op s by (simp add: reg_dispose_def reg1_def Let_def)
  ultimately show ?thesis
    unfolding reg_ok_def entries_ok_def counts_ok_def closed_ok_def requests_ok_def countFor_def by simp
qed

definition begin_record :: "'o begin_args \<Rightarrow> ident \<Rightarrow> bool \<Rightarrow> 'o request" where
  "begin_record a i known =
     \<lparr>rq_id = i, rq_runId = ba_runId a, rq_pauseId = ba_pauseId a,
      rq_key = keyOf (ba_runId a) (ba_pauseId a),
      rq_principal = ba_principal a, rq_operator = ba_operator a, rq_owner = ba_owner a,
      rq_action = ba_action a, rq_known = known, rq_outcome = None, rq_listeners = [], rq_deadline = None\<rparr>"

definition begin_id :: "'o begin_args \<Rightarrow> ident \<Rightarrow> ('o, 'v) registry \<Rightarrow> ident" where
  "begin_id a uuid reg =
     (if acceptableRequestId (ba_requestId a) \<and> map_of (pr_requests reg) (the (ba_requestId a)) = None
      then the (ba_requestId a) else uuid)"

text \<open>A resume request is turned away, recorded best-effort, or takes the slot of the pause.\<close>

lemma reg_begin_cases:
  fixes a uuid now and reg reg' :: "('o, 'v) registry"
  assumes op: "reg_begin a uuid now reg = (reg', eff, res)"
  defines "key \<equiv> keyOf (ba_runId a) (ba_pauseId a)"
  defines "i \<equiv> begin_id a uuid reg"
  obtains (turned_away) "reg' = reg" "eff = []"
      "res = B_taken \<and> (\<exists>e. map_of (pr_entries reg) key = Some e \<and> pe_resolving e \<noteq> None) \<or>
       res = B_closed \<and> map_of (pr_entries reg) key = None \<and> map_of (pr_closed reg) key \<noteq> None"
    | (recorded) reg1 eff1 d reg2 where
      "rememberRequest (begin_record a i (map_of (pr_entries reg) key \<noteq> None)) reg = (reg1, eff1)"
      "reg2 = on_request i (armDeadline (pr_disposed reg1) now d) reg1"
      "(map_of (pr_entries reg) key = None \<and> map_of (pr_closed reg) key = None \<and> reg' = reg2 \<and>
          eff = eff1 \<and> res = B_unknown i) \<or>
       (\<exists>e. map_of (pr_entries reg) key = Some e \<and> pe_resolving e = None \<and>
          reg' = put_entry key (e\<lparr>pe_resolving := Some i, pe_timer := Some i\<rparr>) reg2 \<and>
          eff = eff1 @ emitChange reg' \<and> res = B_claimed i)"
proof -
  define d where "d = (case ba_deadlineMs a of None \<Rightarrow> DEFAULT_REQUEST_DEADLINE_MS | Some ms \<Rightarrow> ms)"
  obtain reg1 eff1
    where rem: "rememberRequest (begin_record a i (map_of (pr_entries reg) key \<noteq> None)) reg = (reg1, eff1)"
    by fastforce
  note unf = reg_begin_def Let_def key_def [symmetric] begin_id_def [symmetric] i_def [symmetric]
    begin_record_def [symmetric] d_def [symmetric]
  note rec = rem [unfolded begin_record_def key_def [symmetric]]
  show ?thesis
  proof (cases "map_of (pr_entries reg) key")
    case None
    show ?thesis
    proof (cases "map_of (pr_closed reg) key = None")
      case True
      then show ?thesis
        using op None recorded [OF rem refl, of d] rec unfolding unf by (simp add: key_def [symmetric])
    next
      case False
      then show ?thesis using op None turned_away unfolding unf by simp
    qed
  next
    case (Some e)
    show ?thesis
    proof (cases "pe_resolving e = None")
      case True
      then show ?thesis
        using op Some recorded [OF rem refl, of d] rec unfolding unf by (auto simp: key_def [symmetric])
    next
      case False
      then show ?thesis using op Some turned_away unfolding unf by simp
    qed
  qed
qed

lemma reg_begin_ok:
  assumes op: "reg_begin a uuid now reg = (reg', eff, res)" and ok: "reg_ok reg"
  shows "reg_ok reg'"
  using op
proof (cases rule: reg_begin_cases)
  case turned_away
  then show ?thesis using ok by simp
next
  case (recorded reg1 eff1 d reg2)
  have "reg_ok reg1 \<and> pauses_same reg reg1"
    by (rule rememberRequest_ok [OF recorded(1) ok]) (simp add: req_ok_def begin_record_def)
  then have ok1: "reg_ok reg1" and same1: "pauses_same reg reg1" by simp_all
  have ok2: "reg_ok reg2" unfolding recorded(2) by (rule on_request_ok [OF ok1 armDeadline_ok])
  have same2: "pauses_same reg reg2"
    using pauses_same_trans [OF same1 on_request_same] by (simp add: recorded(2))
  show ?thesis using recorded(3)
  proof
    assume "\<exists>e. map_of (pr_entries reg) (keyOf (ba_runId a) (ba_pauseId a)) = Some e \<and> pe_resolving e = None \<and>
      reg' = put_entry (keyOf (ba_runId a) (ba_pauseId a))
        (e\<lparr>pe_resolving := Some (begin_id a uuid reg), pe_timer := Some (begin_id a uuid reg)\<rparr>) reg2 \<and>
      eff = eff1 @ emitChange reg' \<and> res = B_claimed (begin_id a uuid reg)"
    then obtain e where e: "map_of (pr_entries reg) (keyOf (ba_runId a) (ba_pauseId a)) = Some e"
      and reg': "reg' = put_entry (keyOf (ba_runId a) (ba_pauseId a))
        (e\<lparr>pe_resolving := Some (begin_id a uuid reg), pe_timer := Some (begin_id a uuid reg)\<rparr>) reg2"
      by blast
    have e2: "map_of (pr_entries reg2) (keyOf (ba_runId a) (ba_pauseId a)) = Some e"
      using e same2 by (simp add: pauses_same_def)
    have p2: "pauses_ok reg2" using ok2 by (simp add: reg_ok_split)
    have "pauses_ok reg'"
      unfolding reg' by (rule put_entry_ok [OF p2 e2]) (use entry_lookup [OF p2 e2] in \<open>simp_all add: entry_ok_def\<close>)
    then show ?thesis by (rule reg_ok_pauses [OF ok2]) (simp add: reg' put_entry_def)
  qed (use ok2 in simp)
qed

section \<open>Every waiter is answered once\<close>

definition answered :: "nat \<Rightarrow> reg_effect list \<Rightarrow> nat" where
  "answered l eff = length (filter (\<lambda>e. case e of Re_answer m _ \<Rightarrow> m = l | Re_change _ \<Rightarrow> False) eff)"

definition waiting :: "nat \<Rightarrow> ('o, 'v) registry \<Rightarrow> nat" where
  "waiting l reg = sum_list (map (\<lambda>kr. count_list (rq_listeners (snd kr)) l) (pr_requests reg))"

definition balanced :: "('o, 'v) registry \<Rightarrow> reg_effect list \<Rightarrow> ('o, 'v) registry \<Rightarrow> bool" where
  "balanced reg eff reg' \<longleftrightarrow> (\<forall>l. answered l eff + waiting l reg' = waiting l reg)"

lemma answered_append [simp]: "answered l (a @ b) = answered l a + answered l b"
  by (simp add: answered_def)

lemma answered_nil [simp]: "answered l [] = 0"
  by (simp add: answered_def)

lemma answered_change [simp]: "answered l (emitChange reg) = 0"
  by (simp add: answered_def emitChange_def filter_empty_conv)

lemma answered_map: "answered l (map (\<lambda>m. Re_answer m out) ls) = count_list ls l"
  by (induction ls) (auto simp: answered_def)

lemma balanced_refl: "pr_requests reg' = pr_requests reg \<Longrightarrow> balanced reg [] reg'"
  by (simp add: balanced_def waiting_def)

lemma balanced_trans: "balanced reg a reg1 \<Longrightarrow> balanced reg1 b reg2 \<Longrightarrow> balanced reg (a @ b) reg2"
  unfolding balanced_def by (metis add.assoc answered_append)

lemma balanced_change: "balanced reg a reg1 \<Longrightarrow> balanced reg (a @ emitChange reg2) reg1"
  by (simp add: balanced_def)

lemma balanced_cong:
  "balanced reg a reg1 \<Longrightarrow> pr_requests reg0 = pr_requests reg \<Longrightarrow> pr_requests reg2 = pr_requests reg1 \<Longrightarrow>
   balanced reg0 a reg2"
  by (simp add: balanced_def waiting_def)

lemma settle_record_balance:
  "answered l (snd (settle_record out r)) + count_list (rq_listeners (fst (settle_record out r))) l
   = count_list (rq_listeners r) l"
  by (simp add: settle_record_def answered_map)

lemma settle_where_balanced:
  assumes "settle_where P mk reg = (reg', eff)" shows "balanced reg eff reg'"
proof -
  have "answered l (concat (map (\<lambda>(k, r). if P r then snd (settle_record (mk r) r) else []) rs)) +
      sum_list (map (\<lambda>kr. count_list (rq_listeners (snd kr)) l)
        (map (\<lambda>(k, r). (k, if P r then fst (settle_record (mk r) r) else r)) rs))
      = sum_list (map (\<lambda>kr. count_list (rq_listeners (snd kr)) l) rs)" for l rs
  proof (induction rs)
    case (Cons kr rs)
    then show ?case using settle_record_balance [of l "mk (snd kr)" "snd kr"] by (cases kr) simp
  qed simp
  then show ?thesis using assms by (auto simp: settle_where_def balanced_def waiting_def)
qed

lemma settle_one_balanced: "settle_one i mk reg = (reg', eff) \<Longrightarrow> balanced reg eff reg'"
  unfolding settle_one_def by (rule settle_where_balanced)

lemma on_request_waiting:
  assumes "\<And>r. rq_listeners (f r) = rq_listeners r"
  shows "waiting l (on_request i f reg) = waiting l reg"
proof -
  have "sum_list (map (\<lambda>kr. count_list (rq_listeners (snd kr)) l)
      (map (\<lambda>(k, r). (k, if rq_id r = i then f r else r)) rs))
      = sum_list (map (\<lambda>kr. count_list (rq_listeners (snd kr)) l) rs)" for rs
    by (induction rs) (auto simp: assms)
  then show ?thesis by (simp add: waiting_def on_request_def)
qed

lemma forget_requests_balanced:
  "forget_requests n reg = (reg', eff) \<Longrightarrow> requests_ok reg \<Longrightarrow> balanced reg eff reg'"
proof (induction n arbitrary: reg reg' eff)
  case (Suc n)
  show ?case
  proof (cases "MAX_REQUESTS < length (pr_requests reg)")
    case True
    then obtain v where v: "request_victim (pr_requests reg) = Some v"
      using request_victim_some [of "pr_requests reg"] by fastforce
    define reg1 where "reg1 = reg\<lparr>pr_requests := AList.delete (rq_id v) (pr_requests reg)\<rparr>"
    obtain reg2 eff2 where f: "forget_requests n reg1 = (reg2, eff2)" by fastforce
    have look: "map_of (pr_requests reg) (rq_id v) = Some v" by (rule victim_lookup [OF Suc.prems(2) v])
    have "waiting l reg = waiting l reg1 + count_list (rq_listeners v) l" for l
      using sum_delete [OF _ look, of "\<lambda>kr. count_list (rq_listeners (snd kr)) l"] Suc.prems(2)
      by (simp add: waiting_def reg1_def requests_ok_def)
    moreover have "answered l (snd (settle_record (no_answer ''no answer from the app'' v) v))
        = count_list (rq_listeners v) l" for l
      using requests_key [OF Suc.prems(2) look] by (auto simp: settle_record_def answered_map req_ok_def)
    ultimately have "balanced reg (snd (settle_record (no_answer ''no answer from the app'' v) v)) reg1"
      by (simp add: balanced_def)
    moreover have "balanced reg1 eff2 reg2"
      by (rule Suc.IH [OF f]) (use Suc.prems(2) in \<open>simp add: reg1_def requests_ok_delete\<close>)
    moreover have "reg' = reg2" "eff = snd (settle_record (no_answer ''no answer from the app'' v) v) @ eff2"
      using Suc.prems(1) True v f by (simp_all add: reg1_def Let_def)
    ultimately show ?thesis by (simp add: balanced_trans)
  next
    case False
    then show ?thesis using Suc.prems by (auto simp: balanced_refl)
  qed
qed (simp add: balanced_refl)

lemma rememberRequest_balanced:
  assumes rem: "rememberRequest r reg = (reg', eff)" and ok: "requests_ok reg"
    and fresh: "map_of (pr_requests reg) (rq_id r) = None" and r: "rq_listeners r = []" "req_ok (rq_id r) r"
  shows "balanced reg eff reg'"
proof -
  define reg1 where "reg1 = reg\<lparr>pr_requests := AList.update (rq_id r) r (pr_requests reg)\<rparr>"
  obtain reg2 eff2 where two: "(if \<not> rq_known r
             then settle_where (\<lambda>x. rq_id x \<in> set (unknown_victims reg1))
                    (no_answer ''no answer from the app (too many resumes for pauses this server never saw)'') reg1
             else (reg1, [])) = (reg2, eff2)" by fastforce
  obtain reg3 eff3 where three: "forget_requests (length (pr_requests reg2)) reg2 = (reg3, eff3)" by fastforce
  have eqs: "reg' = reg3" "eff = eff2 @ eff3"
    using rem two three unfolding rememberRequest_def reg1_def [symmetric] Let_def by simp_all
  have rs: "pr_requests reg1 = pr_requests reg @ [(rq_id r, r)]"
    using fresh by (simp add: reg1_def update_fresh map_of_None_keys)
  have "rq_id r \<notin> set (okeys (pr_requests reg))" using fresh by (simp add: map_of_None_keys)
  then have ok1: "requests_ok reg1" using ok r(2) by (auto simp: requests_ok_def rs)
  have "balanced reg [] reg1" by (simp add: balanced_def waiting_def rs r(1))
  moreover have "balanced reg1 eff2 reg2 \<and> requests_ok reg2"
    using two ok1
    by (auto simp: balanced_refl split: if_splits dest: settle_where_balanced settle_where_requests_ok)
  moreover from this have "balanced reg2 eff3 reg3" using forget_requests_balanced [OF three] by blast
  ultimately show ?thesis unfolding eqs by (metis append_Nil balanced_trans)
qed

lemma reg_begin_balanced:
  assumes op: "reg_begin a uuid now reg = (reg', eff, res)" and ok: "reg_ok reg"
    and fresh: "map_of (pr_requests reg) uuid = None"
  shows "balanced reg eff reg'"
  using op
proof (cases rule: reg_begin_cases)
  case turned_away
  then show ?thesis by (simp add: balanced_refl)
next
  case (recorded reg1 eff1 d reg2)
  let ?r = "begin_record a (begin_id a uuid reg) (map_of (pr_entries reg) (keyOf (ba_runId a) (ba_pauseId a)) \<noteq> None)"
  have b1: "balanced reg eff1 reg1"
    by (rule rememberRequest_balanced [OF recorded(1)])
      (use ok fresh in \<open>auto simp: begin_record_def begin_id_def reg_ok_def req_ok_def\<close>)
  have "waiting l reg2 = waiting l reg1" for l
    unfolding recorded(2) by (rule on_request_waiting) (simp add: armDeadline_def)
  then have b2: "balanced reg eff1 reg2" using b1 by (simp add: balanced_def)
  have "pr_requests (put_entry k e reg2) = pr_requests reg2" for k e by (simp add: put_entry_def)
  then show ?thesis
    using recorded(3) b2 by (auto intro: balanced_change balanced_cong)
qed

section \<open>The machine the hub drives\<close>

text \<open>
  The registry, a source of fresh listener names, everything told to the outside, the listeners
  taken on for a known request, the listeners withdrawn.
\<close>

record ('o, 'v) reg_machine =
  rm_reg :: "('o, 'v) registry"
  rm_next :: nat
  rm_log :: "reg_effect list"
  rm_asked :: "nat list"
  rm_dropped :: "nat list"

datatype ('o, 'v) reg_event =
    Rv_open 'o "'v pause_info"
  | Rv_resumed ident ident "ident option" bool "resume_action option"
  | Rv_refused ident ident "ident option" string "string option"
  | Rv_closeRun ident
  | Rv_closeOwner 'o
  | Rv_begin "'o begin_args" ident millis
  | Rv_resolving string
  | Rv_deadline ident millis
  | Rv_abort ident outcome_kind "string option" "string option"
  | Rv_dispose
  | Rv_onChange nat
  | Rv_touch
  | Rv_when ident "millis option" millis
  | Rv_stop ident nat

fun registry_event :: "('o, 'v) reg_event \<Rightarrow> ('o, 'v) registry \<Rightarrow> ('o, 'v) registry \<times> reg_effect list" where
  "registry_event (Rv_open owner info) reg = (let (r, eff, _) = reg_open owner info reg in (r, eff))"
| "registry_event (Rv_resumed run p i echoes act) reg = reg_resumed run p i echoes act reg"
| "registry_event (Rv_refused run p i code msg) reg = reg_refused run p i code msg reg"
| "registry_event (Rv_closeRun run) reg = reg_closeRun run reg"
| "registry_event (Rv_closeOwner owner) reg = reg_closeOwner owner reg"
| "registry_event (Rv_begin a uuid now) reg = (let (r, eff, _) = reg_begin a uuid now reg in (r, eff))"
| "registry_event (Rv_resolving key) reg = resolving_fires key reg"
| "registry_event (Rv_deadline i now) reg = deadline_fires i now reg"
| "registry_event (Rv_abort i kind code msg) reg = reg_abort i kind code msg reg"
| "registry_event Rv_dispose reg = reg_dispose reg"
| "registry_event (Rv_onChange l) reg = (onChange l reg, [])"
| "registry_event Rv_touch reg = (reg, emitChange reg)"
| "registry_event (Rv_when i ms now) reg = (reg, [])"
| "registry_event (Rv_stop i l) reg = (reg, [])"

fun reg_step :: "('o, 'v) reg_event \<Rightarrow> ('o, 'v) reg_machine \<Rightarrow> ('o, 'v) reg_machine" where
  "reg_step (Rv_when i ms now) s =
     (let l = rm_next s; (r, eff) = whenAnswered i l ms now (rm_reg s)
      in s\<lparr>rm_reg := r, rm_next := Suc l, rm_log := rm_log s @ eff,
           rm_asked := (if map_of (pr_requests (rm_reg s)) i = None then rm_asked s else rm_asked s @ [l])\<rparr>)"
| "reg_step (Rv_stop i l) s =
     (let r = stop_waiting i l (rm_reg s)
      in s\<lparr>rm_reg := r, rm_dropped := rm_dropped s @ replicate (waiting l (rm_reg s) - waiting l r) l\<rparr>)"
| "reg_step ev s =
     (let (r, eff) = registry_event ev (rm_reg s) in s\<lparr>rm_reg := r, rm_log := rm_log s @ eff\<rparr>)"

text \<open>\<open>randomUUID\<close> gives an id no remembered request has.\<close>

fun uuid_fresh :: "('o, 'v) reg_event \<Rightarrow> ('o, 'v) registry \<Rightarrow> bool" where
  "uuid_fresh (Rv_begin a uuid now) reg = (map_of (pr_requests reg) uuid = None)"
| "uuid_fresh _ reg = True"

definition reg_machine_new :: "nat option \<Rightarrow> ('o, 'v) reg_machine" where
  "reg_machine_new m =
     \<lparr>rm_reg = registry_new m, rm_next = 0, rm_log = [], rm_asked = [], rm_dropped = []\<rparr>"

inductive reg_reach :: "nat option \<Rightarrow> ('o, 'v) reg_machine \<Rightarrow> bool" for m where
  start: "reg_reach m (reg_machine_new m)"
| step: "reg_reach m s \<Longrightarrow> uuid_fresh ev (rm_reg s) \<Longrightarrow> reg_reach m (reg_step ev s)"

lemma close_entries_requests: "pr_requests (close_entries P reg) = pr_requests reg"
proof -
  have "pr_requests (fold (\<lambda>(key, e) rg. markClosed key (removeEntry key e rg)) kes reg) = pr_requests reg" for kes
    by (induction kes arbitrary: reg) (auto split: prod.split)
  then show ?thesis by (simp add: close_entries_def)
qed

lemma put_entry_requests [simp]: "pr_requests (put_entry k e reg) = pr_requests reg"
  by (simp add: put_entry_def)

lemma bal_settle_change:
  assumes "settle_where P mk reg1 = (reg2, eff2)" and "pr_requests reg1 = pr_requests reg"
  shows "balanced reg (eff2 @ emitChange reg3) reg2"
  by (rule balanced_change, rule balanced_cong [OF settle_where_balanced [OF assms(1)]])
    (simp_all add: assms(2))

lemma maybe_settled:
  "(case c of None \<Rightarrow> (reg, []) | Some r \<Rightarrow> settle_one (rq_id r) mk reg) = (reg', eff) \<Longrightarrow>
   balanced reg eff reg'"
  by (auto split: option.splits intro: balanced_refl settle_one_balanced)

lemma reg_open_balanced: "reg_open owner info reg = (reg', eff, b) \<Longrightarrow> balanced reg eff reg'"
  by (auto simp: reg_open_def Let_def balanced_def waiting_def split: if_splits option.splits)

definition closed_key :: "string \<Rightarrow> ('o, 'v) registry \<Rightarrow> ('o, 'v) registry" where
  "closed_key key reg =
     markClosed key (case map_of (pr_entries reg) key of None \<Rightarrow> reg | Some e \<Rightarrow> removeEntry key e reg)"

lemma closed_key_requests [simp]: "pr_requests (closed_key key reg) = pr_requests reg"
  by (simp add: closed_key_def split: option.split)

text \<open>\<open>resumed\<close> in its stages.\<close>

lemma reg_resumed_stages:
  assumes "reg_resumed run p i echoes act reg = (reg', eff)"
  obtains reg3 eff3 eff4 where
    "(case correlate run p i echoes act reg of
        None \<Rightarrow> (closed_key (keyOf run p) reg, [])
      | Some c \<Rightarrow> settle_one (rq_id c) (resumed_answer run p) (closed_key (keyOf run p) reg)) = (reg3, eff3)"
    "settle_where (\<lambda>r. rq_key r = keyOf run p \<and> rq_outcome r = None) (superseded_answer run p) reg3 = (reg', eff4)"
    "eff = eff3 @ eff4 @ emitChange reg'"
proof -
  obtain reg3 eff3 where s3: "(case correlate run p i echoes act reg of
        None \<Rightarrow> (closed_key (keyOf run p) reg, [])
      | Some c \<Rightarrow> settle_one (rq_id c) (resumed_answer run p) (closed_key (keyOf run p) reg)) = (reg3, eff3)"
    by fastforce
  obtain reg4 eff4 where s4: "settle_where (\<lambda>r. rq_key r = keyOf run p \<and> rq_outcome r = None)
      (superseded_answer run p) reg3 = (reg4, eff4)" by fastforce
  have "(reg', eff) = (reg4, eff3 @ eff4 @ emitChange reg4)"
    using assms unfolding reg_resumed_def Let_def closed_key_def [symmetric] s3 prod.case s4 by auto
  with s3 s4 that show ?thesis by simp
qed

lemma reg_resumed_balanced:
  assumes "reg_resumed run p i echoes act reg = (reg', eff)" shows "balanced reg eff reg'"
  using assms
proof (rule reg_resumed_stages)
  fix reg3 eff3 eff4
  assume s3: "(case correlate run p i echoes act reg of
        None \<Rightarrow> (closed_key (keyOf run p) reg, [])
      | Some c \<Rightarrow> settle_one (rq_id c) (resumed_answer run p) (closed_key (keyOf run p) reg)) = (reg3, eff3)"
    and s4: "settle_where (\<lambda>r. rq_key r = keyOf run p \<and> rq_outcome r = None) (superseded_answer run p) reg3 = (reg', eff4)"
    and eff: "eff = eff3 @ eff4 @ emitChange reg'"
  have "balanced (closed_key (keyOf run p) reg) (eff3 @ eff4) reg'"
    by (rule balanced_trans [OF maybe_settled [OF s3] settle_where_balanced [OF s4]])
  from balanced_change [OF balanced_cong [OF this, of reg reg']] show ?thesis by (simp add: eff)
qed

definition reopened_key :: "string \<Rightarrow> ('o, 'v) registry \<Rightarrow> ('o, 'v) registry" where
  "reopened_key key reg =
     (case map_of (pr_entries reg) key of
        None \<Rightarrow> reg
      | Some e \<Rightarrow> if pe_resolving e \<noteq> None then put_entry key (reopen_entry e) reg else reg)"

lemma reopened_key_requests [simp]: "pr_requests (reopened_key key reg) = pr_requests reg"
  by (simp add: reopened_key_def split: option.split)

lemma reg_refused_balanced:
  assumes "reg_refused run p i code msg reg = (reg', eff)" shows "balanced reg eff reg'"
proof -
  obtain reg2 eff2
    where s: "(case refused_target run p i reg of None \<Rightarrow> (reopened_key (keyOf run p) reg, [])
        | Some r \<Rightarrow> settle_one (rq_id r) (refused_answer run p code msg) (reopened_key (keyOf run p) reg))
      = (reg2, eff2)" by fastforce
  then have r: "reg' = reg2" "eff = eff2 @ emitChange reg2"
    using assms unfolding reg_refused_def Let_def reopened_key_def [symmetric] by auto
  from balanced_change [OF balanced_cong [OF maybe_settled [OF s], of reg reg2]] show ?thesis
    by (simp add: r)
qed

lemma reg_abort_balanced:
  assumes op: "reg_abort i kind code msg reg = (reg', eff)" shows "balanced reg eff reg'"
proof (cases "map_of (pr_requests reg) i")
  case None
  then show ?thesis using op by (simp add: reg_abort_def balanced_refl)
next
  case (Some r)
  obtain reg1 eff1 where one: "(case map_of (pr_entries reg) (rq_key r) of
                   None \<Rightarrow> (reg, [])
                 | Some e \<Rightarrow>
                     if pe_resolving e = Some i
                     then let rg = put_entry (rq_key r) (reopen_entry e) reg in (rg, emitChange rg)
                     else (reg, [])) = (reg1, eff1)" by fastforce
  then have "balanced reg eff1 reg1"
    by (auto simp: balanced_def waiting_def Let_def split: option.splits if_splits)
  moreover obtain eff2 where "settle_one i (answer kind code msg None) reg1 = (reg', eff2)" "eff = eff1 @ eff2"
    using op by (auto simp: reg_abort_def Some one split: prod.splits)
  ultimately show ?thesis using balanced_trans settle_one_balanced by blast
qed

lemma registry_event_balanced:
  assumes "registry_event ev reg = (reg', eff)" and "reg_ok reg" and "uuid_fresh ev reg"
  shows "balanced reg eff reg'"
  using assms
proof (cases ev)
  case (Rv_begin a uuid now)
  then show ?thesis using assms reg_begin_balanced by (auto split: prod.splits)
next
  case (Rv_resolving key)
  then show ?thesis using assms
    by (auto simp: resolving_fires_def Let_def balanced_def waiting_def split: option.splits if_splits)
next
  case (Rv_deadline i now)
  then show ?thesis using assms
    by (auto simp: deadline_fires_def intro: balanced_refl settle_one_balanced split: option.splits if_splits)
next
  case Rv_dispose
  then show ?thesis using assms
    by (auto simp: reg_dispose_def Let_def intro!: balanced_change intro: balanced_cong
        dest!: settle_where_balanced split: prod.splits)
next
  case (Rv_closeRun r)
  then show ?thesis using assms
    by (auto simp: reg_closeRun_def Let_def close_entries_requests intro: bal_settle_change split: prod.splits)
next
  case (Rv_closeOwner o')
  then show ?thesis using assms
    by (auto simp: reg_closeOwner_def Let_def close_entries_requests intro: bal_settle_change split: prod.splits)
qed (auto simp: onChange_def balanced_def waiting_def split: prod.splits
    dest: reg_open_balanced [unfolded balanced_def waiting_def] reg_resumed_balanced [unfolded balanced_def waiting_def]
      reg_refused_balanced [unfolded balanced_def waiting_def] reg_abort_balanced [unfolded balanced_def waiting_def])

lemma registry_event_ok:
  assumes "registry_event ev reg = (reg', eff)" and "reg_ok reg"
  shows "reg_ok reg'"
  using assms
  by (cases ev)
    (auto split: prod.splits dest: reg_open_ok reg_resumed_ok reg_refused_ok reg_closeRun_ok reg_closeOwner_ok
      reg_begin_ok resolving_fires_ok deadline_fires_ok reg_abort_ok reg_dispose_ok onChange_ok)

section \<open>The machine's invariant\<close>

definition rm_ok :: "('o, 'v) reg_machine \<Rightarrow> bool" where
  "rm_ok s \<longleftrightarrow> reg_ok (rm_reg s) \<and>
     (\<forall>l. answered l (rm_log s) + count_list (rm_dropped s) l + waiting l (rm_reg s) = count_list (rm_asked s) l \<and>
          count_list (rm_asked s) l \<le> 1 \<and> (rm_next s \<le> l \<longrightarrow> count_list (rm_asked s) l = 0))"

lemma reg_machine_new_ok: "rm_ok (reg_machine_new m)"
  by (simp add: rm_ok_def reg_machine_new_def registry_new_ok) (simp add: registry_new_def waiting_def)

lemma on_request_one:
  assumes ok: "requests_ok reg" and i: "map_of (pr_requests reg) i = Some r"
  shows "waiting l (on_request i f reg) + count_list (rq_listeners r) l
    = waiting l reg + count_list (rq_listeners (f r)) l"
proof -
  have "requests_ok reg \<Longrightarrow> map_of (pr_requests reg) i = Some r \<Longrightarrow> ?thesis"
  proof (induction "pr_requests reg" arbitrary: reg)
    case (Cons kr rs)
    obtain k x where kr: "kr = (k, x)" by (cases kr)
    define reg1 where "reg1 = reg\<lparr>pr_requests := rs\<rparr>"
    have ok1: "requests_ok reg1" and k: "k = rq_id x"
      using Cons.prems(1) Cons.hyps(2) [symmetric] by (auto simp: requests_ok_def reg1_def kr req_ok_def)
    have split: "waiting l reg = count_list (rq_listeners x) l + waiting l reg1"
      "waiting l (on_request i f reg) =
         count_list (rq_listeners (if rq_id x = i then f x else x)) l + waiting l (on_request i f reg1)"
      by (simp_all add: waiting_def on_request_def reg1_def Cons.hyps(2) [symmetric] kr)
    show ?case
    proof (cases "k = i")
      case True
      then have x: "x = r" using Cons.prems(2) by (simp add: Cons.hyps(2) [symmetric] kr)
      have "i \<notin> set (okeys rs)"
        using Cons.prems(1) True by (simp add: requests_ok_def Cons.hyps(2) [symmetric] kr)
      then have "on_request i f reg1 = on_request i (\<lambda>y. y) reg1"
        using ok1 by (intro on_request_cong) (force simp: requests_ok_def reg1_def req_ok_def)
      also have "\<dots> = reg1" by (simp add: on_request_def)
      finally show ?thesis using split True k x by simp
    next
      case False
      then have "map_of (pr_requests reg1) i = Some r"
        using Cons.prems(2) by (simp add: reg1_def Cons.hyps(2) [symmetric] kr)
      from Cons.hyps(1) [OF _ ok1 this] show ?thesis using split False k by (simp add: reg1_def)
    qed
  qed simp
  then show ?thesis using assms by blast
qed

lemma whenAnswered_balance:
  assumes "whenAnswered i l ms now reg = (reg', eff)" and ok: "requests_ok reg"
  shows "answered m eff + waiting m reg' =
    waiting m reg + (if map_of (pr_requests reg) i \<noteq> None \<and> m = l then 1 else 0)"
proof (cases "map_of (pr_requests reg) i")
  case None
  then show ?thesis using assms(1) by (simp add: whenAnswered_def)
next
  case (Some r)
  show ?thesis
  proof (cases "rq_outcome r")
    case (Some out)
    then show ?thesis using assms(1) \<open>map_of (pr_requests reg) i = Some r\<close>
      by (auto simp: whenAnswered_def answered_def)
  next
    case None
    let ?f = "\<lambda>r. let r1 = r\<lparr>rq_listeners := rq_listeners r @ [l]\<rparr>
        in case ms of None \<Rightarrow> r1 | Some d \<Rightarrow> armDeadline (pr_disposed reg) now d r1"
    have eqs: "reg' = on_request i ?f reg" "eff = []"
      using assms(1) Some None by (auto simp: whenAnswered_def)
    have "rq_listeners (?f r) = rq_listeners r @ [l]"
      by (simp add: Let_def armDeadline_def split: option.split)
    then show ?thesis
      using on_request_one [OF ok Some, of m ?f] unfolding eqs by (simp add: Some)
  qed
qed

lemma stop_waiting_balance:
  assumes "requests_ok reg"
  shows "waiting m (stop_waiting i l reg) \<le> waiting m reg \<and>
    (m \<noteq> l \<longrightarrow> waiting m (stop_waiting i l reg) = waiting m reg)"
proof (cases "map_of (pr_requests reg) i")
  case None
  have "on_request i f reg = on_request i (\<lambda>y. y) reg" for f
    using assms None by (intro on_request_cong) (force simp: requests_ok_def req_ok_def map_of_None_keys)
  moreover have "on_request i (\<lambda>y. y) reg = reg" by (simp add: on_request_def)
  ultimately have "stop_waiting i l reg = reg" by (metis stop_waiting_def)
  then show ?thesis by simp
next
  case (Some r)
  have c: "count_list (removeAll l xs) m = (if m = l then 0 else count_list xs m)" for xs
    by (induction xs) auto
  have "waiting m (stop_waiting i l reg) + count_list (rq_listeners r) m
      = waiting m reg + (if m = l then 0 else count_list (rq_listeners r) m)"
    using on_request_one [OF assms Some, of m "\<lambda>r. r\<lparr>rq_listeners := removeAll l (rq_listeners r)\<rparr>"]
    by (simp add: stop_waiting_def c)
  then show ?thesis by (cases "m = l") simp_all
qed

definition balance_at :: "nat \<Rightarrow> reg_effect list \<Rightarrow> nat list \<Rightarrow> nat list \<Rightarrow> nat \<Rightarrow> nat \<Rightarrow> bool" where
  "balance_at l lg dropped asked bound w \<longleftrightarrow>
     answered l lg + count_list dropped l + w = count_list asked l \<and>
     count_list asked l \<le> 1 \<and> (bound \<le> l \<longrightarrow> count_list asked l = 0)"

lemma rm_ok_balance:
  "rm_ok s \<longleftrightarrow> reg_ok (rm_reg s) \<and>
     (\<forall>l. balance_at l (rm_log s) (rm_dropped s) (rm_asked s) (rm_next s) (waiting l (rm_reg s)))"
  unfolding rm_ok_def balance_at_def by blast

lemma balance_event:
  "balance_at l lg dr asked n w \<Longrightarrow> answered l eff + w' = w \<Longrightarrow> balance_at l (lg @ eff) dr asked n w'"
  unfolding balance_at_def by auto

lemma balance_asked:
  assumes "balance_at m lg dr asked n w" and "answered m eff + w' = w + (if known \<and> m = n then 1 else 0)"
  shows "balance_at m (lg @ eff) dr (if known then asked @ [n] else asked) (Suc n) w'"
  using assms unfolding balance_at_def by (cases "m = n") auto

lemma balance_dropped:
  assumes "balance_at m lg dr asked n w" and "w' \<le> w" and "m \<noteq> l \<longrightarrow> w' = w"
  shows "balance_at m lg (dr @ replicate (if m = l then w - w' else k) l) asked n w'"
proof -
  have "count_list (replicate j l) m = (if m = l then j else 0)" for j by (induction j) auto
  then show ?thesis using assms unfolding balance_at_def by auto
qed

lemma reg_step_ok:
  assumes ok: "rm_ok s" and fresh: "uuid_fresh ev (rm_reg s)"
  shows "rm_ok (reg_step ev s)"
proof -
  have rok: "requests_ok (rm_reg s)" and gok: "reg_ok (rm_reg s)" using ok by (simp_all add: rm_ok_def reg_ok_def)
  have bal: "balance_at l (rm_log s) (rm_dropped s) (rm_asked s) (rm_next s) (waiting l (rm_reg s))" for l
    using ok by (simp add: rm_ok_balance)
  consider (asks) i ms now where "ev = Rv_when i ms now" | (stops) i l where "ev = Rv_stop i l"
    | (other) "\<forall>i ms now. ev \<noteq> Rv_when i ms now" "\<forall>i l. ev \<noteq> Rv_stop i l" by blast
  then show ?thesis
  proof cases
    case (asks i ms now)
    obtain r eff where w: "whenAnswered i (rm_next s) ms now (rm_reg s) = (r, eff)" by fastforce
    let ?known = "map_of (pr_requests (rm_reg s)) i \<noteq> None"
    have "reg_step ev s = s\<lparr>rm_reg := r, rm_next := Suc (rm_next s), rm_log := rm_log s @ eff,
        rm_asked := (if ?known then rm_asked s @ [rm_next s] else rm_asked s)\<rparr>"
      by (auto simp: asks w Let_def)
    moreover have "reg_ok r" by (rule whenAnswered_ok [OF w gok])
    moreover have "balance_at l (rm_log s @ eff) (rm_dropped s)
        (if ?known then rm_asked s @ [rm_next s] else rm_asked s) (Suc (rm_next s)) (waiting l r)" for l
      by (rule balance_asked [OF bal whenAnswered_balance [OF w rok]])
    ultimately show ?thesis by (simp add: rm_ok_balance)
  next
    case (stops i l)
    define r where "r = stop_waiting i l (rm_reg s)"
    have "reg_step ev s = s\<lparr>rm_reg := r,
        rm_dropped := rm_dropped s @ replicate (waiting l (rm_reg s) - waiting l r) l\<rparr>"
      by (simp add: stops r_def Let_def)
    moreover have "reg_ok r" unfolding r_def by (rule stop_waiting_ok [OF gok])
    moreover have "balance_at m (rm_log s)
        (rm_dropped s @ replicate (waiting l (rm_reg s) - waiting l r) l) (rm_asked s) (rm_next s) (waiting m r)" for m
      using balance_dropped [OF bal [of m], of "waiting m r" l "waiting l (rm_reg s) - waiting l r"]
        stop_waiting_balance [OF rok, of m i l] by (cases "m = l") (simp_all add: r_def)
    ultimately show ?thesis by (simp add: rm_ok_balance)
  next
    case other
    obtain r eff where e: "registry_event ev (rm_reg s) = (r, eff)" by fastforce
    have "reg_step ev s = s\<lparr>rm_reg := r, rm_log := rm_log s @ eff\<rparr>"
      using other e by (cases ev) auto
    moreover have "reg_ok r" by (rule registry_event_ok [OF e gok])
    moreover have "balance_at l (rm_log s @ eff) (rm_dropped s) (rm_asked s) (rm_next s) (waiting l r)" for l
      using balance_event [OF bal] registry_event_balanced [OF e gok fresh] by (simp add: balanced_def)
    ultimately show ?thesis by (simp add: rm_ok_balance)
  qed
qed

lemma reg_reach_ok: "reg_reach m s \<Longrightarrow> rm_ok s"
  by (induction rule: reg_reach.induct) (auto intro: reg_machine_new_ok reg_step_ok)

section \<open>A claimed pause stays claimed\<close>

text \<open>The events that can take a resolving entry away from the request that claimed it.\<close>

fun frees :: "('o, 'v) reg_event \<Rightarrow> string \<Rightarrow> ('o, 'v) pause_entry \<Rightarrow> bool" where
  "frees (Rv_open owner info) key e = (keyOf (pi_runId info) (pi_pauseId info) = key)"
| "frees (Rv_resumed run p i echoes act) key e = (keyOf run p = key)"
| "frees (Rv_refused run p i code msg) key e = (keyOf run p = key)"
| "frees (Rv_closeRun run) key e = (pi_runId (pe_info e) = run)"
| "frees (Rv_closeOwner owner) key e = (pe_owner e = owner)"
| "frees (Rv_resolving k) key e = (k = key)"
| "frees (Rv_abort i kind code msg) key e = (pe_resolving e = Some i)"
| "frees Rv_dispose key e = True"
| "frees _ key e = False"

lemma map_of_filter_value:
  "wf_omap m \<Longrightarrow> map_of m k = Some v \<Longrightarrow> P v \<Longrightarrow> map_of (filter (\<lambda>kv. P (snd kv)) m) k = Some v"
  by (induction m) (auto split: if_splits simp: map_of_None_keys)

lemma settle_where_entries: "settle_where P mk reg = (reg', eff) \<Longrightarrow> pr_entries reg' = pr_entries reg"
  by (auto simp: settle_where_def)

lemma settle_one_entries: "settle_one i mk reg = (reg', eff) \<Longrightarrow> pr_entries reg' = pr_entries reg"
  unfolding settle_one_def by (rule settle_where_entries)

lemma maybe_settled_entries:
  "(case c of None \<Rightarrow> (reg, []) | Some r \<Rightarrow> settle_one (rq_id r) mk reg) = (reg', eff) \<Longrightarrow>
   pr_entries reg' = pr_entries reg"
  by (auto split: option.splits intro: settle_one_entries)

lemma put_entry_other: "k \<noteq> key \<Longrightarrow> map_of (pr_entries (put_entry k e reg)) key = map_of (pr_entries reg) key"
  by (simp add: put_entry_def)

lemma closed_key_entries:
  "map_of (pr_entries (closed_key key reg)) k = (if k = key then None else map_of (pr_entries reg) k)"
  by (simp add: closed_key_def split: option.split)

lemma reg_resumed_entries:
  assumes "reg_resumed run p i echoes act reg = (reg', eff)"
  shows "pr_entries reg' = pr_entries (closed_key (keyOf run p) reg)"
  using assms by (rule reg_resumed_stages) (simp add: maybe_settled_entries settle_where_entries)

lemma reg_refused_stages:
  assumes "reg_refused run p i code msg reg = (reg', eff)"
  obtains eff2 where
    "(case refused_target run p i reg of
        None \<Rightarrow> (reopened_key (keyOf run p) reg, [])
      | Some r \<Rightarrow> settle_one (rq_id r) (refused_answer run p code msg) (reopened_key (keyOf run p) reg)) = (reg', eff2)"
    "eff = eff2 @ emitChange reg'"
proof -
  obtain reg2 eff2 where s: "(case refused_target run p i reg of
        None \<Rightarrow> (reopened_key (keyOf run p) reg, [])
      | Some r \<Rightarrow> settle_one (rq_id r) (refused_answer run p code msg) (reopened_key (keyOf run p) reg)) = (reg2, eff2)"
    by fastforce
  have "(reg', eff) = (reg2, eff2 @ emitChange reg2)"
    using assms unfolding reg_refused_def Let_def reopened_key_def [symmetric] s prod.case by auto
  with s that show ?thesis by simp
qed

lemma event_keeps_entry:
  assumes ok: "reg_ok reg" and e: "map_of (pr_entries reg) key = Some e" and r: "pe_resolving e = Some i"
    and nf: "\<not> frees ev key e" and step: "registry_event ev reg = (reg', eff)"
  shows "map_of (pr_entries reg') key = Some e"
proof (cases ev)
  case (Rv_open owner info)
  then show ?thesis using step nf e
    by (auto simp: reg_open_def Let_def split: prod.splits if_splits option.splits)
next
  case (Rv_resumed run p j echoes act)
  then have "pr_entries reg' = pr_entries (closed_key (keyOf run p) reg)"
    using step reg_resumed_entries [of run p j echoes act reg] by simp
  then show ?thesis using nf e Rv_resumed by (simp add: closed_key_entries)
next
  case (Rv_refused run p j code msg)
  then have op: "reg_refused run p j code msg reg = (reg', eff)" using step by simp
  have "pr_entries reg' = pr_entries (reopened_key (keyOf run p) reg)"
    using op by (rule reg_refused_stages) (rule maybe_settled_entries)
  then show ?thesis using nf e Rv_refused by (simp add: reopened_key_def put_entry_other split: option.split)
next
  case (Rv_closeRun run)
  have "pauses_ok reg" using ok by (simp add: reg_ok_split)
  then have "map_of (pr_entries (close_entries (\<lambda>e. pi_runId (pe_info e) = run) reg)) key = Some e"
    using map_of_filter_value [OF _ e, of "\<lambda>e. pi_runId (pe_info e) \<noteq> run"] nf Rv_closeRun
    by (simp add: close_entries_ok(2) pauses_ok_def entries_ok_def)
  then show ?thesis
    using step Rv_closeRun by (auto simp: reg_closeRun_def Let_def dest: settle_where_entries split: prod.splits)
next
  case (Rv_closeOwner owner)
  have "pauses_ok reg" using ok by (simp add: reg_ok_split)
  then have "map_of (pr_entries (close_entries (\<lambda>e. pe_owner e = owner) reg)) key = Some e"
    using map_of_filter_value [OF _ e, of "\<lambda>e. pe_owner e \<noteq> owner"] nf Rv_closeOwner
    by (simp add: close_entries_ok(2) pauses_ok_def entries_ok_def)
  then show ?thesis
    using step Rv_closeOwner by (auto simp: reg_closeOwner_def Let_def dest: settle_where_entries split: prod.splits)
next
  case (Rv_begin a uuid now)
  then obtain res where b: "reg_begin a uuid now reg = (reg', eff, res)" using step by (auto split: prod.splits)
  then show ?thesis
  proof (cases rule: reg_begin_cases)
    case turned_away
    then show ?thesis using e by simp
  next
    case (recorded reg1 eff1 d reg2)
    have "pauses_same reg reg1"
      using rememberRequest_ok [OF recorded(1) ok] by (simp add: req_ok_def begin_record_def)
    then have "pr_entries reg2 = pr_entries reg" by (simp add: recorded(2) on_request_def pauses_same_def)
    then show ?thesis using recorded(3) e r
      by (cases "keyOf (ba_runId a) (ba_pauseId a) = key") (auto simp: put_entry_other)
  qed
next
  case (Rv_resolving k)
  then show ?thesis using step nf e
    by (auto simp: resolving_fires_def Let_def put_entry_other split: option.splits if_splits)
next
  case (Rv_deadline j now)
  then show ?thesis using step e
    by (auto simp: deadline_fires_def dest: settle_one_entries split: option.splits if_splits prod.splits)
next
  case (Rv_abort j kind code msg)
  have "map_of (pr_entries (put_entry (rq_key x) (reopen_entry e') reg)) key = Some e"
    if "map_of (pr_entries reg) (rq_key x) = Some e'" "pe_resolving e' = Some j" for x e'
    using that nf e Rv_abort by (cases "rq_key x = key") (auto simp: put_entry_other)
  then show ?thesis using step e Rv_abort
    by (auto simp: reg_abort_def Let_def dest!: settle_one_entries split: option.splits if_splits prod.splits)
qed (use step nf e in \<open>auto simp: onChange_def\<close>)

lemma step_keeps_entry:
  assumes ok: "rm_ok s" and fresh: "uuid_fresh ev (rm_reg s)"
    and e: "map_of (pr_entries (rm_reg s)) key = Some e" and r: "pe_resolving e = Some i"
    and nf: "\<not> frees ev key e"
  shows "map_of (pr_entries (rm_reg (reg_step ev s))) key = Some e"
proof (cases "(\<exists>i ms now. ev = Rv_when i ms now) \<or> (\<exists>i l. ev = Rv_stop i l)")
  case False
  obtain reg' eff where ev: "registry_event ev (rm_reg s) = (reg', eff)" by fastforce
  have "rm_reg (reg_step ev s) = reg'" using False ev by (cases ev) auto
  then show ?thesis using event_keeps_entry [OF _ e r nf ev] ok by (simp add: rm_ok_def)
next
  case True
  then show ?thesis using e
    by (auto simp: whenAnswered_def on_request_def stop_waiting_def Let_def split: option.splits prod.splits)
qed

text \<open>A run on which the pause is not freed.\<close>

fun unfreed :: "('o, 'v) reg_event list \<Rightarrow> string \<Rightarrow> ('o, 'v) pause_entry \<Rightarrow> ('o, 'v) reg_machine \<Rightarrow> bool" where
  "unfreed [] key e s = True"
| "unfreed (ev # evs) key e s \<longleftrightarrow>
     uuid_fresh ev (rm_reg s) \<and> \<not> frees ev key e \<and> unfreed evs key e (reg_step ev s)"

lemma run_keeps_entry:
  "unfreed evs key e s \<Longrightarrow> rm_ok s \<Longrightarrow> map_of (pr_entries (rm_reg s)) key = Some e \<Longrightarrow>
   pe_resolving e = Some i \<Longrightarrow>
   rm_ok (fold reg_step evs s) \<and> map_of (pr_entries (rm_reg (fold reg_step evs s))) key = Some e"
proof (induction evs arbitrary: s)
  case (Cons ev evs)
  then have f: "uuid_fresh ev (rm_reg s)" "\<not> frees ev key e" "unfreed evs key e (reg_step ev s)" by simp_all
  from Cons.IH [OF f(3) reg_step_ok [OF Cons.prems(2) f(1)]
      step_keeps_entry [OF Cons.prems(2) f(1) Cons.prems(3,4) f(2)] Cons.prems(4)]
  show ?case by simp
qed simp

section \<open>What the app's answer does to the requests\<close>

lemma settle_where_lookup:
  "settle_where P mk reg = (reg', eff) \<Longrightarrow>
   map_of (pr_requests reg') i =
     map_option (\<lambda>r. if P r then fst (settle_record (mk r) r) else r) (map_of (pr_requests reg) i)"
  by (auto simp: settle_where_def map_of_map_value)

lemma settle_one_lookup:
  "settle_one j mk reg = (reg', eff) \<Longrightarrow>
   map_of (pr_requests reg') i =
     map_option (\<lambda>r. if rq_id r = j then fst (settle_record (mk r) r) else r) (map_of (pr_requests reg) i)"
  unfolding settle_one_def by (rule settle_where_lookup)

lemma settle_record_fields [simp]:
  "rq_key (fst (settle_record out r)) = rq_key r" "rq_id (fst (settle_record out r)) = rq_id r"
  "rq_outcome (fst (settle_record out r)) = (case rq_outcome r of None \<Rightarrow> Some out | Some x \<Rightarrow> Some x)"
  by (auto simp: settle_record_def split: option.split)

lemma find_SomeD: "find P xs = Some x \<Longrightarrow> P x \<and> x \<in> set xs"
  by (induction xs) (auto split: if_splits)

lemma correlate_known:
  assumes ok: "requests_ok reg" and c: "correlate run p i echoes act reg = Some r"
  shows "map_of (pr_requests reg) (rq_id r) = Some r \<and> rq_key r = keyOf run p"
proof (cases i)
  case (Some j)
  then have "map_of (pr_requests reg) j = Some r" "rq_key r = keyOf run p"
    using c by (auto simp: correlate_def Let_def split: option.splits if_splits)
  then show ?thesis using requests_key [OF ok, of j r] by (simp add: req_ok_def)
next
  case None
  have key: "rq_key r = keyOf run p" and src: "(\<exists>j. map_of (pr_requests reg) j = Some r) \<or> r \<in> snd ` set (pr_requests reg)"
    using c None by (auto simp: correlate_def Let_def dest!: find_SomeD split: option.splits if_splits)
  have "\<exists>j. map_of (pr_requests reg) j = Some r"
    using src ok by (force simp: requests_ok_def intro: map_of_is_SomeI)
  then show ?thesis using key requests_key [OF ok] by (auto simp: req_ok_def)
qed

lemma resumed_requests:
  assumes ok: "reg_ok reg" and op: "reg_resumed run p i echoes act reg = (reg', eff)"
    and r: "map_of (pr_requests reg) j = Some r"
  shows "\<exists>r'. map_of (pr_requests reg') j = Some r' \<and>
    rq_outcome r' =
      (if rq_outcome r \<noteq> None then rq_outcome r
       else if map_option rq_id (correlate run p i echoes act reg) = Some j then Some (resumed_answer run p r)
       else if rq_key r = keyOf run p then Some (superseded_answer run p r) else None)"
  using op
proof (rule reg_resumed_stages)
  fix reg3 eff3 eff4
  assume s3: "(case correlate run p i echoes act reg of
        None \<Rightarrow> (closed_key (keyOf run p) reg, [])
      | Some c \<Rightarrow> settle_one (rq_id c) (resumed_answer run p) (closed_key (keyOf run p) reg)) = (reg3, eff3)"
    and s4: "settle_where (\<lambda>r. rq_key r = keyOf run p \<and> rq_outcome r = None) (superseded_answer run p) reg3 = (reg', eff4)"
  have rok: "requests_ok reg" using ok by (simp add: reg_ok_def)
  have id: "rq_id r = j" using requests_key [OF rok r] by (simp add: req_ok_def)
  show ?thesis
  proof (cases "correlate run p i echoes act reg")
    case None
    then have "map_of (pr_requests reg3) j = Some r" using s3 r by auto
    then show ?thesis using settle_where_lookup [OF s4, of j] None by (auto split: option.split)
  next
    case (Some c)
    note ck = correlate_known [OF rok Some]
    have s3': "settle_one (rq_id c) (resumed_answer run p) (closed_key (keyOf run p) reg) = (reg3, eff3)"
      using s3 Some by simp
    define r3 where "r3 = (if rq_id r = rq_id c then fst (settle_record (resumed_answer run p r) r) else r)"
    have r3: "map_of (pr_requests reg3) j = Some r3"
      using settle_one_lookup [OF s3', of j] r by (simp add: r3_def)
    have "rq_id c = j \<Longrightarrow> rq_key r = keyOf run p" using ck r by auto
    then show ?thesis
      using settle_where_lookup [OF s4, of j] r3 id Some
      by (auto simp: r3_def superseded_answer_def answer_def split: option.split)
  qed
qed

section \<open>Properties\<close>

text \<open>
  C17: The hub is a fair referee: first writer wins. Once a resume request has claimed an open
  pause, then for as long as nothing frees that pause (the app's answer, its run or its owner
  going away, the resolving timeout, the claim's own abort, shutdown), whatever else happens
  (other pauses, other requests, deadlines, listeners), every further resume for it is turned
  away as \<open>taken\<close> and changes nothing.
\<close>

theorem first_writer_wins:
  assumes "reg_reach m s" and "reg_begin a uuid now (rm_reg s) = (reg', eff, B_claimed i)"
    and "uuid_fresh (Rv_begin a uuid now) (rm_reg s)"
    and "map_of (pr_entries reg') (keyOf (ba_runId a) (ba_pauseId a)) = Some e"
    and "unfreed evs (keyOf (ba_runId a) (ba_pauseId a)) e (reg_step (Rv_begin a uuid now) s)"
    and "ba_runId b = ba_runId a" and "ba_pauseId b = ba_pauseId a"
  shows "pe_resolving e = Some i \<and>
    (let reg = rm_reg (fold reg_step evs (reg_step (Rv_begin a uuid now) s))
     in reg_begin b uuid' now' reg = (reg, [], B_taken))"
proof -
  let ?key = "keyOf (ba_runId a) (ba_pauseId a)" and ?s1 = "reg_step (Rv_begin a uuid now) s"
  have ok: "rm_ok s" by (rule reg_reach_ok [OF assms(1)])
  have ok1: "rm_ok ?s1" by (rule reg_step_ok [OF ok assms(3)])
  have reg1: "rm_reg ?s1 = reg'" using assms(2) by simp
  have res: "pe_resolving e = Some i"
    using assms(2)
  proof (cases rule: reg_begin_cases)
    case (recorded reg1 eff1 d reg2)
    then show ?thesis using assms(4) by (auto simp: put_entry_def)
  qed simp_all
  have "map_of (pr_entries (rm_reg (fold reg_step evs ?s1))) ?key = Some e"
    using run_keeps_entry [OF assms(5) ok1 _ res] assms(4) reg1 by simp
  then show ?thesis using res assms(6,7) by (simp add: reg_begin_def Let_def)
qed

definition sample_info :: "nat pause_info" where
  "sample_info =
     \<lparr>pi_runId = ''r'', pi_pauseId = ''p'', pi_nodeId = ''n'', pi_point = Before, pi_reason = None,
      pi_smart = None, pi_loop = None, pi_editable = Some True, pi_since = 3, pi_app = None\<rparr>"

definition sample_begin :: "ident option \<Rightarrow> principal \<Rightarrow> nat begin_args" where
  "sample_begin rid pr =
     \<lparr>ba_runId = ''r'', ba_pauseId = ''p'', ba_principal = pr, ba_operator = None, ba_requestId = rid,
      ba_owner = 1, ba_action = Some Act_continue, ba_deadlineMs = None\<rparr>"

definition sample_reg :: "(nat, nat) reg_machine" where
  "sample_reg = reg_step (Rv_open 1 sample_info) (reg_machine_new None)"

lemma sample_reg_reach: "reg_reach None sample_reg"
  unfolding sample_reg_def by (rule reg_reach.step [OF reg_reach.start]) simp

lemma first_writer_wins_witness:
  "let reg = rm_reg (fold reg_step [Rv_when ''a1'' None 5, Rv_deadline ''a1'' 6, Rv_closeRun ''other'']
               (reg_step (Rv_begin (sample_begin (Some ''a1'') P_viewer) ''u1'' 4) sample_reg))
   in reg_begin (sample_begin (Some ''b1'') P_agent) ''u2'' 7 reg = (reg, [], B_taken)"
proof -
  let ?a = "sample_begin (Some ''a1'') P_viewer"
  obtain reg' eff res where b: "reg_begin ?a ''u1'' 4 (rm_reg sample_reg) = (reg', eff, res)" by (metis prod_cases3)
  have res: "snd (snd (reg_begin ?a ''u1'' 4 (rm_reg sample_reg))) = B_claimed ''a1''" by code_simp
  let ?e = "\<lparr>pe_info = sample_info, pe_owner = 1, pe_resolving = Some ''a1'', pe_timer = Some ''a1''\<rparr>"
  have e: "map_of (pr_entries (fst (reg_begin ?a ''u1'' 4 (rm_reg sample_reg)))) (keyOf (ba_runId ?a) (ba_pauseId ?a)) = Some ?e"
    by code_simp
  have u: "unfreed [Rv_when ''a1'' None 5, Rv_deadline ''a1'' 6, Rv_closeRun ''other''] (keyOf (ba_runId ?a) (ba_pauseId ?a)) ?e
      (reg_step (Rv_begin ?a ''u1'' 4) sample_reg)"
    and f: "uuid_fresh (Rv_begin ?a ''u1'' 4) (rm_reg sample_reg)"
    and k: "ba_runId (sample_begin (Some ''b1'') P_agent) = ba_runId ?a"
      "ba_pauseId (sample_begin (Some ''b1'') P_agent) = ba_pauseId ?a"
    by code_simp+
  have "reg_begin ?a ''u1'' 4 (rm_reg sample_reg) = (reg', eff, B_claimed ''a1'')" using b res by simp
  from first_writer_wins [OF sample_reg_reach this f _ u k] e b show ?thesis by simp
qed

text \<open>
  C20: Every waiter is answered, and only once. In any run of the registry a listener taken on
  for a known request is called once, or was withdrawn by its caller, or is still waiting,
  never two of these; a listener of nobody is never called; and after a shutdown nobody is
  still waiting.
\<close>

theorem every_waiter_answered_once:
  assumes "reg_reach m s"
  shows "answered l (rm_log s) + count_list (rm_dropped s) l + waiting l (rm_reg s)
      = (if l \<in> set (rm_asked s) then 1 else 0) \<and>
    waiting l (rm_reg (reg_step Rv_dispose s)) = 0"
proof -
  have ok: "rm_ok s" by (rule reg_reach_ok [OF assms])
  have "count_list (rm_asked s) l \<le> 1" using ok by (simp add: rm_ok_def)
  moreover have "l \<in> set (rm_asked s) \<longleftrightarrow> count_list (rm_asked s) l \<noteq> 0" by (simp add: count_list_0_iff)
  ultimately have one: "count_list (rm_asked s) l = (if l \<in> set (rm_asked s) then 1 else 0)"
    by (auto simp: le_Suc_eq)
  obtain reg2 eff2 where d: "reg_dispose (rm_reg s) = (reg2, eff2)" by fastforce
  have "rq_listeners r = []" if "(k, r) \<in> set (pr_requests reg2)" for k r
  proof -
    have "requests_ok reg2" using reg_dispose_ok [OF d] ok by (simp add: rm_ok_def reg_ok_def)
    moreover have "rq_outcome r \<noteq> None"
      using that d by (auto simp: reg_dispose_def Let_def settle_where_def split: if_splits option.splits)
    ultimately show ?thesis using that by (auto simp: requests_ok_def req_ok_def)
  qed
  then have "waiting l reg2 = 0" by (auto simp: waiting_def)
  then show ?thesis using ok one d unfolding rm_ok_def by simp
qed

lemma every_waiter_answered_once_witness:
  "answered 0 (rm_log (fold reg_step
     [Rv_begin (sample_begin None P_agent) ''u1'' 4, Rv_when ''u1'' (Some 9) 5,
      Rv_resumed ''r'' ''p'' (Some ''u1'') True None] sample_reg)) = 1"
proof -
  let ?evs = "[Rv_begin (sample_begin None P_agent) ''u1'' 4, Rv_when ''u1'' (Some 9) 5,
      Rv_resumed ''r'' ''p'' (Some ''u1'') True None]"
  let ?s = "fold reg_step ?evs sample_reg"
  have "reg_reach None ?s"
    using sample_reg_reach
    by (auto intro!: reg_reach.step simp del: reg_step.simps) code_simp
  note t = every_waiter_answered_once [OF this, of 0]
  have "0 \<in> set (rm_asked ?s)" "rm_dropped ?s = []" "waiting 0 (rm_reg ?s) = 0" by code_simp+
  with t show ?thesis by simp
qed

text \<open>
  C25: The app's answer decides every request. After an \<open>exec.resumed\<close> was stored the pause is
  gone and known closed, so a later resume for it is turned away as \<open>closed\<close>; no request for it
  is left unanswered; the request it is attributed to, and no other, won, with the principal
  that made it; every other request still waiting on the pause was superseded; and no
  answer given before is changed, nor any request for another pause.
\<close>

theorem resumed_decides_every_request:
  assumes "reg_reach m s" and "reg_resumed run p i echoes act (rm_reg s) = (reg', eff)"
    and "map_of (pr_requests (rm_reg s)) j = Some r"
  shows "map_of (pr_entries reg') (keyOf run p) = None \<and> isKnownClosed run p reg' \<and>
    (\<exists>r'. map_of (pr_requests reg') j = Some r' \<and>
       rq_outcome r' =
         (if rq_outcome r \<noteq> None then rq_outcome r
          else if map_option rq_id (correlate run p i echoes act (rm_reg s)) = Some j
               then Some (resumed_answer run p r)
          else if rq_key r = keyOf run p then Some (superseded_answer run p r) else None))"
proof -
  have ok: "reg_ok (rm_reg s)" using reg_reach_ok [OF assms(1)] by (simp add: rm_ok_def)
  have es: "pr_entries reg' = pr_entries (closed_key (keyOf run p) (rm_reg s))"
    by (rule reg_resumed_entries [OF assms(2)])
  have "pr_closed reg' = pr_closed (closed_key (keyOf run p) (rm_reg s))"
    using assms(2)
  proof (rule reg_resumed_stages)
    fix reg3 eff3 eff4
    assume a: "(case correlate run p i echoes act (rm_reg s) of
        None \<Rightarrow> (closed_key (keyOf run p) (rm_reg s), [])
      | Some c \<Rightarrow> settle_one (rq_id c) (resumed_answer run p) (closed_key (keyOf run p) (rm_reg s))) = (reg3, eff3)"
      and b: "settle_where (\<lambda>r. rq_key r = keyOf run p \<and> rq_outcome r = None) (superseded_answer run p) reg3 = (reg', eff4)"
    have "pr_closed reg3 = pr_closed (closed_key (keyOf run p) (rm_reg s))"
      using a by (auto simp: settle_one_def settle_where_def split: option.splits)
    then show ?thesis using b by (auto simp: settle_where_def)
  qed
  moreover have "map_of (pr_closed (closed_key (keyOf run p) (rm_reg s))) (keyOf run p) = Some ()"
    unfolding closed_key_def
    by (rule markClosed_ok(2)) (use drop_old_ok [OF ok, of "keyOf run p"] in \<open>simp_all add: reg_ok_split\<close>)
  ultimately show ?thesis
    using resumed_requests [OF ok assms(2,3)] es
    by (simp add: closed_key_entries isKnownClosed_def)
qed

definition raced_reg :: "(nat, nat) reg_machine" where
  "raced_reg = fold reg_step
     [Rv_begin (sample_begin (Some ''a1'') P_viewer) ''u1'' 4, Rv_resolving (keyOf ''r'' ''p''),
      Rv_begin (sample_begin (Some ''b1'') P_agent) ''u2'' 9] sample_reg"

lemma raced_reg_reach: "reg_reach None raced_reg"
  unfolding raced_reg_def using sample_reg_reach
  by (auto intro!: reg_reach.step simp del: reg_step.simps) code_simp+

lemma resumed_decides_every_request_witness:
  "map_option (\<lambda>r. map_option oc_outcome (rq_outcome r))
     (map_of (pr_requests (fst (reg_resumed ''r'' ''p'' (Some ''a1'') True None (rm_reg raced_reg)))) ''b1'')
   = Some (Some Ok_taken)"
proof -
  obtain reg' eff where op: "reg_resumed ''r'' ''p'' (Some ''a1'') True None (rm_reg raced_reg) = (reg', eff)"
    by fastforce
  have "map_option rq_key (map_of (pr_requests (rm_reg raced_reg)) ''b1'') = Some (keyOf ''r'' ''p'')"
    and "map_option rq_outcome (map_of (pr_requests (rm_reg raced_reg)) ''b1'') = Some None"
    by code_simp+
  then obtain r where r: "map_of (pr_requests (rm_reg raced_reg)) ''b1'' = Some r"
    "rq_key r = keyOf ''r'' ''p''" "rq_outcome r = None" by auto
  have "map_option rq_id (correlate ''r'' ''p'' (Some ''a1'') True None (rm_reg raced_reg)) = Some ''a1''"
    by code_simp
  with resumed_decides_every_request [OF raced_reg_reach op r(1)] r op show ?thesis
    by (auto simp: superseded_answer_def answer_def)
qed

text \<open>
  C38: The registry's books always balance: the counter of each owner is the number of entries it
  owns and never over its cap, no pause is both held and known closed, the remembered closed
  pauses and requests are bounded, an answered request has no listener and no deadline left.
\<close>

theorem registry_books_balance:
  assumes "reg_reach m s"
  shows "let reg = rm_reg s in
    (\<forall>o'. countFor o' reg = length (filter (\<lambda>ke. pe_owner (snd ke) = o') (pr_entries reg)) \<and>
          countFor o' reg \<le> pr_maxPerOwner reg) \<and>
    (\<forall>k. map_of (pr_entries reg) k \<noteq> None \<longrightarrow> map_of (pr_closed reg) k = None) \<and>
    length (pr_closed reg) \<le> 10000 \<and> length (pr_requests reg) \<le> 1000 \<and>
    (\<forall>i r. map_of (pr_requests reg) i = Some r \<longrightarrow> rq_id r = i \<and>
       (rq_outcome r \<noteq> None \<longrightarrow> rq_listeners r = [] \<and> rq_deadline r = None))"
proof -
  have ok: "reg_ok (rm_reg s)" using reg_reach_ok [OF assms] by (simp add: rm_ok_def)
  have "rq_id r = i \<and> (rq_outcome r \<noteq> None \<longrightarrow> rq_listeners r = [] \<and> rq_deadline r = None)"
    if "map_of (pr_requests (rm_reg s)) i = Some r" for i r
    using requests_key [OF _ that] ok by (auto simp: req_ok_def reg_ok_def)
  then show ?thesis
    using ok unfolding reg_ok_def counts_ok_def closed_ok_def owned_def Let_def MAX_CLOSED_def MAX_REQUESTS_def
    by metis
qed

lemma registry_books_balance_witness:
  "countFor 1 (rm_reg raced_reg) = length (filter (\<lambda>ke. pe_owner (snd ke) = 1) (pr_entries (rm_reg raced_reg)))"
  using registry_books_balance [OF raced_reg_reach] unfolding Let_def by blast

text \<open>
  An echoed request id counts only for the pause it was issued for: whatever id an app sends
  with an \<open>exec.resumed\<close>, the principal stamped on it is that of a request made for this very
  run and pause (run ids without the separator), so an app cannot borrow another run's request;
  and an app that echoes ids and sends none is credited to nobody.
\<close>

theorem attribution_is_for_this_pause:
  assumes "reg_reach m s" and "reg_attribution run p i echoes act (rm_reg s) = Some att"
    and "CHR 0x00 \<notin> set run"
    and "\<forall>j r. map_of (pr_requests (rm_reg s)) j = Some r \<longrightarrow> CHR 0x00 \<notin> set (rq_runId r)"
  shows "(echoes \<longrightarrow> i \<noteq> None) \<and> (\<exists>r. map_of (pr_requests (rm_reg s)) (at_requestId att) = Some r \<and>
    rq_runId r = run \<and> rq_pauseId r = p \<and> at_principal att = rq_principal r \<and>
    (i \<noteq> None \<longrightarrow> i = Some (at_requestId att)))"
proof -
  have ok: "requests_ok (rm_reg s)" using reg_reach_ok [OF assms(1)] by (simp add: rm_ok_def reg_ok_def)
  obtain r where c: "correlate run p i echoes act (rm_reg s) = Some r"
    and at: "at_requestId att = rq_id r" "at_principal att = rq_principal r"
    using assms(2) by (auto simp: reg_attribution_def)
  note k = correlate_known [OF ok c]
  have "rq_key r = keyOf (rq_runId r) (rq_pauseId r)"
    using requests_key [OF ok conjunct1 [OF k]] by (simp add: req_ok_def)
  then have eq: "rq_runId r @ CHR 0x00 # rq_pauseId r = run @ CHR 0x00 # p" using k by (simp add: keyOf_def)
  have n: "CHR 0x00 \<notin> set (rq_runId r)" using assms(4) k by blast
  have tw: "takeWhile (\<lambda>c. c \<noteq> CHR 0x00) (x @ CHR 0x00 # y) = x" if "CHR 0x00 \<notin> set x" for x y :: string
    using that by (auto simp: takeWhile_append2 takeWhile_tail)
  have "rq_runId r = run" using arg_cong [OF eq, of "takeWhile (\<lambda>c. c \<noteq> CHR 0x00)"] n assms(3) by (simp add: tw)
  moreover from this eq have "rq_pauseId r = p" by simp
  moreover have "i \<noteq> None \<longrightarrow> i = Some (rq_id r)"
  proof
    assume "i \<noteq> None"
    then obtain j where j: "i = Some j" by blast
    then have "map_of (pr_requests (rm_reg s)) j = Some r"
      using c by (auto simp: correlate_def Let_def split: option.splits if_splits)
    then show "i = Some (rq_id r)" using requests_key [OF ok] j by (auto simp: req_ok_def)
  qed
  moreover have "echoes \<longrightarrow> i \<noteq> None" using c by (cases i) (auto simp: correlate_def Let_def)
  ultimately show ?thesis using k at by simp
qed

lemma attribution_is_for_this_pause_witness:
  "map_option at_requestId (reg_attribution ''r'' ''p'' (Some ''a1'') True None (rm_reg raced_reg)) = Some ''a1''"
proof -
  have "reg_attribution ''r'' ''p'' (Some ''a1'') True None (rm_reg raced_reg) \<noteq> None" by code_simp
  then obtain att where at: "reg_attribution ''r'' ''p'' (Some ''a1'') True None (rm_reg raced_reg) = Some att" by blast
  have "\<forall>jr \<in> set (pr_requests (rm_reg raced_reg)). CHR 0x00 \<notin> set (rq_runId (snd jr))" by code_simp
  then have "\<forall>j r. map_of (pr_requests (rm_reg raced_reg)) j = Some r \<longrightarrow> CHR 0x00 \<notin> set (rq_runId r)"
    by (metis map_of_SomeD snd_conv)
  from attribution_is_for_this_pause [OF raced_reg_reach at _ this] at show ?thesis by auto
qed

text \<open>
  A resolving pause never wedges. Whatever happens after a claim that does not free the
  pause, the resolving timeout is still armed for that claim; when it fires the pause is open
  again, and the next resume request for it (of a caller not asking for an id already in use)
  claims it.
\<close>

theorem resolving_never_wedges:
  assumes "reg_reach m s" and "reg_begin a uuid now (rm_reg s) = (reg', eff, B_claimed i)"
    and "uuid_fresh (Rv_begin a uuid now) (rm_reg s)"
    and "map_of (pr_entries reg') (keyOf (ba_runId a) (ba_pauseId a)) = Some e"
    and "unfreed evs (keyOf (ba_runId a) (ba_pauseId a)) e (reg_step (Rv_begin a uuid now) s)"
    and "ba_runId b = ba_runId a" and "ba_pauseId b = ba_pauseId a"
  shows "\<exists>j. snd (snd (reg_begin b uuid' now'
      (fst (resolving_fires (keyOf (ba_runId a) (ba_pauseId a))
        (rm_reg (fold reg_step evs (reg_step (Rv_begin a uuid now) s))))))) = B_claimed j"
proof -
  let ?key = "keyOf (ba_runId a) (ba_pauseId a)" and ?s1 = "reg_step (Rv_begin a uuid now) s"
  have ok: "rm_ok s" by (rule reg_reach_ok [OF assms(1)])
  have ok1: "rm_ok ?s1" by (rule reg_step_ok [OF ok assms(3)])
  have res: "pe_resolving e = Some i \<and> pe_timer e = Some i"
    using assms(2)
  proof (cases rule: reg_begin_cases)
    case (recorded reg1 eff1 d reg2)
    then show ?thesis using assms(4) by (auto simp: put_entry_def)
  qed simp_all
  let ?reg = "rm_reg (fold reg_step evs ?s1)"
  have "map_of (pr_entries ?reg) ?key = Some e"
    using run_keeps_entry [OF assms(5) ok1 _ conjunct1 [OF res]] assms(2,4) by simp
  then have e: "map_of (pr_entries (fst (resolving_fires ?key ?reg))) ?key = Some (reopen_entry e)"
    using res by (simp add: resolving_fires_def Let_def put_entry_def)
  obtain r2 eff2 res2 where b: "reg_begin b uuid' now' (fst (resolving_fires ?key ?reg)) = (r2, eff2, res2)"
    by (metis prod_cases3)
  then show ?thesis
  proof (cases rule: reg_begin_cases)
    case turned_away
    then show ?thesis using e assms(6,7) by (auto simp: reopen_entry_def)
  next
    case (recorded reg1 eff1 d reg2)
    then show ?thesis using e b assms(6,7) by (auto simp: reopen_entry_def)
  qed
qed

lemma resolving_never_wedges_witness:
  "\<exists>j. snd (snd (reg_begin (sample_begin None P_agent) ''u2'' 9000
      (fst (resolving_fires (keyOf ''r'' ''p'')
        (rm_reg (fold reg_step [Rv_touch] (reg_step (Rv_begin (sample_begin (Some ''a1'') P_viewer) ''u1'' 4) sample_reg)))))))
   = B_claimed j"
proof -
  let ?a = "sample_begin (Some ''a1'') P_viewer"
  obtain reg' eff res where b: "reg_begin ?a ''u1'' 4 (rm_reg sample_reg) = (reg', eff, res)" by (metis prod_cases3)
  have res: "snd (snd (reg_begin ?a ''u1'' 4 (rm_reg sample_reg))) = B_claimed ''a1''" by code_simp
  let ?e = "\<lparr>pe_info = sample_info, pe_owner = 1, pe_resolving = Some ''a1'', pe_timer = Some ''a1''\<rparr>"
  have e: "map_of (pr_entries (fst (reg_begin ?a ''u1'' 4 (rm_reg sample_reg)))) (keyOf (ba_runId ?a) (ba_pauseId ?a)) = Some ?e"
    by code_simp
  have u: "unfreed [Rv_touch] (keyOf (ba_runId ?a) (ba_pauseId ?a)) ?e (reg_step (Rv_begin ?a ''u1'' 4) sample_reg)"
    and f: "uuid_fresh (Rv_begin ?a ''u1'' 4) (rm_reg sample_reg)"
    and k: "ba_runId (sample_begin None P_agent) = ba_runId ?a" "ba_pauseId (sample_begin None P_agent) = ba_pauseId ?a"
    and key: "keyOf (ba_runId ?a) (ba_pauseId ?a) = keyOf ''r'' ''p''"
    by code_simp+
  have "reg_begin ?a ''u1'' 4 (rm_reg sample_reg) = (reg', eff, B_claimed ''a1'')" using b res by simp
  from resolving_never_wedges [OF sample_reg_reach this f _ u k] e b key show ?thesis by simp
qed

text \<open>
  \<open>whenAnswered\<close> re-arms the deadline of a waiting request at now plus the delay it is given,
  whatever the deadline was: the new deadline is later than the old one exactly when the
  delay reaches beyond it, and is earlier otherwise.
\<close>

theorem whenAnswered_rearms_deadline:
  assumes "reg_reach m s" and "map_of (pr_requests (rm_reg s)) i = Some r" and "rq_outcome r = None"
    and "\<not> pr_disposed (rm_reg s)"
  shows "map_option rq_deadline
      (map_of (pr_requests (fst (whenAnswered i l (Some ms) now (rm_reg s)))) i) = Some (Some (now + ms, ms))"
proof -
  have "requests_ok (rm_reg s)" using reg_reach_ok [OF assms(1)] by (simp add: rm_ok_def reg_ok_def)
  from requests_key [OF this assms(2)] have "rq_id r = i" by (simp add: req_ok_def)
  then show ?thesis
    using assms(2-4) by (simp add: whenAnswered_def on_request_def map_of_map_value armDeadline_def)
qed

lemma whenAnswered_rearms_deadline_witness:
  "map_option rq_deadline (map_of (pr_requests (rm_reg raced_reg)) ''b1'') = Some (Some (30009, 30000)) \<and>
   map_option rq_deadline
     (map_of (pr_requests (fst (whenAnswered ''b1'' 7 (Some 5000) 10 (rm_reg raced_reg)))) ''b1'')
   = Some (Some (5010, 5000))"
proof -
  have d: "map_option rq_deadline (map_of (pr_requests (rm_reg raced_reg)) ''b1'') = Some (Some (30009, 30000))"
    and "map_option rq_outcome (map_of (pr_requests (rm_reg raced_reg)) ''b1'') = Some None"
    and nd: "\<not> pr_disposed (rm_reg raced_reg)"
    by code_simp+
  then obtain r where r: "map_of (pr_requests (rm_reg raced_reg)) ''b1'' = Some r" "rq_outcome r = None" by auto
  from whenAnswered_rearms_deadline [OF raced_reg_reach r nd, of 7 5000 10] d show ?thesis by simp
qed

end
