(* ===== verification/Js_Value.thy ===== *)
theory Js_Value
  imports Js_Text Ring_Buffer
begin

text \<open>
  The JavaScript values a host program hands to the client: tool inputs, results, validator
  verdicts. Objects live in a heap and are referred to by address, so that sharing and cycles
  can be said. Reading a property can throw (a getter, a Proxy trap), every operation on a
  revoked Proxy throws, and \<open>toJSON\<close> is a method whose outcome the heap records. Reads are
  pure: a getter that answers differently the second time is outside the model.

  \<open>stringify\<close> is \<open>JSON.stringify\<close> on these values, \<open>json\<close> the trees its text describes.
\<close>

section \<open>Values and objects\<close>

type_synonym addr = nat

datatype js =
    JUndef
  | JNull
  | JBool bool
  | JNum jsnum
  | JBig int
  | JStr jstr
  | JSym nat
  | JFun
  | JObj addr

datatype js_slot = Slot js | Throwing

datatype js_proto = Object_proto | Null_proto | Other_proto

datatype js_toJSON = No_toJSON | Reading_throws | Call_throws | Call_gives js

text \<open>
  \<open>jo_own\<close>: own enumerable string-keyed properties in their order (without the indices of an
  array); \<open>jo_hidden\<close>: own properties that are not enumerable; \<open>jo_inherited\<close>: what the
  prototype chain answers; \<open>jo_items\<close>: the elements of an array, holes read as undefined.
\<close>

record js_object =
  jo_array :: bool
  jo_proto :: js_proto
  jo_own :: "(jstr \<times> js_slot) list"
  jo_hidden :: "(jstr \<times> js_slot) list"
  jo_inherited :: "(jstr \<times> js_slot) list"
  jo_items :: "js_slot list"
  jo_toJSON :: js_toJSON
  jo_revoked :: bool

type_synonym heap = "addr \<Rightarrow> js_object"

definition js_record :: "(jstr \<times> js_slot) list \<Rightarrow> js_object" where
  "js_record own =
     \<lparr>jo_array = False, jo_proto = Object_proto, jo_own = own, jo_hidden = [], jo_inherited = [],
      jo_items = [], jo_toJSON = No_toJSON, jo_revoked = False\<rparr>"

definition js_array :: "js_slot list \<Rightarrow> js_object" where
  "js_array items =
     \<lparr>jo_array = True, jo_proto = Other_proto, jo_own = [], jo_hidden = [], jo_inherited = [],
      jo_items = items, jo_toJSON = No_toJSON, jo_revoked = False\<rparr>"

text \<open>Expressions that can throw give an option: None is a throw.\<close>

fun read_slot :: "js_slot \<Rightarrow> js option" where
  "read_slot (Slot v) = Some v"
| "read_slot Throwing = None"

text \<open>\<open>object[key]\<close> for a key that is not an array index.\<close>

definition get_prop :: "js_object \<Rightarrow> jstr \<Rightarrow> js option" where
  "get_prop ob key =
     (if jo_revoked ob then None
      else case map_of (jo_own ob @ jo_hidden ob @ jo_inherited ob) key of
             None \<Rightarrow> Some JUndef
           | Some s \<Rightarrow> read_slot s)"

definition has_own :: "js_object \<Rightarrow> jstr \<Rightarrow> bool option" where
  "has_own ob key =
     (if jo_revoked ob then None else Some (key \<in> fst ` set (jo_own ob @ jo_hidden ob)))"

text \<open>\<open>key in object\<close>.\<close>

definition has_prop :: "js_object \<Rightarrow> jstr \<Rightarrow> bool option" where
  "has_prop ob key =
     (if jo_revoked ob then None
      else Some (key \<in> fst ` set (jo_own ob @ jo_hidden ob @ jo_inherited ob)))"

definition is_array :: "js_object \<Rightarrow> bool option" where
  "is_array ob = (if jo_revoked ob then None else Some (jo_array ob))"

definition get_proto :: "js_object \<Rightarrow> js_proto option" where
  "get_proto ob = (if jo_revoked ob then None else Some (jo_proto ob))"

definition own_keys :: "js_object \<Rightarrow> jstr list option" where
  "own_keys ob = (if jo_revoked ob then None else Some (map fst (jo_own ob)))"

text \<open>\<open>typeof v\<close> is one of undefined, function, symbol: what JSON leaves out.\<close>

fun json_absent :: "js \<Rightarrow> bool" where
  "json_absent JUndef = True"
| "json_absent JFun = True"
| "json_absent (JSym n) = True"
| "json_absent _ = False"

section \<open>JSON texts\<close>

text \<open>
  The tree a JSON text describes, and its text. \<open>T\<close> is the shortest decimal that reads back as
  the number, as \<open>Number.prototype.toString\<close> gives it.
\<close>

datatype json =
    Jn_null
  | Jn_bool bool
  | Jn_num rat
  | Jn_str jstr
  | Jn_arr "json list"
  | Jn_obj "(jstr \<times> json) list"

fun commas :: "jstr list \<Rightarrow> jstr" where
  "commas [] = []"
| "commas [x] = x"
| "commas (x # y # xs) = x @ [44] @ commas (y # xs)"

definition bool_text :: "bool \<Rightarrow> jstr" where
  "bool_text b = (if b then lit ''true'' else lit ''false'')"

fun print_json :: "(rat \<Rightarrow> jstr) \<Rightarrow> json \<Rightarrow> jstr" where
  "print_json T Jn_null = lit ''null''"
| "print_json T (Jn_bool b) = bool_text b"
| "print_json T (Jn_num q) = T q"
| "print_json T (Jn_str s) = quote s"
| "print_json T (Jn_arr xs) = [91] @ commas (map (print_json T) xs) @ [93]"
| "print_json T (Jn_obj kvs) =
     [123] @ commas (map (\<lambda>kv. quote (fst kv) @ [58] @ print_json T (snd kv)) kvs) @ [125]"

text \<open>What is relied on of the texts of numbers: decimal notation, at most 25 characters.\<close>

definition number_texts :: "(rat \<Rightarrow> jstr) \<Rightarrow> bool" where
  "number_texts T \<longleftrightarrow>
     (\<forall>q. T q \<noteq> [] \<and> length (T q) \<le> 25 \<and> (\<forall>c\<in>set (T q). c \<in> {43, 45, 46, 101} \<or> 48 \<le> c \<and> c \<le> 57))"

section \<open>\<open>JSON.stringify\<close>\<close>

datatype json_result = Jr_throws | Jr_undefined | Jr_tree json

definition call_toJSON :: "heap \<Rightarrow> js \<Rightarrow> js option" where
  "call_toJSON h v =
     (case v of
        JObj a \<Rightarrow>
          (if jo_revoked (h a) then None
           else (case jo_toJSON (h a) of
                   No_toJSON \<Rightarrow> Some v
                 | Call_gives w \<Rightarrow> Some w
                 | _ \<Rightarrow> None))
      | _ \<Rightarrow> Some v)"

fun join_items :: "json_result list \<Rightarrow> json list option" where
  "join_items [] = Some []"
| "join_items (Jr_throws # rs) = None"
| "join_items (Jr_undefined # rs) = map_option ((#) Jn_null) (join_items rs)"
| "join_items (Jr_tree t # rs) = map_option ((#) t) (join_items rs)"

fun join_fields :: "(jstr \<times> json_result) list \<Rightarrow> (jstr \<times> json) list option" where
  "join_fields [] = Some []"
| "join_fields ((k, Jr_throws) # rs) = None"
| "join_fields ((k, Jr_undefined) # rs) = join_fields rs"
| "join_fields ((k, Jr_tree t) # rs) = map_option ((#) (k, t)) (join_fields rs)"

definition as_result :: "('a \<Rightarrow> json) \<Rightarrow> 'a option \<Rightarrow> json_result" where
  "as_result f r = (case r of None \<Rightarrow> Jr_throws | Some x \<Rightarrow> Jr_tree (f x))"

text \<open>
  The value after \<open>toJSON\<close>; \<open>n\<close> is the stack left (running out of it is a RangeError), \<open>seen\<close>
  the objects being written, whose reappearance is a TypeError.
\<close>

fun json_body :: "heap \<Rightarrow> nat \<Rightarrow> addr list \<Rightarrow> js \<Rightarrow> json_result" where
  "json_body h n seen JUndef = Jr_undefined"
| "json_body h n seen JFun = Jr_undefined"
| "json_body h n seen (JSym s) = Jr_undefined"
| "json_body h n seen JNull = Jr_tree Jn_null"
| "json_body h n seen (JBool b) = Jr_tree (Jn_bool b)"
| "json_body h n seen (JNum x) = Jr_tree (case x of Fin q \<Rightarrow> Jn_num q | _ \<Rightarrow> Jn_null)"
| "json_body h n seen (JStr s) = Jr_tree (Jn_str s)"
| "json_body h n seen (JBig i) = Jr_throws"
| "json_body h 0 seen (JObj a) = Jr_throws"
| "json_body h (Suc n) seen (JObj a) =
     (if a \<in> set seen \<or> jo_revoked (h a) then Jr_throws
      else let child = (\<lambda>s. case Option.bind (read_slot s) (call_toJSON h) of
                               None \<Rightarrow> Jr_throws
                             | Some w \<Rightarrow> json_body h n (a # seen) w)
           in if jo_array (h a) then as_result Jn_arr (join_items (map child (jo_items (h a))))
              else as_result Jn_obj (join_fields (map (apsnd child) (jo_own (h a)))))"

definition stringify :: "heap \<Rightarrow> nat \<Rightarrow> js \<Rightarrow> json_result" where
  "stringify h n v =
     (case call_toJSON h v of None \<Rightarrow> Jr_throws | Some w \<Rightarrow> json_body h n [] w)"

text \<open>A tree laid out in the heap, plainly: what \<open>JSON.parse\<close> builds.\<close>

inductive reads_as :: "heap \<Rightarrow> js \<Rightarrow> json \<Rightarrow> bool" where
  reads_null: "reads_as h JNull Jn_null"
| reads_bool: "reads_as h (JBool b) (Jn_bool b)"
| reads_num: "reads_as h (JNum (Fin q)) (Jn_num q)"
| reads_str: "reads_as h (JStr s) (Jn_str s)"
| reads_arr: "\<lbrakk>jo_array (h a); \<not> jo_revoked (h a); jo_toJSON (h a) = No_toJSON;
     list_all2 (\<lambda>s t. \<exists>v. s = Slot v \<and> reads_as h v t) (jo_items (h a)) ts\<rbrakk>
     \<Longrightarrow> reads_as h (JObj a) (Jn_arr ts)"
| reads_obj: "\<lbrakk>\<not> jo_array (h a); \<not> jo_revoked (h a); jo_toJSON (h a) = No_toJSON;
     list_all2 (\<lambda>kv kt. fst kv = fst kt \<and> (\<exists>v. snd kv = Slot v \<and> reads_as h v (snd kt)))
       (jo_own (h a)) kts;
     distinct (map fst kts)\<rbrakk>
     \<Longrightarrow> reads_as h (JObj a) (Jn_obj kts)"

end
