(* ===== verification/Loop_Canon.thy ===== *)
theory Loop_Canon
  imports Js_Value Clock "HOL-Library.Monad_Syntax"
begin

text \<open>
  The first half of \<open>packages/client/src/loop-guard.ts\<close>: the canonical JSON of a call and the
  digests built on it. SHA-256 and HMAC-SHA-256 (first 32 hex characters) and the decimal text
  of a number are parameters, gathered in a record.

  A walk is None when it throws (a getter throws, a Proxy is revoked, or the budget of
  characters is spent). The objects being walked are a list handed down: the code's WeakSet is
  emptied again on the way up, also when a read throws.

  The lemmas show that the canonical text does not depend on the order of an object's keys nor
  on ignored keys, and that two plain JSON inputs have the same canonical text exactly when they
  are the same up to the order of keys.
\<close>

section \<open>Parameters and limits\<close>

record digests =
  dg_number :: "rat \<Rightarrow> jstr"
  dg_sha256 :: "jstr \<Rightarrow> jstr"
  dg_hmac :: "jstr \<Rightarrow> jstr \<Rightarrow> jstr"

definition WALK_DEPTH :: nat where "WALK_DEPTH = 64"
definition MAX_ERROR_TEXT_CHARS :: nat where "MAX_ERROR_TEXT_CHARS = 512"
definition MAX_ERROR_SCAN_CHARS :: nat where "MAX_ERROR_SCAN_CHARS = 1024 * 1024"
definition MAX_OUTPUT_CANONICAL_CHARS :: nat where "MAX_OUTPUT_CANONICAL_CHARS = 256 * 1024"

definition UNREADABLE_INPUT :: js where "UNREADABLE_INPUT = JSym 0"

definition saltedDigest :: "digests \<Rightarrow> jstr \<Rightarrow> jstr \<Rightarrow> jstr" where
  "saltedDigest D text salt = dg_hmac D salt text"

definition errorTextKey :: "jstr \<Rightarrow> jstr" where
  "errorTextKey text =
     (let head = if length text > MAX_ERROR_SCAN_CHARS then take MAX_ERROR_SCAN_CHARS text else text
      in take MAX_ERROR_TEXT_CHARS (units_trim (collapse unit_space head)))"

section \<open>Canonical JSON\<close>

text \<open>\<open>budget\<close>: None is Infinity.\<close>

record canon_context =
  cc_lossy :: bool
  cc_budget :: "nat option"

definition spend :: "nat \<Rightarrow> canon_context \<Rightarrow> canon_context option" where
  "spend chars cx =
     (case cc_budget cx of
        None \<Rightarrow> Some cx
      | Some b \<Rightarrow> if b < chars then None else Some (cx\<lparr>cc_budget := Some (b - chars)\<rparr>))"

definition marker :: "string \<Rightarrow> jstr" where
  "marker name = lit (''\"['' @ name @ '']\"'')"

definition number_text :: "digests \<Rightarrow> jsnum \<Rightarrow> jstr" where
  "number_text D n = (case n of Fin q \<Rightarrow> dg_number D q | _ \<Rightarrow> lit ''null'')"

definition bigint_text :: "int \<Rightarrow> jstr" where
  "bigint_text i = lit ((if i < 0 then ''-'' else []) @ show_nat (nat \<bar>i\<bar>))"

definition sorted_keys :: "js_object \<Rightarrow> jstr list" where
  "sorted_keys ob = sort (map fst (jo_own ob))"

function canon_value ::
    "digests \<Rightarrow> heap \<Rightarrow> jstr set \<Rightarrow> nat \<Rightarrow> addr list \<Rightarrow> js \<Rightarrow> canon_context
       \<Rightarrow> (jstr \<times> canon_context) option"
  and canon_items ::
    "digests \<Rightarrow> heap \<Rightarrow> jstr set \<Rightarrow> nat \<Rightarrow> addr list \<Rightarrow> js_slot list \<Rightarrow> canon_context
       \<Rightarrow> (jstr list \<times> canon_context) option"
  and canon_fields ::
    "digests \<Rightarrow> heap \<Rightarrow> jstr set \<Rightarrow> nat \<Rightarrow> addr list \<Rightarrow> js_object \<Rightarrow> jstr list \<Rightarrow> canon_context
       \<Rightarrow> (jstr list \<times> canon_context) option"
where
  "canon_value D h ig depth seen (JStr s) cx =
     do { cx' \<leftarrow> spend (length s + 1) cx; Some (quote s, cx') }"
| "canon_value D h ig depth seen (JNum n) cx = Some (number_text D n, cx)"
| "canon_value D h ig depth seen (JBool b) cx = Some (bool_text b, cx)"
| "canon_value D h ig depth seen (JBig i) cx = Some (bigint_text i, cx)"
| "canon_value D h ig depth seen JUndef cx = Some (lit ''null'', cx)"
| "canon_value D h ig depth seen JFun cx = Some (lit ''null'', cx)"
| "canon_value D h ig depth seen (JSym s) cx = Some (lit ''null'', cx)"
| "canon_value D h ig depth seen JNull cx = Some (lit ''null'', cx)"
| "canon_value D h ig depth seen (JObj a) cx =
     (if depth > WALK_DEPTH then Some (marker ''depth'', cx)
      else if a \<in> set seen then Some (marker ''circular'', cx)
      else if jo_revoked (h a) then None
      else (case jo_toJSON (h a) of
              Reading_throws \<Rightarrow> None
            | Call_throws \<Rightarrow> Some (marker ''unserializable'', cx\<lparr>cc_lossy := True\<rparr>)
            | Call_gives v \<Rightarrow>
                (if v = JObj a then Some (marker ''unserializable'', cx\<lparr>cc_lossy := True\<rparr>)
                 else canon_value D h ig (Suc depth) seen v cx)
            | No_toJSON \<Rightarrow>
                (if jo_array (h a)
                 then do { (texts, cx') \<leftarrow> canon_items D h ig (Suc depth) (a # seen) (jo_items (h a)) cx;
                           Some ([91] @ commas texts @ [93], cx') }
                 else do { (texts, cx') \<leftarrow> canon_fields D h ig (Suc depth) (a # seen) (h a)
                                               (sorted_keys (h a)) cx;
                           Some ([123] @ commas texts @ [125], cx') })))"
| "canon_items D h ig depth seen [] cx = Some ([], cx)"
| "canon_items D h ig depth seen (s # ss) cx =
     do { cx1 \<leftarrow> spend 1 cx;
          v \<leftarrow> read_slot s;
          (text, cx2) \<leftarrow> canon_value D h ig depth seen v cx1;
          (texts, cx3) \<leftarrow> canon_items D h ig depth seen ss cx2;
          Some (text # texts, cx3) }"
| "canon_fields D h ig depth seen ob [] cx = Some ([], cx)"
| "canon_fields D h ig depth seen ob (key # keys) cx =
     (if key \<in> ig then canon_fields D h ig depth seen ob keys cx
      else do { item \<leftarrow> get_prop ob key;
                if json_absent item then canon_fields D h ig depth seen ob keys cx
                else do { cx1 \<leftarrow> spend (length key + 1) cx;
                          (text, cx2) \<leftarrow> canon_value D h ig depth seen item cx1;
                          (texts, cx3) \<leftarrow> canon_fields D h ig depth seen ob keys cx2;
                          Some ((quote key @ [58] @ text) # texts, cx3) } })"
  by pat_completeness auto
termination
  by (relation "measures [case_sum (\<lambda>(D, h, ig, depth, seen, v, cx). WALK_DEPTH + 2 - depth)
        (case_sum (\<lambda>(D, h, ig, depth, seen, ss, cx). WALK_DEPTH + 2 - depth)
                  (\<lambda>(D, h, ig, depth, seen, ob, ks, cx). WALK_DEPTH + 2 - depth)),
      case_sum (\<lambda>x. 0)
        (case_sum (\<lambda>(D, h, ig, depth, seen, ss, cx). Suc (length ss))
                  (\<lambda>(D, h, ig, depth, seen, ob, ks, cx). Suc (length ks)))]")
    auto

definition canonicalize :: "digests \<Rightarrow> heap \<Rightarrow> js \<Rightarrow> jstr set \<Rightarrow> jstr" where
  "canonicalize D h value ig =
     (case canon_value D h ig 0 [] value \<lparr>cc_lossy = False, cc_budget = None\<rparr> of
        Some (text, cx) \<Rightarrow> text
      | None \<Rightarrow> marker ''unserializable'')"

text \<open>A node id that is not a string is None.\<close>

definition comparableFingerprint :: "digests \<Rightarrow> heap \<Rightarrow> jstr option \<Rightarrow> js \<Rightarrow> jstr set \<Rightarrow> jstr option" where
  "comparableFingerprint D h nodeId input ig =
     (case nodeId of
        None \<Rightarrow> None
      | Some n \<Rightarrow>
          (if input = UNREADABLE_INPUT then None
           else case canon_value D h ig 0 [] input \<lparr>cc_lossy = False, cc_budget = None\<rparr> of
                  None \<Rightarrow> None
                | Some (text, cx) \<Rightarrow>
                    (if cc_lossy cx then None
                     else Some (dg_sha256 D ([91] @ quote n @ [44] @ text @ [93])))))"

definition canonicalCall :: "digests \<Rightarrow> heap \<Rightarrow> jstr \<Rightarrow> js \<Rightarrow> jstr set \<Rightarrow> jstr" where
  "canonicalCall D h n input ig = [91] @ quote n @ [44] @ canonicalize D h input ig @ [93]"

definition fingerprintCall :: "digests \<Rightarrow> heap \<Rightarrow> jstr \<Rightarrow> js \<Rightarrow> jstr set \<Rightarrow> jstr" where
  "fingerprintCall D h n input ig = dg_sha256 D (canonicalCall D h n input ig)"

definition outcomeDigest ::
  "digests \<Rightarrow> heap \<Rightarrow> string \<Rightarrow> js \<Rightarrow> jstr set \<Rightarrow> jstr \<Rightarrow> jstr option" where
  "outcomeDigest D h prefix value ig salt =
     (if value = UNREADABLE_INPUT then None
      else case canon_value D h ig 0 [] value
                  \<lparr>cc_lossy = False, cc_budget = Some MAX_OUTPUT_CANONICAL_CHARS\<rparr> of
             None \<Rightarrow> None
           | Some (text, cx) \<Rightarrow>
               (if cc_lossy cx then None
                else Some (saltedDigest D (lit prefix @ [0] @ text) salt)))"

definition thrownErrorDigest :: "digests \<Rightarrow> jstr \<Rightarrow> jstr \<Rightarrow> jstr \<Rightarrow> jstr" where
  "thrownErrorDigest D name message salt =
     saltedDigest D (lit ''err'' @ [0] @ [91] @ quote (errorTextKey name) @ [44]
                     @ quote (errorTextKey message) @ [93]) salt"

section \<open>The order of keys does not matter\<close>

text \<open>What the walk shows of an own key: nothing for ignored keys and for absent values.\<close>

definition shown :: "jstr set \<Rightarrow> js_object \<Rightarrow> jstr \<Rightarrow> js_slot option" where
  "shown ig ob k =
     (if k \<in> ig then None
      else case map_of (jo_own ob) k of
             None \<Rightarrow> None
           | Some Throwing \<Rightarrow> Some Throwing
           | Some (Slot v) \<Rightarrow> if json_absent v then None else Some (Slot v))"

definition alike_object :: "jstr set \<Rightarrow> js_object \<Rightarrow> js_object \<Rightarrow> bool" where
  "alike_object ig ob ob' \<longleftrightarrow>
     jo_array ob = jo_array ob' \<and> jo_revoked ob = jo_revoked ob' \<and> jo_toJSON ob = jo_toJSON ob'
     \<and> jo_items ob = jo_items ob'
     \<and> distinct (map fst (jo_own ob)) \<and> distinct (map fst (jo_own ob'))
     \<and> shown ig ob = shown ig ob'"

lemma get_own:
  assumes "\<not> jo_revoked ob" and "map_of (jo_own ob) k = Some s"
  shows "get_prop ob k = read_slot s"
  using assms by (simp add: get_prop_def map_add_def)

lemma fields_shown:
  assumes "\<not> jo_revoked ob" and "set ks \<subseteq> fst ` set (jo_own ob)"
  shows "canon_fields D h ig d seen ob ks cx =
         canon_fields D h ig d seen ob (filter (\<lambda>k. shown ig ob k \<noteq> None) ks) cx"
  using assms(2)
proof (induction ks arbitrary: cx)
  case Nil
  then show ?case by simp
next
  case (Cons k ks)
  from Cons.prems obtain s where s: "map_of (jo_own ob) k = Some s"
    using map_of_eq_None_iff [of "jo_own ob" k] by (cases "map_of (jo_own ob) k") auto
  have sub: "set ks \<subseteq> fst ` set (jo_own ob)"
    using Cons.prems by simp
  have get: "get_prop ob k = read_slot s"
    by (rule get_own [OF assms(1) s])
  have sh: "shown ig ob k = (if k \<in> ig then None
      else case s of Throwing \<Rightarrow> Some Throwing | Slot v \<Rightarrow> if json_absent v then None else Some (Slot v))"
    by (simp add: shown_def s)
  show ?case
    by (cases s) (simp_all add: sh get Cons.IH [OF sub])
qed

lemma fields_alike:
  assumes "\<not> jo_revoked ob" and "\<not> jo_revoked ob'"
    and "\<forall>k\<in>set ks. shown ig ob k \<noteq> None \<and> shown ig ob k = shown ig ob' k"
  shows "canon_fields D h ig d seen ob ks cx = canon_fields D h ig d seen ob' ks cx"
  using assms(3)
proof (induction ks arbitrary: cx)
  case Nil
  then show ?case by simp
next
  case (Cons k ks)
  have gp: "get_prop ob k = get_prop ob' k"
    using Cons.prems get_own [OF assms(1)] get_own [OF assms(2)]
    by (auto simp: shown_def split: option.splits js_slot.splits if_splits)
  have IH: "canon_fields D h ig d seen ob ks cx = canon_fields D h ig d seen ob' ks cx" for cx
    by (rule Cons.IH) (use Cons.prems in \<open>metis list.set_intros(2)\<close>)
  show ?case by (auto simp: gp IH intro!: Option.bind_cong)
qed

lemma shown_keys_eq:
  assumes "alike_object ig ob ob'"
  shows "filter (\<lambda>k. shown ig ob k \<noteq> None) (sorted_keys ob) =
         filter (\<lambda>k. shown ig ob' k \<noteq> None) (sorted_keys ob')"
proof (rule sorted_distinct_set_unique)
  have key: "k \<in> fst ` set (jo_own ob)" if "shown ig ob k \<noteq> None" for k ob
    using that map_of_eq_None_iff [of "jo_own ob" k]
    by (auto simp: shown_def split: option.splits if_splits)
  show "set (filter (\<lambda>k. shown ig ob k \<noteq> None) (sorted_keys ob)) =
        set (filter (\<lambda>k. shown ig ob' k \<noteq> None) (sorted_keys ob'))"
    using assms key [of ob] key [of ob'] by (auto simp: sorted_keys_def alike_object_def)
qed (use assms in \<open>simp_all add: sorted_keys_def alike_object_def sorted_wrt_filter\<close>)

lemma own_fields_alike:
  assumes "alike_object ig ob ob'" and "\<not> jo_revoked ob"
  shows "canon_fields D h ig d seen ob (sorted_keys ob) cx =
         canon_fields D h ig d seen ob' (sorted_keys ob') cx"
proof -
  have r: "\<not> jo_revoked ob'" and sh: "shown ig ob = shown ig ob'"
    using assms by (simp_all add: alike_object_def)
  show ?thesis
    using fields_shown [OF assms(2), of "sorted_keys ob"] fields_shown [OF r, of "sorted_keys ob'"]
      fields_alike [OF assms(2) r, of "filter (\<lambda>k. shown ig ob k \<noteq> None) (sorted_keys ob)"]
      shown_keys_eq [OF assms(1)] sh
    by (simp add: sorted_keys_def)
qed

lemma canon_alike:
  assumes "\<forall>a. alike_object ig (h a) (h' a)"
  shows "canon_value D h ig d seen v cx = canon_value D h' ig d seen v cx"
    and "canon_items D h ig d seen ss cx = canon_items D h' ig d seen ss cx"
    and "canon_fields D h ig d seen ob ks cx = canon_fields D h' ig d seen ob ks cx"
  using assms
proof (induction D h ig d seen v cx and D h ig d seen ss cx and D h ig d seen ob ks cx
    rule: canon_value_canon_items_canon_fields.induct)
  case (9 D h ig depth seen a cx)
  then have al: "alike_object ig (h a) (h' a)" by blast
  then have eqs: "jo_array (h' a) = jo_array (h a)" "jo_revoked (h' a) = jo_revoked (h a)"
    "jo_toJSON (h' a) = jo_toJSON (h a)" "jo_items (h' a) = jo_items (h a)"
    by (simp_all add: alike_object_def)
  show ?case
    using 9 own_fields_alike [OF al]
    by (cases "jo_toJSON (h a)") (simp_all add: eqs)
next
  case (11 D h ig depth seen s ss cx)
  then show ?case by (auto simp: bind_eq_Some_conv intro!: Option.bind_cong)
next
  case (13 D h ig depth seen ob key keys cx)
  then show ?case by (auto intro!: Option.bind_cong)
qed simp_all

section \<open>The canonical text says which input it was\<close>

text \<open>The tree of an input without its ignored keys, keys in order.\<close>

fun canon_tree :: "jstr set \<Rightarrow> json \<Rightarrow> json" where
  "canon_tree ig (Jn_arr ts) = Jn_arr (map (canon_tree ig) ts)"
| "canon_tree ig (Jn_obj kts) =
     Jn_obj (sort_key fst (filter (\<lambda>kt. fst kt \<notin> ig) (map (\<lambda>kt. (fst kt, canon_tree ig (snd kt))) kts)))"
| "canon_tree ig t = t"

fun levels :: "json \<Rightarrow> nat" where
  "levels (Jn_arr ts) = Suc (Max (set (0 # map levels ts)))"
| "levels (Jn_obj kts) = Suc (Max (set (0 # map (\<lambda>kt. levels (snd kt)) kts)))"
| "levels t = 0"

fun nodes :: "json \<Rightarrow> nat" where
  "nodes (Jn_arr ts) = Suc (sum_list (map nodes ts))"
| "nodes (Jn_obj kts) = Suc (sum_list (map (\<lambda>kt. nodes (snd kt)) kts))"
| "nodes t = 1"

text \<open>Decimal texts: nonempty, of characters no other JSON token starts or ends with.\<close>

definition decimal_texts :: "(rat \<Rightarrow> jstr) \<Rightarrow> bool" where
  "decimal_texts T \<longleftrightarrow>
     inj T \<and> (\<forall>q. T q \<noteq> [] \<and> (\<forall>c\<in>set (T q). c \<in> {43, 45, 46, 101} \<or> 48 \<le> c \<and> c \<le> 57))"

definition delimited :: "jstr \<Rightarrow> bool" where
  "delimited r \<longleftrightarrow> r = [] \<or> hd r \<in> {44, 93, 125}"

lemma delimited_simps [simp]:
  "delimited []" "delimited (44 # r)" "delimited (93 # r)" "delimited (125 # r)"
  by (simp_all add: delimited_def)

lemma decimal_prefix_free:
  assumes "decimal_texts T" and "T q @ r = T q' @ r'" and "delimited r" and "delimited r'"
  shows "q = q' \<and> r = r'"
proof -
  let ?num = "\<lambda>c. c \<in> {43, 45, 46, 101} \<or> 48 \<le> c \<and> (c :: nat) \<le> 57"
  have stop: "takeWhile ?num (T q @ r) = T q" if "delimited r" for q r
  proof -
    have "takeWhile ?num r = []"
      using that by (cases r) (auto simp: delimited_def)
    moreover have "\<forall>c\<in>set (T q). ?num c"
      using assms(1) unfolding decimal_texts_def by blast
    ultimately show ?thesis
      using takeWhile_append2 [of "T q" ?num r] by (metis append.right_neutral)
  qed
  have "T q = T q'"
    using stop [OF assms(3), of q] stop [OF assms(4), of q'] assms(2) by simp
  with assms(1,2) show ?thesis
    unfolding decimal_texts_def by (auto dest: injD)
qed

lemma commas_Cons: "commas (x # xs) = x @ (if xs = [] then [] else 44 # commas xs)"
  by (cases xs) simp_all

lemma commas_head: "f x \<noteq> [] \<Longrightarrow> hd (commas (map f (x # xs)) @ s) = hd (f x)"
  by (cases "f x") (simp_all add: commas_Cons)

text \<open>Lists of texts that are each prefix-free in front of a delimiter.\<close>

lemma commas_prefix_free:
  assumes "commas (map f xs) @ e # r = commas (map f ys) @ e # r'" and "e \<in> {93, 125}"
    and "\<And>x y s s'. x \<in> set xs \<Longrightarrow> y \<in> set ys \<Longrightarrow> f x @ s = f y @ s' \<Longrightarrow> delimited s \<Longrightarrow> delimited s'
           \<Longrightarrow> x = y \<and> s = s'"
    and "\<And>x. x \<in> set xs \<union> set ys \<Longrightarrow> f x \<noteq> [] \<and> hd (f x) \<notin> {44, 93, 125}"
  shows "xs = ys \<and> r = r'"
  using assms(1,3,4)
proof (induction xs arbitrary: ys)
  case Nil
  then show ?case
    using assms(2) commas_head [of f "hd ys" "tl ys" "e # r'"]
    by (cases ys) (simp_all, metis insert_iff list.sel(1))
next
  case (Cons x xs)
  show ?case
  proof (cases ys)
    case Nil
    with Cons.prems(1) have "commas (map f (x # xs)) @ e # r = e # r'" by simp
    then have "hd (f x) = e"
      using Cons.prems(3) [of x] commas_head [of f x xs "e # r"] by simp
    then show ?thesis
      using Cons.prems(3) [of x] assms(2) by auto
  next
    case (Cons y zs)
    define u where "u = (if xs = [] then [] else 44 # commas (map f xs)) @ e # r"
    define u' where "u' = (if zs = [] then [] else 44 # commas (map f zs)) @ e # r'"
    have "f x @ u = f y @ u'"
      using Cons.prems(1) by (simp add: Cons commas_Cons u_def u'_def)
    moreover have "delimited u" "delimited u'"
      using assms(2) by (auto simp: u_def u'_def delimited_def)
    ultimately have eq: "x = y" "u = u'"
      using Cons.prems(2) [of x y u u'] Cons by auto
    have "xs = [] \<longleftrightarrow> zs = []"
      using eq(2) assms(2) by (auto simp: u_def u'_def split: if_splits)
    then have "commas (map f xs) @ e # r = commas (map f zs) @ e # r'"
      using eq(2) by (auto simp: u_def u'_def split: if_splits)
    then have "xs = zs \<and> r = r'"
      by (rule Cons.IH) (use Cons.prems(2,3) Cons in \<open>(metis list.set_intros(2) | simp)+\<close>)
    with eq(1) Cons show ?thesis by simp
  qed
qed

lemma print_head:
  assumes "decimal_texts T"
  shows "print_json T t \<noteq> [] \<and> hd (print_json T t) \<notin> {44, 93, 125}"
proof (cases t)
  case (Jn_num q)
  have "hd (T q) \<in> set (T q)" "T q \<noteq> []"
    using assms by (simp_all add: decimal_texts_def)
  with assms show ?thesis
    unfolding decimal_texts_def Jn_num by fastforce
qed (auto simp: bool_text_def quote_def)

text \<open>The first character tells the constructor.\<close>

fun head_class :: "json \<Rightarrow> nat set" where
  "head_class Jn_null = {110}"
| "head_class (Jn_bool b) = {if b then 116 else 102}"
| "head_class (Jn_num q) = {43, 45, 46, 101} \<union> {48..57}"
| "head_class (Jn_str s) = {34}"
| "head_class (Jn_arr ts) = {91}"
| "head_class (Jn_obj kts) = {123}"

lemma print_head_class:
  assumes "decimal_texts T"
  shows "hd (print_json T t @ r) \<in> head_class t"
proof (cases t)
  case (Jn_num q)
  have "hd (T q) \<in> set (T q)" "T q \<noteq> []"
    using assms by (simp_all add: decimal_texts_def)
  with assms show ?thesis
    unfolding decimal_texts_def Jn_num by fastforce
qed (auto simp: bool_text_def quote_def)

lemma same_head:
  assumes "decimal_texts T" and "print_json T t @ r = print_json T t' @ r'"
  shows "head_class t \<inter> head_class t' \<noteq> {}"
  using print_head_class [OF assms(1), of t r] print_head_class [OF assms(1), of t' r'] assms(2)
  by (metis disjoint_iff)

definition field_text :: "(rat \<Rightarrow> jstr) \<Rightarrow> jstr \<times> json \<Rightarrow> jstr" where
  "field_text T kv = quote (fst kv) @ [58] @ print_json T (snd kv)"

lemma field_text_prefix_free:
  assumes "field_text T x @ s = field_text T y @ s'" and "delimited s" and "delimited s'"
    and "\<And>r r'. print_json T (snd x) @ r = print_json T (snd y) @ r' \<Longrightarrow> delimited r \<Longrightarrow> delimited r'
           \<Longrightarrow> snd x = snd y \<and> r = r'"
  shows "x = y \<and> s = s'"
  using quote_prefix_free [of "fst x" "58 # print_json T (snd x) @ s" "fst y"
      "58 # print_json T (snd y) @ s'"] assms(1) assms(4) [OF _ assms(2,3)]
  by (auto simp: field_text_def prod_eq_iff)

lemma print_prefix_free:
  assumes "decimal_texts T" and "print_json T t @ r = print_json T t' @ r'"
    and "delimited r" and "delimited r'"
  shows "t = t' \<and> r = r'"
  using assms(2-)
proof (induction t arbitrary: t' r r')
  case (Jn_arr ts)
  note same = same_head [OF assms(1) Jn_arr.prems(1)]
  from same obtain us where t': "t' = Jn_arr us"
    by (cases t') (auto split: if_splits)
  have "ts = us \<and> r = r'"
  proof (rule commas_prefix_free)
    show "commas (map (print_json T) ts) @ 93 # r = commas (map (print_json T) us) @ 93 # r'"
      using Jn_arr.prems(1) t' by simp
  qed (use Jn_arr.IH print_head [OF assms(1)] in auto)
  with t' show ?case by simp
next
  case (Jn_obj kts)
  note same = same_head [OF assms(1) Jn_obj.prems(1)]
  from same obtain us where t': "t' = Jn_obj us"
    by (cases t') (auto split: if_splits)
  have "kts = us \<and> r = r'"
  proof (rule commas_prefix_free)
    show "commas (map (field_text T) kts) @ 125 # r = commas (map (field_text T) us) @ 125 # r'"
      using Jn_obj.prems(1) t' by (simp add: field_text_def [abs_def])
  next
    fix x y s s'
    assume x: "x \<in> set kts" and eq: "field_text T x @ s = field_text T y @ s'"
      and d: "delimited s" "delimited s'"
    show "x = y \<and> s = s'"
      by (rule field_text_prefix_free [OF eq d]) (rule Jn_obj.IH [OF x snds.intros])
  qed (auto simp: field_text_def quote_def)
  with t' show ?case by simp
next
  case (Jn_num q)
  note same = same_head [OF assms(1) Jn_num.prems(1)]
  from same obtain q' where t': "t' = Jn_num q'"
    by (cases t') (auto split: if_splits)
  then show ?case
    using decimal_prefix_free [OF assms(1), of q r q' r'] Jn_num.prems by simp
next
  case (Jn_str s)
  note same = same_head [OF assms(1) Jn_str.prems(1)]
  from same obtain s' where t': "t' = Jn_str s'"
    by (cases t') (auto split: if_splits)
  then show ?case
    using quote_prefix_free [of s r s' r'] Jn_str.prems(1) by simp
next
  case Jn_null
  note same = same_head [OF assms(1) Jn_null.prems(1)]
  from same have "t' = Jn_null"
    by (cases t') (auto split: if_splits)
  with Jn_null.prems(1) show ?case by simp
next
  case (Jn_bool b)
  note same = same_head [OF assms(1) Jn_bool.prems(1)]
  from same have "t' = Jn_bool b"
    by (cases t') (auto split: if_splits)
  with Jn_bool.prems(1) show ?case by simp
qed

lemma list_all2_function:
  assumes "list_all2 P xs ys" and "list_all2 Q xs zs" and "\<And>x y z. P x y \<Longrightarrow> Q x z \<Longrightarrow> y = z"
  shows "ys = zs"
  using assms(1,2)
proof (induction arbitrary: zs rule: list_all2_induct)
  case Nil
  then show ?case by simp
next
  case (Cons x xs y ys)
  then show ?case
    using assms(3) by (auto simp: list_all2_Cons1)
qed

lemma reads_as_function:
  assumes "reads_as h v t" and "reads_as h v t'"
  shows "t = t'"
  using assms
proof (induction arbitrary: t' rule: reads_as.induct)
  case (reads_arr h a ts)
  from reads_arr.prems reads_arr.hyps obtain us where t': "t' = Jn_arr us"
    and us: "list_all2 (\<lambda>s t. \<exists>v. s = Slot v \<and> reads_as h v t) (jo_items (h a)) us"
    by (auto elim: reads_as.cases)
  have "ts = us"
    by (rule list_all2_function [OF reads_arr.IH us]) auto
  with t' show ?case by simp
next
  case (reads_obj h a kts)
  from reads_obj.prems reads_obj.hyps obtain us where t': "t' = Jn_obj us"
    and us: "list_all2 (\<lambda>kv kt. fst kv = fst kt \<and> (\<exists>v. snd kv = Slot v \<and> reads_as h v (snd kt)))
       (jo_own (h a)) us"
    by (auto elim: reads_as.cases)
  have "kts = us"
    by (rule list_all2_function [OF reads_obj.IH us]) (auto simp: prod_eq_iff)
  with t' show ?case by simp
qed (auto elim: reads_as.cases)

lemma sort_key_by_keys:
  assumes "distinct (map fst l)"
  shows "sort_key fst l = map (\<lambda>k. (k, the (map_of l k))) (sort (map fst l))"
proof -
  have "map fst (sort_key fst l) = sort (map fst l)"
    by (rule sorted_distinct_set_unique) (use assms in \<open>auto simp: distinct_map inj_on_def\<close>)
  moreover have "map (\<lambda>k. (k, the (map_of l k))) (map fst (sort_key fst l)) = sort_key fst l"
    unfolding map_map comp_def
    by (rule map_idI) (use assms in \<open>auto simp: prod_eq_iff map_of_eq_Some_iff\<close>)
  ultimately show ?thesis by simp
qed

lemma plain_fields:
  assumes "distinct (map fst kts)"
  shows "canon_tree ig (Jn_obj kts) =
     Jn_obj (map (\<lambda>k. (k, canon_tree ig (the (map_of kts k)))) (filter (\<lambda>k. k \<notin> ig) (sort (map fst kts))))"
proof -
  define l where "l = filter (\<lambda>kt. fst kt \<notin> ig) (map (\<lambda>kt. (fst kt, canon_tree ig (snd kt))) kts)"
  have keys: "map fst l = filter (\<lambda>k. k \<notin> ig) (map fst kts)"
    unfolding l_def by (induction kts) auto
  have d: "distinct (map fst l)"
    using assms by (simp add: keys)
  have "the (map_of l k) = canon_tree ig (the (map_of kts k))" if "k \<in> set (filter (\<lambda>k. k \<notin> ig) (map fst kts))" for k
    using that unfolding l_def by (induction kts) auto
  then have "sort_key fst l = map (\<lambda>k. (k, canon_tree ig (the (map_of kts k)))) (sort (map fst l))"
    unfolding sort_key_by_keys [OF d] by (intro map_cong) (auto simp: keys)
  also have "sort (map fst l) = filter (\<lambda>k. k \<notin> ig) (sort (map fst kts))"
    unfolding keys by (simp add: filter_sort)
  finally show ?thesis by (simp add: l_def)
qed

lemma spend_free [simp]: "cc_budget cx = None \<Longrightarrow> spend n cx = Some cx"
  by (simp add: spend_def)

text \<open>Nothing in the list of objects being walked can come back below it.\<close>

definition above :: "heap \<Rightarrow> addr list \<Rightarrow> nat \<Rightarrow> bool" where
  "above h seen n \<longleftrightarrow> (\<forall>b\<in>set seen. \<exists>tb. reads_as h (JObj b) tb \<and> n < nodes tb)"

lemma above_fresh: "above h seen (nodes t) \<Longrightarrow> reads_as h (JObj a) t \<Longrightarrow> a \<notin> set seen"
  unfolding above_def by (metis less_irrefl reads_as_function)

lemma above_below:
  assumes "above h seen (nodes t)" and "reads_as h (JObj a) t" and "n < nodes t"
  shows "above h (a # seen) n"
  using assms unfolding above_def by (metis less_trans set_ConsD)

lemma member_sum: "x \<in> set xs \<Longrightarrow> f x \<le> sum_list (map f xs)" for f :: "'a \<Rightarrow> nat"
  by (induction xs) auto

lemma plain_items:
  assumes "list_all2 (\<lambda>s t. \<exists>v. s = Slot v
      \<and> (\<forall>cx. cc_budget cx = None \<longrightarrow> canon_value D h ig d seen v cx = Some (g t, cx))) ss ts"
    and "cc_budget cx = None"
  shows "canon_items D h ig d seen ss cx = Some (map g ts, cx)"
  using assms by (induction ss ts rule: list_all2_induct) auto

lemma plain_walk_fields:
  assumes "\<And>k. k \<in> set ks \<Longrightarrow> \<exists>v. get_prop ob k = Some v \<and> \<not> json_absent v
      \<and> (\<forall>cx. cc_budget cx = None \<longrightarrow> canon_value D h ig d seen v cx = Some (g k, cx))"
    and "cc_budget cx = None"
  shows "canon_fields D h ig d seen ob ks cx =
    Some (map (\<lambda>k. quote k @ [58] @ g k) (filter (\<lambda>k. k \<notin> ig) ks), cx)"
  using assms(1)
proof (induction ks)
  case Nil
  then show ?case by simp
next
  case (Cons k ks)
  then obtain v where "get_prop ob k = Some v" "\<not> json_absent v"
    "canon_value D h ig d seen v cx = Some (g k, cx)"
    using assms(2) by (metis list.set_intros(1))
  then show ?case
    using Cons.IH Cons.prems assms(2) by simp
qed

lemma plain_present: "reads_as h v t \<Longrightarrow> \<not> json_absent v"
  by (auto elim: reads_as.cases)

lemma levels_below:
  "t \<in> set ts \<Longrightarrow> levels t < levels (Jn_arr ts)"
  "kt \<in> set kts \<Longrightarrow> levels (snd kt) < levels (Jn_obj kts)"
  by (simp_all add: less_Suc_eq_le Max_ge del: Max_insert)

lemma canon_plain:
  assumes "reads_as h v t" and "levels t + d \<le> Suc WALK_DEPTH" and "above h seen (nodes t)"
    and "cc_budget cx = None"
  shows "canon_value D h ig d seen v cx = Some (print_json (dg_number D) (canon_tree ig t), cx)"
  using assms
proof (induction arbitrary: d seen cx rule: reads_as.induct)
  case (reads_arr h a ts)
  have r: "reads_as h (JObj a) (Jn_arr ts)"
    by (intro reads_as.reads_arr reads_arr.hyps list_all2_mono [OF reads_arr.IH]) auto
  have below: "levels t + Suc d \<le> Suc WALK_DEPTH \<and> above h (a # seen) (nodes t)" if "t \<in> set ts" for t
    using levels_below(1) [OF that] reads_arr.prems(1) member_sum [OF that, of nodes]
      above_below [OF reads_arr.prems(2) r, of "nodes t"]
    by (auto simp del: levels.simps)
  have "list_all2 (\<lambda>s t. \<exists>v. s = Slot v \<and> (\<forall>cx. cc_budget cx = None \<longrightarrow>
      canon_value D h ig (Suc d) (a # seen) v cx = Some (print_json (dg_number D) (canon_tree ig t), cx)))
      (jo_items (h a)) ts"
    by (rule list.rel_mono_strong [OF reads_arr.IH]) (use below in blast)
  from plain_items [OF this reads_arr.prems(3)] above_fresh [OF reads_arr.prems(2) r]
  show ?case
    using reads_arr.hyps reads_arr.prems(1) by (simp add: comp_def)
next
  case (reads_obj h a kts)
  have r: "reads_as h (JObj a) (Jn_obj kts)"
    by (intro reads_as.reads_obj reads_obj.hyps list_all2_mono [OF reads_obj.IH]) auto
  have keys: "map fst (jo_own (h a)) = map fst kts"
    using reads_obj.IH by (induction rule: list_all2_induct) auto
  let ?g = "\<lambda>k. print_json (dg_number D) (canon_tree ig (the (map_of kts k)))"
  have "canon_fields D h ig (Suc d) (a # seen) (h a) (sorted_keys (h a)) cx =
    Some (map (\<lambda>k. quote k @ [58] @ ?g k) (filter (\<lambda>k. k \<notin> ig) (sorted_keys (h a))), cx)"
  proof (rule plain_walk_fields)
    fix k assume "k \<in> set (sorted_keys (h a))"
    then obtain i where i: "i < length kts" "k = fst (kts ! i)" "length (jo_own (h a)) = length kts"
      using keys by (metis (no_types, lifting) in_set_conv_nth length_map nth_map set_sort sorted_keys_def)
    have m: "map_of kts k = Some (snd (kts ! i))"
      using i reads_obj.hyps(4) by (metis map_of_is_SomeI nth_mem prod.collapse)
    have k: "fst (jo_own (h a) ! i) = k"
      using keys i by (metis nth_map)
    obtain v where v: "snd (jo_own (h a) ! i) = Slot v" "reads_as h v (snd (kts ! i))"
      and IH: "\<And>d seen cx. levels (snd (kts ! i)) + d \<le> Suc WALK_DEPTH \<Longrightarrow> above h seen (nodes (snd (kts ! i)))
        \<Longrightarrow> cc_budget cx = None \<Longrightarrow> canon_value D h ig d seen v cx =
          Some (print_json (dg_number D) (canon_tree ig (snd (kts ! i))), cx)"
      using reads_obj.IH i by (auto simp: list_all2_conv_all_nth)
    have "map_of (jo_own (h a)) k = Some (Slot v)"
      using i v(1) k keys reads_obj.hyps(4) by (metis map_of_is_SomeI nth_mem prod.collapse)
    then have "get_prop (h a) k = Some v"
      using get_own [OF reads_obj.hyps(2)] by simp
    moreover have "levels (snd (kts ! i)) + Suc d \<le> Suc WALK_DEPTH"
      using levels_below(2) [of "kts ! i" kts] i reads_obj.prems(1) by (simp del: levels.simps)
    moreover have "above h (a # seen) (nodes (snd (kts ! i)))"
      using above_below [OF reads_obj.prems(2) r, of "nodes (snd (kts ! i))"]
        member_sum [of "kts ! i" kts "\<lambda>kt. nodes (snd kt)"] i by simp
    ultimately show "\<exists>v. get_prop (h a) k = Some v \<and> \<not> json_absent v \<and> (\<forall>cx. cc_budget cx = None \<longrightarrow>
        canon_value D h ig (Suc d) (a # seen) v cx = Some (?g k, cx))"
      using IH plain_present [OF v(2)] m by auto
  qed (rule reads_obj.prems(3))
  moreover have "sorted_keys (h a) = sort (map fst kts)"
    by (simp add: sorted_keys_def keys)
  ultimately show ?case
    using above_fresh [OF reads_obj.prems(2) r] reads_obj.hyps reads_obj.prems(1)
    by (simp add: plain_fields [OF reads_obj.hyps(4)] comp_def del: canon_tree.simps)
qed (simp_all add: number_text_def)

lemma canonicalize_plain:
  assumes "reads_as h v t" and "levels t \<le> Suc WALK_DEPTH"
  shows "canon_value D h ig 0 [] v \<lparr>cc_lossy = False, cc_budget = None\<rparr> =
    Some (print_json (dg_number D) (canon_tree ig t), \<lparr>cc_lossy = False, cc_budget = None\<rparr>)"
  by (rule canon_plain [OF assms(1)]) (use assms(2) in \<open>simp_all add: above_def\<close>)

section \<open>Properties\<close>

text \<open>
  C18: A call is told from every other call by its arguments, and only by them. For inputs that are
  plain JSON (no deeper than the walk goes), the canonical texts of two calls agree exactly when
  the node ids agree and the inputs agree once ignored keys are removed and keys are put in
  order; and that text is what the guard hashes.
\<close>

theorem canonical_text_identifies_call:
  assumes "decimal_texts (dg_number D)"
    and "reads_as h v t" and "levels t \<le> Suc WALK_DEPTH"
    and "reads_as h' v' t'" and "levels t' \<le> Suc WALK_DEPTH"
  shows "(canonicalCall D h n v ig = canonicalCall D h' n' v' ig
            \<longleftrightarrow> n = n' \<and> canon_tree ig t = canon_tree ig t')
    \<and> comparableFingerprint D h (Some n) v ig = Some (fingerprintCall D h n v ig)"
proof -
  let ?text = "\<lambda>t. print_json (dg_number D) (canon_tree ig t)"
  have c: "canonicalize D h v ig = ?text t" "canonicalize D h' v' ig = ?text t'"
    using assms(2-5) by (simp_all add: canonicalize_def canonicalize_plain)
  have "n = n' \<and> canon_tree ig t = canon_tree ig t'"
    if "quote n @ 44 # ?text t @ [93] = quote n' @ 44 # ?text t' @ [93]"
    using quote_prefix_free [OF that] print_prefix_free [OF assms(1), of "canon_tree ig t" "[93]"
        "canon_tree ig t'" "[93]"]
    by simp
  then have "canonicalCall D h n v ig = canonicalCall D h' n' v' ig
      \<longleftrightarrow> n = n' \<and> canon_tree ig t = canon_tree ig t'"
    by (auto simp: canonicalCall_def c)
  moreover have "v \<noteq> UNREADABLE_INPUT"
    using assms(2) by (auto simp: UNREADABLE_INPUT_def elim: reads_as.cases)
  ultimately show ?thesis
    using c(1) canonicalize_plain [OF assms(2,3), of D ig]
    by (simp add: comparableFingerprint_def fingerprintCall_def canonicalCall_def)
qed

text \<open>A number text that the hypothesis admits: numerator, point, denominator.\<close>

definition fraction_text :: "rat \<Rightarrow> jstr" where
  "fraction_text q =
     (let (a, b) = quotient_of q
      in (if a < 0 then [45] else []) @ lit (show_nat (nat \<bar>a\<bar>)) @ 46 # lit (show_nat (nat b)))"

lemma digit_units: "set (lit (show_nat n)) \<subseteq> {48..57} \<and> lit (show_nat n) \<noteq> []"
proof (induction n rule: show_nat.induct)
  case (1 n)
  then show ?case
    by (subst (1 2) show_nat.simps) (auto simp: of_char_of)
qed

lemma signed_inj:
  assumes "(if a < 0 then [45] else []) @ lit (show_nat (nat \<bar>a\<bar>)) =
           (if b < 0 then [45] else []) @ lit (show_nat (nat \<bar>b\<bar>))"
  shows "a = (b :: int)"
proof -
  have "45 \<notin> set (lit (show_nat n))" for n
    using digit_units [of n] by auto
  moreover have "x \<noteq> 45 # y" if "45 \<notin> set x" for x y :: jstr
    using that by auto
  ultimately have "(a < 0) = (b < 0) \<and> lit (show_nat (nat \<bar>a\<bar>)) = lit (show_nat (nat \<bar>b\<bar>))"
    using assms by (auto split: if_splits) metis+
  then show ?thesis
    by (auto simp: lit_inj show_nat_inj split: if_splits)
qed

lemma fraction_decimal: "decimal_texts fraction_text"
proof -
  have free: "46 \<notin> set ((if a < 0 then [45] else []) @ lit (show_nat m))"
    "46 \<notin> set (lit (show_nat m))" for a :: int and m
    using digit_units [of m] by auto
  have "q = r" if "fraction_text q = fraction_text r" for q r
  proof -
    obtain a b c d where q: "quotient_of q = (a, b)" and r: "quotient_of r = (c, d)" by fastforce
    have "0 < b" "0 < d"
      using quotient_of_denom_pos [OF q] quotient_of_denom_pos [OF r] by auto
    moreover have "a = c \<and> nat b = nat d"
      using that append_Cons_eq_iff [OF free(1) free(2), of a "nat \<bar>a\<bar>" "nat b"] signed_inj [of a c]
      by (simp add: fraction_text_def q r lit_inj show_nat_inj del: append_assoc add: append_assoc [symmetric])
    ultimately show "q = r"
      using q r by (metis eq_nat_nat_iff less_imp_le quotient_of_inject)
  qed
  moreover have "fraction_text q \<noteq> [] \<and> (\<forall>c\<in>set (fraction_text q). c \<in> {43, 45, 46, 101} \<or> 48 \<le> c \<and> c \<le> 57)" for q
  proof -
    have "48 \<le> c \<and> c \<le> 57" if "c \<in> set (lit (show_nat m))" for c m
      using that digit_units [of m] by auto
    then show ?thesis
      by (auto simp: fraction_text_def split: prod.split)
  qed
  ultimately show ?thesis
    unfolding decimal_texts_def inj_def by blast
qed

definition sample_digests :: digests where
  "sample_digests = \<lparr>dg_number = fraction_text, dg_sha256 = id, dg_hmac = (\<lambda>s. id)\<rparr>"

text \<open>Two objects with the same arguments in another order, and one with another argument.\<close>

definition sample_heap :: heap where
  "sample_heap a =
     (if a = 0 then js_record [(lit ''q'', Slot (JStr (lit ''x''))), (lit ''n'', Slot JNull)]
      else if a = 1 then js_record [(lit ''n'', Slot JNull), (lit ''q'', Slot (JStr (lit ''x'')))]
      else js_record [(lit ''q'', Slot (JStr (lit ''y'')))])"

definition sample_trees :: "json list" where
  "sample_trees =
     [Jn_obj [(lit ''q'', Jn_str (lit ''x'')), (lit ''n'', Jn_null)],
      Jn_obj [(lit ''n'', Jn_null), (lit ''q'', Jn_str (lit ''x''))],
      Jn_obj [(lit ''q'', Jn_str (lit ''y''))]]"

lemma sample_reads:
  "reads_as sample_heap (JObj 0) (sample_trees ! 0)"
  "reads_as sample_heap (JObj 1) (sample_trees ! 1)"
  "reads_as sample_heap (JObj 2) (sample_trees ! 2)"
  by (auto simp: sample_trees_def sample_heap_def js_record_def lit_def
      intro!: reads_as.reads_obj reads_as.reads_str reads_as.reads_null)

theorem canonical_text_identifies_call_witness:
  "canonicalCall sample_digests sample_heap (lit ''tool:s'') (JObj 0) {} =
     canonicalCall sample_digests sample_heap (lit ''tool:s'') (JObj 1) {}
   \<and> canonicalCall sample_digests sample_heap (lit ''tool:s'') (JObj 0) {} \<noteq>
     canonicalCall sample_digests sample_heap (lit ''tool:s'') (JObj 2) {}"
proof -
  have d: "decimal_texts (dg_number sample_digests)"
    by (simp add: sample_digests_def fraction_decimal)
  have l: "levels (sample_trees ! 0) \<le> Suc WALK_DEPTH" "levels (sample_trees ! 1) \<le> Suc WALK_DEPTH"
    "levels (sample_trees ! 2) \<le> Suc WALK_DEPTH"
    by (simp_all add: sample_trees_def WALK_DEPTH_def)
  have t: "canon_tree {} (sample_trees ! 0) = canon_tree {} (sample_trees ! 1)"
    "canon_tree {} (sample_trees ! 0) \<noteq> canon_tree {} (sample_trees ! 2)"
    by code_simp+
  show ?thesis
    using canonical_text_identifies_call [OF d sample_reads(1) l(1) sample_reads(2) l(2),
        of "lit ''tool:s''" "{}" "lit ''tool:s''"]
      canonical_text_identifies_call [OF d sample_reads(1) l(1) sample_reads(3) l(3),
        of "lit ''tool:s''" "{}" "lit ''tool:s''"] t
    by simp
qed

text \<open>
  What does not belong to a call does not change its fingerprint. If the objects of two heaps
  agree except for the order of their own keys, the values of ignored keys, and keys whose
  value JSON leaves out, then every input has the same fingerprint in both, and every output
  the same salted digest (walks that throw, or that run over the budget, included).
\<close>

theorem fingerprint_ignores_key_order:
  assumes "\<forall>a. alike_object ig (h a) (h' a)"
  shows "comparableFingerprint D h n v ig = comparableFingerprint D h' n v ig
    \<and> outcomeDigest D h prefix v ig salt = outcomeDigest D h' prefix v ig salt"
  unfolding comparableFingerprint_def outcomeDigest_def canon_alike(1) [OF assms] by simp

theorem fingerprint_ignores_key_order_witness:
  "let h = (\<lambda>a. js_record [(lit ''q'', Slot JNull), (lit ''_meta'', Slot (JNum (Fin 1)))]);
       h' = (\<lambda>a. js_record [(lit ''_meta'', Throwing), (lit ''u'', Slot JUndef), (lit ''q'', Slot JNull)])
   in comparableFingerprint sample_digests h (Some []) (JObj 0) {lit ''_meta''} \<noteq> None
      \<and> comparableFingerprint sample_digests h (Some []) (JObj 0) {lit ''_meta''} =
        comparableFingerprint sample_digests h' (Some []) (JObj 0) {lit ''_meta''}"
proof -
  have a: "alike_object {lit ''_meta''}
      (js_record [(lit ''q'', Slot JNull), (lit ''_meta'', Slot (JNum (Fin 1)))])
      (js_record [(lit ''_meta'', Throwing), (lit ''u'', Slot JUndef), (lit ''q'', Slot JNull)])"
    by (auto simp: alike_object_def js_record_def shown_def lit_def fun_eq_iff)
  show ?thesis
    unfolding Let_def
    using fingerprint_ignores_key_order [of "{lit ''_meta''}", OF allI [OF a],
        where D = sample_digests and n = "Some []" and v = "JObj 0"]
    by (simp add: comparableFingerprint_def UNREADABLE_INPUT_def js_record_def sorted_keys_def
        WALK_DEPTH_def get_prop_def lit_def)
qed

end
