(* ===== verification/Smart_Breakpoints.thy ===== *)
theory Smart_Breakpoints
  imports Js_Value Gate_Engine "HOL-Library.Monad_Syntax"
begin

text \<open>
  \<open>packages/client/src/smart.ts\<close>, \<open>env.ts\<close> and \<open>safe.ts\<close>: the switches read from the
  environment, the rate-limited warner, and the two after-gate detectors (error-shaped tool
  results, truncated tool calls). An environment variable is \<open>Some\<close> text or absent; reading
  the environment can throw, which is an outer \<open>None\<close>.
\<close>

section \<open>\<open>env.ts\<close>\<close>

type_synonym env = "string \<Rightarrow> string option"

definition DEFAULT_URL :: string where
  "DEFAULT_URL = ''ws://127.0.0.1:4747/ingest''"

definition KILL_SWITCH_OFF :: "string list" where
  "KILL_SWITCH_OFF = ['''', ''0'', ''false'', ''off'', ''no'']"

definition killSwitchOn :: "string option \<Rightarrow> bool" where
  "killSwitchOn value =
     (case value of None \<Rightarrow> False | Some s \<Rightarrow> js_lower (js_trim s) \<notin> set KILL_SWITCH_OFF)"

definition resolveEnabled :: "bool option \<Rightarrow> env \<Rightarrow> bool" where
  "resolveEnabled explicit env =
     (if killSwitchOn (env ''GRAPHMIND_DISABLED'') then False
      else case explicit of
             Some b \<Rightarrow> b
           | None \<Rightarrow> \<not> (env ''NODE_ENV'' = Some ''production'' \<and> env ''GRAPHMIND'' \<noteq> Some ''1''))"

definition resolveUrl :: "string option \<Rightarrow> env \<Rightarrow> string" where
  "resolveUrl explicit env =
     (case explicit of
        Some u \<Rightarrow> u
      | None \<Rightarrow> (case env ''GRAPHMIND_URL'' of Some u \<Rightarrow> u | None \<Rightarrow> DEFAULT_URL))"

section \<open>\<open>safe.ts\<close>: the rate-limited warner\<close>

text \<open>
  \<open>now\<close> is what \<open>Date.now()\<close> answers, None when it throws; \<open>suffix\<close> is the text of the cause,
  None when \<open>String(cause)\<close> throws. The result says what reaches the sink; a throwing sink
  changes nothing else.
\<close>

record warner =
  wn_last :: "(string \<times> rat) list"
  wn_interval :: rat

definition warner_new :: "rat \<Rightarrow> warner" where
  "warner_new interval = \<lparr>wn_last = [], wn_interval = interval\<rparr>"

definition warn ::
  "warner \<Rightarrow> rat option \<Rightarrow> string \<Rightarrow> string \<Rightarrow> string option \<Rightarrow> warner \<times> string option" where
  "warn w now key message suffix =
     (case now of
        None \<Rightarrow> (w, None)
      | Some t \<Rightarrow>
          (case map_of (wn_last w) key of
             Some prev \<Rightarrow>
               if t - prev < wn_interval w then (w, None)
               else (w\<lparr>wn_last := AList.update key t (wn_last w)\<rparr>,
                     map_option (\<lambda>s. ''[graphmind] '' @ message @ s) suffix)
           | None \<Rightarrow>
               (w\<lparr>wn_last := AList.update key t (wn_last w)\<rparr>,
                map_option (\<lambda>s. ''[graphmind] '' @ message @ s) suffix)))"

section \<open>\<open>smart.ts\<close>: switches\<close>

definition BREAK_ON_OFF :: "string list" where
  "BREAK_ON_OFF = [''0'', ''false'', ''off'', ''no'']"

definition parseBreakOn :: "string option \<Rightarrow> bool \<Rightarrow> bool" where
  "parseBreakOn raw fallback =
     (case raw of
        None \<Rightarrow> fallback
      | Some s \<Rightarrow>
          (let text = js_lower (js_trim s)
           in if text = '''' then fallback else text \<notin> set BREAK_ON_OFF))"

record smart_switches =
  sw_errorResult :: bool
  sw_truncatedToolCall :: bool

text \<open>\<open>options?.key\<close> of a value that may be absent.\<close>

definition opt_member :: "heap \<Rightarrow> js \<Rightarrow> string \<Rightarrow> js option" where
  "opt_member h v key = (case v of JObj a \<Rightarrow> get_prop (h a) (lit key) | _ \<Rightarrow> Some JUndef)"

definition pair_or :: "'a option \<Rightarrow> 'a option \<Rightarrow> 'a \<Rightarrow> 'a \<times> 'a" where
  "pair_or x y d = (case (x, y) of (Some a, Some b) \<Rightarrow> (a, b) | _ \<Rightarrow> (d, d))"

definition switch_value :: "js \<Rightarrow> string option \<Rightarrow> bool" where
  "switch_value v envv = (case v of JBool b \<Rightarrow> b | _ \<Rightarrow> parseBreakOn envv True)"

definition resolveSmartBreakpoints ::
  "heap \<Rightarrow> js \<Rightarrow> (string \<Rightarrow> string option option) \<Rightarrow> smart_switches" where
  "resolveSmartBreakpoints h options env =
     (let (errorOption, truncatedOption) =
            pair_or (opt_member h options ''breakOnErrorResult'')
                    (opt_member h options ''breakOnTruncated'') JUndef;
          (errorEnv, truncatedEnv) =
            pair_or (env ''GRAPHMIND_BREAK_ON_ERROR_RESULT'') (env ''GRAPHMIND_BREAK_ON_TRUNCATED'') None
      in \<lparr>sw_errorResult = switch_value errorOption errorEnv,
          sw_truncatedToolCall = switch_value truncatedOption truncatedEnv\<rparr>)"

section \<open>\<open>smart.ts\<close>: error-shaped results\<close>

datatype error_shape = Sh_isError | Sh_success | Sh_exit_code | Sh_exitCode | Sh_exitStatus | Sh_error

definition EXIT_KEYS :: "(string \<times> error_shape) list" where
  "EXIT_KEYS = [(''exit_code'', Sh_exit_code), (''exitCode'', Sh_exitCode), (''exitStatus'', Sh_exitStatus)]"

definition isPlainObject :: "js_object \<Rightarrow> bool option" where
  "isPlainObject ob = map_option (\<lambda>p. p = Object_proto \<or> p = Null_proto) (get_proto ob)"

fun failing_code :: "js \<Rightarrow> bool" where
  "failing_code (JNum n) \<longleftrightarrow> n \<noteq> NaN \<and> n \<noteq> Fin 0"
| "failing_code _ \<longleftrightarrow> False"

fun exit_scan :: "js_object \<Rightarrow> (string \<times> error_shape) list \<Rightarrow> error_shape option option" where
  "exit_scan ob [] = Some None"
| "exit_scan ob ((key, sh) # rest) =
     do { code \<leftarrow> get_prop ob (lit key);
          if failing_code code then Some (Some sh) else exit_scan ob rest }"

definition only_error_key :: "js_object \<Rightarrow> error_shape option option" where
  "only_error_key ob =
     do { plain \<leftarrow> isPlainObject ob;
          if \<not> plain then Some None
          else do { keys \<leftarrow> own_keys ob;
                    if keys \<noteq> [lit ''error''] then Some None
                    else do { e \<leftarrow> get_prop ob (lit ''error'');
                              Some (if e = JNull \<or> e = JUndef \<or> e = JBool False then None
                                    else Some Sh_error) } } }"

definition inspect_result :: "js_object \<Rightarrow> error_shape option option" where
  "inspect_result ob =
     do { arr \<leftarrow> is_array ob;
          if arr then Some None
          else do { e \<leftarrow> get_prop ob (lit ''isError'');
                    if e = JBool True then Some (Some Sh_isError)
                    else do { s \<leftarrow> get_prop ob (lit ''success'');
                              if s = JBool False then Some (Some Sh_success)
                              else do { x \<leftarrow> exit_scan ob EXIT_KEYS;
                                        case x of Some sh \<Rightarrow> Some (Some sh)
                                                | None \<Rightarrow> only_error_key ob } } } }"

definition errorResultShape :: "heap \<Rightarrow> js \<Rightarrow> error_shape option" where
  "errorResultShape h result =
     (case result of
        JObj a \<Rightarrow> (case inspect_result (h a) of Some r \<Rightarrow> r | None \<Rightarrow> None)
      | _ \<Rightarrow> None)"

fun ERROR_RESULT_DETAIL :: "error_shape \<Rightarrow> string" where
  "ERROR_RESULT_DETAIL Sh_isError = ''the tool returned a result with isError: true''"
| "ERROR_RESULT_DETAIL Sh_success = ''the tool returned a result with success: false''"
| "ERROR_RESULT_DETAIL Sh_exit_code = ''the tool returned a result with a non-zero exit_code''"
| "ERROR_RESULT_DETAIL Sh_exitCode = ''the tool returned a result with a non-zero exitCode''"
| "ERROR_RESULT_DETAIL Sh_exitStatus = ''the tool returned a result with a non-zero exitStatus''"
| "ERROR_RESULT_DETAIL Sh_error = ''the tool returned an object whose only field is error''"

record smart_info =
  sm_rule :: string
  sm_detail :: string

record after_context =
  ac_node :: gate_node
  ac_result :: js

definition errorResultDetector :: "heap \<Rightarrow> after_context \<Rightarrow> smart_info option" where
  "errorResultDetector h cx =
     (if gn_kind (ac_node cx) \<noteq> Tool then None
      else map_option (\<lambda>sh. \<lparr>sm_rule = ''error-result'', sm_detail = ERROR_RESULT_DETAIL sh\<rparr>)
             (errorResultShape h (ac_result cx)))"

definition isReturnedErrorShape :: "error_shape option \<Rightarrow> bool" where
  "isReturnedErrorShape shape \<longleftrightarrow> shape \<noteq> None \<and> shape \<noteq> Some Sh_error"

definition errorResultAtErrorGate :: "heap \<Rightarrow> after_context \<Rightarrow> smart_info option" where
  "errorResultAtErrorGate h cx =
     (if gn_kind (ac_node cx) \<noteq> Tool then None
      else case errorResultShape h (ac_result cx) of
             None \<Rightarrow> None
           | Some sh \<Rightarrow>
               if \<not> isReturnedErrorShape (Some sh) then None
               else Some \<lparr>sm_rule = ''error-result'', sm_detail = ERROR_RESULT_DETAIL sh\<rparr>)"

section \<open>\<open>smart.ts\<close>: truncated tool calls\<close>

datatype finish_cause = Fin_length | Fin_content_filter

record truncated_call =
  tr_finish :: finish_cause
  tr_calls :: nat
  tr_unparsed :: nat

definition MAX_INSPECTED_TOOL_CALLS :: nat where
  "MAX_INSPECTED_TOOL_CALLS = 256"

text \<open>Whether a requested call kept the text of arguments that did not parse.\<close>

definition call_unparsed :: "heap \<Rightarrow> js_slot \<Rightarrow> bool option" where
  "call_unparsed h s =
     do { call \<leftarrow> read_slot s;
          case call of
            JObj a \<Rightarrow> do { t \<leftarrow> get_prop (h a) (lit ''inputText'');
                          Some (case t of JStr x \<Rightarrow> True | _ \<Rightarrow> False) }
          | _ \<Rightarrow> Some False }"

fun count_unparsed :: "heap \<Rightarrow> js_slot list \<Rightarrow> nat option" where
  "count_unparsed h [] = Some 0"
| "count_unparsed h (s # ss) =
     do { u \<leftarrow> call_unparsed h s; n \<leftarrow> count_unparsed h ss; Some (if u then Suc n else n) }"

definition finish_of :: "js \<Rightarrow> finish_cause option" where
  "finish_of v =
     (if v = JStr (lit ''length'') then Some Fin_length
      else if v = JStr (lit ''content-filter'') then Some Fin_content_filter else None)"

definition inspect_step :: "heap \<Rightarrow> js_object \<Rightarrow> truncated_call option option" where
  "inspect_step h ob =
     do { arr \<leftarrow> is_array ob;
          if arr then Some None
          else do { f \<leftarrow> get_prop ob (lit ''finishReason'');
                    case finish_of f of
                      None \<Rightarrow> Some None
                    | Some cause \<Rightarrow>
                        do { calls \<leftarrow> get_prop ob (lit ''toolCalls'');
                             case calls of
                               JObj b \<Rightarrow>
                                 do { carr \<leftarrow> is_array (h b);
                                      if \<not> carr \<or> jo_items (h b) = [] then Some None
                                      else do { n \<leftarrow> count_unparsed h
                                                      (take MAX_INSPECTED_TOOL_CALLS (jo_items (h b)));
                                                Some (Some \<lparr>tr_finish = cause,
                                                            tr_calls = length (jo_items (h b)),
                                                            tr_unparsed = n\<rparr>) } }
                             | _ \<Rightarrow> Some None } } }"

definition truncatedToolCall :: "heap \<Rightarrow> js \<Rightarrow> truncated_call option" where
  "truncatedToolCall h result =
     (case result of
        JObj a \<Rightarrow> (case inspect_step h (h a) of Some r \<Rightarrow> r | None \<Rightarrow> None)
      | _ \<Rightarrow> None)"

definition plural :: "nat \<Rightarrow> string \<Rightarrow> string \<Rightarrow> string" where
  "plural n one many = show_nat n @ '' '' @ (if n = 1 then one else many)"

definition truncatedDetail :: "truncated_call \<Rightarrow> string" where
  "truncatedDetail found =
     ''the model was stopped '' @
     (if tr_finish found = Fin_length then ''at the token limit'' else ''by the content filter'') @
     '' with '' @ plural (tr_calls found) ''tool call'' ''tool calls'' @ '' requested'' @
     (if 0 < tr_unparsed found
      then ''; '' @ plural (tr_unparsed found) ''call has'' ''calls have''
             @ '' arguments that did not parse''
      else [])"

definition truncatedToolCallDetector :: "heap \<Rightarrow> after_context \<Rightarrow> smart_info option" where
  "truncatedToolCallDetector h cx =
     (if gn_kind (ac_node cx) \<noteq> LLM then None
      else map_option (\<lambda>f. \<lparr>sm_rule = ''truncated-tool-call'', sm_detail = truncatedDetail f\<rparr>)
             (truncatedToolCall h (ac_result cx)))"

definition defaultDetectors ::
  "smart_switches \<Rightarrow> (heap \<Rightarrow> after_context \<Rightarrow> smart_info option) list" where
  "defaultDetectors resolved =
     (if sw_errorResult resolved then [errorResultDetector] else []) @
     (if sw_truncatedToolCall resolved then [truncatedToolCallDetector] else [])"

section \<open>What the warner promises\<close>

record warn_call =
  wc_now :: "rat option"
  wc_key :: string
  wc_message :: string
  wc_suffix :: "string option"

text \<open>The keys and times of the warnings that reach the sink, in order.\<close>

fun warnings_of :: "warner \<Rightarrow> warn_call list \<Rightarrow> (rat \<times> string) list" where
  "warnings_of w [] = []"
| "warnings_of w (c # cs) =
     (let (w', out) = warn w (wc_now c) (wc_key c) (wc_message c) (wc_suffix c)
      in (case (out, wc_now c) of
            (Some m, Some t) \<Rightarrow> [(t, wc_key c)]
          | _ \<Rightarrow> []) @ warnings_of w' cs)"

definition apart :: "rat \<Rightarrow> rat \<times> string \<Rightarrow> rat \<times> string \<Rightarrow> bool" where
  "apart d x y \<longleftrightarrow> snd x \<noteq> snd y \<or> fst x + d \<le> fst y"

definition quiet_for :: "warner \<Rightarrow> rat \<times> string \<Rightarrow> bool" where
  "quiet_for w e \<longleftrightarrow>
     (case map_of (wn_last w) (snd e) of None \<Rightarrow> True | Some p \<Rightarrow> p + wn_interval w \<le> fst e)"

lemma warn_interval [simp]: "wn_interval (fst (warn w now k m s)) = wn_interval w"
  by (simp add: warn_def split: option.split)

lemma warn_quiet_mono:
  assumes "quiet_for (fst (warn w now k m s)) e" and "0 \<le> wn_interval w"
  shows "quiet_for w e"
  using assms
  by (auto simp: warn_def quiet_for_def map_of_update split: option.splits if_splits)

lemma warn_emits:
  assumes "warn w now k m s = (w', Some out)"
  obtains t where "now = Some t" "quiet_for w (t, k)"
    "wn_last w' = AList.update k t (wn_last w)" "wn_interval w' = wn_interval w"
  using assms by (fastforce simp: warn_def quiet_for_def split: option.splits if_splits)

lemma warnings_spaced:
  assumes "0 \<le> wn_interval w"
  shows "sorted_wrt (apart (wn_interval w)) (warnings_of w cs) \<and> (\<forall>e\<in>set (warnings_of w cs). quiet_for w e)"
  using assms
proof (induction cs arbitrary: w)
  case Nil
  then show ?case by simp
next
  case (Cons c cs)
  obtain w' out where w: "warn w (wc_now c) (wc_key c) (wc_message c) (wc_suffix c) = (w', out)"
    by fastforce
  have i: "wn_interval w' = wn_interval w"
    using arg_cong [OF w, of "wn_interval \<circ> fst"] by simp
  have IH: "sorted_wrt (apart (wn_interval w)) (warnings_of w' cs)" "\<forall>e\<in>set (warnings_of w' cs). quiet_for w' e"
    using Cons.IH [of w'] Cons.prems i by auto
  have q: "\<forall>e\<in>set (warnings_of w' cs). quiet_for w e"
    using IH(2) warn_quiet_mono [of w "wc_now c" "wc_key c" "wc_message c" "wc_suffix c"] w Cons.prems
    by auto
  show ?case
  proof (cases out)
    case None
    then show ?thesis
      using IH(1) q by (simp add: w)
  next
    case (Some m)
    with w obtain t where t: "wc_now c = Some t" "quiet_for w (t, wc_key c)"
      "wn_last w' = AList.update (wc_key c) t (wn_last w)" "wn_interval w' = wn_interval w"
      by (metis warn_emits)
    have "\<forall>e\<in>set (warnings_of w' cs). apart (wn_interval w) (t, wc_key c) e"
      using IH(2) t(3) i by (auto simp: quiet_for_def apart_def map_of_update split: if_splits)
    moreover have "warnings_of w (c # cs) = (t, wc_key c) # warnings_of w' cs"
      using Some t(1) w by simp
    ultimately show ?thesis
      using IH(1) q t(2) by simp
  qed
qed

text \<open>
  The warner never repeats itself quickly. Whatever is warned about, in whatever order and
  on whatever clock (throwing, or running backwards), any two warnings of one key that reach
  the host's console are at least the interval apart.
\<close>

theorem warner_keeps_quiet:
  assumes "0 \<le> interval"
  shows "sorted_wrt (apart interval) (warnings_of (warner_new interval) cs)"
  using warnings_spaced [of "warner_new interval" cs] assms by (simp add: warner_new_def)

theorem warner_keeps_quiet_witness:
  "let call = \<lambda>t k. \<lparr>wc_now = Some t, wc_key = k, wc_message = ''m'', wc_suffix = Some []\<rparr>;
       cs = [call 0 ''a'', call 10 ''b'', call 59 ''a'', call 60 ''a'']
   in warnings_of (warner_new 60) cs = [(0, ''a''), (10, ''b''), (60, ''a'')]
      \<and> sorted_wrt (apart 60) (warnings_of (warner_new 60) cs)"
  unfolding Let_def
  by (rule conjI [OF _ warner_keeps_quiet])
    (simp_all add: warner_new_def warn_def)

end
