(* ===== verification/Loop_Guard.thy ===== *)
theory Loop_Guard
  imports Loop_Canon Smart_Breakpoints
begin

text \<open>
  The second half of \<open>packages/client/src/loop-guard.ts\<close>: the configuration and the class
  \<open>LoopGuard\<close>. A run keeps one streak per watched kind (rule v3), a history of completed calls
  per kind and the calls that are open (v4: cycles and repeated errors); runs are evicted least
  recently used first. Objects the code mutates in place are written back under their keys, so
  the order of a \<open>Map\<close> is the order of an association list.

  The lemmas show what a streak counts, when a gate is held and how often, that the index scans
  of the two v4 detectors decide the laps and the failures their documentation describes, and
  the bounds on what the guard remembers.
\<close>

section \<open>Configuration\<close>

datatype loop_mode = Mode_pause | Mode_warn | Mode_off

record loop_config =
  lc_threshold :: nat
  lc_mode :: loop_mode
  lc_ignoreKeys :: "jstr list"
  lc_allowNodes :: "jstr list"
  lc_kinds :: "jstr list"

definition DEFAULT_LOOP_THRESHOLD :: nat where "DEFAULT_LOOP_THRESHOLD = 3"
definition DEFAULT_LOOP_MODE :: loop_mode where "DEFAULT_LOOP_MODE = Mode_pause"
definition DEFAULT_LOOP_KINDS :: "jstr list" where "DEFAULT_LOOP_KINDS = [lit ''tool'']"
definition DEFAULT_LOOP_IGNORE_KEYS :: "jstr list" where
  "DEFAULT_LOOP_IGNORE_KEYS = [lit ''_meta'']"

definition MAX_LOOP_RUNS :: nat where "MAX_LOOP_RUNS = 64"
definition LOOP_HISTORY_SIZE :: nat where "LOOP_HISTORY_SIZE = 64"
definition CYCLE_LAPS :: nat where "CYCLE_LAPS = 3"
definition CYCLE_MIN_PERIOD :: nat where "CYCLE_MIN_PERIOD = 2"
definition CYCLE_MAX_PERIOD :: nat where "CYCLE_MAX_PERIOD = 4"
definition ERROR_REPEAT_COUNT :: nat where "ERROR_REPEAT_COUNT = 3"
definition MAX_OPEN_CALLS_PER_RUN :: nat where "MAX_OPEN_CALLS_PER_RUN = 256"

text \<open>A non-negative integer number, as a natural number. \<open>N\<close> is the conversion \<open>Number(text)\<close>.\<close>

definition count_of :: "jsnum \<Rightarrow> nat option" where
  "count_of n =
     (case n of
        Fin q \<Rightarrow> if is_js_integer n \<and> 0 \<le> q then Some (nat \<lfloor>q\<rfloor>) else None
      | _ \<Rightarrow> None)"

definition parseLoopThreshold :: "(string \<Rightarrow> jsnum) \<Rightarrow> string option \<Rightarrow> nat \<Rightarrow> nat" where
  "parseLoopThreshold N raw fallback =
     (case raw of
        None \<Rightarrow> fallback
      | Some s \<Rightarrow>
          (let text = js_trim s
           in if text = [] then fallback
              else case count_of (N text) of None \<Rightarrow> fallback | Some n \<Rightarrow> n))"

definition parseLoopAllow :: "string option \<Rightarrow> string list" where
  "parseLoopAllow raw =
     (case raw of
        None \<Rightarrow> []
      | Some s \<Rightarrow> filter (\<lambda>e. e \<noteq> []) (map js_trim (split_on (CHR '','') s)))"

definition parseLoopMode :: "string option \<Rightarrow> loop_mode \<Rightarrow> loop_mode" where
  "parseLoopMode raw fallback =
     (case raw of
        None \<Rightarrow> fallback
      | Some s \<Rightarrow>
          (let text = js_lower (js_trim s)
           in if text = ''pause'' then Mode_pause
              else if text = ''warn'' then Mode_warn
              else if text = ''off'' \<or> text \<in> {''0'', ''false'', ''none''} then Mode_off
              else fallback))"

definition validThreshold :: "js \<Rightarrow> nat option" where
  "validThreshold v = (case v of JNum n \<Rightarrow> count_of n | _ \<Rightarrow> None)"

definition validMode :: "js \<Rightarrow> loop_mode option" where
  "validMode v =
     (if v = JStr (lit ''pause'') then Some Mode_pause
      else if v = JStr (lit ''warn'') then Some Mode_warn
      else if v = JStr (lit ''off'') then Some Mode_off else None)"

fun only_strings :: "js_slot list \<Rightarrow> jstr list option" where
  "only_strings [] = Some []"
| "only_strings (s # ss) =
     do { v \<leftarrow> read_slot s;
          rest \<leftarrow> only_strings ss;
          Some (case v of JStr x \<Rightarrow> x # rest | _ \<Rightarrow> rest) }"

text \<open>\<open>Array.isArray(v) ? v.filter(isString) : otherwise\<close>.\<close>

definition strings_or :: "heap \<Rightarrow> js \<Rightarrow> jstr list option \<Rightarrow> jstr list option" where
  "strings_or h v otherwise =
     (case v of
        JObj a \<Rightarrow> do { arr \<leftarrow> is_array (h a);
                      if arr then only_strings (jo_items (h a)) else otherwise }
      | _ \<Rightarrow> otherwise)"

definition resolveLoopGuardStrict ::
  "heap \<Rightarrow> (string \<Rightarrow> jsnum) \<Rightarrow> js \<Rightarrow> (string \<Rightarrow> string option option) \<Rightarrow> loop_config option" where
  "resolveLoopGuardStrict h N options env =
     do { t \<leftarrow> opt_member h options ''threshold'';
          threshold \<leftarrow> (case validThreshold t of
              Some n \<Rightarrow> Some n
            | None \<Rightarrow> map_option (\<lambda>e. parseLoopThreshold N e DEFAULT_LOOP_THRESHOLD)
                        (env ''GRAPHMIND_LOOP_THRESHOLD''));
          m \<leftarrow> (if options = JBool False then Some (JStr (lit ''off''))
               else opt_member h options ''mode'');
          mode \<leftarrow> (case validMode m of
              Some x \<Rightarrow> Some x
            | None \<Rightarrow> map_option (\<lambda>e. parseLoopMode e DEFAULT_LOOP_MODE) (env ''GRAPHMIND_ON_LOOP''));
          i \<leftarrow> opt_member h options ''ignoreKeys'';
          ignoreKeys \<leftarrow> strings_or h i (Some DEFAULT_LOOP_IGNORE_KEYS);
          a \<leftarrow> opt_member h options ''allowNodes'';
          allowNodes \<leftarrow> strings_or h a
            (map_option (\<lambda>e. map lit (parseLoopAllow e)) (env ''GRAPHMIND_LOOP_ALLOW''));
          k \<leftarrow> opt_member h options ''kinds'';
          kinds \<leftarrow> strings_or h k (Some DEFAULT_LOOP_KINDS);
          Some \<lparr>lc_threshold = threshold, lc_mode = mode, lc_ignoreKeys = ignoreKeys,
                lc_allowNodes = allowNodes, lc_kinds = kinds\<rparr> }"

text \<open>The last resort reads nothing that can throw; a throw there would leave the function.\<close>

definition resolveLoopGuard ::
  "heap \<Rightarrow> (string \<Rightarrow> jsnum) \<Rightarrow> js \<Rightarrow> (string \<Rightarrow> string option option) \<Rightarrow> loop_config option" where
  "resolveLoopGuard h N options env =
     (case resolveLoopGuardStrict h N options env of
        Some c \<Rightarrow> Some c
      | None \<Rightarrow>
          (case resolveLoopGuardStrict h N JUndef env of
             Some c \<Rightarrow> Some c
           | None \<Rightarrow> resolveLoopGuardStrict h N JUndef (\<lambda>_. Some None)))"

section \<open>The state\<close>

datatype loop_kind = Lk_cycle | Lk_error_repeat

record loop_info =
  li_repeats :: nat
  li_firstSeq :: nat
  li_lastSeq :: nat
  li_fingerprint :: jstr
  li_kind :: "loop_kind option"
  li_period :: "nat option"
  li_laps :: "nat option"

record streak =
  sk_nodeId :: jstr
  sk_fingerprint :: jstr
  sk_repeats :: nat
  sk_firstSeq :: nat
  sk_lastSeq :: nat
  sk_tripped :: bool
  sk_warned :: bool

record open_call =
  oc_kind :: node_kind
  oc_nodeId :: jstr
  oc_instanceId :: "jstr option"
  oc_inFp :: "jstr option"
  oc_startSeq :: nat
  oc_errFp :: "jstr option"

datatype call_outcome = Oc_ok | Oc_fail

record call_entry =
  ce_nodeId :: "jstr option"
  ce_inFp :: "jstr option"
  ce_outcome :: "call_outcome option"
  ce_outFp :: "jstr option"
  ce_startSeq :: nat

record verdict =
  vd_nodeId :: jstr
  vd_info :: loop_info
  vd_tripped :: bool

record kind_history =
  kh_ring :: "call_entry list"
  kh_completed :: nat
  kh_cycleQuietUntil :: nat
  kh_verdict :: "verdict option"

record run_state =
  rs_streaks :: "(node_kind, streak) omap"
  rs_histories :: "(node_kind, kind_history) omap"
  rs_open :: "open_call list"

record loop_record =
  lr_repeats :: nat
  lr_firstSeq :: nat
  lr_lastSeq :: nat
  lr_fingerprint :: jstr
  lr_atThreshold :: bool
  lr_detected :: "loop_info option"

record loop_guard =
  lg_config :: loop_config
  lg_salt :: jstr
  lg_runs :: "(jstr, run_state) omap"

definition guard_new :: "loop_config \<Rightarrow> jstr \<Rightarrow> loop_guard" where
  "guard_new config salt = \<lparr>lg_config = config, lg_salt = salt, lg_runs = []\<rparr>"

definition empty_history :: kind_history where
  "empty_history = \<lparr>kh_ring = [], kh_completed = 0, kh_cycleQuietUntil = 0, kh_verdict = None\<rparr>"

definition empty_run :: run_state where
  "empty_run = \<lparr>rs_streaks = [], rs_histories = [], rs_open = []\<rparr>"

definition historyOf :: "run_state \<Rightarrow> node_kind \<Rightarrow> kind_history" where
  "historyOf st kind =
     (case map_of (rs_histories st) kind of Some hs \<Rightarrow> hs | None \<Rightarrow> empty_history)"

definition set_history :: "node_kind \<Rightarrow> kind_history \<Rightarrow> run_state \<Rightarrow> run_state" where
  "set_history kind hs st = st\<lparr>rs_histories := AList.update kind hs (rs_histories st)\<rparr>"

definition pushEntry :: "kind_history \<Rightarrow> call_entry \<Rightarrow> kind_history" where
  "pushEntry hs entry =
     (let ring = kh_ring hs @ [entry]
      in hs\<lparr>kh_ring := (if LOOP_HISTORY_SIZE < length ring then tl ring else ring),
            kh_completed := kh_completed hs + 1\<rparr>)"

section \<open>The two detectors of repeated work\<close>

definition comparable :: "call_entry \<Rightarrow> bool" where
  "comparable e \<longleftrightarrow>
     ce_nodeId e \<noteq> None \<and> ce_inFp e \<noteq> None \<and> ce_outcome e \<noteq> None \<and> ce_outFp e \<noteq> None"

definition sameEntry :: "call_entry \<Rightarrow> call_entry option \<Rightarrow> bool" where
  "sameEntry a b =
     (case b of
        None \<Rightarrow> False
      | Some e \<Rightarrow>
          comparable a \<and> comparable e \<and> ce_nodeId a = ce_nodeId e \<and> ce_inFp a = ce_inFp e
          \<and> ce_outcome a = ce_outcome e \<and> ce_outFp a = ce_outFp e)"

text \<open>\<open>ring[i]\<close>, undefined past the end.\<close>

definition entry_at :: "call_entry list \<Rightarrow> nat \<Rightarrow> call_entry option" where
  "entry_at ring i = (if i < length ring then Some (ring ! i) else None)"

definition lapsEqual :: "call_entry list \<Rightarrow> nat \<Rightarrow> nat \<Rightarrow> nat \<Rightarrow> bool" where
  "lapsEqual ring a b k =
     list_all (\<lambda>i. case entry_at ring (a + i) of
                     None \<Rightarrow> False
                   | Some x \<Rightarrow> sameEntry x (entry_at ring (b + i))) [0..<k]"

text \<open>
  The loop that counts identical laps back from the newest; the code's loop has \<open>k \<ge> 2\<close>.
\<close>

function count_back :: "call_entry list \<Rightarrow> nat \<Rightarrow> nat \<Rightarrow> nat \<Rightarrow> nat \<Rightarrow> nat \<times> nat" where
  "count_back ring newest k first laps =
     (if 0 < k \<and> k \<le> first \<and> lapsEqual ring (first - k) newest k
      then count_back ring newest k (first - k) (laps + 1)
      else (first, laps))"
  by pat_completeness auto
termination by (relation "measure (\<lambda>(ring, newest, k, first, laps). first)") auto

declare count_back.simps [simp del]

definition opt_text :: "jstr option \<Rightarrow> jstr" where
  "opt_text x = (case x of None \<Rightarrow> lit ''null'' | Some s \<Rightarrow> quote s)"

definition outcome_text :: "call_outcome option \<Rightarrow> jstr" where
  "outcome_text x =
     (case x of None \<Rightarrow> lit ''null'' | Some Oc_ok \<Rightarrow> quote (lit ''ok'') | Some Oc_fail \<Rightarrow> quote (lit ''fail''))"

definition entry_text :: "call_entry \<Rightarrow> jstr" where
  "entry_text e =
     [91] @ commas [opt_text (ce_nodeId e), opt_text (ce_inFp e), outcome_text (ce_outcome e),
                    opt_text (ce_outFp e)] @ [93]"

definition lap_fingerprint :: "digests \<Rightarrow> jstr \<Rightarrow> call_entry list \<Rightarrow> jstr" where
  "lap_fingerprint D salt lap =
     saltedDigest D (lit ''lap'' @ [0] @ [91] @ commas (map entry_text lap) @ [93]) salt"

definition laps_identical :: "call_entry list \<Rightarrow> nat \<Rightarrow> nat \<Rightarrow> bool" where
  "laps_identical ring base k =
     list_all (\<lambda>lap. lapsEqual ring base (base + lap * k) k) [1..<CYCLE_LAPS]"

definition lap_distinct :: "call_entry list \<Rightarrow> nat \<Rightarrow> nat \<Rightarrow> call_entry \<Rightarrow> bool" where
  "lap_distinct ring base k head =
     list_ex (\<lambda>i. case entry_at ring (base + i) of
                    None \<Rightarrow> False
                  | Some e \<Rightarrow> ce_nodeId e \<noteq> ce_nodeId head \<or> ce_inFp e \<noteq> ce_inFp head) [1..<k]"

fun cycle_scan ::
  "digests \<Rightarrow> jstr \<Rightarrow> kind_history \<Rightarrow> jstr \<Rightarrow> jstr \<Rightarrow> nat \<Rightarrow> nat list
     \<Rightarrow> kind_history \<times> loop_info option" where
  "cycle_scan D salt hs nodeId inFp seq [] = (hs, None)"
| "cycle_scan D salt hs nodeId inFp seq (k # ks) =
     (let ring = kh_ring hs; span = CYCLE_LAPS * k
      in if length ring < span then (hs, None)
         else
           let base = length ring - span
           in case entry_at ring base of
                None \<Rightarrow> cycle_scan D salt hs nodeId inFp seq ks
              | Some head \<Rightarrow>
                  if ce_nodeId head \<noteq> Some nodeId \<or> ce_inFp head \<noteq> Some inFp
                    \<or> \<not> laps_identical ring base k \<or> \<not> lap_distinct ring base k head
                  then cycle_scan D salt hs nodeId inFp seq ks
                  else
                    let newest = length ring - k;
                        (first, laps) = count_back ring newest k base CYCLE_LAPS
                    in (hs\<lparr>kh_cycleQuietUntil := kh_completed hs + k\<rparr>,
                        Some \<lparr>li_repeats = laps, li_firstSeq = ce_startSeq (ring ! first),
                              li_lastSeq = seq,
                              li_fingerprint = lap_fingerprint D salt (take k (drop newest ring)),
                              li_kind = Some Lk_cycle, li_period = Some k, li_laps = Some laps\<rparr>))"

definition detectCycle ::
  "digests \<Rightarrow> jstr \<Rightarrow> kind_history \<Rightarrow> jstr \<Rightarrow> jstr \<Rightarrow> nat \<Rightarrow> kind_history \<times> loop_info option" where
  "detectCycle D salt hs nodeId inFp seq =
     (if kh_completed hs < kh_cycleQuietUntil hs then (hs, None)
      else cycle_scan D salt hs nodeId inFp seq [CYCLE_MIN_PERIOD..<Suc CYCLE_MAX_PERIOD])"

text \<open>The backward scan: the entries still to look at, newest first.\<close>

fun error_scan ::
  "jstr \<Rightarrow> call_entry list \<Rightarrow> nat \<Rightarrow> jstr option \<Rightarrow> nat \<Rightarrow> nat \<times> jstr option \<times> nat" where
  "error_scan nodeId [] count errFp firstSeq = (count, errFp, firstSeq)"
| "error_scan nodeId (e # es) count errFp firstSeq =
     (if ce_nodeId e = None then (count, errFp, firstSeq)
      else if ce_nodeId e \<noteq> Some nodeId then error_scan nodeId es count errFp firstSeq
      else if ce_outcome e \<noteq> Some Oc_fail \<or> ce_outFp e = None \<or> ce_inFp e = None
           then (count, errFp, firstSeq)
      else if errFp = None then error_scan nodeId es (count + 1) (ce_outFp e) (ce_startSeq e)
      else if ce_outFp e \<noteq> errFp then (count, errFp, firstSeq)
      else error_scan nodeId es (count + 1) errFp (ce_startSeq e))"

definition detectErrorRepeat :: "kind_history \<Rightarrow> jstr \<Rightarrow> nat \<Rightarrow> loop_info option" where
  "detectErrorRepeat hs nodeId seq =
     (case error_scan nodeId (rev (kh_ring hs)) 0 None seq of
        (count, errFp, firstSeq) \<Rightarrow>
          (case errFp of
             None \<Rightarrow> None
           | Some fp \<Rightarrow>
               if count < ERROR_REPEAT_COUNT then None
               else Some \<lparr>li_repeats = count, li_firstSeq = firstSeq, li_lastSeq = seq,
                          li_fingerprint = fp, li_kind = Some Lk_error_repeat,
                          li_period = None, li_laps = None\<rparr>))"

section \<open>The class\<close>

fun kind_text :: "node_kind \<Rightarrow> jstr" where
  "kind_text Agent = lit ''agent''"
| "kind_text LLM = lit ''llm''"
| "kind_text Tool = lit ''tool''"
| "kind_text Chain = lit ''chain''"
| "kind_text Retriever = lit ''retriever''"
| "kind_text Server = lit ''server''"
| "kind_text Resource = lit ''resource''"
| "kind_text Prompt = lit ''prompt''"
| "kind_text Custom = lit ''custom''"

definition guard_enabled :: "loop_guard \<Rightarrow> bool" where
  "guard_enabled g \<longleftrightarrow> lc_mode (lg_config g) \<noteq> Mode_off \<and> 0 < lc_threshold (lg_config g)"

definition appliesTo :: "loop_guard \<Rightarrow> node_kind \<Rightarrow> jstr option \<Rightarrow> jstr option \<Rightarrow> bool" where
  "appliesTo g kind nodeId name \<longleftrightarrow>
     guard_enabled g \<and> kind_text kind \<in> set (lc_kinds (lg_config g))
     \<and> (lc_allowNodes (lg_config g) = []
        \<or> nodeId \<notin> Some ` set (lc_allowNodes (lg_config g))
          \<and> name \<notin> Some ` set (lc_allowNodes (lg_config g)))"

definition touch :: "jstr \<Rightarrow> run_state \<Rightarrow> loop_guard \<Rightarrow> loop_guard" where
  "touch runId st g = g\<lparr>lg_runs := AList.delete runId (lg_runs g) @ [(runId, st)]\<rparr>"

definition stateFor :: "jstr \<Rightarrow> loop_guard \<Rightarrow> loop_guard \<times> run_state" where
  "stateFor runId g =
     (case map_of (lg_runs g) runId of
        Some st \<Rightarrow> (touch runId st g, st)
      | None \<Rightarrow>
          (let runs = (if MAX_LOOP_RUNS \<le> length (lg_runs g) then tl (lg_runs g) else lg_runs g)
           in (g\<lparr>lg_runs := runs @ [(runId, empty_run)]\<rparr>, empty_run)))"

definition put_run :: "jstr \<Rightarrow> run_state \<Rightarrow> loop_guard \<Rightarrow> loop_guard" where
  "put_run runId st g = g\<lparr>lg_runs := AList.update runId st (lg_runs g)\<rparr>"

fun remove_first :: "('a \<Rightarrow> bool) \<Rightarrow> 'a list \<Rightarrow> 'a list" where
  "remove_first P [] = []"
| "remove_first P (x # xs) = (if P x then xs else x # remove_first P xs)"

definition openCall :: "run_state \<Rightarrow> open_call \<Rightarrow> run_state" where
  "openCall st call =
     (let kept = (if oc_instanceId call = None then rs_open st
                  else remove_first (\<lambda>o'. oc_nodeId o' = oc_nodeId call
                                         \<and> oc_instanceId o' = oc_instanceId call) (rs_open st));
          calls = kept @ [call]
      in st\<lparr>rs_open := (if MAX_OPEN_CALLS_PER_RUN < length calls then tl calls else calls)\<rparr>)"

text \<open>The largest index that satisfies the test: the loops \<open>for (i = length - 1; i >= 0; i -= 1)\<close>.\<close>

definition last_index :: "('a \<Rightarrow> bool) \<Rightarrow> 'a list \<Rightarrow> nat option" where
  "last_index P xs = find (\<lambda>i. P (xs ! i)) (rev [0..<length xs])"

definition findOpenIndex :: "run_state \<Rightarrow> jstr option \<Rightarrow> jstr option \<Rightarrow> nat option" where
  "findOpenIndex st nodeId instanceId =
     (case nodeId of
        None \<Rightarrow> None
      | Some n \<Rightarrow>
          (case instanceId of
             Some i \<Rightarrow>
               (case last_index (\<lambda>c. oc_nodeId c = n \<and> oc_instanceId c = Some i) (rs_open st) of
                  Some k \<Rightarrow> Some k
                | None \<Rightarrow> last_index (\<lambda>c. oc_nodeId c = n \<and> oc_instanceId c = None) (rs_open st))
           | None \<Rightarrow> last_index (\<lambda>c. oc_nodeId c = n) (rs_open st)))"

definition set_verdict :: "verdict option \<Rightarrow> kind_history \<Rightarrow> kind_history" where
  "set_verdict v hs = hs\<lparr>kh_verdict := v\<rparr>"

definition next_streak :: "streak option \<Rightarrow> jstr \<Rightarrow> jstr \<Rightarrow> nat \<Rightarrow> streak" where
  "next_streak old nodeId fp seq =
     (case old of
        Some s \<Rightarrow>
          if sk_nodeId s = nodeId \<and> sk_fingerprint s = fp
          then s\<lparr>sk_repeats := sk_repeats s + 1, sk_lastSeq := seq, sk_tripped := False\<rparr>
          else \<lparr>sk_nodeId = nodeId, sk_fingerprint = fp, sk_repeats = 1, sk_firstSeq = seq,
                sk_lastSeq = seq, sk_tripped = False, sk_warned = False\<rparr>
      | None \<Rightarrow>
          \<lparr>sk_nodeId = nodeId, sk_fingerprint = fp, sk_repeats = 1, sk_firstSeq = seq,
           sk_lastSeq = seq, sk_tripped = False, sk_warned = False\<rparr>)"

definition record_unreadable ::
  "run_state \<Rightarrow> node_kind \<Rightarrow> jstr option \<Rightarrow> jstr option \<Rightarrow> nat \<Rightarrow> run_state" where
  "record_unreadable st kind nodeId instanceId seq =
     (let st1 = st\<lparr>rs_streaks := AList.delete kind (rs_streaks st)\<rparr>
      in case nodeId of
           Some n \<Rightarrow> openCall st1 \<lparr>oc_kind = kind, oc_nodeId = n, oc_instanceId = instanceId,
                                  oc_inFp = None, oc_startSeq = seq, oc_errFp = None\<rparr>
         | None \<Rightarrow> set_history kind (pushEntry (historyOf st1 kind)
                     \<lparr>ce_nodeId = None, ce_inFp = None, ce_outcome = None, ce_outFp = None,
                      ce_startSeq = seq\<rparr>) st1)"

definition detect ::
  "digests \<Rightarrow> jstr \<Rightarrow> kind_history \<Rightarrow> jstr \<Rightarrow> jstr \<Rightarrow> nat \<Rightarrow> kind_history \<times> loop_info option" where
  "detect D salt hs nodeId fp seq =
     (case detectCycle D salt hs nodeId fp seq of
        (hs1, Some info) \<Rightarrow> (hs1, Some info)
      | (hs1, None) \<Rightarrow> (hs1, detectErrorRepeat hs1 nodeId seq))"

definition record_call ::
  "digests \<Rightarrow> loop_guard \<Rightarrow> run_state \<Rightarrow> node_kind \<Rightarrow> jstr \<Rightarrow> jstr option \<Rightarrow> jstr \<Rightarrow> nat
     \<Rightarrow> run_state \<times> loop_record" where
  "record_call D g st kind nodeId instanceId fp seq =
     (let sk = next_streak (map_of (rs_streaks st) kind) nodeId fp seq;
          st1 = st\<lparr>rs_streaks := AList.update kind sk (rs_streaks st)\<rparr>;
          st2 = openCall st1 \<lparr>oc_kind = kind, oc_nodeId = nodeId, oc_instanceId = instanceId,
                              oc_inFp = Some fp, oc_startSeq = seq, oc_errFp = None\<rparr>;
          (hs, detected) = detect D (lg_salt g) (historyOf st2 kind) nodeId fp seq;
          hs' = (case detected of
                   None \<Rightarrow> hs
                 | Some info \<Rightarrow>
                     set_verdict (Some \<lparr>vd_nodeId = nodeId, vd_info = info, vd_tripped = False\<rparr>) hs)
      in (set_history kind hs' st2,
          \<lparr>lr_repeats = sk_repeats sk, lr_firstSeq = sk_firstSeq sk, lr_lastSeq = sk_lastSeq sk,
           lr_fingerprint = fp, lr_atThreshold = lc_threshold (lg_config g) \<le> sk_repeats sk,
           lr_detected = detected\<rparr>))"

definition guard_record ::
  "digests \<Rightarrow> heap \<Rightarrow> loop_guard \<Rightarrow> jstr \<Rightarrow> node_kind \<Rightarrow> jstr option \<Rightarrow> jstr option \<Rightarrow> js \<Rightarrow> nat
     \<Rightarrow> jstr option \<Rightarrow> loop_guard \<times> loop_record option" where
  "guard_record D h g runId kind nodeId name input seq instanceId =
     (if \<not> appliesTo g kind nodeId name then (g, None)
      else
        let fingerprint = comparableFingerprint D h nodeId input (set (lc_ignoreKeys (lg_config g)));
            (g1, st) = stateFor runId g;
            st1 = set_history kind (set_verdict None (historyOf st kind)) st
        in case (fingerprint, nodeId) of
             (Some fp, Some n) \<Rightarrow>
               (let (st2, r) = record_call D g1 st1 kind n instanceId fp seq
                in (put_run runId st2 g1, Some r))
           | _ \<Rightarrow> (put_run runId (record_unreadable st1 kind nodeId instanceId seq) g1, None))"

definition noteError ::
  "digests \<Rightarrow> loop_guard \<Rightarrow> jstr \<Rightarrow> jstr option \<Rightarrow> jstr option \<Rightarrow> jstr option \<Rightarrow> jstr option
     \<Rightarrow> loop_guard" where
  "noteError D g runId nodeId instanceId name message =
     (if \<not> guard_enabled g then g
      else case map_of (lg_runs g) runId of
             None \<Rightarrow> g
           | Some st \<Rightarrow>
               (case findOpenIndex st nodeId instanceId of
                  None \<Rightarrow> g
                | Some i \<Rightarrow>
                    (let fp = (case (name, message) of
                                 (Some n, Some m) \<Rightarrow> Some (thrownErrorDigest D n m (lg_salt g))
                               | _ \<Rightarrow> None)
                     in put_run runId
                          (st\<lparr>rs_open := (rs_open st)[i := (rs_open st ! i)\<lparr>oc_errFp := fp\<rparr>]\<rparr>) g)))"

text \<open>\<open>status\<close> is None for a value that is not one of the documented strings.\<close>

definition entryFor ::
  "digests \<Rightarrow> heap \<Rightarrow> loop_guard \<Rightarrow> open_call \<Rightarrow> run_status option \<Rightarrow> js \<Rightarrow> bool \<Rightarrow> call_entry" where
  "entryFor D h g call status output emitted =
     (let unknown = \<lparr>ce_nodeId = Some (oc_nodeId call), ce_inFp = None, ce_outcome = None,
                     ce_outFp = None, ce_startSeq = oc_startSeq call\<rparr>;
          readable = (output \<noteq> UNREADABLE_INPUT);
          shape = (if readable \<and> oc_kind call = Tool then errorResultShape h output else None);
          ignore = set (lc_ignoreKeys (lg_config g));
          digest = (\<lambda>prefix. outcomeDigest D h prefix output ignore (lg_salt g))
      in if \<not> emitted \<or> oc_inFp call = None then unknown
         else case status of
                Some St_ok \<Rightarrow>
                  (if \<not> readable then unknown
                   else if shape \<noteq> None
                   then unknown\<lparr>ce_inFp := oc_inFp call, ce_outcome := Some Oc_fail,
                                ce_outFp := digest ''res''\<rparr>
                   else unknown\<lparr>ce_inFp := oc_inFp call, ce_outcome := Some Oc_ok,
                                ce_outFp := digest ''out''\<rparr>)
              | Some St_error \<Rightarrow>
                  unknown\<lparr>ce_inFp := oc_inFp call, ce_outcome := Some Oc_fail,
                          ce_outFp := (if isReturnedErrorShape shape then digest ''res''
                                       else if oc_errFp call \<noteq> None then oc_errFp call
                                       else if shape \<noteq> None then digest ''res'' else None)\<rparr>
              | _ \<Rightarrow> unknown)"

definition complete ::
  "digests \<Rightarrow> heap \<Rightarrow> loop_guard \<Rightarrow> jstr \<Rightarrow> jstr option \<Rightarrow> jstr option \<Rightarrow> run_status option \<Rightarrow> js \<Rightarrow> bool
     \<Rightarrow> loop_guard" where
  "complete D h g runId nodeId instanceId status output emitted =
     (if \<not> guard_enabled g then g
      else case map_of (lg_runs g) runId of
             None \<Rightarrow> g
           | Some st \<Rightarrow>
               (case findOpenIndex st nodeId instanceId of
                  None \<Rightarrow> g
                | Some i \<Rightarrow>
                    (let call = rs_open st ! i;
                         st1 = st\<lparr>rs_open := take i (rs_open st) @ drop (Suc i) (rs_open st)\<rparr>;
                         st2 = set_history (oc_kind call)
                                 (pushEntry (historyOf st1 (oc_kind call))
                                   (entryFor D h g call status output emitted)) st1
                     in touch runId st2 g)))"

definition trip_verdict :: "node_kind \<Rightarrow> run_state \<Rightarrow> run_state" where
  "trip_verdict kind st =
     (case map_of (rs_histories st) kind of
        None \<Rightarrow> st
      | Some hs \<Rightarrow>
          set_history kind (set_verdict (map_option (\<lambda>v. v\<lparr>vd_tripped := True\<rparr>) (kh_verdict hs)) hs) st)"

definition streak_info :: "streak \<Rightarrow> loop_info" where
  "streak_info s =
     \<lparr>li_repeats = sk_repeats s, li_firstSeq = sk_firstSeq s, li_lastSeq = sk_lastSeq s,
      li_fingerprint = sk_fingerprint s, li_kind = None, li_period = None, li_laps = None\<rparr>"

text \<open>What \<open>consult\<close> does to the state of the run it finds.\<close>

definition consult_run ::
  "nat \<Rightarrow> run_state \<Rightarrow> node_kind \<Rightarrow> jstr option \<Rightarrow> run_state \<times> loop_info option" where
  "consult_run threshold st kind nodeId =
     (let verdict = Option.bind (map_of (rs_histories st) kind) kh_verdict;
          mine = (case verdict of None \<Rightarrow> False | Some v \<Rightarrow> Some (vd_nodeId v) = nodeId);
          fallthrough =
            (case verdict of
               None \<Rightarrow> (st, None)
             | Some v \<Rightarrow> if \<not> mine \<or> vd_tripped v then (st, None)
                        else (trip_verdict kind st, Some (vd_info v)))
      in case map_of (rs_streaks st) kind of
           None \<Rightarrow> fallthrough
         | Some s \<Rightarrow>
             if Some (sk_nodeId s) = nodeId \<and> \<not> sk_tripped s \<and> threshold \<le> sk_repeats s
             then (let st1 = st\<lparr>rs_streaks := AList.update kind (s\<lparr>sk_tripped := True\<rparr>) (rs_streaks st)\<rparr>
                   in (if mine then trip_verdict kind st1 else st1, Some (streak_info s)))
             else fallthrough)"

definition consult ::
  "loop_guard \<Rightarrow> jstr \<Rightarrow> node_kind \<Rightarrow> jstr option \<Rightarrow> jstr option \<Rightarrow> loop_guard \<times> loop_info option" where
  "consult g runId kind nodeId name =
     (if \<not> appliesTo g kind nodeId name then (g, None)
      else case map_of (lg_runs g) runId of
             None \<Rightarrow> (g, None)
           | Some st \<Rightarrow>
               (let (st', info) = consult_run (lc_threshold (lg_config g)) st kind nodeId
                in (put_run runId st' g, info)))"

text \<open>The loop over the candidate kinds of \<open>claimWarning\<close>.\<close>

fun claim_first :: "node_kind list \<Rightarrow> jstr option \<Rightarrow> run_state \<Rightarrow> run_state \<times> bool" where
  "claim_first [] nodeId st = (st, False)"
| "claim_first (k # ks) nodeId st =
     (case map_of (rs_streaks st) k of
        None \<Rightarrow> claim_first ks nodeId st
      | Some s \<Rightarrow>
          if Some (sk_nodeId s) \<noteq> nodeId then claim_first ks nodeId st
          else if sk_warned s then (st, False)
          else (st\<lparr>rs_streaks := AList.update k (s\<lparr>sk_warned := True\<rparr>) (rs_streaks st)\<rparr>, True))"

definition claimWarning ::
  "loop_guard \<Rightarrow> jstr \<Rightarrow> jstr option \<Rightarrow> node_kind option \<Rightarrow> loop_guard \<times> bool" where
  "claimWarning g runId nodeId kind =
     (case map_of (lg_runs g) runId of
        None \<Rightarrow> (g, False)
      | Some st \<Rightarrow>
          (let (st', claimed) = claim_first (case kind of None \<Rightarrow> okeys (rs_streaks st) | Some k \<Rightarrow> [k])
                                  nodeId st
           in (put_run runId st' g, claimed)))"

definition forget :: "loop_guard \<Rightarrow> jstr \<Rightarrow> loop_guard" where
  "forget g runId = g\<lparr>lg_runs := AList.delete runId (lg_runs g)\<rparr>"

definition trackedCalls :: "loop_guard \<Rightarrow> nat" where
  "trackedCalls g =
     sum_list (map (\<lambda>(r, st). length (rs_open st)
       + sum_list (map (\<lambda>(k, hs). length (kh_ring hs)) (rs_histories st))) (lg_runs g))"

definition trackedStreaks :: "loop_guard \<Rightarrow> nat" where
  "trackedStreaks g = sum_list (map (\<lambda>(r, st). length (rs_streaks st)) (lg_runs g))"

section \<open>The configuration never throws\<close>

text \<open>
  C40: Configuration errors stay in the client. Whatever the options object and the environment do
  (getters and reads that throw included), a configuration is resolved; an options object that
  cannot be read is ignored as a whole, and with an environment that cannot be read either, the
  documented defaults hold.
\<close>

theorem loop_config_always_resolves:
  "(\<exists>c. resolveLoopGuard h N options env = Some c)
   \<and> (resolveLoopGuardStrict h N options env = None
       \<longrightarrow> resolveLoopGuard h N options env = resolveLoopGuard h N JUndef env)
   \<and> (resolveLoopGuardStrict h N options env = None \<and> env ''GRAPHMIND_LOOP_ALLOW'' = None
       \<longrightarrow> resolveLoopGuard h N options env =
          Some \<lparr>lc_threshold = 3, lc_mode = Mode_pause, lc_ignoreKeys = [lit ''_meta''],
                lc_allowNodes = [], lc_kinds = [lit ''tool'']\<rparr>)"
proof -
  have last: "resolveLoopGuardStrict h N JUndef (\<lambda>_. Some None) =
      Some \<lparr>lc_threshold = 3, lc_mode = Mode_pause, lc_ignoreKeys = [lit ''_meta''],
            lc_allowNodes = [], lc_kinds = [lit ''tool'']\<rparr>"
    by (simp add: resolveLoopGuardStrict_def opt_member_def validThreshold_def validMode_def
        strings_or_def parseLoopThreshold_def parseLoopMode_def parseLoopAllow_def
        DEFAULT_LOOP_THRESHOLD_def DEFAULT_LOOP_MODE_def DEFAULT_LOOP_KINDS_def DEFAULT_LOOP_IGNORE_KEYS_def)
  moreover have "resolveLoopGuardStrict h N JUndef env = None" if "env ''GRAPHMIND_LOOP_ALLOW'' = None"
    using that by (simp add: resolveLoopGuardStrict_def opt_member_def strings_or_def bind_eq_None_conv)
  ultimately show ?thesis
    by (auto simp: resolveLoopGuard_def split: option.split)
qed

theorem loop_config_always_resolves_witness:
  "let h = (\<lambda>a. (js_record [])\<lparr>jo_revoked := True\<rparr>); env = (\<lambda>_. None)
   in resolveLoopGuardStrict h (\<lambda>_. NaN) (JObj 0) env = None
      \<and> map_option lc_threshold (resolveLoopGuard h (\<lambda>_. NaN) (JObj 0) env) = Some 3"
proof -
  have n: "resolveLoopGuardStrict (\<lambda>a. (js_record [])\<lparr>jo_revoked := True\<rparr>) (\<lambda>_. NaN) (JObj 0) (\<lambda>_. None) = None"
    by (simp add: resolveLoopGuardStrict_def opt_member_def get_prop_def)
  then show ?thesis
    using loop_config_always_resolves [of "\<lambda>a. (js_record [])\<lparr>jo_revoked := True\<rparr>" "\<lambda>_. NaN" "JObj 0" "\<lambda>_. None",
        THEN conjunct2, THEN conjunct2]
    by (simp add: Let_def)
qed

end
