(* ===== verification/Loop_Detect.thy ===== *)
theory Loop_Detect
  imports Loop_Guard "HOL-Library.Sublist"
begin

text \<open>
  What the two v4 detectors of \<open>loop-guard.ts\<close> decide, as list properties: the completed calls
  end in identical laps, and the node's own last calls failed alike. The index scans of the
  code are shown to decide exactly that.
\<close>

section \<open>Repeated errors\<close>

text \<open>The failure of one call of the node that another failure can be compared with.\<close>

definition failure_of :: "jstr \<Rightarrow> call_entry \<Rightarrow> jstr option" where
  "failure_of nodeId e =
     (if ce_nodeId e = Some nodeId \<and> ce_outcome e = Some Oc_fail \<and> ce_inFp e \<noteq> None
      then ce_outFp e else None)"

text \<open>The calls that are, or may have been, the node's, newest first.\<close>

definition own_calls :: "jstr \<Rightarrow> call_entry list \<Rightarrow> call_entry list" where
  "own_calls nodeId ring = filter (\<lambda>e. ce_nodeId e \<in> {None, Some nodeId}) (rev ring)"

text \<open>The newest of them that failed with the very error of the newest.\<close>

definition failing_streak :: "jstr \<Rightarrow> call_entry list \<Rightarrow> call_entry list" where
  "failing_streak nodeId ring =
     (let own = own_calls nodeId ring
      in takeWhile (\<lambda>e. failure_of nodeId e \<noteq> None \<and> failure_of nodeId e = failure_of nodeId (hd own)) own)"

lemma error_scan_some:
  "error_scan n es c (Some fp) f =
     (let L = takeWhile (\<lambda>e. failure_of n e = Some fp) (filter (\<lambda>e. ce_nodeId e \<in> {None, Some n}) es)
      in (c + length L, Some fp, if L = [] then f else ce_startSeq (last L)))"
  by (induction n es c "Some fp" f rule: error_scan.induct)
    (auto simp: failure_of_def Let_def)

lemma error_scan_none:
  "error_scan n es 0 None f =
     (let own = filter (\<lambda>e. ce_nodeId e \<in> {None, Some n}) es;
          L = takeWhile (\<lambda>e. failure_of n e \<noteq> None \<and> failure_of n e = failure_of n (hd own)) own
      in (length L, if L = [] then None else failure_of n (hd L), if L = [] then f else ce_startSeq (last L)))"
proof (induction es)
  case Nil
  then show ?case by simp
next
  case (Cons e es)
  show ?case
  proof (cases "ce_nodeId e = None \<or> ce_nodeId e = Some n")
    case False
    then show ?thesis
      using Cons.IH by auto
  next
    case own: True
    show ?thesis
    proof (cases "failure_of n e")
      case None
      then show ?thesis
        using own by (auto simp: failure_of_def)
    next
      case (Some fp)
      then have e: "ce_nodeId e = Some n" "ce_outcome e = Some Oc_fail" "ce_inFp e \<noteq> None" "ce_outFp e = Some fp"
        by (auto simp: failure_of_def split: if_splits)
      have same: "(\<exists>y. failure_of n x = Some y) \<and> failure_of n x = Some fp \<longleftrightarrow> failure_of n x = Some fp" for x
        by blast
      show ?thesis
        using Some e by (simp add: error_scan_some Let_def same)
    qed
  qed
qed

text \<open>
  C37: The error-repeat rule. The detector reports exactly when the node's own newest calls (calls
  of other nodes left out) are at least three failures with one identical, comparable error; it
  reports how many they are, the start of the first of them and their common digest.
\<close>

theorem error_repeat_is_failing_streak:
  "detectErrorRepeat hs nodeId seq =
     (let S = failing_streak nodeId (kh_ring hs)
      in if length S < ERROR_REPEAT_COUNT then None
         else Some \<lparr>li_repeats = length S, li_firstSeq = ce_startSeq (last S), li_lastSeq = seq,
                    li_fingerprint = the (failure_of nodeId (hd S)), li_kind = Some Lk_error_repeat,
                    li_period = None, li_laps = None\<rparr>)"
proof -
  define S where "S = failing_streak nodeId (kh_ring hs)"
  have scan: "error_scan nodeId (rev (kh_ring hs)) 0 None seq =
      (length S, if S = [] then None else failure_of nodeId (hd S),
       if S = [] then seq else ce_startSeq (last S))"
    by (simp add: error_scan_none S_def failing_streak_def own_calls_def Let_def)
  have "failure_of nodeId (hd S) \<noteq> None" if "S \<noteq> []"
    using that hd_in_set [OF that] set_takeWhileD
    unfolding S_def failing_streak_def Let_def by fastforce
  then show ?thesis
    unfolding detectErrorRepeat_def scan S_def [symmetric] Let_def
    by (auto simp: ERROR_REPEAT_COUNT_def)
qed

section \<open>Cycles\<close>

text \<open>What two calls are compared by, None when the call equals nothing.\<close>

definition call_key :: "call_entry \<Rightarrow> (jstr option \<times> jstr option \<times> call_outcome option \<times> jstr option) option" where
  "call_key e = (if comparable e then Some (ce_nodeId e, ce_inFp e, ce_outcome e, ce_outFp e) else None)"

definition call_keys :: "call_entry list \<Rightarrow> (jstr option \<times> jstr option \<times> call_outcome option \<times> jstr option) option list" where
  "call_keys ring = map call_key ring"

lemma sameEntry_key: "sameEntry a (Some b) \<longleftrightarrow> call_key a \<noteq> None \<and> call_key a = call_key b"
  by (auto simp: sameEntry_def call_key_def)

definition block :: "nat \<Rightarrow> nat \<Rightarrow> 'a list \<Rightarrow> 'a list" where
  "block a k xs = take k (drop a xs)"

lemma block_eq:
  assumes "a + k \<le> length xs" and "b + k \<le> length xs"
  shows "block a k xs = block b k xs \<longleftrightarrow> (\<forall>i<k. xs ! (a + i) = xs ! (b + i))"
  using assms by (auto simp: block_def list_eq_iff_nth_eq)

lemma set_block: "a + k \<le> length xs \<Longrightarrow> x \<in> set (block a k xs) \<longleftrightarrow> (\<exists>i<k. x = xs ! (a + i))"
  by (auto simp: block_def in_set_conv_nth)

lemma lapsEqual_blocks:
  assumes "a + k \<le> length ring" and "b + k \<le> length ring"
  shows "lapsEqual ring a b k \<longleftrightarrow>
    None \<notin> set (block a k (call_keys ring)) \<and> block a k (call_keys ring) = block b k (call_keys ring)"
proof -
  have "lapsEqual ring a b k \<longleftrightarrow> (\<forall>i<k. sameEntry (ring ! (a + i)) (Some (ring ! (b + i))))"
    using assms by (auto simp: lapsEqual_def entry_at_def list_all_iff)
  also have "\<dots> \<longleftrightarrow> (\<forall>i<k. call_keys ring ! (a + i) \<noteq> None) \<and> (\<forall>i<k. call_keys ring ! (a + i) = call_keys ring ! (b + i))"
    using assms unfolding sameEntry_key call_keys_def by (auto simp del: not_None_eq)
  also have "(\<forall>i<k. call_keys ring ! (a + i) \<noteq> None) \<longleftrightarrow> None \<notin> set (block a k (call_keys ring))"
    using assms set_block [of a k "call_keys ring" None] by (metis call_keys_def length_map)
  also have "(\<forall>i<k. call_keys ring ! (a + i) = call_keys ring ! (b + i)) \<longleftrightarrow>
      block a k (call_keys ring) = block b k (call_keys ring)"
    using assms by (simp add: block_eq call_keys_def)
  finally show ?thesis .
qed

text \<open>The list ends in \<open>n\<close> copies of a lap.\<close>

definition ends_in_laps :: "'a list \<Rightarrow> 'a list \<Rightarrow> nat \<Rightarrow> bool" where
  "ends_in_laps xs lap n \<longleftrightarrow> suffix (concat (replicate n lap)) xs"

lemma length_laps: "length (concat (replicate n lap)) = n * length lap"
  by (induction n) simp_all

lemma ends_in_laps_Suc:
  "ends_in_laps xs lap (Suc n) \<longleftrightarrow>
     Suc n * length lap \<le> length xs \<and> block (length xs - Suc n * length lap) (length lap) xs = lap
     \<and> ends_in_laps xs lap n"
proof
  assume "ends_in_laps xs lap (Suc n)"
  then obtain ys where xs: "xs = ys @ lap @ concat (replicate n lap)"
    by (auto simp: ends_in_laps_def suffix_def)
  then have "ends_in_laps xs lap n"
    unfolding ends_in_laps_def suffix_def by (metis append.assoc)
  with xs show "Suc n * length lap \<le> length xs \<and> block (length xs - Suc n * length lap) (length lap) xs = lap
     \<and> ends_in_laps xs lap n"
    by (simp add: length_laps block_def)
next
  assume a: "Suc n * length lap \<le> length xs \<and> block (length xs - Suc n * length lap) (length lap) xs = lap
     \<and> ends_in_laps xs lap n"
  then obtain ys where xs: "xs = ys @ concat (replicate n lap)"
    by (auto simp: ends_in_laps_def suffix_def)
  then have len: "length lap \<le> length ys" and "length xs - Suc n * length lap = length ys - length lap"
    using a by (simp_all add: length_laps)
  with a xs have "drop (length ys - length lap) ys = lap"
    by (simp add: block_def)
  then have "ys = take (length ys - length lap) ys @ lap"
    by (metis append_take_drop_id)
  with xs show "ends_in_laps xs lap (Suc n)"
    unfolding ends_in_laps_def suffix_def by (metis append.assoc concat.simps(2) replicate_Suc)
qed

lemma ends_in_laps_mono: "ends_in_laps xs lap n \<Longrightarrow> m \<le> n \<Longrightarrow> ends_in_laps xs lap m"
  by (induction n) (auto simp: ends_in_laps_Suc le_Suc_eq)

lemma ends_in_laps_0 [simp]: "ends_in_laps xs lap 0"
  by (simp add: ends_in_laps_def)

text \<open>The loop that counts laps stops at the largest number of laps the history ends in.\<close>

lemma count_back_max:
  assumes "ends_in_laps (call_keys ring) lap laps" and "length lap = k" and "0 < k" and "None \<notin> set lap"
    and "first = length ring - laps * k" and "laps * k \<le> length ring" and "0 < laps"
    and "count_back ring (length ring - k) k first laps = (first', laps')"
  shows "first' = length ring - laps' * k \<and> laps' * k \<le> length ring \<and> laps \<le> laps'
    \<and> (\<forall>n. ends_in_laps (call_keys ring) lap n \<longleftrightarrow> n \<le> laps')"
  using assms
proof (induction ring "length ring - k" k first laps rule: count_back.induct)
  case (1 ring k first laps)
  have "k \<le> laps * k"
    using 1(8) by simp
  then have kl: "k \<le> length ring"
    using 1(7) by linarith
  obtain m where m: "laps = Suc m"
    using 1(8) by (cases laps) auto
  have newest: "block (length ring - k) k (call_keys ring) = lap"
  proof -
    have "ends_in_laps (call_keys ring) lap 1"
      using ends_in_laps_mono [OF 1(2), of 1] m by simp
    then show ?thesis
      using 1(3) ends_in_laps_Suc [of "call_keys ring" lap 0] by (simp add: call_keys_def)
  qed
  have step: "k \<le> first \<and> lapsEqual ring (first - k) (length ring - k) k
      \<longleftrightarrow> ends_in_laps (call_keys ring) lap (Suc laps)"
  proof (cases "k \<le> first")
    case True
    have "first - k = length ring - Suc laps * k" "Suc laps * k \<le> length ring"
      using True 1(6,7) by simp_all
    then show ?thesis
      using True kl 1(2,3,5) newest lapsEqual_blocks [of "first - k" k ring "length ring - k"]
      by (auto simp: ends_in_laps_Suc call_keys_def)
  next
    case False
    then have "\<not> Suc laps * k \<le> length ring"
      using 1(6,7) by simp
    with False show ?thesis
      using 1(3) by (auto simp: ends_in_laps_Suc call_keys_def)
  qed
  show ?case
  proof (cases "ends_in_laps (call_keys ring) lap (Suc laps)")
    case True
    with step have c: "0 < k \<and> k \<le> first \<and> lapsEqual ring (first - k) (length ring - k) k"
      using 1(4) by simp
    have "first - k = length ring - (laps + 1) * k"
      using 1(6) by simp
    moreover have "(laps + 1) * k \<le> length ring"
      using c 1(6,7) le_diff_conv2 [of "laps * k" "length ring" k] by simp
    ultimately have "(first' = length ring - laps' * k \<and> laps' * k \<le> length ring \<and> laps + 1 \<le> laps')
        \<and> (\<forall>n. ends_in_laps (call_keys ring) lap n \<longleftrightarrow> n \<le> laps')"
      using 1(1) [OF c] True 1(3-5,9) c by (simp add: count_back.simps [of ring _ k first])
    then show ?thesis by simp
  next
    case False
    with step have "count_back ring (length ring - k) k first laps = (first, laps)"
      by (subst count_back.simps) auto
    then have "first' = first" "laps' = laps"
      using 1(9) by simp_all
    moreover have "ends_in_laps (call_keys ring) lap n \<longleftrightarrow> n \<le> laps" for n
      using False 1(2) ends_in_laps_mono by (metis not_less_eq_eq)
    ultimately show ?thesis
      using 1(6,7) by simp
  qed
qed

definition call_of :: "(jstr option \<times> jstr option \<times> call_outcome option \<times> jstr option) option
    \<Rightarrow> jstr option \<times> jstr option" where
  "call_of key = (case key of Some (n, i, r) \<Rightarrow> (n, i) | None \<Rightarrow> (None, None))"

text \<open>
  Three identical laps of \<open>k\<close> comparable calls, not all one call, whose first call is the one
  that starts now.
\<close>

type_synonym call_id = "(jstr option \<times> jstr option \<times> call_outcome option \<times> jstr option) option"

definition cycle_lap :: "call_entry list \<Rightarrow> jstr \<Rightarrow> jstr \<Rightarrow> nat \<Rightarrow> call_id list \<Rightarrow> bool" where
  "cycle_lap ring nodeId inFp k lap \<longleftrightarrow>
     length lap = k \<and> None \<notin> set lap \<and> ends_in_laps (call_keys ring) lap CYCLE_LAPS
     \<and> call_of (hd lap) = (Some nodeId, Some inFp)
     \<and> (\<exists>x\<in>set lap. call_of x \<noteq> (Some nodeId, Some inFp))"

lemma laps_identical_blocks:
  assumes "CYCLE_LAPS * k \<le> length ring" and "base = length ring - CYCLE_LAPS * k"
  shows "laps_identical ring base k \<longleftrightarrow>
    None \<notin> set (block base k (call_keys ring))
    \<and> ends_in_laps (call_keys ring) (block base k (call_keys ring)) CYCLE_LAPS"
proof -
  let ?K = "call_keys ring" and ?B = "\<lambda>a. block a k (call_keys ring)"
  have len: "length ?K = length ring" "length (?B base) = k"
    using assms by (simp_all add: call_keys_def block_def CYCLE_LAPS_def)
  have b: "base + 2 * k + k = length ring"
    using assms by (simp add: CYCLE_LAPS_def)
  have "laps_identical ring base k \<longleftrightarrow>
      None \<notin> set (?B base) \<and> ?B base = ?B (base + k) \<and> ?B base = ?B (base + 2 * k)"
    using b by (auto simp: laps_identical_def CYCLE_LAPS_def lapsEqual_blocks numeral_eq_Suc)
  also have "\<dots> \<longleftrightarrow> None \<notin> set (?B base) \<and> ends_in_laps ?K (?B base) (Suc (Suc (Suc 0)))"
  proof -
    have "length ring - Suc 0 * k = base + 2 * k" "length ring - Suc (Suc 0) * k = base + k"
      "length ring - Suc (Suc (Suc 0)) * k = base" "Suc (Suc (Suc 0)) * k \<le> length ring"
      "Suc (Suc 0) * k \<le> length ring" "Suc 0 * k \<le> length ring"
      using b by simp_all
    then show ?thesis
      unfolding ends_in_laps_Suc len by auto
  qed
  finally show ?thesis
    by (simp add: CYCLE_LAPS_def numeral_3_eq_3)
qed

lemma key_call:
  "call_key e \<noteq> None \<Longrightarrow> call_of (call_key e) = (ce_nodeId e, ce_inFp e)"
  by (simp add: call_key_def call_of_def split: if_splits)

lemma cycle_lap_determined:
  assumes "cycle_lap ring n fp k lap"
  shows "CYCLE_LAPS * k \<le> length ring \<and> lap = block (length ring - CYCLE_LAPS * k) k (call_keys ring)"
  using assms ends_in_laps_Suc [of "call_keys ring" lap 2]
  by (auto simp: cycle_lap_def CYCLE_LAPS_def call_keys_def)

text \<open>The tests the scan makes for one period.\<close>

lemma cycle_tests:
  assumes "0 < k" and "CYCLE_LAPS * k \<le> length ring" and "base = length ring - CYCLE_LAPS * k"
  shows "(ce_nodeId (ring ! base) = Some n \<and> ce_inFp (ring ! base) = Some fp
           \<and> laps_identical ring base k \<and> lap_distinct ring base k (ring ! base))
    \<longleftrightarrow> cycle_lap ring n fp k (block base k (call_keys ring))"
proof (cases "laps_identical ring base k")
  case True
  let ?L = "block base k (call_keys ring)"
  have len: "base + k \<le> length ring" "base < length ring"
    using assms by (simp_all add: CYCLE_LAPS_def)
  have L: "None \<notin> set ?L" "ends_in_laps (call_keys ring) ?L CYCLE_LAPS" "length ?L = k"
    using True laps_identical_blocks [OF assms(2,3)] len by (auto simp: block_def call_keys_def)
  have nth: "?L ! i = call_key (ring ! (base + i))" if "i < k" for i
    using that len by (simp add: block_def call_keys_def)
  have call: "call_of (?L ! i) = (ce_nodeId (ring ! (base + i)), ce_inFp (ring ! (base + i)))" if "i < k" for i
    using key_call [of "ring ! (base + i)"] nth [OF that] L(1,3) that by (metis nth_mem)
  have "?L \<noteq> []"
    using L(3) assms(1) by auto
  then have hd: "call_of (hd ?L) = (ce_nodeId (ring ! base), ce_inFp (ring ! base))"
    using call [of 0] assms(1) by (simp add: hd_conv_nth)
  have all: "(\<exists>x\<in>set ?L. call_of x \<noteq> c) \<longleftrightarrow>
      (\<exists>i<k. (ce_nodeId (ring ! (base + i)), ce_inFp (ring ! (base + i))) \<noteq> c)" for c
    using call L(3) by (metis in_set_conv_nth)
  have dist: "lap_distinct ring base k (ring ! base) \<longleftrightarrow>
      (\<exists>i<k. (ce_nodeId (ring ! (base + i)), ce_inFp (ring ! (base + i))) \<noteq>
             (ce_nodeId (ring ! base), ce_inFp (ring ! base)))"
  proof -
    have "lap_distinct ring base k (ring ! base) \<longleftrightarrow>
        (\<exists>i\<in>{1..<k}. ce_nodeId (ring ! (base + i)) \<noteq> ce_nodeId (ring ! base)
           \<or> ce_inFp (ring ! (base + i)) \<noteq> ce_inFp (ring ! base))"
      unfolding lap_distinct_def entry_at_def list_ex_iff using len by (intro bex_cong) auto
    then show ?thesis
      by (metis Pair_inject add_0_right atLeastLessThan_iff le_simps(3) neq0_conv One_nat_def)
  qed
  show ?thesis
    unfolding cycle_lap_def hd using True L all [of "(Some n, Some fp)"] dist by auto
next
  case False
  then show ?thesis
    using laps_identical_blocks [OF assms(2,3)] unfolding cycle_lap_def by blast
qed

definition has_cycle :: "call_entry list \<Rightarrow> jstr \<Rightarrow> jstr \<Rightarrow> nat \<Rightarrow> bool" where
  "has_cycle ring nodeId inFp k \<longleftrightarrow> (\<exists>lap. cycle_lap ring nodeId inFp k lap)"

text \<open>What the scan reports for a period.\<close>

definition cycle_report ::
  "digests \<Rightarrow> jstr \<Rightarrow> call_entry list \<Rightarrow> jstr \<Rightarrow> jstr \<Rightarrow> nat \<Rightarrow> nat \<Rightarrow> loop_info \<Rightarrow> bool" where
  "cycle_report D salt ring nodeId inFp seq k info \<longleftrightarrow>
     (\<exists>lap. cycle_lap ring nodeId inFp k lap
        \<and> (\<forall>n. ends_in_laps (call_keys ring) lap n \<longleftrightarrow> n \<le> li_repeats info)
        \<and> li_firstSeq info = ce_startSeq (ring ! (length ring - li_repeats info * k)))
     \<and> li_lastSeq info = seq \<and> li_kind info = Some Lk_cycle \<and> li_period info = Some k
     \<and> li_laps info = Some (li_repeats info)
     \<and> li_fingerprint info = lap_fingerprint D salt (take k (drop (length ring - k) ring))"

lemma cycle_scan_spec:
  assumes "sorted_wrt (<) ks" and "\<forall>k\<in>set ks. 0 < k"
  shows "case snd (cycle_scan D salt hs n fp seq ks) of
      None \<Rightarrow> (\<forall>k\<in>set ks. \<not> has_cycle (kh_ring hs) n fp k)
    | Some info \<Rightarrow> (\<exists>k\<in>set ks. cycle_report D salt (kh_ring hs) n fp seq k info
        \<and> (\<forall>j\<in>set ks. j < k \<longrightarrow> \<not> has_cycle (kh_ring hs) n fp j))"
  using assms
proof (induction ks)
  case Nil
  then show ?case by simp
next
  case (Cons k ks)
  let ?ring = "kh_ring hs"
  define base where "base = length ?ring - CYCLE_LAPS * k"
  show ?case
  proof (cases "length ?ring < CYCLE_LAPS * k")
    case True
    have "\<not> has_cycle ?ring n fp j" if "j \<in> set (k # ks)" for j
    proof -
      have "CYCLE_LAPS * k \<le> CYCLE_LAPS * j"
        using that Cons.prems(1) by auto
      then show ?thesis
        using True cycle_lap_determined unfolding has_cycle_def by (metis leD le_trans)
    qed
    then show ?thesis
      using True by simp
  next
    case False
    then have long: "CYCLE_LAPS * k \<le> length ?ring" by simp
    have k: "0 < k" and at: "entry_at ?ring base = Some (?ring ! base)"
      using Cons.prems(2) long by (auto simp: entry_at_def base_def CYCLE_LAPS_def)
    have tests: "(ce_nodeId (?ring ! base) \<noteq> Some n \<or> ce_inFp (?ring ! base) \<noteq> Some fp
        \<or> \<not> laps_identical ?ring base k \<or> \<not> lap_distinct ?ring base k (?ring ! base))
        \<longleftrightarrow> \<not> has_cycle ?ring n fp k"
      using cycle_tests [OF k long base_def, of n fp] cycle_lap_determined [of ?ring n fp k]
      unfolding has_cycle_def base_def by metis
    show ?thesis
    proof (cases "has_cycle ?ring n fp k")
      case no: False
      then have "cycle_scan D salt hs n fp seq (k # ks) = cycle_scan D salt hs n fp seq ks"
        using long at tests by (simp add: base_def [symmetric] Let_def)
      then show ?thesis
        using Cons.IH Cons.prems no by (auto split: option.splits)
    next
      case True
      then obtain lap where lap: "cycle_lap ?ring n fp k lap"
        unfolding has_cycle_def by blast
      obtain f l where cb: "count_back ?ring (length ?ring - k) k base CYCLE_LAPS = (f, l)"
        by fastforce
      have r: "f = length ?ring - l * k" "\<forall>m. ends_in_laps (call_keys ?ring) lap m \<longleftrightarrow> m \<le> l"
        using count_back_max [OF _ _ k _ base_def long _ cb, of lap] lap
        by (auto simp: cycle_lap_def CYCLE_LAPS_def)
      have "snd (cycle_scan D salt hs n fp seq (k # ks)) =
          Some \<lparr>li_repeats = l, li_firstSeq = ce_startSeq (?ring ! f), li_lastSeq = seq,
                li_fingerprint = lap_fingerprint D salt (take k (drop (length ?ring - k) ?ring)),
                li_kind = Some Lk_cycle, li_period = Some k, li_laps = Some l\<rparr>"
        using long at tests True cb by (simp add: base_def [symmetric] Let_def)
      moreover have "\<forall>j\<in>set (k # ks). \<not> j < k"
        using Cons.prems(1) by auto
      ultimately show ?thesis
        using lap r unfolding cycle_report_def by (simp add: exI [of _ lap])
    qed
  qed
qed

text \<open>
  C21: The cycle rule. Unless it is keeping quiet after its last report, the detector reports exactly
  when the completed calls end in three identical laps of 2, 3 or 4 comparable calls, not all
  the same call, that begin with the call starting now. It reports the smallest such period,
  and as laps the largest number of copies of the lap the remembered calls end in, counted from
  the first of them.
\<close>

theorem cycle_detector_finds_laps:
  "case snd (detectCycle D salt hs nodeId inFp seq) of
     None \<Rightarrow> kh_completed hs < kh_cycleQuietUntil hs
       \<or> \<not> (\<exists>k\<in>{CYCLE_MIN_PERIOD..CYCLE_MAX_PERIOD}. has_cycle (kh_ring hs) nodeId inFp k)
   | Some info \<Rightarrow> kh_cycleQuietUntil hs \<le> kh_completed hs
       \<and> (\<exists>k\<in>{CYCLE_MIN_PERIOD..CYCLE_MAX_PERIOD}.
            cycle_report D salt (kh_ring hs) nodeId inFp seq k info
            \<and> (\<forall>j\<in>{CYCLE_MIN_PERIOD..<k}. \<not> has_cycle (kh_ring hs) nodeId inFp j))"
proof (cases "kh_completed hs < kh_cycleQuietUntil hs")
  case True
  then show ?thesis by (simp add: detectCycle_def)
next
  case False
  let ?ks = "[CYCLE_MIN_PERIOD..<Suc CYCLE_MAX_PERIOD]"
  have "sorted_wrt (<) ?ks" "\<forall>k\<in>set ?ks. 0 < k"
    by (simp_all add: CYCLE_MIN_PERIOD_def CYCLE_MAX_PERIOD_def)
  note spec = cycle_scan_spec [OF this, where D = D and salt = salt and hs = hs and n = nodeId and fp = inFp and seq = seq]
  have ks: "set ?ks = {CYCLE_MIN_PERIOD..CYCLE_MAX_PERIOD}"
    by auto
  have d: "detectCycle D salt hs nodeId inFp seq = cycle_scan D salt hs nodeId inFp seq ?ks"
    unfolding detectCycle_def using False by (simp only: if_False)
  show ?thesis
  proof (cases "snd (detectCycle D salt hs nodeId inFp seq)")
    case None
    with spec show ?thesis
      unfolding d ks by (simp only: option.case) blast
  next
    case (Some info)
    with spec obtain k where "k \<in> {CYCLE_MIN_PERIOD..CYCLE_MAX_PERIOD}"
      "cycle_report D salt (kh_ring hs) nodeId inFp seq k info"
      "\<forall>j\<in>{CYCLE_MIN_PERIOD..CYCLE_MAX_PERIOD}. j < k \<longrightarrow> \<not> has_cycle (kh_ring hs) nodeId inFp j"
      unfolding d ks by (auto simp only: option.case)
    with False show ?thesis
      unfolding Some option.case by (intro conjI bexI [of _ k]) auto
  qed
qed

definition done_call :: "string \<Rightarrow> nat \<Rightarrow> call_entry" where
  "done_call n seq =
     \<lparr>ce_nodeId = Some (lit n), ce_inFp = Some (lit ''i''), ce_outcome = Some Oc_ok,
      ce_outFp = Some (lit ''o''), ce_startSeq = seq\<rparr>"

definition two_step_history :: kind_history where
  "two_step_history =
     \<lparr>kh_ring = [done_call ''b'' 1, done_call ''a'' 2, done_call ''b'' 3, done_call ''a'' 4,
                 done_call ''b'' 5, done_call ''a'' 6, done_call ''b'' 7],
      kh_completed = 7, kh_cycleQuietUntil = 0, kh_verdict = None\<rparr>"

theorem cycle_detector_finds_laps_witness:
  "map_option (\<lambda>i. (li_repeats i, li_firstSeq i, li_period i))
     (snd (detectCycle sample_digests [] two_step_history (lit ''a'') (lit ''i'') 8)) = Some (3, 2, Some 2)
   \<and> (\<exists>info. cycle_report sample_digests [] (kh_ring two_step_history) (lit ''a'') (lit ''i'') 8 2 info)"
proof -
  have ev: "map_option (\<lambda>i. (li_repeats i, li_firstSeq i, li_period i))
     (snd (detectCycle sample_digests [] two_step_history (lit ''a'') (lit ''i'') 8)) = Some (3, 2, Some 2)"
    by (simp add: detectCycle_def two_step_history_def CYCLE_MIN_PERIOD_def CYCLE_MAX_PERIOD_def
        CYCLE_LAPS_def entry_at_def done_call_def laps_identical_def lapsEqual_def lap_distinct_def
        sameEntry_def comparable_def upt_rec count_back.simps numeral_eq_Suc lit_def)
  then obtain info where info: "snd (detectCycle sample_digests [] two_step_history (lit ''a'') (lit ''i'') 8) = Some info"
      "li_period info = Some 2"
    by auto
  have "\<exists>k. cycle_report sample_digests [] (kh_ring two_step_history) (lit ''a'') (lit ''i'') 8 k info"
    using cycle_detector_finds_laps [where D = sample_digests and salt = "[]" and hs = two_step_history
        and nodeId = "lit ''a''" and inFp = "lit ''i''" and seq = 8]
    unfolding info(1) option.case by blast
  then have "cycle_report sample_digests [] (kh_ring two_step_history) (lit ''a'') (lit ''i'') 8 2 info"
    using info(2) by (auto simp: cycle_report_def)
  with ev show ?thesis by blast
qed

end
