(* ===== verification/Loop_Runs.thy ===== *)
theory Loop_Runs
  imports Loop_Detect
begin

text \<open>
  Runs of the loop guard (\<open>loop-guard.ts\<close>): any sequence of starts, errors, completions,
  consultations, warnings and forgotten runs. The lemmas show the bounds on its memory, what a
  streak counts over the watched starts of one run and kind, and that a start is held at most
  once.
\<close>

section \<open>Events\<close>

record guard_start =
  gs_heap :: heap
  gs_run :: jstr
  gs_kind :: node_kind
  gs_node :: "jstr option"
  gs_name :: "jstr option"
  gs_input :: js
  gs_seq :: nat
  gs_instance :: "jstr option"

datatype guard_event =
    Ge_start guard_start
  | Ge_error jstr "jstr option" "jstr option" "jstr option" "jstr option"
  | Ge_finish heap jstr "jstr option" "jstr option" "run_status option" js bool
  | Ge_consult jstr node_kind "jstr option" "jstr option"
  | Ge_warn jstr "jstr option" "node_kind option"
  | Ge_forget jstr

fun guard_step :: "digests \<Rightarrow> guard_event \<Rightarrow> loop_guard \<Rightarrow> loop_guard" where
  "guard_step D (Ge_start s) g =
     fst (guard_record D (gs_heap s) g (gs_run s) (gs_kind s) (gs_node s) (gs_name s) (gs_input s)
            (gs_seq s) (gs_instance s))"
| "guard_step D (Ge_error r n i name msg) g = noteError D g r n i name msg"
| "guard_step D (Ge_finish h r n i st out em) g = complete D h g r n i st out em"
| "guard_step D (Ge_consult r k n name) g = fst (consult g r k n name)"
| "guard_step D (Ge_warn r n k) g = fst (claimWarning g r n k)"
| "guard_step D (Ge_forget r) g = forget g r"

section \<open>What the guard remembers is bounded\<close>

definition run_ok :: "run_state \<Rightarrow> bool" where
  "run_ok st \<longleftrightarrow>
     wf_omap (rs_streaks st) \<and> wf_omap (rs_histories st)
     \<and> (\<forall>x\<in>set (rs_histories st). length (kh_ring (snd x)) \<le> LOOP_HISTORY_SIZE)
     \<and> length (rs_open st) \<le> MAX_OPEN_CALLS_PER_RUN"

definition guard_ok :: "loop_guard \<Rightarrow> bool" where
  "guard_ok g \<longleftrightarrow>
     wf_omap (lg_runs g) \<and> length (lg_runs g) \<le> MAX_LOOP_RUNS
     \<and> (\<forall>x\<in>set (lg_runs g). run_ok (snd x))"

lemma ball_update:
  assumes "\<forall>x\<in>set m. P (snd x)" and "P v"
  shows "\<forall>x\<in>set (AList.update k v m). P (snd x)"
  using assms set_update_subset [of k v m] by fastforce

lemma run_ok_empty [simp]: "run_ok empty_run"
  by (simp add: run_ok_def empty_run_def)

lemma history_bound:
  assumes "run_ok st"
  shows "length (kh_ring (historyOf st kind)) \<le> LOOP_HISTORY_SIZE"
proof (cases "map_of (rs_histories st) kind")
  case (Some hs)
  with assms map_of_SomeD [OF Some] show ?thesis
    unfolding run_ok_def historyOf_def by fastforce
qed (simp add: historyOf_def empty_history_def)

lemma run_ok_set_history:
  assumes "run_ok st" and "length (kh_ring hs) \<le> LOOP_HISTORY_SIZE"
  shows "run_ok (set_history kind hs st)"
  using assms ball_update [of "rs_histories st" "\<lambda>hs. length (kh_ring hs) \<le> LOOP_HISTORY_SIZE" hs kind]
  by (simp add: run_ok_def set_history_def distinct_update)

lemma run_ok_streaks: "run_ok st \<Longrightarrow> wf_omap m \<Longrightarrow> run_ok (st\<lparr>rs_streaks := m\<rparr>)"
  by (simp add: run_ok_def)

lemma run_ok_open:
  "run_ok st \<Longrightarrow> length calls \<le> MAX_OPEN_CALLS_PER_RUN \<Longrightarrow> run_ok (st\<lparr>rs_open := calls\<rparr>)"
  by (simp add: run_ok_def)

lemma length_remove_first: "length (remove_first P xs) \<le> length xs"
  by (induction xs) auto

lemma run_ok_openCall: "run_ok st \<Longrightarrow> run_ok (openCall st call)"
  using length_remove_first [of "\<lambda>o'. oc_nodeId o' = oc_nodeId call \<and> oc_instanceId o' = oc_instanceId call" "rs_open st"]
  unfolding openCall_def Let_def by (intro run_ok_open) (auto simp: run_ok_def)

lemma push_bound:
  "length (kh_ring hs) \<le> LOOP_HISTORY_SIZE \<Longrightarrow> length (kh_ring (pushEntry hs e)) \<le> LOOP_HISTORY_SIZE"
  by (simp add: pushEntry_def Let_def)

lemma detect_ring [simp]: "kh_ring (fst (detect D salt hs n fp seq)) = kh_ring hs"
  and detect_verdict [simp]: "kh_verdict (fst (detect D salt hs n fp seq)) = kh_verdict hs"
proof -
  have "kh_ring (fst (cycle_scan D salt hs n fp seq ks)) = kh_ring hs
      \<and> kh_verdict (fst (cycle_scan D salt hs n fp seq ks)) = kh_verdict hs" for ks
    by (induction ks) (auto simp: Let_def split: option.split prod.split)
  then show "kh_ring (fst (detect D salt hs n fp seq)) = kh_ring hs"
    "kh_verdict (fst (detect D salt hs n fp seq)) = kh_verdict hs"
    by (simp_all add: detect_def detectCycle_def split: prod.split option.split) (metis fst_conv)+
qed

lemma set_verdict_simps [simp]:
  "kh_ring (set_verdict v hs) = kh_ring hs"
  "kh_verdict (set_verdict v hs) = v"
  by (simp_all add: set_verdict_def)

lemma guard_ok_put:
  assumes "guard_ok g" and "run_ok st" and "r \<in> set (okeys (lg_runs g))"
  shows "guard_ok (put_run r st g)"
proof -
  have "length (AList.update r st (lg_runs g)) = length (lg_runs g)"
    using assms(3) arg_cong [OF okeys_update [of r st "lg_runs g"], of length] by simp
  then show ?thesis
    using assms(1,2) ball_update [of "lg_runs g" run_ok st r]
    by (simp add: guard_ok_def put_run_def distinct_update)
qed

lemma guard_ok_touch:
  assumes "guard_ok g" and "run_ok st" and "r \<in> set (okeys (lg_runs g))"
  shows "guard_ok (touch r st g)"
proof -
  have "0 < length (lg_runs g)"
    using assms(3) by auto
  then have "length (AList.delete r (lg_runs g)) < length (lg_runs g)"
    using assms(1,3) om.length_del [of "lg_runs g" r] by (simp add: guard_ok_def)
  then show ?thesis
    using assms unfolding guard_ok_def touch_def
    by (auto simp: okeys_delete delete_filter distinct_filter_keys)
qed

lemma found_run_ok: "guard_ok g \<Longrightarrow> map_of (lg_runs g) r = Some st \<Longrightarrow> run_ok st"
  unfolding guard_ok_def by (metis map_of_SomeD snd_conv)

lemma found_run_key: "map_of m r = Some st \<Longrightarrow> r \<in> set (okeys m)"
  by (metis map_of_None_keys option.distinct(1))

lemma stateFor_ok:
  assumes "guard_ok g" and "stateFor r g = (g1, st)"
  shows "guard_ok g1 \<and> run_ok st \<and> r \<in> set (okeys (lg_runs g1))"
proof (cases "map_of (lg_runs g) r")
  case (Some st')
  with assms show ?thesis
    using guard_ok_touch [OF assms(1) found_run_ok [OF assms(1) Some] found_run_key [OF Some]]
      found_run_ok [OF assms(1) Some]
    by (auto simp: stateFor_def touch_def)
next
  case None
  define runs where "runs = (if MAX_LOOP_RUNS \<le> length (lg_runs g) then tl (lg_runs g) else lg_runs g)"
  have g1: "g1 = g\<lparr>lg_runs := runs @ [(r, empty_run)]\<rparr>" and st: "st = empty_run"
    using assms(2) None by (simp_all add: stateFor_def runs_def)
  have "wf_omap runs" "set runs \<subseteq> set (lg_runs g)" "Suc (length runs) \<le> MAX_LOOP_RUNS"
    using assms(1) unfolding runs_def guard_ok_def
    by (auto simp: map_tl distinct_tl MAX_LOOP_RUNS_def dest: list.set_sel(2) [rotated])
  with assms(1) None show ?thesis
    unfolding g1 st guard_ok_def by (auto simp: map_of_None_keys)
qed

lemma record_ok:
  assumes "guard_ok g"
  shows "guard_ok (fst (guard_record D h g r k n name input seq i))"
proof (cases "appliesTo g k n name")
  case False
  then show ?thesis using assms by (simp add: guard_record_def)
next
  case True
  obtain g1 st where sf: "stateFor r g = (g1, st)" by fastforce
  note ok = stateFor_ok [OF assms sf]
  define st1 where "st1 = set_history k (set_verdict None (historyOf st k)) st"
  have st1: "run_ok st1"
    unfolding st1_def using ok history_bound [of st k] by (intro run_ok_set_history) auto
  have wf: "wf_omap (rs_streaks st1)"
    using st1 by (simp add: run_ok_def)
  have unreadable: "run_ok (record_unreadable st1 k n i seq)"
  proof -
    have "run_ok (st1\<lparr>rs_streaks := AList.delete k (rs_streaks st1)\<rparr>)"
      using wf by (intro run_ok_streaks [OF st1]) (simp add: delete_filter distinct_filter_keys)
    then show ?thesis
      unfolding record_unreadable_def Let_def
      by (auto intro!: run_ok_openCall run_ok_set_history push_bound history_bound split: option.split)
  qed
  have call: "run_ok (fst (record_call D g1 st1 k m i fp seq))" for m fp
  proof -
    have a: "run_ok (st1\<lparr>rs_streaks := AList.update k sk (rs_streaks st1)\<rparr>)" for sk
      using wf by (intro run_ok_streaks [OF st1]) (simp add: distinct_update)
    define st2 where "st2 = openCall (st1\<lparr>rs_streaks := AList.update k (next_streak (map_of (rs_streaks st1) k) m fp seq)
        (rs_streaks st1)\<rparr>) \<lparr>oc_kind = k, oc_nodeId = m, oc_instanceId = i, oc_inFp = Some fp,
          oc_startSeq = seq, oc_errFp = None\<rparr>"
    have st2: "run_ok st2"
      unfolding st2_def by (intro run_ok_openCall a)
    obtain hs d where det: "detect D (lg_salt g1) (historyOf st2 k) m fp seq = (hs, d)" by fastforce
    have "length (kh_ring hs) \<le> LOOP_HISTORY_SIZE"
      using arg_cong [OF det, of "kh_ring \<circ> fst"] history_bound [OF st2, of k] by simp
    then have "run_ok (set_history k (case d of None \<Rightarrow> hs | Some info \<Rightarrow>
        set_verdict (Some \<lparr>vd_nodeId = m, vd_info = info, vd_tripped = False\<rparr>) hs) st2)"
      by (intro run_ok_set_history [OF st2]) (simp split: option.split)
    then show ?thesis
      by (simp add: record_call_def Let_def st2_def [symmetric] det)
  qed
  show ?thesis
    unfolding guard_record_def Let_def st1_def [symmetric] sf prod.case
    using True ok guard_ok_put [of g1 _ r] unreadable call
    by (auto split: option.split prod.split) (metis fst_conv)
qed

lemma trip_ok: "run_ok st \<Longrightarrow> run_ok (trip_verdict k st)"
  unfolding trip_verdict_def using history_bound [of st k]
  by (auto intro!: run_ok_set_history simp: historyOf_def split: option.split)

lemma consult_run_ok: "run_ok st \<Longrightarrow> run_ok (fst (consult_run t st k n))"
  unfolding consult_run_def Let_def
  by (auto intro!: trip_ok run_ok_streaks simp: run_ok_def [of st] distinct_update split: option.split)

lemma claim_first_ok: "run_ok st \<Longrightarrow> run_ok (fst (claim_first ks n st))"
  by (induction ks) (auto intro!: run_ok_streaks simp: run_ok_def distinct_update split: option.split)

lemma guard_step_ok:
  assumes "guard_ok g"
  shows "guard_ok (guard_step D e g)"
proof (cases e)
  case (Ge_start s)
  then show ?thesis using record_ok [OF assms] by simp
next
  case (Ge_error r n i name msg)
  then show ?thesis
    using assms found_run_ok found_run_key
    by (auto simp: noteError_def run_ok_def intro!: guard_ok_put split: option.split)
next
  case (Ge_finish h r n i st out em)
  show ?thesis
  proof (cases "map_of (lg_runs g) r")
    case None
    then show ?thesis using assms Ge_finish by (simp add: complete_def)
  next
    case (Some st)
    note st = found_run_ok [OF assms Some] and key = found_run_key [OF Some]
    have "run_ok (set_history k (pushEntry (historyOf st1 k) c) st1)" if "run_ok st1" for k c st1
      using that by (intro run_ok_set_history push_bound history_bound)
    moreover have "run_ok (st\<lparr>rs_open := take j (rs_open st) @ drop (Suc j) (rs_open st)\<rparr>)" for j
      using st by (intro run_ok_open [OF st]) (auto simp: run_ok_def)
    ultimately show ?thesis
      using assms Ge_finish Some guard_ok_touch [OF assms _ key]
      by (simp add: complete_def Let_def split: option.split)
  qed
next
  case (Ge_consult r k n name)
  show ?thesis
  proof (cases "map_of (lg_runs g) r")
    case None
    then show ?thesis using assms Ge_consult by (simp add: consult_def)
  next
    case (Some st)
    then show ?thesis
      using assms Ge_consult guard_ok_put [OF assms consult_run_ok [OF found_run_ok [OF assms Some]] found_run_key [OF Some]]
      by (simp add: consult_def case_prod_unfold Let_def)
  qed
next
  case (Ge_warn r n k)
  show ?thesis
  proof (cases "map_of (lg_runs g) r")
    case None
    then show ?thesis using assms Ge_warn by (simp add: claimWarning_def)
  next
    case (Some st)
    then show ?thesis
      using assms Ge_warn guard_ok_put [OF assms claim_first_ok [OF found_run_ok [OF assms Some]] found_run_key [OF Some]]
      by (simp add: claimWarning_def case_prod_unfold Let_def)
  qed
next
  case (Ge_forget r)
  with assms show ?thesis
    using order_trans [OF length_filter_le, of "lg_runs g" MAX_LOOP_RUNS "\<lambda>x. fst x \<noteq> r"]
    by (auto simp: forget_def guard_ok_def delete_filter distinct_filter_keys)
qed

definition fresh_guard :: "loop_guard \<Rightarrow> bool" where
  "fresh_guard g \<longleftrightarrow> lg_runs g = []"

interpretation lgm: event_machine fresh_guard "guard_step D" guard_ok
  by unfold_locales (simp add: fresh_guard_def guard_ok_def, rule guard_step_ok)

lemma node_kinds: "(UNIV :: node_kind set) = {Agent, LLM, Tool, Chain, Retriever, Server, Resource, Prompt, Custom}"
  using node_kind.exhaust by blast

lemma kinds_bound:
  fixes m :: "(node_kind, 'v) omap"
  assumes "wf_omap m"
  shows "length m \<le> 9"
proof -
  have "length m = card (set (okeys m))"
    using distinct_card [OF assms] by simp
  also have "\<dots> \<le> card (UNIV :: node_kind set)"
    by (rule card_mono [OF _ subset_UNIV]) (simp add: node_kinds)
  finally show ?thesis by (simp add: node_kinds)
qed

lemma sum_bound: "\<forall>x\<in>set xs. f x \<le> b \<Longrightarrow> sum_list (map f xs) \<le> length xs * b" for f :: "'a \<Rightarrow> nat"
  by (induction xs) auto

text \<open>
  C39: The guard's memory is bounded, whatever the host does. After any sequence of starts, errors,
  completions, consultations, warnings and forgotten runs it remembers at most 64 runs; per run
  at most one streak and one history per node kind, 64 completed calls per history and 256 open
  calls.
\<close>

theorem guard_memory_bounded:
  "let g = fold (guard_step D) es (guard_new config salt)
   in distinct (okeys (lg_runs g)) \<and> length (lg_runs g) \<le> MAX_LOOP_RUNS
      \<and> trackedStreaks g \<le> MAX_LOOP_RUNS * 9
      \<and> trackedCalls g \<le> MAX_LOOP_RUNS * (MAX_OPEN_CALLS_PER_RUN + 9 * LOOP_HISTORY_SIZE)"
proof -
  define g where "g = fold (guard_step D) es (guard_new config salt)"
  have ok: "guard_ok g"
    unfolding g_def by (rule lgm.reach_inv) (simp add: fresh_guard_def guard_new_def)
  have run: "length (rs_streaks st) \<le> 9 \<and> length (rs_open st)
      + sum_list (map (\<lambda>(k, hs). length (kh_ring hs)) (rs_histories st))
      \<le> MAX_OPEN_CALLS_PER_RUN + 9 * LOOP_HISTORY_SIZE" if "run_ok st" for st
  proof -
    have "sum_list (map (\<lambda>(k, hs). length (kh_ring hs)) (rs_histories st)) \<le>
        length (rs_histories st) * LOOP_HISTORY_SIZE"
      using that by (intro sum_bound) (auto simp: run_ok_def)
    also have "\<dots> \<le> 9 * LOOP_HISTORY_SIZE"
      using that kinds_bound [of "rs_histories st"] by (simp add: run_ok_def)
    finally show ?thesis
      using that kinds_bound [of "rs_streaks st"] by (simp add: run_ok_def)
  qed
  have "trackedStreaks g \<le> length (lg_runs g) * 9"
    unfolding trackedStreaks_def using ok run by (intro sum_bound) (auto simp: guard_ok_def)
  moreover have "trackedCalls g \<le> length (lg_runs g) * (MAX_OPEN_CALLS_PER_RUN + 9 * LOOP_HISTORY_SIZE)"
    unfolding trackedCalls_def using ok run by (intro sum_bound) (auto simp: guard_ok_def)
  moreover have "length (lg_runs g) \<le> MAX_LOOP_RUNS" "distinct (okeys (lg_runs g))"
    using ok by (simp_all add: guard_ok_def)
  ultimately show ?thesis
    unfolding g_def [symmetric] Let_def by (metis le_trans mult_le_mono1)
qed

section \<open>What a streak counts\<close>

definition kind_streak :: "loop_guard \<Rightarrow> jstr \<Rightarrow> node_kind \<Rightarrow> streak option" where
  "kind_streak g r k = Option.bind (map_of (lg_runs g) r) (\<lambda>st. map_of (rs_streaks st) k)"

definition start_key :: "digests \<Rightarrow> loop_config \<Rightarrow> guard_start \<Rightarrow> (jstr \<times> jstr) option" where
  "start_key D config s =
     (case (comparableFingerprint D (gs_heap s) (gs_node s) (gs_input s) (set (lc_ignoreKeys config)),
            gs_node s) of
        (Some fp, Some n) \<Rightarrow> Some (n, fp)
      | _ \<Rightarrow> None)"

definition watched :: "loop_config \<Rightarrow> guard_start \<Rightarrow> bool" where
  "watched config s \<longleftrightarrow> appliesTo (guard_new config []) (gs_kind s) (gs_node s) (gs_name s)"

text \<open>The watched starts of a run and kind, in order: what they compare by, and their seq.\<close>

definition starts_of :: "digests \<Rightarrow> loop_config \<Rightarrow> jstr \<Rightarrow> node_kind \<Rightarrow> guard_event list
    \<Rightarrow> ((jstr \<times> jstr) option \<times> nat) list" where
  "starts_of D config r k es =
     concat (map (\<lambda>e. case e of
         Ge_start s \<Rightarrow> if gs_run s = r \<and> gs_kind s = k \<and> watched config s
                       then [(start_key D config s, gs_seq s)] else []
       | _ \<Rightarrow> []) es)"

text \<open>The longest tail of identical readable starts: node, fingerprint, how many, first, last seq.\<close>

definition tail_streak :: "((jstr \<times> jstr) option \<times> nat) list \<Rightarrow> (jstr \<times> jstr \<times> nat \<times> nat \<times> nat) option" where
  "tail_streak xs =
     (case rev xs of
        (Some (n, fp), seq) # rest \<Rightarrow>
          (let same = takeWhile (\<lambda>x. fst x = Some (n, fp)) (rev xs)
           in Some (n, fp, length same, snd (last same), seq))
      | _ \<Rightarrow> None)"

definition streak_view :: "streak \<Rightarrow> jstr \<times> jstr \<times> nat \<times> nat \<times> nat" where
  "streak_view s = (sk_nodeId s, sk_fingerprint s, sk_repeats s, sk_firstSeq s, sk_lastSeq s)"

lemma tail_streak_Nil [simp]: "tail_streak [] = None"
  by (simp add: tail_streak_def)

lemma tail_streak_unreadable [simp]: "tail_streak (xs @ [(None, seq)]) = None"
  by (simp add: tail_streak_def)

lemma tail_streak_step:
  "tail_streak (xs @ [(Some (n, fp), seq)]) =
     Some (case tail_streak xs of
             Some (n', fp', c, f0, l0) \<Rightarrow>
               if n' = n \<and> fp' = fp then (n, fp, c + 1, f0, seq) else (n, fp, 1, seq, seq)
           | None \<Rightarrow> (n, fp, 1, seq, seq))"
proof (cases "rev xs")
  case Nil
  then show ?thesis by (simp add: tail_streak_def)
next
  case (Cons x ys)
  obtain key s where x: "x = (key, s)" by fastforce
  show ?thesis
    by (cases key) (auto simp: tail_streak_def Cons x Let_def split: prod.splits)
qed

lemma next_streak_view:
  assumes "map_option streak_view old = tail_streak xs"
  shows "Some (streak_view (next_streak old n fp seq)) = tail_streak (xs @ [(Some (n, fp), seq)])"
  unfolding tail_streak_step assms [symmetric]
  by (cases old) (auto simp: next_streak_def streak_view_def)

lemma streaks_frame [simp]:
  "rs_streaks (openCall st c) = rs_streaks st"
  "rs_streaks (set_history k hs st) = rs_streaks st"
  "rs_streaks (trip_verdict k st) = rs_streaks st"
  by (simp_all add: openCall_def set_history_def trip_verdict_def Let_def split: option.split)

lemma config_frame [simp]:
  "lg_config (put_run r st g) = lg_config g"
  "lg_config (touch r st g) = lg_config g"
  "lg_config (fst (stateFor r g)) = lg_config g"
  "lg_runs (put_run r st g) = AList.update r st (lg_runs g)"
  by (simp_all add: put_run_def touch_def stateFor_def Let_def split: option.split)

lemma config_step: "lg_config (guard_step D e g) = lg_config g"
proof (cases e)
  case (Ge_start s)
  then show ?thesis
    using config_frame(3) [of "gs_run s" g]
    by (simp add: guard_record_def Let_def case_prod_unfold split: option.split)
qed (auto simp: noteError_def complete_def consult_def claimWarning_def forget_def Let_def
    split: option.split prod.split)

lemma applies_config: "appliesTo g k n name = appliesTo (guard_new (lg_config g) []) k n name"
  by (simp add: appliesTo_def guard_enabled_def guard_new_def)

lemma map_of_touch: "map_of (lg_runs (touch r st g)) = (map_of (lg_runs g))(r \<mapsto> st)"
  by (auto simp: touch_def fun_eq_iff map_add_def split: option.split)

lemma stateFor_kept:
  assumes "map_of (lg_runs g) r \<noteq> None \<or> length (lg_runs g) < MAX_LOOP_RUNS"
    and "stateFor r g = (g1, st)"
  shows "map_of (lg_runs g1) = (map_of (lg_runs g))(r \<mapsto> st)
    \<and> st = (case map_of (lg_runs g) r of None \<Rightarrow> empty_run | Some st' \<Rightarrow> st')"
  using assms map_of_touch [of r st g]
  by (auto simp: stateFor_def Let_def map_add_def fun_eq_iff split: option.splits if_splits)

lemma record_streaks:
  assumes "appliesTo g k n name"
    and "map_of (lg_runs g) r \<noteq> None \<or> length (lg_runs g) < MAX_LOOP_RUNS"
  shows "kind_streak (fst (guard_record D h g r k n name input seq i)) r' k' =
    (if r' = r \<and> k' = k
     then (case (comparableFingerprint D h n input (set (lc_ignoreKeys (lg_config g))), n) of
             (Some fp, Some m) \<Rightarrow> Some (next_streak (kind_streak g r k) m fp seq)
           | _ \<Rightarrow> None)
     else kind_streak g r' k')"
proof -
  obtain g1 st where sf: "stateFor r g = (g1, st)" by fastforce
  note kept = stateFor_kept [OF assms(2) sf]
  have st: "map_of (rs_streaks st) k' = kind_streak g r k'" for k'
    using kept by (auto simp: kind_streak_def empty_run_def split: option.splits)
  show ?thesis
  proof (cases "r' = r")
    case False
    then show ?thesis
      using assms(1) kept
      by (simp add: guard_record_def sf Let_def kind_streak_def case_prod_unfold split: option.split)
  next
    case True
    then show ?thesis
      using assms(1) st
      by (simp add: guard_record_def sf Let_def kind_streak_def case_prod_unfold record_call_def
          record_unreadable_def split: option.split)
  qed
qed

lemma claim_first_view:
  "map_option streak_view (map_of (rs_streaks (fst (claim_first ks n st))) k) =
   map_option streak_view (map_of (rs_streaks st) k)"
  by (induction ks) (auto simp: streak_view_def split: option.split)

lemma consult_run_view:
  "map_option streak_view (map_of (rs_streaks (fst (consult_run t st k n))) k') =
   map_option streak_view (map_of (rs_streaks st) k')"
  by (auto simp: consult_run_def Let_def streak_view_def split: option.split)

text \<open>Everything but a start, or forgetting the run, leaves what a streak counts alone.\<close>

lemma other_event_view:
  assumes "\<And>s. e \<noteq> Ge_start s" and "e \<noteq> Ge_forget r"
  shows "map_option streak_view (kind_streak (guard_step D e g) r k) =
         map_option streak_view (kind_streak g r k)"
proof (cases e)
  case (Ge_error r' n i name msg)
  then show ?thesis
    by (auto simp: noteError_def kind_streak_def split: option.split)
next
  case (Ge_finish h r' n i st out em)
  then show ?thesis
    by (auto simp: complete_def kind_streak_def Let_def map_of_touch split: option.split)
next
  case (Ge_consult r' k' n name)
  then show ?thesis
    using consult_run_view
    by (auto simp: consult_def kind_streak_def Let_def case_prod_unfold split: option.split)
next
  case (Ge_warn r' n k')
  then show ?thesis
    using claim_first_view
    by (auto simp: claimWarning_def kind_streak_def Let_def case_prod_unfold split: option.split)
qed (use assms in \<open>auto simp: forget_def kind_streak_def\<close>)

text \<open>The runs that watched starts name.\<close>

definition run_ids :: "guard_event list \<Rightarrow> jstr set" where
  "run_ids es = {gs_run s | s. Ge_start s \<in> set es}"

lemma finite_run_ids [simp]: "finite (run_ids es)"
proof -
  have "run_ids es \<subseteq> (\<lambda>e. case e of Ge_start s \<Rightarrow> gs_run s | _ \<Rightarrow> []) ` set es"
    by (force simp: run_ids_def)
  then show ?thesis by (rule finite_subset) simp
qed

lemma okeys_stateFor: "set (okeys (lg_runs (fst (stateFor r g)))) \<subseteq> insert r (set (okeys (lg_runs g)))"
proof -
  have t: "fst ` set (tl m) \<subseteq> fst ` set m" for m :: "(jstr, run_state) omap"
    by (cases m) auto
  show ?thesis
    using t [of "lg_runs g"] by (auto simp: stateFor_def touch_def Let_def split: option.split)
qed

lemma record_shape:
  "fst (guard_record D h g r k n name input seq i) = g
   \<or> (\<exists>st. fst (guard_record D h g r k n name input seq i) = put_run r st (fst (stateFor r g)))"
  by (simp add: guard_record_def Let_def case_prod_unfold split: option.split) blast

lemma okeys_step:
  "set (okeys (lg_runs (guard_step D e g))) \<subseteq> set (okeys (lg_runs g)) \<union> run_ids [e]"
proof (cases e)
  case (Ge_start s)
  have "gs_run s \<in> run_ids [e]"
    using Ge_start by (auto simp: run_ids_def)
  moreover have "set (okeys (lg_runs (guard_step D e g))) \<subseteq> insert (gs_run s) (set (okeys (lg_runs g)))"
  proof -
    from record_shape consider "guard_step D e g = g"
      | st where "guard_step D e g = put_run (gs_run s) st (fst (stateFor (gs_run s) g))"
      unfolding Ge_start guard_step.simps by metis
    then show ?thesis
    proof cases
      case 2
      then show ?thesis using okeys_stateFor [of "gs_run s" g] by simp
    qed auto
  qed
  ultimately show ?thesis by blast
next
  case (Ge_forget r)
  then show ?thesis by (auto simp: forget_def)
next
  case (Ge_finish h r n i st out em)
  then show ?thesis
    using found_run_key [of "lg_runs g" r]
    by (auto simp: complete_def touch_def Let_def split: option.split)
next
  case (Ge_error r n i name msg)
  then show ?thesis
    using found_run_key [of "lg_runs g" r]
    by (auto simp: noteError_def split: option.split)
next
  case (Ge_consult r k n name)
  then show ?thesis
    using found_run_key [of "lg_runs g" r]
    by (auto simp: consult_def Let_def case_prod_unfold split: option.split)
next
  case (Ge_warn r n k)
  then show ?thesis
    using found_run_key [of "lg_runs g" r]
    by (auto simp: claimWarning_def Let_def case_prod_unfold split: option.split)
qed

lemma start_view:
  assumes "map_of (lg_runs g) (gs_run s) \<noteq> None \<or> length (lg_runs g) < MAX_LOOP_RUNS"
    and "map_option streak_view (kind_streak g r k) = tail_streak xs"
  shows "map_option streak_view (kind_streak (guard_step D (Ge_start s) g) r k) =
    tail_streak (xs @ starts_of D (lg_config g) r k [Ge_start s])"
proof (cases "appliesTo g (gs_kind s) (gs_node s) (gs_name s)")
  case False
  then show ?thesis
    using assms(2) by (simp add: guard_record_def starts_of_def watched_def applies_config [of g])
next
  case True
  then have w: "watched (lg_config g) s"
    by (simp add: watched_def applies_config [of g])
  have rec: "kind_streak (guard_step D (Ge_start s) g) r k =
    (if r = gs_run s \<and> k = gs_kind s
     then (case (comparableFingerprint D (gs_heap s) (gs_node s) (gs_input s)
                   (set (lc_ignoreKeys (lg_config g))), gs_node s) of
             (Some fp, Some m) \<Rightarrow> Some (next_streak (kind_streak g (gs_run s) (gs_kind s)) m fp (gs_seq s))
           | _ \<Rightarrow> None)
     else kind_streak g r k)"
    unfolding guard_step.simps by (rule record_streaks [OF True assms(1)])
  show ?thesis
  proof (cases "r = gs_run s \<and> k = gs_kind s")
    case False
    then show ?thesis
      using assms(2) rec by (auto simp: starts_of_def)
  next
    case here: True
    then show ?thesis
      using assms(2) next_streak_view [OF assms(2)] w unfolding rec
      by (auto simp: starts_of_def start_key_def split: option.split)
  qed
qed

text \<open>While the starts name at most 64 runs, no run is evicted.\<close>

lemma never_evicts:
  assumes "guard_ok g" and "set (okeys (lg_runs g)) \<subseteq> R" and "finite R" and "card R \<le> MAX_LOOP_RUNS"
    and "r \<in> R"
  shows "map_of (lg_runs g) r \<noteq> None \<or> length (lg_runs g) < MAX_LOOP_RUNS"
proof (rule disjCI)
  assume "\<not> length (lg_runs g) < MAX_LOOP_RUNS"
  moreover have "card (set (okeys (lg_runs g))) = length (lg_runs g)"
    using assms(1) distinct_card [of "okeys (lg_runs g)"] by (simp add: guard_ok_def)
  ultimately have "card R \<le> card (set (okeys (lg_runs g)))"
    using assms(4) by linarith
  then have "set (okeys (lg_runs g)) = R"
    by (rule card_seteq [OF assms(3,2)])
  with assms(5) show "map_of (lg_runs g) r \<noteq> None"
    by (simp add: map_of_None_keys)
qed

text \<open>
  C26: What a streak counts. As long as the events name at most 64 runs and a run is not forgotten,
  the streak the guard keeps for the run and a watched kind is the longest tail of identical,
  readable, watched starts of that run and kind: its node and fingerprint, how many they are,
  and the sequence numbers of the first and the last. Starts of other kinds, unwatched nodes and
  other runs, errors, completions, consultations and warnings in between change nothing; an
  unreadable start ends the streak.
\<close>

theorem streak_is_tail_of_starts:
  assumes "card (run_ids es) \<le> MAX_LOOP_RUNS" and "Ge_forget r \<notin> set es"
  shows "map_option streak_view (kind_streak (fold (guard_step D) es (guard_new config salt)) r k) =
    tail_streak (starts_of D config r k es)"
proof -
  let ?g = "\<lambda>es. fold (guard_step D) es (guard_new config salt)"
  have "map_option streak_view (kind_streak (?g es) r k) = tail_streak (starts_of D config r k es)
      \<and> set (okeys (lg_runs (?g es))) \<subseteq> run_ids es \<and> lg_config (?g es) = config"
    using assms
  proof (induction es rule: rev_induct)
    case Nil
    then show ?case by (simp add: guard_new_def kind_streak_def starts_of_def)
  next
    case (snoc e es)
    have sub: "run_ids es \<subseteq> run_ids (es @ [e])" and ids: "run_ids (es @ [e]) = run_ids es \<union> run_ids [e]"
      by (auto simp: run_ids_def)
    have IH: "map_option streak_view (kind_streak (?g es) r k) = tail_streak (starts_of D config r k es)"
      "set (okeys (lg_runs (?g es))) \<subseteq> run_ids es" "lg_config (?g es) = config"
      using snoc.IH snoc.prems card_mono [OF finite_run_ids sub] by auto
    have starts: "starts_of D config r k (es @ [e]) = starts_of D config r k es @ starts_of D config r k [e]"
      by (simp add: starts_of_def)
    have "map_option streak_view (kind_streak (guard_step D e (?g es)) r k) =
        tail_streak (starts_of D config r k es @ starts_of D config r k [e])"
    proof (cases "\<exists>s. e = Ge_start s")
      case False
      then have "starts_of D config r k [e] = []"
        by (cases e) (auto simp: starts_of_def)
      moreover have "map_option streak_view (kind_streak (guard_step D e (?g es)) r k) =
          map_option streak_view (kind_streak (?g es) r k)"
        by (rule other_event_view) (use False snoc.prems(2) in auto)
      ultimately show ?thesis
        using IH(1) by simp
    next
      case True
      then obtain s where e: "e = Ge_start s" by blast
      have "guard_ok (?g es)"
        by (rule lgm.reach_inv) (simp add: fresh_guard_def guard_new_def)
      then have "map_of (lg_runs (?g es)) (gs_run s) \<noteq> None \<or> length (lg_runs (?g es)) < MAX_LOOP_RUNS"
      proof (rule never_evicts [OF _ _ finite_run_ids snoc.prems(1)])
        show "gs_run s \<in> run_ids (es @ [e])"
          by (auto simp: e run_ids_def)
      qed (use IH(2) sub in blast)
      from start_view [OF this IH(1)] show ?thesis
        by (simp add: e IH(3))
    qed
    moreover have "set (okeys (lg_runs (guard_step D e (?g es)))) \<subseteq> run_ids (es @ [e])"
      using okeys_step [of D e "?g es"] IH(2) ids by blast
    ultimately show ?case
      using IH(3) starts config_step by simp
  qed
  then show ?thesis by blast
qed

definition search_start :: "js \<Rightarrow> nat \<Rightarrow> guard_start" where
  "search_start input seq =
     \<lparr>gs_heap = (\<lambda>a. js_record []), gs_run = lit ''r'', gs_kind = Tool,
      gs_node = Some (lit ''t''), gs_name = Some (lit ''t''), gs_input = input, gs_seq = seq,
      gs_instance = None\<rparr>"

definition sample_config :: loop_config where
  "sample_config = \<lparr>lc_threshold = 3, lc_mode = Mode_pause, lc_ignoreKeys = [], lc_allowNodes = [],
     lc_kinds = [lit ''tool'']\<rparr>"

theorem streak_is_tail_of_starts_witness:
  "let es = [Ge_start (search_start JNull 1), Ge_start (search_start (JBool True) 4),
             Ge_warn (lit ''r'') None None, Ge_start (search_start (JBool True) 7)]
   in map_option (\<lambda>v. snd (snd v)) (tail_streak (starts_of sample_digests sample_config (lit ''r'') Tool es))
        = Some (2, 4, 7)
      \<and> map_option streak_view
          (kind_streak (fold (guard_step sample_digests) es (guard_new sample_config [])) (lit ''r'') Tool) =
        tail_streak (starts_of sample_digests sample_config (lit ''r'') Tool es)"
proof -
  let ?es = "[Ge_start (search_start JNull 1), Ge_start (search_start (JBool True) 4),
             Ge_warn (lit ''r'') None None, Ge_start (search_start (JBool True) 7)]"
  have "run_ids ?es \<subseteq> {lit ''r''}"
    by (auto simp: run_ids_def search_start_def)
  from card_mono [OF _ this] have "card (run_ids ?es) \<le> MAX_LOOP_RUNS"
    by (simp add: MAX_LOOP_RUNS_def)
  note t = streak_is_tail_of_starts [OF this, of "lit ''r''" sample_digests sample_config "[]" Tool]
  have "map_option (\<lambda>v. snd (snd v)) (tail_streak (starts_of sample_digests sample_config (lit ''r'') Tool ?es))
        = Some (2, 4, 7)"
    by (simp add: starts_of_def start_key_def watched_def search_start_def sample_config_def appliesTo_def
        guard_enabled_def guard_new_def comparableFingerprint_def UNREADABLE_INPUT_def tail_streak_def
        sample_digests_def bool_text_def)
  with t show ?thesis
    unfolding Let_def by simp
qed

section \<open>Holding a start\<close>

lemma histories_frame [simp]:
  "rs_histories (openCall st c) = rs_histories st"
  "map_of (rs_histories (set_history k hs st)) = (map_of (rs_histories st))(k \<mapsto> hs)"
  by (simp_all add: openCall_def set_history_def Let_def)

lemma historyOf_set [simp]: "historyOf (set_history k hs st) k = hs"
  by (simp add: historyOf_def)

lemma historyOf_frame [simp]:
  "historyOf (openCall st c) k = historyOf st k"
  "historyOf (st\<lparr>rs_streaks := m\<rparr>) k = historyOf st k"
  by (simp_all add: historyOf_def)

text \<open>What a recorded start leaves for the consultation of its gate.\<close>

lemma record_leaves:
  assumes "guard_record D h g r k (Some n) name input seq i = (g1, Some res)"
  shows "lg_config g1 = lg_config g
    \<and> (\<exists>st s hs. map_of (lg_runs g1) r = Some st \<and> map_of (rs_streaks st) k = Some s
        \<and> sk_nodeId s = n \<and> \<not> sk_tripped s \<and> sk_repeats s = lr_repeats res
        \<and> sk_firstSeq s = lr_firstSeq res \<and> sk_lastSeq s = lr_lastSeq res
        \<and> sk_fingerprint s = lr_fingerprint res
        \<and> lr_atThreshold res = (lc_threshold (lg_config g) \<le> lr_repeats res)
        \<and> map_of (rs_histories st) k = Some hs
        \<and> kh_verdict hs = map_option (\<lambda>d. \<lparr>vd_nodeId = n, vd_info = d, vd_tripped = False\<rparr>) (lr_detected res))"
proof -
  have a: "appliesTo g k (Some n) name"
    using assms by (auto simp: guard_record_def split: if_splits)
  obtain g0 st where sf: "stateFor r g = (g0, st)" by fastforce
  have c: "lg_config g0 = lg_config g"
    using config_frame(3) [of r g] sf by simp
  define st1 where "st1 = set_history k (set_verdict None (historyOf st k)) st"
  from assms a obtain fp where fp: "comparableFingerprint D h (Some n) input (set (lc_ignoreKeys (lg_config g))) = Some fp"
    by (auto simp: guard_record_def sf Let_def split: option.splits)
  have r: "g1 = put_run r (fst (record_call D g0 st1 k n i fp seq)) g0"
    "res = snd (record_call D g0 st1 k n i fp seq)"
    using assms a fp by (simp_all add: guard_record_def sf Let_def st1_def case_prod_unfold)
  have v: "kh_verdict (historyOf st1 k) = None"
    by (simp add: st1_def)
  have sk: "sk_nodeId (next_streak old n fp seq) = n" "\<not> sk_tripped (next_streak old n fp seq)"
    "sk_fingerprint (next_streak old n fp seq) = fp" for old
    by (auto simp: next_streak_def split: option.split)
  show ?thesis
    unfolding r using c v sk
    by (simp add: record_call_def Let_def case_prod_unfold split: option.split)
qed

text \<open>
  A held start. After a watched start was recorded, the consultation of its before-gate holds it
  exactly when the start reached the threshold or tripped one of the v4 rules: with the streak's
  own counts when it is at the threshold (the identical-repeat rule goes first), otherwise with
  what the v4 rule found.
\<close>

theorem recorded_start_is_held:
  assumes "guard_record D h g r k (Some n) name input seq i = (g1, Some res)"
  shows "snd (consult g1 r k (Some n) name) =
    (if lr_atThreshold res
     then Some \<lparr>li_repeats = lr_repeats res, li_firstSeq = lr_firstSeq res, li_lastSeq = lr_lastSeq res,
                li_fingerprint = lr_fingerprint res, li_kind = None, li_period = None, li_laps = None\<rparr>
     else lr_detected res)"
proof -
  have "appliesTo g k (Some n) name"
    using assms by (auto simp: guard_record_def split: if_splits)
  moreover obtain st s hs where l: "lg_config g1 = lg_config g" "map_of (lg_runs g1) r = Some st"
    "map_of (rs_streaks st) k = Some s" "sk_nodeId s = n" "\<not> sk_tripped s" "sk_repeats s = lr_repeats res"
    "sk_firstSeq s = lr_firstSeq res" "sk_lastSeq s = lr_lastSeq res" "sk_fingerprint s = lr_fingerprint res"
    "lr_atThreshold res = (lc_threshold (lg_config g) \<le> lr_repeats res)"
    "map_of (rs_histories st) k = Some hs"
    "kh_verdict hs = map_option (\<lambda>d. \<lparr>vd_nodeId = n, vd_info = d, vd_tripped = False\<rparr>) (lr_detected res)"
    using record_leaves [OF assms] by blast
  ultimately have "appliesTo g1 k (Some n) name"
    by (simp add: applies_config [of g1] applies_config [of g])
  with l show ?thesis
    by (cases "lr_detected res")
      (simp_all add: consult_def consult_run_def Let_def case_prod_unfold streak_info_def)
qed

text \<open>Nothing is left to hold for the node: its streak and its verdict are spent.\<close>

definition spent_run :: "nat \<Rightarrow> run_state \<Rightarrow> node_kind \<Rightarrow> jstr \<Rightarrow> bool" where
  "spent_run t st k n \<longleftrightarrow>
     (case map_of (rs_streaks st) k of
        None \<Rightarrow> True | Some s \<Rightarrow> sk_nodeId s = n \<longrightarrow> sk_tripped s \<or> sk_repeats s < t)
     \<and> (case Option.bind (map_of (rs_histories st) k) kh_verdict of
          None \<Rightarrow> True | Some v \<Rightarrow> vd_nodeId v = n \<longrightarrow> vd_tripped v)"

definition gate_spent :: "loop_guard \<Rightarrow> jstr \<Rightarrow> node_kind \<Rightarrow> jstr \<Rightarrow> bool" where
  "gate_spent g r k n \<longleftrightarrow>
     (case map_of (lg_runs g) r of
        None \<Rightarrow> True | Some st \<Rightarrow> spent_run (lc_threshold (lg_config g)) st k n)"

lemma spent_empty [simp]: "spent_run t empty_run k n"
  by (simp add: spent_run_def empty_run_def)

lemma spent_run_cong:
  assumes "map_of (rs_streaks st') k = map_of (rs_streaks st) k"
    and "Option.bind (map_of (rs_histories st') k) kh_verdict = Option.bind (map_of (rs_histories st) k) kh_verdict"
  shows "spent_run t st' k n = spent_run t st k n"
  by (simp add: spent_run_def assms)

lemma spent_consult_run:
  "spent_run t st k n \<Longrightarrow> snd (consult_run t st k (Some n)) = None"
  by (auto simp: spent_run_def consult_run_def Let_def split: option.splits if_splits)

lemma consult_run_spends:
  assumes "snd (consult_run t st k (Some n)) \<noteq> None"
  shows "spent_run t (fst (consult_run t st k (Some n))) k n"
  using assms
  by (auto simp: spent_run_def consult_run_def Let_def trip_verdict_def bind_eq_Some_conv
      split: option.splits if_splits Option.bind_splits)

lemma trip_verdict_view:
  "Option.bind (map_of (rs_histories (trip_verdict k' st)) k) kh_verdict =
     (if k' = k then map_option (\<lambda>v. v\<lparr>vd_tripped := True\<rparr>) (Option.bind (map_of (rs_histories st) k) kh_verdict)
      else Option.bind (map_of (rs_histories st) k) kh_verdict)"
  by (auto simp: trip_verdict_def split: option.split)

lemma consult_run_keeps_spent:
  assumes "spent_run t st k n"
  shows "spent_run t (fst (consult_run t st k' n')) k n"
  using assms
  by (auto simp: spent_run_def consult_run_def Let_def trip_verdict_view
      split: option.splits if_splits)

lemma claim_first_shape:
  "fst (claim_first ks n st) = st
   \<or> (\<exists>k s. map_of (rs_streaks st) k = Some s
        \<and> fst (claim_first ks n st) = st\<lparr>rs_streaks := AList.update k (s\<lparr>sk_warned := True\<rparr>) (rs_streaks st)\<rparr>)"
  by (induction ks) (auto split: option.split)

lemma claim_first_keeps_spent:
  assumes "spent_run t st k n"
  shows "spent_run t (fst (claim_first ks n' st)) k n"
  using claim_first_shape [of ks n' st]
proof (elim disjE exE conjE)
  fix k' s
  assume "map_of (rs_streaks st) k' = Some s"
    "fst (claim_first ks n' st) = st\<lparr>rs_streaks := AList.update k' (s\<lparr>sk_warned := True\<rparr>) (rs_streaks st)\<rparr>"
  with assms show ?thesis
    by (cases "k' = k") (simp_all add: spent_run_def)
qed (use assms in simp)

lemma push_verdict [simp]: "kh_verdict (pushEntry hs e) = kh_verdict hs"
  by (simp add: pushEntry_def Let_def)

lemma history_verdict:
  "Option.bind (map_of (rs_histories (set_history k' (pushEntry (historyOf st k') e) st)) k) kh_verdict =
   Option.bind (map_of (rs_histories st) k) kh_verdict"
  by (auto simp: historyOf_def empty_history_def split: option.split)

lemma found_tl:
  assumes "wf_omap m" and "map_of (tl m) r = Some st"
  shows "map_of m r = Some st"
proof (cases m)
  case (Cons x xs)
  then have "map_of xs r = Some st" "fst x \<notin> set (okeys xs)"
    using assms by simp_all
  with found_run_key [OF this(1)] Cons show ?thesis
    by (cases "fst x = r") auto
qed (use assms in simp)

lemma record_elsewhere:
  assumes "guard_ok g" and "\<not> (gs_run s = r \<and> gs_kind s = k)"
    and "map_of (lg_runs (guard_step D (Ge_start s) g)) r = Some st'"
  shows "\<exists>st. (st = empty_run \<or> map_of (lg_runs g) r = Some st)
    \<and> map_of (rs_streaks st') k = map_of (rs_streaks st) k
    \<and> map_of (rs_histories st') k = map_of (rs_histories st) k"
proof -
  let ?r = "gs_run s" and ?k = "gs_kind s"
  obtain g1 st0 where sf: "stateFor ?r g = (g1, st0)" by fastforce
  have wf: "wf_omap (lg_runs g)"
    using assms(1) by (simp add: guard_ok_def)
  have st0: "st0 = empty_run \<or> map_of (lg_runs g) ?r = Some st0"
    using sf by (auto simp: stateFor_def Let_def split: option.splits)
  have other: "map_of (lg_runs g1) r = Some st \<Longrightarrow> r \<noteq> ?r \<Longrightarrow> map_of (lg_runs g) r = Some st" for st
    using sf found_tl [OF wf]
    by (auto simp: stateFor_def Let_def map_of_touch map_add_def split: option.splits if_splits)
  show ?thesis
  proof (cases "appliesTo g ?k (gs_node s) (gs_name s)")
    case False
    then show ?thesis
      using assms(3) by (auto simp: guard_record_def)
  next
    case True
    show ?thesis
    proof (cases "r = ?r")
      case False
      then show ?thesis
        using assms(3) True other
        by (auto simp: guard_record_def sf Let_def case_prod_unfold split: option.splits)
    next
      case same: True
      then have "?k \<noteq> k"
        using assms(2) by auto
      then have "map_of (rs_streaks st') k = map_of (rs_streaks st0) k
          \<and> map_of (rs_histories st') k = map_of (rs_histories st0) k"
        using assms(3) True same
        by (auto simp: guard_record_def sf Let_def case_prod_unfold record_call_def record_unreadable_def
            split: option.splits)
      with st0 same show ?thesis by auto
    qed
  qed
qed

lemma step_keeps_spent:
  assumes "guard_ok g" and "gate_spent g r k n"
    and "\<And>s. e = Ge_start s \<Longrightarrow> \<not> (gs_run s = r \<and> gs_kind s = k \<and> watched (lg_config g) s)"
  shows "gate_spent (guard_step D e g) r k n"
proof (cases "map_of (lg_runs (guard_step D e g)) r")
  case None
  then show ?thesis by (simp add: gate_spent_def)
next
  case (Some st')
  let ?t = "lc_threshold (lg_config g)"
  have spent: "map_of (lg_runs g) r = Some st \<Longrightarrow> spent_run ?t st k n" for st
    using assms(2) by (simp add: gate_spent_def)
  have "spent_run ?t st' k n"
  proof (cases e)
    case (Ge_start s)
    show ?thesis
    proof (cases "gs_run s = r \<and> gs_kind s = k")
      case False
      from record_elsewhere [OF assms(1) False Some [unfolded Ge_start]] obtain st
        where "st = empty_run \<or> map_of (lg_runs g) r = Some st"
          "map_of (rs_streaks st') k = map_of (rs_streaks st) k"
          "map_of (rs_histories st') k = map_of (rs_histories st) k" by blast
      then show ?thesis
        using spent spent_run_cong [of st' k st ?t n] by auto
    next
      case True
      then have "\<not> appliesTo g (gs_kind s) (gs_node s) (gs_name s)"
        using assms(3) [OF Ge_start] by (simp add: watched_def applies_config [of g])
      then show ?thesis
        using Some spent by (simp add: Ge_start guard_record_def)
    qed
  next
    case (Ge_error r' m i name msg)
    have same: "spent_run ?t (st\<lparr>rs_open := calls\<rparr>) k n = spent_run ?t st k n" for st calls
      by (rule spent_run_cong) simp_all
    show ?thesis
      using Some spent same
      by (auto simp: Ge_error noteError_def split: option.splits if_splits)
  next
    case (Ge_finish h r' m i st out em)
    have same: "spent_run ?t (set_history k' (pushEntry (historyOf st1 k') c) st1) k n = spent_run ?t st0 k n"
      if "rs_streaks st1 = rs_streaks st0" "rs_histories st1 = rs_histories st0" for k' st0 st1 c
      using history_verdict [of k' st1 c k] that by (intro spent_run_cong) simp_all
    show ?thesis
      using Some spent same
      by (auto simp: Ge_finish complete_def Let_def map_of_touch split: option.splits if_splits)
  next
    case (Ge_consult r' k' m name)
    show ?thesis
      using Some spent consult_run_keeps_spent
      by (auto simp: Ge_consult consult_def Let_def case_prod_unfold split: option.splits if_splits)
  next
    case (Ge_warn r' m k')
    show ?thesis
      using Some spent claim_first_keeps_spent
      by (auto simp: Ge_warn claimWarning_def Let_def case_prod_unfold simp del: claim_first.simps
          split: option.splits if_splits)
  next
    case (Ge_forget r')
    then show ?thesis
      using Some spent by (auto simp: forget_def split: if_splits)
  qed
  with Some show ?thesis
    by (simp add: gate_spent_def config_step)
qed

lemma run_keeps_spent:
  assumes "guard_ok g" and "gate_spent g r k n"
    and "\<forall>s. Ge_start s \<in> set es \<longrightarrow> \<not> (gs_run s = r \<and> gs_kind s = k \<and> watched (lg_config g) s)"
  shows "gate_spent (fold (guard_step D) es g) r k n"
  using assms
proof (induction es arbitrary: g)
  case (Cons e es)
  then have "gate_spent (guard_step D e g) r k n"
    by (intro step_keeps_spent) auto
  with Cons show ?case
    by (auto intro!: Cons.IH simp: guard_step_ok config_step)
qed simp

text \<open>
  C28: A start is held at most once. Once a gate of a node was held, no gate of that node and kind is
  held again in the run until another start of that kind is watched in it: a retry of the same
  call runs on, whatever else happens in between (errors, completions, starts of other kinds and
  other runs, consultations of other nodes, evicted or forgotten runs).
\<close>

theorem start_is_held_once:
  assumes "g = fold (guard_step D) es0 (guard_new config salt)"
    and "consult g r k (Some n) name = (g1, Some info)"
    and "\<forall>s. Ge_start s \<in> set es \<longrightarrow> \<not> (gs_run s = r \<and> gs_kind s = k \<and> watched config s)"
  shows "snd (consult (fold (guard_step D) es g1) r k (Some n) name') = None"
proof -
  have ok: "guard_ok g"
    unfolding assms(1) by (rule lgm.reach_inv) (simp add: fresh_guard_def guard_new_def)
  have step: "g1 = guard_step D (Ge_consult r k (Some n) name) g"
    using assms(2) by simp
  have ok1: "guard_ok g1"
    unfolding step by (rule guard_step_ok [OF ok])
  have c: "lg_config g1 = config"
  proof -
    have "lg_config (fold (guard_step D) es0 (guard_new config salt)) = config"
      by (rule trans [OF lgm.run_frame]) (simp_all add: config_step guard_new_def)
    then show ?thesis
      using assms(1) by (simp only: step config_step)
  qed
  have "gate_spent g1 r k n"
    using assms(2) consult_run_spends [of "lc_threshold (lg_config g)" _ k n]
    by (auto simp: consult_def gate_spent_def Let_def case_prod_unfold split: option.splits if_splits)
  then have "gate_spent (fold (guard_step D) es g1) r k n"
    by (rule run_keeps_spent [rotated]) (use assms(3) c ok1 in auto)
  then show ?thesis
    by (auto simp: consult_def gate_spent_def Let_def case_prod_unfold spent_consult_run
        split: option.splits)
qed

definition strict_config :: loop_config where
  "strict_config = sample_config\<lparr>lc_threshold := 1\<rparr>"

lemma first_start_recorded:
  "\<exists>g1 res. guard_record sample_digests (gs_heap (search_start JNull 5)) (guard_new strict_config []) (lit ''r'') Tool
      (Some (lit ''t'')) (Some (lit ''t'')) JNull 5 None = (g1, Some res)
    \<and> lr_atThreshold res \<and> lr_repeats res = 1 \<and> lr_firstSeq res = 5
    \<and> guard_step sample_digests (Ge_start (search_start JNull 5)) (guard_new strict_config []) = g1"
  by (simp add: guard_record_def guard_new_def appliesTo_def guard_enabled_def strict_config_def
      sample_config_def comparableFingerprint_def UNREADABLE_INPUT_def stateFor_def MAX_LOOP_RUNS_def
      record_call_def next_streak_def empty_run_def Let_def case_prod_unfold search_start_def)

theorem recorded_start_is_held_witness:
  "\<exists>g1 info. snd (consult g1 (lit ''r'') Tool (Some (lit ''t'')) (Some (lit ''t''))) = Some info
     \<and> li_repeats info = 1 \<and> li_firstSeq info = 5 \<and> li_kind info = None"
proof -
  obtain g1 res where rec: "guard_record sample_digests (gs_heap (search_start JNull 5)) (guard_new strict_config []) (lit ''r'') Tool
      (Some (lit ''t'')) (Some (lit ''t'')) JNull 5 None = (g1, Some res)"
    and res: "lr_atThreshold res" "lr_repeats res = 1" "lr_firstSeq res = 5"
    using first_start_recorded by blast
  show ?thesis
    using recorded_start_is_held [OF rec] res by (intro exI [of _ g1]) simp
qed

theorem start_is_held_once_witness:
  "\<exists>g1 info. consult (fold (guard_step sample_digests) [Ge_start (search_start JNull 5)] (guard_new strict_config []))
       (lit ''r'') Tool (Some (lit ''t'')) None = (g1, Some info)
     \<and> snd (consult (fold (guard_step sample_digests)
         [Ge_error (lit ''r'') (Some (lit ''t'')) None None None, Ge_warn (lit ''r'') None None] g1)
         (lit ''r'') Tool (Some (lit ''t'')) None) = None"
proof -
  let ?g = "fold (guard_step sample_digests) [Ge_start (search_start JNull 5)] (guard_new strict_config [])"
  obtain g1 res where rec: "guard_record sample_digests (gs_heap (search_start JNull 5)) (guard_new strict_config []) (lit ''r'') Tool
      (Some (lit ''t'')) (Some (lit ''t'')) JNull 5 None = (g1, Some res)"
    and res: "lr_atThreshold res" and g: "?g = g1"
    using first_start_recorded by auto
  obtain st s hs where l: "lg_config g1 = strict_config" "map_of (lg_runs g1) (lit ''r'') = Some st"
    "map_of (rs_streaks st) Tool = Some s" "sk_nodeId s = lit ''t''" "\<not> sk_tripped s"
    "lc_threshold strict_config \<le> sk_repeats s"
    using record_leaves [OF rec] res by (auto simp: guard_new_def)
  have "snd (consult g1 (lit ''r'') Tool (Some (lit ''t'')) None) \<noteq> None"
    using l by (simp add: consult_def consult_run_def Let_def case_prod_unfold appliesTo_def
        guard_enabled_def strict_config_def sample_config_def)
  then obtain g2 info where c: "consult ?g (lit ''r'') Tool (Some (lit ''t'')) None = (g2, Some info)"
    unfolding g by (metis not_Some_eq prod.collapse)
  show ?thesis
    using c start_is_held_once [OF refl c, where name' = None and
        es = "[Ge_error (lit ''r'') (Some (lit ''t'')) None None None, Ge_warn (lit ''r'') None None]"]
    by auto
qed

end
