(* ===== verification/Edit_Input.thy ===== *)
theory Edit_Input
  imports Js_Value "HOL-Library.Monad_Syntax" "HOL-Library.Sublist"
begin

text \<open>
  \<open>packages/client/src/edit-input.ts\<close> and \<open>contentRefusal\<close> of
  \<open>packages/cli/src/control-auth.ts\<close>: what a debugger's edited input is checked with. A value is
  refused when its JSON text holds the redaction placeholder or a truncation marker, when it
  holds one of the two prototype-pollution payloads, and a validator's verdict is brought into
  one of two shapes.

  The regular expressions of the markers are written as matchers on UTF-16 text. The iterative
  search for a pollution path is a \<open>partial_function\<close>: None is a search that never ends (a getter
  that keeps making objects); the lemmas show that it ends on every finite value.
\<close>

section \<open>Refusals\<close>

datatype refusal_code = Rc_schema | Rc_shape | Rc_placeholder | Rc_truncated | Rc_disabled | Rc_unsupported

fun refusal_text :: "refusal_code \<Rightarrow> string" where
  "refusal_text Rc_schema = ''schema''"
| "refusal_text Rc_shape = ''shape''"
| "refusal_text Rc_placeholder = ''placeholder''"
| "refusal_text Rc_truncated = ''truncated''"
| "refusal_text Rc_disabled = ''disabled''"
| "refusal_text Rc_unsupported = ''unsupported''"

definition REFUSAL_CODES :: "refusal_code list" where
  "REFUSAL_CODES = [Rc_schema, Rc_shape, Rc_placeholder, Rc_truncated, Rc_disabled, Rc_unsupported]"

record edit_refusal =
  er_code :: refusal_code
  er_message :: "jstr option"

definition refuse :: "refusal_code \<Rightarrow> string \<Rightarrow> edit_refusal" where
  "refuse code message = \<lparr>er_code = code, er_message = Some (lit message)\<rparr>"

section \<open>Markers in JSON text\<close>

definition ELLIPSIS :: nat where "ELLIPSIS = 8230"

definition REDACTED :: jstr where "REDACTED = lit ''__REDACTED__''"

definition TRUNCATION_MARKERS :: "jstr list" where
  "TRUNCATION_MARKERS =
     [lit ''__graphmindTruncated'',
      ELLIPSIS # lit ''[graphmind: truncated]'',
      lit ''\"__graphmind\":\"truncated\"'',
      lit ''\"__graphmind\":\"unserializable\"'',
      lit ''\"note\":\"payload truncated: showing first '']"

definition is_digit :: "nat \<Rightarrow> bool" where
  "is_digit c \<longleftrightarrow> 48 \<le> c \<and> c \<le> 57"

text \<open>A marker: fixed text, decimal digits (where it has them), fixed text.\<close>

record marker_shape =
  mk_open :: jstr
  mk_digits :: bool
  mk_close :: jstr

text \<open>The text after the marker when it matches at the front.\<close>

definition match_marker :: "marker_shape \<Rightarrow> jstr \<Rightarrow> jstr option" where
  "match_marker p s =
     (if take (length (mk_open p)) s \<noteq> mk_open p then None
      else let s1 = drop (length (mk_open p)) s;
               s2 = (if mk_digits p then dropWhile is_digit s1 else s1)
           in if mk_digits p \<and> takeWhile is_digit s1 = [] then None
              else if take (length (mk_close p)) s2 \<noteq> mk_close p then None
              else Some (drop (length (mk_close p)) s2))"

text \<open>
  \<open>(?:^|[lead])marker(?=[trail]|$)\<close>; \<open>anchor\<close> says whether \<open>^\<close> and \<open>$\<close> are alternatives.
  The flag \<open>here\<close> tells whether the text before this position allows a match.
\<close>

fun scan_marker :: "nat set \<Rightarrow> nat set \<Rightarrow> bool \<Rightarrow> marker_shape \<Rightarrow> bool \<Rightarrow> jstr \<Rightarrow> bool" where
  "scan_marker lead trail anchor p here s =
     ((here \<and> (case match_marker p s of
                 None \<Rightarrow> False
               | Some rest \<Rightarrow> (if rest = [] then anchor else hd rest \<in> trail)))
      \<or> (case s of [] \<Rightarrow> False | c # cs \<Rightarrow> scan_marker lead trail anchor p (c \<in> lead) cs))"

declare scan_marker.simps [simp del]

definition value_marker :: "marker_shape \<Rightarrow> jstr \<Rightarrow> bool" where
  "value_marker p s = scan_marker {91, 58, 44} {44, 93, 125} True p True s"

definition key_marker :: "marker_shape \<Rightarrow> jstr \<Rightarrow> bool" where
  "key_marker p s = scan_marker {123, 44} {44, 125} False p False s"

text \<open>\<open>PYTHON_PREVIEW_MARKERS\<close>, in order.\<close>

definition python_preview :: "jstr \<Rightarrow> bool" where
  "python_preview s \<longleftrightarrow>
     js_includes (ELLIPSIS # lit ''[truncated]\"'') s
     \<or> value_marker \<lparr>mk_open = lit ''\"<'', mk_digits = True, mk_close = lit '' bytes>\"''\<rparr> s
     \<or> value_marker \<lparr>mk_open = 34 # ELLIPSIS # lit ''[depth limit]\"'', mk_digits = False, mk_close = []\<rparr> s
     \<or> key_marker \<lparr>mk_open = 34 # ELLIPSIS # lit ''\":\"['', mk_digits = True,
                    mk_close = lit '' more keys]\"''\<rparr> s
     \<or> value_marker \<lparr>mk_open = 34 # ELLIPSIS # lit ''['', mk_digits = True, mk_close = lit '' more]\"''\<rparr> s"

definition has_truncation :: "jstr \<Rightarrow> bool" where
  "has_truncation s \<longleftrightarrow> list_ex (\<lambda>m. js_includes m s) TRUNCATION_MARKERS \<or> python_preview s"

text \<open>\<open>n\<close>: the stack \<open>JSON.stringify\<close> has; \<open>T\<close>: the text of a number.\<close>

definition proposedValueRefusal :: "(rat \<Rightarrow> jstr) \<Rightarrow> heap \<Rightarrow> nat \<Rightarrow> js \<Rightarrow> edit_refusal option" where
  "proposedValueRefusal T h n value =
     (case stringify h n value of
        Jr_throws \<Rightarrow> Some (refuse Rc_shape ''the value could not be read as JSON'')
      | Jr_undefined \<Rightarrow> None
      | Jr_tree t \<Rightarrow>
          (let text = print_json T t
           in if js_includes REDACTED text
              then Some (refuse Rc_placeholder
                ''the value contains redacted content (\"__REDACTED__\"); replace it before running'')
              else if has_truncation text
              then Some (refuse Rc_truncated
                ''the value contains a truncated preview, not the full value; replace it before running'')
              else None))"

section \<open>Short texts and verdicts\<close>

definition MAX_REFUSAL_MESSAGE :: nat where "MAX_REFUSAL_MESSAGE = 200"

text \<open>The class \<open>UNPRINTABLE\<close>: C0 and C1 controls, bidi marks, overrides and isolates.\<close>

definition unprintable :: "nat \<Rightarrow> bool" where
  "unprintable c \<longleftrightarrow>
     c \<le> 31 \<or> 127 \<le> c \<and> c \<le> 159 \<or> c = 8206 \<or> c = 8207 \<or> 8234 \<le> c \<and> c \<le> 8238
     \<or> 8294 \<le> c \<and> c \<le> 8297"

definition sanitizeShortText :: "js \<Rightarrow> jstr option" where
  "sanitizeShortText message =
     (case message of
        JStr m \<Rightarrow>
          (let text = units_trim (collapse unit_space (collapse unprintable m));
               text' = (if MAX_REFUSAL_MESSAGE < length text
                        then let cut = MAX_REFUSAL_MESSAGE - 1;
                                 cut' = (if high_surrogate (text ! (cut - 1)) then cut - 1 else cut)
                             in take cut' text @ [ELLIPSIS]
                        else text)
           in if text' = [] then None else Some text')
      | _ \<Rightarrow> None)"

datatype validation = Val_ok js | Val_refused edit_refusal

definition MALFORMED :: validation where
  "MALFORMED = Val_refused (refuse Rc_shape ''the input could not be validated'')"

definition known_code :: "js \<Rightarrow> refusal_code option" where
  "known_code v = find (\<lambda>c. v = JStr (lit (refusal_text c))) REFUSAL_CODES"

definition read_verdict :: "js_object \<Rightarrow> validation option" where
  "read_verdict ob =
     do { ok \<leftarrow> get_prop ob (lit ''ok'');
          if ok = JBool True
          then do { has \<leftarrow> has_prop ob (lit ''value'');
                    if has then do { v \<leftarrow> get_prop ob (lit ''value''); Some (Val_ok v) }
                    else Some MALFORMED }
          else if ok \<noteq> JBool False then Some MALFORMED
          else do { code \<leftarrow> get_prop ob (lit ''code'');
                    case known_code code of
                      None \<Rightarrow> Some MALFORMED
                    | Some c \<Rightarrow>
                        do { message \<leftarrow> get_prop ob (lit ''message'');
                             Some (Val_refused \<lparr>er_code = c, er_message = sanitizeShortText message\<rparr>) } } }"

definition normalizeValidation :: "heap \<Rightarrow> js \<Rightarrow> validation" where
  "normalizeValidation h result =
     (case result of
        JObj a \<Rightarrow> (case read_verdict (h a) of Some v \<Rightarrow> v | None \<Rightarrow> MALFORMED)
      | _ \<Rightarrow> MALFORMED)"

text \<open>The copy is the tree \<open>JSON.parse\<close> reads from the text.\<close>

definition wireCopy :: "heap \<Rightarrow> nat \<Rightarrow> js \<Rightarrow> json option" where
  "wireCopy h n value = (case stringify h n value of Jr_tree t \<Rightarrow> Some t | _ \<Rightarrow> None)"

section \<open>Prototype pollution\<close>

datatype pollution = Pl_throws | Pl_clean | Pl_proto | Pl_constructor

text \<open>The objects among the values of the own enumerable properties, in key order.\<close>

fun child_addrs :: "js_slot list \<Rightarrow> addr list option" where
  "child_addrs [] = Some []"
| "child_addrs (s # ss) =
     do { v \<leftarrow> read_slot s;
          rest \<leftarrow> child_addrs ss;
          Some (case v of JObj a \<Rightarrow> a # rest | _ \<Rightarrow> rest) }"

definition children :: "js_object \<Rightarrow> addr list option" where
  "children ob =
     (if jo_revoked ob then None else child_addrs (jo_items ob @ map snd (jo_own ob)))"

definition constructor_path :: "heap \<Rightarrow> js_object \<Rightarrow> bool option" where
  "constructor_path h ob =
     do { own \<leftarrow> has_own ob (lit ''constructor'');
          if \<not> own then Some False
          else do { ctor \<leftarrow> get_prop ob (lit ''constructor'');
                    case ctor of
                      JObj b \<Rightarrow> has_own (h b) (lit ''prototype'')
                    | _ \<Rightarrow> Some False } }"

text \<open>One node: its verdict, or the objects to push.\<close>

definition visit_node :: "heap \<Rightarrow> js_object \<Rightarrow> pollution + addr list" where
  "visit_node h ob =
     (case has_own ob (lit ''__proto__'') of
        None \<Rightarrow> Inl Pl_throws
      | Some True \<Rightarrow> Inl Pl_proto
      | Some False \<Rightarrow>
          (case constructor_path h ob of
             None \<Rightarrow> Inl Pl_throws
           | Some True \<Rightarrow> Inl Pl_constructor
           | Some False \<Rightarrow> (case children ob of None \<Rightarrow> Inl Pl_throws | Some as \<Rightarrow> Inr as)))"

text \<open>The loop; the head of the list is the top of the stack.\<close>

partial_function (option) pollution_loop :: "heap \<Rightarrow> addr list \<Rightarrow> addr list \<Rightarrow> pollution option" where
  "pollution_loop h seen stack =
     (case stack of
        [] \<Rightarrow> Some Pl_clean
      | node # rest \<Rightarrow>
          if node \<in> set seen then pollution_loop h seen rest
          else (case visit_node h (h node) of
                  Inl r \<Rightarrow> Some r
                | Inr as \<Rightarrow> pollution_loop h (node # seen) (rev as @ rest)))"

declare pollution_loop.simps [code]

definition pollutionPath :: "heap \<Rightarrow> addr \<Rightarrow> pollution option" where
  "pollutionPath h start = pollution_loop h [] [start]"

definition pollutionMessage :: "string \<Rightarrow> pollution \<Rightarrow> string" where
  "pollutionMessage subject path =
     (if path = Pl_proto then subject @ '' may not contain a \"__proto__\" key''
      else subject @ '' may not contain a \"constructor.prototype\" path'')"

text \<open>Outer None: the search does not end.\<close>

definition prototypeKeyRefusal :: "heap \<Rightarrow> js \<Rightarrow> edit_refusal option option" where
  "prototypeKeyRefusal h value =
     (case value of
        JObj a \<Rightarrow>
          (case pollutionPath h a of
             None \<Rightarrow> None
           | Some Pl_clean \<Rightarrow> Some None
           | Some Pl_throws \<Rightarrow> Some (Some (refuse Rc_shape ''the edited input could not be read''))
           | Some p \<Rightarrow> Some (Some (refuse Rc_shape (pollutionMessage ''the edited input'' p))))
      | _ \<Rightarrow> Some None)"

section \<open>Merging an edit into the live arguments\<close>

text \<open>\<open>{...object}\<close>: the own enumerable properties, each read once.\<close>

fun read_props :: "(jstr \<times> js_slot) list \<Rightarrow> (jstr \<times> js) list option" where
  "read_props [] = Some []"
| "read_props ((k, s) # ps) =
     do { v \<leftarrow> read_slot s; rest \<leftarrow> read_props ps; Some ((k, v) # rest) }"

definition spread :: "js_object \<Rightarrow> (jstr \<times> js) list option" where
  "spread ob = (if jo_revoked ob then None else read_props (jo_own ob))"

datatype merged = Merge_ok "(jstr \<times> js) list" | Merge_refused edit_refusal

definition isRecord :: "heap \<Rightarrow> js \<Rightarrow> js_object option option" where
  "isRecord h v =
     (case v of
        JObj a \<Rightarrow> do { arr \<leftarrow> is_array (h a); Some (if arr then None else Some (h a)) }
      | _ \<Rightarrow> Some None)"

definition merge_props :: "heap \<Rightarrow> js \<Rightarrow> js_object \<Rightarrow> bool \<Rightarrow> (jstr \<times> js) list option" where
  "merge_props h live proposed inputHidden =
     do { base \<leftarrow> (if inputHidden then Some None else isRecord h live);
          b \<leftarrow> (case base of None \<Rightarrow> Some [] | Some ob \<Rightarrow> spread ob);
          p \<leftarrow> spread proposed;
          Some (fold (\<lambda>(k, v). AList.update k v) p b) }"

text \<open>\<open>hidden\<close> is \<open>context?.inputHidden === true\<close>; outer None: the search does not end.\<close>

definition mergeToolInput :: "heap \<Rightarrow> js \<Rightarrow> js \<Rightarrow> bool \<Rightarrow> merged option" where
  "mergeToolInput h live proposed hidden =
     (let unreadable = Some (Merge_refused (refuse Rc_shape ''the edited arguments could not be read''))
      in case isRecord h proposed of
           None \<Rightarrow> unreadable
         | Some None \<Rightarrow> Some (Merge_refused (refuse Rc_shape ''the edited arguments must be a JSON object''))
         | Some (Some ob) \<Rightarrow>
             (case get_proto ob of
                None \<Rightarrow> unreadable
              | Some Other_proto \<Rightarrow>
                  Some (Merge_refused (refuse Rc_shape ''the edited arguments must be a plain JSON object''))
              | Some _ \<Rightarrow>
                  (case proposed of
                     JObj a \<Rightarrow>
                       (case pollutionPath h a of
                          None \<Rightarrow> None
                        | Some Pl_throws \<Rightarrow> unreadable
                        | Some Pl_clean \<Rightarrow>
                            (case merge_props h live ob hidden of
                               None \<Rightarrow> unreadable
                             | Some ps \<Rightarrow> Some (Merge_ok ps))
                        | Some p \<Rightarrow>
                            Some (Merge_refused (refuse Rc_shape (pollutionMessage ''the edited arguments'' p))))
                   | _ \<Rightarrow> unreadable)))"

section \<open>\<open>contentRefusal\<close> of the hub\<close>

datatype edit_what = What_input | What_output

definition contentRefusal ::
  "(rat \<Rightarrow> jstr) \<Rightarrow> heap \<Rightarrow> nat \<Rightarrow> js \<Rightarrow> edit_what \<Rightarrow> edit_refusal option" where
  "contentRefusal T h n value what =
     (case proposedValueRefusal T h n value of
        None \<Rightarrow> None
      | Some r \<Rightarrow>
          (let verb = (if what = What_input then ''edit refused'' else ''inject refused'')
           in Some (case er_code r of
                Rc_placeholder \<Rightarrow>
                  refuse Rc_placeholder (verb @ (if what = What_input
                    then '': this input contains redacted content (\"__REDACTED__\"); edit it before running''
                    else '': this value contains redacted content (\"__REDACTED__\"); edit it before injecting''))
              | Rc_truncated \<Rightarrow>
                  refuse Rc_truncated
                    (verb @ '': this value contains a truncated preview of a recorded value; send the full value'')
              | c \<Rightarrow>
                  \<lparr>er_code = c,
                   er_message = Some (lit (verb @ '': '') @
                     (case er_message r of Some m \<Rightarrow> m | None \<Rightarrow> lit ''the value cannot be checked''))\<rparr>)))"

section \<open>The search ends, and finds what there is\<close>

text \<open>The objects reachable through own enumerable properties.\<close>

inductive reaches :: "heap \<Rightarrow> addr \<Rightarrow> addr \<Rightarrow> bool" for h :: heap and a :: addr where
  reaches_refl: "reaches h a a"
| reaches_step: "reaches h a b \<Longrightarrow> children (h b) = Some as \<Longrightarrow> c \<in> set as \<Longrightarrow> reaches h a c"

definition clean_node :: "heap \<Rightarrow> js_object \<Rightarrow> bool" where
  "clean_node h ob \<longleftrightarrow>
     has_own ob (lit ''__proto__'') = Some False \<and> constructor_path h ob = Some False \<and> children ob \<noteq> None"

lemma visit_clean: "clean_node h ob \<longleftrightarrow> (\<exists>as. visit_node h ob = Inr as)"
  by (auto simp: clean_node_def visit_node_def split: option.split bool.split)

lemma visit_children: "visit_node h ob = Inr as \<Longrightarrow> children ob = Some as"
  by (auto simp: visit_node_def split: option.splits bool.splits)

lemma visit_found:
  "visit_node h ob = Inl r \<Longrightarrow>
     r \<noteq> Pl_clean \<and> (r = Pl_proto \<longrightarrow> has_own ob (lit ''__proto__'') = Some True)
     \<and> (r = Pl_constructor \<longrightarrow> constructor_path h ob = Some True)"
  by (auto simp: visit_node_def split: option.splits bool.splits)

text \<open>What the loop keeps, and how it ends, inside a finite set of objects.\<close>

definition search_inv :: "heap \<Rightarrow> addr set \<Rightarrow> addr list \<times> addr list \<Rightarrow> bool" where
  "search_inv h R st \<longleftrightarrow>
     (case st of (seen, stack) \<Rightarrow>
        set seen \<union> set stack \<subseteq> R
        \<and> (\<forall>s\<in>set seen. \<exists>as. visit_node h (h s) = Inr as \<and> set as \<subseteq> set seen \<union> set stack))"

definition search_end :: "heap \<Rightarrow> addr set \<Rightarrow> addr list \<times> addr list \<Rightarrow> bool" where
  "search_end h R st \<longleftrightarrow>
     (case st of (seen, stack) \<Rightarrow>
        \<exists>r. pollution_loop h seen stack = Some r
          \<and> (r \<noteq> Pl_clean \<longrightarrow> (\<exists>b\<in>R. visit_node h (h b) = Inl r))
          \<and> (r = Pl_clean \<longrightarrow> (\<exists>S. set seen \<union> set stack \<subseteq> S
                \<and> (\<forall>s\<in>S. \<exists>as. visit_node h (h s) = Inr as \<and> set as \<subseteq> S))))"

lemma search_end_step:
  assumes "pollution_loop h seen stack = pollution_loop h seen' stack'"
    and "set seen \<union> set stack \<subseteq> set seen' \<union> set stack'" and "search_end h R (seen', stack')"
  shows "search_end h R (seen, stack)"
proof -
  obtain r where r: "pollution_loop h seen' stack' = Some r"
    and found: "r \<noteq> Pl_clean \<longrightarrow> (\<exists>b\<in>R. visit_node h (h b) = Inl r)"
    and clean: "r = Pl_clean \<longrightarrow> (\<exists>S. set seen' \<union> set stack' \<subseteq> S
                \<and> (\<forall>s\<in>S. \<exists>as. visit_node h (h s) = Inr as \<and> set as \<subseteq> S))"
    using assms(3) unfolding search_end_def prod.case by blast
  from clean have "r = Pl_clean \<longrightarrow> (\<exists>S. set seen \<union> set stack \<subseteq> S
                \<and> (\<forall>s\<in>S. \<exists>as. visit_node h (h s) = Inr as \<and> set as \<subseteq> S))"
    using order_trans [OF assms(2)] by blast
  with r found assms(1) show ?thesis
    unfolding search_end_def prod.case by simp
qed

lemma pollution_loop_ends:
  assumes "finite R" and closed: "\<forall>b\<in>R. \<forall>as. children (h b) = Some as \<longrightarrow> set as \<subseteq> R"
  shows "search_inv h R st \<Longrightarrow> search_end h R st"
proof (induction st rule: wf_induct_rule
    [OF wf_inv_image [OF wf_lex_prod [OF wf_less_than wf_less_than],
        of "\<lambda>(seen, stack). (card (R - set seen), length stack)"]])
  case (1 st)
  obtain seen stack where st: "st = (seen, stack)" by fastforce
  note inv = 1(2) [unfolded st search_inv_def prod.case]
  show ?case
  proof (cases stack)
    case Nil
    then have "pollution_loop h seen stack = Some Pl_clean"
      by (subst pollution_loop.simps) simp
    then show ?thesis
      using inv Nil by (auto simp: st search_end_def intro!: exI [of _ "set seen"])
  next
    case (Cons node rest)
    show ?thesis
    proof (cases "node \<in> set seen")
      case True
      have "search_end h R (seen, rest)"
        by (rule 1(1)) (use inv True Cons in \<open>auto simp: st search_inv_def insert_absorb\<close>)
      moreover have "pollution_loop h seen stack = pollution_loop h seen rest"
        unfolding Cons using True by (subst pollution_loop.simps) simp
      ultimately show ?thesis
        unfolding st using True Cons by (intro search_end_step [of h seen stack seen rest]) auto
    next
      case new: False
      have node: "node \<in> R" using inv Cons by simp
      show ?thesis
      proof (cases "visit_node h (h node)")
        case (Inl r)
        then have "pollution_loop h seen stack = Some r"
          unfolding Cons using new by (subst pollution_loop.simps) simp
        then show ?thesis
          using Inl node visit_found [OF Inl] unfolding st search_end_def by auto
      next
        case (Inr as)
        have loop: "pollution_loop h seen stack = pollution_loop h (node # seen) (rev as @ rest)"
          unfolding Cons using new Inr by (subst pollution_loop.simps) simp
        have "set as \<subseteq> R"
          using closed node visit_children [OF Inr] by blast
        moreover have "card (R - set (node # seen)) < card (R - set seen)"
          using assms(1) node new by (intro psubset_card_mono) auto
        moreover have "\<forall>s\<in>set (node # seen). \<exists>as'. visit_node h (h s) = Inr as'
            \<and> set as' \<subseteq> set (node # seen) \<union> set (rev as @ rest)"
          using inv Inr Cons by fastforce
        ultimately have "search_end h R (node # seen, rev as @ rest)"
          using inv node Cons by (intro 1(1)) (simp_all add: st search_inv_def)
        then show ?thesis
          unfolding st using Cons by (intro search_end_step [OF loop]) auto
      qed
    qed
  qed
qed

lemma closed_reaches:
  assumes "\<forall>s\<in>S. \<exists>as. visit_node h (h s) = Inr as \<and> set as \<subseteq> S" and "a \<in> S"
  shows "reaches h a b \<Longrightarrow> b \<in> S"
proof (induction rule: reaches.induct)
  case (reaches_step b as c)
  then show ?case
    using assms(1) visit_children [of h "h b"] by fastforce
qed (rule assms(2))

text \<open>
  C34: The search for prototype-pollution payloads ends and is exact. On a value with finitely many
  reachable objects (every value parsed from JSON, cyclic host values too) the loop returns; it
  calls the value clean exactly when every reachable object can be read and has neither an own
  \<open>__proto__\<close> key nor a \<open>constructor.prototype\<close> path, and what it reports is there.
\<close>

theorem pollution_search_is_exact:
  assumes "finite {b. reaches h a b}"
  shows "\<exists>r. pollutionPath h a = Some r
    \<and> (r = Pl_clean \<longleftrightarrow> (\<forall>b. reaches h a b \<longrightarrow> clean_node h (h b)))
    \<and> (r = Pl_proto \<longrightarrow> (\<exists>b. reaches h a b \<and> has_own (h b) (lit ''__proto__'') = Some True))
    \<and> (r = Pl_constructor \<longrightarrow> (\<exists>b. reaches h a b \<and> constructor_path h (h b) = Some True))"
proof -
  have "search_end h {b. reaches h a b} ([], [a])"
    by (rule pollution_loop_ends [OF assms])
      (auto simp: search_inv_def intro: reaches_refl reaches_step)
  then obtain r where r: "pollutionPath h a = Some r"
    and found: "r \<noteq> Pl_clean \<Longrightarrow> \<exists>b. reaches h a b \<and> visit_node h (h b) = Inl r"
    and clean: "r = Pl_clean \<Longrightarrow> \<exists>S. a \<in> S \<and> (\<forall>s\<in>S. \<exists>as. visit_node h (h s) = Inr as \<and> set as \<subseteq> S)"
    unfolding search_end_def pollutionPath_def by auto
  have "clean_node h (h b)" if "r = Pl_clean" "reaches h a b" for b
    using clean [OF that(1)] closed_reaches that(2) unfolding visit_clean by blast
  moreover have "\<exists>b. reaches h a b \<and> \<not> clean_node h (h b)" if "r \<noteq> Pl_clean"
  proof -
    from found [OF that] obtain b where "reaches h a b" "visit_node h (h b) = Inl r" by blast
    then show ?thesis
      unfolding visit_clean by (intro exI [of _ b]) simp
  qed
  ultimately have "r = Pl_clean \<longleftrightarrow> (\<forall>b. reaches h a b \<longrightarrow> clean_node h (h b))"
    by blast
  moreover have "\<exists>b. reaches h a b \<and> has_own (h b) (lit ''__proto__'') = Some True" if "r = Pl_proto"
    using found visit_found that by blast
  moreover have "\<exists>b. reaches h a b \<and> constructor_path h (h b) = Some True" if "r = Pl_constructor"
    using found visit_found that by blast
  ultimately show ?thesis
    using r by blast
qed

definition sneaky_heap :: heap where
  "sneaky_heap a =
     (if a = 0 then js_record [(lit ''x'', Slot (JObj 0)), (lit ''y'', Slot (JObj 2))]
      else js_record [(lit ''__proto__'', Slot JNull)])"

theorem pollution_search_is_exact_witness:
  "\<exists>r. pollutionPath sneaky_heap 0 = Some r \<and> r \<noteq> Pl_clean"
proof -
  have c: "children (sneaky_heap 0) = Some [0, 2]" "children (sneaky_heap 2) = Some []"
    by (simp_all add: children_def sneaky_heap_def js_record_def)
  have "b \<in> {0, 2}" if "reaches sneaky_heap 0 b" for b
    using that
  proof (induction rule: reaches.induct)
    case (reaches_step b as c')
    from reaches_step.IH consider "b = 0" | "b = 2" by blast
    then show ?case
      using reaches_step.hyps(2,3) c by cases auto
  qed simp
  then have "{b. reaches sneaky_heap 0 b} \<subseteq> {0, 2}"
    by blast
  then have "finite {b. reaches sneaky_heap 0 b}"
    by (rule finite_subset) simp
  from pollution_search_is_exact [OF this] obtain r where r: "pollutionPath sneaky_heap 0 = Some r"
    "r = Pl_clean \<longrightarrow> (\<forall>b. reaches sneaky_heap 0 b \<longrightarrow> clean_node sneaky_heap (sneaky_heap b))"
    by blast
  have "reaches sneaky_heap 0 2"
    by (rule reaches_step [where h = sneaky_heap and a = 0 and b = 0, OF reaches_refl c(1)]) simp
  moreover have "\<not> clean_node sneaky_heap (sneaky_heap 2)"
    by (simp add: clean_node_def has_own_def sneaky_heap_def js_record_def)
  ultimately show ?thesis
    using r by blast
qed

section \<open>Merging keeps what the edit does not mention\<close>

text \<open>The own value of a key, when it can be read.\<close>

definition own_value :: "js_object \<Rightarrow> jstr \<Rightarrow> js option" where
  "own_value ob k = Option.bind (map_of (jo_own ob) k) read_slot"

lemma read_props_lookup:
  assumes "read_props ps = Some qs"
  shows "map_of qs k = Option.bind (map_of ps k) read_slot \<and> map fst qs = map fst ps"
  using assms
proof (induction ps arbitrary: qs)
  case Nil
  then show ?case by simp
next
  case (Cons p ps)
  then show ?case
    by (cases p) (auto simp: bind_eq_Some_conv)
qed

lemma fold_update_lookup:
  assumes "distinct (map fst ps)"
  shows "map_of (fold (\<lambda>(k, v). AList.update k v) ps m) k =
    (case map_of ps k of Some v \<Rightarrow> Some v | None \<Rightarrow> map_of m k)"
  using assms
proof (induction ps arbitrary: m)
  case Nil
  then show ?case by simp
next
  case (Cons p ps)
  have "map_of ps (fst p) = None"
    using Cons.prems by (simp add: map_of_eq_None_iff)
  then show ?case
    using Cons by (cases p) (simp add: update_conv' split: option.split)
qed

lemma spread_lookup:
  assumes "spread ob = Some ps"
  shows "map_of ps k = own_value ob k \<and> map fst ps = map fst (jo_own ob)"
  using assms read_props_lookup [of "jo_own ob" ps k]
  by (auto simp: spread_def own_value_def split: if_splits)

lemma merge_props_lookup:
  assumes "merge_props h live ob hidden = Some ps" and "distinct (map fst (jo_own ob))"
  shows "map_of ps k =
    (case own_value ob k of
       Some v \<Rightarrow> Some v
     | None \<Rightarrow> (if hidden then None
               else case isRecord h live of Some (Some l) \<Rightarrow> own_value l k | _ \<Rightarrow> None))"
proof -
  from assms(1) obtain base b p where base: "(if hidden then Some None else isRecord h live) = Some base"
    and b: "(case base of None \<Rightarrow> Some [] | Some l \<Rightarrow> spread l) = Some b"
    and bp: "spread ob = Some p" "ps = fold (\<lambda>(k, v). AList.update k v) p b"
    unfolding merge_props_def bind_eq_Some_conv by (elim exE conjE) simp
  have b: "map_of b k = (if hidden then None
               else case isRecord h live of Some (Some l) \<Rightarrow> own_value l k | _ \<Rightarrow> None)"
  proof (cases base)
    case None
    with base b show ?thesis by (auto split: if_splits)
  next
    case (Some l)
    with base b spread_lookup [of l b k] show ?thesis by (auto split: if_splits)
  qed
  have "distinct (map fst p)"
    using assms(2) spread_lookup [OF bp(1), of k] by simp
  then show ?thesis
    using fold_update_lookup [of p b k] spread_lookup [OF bp(1), of k] b bp(2)
    by (cases "own_value ob k") simp_all
qed

lemma merge_props_hidden: "merge_props h live ob True = merge_props h live' ob True"
  by (simp add: merge_props_def)

text \<open>
  C33: What the tool runs with. Merged arguments are the edit's own values for the keys it mentions and
  the live, exact values for every other key, nothing else; the edit was a plain object with no
  pollution path anywhere. When a switch hides the live input they do not depend on it at all:
  no answer to an edit tells anything about the hidden values.
\<close>

theorem merge_overrides_live_arguments:
  assumes "distinct (map fst (jo_own (h a)))"
  shows "(mergeToolInput h live (JObj a) hidden = Some (Merge_ok ps) \<longrightarrow>
      \<not> jo_array (h a) \<and> jo_proto (h a) \<in> {Object_proto, Null_proto}
      \<and> pollutionPath h a = Some Pl_clean
      \<and> (\<forall>k. map_of ps k =
          (case own_value (h a) k of
             Some v \<Rightarrow> Some v
           | None \<Rightarrow> (if hidden then None
                     else case isRecord h live of Some (Some l) \<Rightarrow> own_value l k | _ \<Rightarrow> None))))
    \<and> mergeToolInput h live proposed True = mergeToolInput h live' proposed True"
proof
  show "mergeToolInput h live proposed True = mergeToolInput h live' proposed True"
    unfolding mergeToolInput_def merge_props_hidden [of h live _ live'] by (rule refl)
  show "mergeToolInput h live (JObj a) hidden = Some (Merge_ok ps) \<longrightarrow>
      \<not> jo_array (h a) \<and> jo_proto (h a) \<in> {Object_proto, Null_proto}
      \<and> pollutionPath h a = Some Pl_clean
      \<and> (\<forall>k. map_of ps k =
          (case own_value (h a) k of
             Some v \<Rightarrow> Some v
           | None \<Rightarrow> (if hidden then None
                     else case isRecord h live of Some (Some l) \<Rightarrow> own_value l k | _ \<Rightarrow> None)))"
  proof
    assume m: "mergeToolInput h live (JObj a) hidden = Some (Merge_ok ps)"
    then have r: "\<not> jo_revoked (h a)" "\<not> jo_array (h a)"
      by (auto simp: mergeToolInput_def Let_def isRecord_def is_array_def split: if_splits)
    with m have p: "jo_proto (h a) \<in> {Object_proto, Null_proto}"
      by (auto simp: mergeToolInput_def Let_def isRecord_def is_array_def get_proto_def split: js_proto.splits)
    with m r have "pollutionPath h a = Some Pl_clean \<and> merge_props h live (h a) hidden = Some ps"
      by (auto simp: mergeToolInput_def Let_def isRecord_def is_array_def get_proto_def
          split: option.splits pollution.splits)
    with r p merge_props_lookup [OF _ assms] show "\<not> jo_array (h a) \<and> jo_proto (h a) \<in> {Object_proto, Null_proto}
      \<and> pollutionPath h a = Some Pl_clean
      \<and> (\<forall>k. map_of ps k =
          (case own_value (h a) k of
             Some v \<Rightarrow> Some v
           | None \<Rightarrow> (if hidden then None
                     else case isRecord h live of Some (Some l) \<Rightarrow> own_value l k | _ \<Rightarrow> None)))"
      by blast
  qed
qed

definition call_heap :: heap where
  "call_heap a =
     (if a = 0 then js_record [(lit ''q'', Slot (JStr (lit ''cut''))), (lit ''n'', Slot (JNum (Fin 1)))]
      else js_record [(lit ''q'', Slot (JStr (lit ''full'')))])"

lemma call_heap_objects:
  "call_heap 0 = js_record [(lit ''q'', Slot (JStr (lit ''cut''))), (lit ''n'', Slot (JNum (Fin 1)))]"
  "call_heap 2 = js_record [(lit ''q'', Slot (JStr (lit ''full'')))]"
  by (simp_all add: call_heap_def)

lemma call_heap_record [simp]:
  "jo_revoked (js_record ps) = False" "jo_array (js_record ps) = False"
  "jo_proto (js_record ps) = Object_proto" "jo_own (js_record ps) = ps"
  by (simp_all add: js_record_def)

lemma call_heap_clean: "pollutionPath call_heap 2 = Some Pl_clean"
  by (simp add: pollutionPath_def pollution_loop.simps visit_node_def has_own_def constructor_path_def
      children_def call_heap_def js_record_def)

theorem merge_overrides_live_arguments_witness:
  "\<exists>ps. mergeToolInput call_heap (JObj 0) (JObj 2) False = Some (Merge_ok ps)
     \<and> map_of ps (lit ''q'') = Some (JStr (lit ''full'')) \<and> map_of ps (lit ''n'') = Some (JNum (Fin 1))"
proof -
  have d: "distinct (map fst (jo_own (call_heap 2)))"
    by (simp add: call_heap_def js_record_def)
  obtain ps where ps: "mergeToolInput call_heap (JObj 0) (JObj 2) False = Some (Merge_ok ps)"
    by (simp add: mergeToolInput_def isRecord_def is_array_def get_proto_def call_heap_clean
        merge_props_def spread_def call_heap_objects)
  have live: "isRecord call_heap (JObj 0) = Some (Some (call_heap 0))"
    by (simp add: isRecord_def is_array_def call_heap_objects)
  have "\<forall>k. map_of ps k =
          (case own_value (call_heap 2) k of Some v \<Rightarrow> Some v | None \<Rightarrow> own_value (call_heap 0) k)"
    using merge_overrides_live_arguments [where h = call_heap and a = 2 and live = "JObj 0" and hidden = False
        and ps = ps, OF d, THEN conjunct1, THEN mp, OF ps]
    unfolding live option.case if_False by (elim conjE)
  from this [THEN spec, of "lit ''q''"] this [THEN spec, of "lit ''n''"] ps show ?thesis
    by (simp add: own_value_def call_heap_objects)
qed

section \<open>Marked content never passes\<close>

text \<open>A string leaf or a key of the tree holds the text.\<close>

fun mentions :: "jstr \<Rightarrow> json \<Rightarrow> bool" where
  "mentions m (Jn_str s) = js_includes m s"
| "mentions m (Jn_arr xs) = list_ex (mentions m) xs"
| "mentions m (Jn_obj kvs) = list_ex (\<lambda>kv. js_includes m (fst kv) \<or> mentions m (snd kv)) kvs"
| "mentions m _ = False"

lemma js_includes_iff: "js_includes m s \<longleftrightarrow> sublist m s"
proof (induction s)
  case (Cons c s)
  have "take (length m) (c # s) = m \<longleftrightarrow> prefix m (c # s)"
    by (metis append_eq_conv_conj prefix_def)
  with Cons show ?case by (simp only: js_includes.simps sublist_Cons_right)
qed simp

text \<open>Units a JSON string shows as they are.\<close>

definition shown_unit :: "nat \<Rightarrow> bool" where
  "shown_unit c \<longleftrightarrow> 32 \<le> c \<and> c \<noteq> 34 \<and> c \<noteq> 92 \<and> \<not> high_surrogate c \<and> \<not> low_surrogate c"

lemma quote_units_shown: "shown_unit c \<Longrightarrow> quote_units (c # s) = c # quote_units s"
  by (cases s) (auto simp: shown_unit_def escape_unit_def)

lemma quote_units_keeps: "\<forall>c \<in> set p. shown_unit c \<Longrightarrow> quote_units (p @ s) = p @ quote_units s"
  by (induction p) (simp_all add: quote_units_shown)

lemma quote_units_after:
  "shown_unit c \<Longrightarrow> \<exists>u. quote_units (a @ c # s) = u @ quote_units (c # s)"
proof (induction a rule: quote_units.induct)
  case (2 d)
  then show ?case by (auto simp: shown_unit_def)
next
  case (3 d e a)
  then show ?case by (cases "high_surrogate d \<and> low_surrogate e") (auto simp: append_eq_append_conv2)
qed simp

lemma quote_shows:
  assumes "\<forall>c \<in> set p. shown_unit c" and "sublist p s"
  shows "sublist p (quote s)"
proof (cases p)
  case (Cons c p')
  from assms(2) obtain a b where s: "s = a @ p @ b" by (auto simp: sublist_def)
  with Cons assms(1) quote_units_after [of c a "p' @ b"]
  obtain u where "quote_units s = u @ quote_units (p @ b)" by auto
  then have "quote s = ([34] @ u) @ p @ quote_units b @ [34]"
    using quote_units_keeps [OF assms(1)] by (simp add: quote_def)
  then show ?thesis
    unfolding sublist_def by blast
qed simp

lemma sublist_commas: "x \<in> set xs \<Longrightarrow> sublist x (commas xs)"
proof (induction xs rule: commas.induct)
  case (3 x' y xs)
  show ?case
  proof (cases "x = x'")
    case False
    with 3 have "sublist x (commas (y # xs))" by simp
    then have "sublist x (44 # commas (y # xs))" by (simp add: sublist_Cons_right)
    then show ?thesis by (simp add: sublist_append)
  qed simp
qed auto

lemma sublist_bracket: "sublist p s \<Longrightarrow> sublist p (c # s @ [d])"
  by (metis append_Cons append_Nil sublist_appendI sublist_order.order.trans)

lemma mention_is_printed:
  assumes "\<forall>c \<in> set m. shown_unit c" and "mentions m t"
  shows "sublist m (print_json T t)"
  using assms(2)
proof (induction t)
  case (Jn_str s)
  then show ?case using quote_shows [OF assms(1)] by (simp add: js_includes_iff)
next
  case (Jn_arr xs)
  then obtain x where x: "x \<in> set xs" "sublist m (print_json T x)"
    by (auto simp: list_ex_iff)
  then have "sublist m (commas (map (print_json T) xs))"
    using sublist_commas [of "print_json T x"] sublist_order.order.trans by fastforce
  then show ?case by (simp add: sublist_bracket)
next
  case (Jn_obj kvs)
  let ?f = "\<lambda>kv. quote (fst kv) @ [58] @ print_json T (snd kv)"
  from Jn_obj.prems obtain kv where kv: "kv \<in> set kvs" "js_includes m (fst kv) \<or> mentions m (snd kv)"
    by (auto simp: list_ex_iff)
  from kv(2) have "sublist m (?f kv)"
  proof
    assume "js_includes m (fst kv)"
    then show ?thesis
      using quote_shows [OF assms(1)] by (simp add: js_includes_iff sublist_append)
  next
    assume "mentions m (snd kv)"
    then have "sublist m (print_json T (snd kv))"
      using Jn_obj.IH kv(1) by (metis prod.collapse snds.intros)
    then show ?thesis by (simp add: sublist_append sublist_Cons_right)
  qed
  moreover have "sublist (?f kv) (commas (map ?f kvs))"
    using kv(1) by (intro sublist_commas) simp
  ultimately have "sublist m (commas (map ?f kvs))"
    by (rule sublist_order.order.trans)
  then show ?case by (simp add: sublist_bracket)
qed simp_all

text \<open>
  The recorded previews, as values rather than as text. A string or key is cut short when it holds the
  shrink's key or suffix anywhere, or ends as the Python SDK ends a cut string; a string stands for a
  value when the SDK writes exactly it in the place of one; a field is a preview's when it is one of
  LangGraph's two, the \<open>get_node\<close> note, or the SDK's count of the keys it left out.
\<close>

definition numbered :: "jstr \<Rightarrow> jstr \<Rightarrow> jstr \<Rightarrow> bool" where
  "numbered a b s \<longleftrightarrow> (\<exists>d. d \<noteq> [] \<and> (\<forall>c\<in>set d. is_digit c) \<and> s = a @ d @ b)"

definition cut_short :: "jstr \<Rightarrow> bool" where
  "cut_short s \<longleftrightarrow>
     sublist (lit ''__graphmindTruncated'') s \<or> sublist (ELLIPSIS # lit ''[graphmind: truncated]'') s
     \<or> suffix (ELLIPSIS # lit ''[truncated]'') s"

definition stands_for_value :: "jstr \<Rightarrow> bool" where
  "stands_for_value s \<longleftrightarrow>
     numbered (lit ''<'') (lit '' bytes>'') s \<or> s = ELLIPSIS # lit ''[depth limit]''
     \<or> numbered (ELLIPSIS # lit ''['') (lit '' more]'') s"

definition preview_field :: "jstr \<Rightarrow> json \<Rightarrow> bool" where
  "preview_field k v \<longleftrightarrow>
     k = lit ''__graphmind'' \<and> v \<in> {Jn_str (lit ''truncated''), Jn_str (lit ''unserializable'')}
     \<or> k = lit ''note'' \<and> (\<exists>s. v = Jn_str s \<and> prefix (lit ''payload truncated: showing first '') s)
     \<or> k = [ELLIPSIS] \<and> (\<exists>s. v = Jn_str s \<and> numbered (lit ''['') (lit '' more keys]'') s)"

fun holds_preview :: "json \<Rightarrow> bool" where
  "holds_preview (Jn_str s) = (cut_short s \<or> stands_for_value s)"
| "holds_preview (Jn_arr xs) = list_ex holds_preview xs"
| "holds_preview (Jn_obj kvs) =
     list_ex (\<lambda>kv. cut_short (fst kv) \<or> preview_field (fst kv) (snd kv) \<or> holds_preview (snd kv)) kvs"
| "holds_preview _ = False"

lemma match_marker_here:
  assumes "mk_digits p \<longrightarrow> d \<noteq> [] \<and> (\<forall>c\<in>set d. is_digit c) \<and> mk_close p \<noteq> [] \<and> \<not> is_digit (hd (mk_close p))"
    and "\<not> mk_digits p \<longrightarrow> d = []"
  shows "match_marker p (mk_open p @ d @ mk_close p @ r) = Some r"
proof (cases "mk_digits p")
  case True
  then obtain c cs where c: "mk_close p = c # cs" "\<not> is_digit c" using assms(1) by (cases "mk_close p") auto
  have "takeWhile is_digit (d @ c # cs @ r) = d" "dropWhile is_digit (d @ c # cs @ r) = c # cs @ r"
    using True assms(1) c(2) by (simp_all add: takeWhile_append2 dropWhile_append2)
  then show ?thesis using True assms(1) c by (simp add: match_marker_def Let_def)
qed (use assms(2) in \<open>simp add: match_marker_def\<close>)

lemma scan_marker_finds:
  assumes "match_marker p (s @ r) = Some r" and "if a = [] then here else last a \<in> lead"
    and "if r = [] then anchor else hd r \<in> trail"
  shows "scan_marker lead trail anchor p here (a @ s @ r)"
  using assms(2)
proof (induction a arbitrary: here)
  case Nil
  then show ?case using assms(1,3) by (subst scan_marker.simps) simp
next
  case (Cons c a)
  have "if a = [] then c \<in> lead else last a \<in> lead" using Cons.prems by (simp split: if_splits)
  then show ?case using Cons.IH [of "c \<in> lead"] by (subst scan_marker.simps) simp
qed

text \<open>Where a value of the text stands.\<close>

definition opened :: "jstr \<Rightarrow> bool" where "opened a \<longleftrightarrow> a = [] \<or> last a \<in> {91, 58, 44}"
definition closed :: "jstr \<Rightarrow> bool" where "closed b \<longleftrightarrow> b = [] \<or> hd b \<in> {44, 93, 125}"

lemma value_marker_finds:
  assumes "match_marker p (s @ b) = Some b" "opened a" "closed b"
  shows "value_marker p (a @ s @ b)"
  unfolding value_marker_def
  by (rule scan_marker_finds [OF assms(1)]) (use assms(2,3) in \<open>auto simp: opened_def closed_def\<close>)

lemma item_between_commas:
  "x \<in> set xs \<Longrightarrow> \<exists>pre post. commas xs = pre @ x @ post \<and> (pre = [] \<or> last pre = 44) \<and> (post = [] \<or> hd post = 44)"
proof (induction xs rule: commas.induct)
  case (3 x' y xs)
  show ?case
  proof (cases "x = x'")
    case True
    then show ?thesis by (intro exI [of _ "[]"] exI [of _ "44 # commas (y # xs)"]) simp
  next
    case False
    with 3 obtain pre post where "commas (y # xs) = pre @ x @ post" "pre = [] \<or> last pre = 44" "post = [] \<or> hd post = 44"
      by auto
    then show ?thesis by (intro exI [of _ "x' @ 44 # pre"] exI [of _ post]) auto
  qed
next
  case (2 x')
  then show ?case by (intro exI [of _ "[]"]) simp
qed simp

lemma quote_shown: "\<forall>c \<in> set p. shown_unit c \<Longrightarrow> quote (p @ s) = 34 # p @ quote_units s @ [34]"
  by (simp add: quote_def quote_units_keeps)

lemma quote_shown_all: "\<forall>c \<in> set p. shown_unit c \<Longrightarrow> quote p = 34 # p @ [34]"
  using quote_shown [of p "[]"] by simp

lemma digits_shown: "\<forall>c\<in>set d. is_digit c \<Longrightarrow> \<forall>c\<in>set d. shown_unit c"
  by (auto simp: is_digit_def shown_unit_def high_surrogate_def low_surrogate_def)

lemma marker_shows: "m \<in> set TRUNCATION_MARKERS \<Longrightarrow> x = u @ m @ w \<Longrightarrow> has_truncation x"
  unfolding has_truncation_def js_includes_iff list_ex_iff sublist_def by blast

lemma cut_short_shows: "cut_short s \<Longrightarrow> has_truncation (a @ quote s @ b)"
proof -
  let ?ends = "ELLIPSIS # lit ''[truncated]''"
  assume "cut_short s"
  moreover have "has_truncation (a @ quote s @ b)" if "sublist m s" "m \<in> {lit ''__graphmindTruncated'', ELLIPSIS # lit ''[graphmind: truncated]''}" for m
  proof -
    have "\<forall>c\<in>set m. shown_unit c" using that(2)
      by (auto simp: ELLIPSIS_def shown_unit_def high_surrogate_def low_surrogate_def)
    then have "sublist m (quote s)" using that(1) by (rule quote_shows)
    then have "sublist m (a @ quote s @ b)" by (simp add: sublist_append)
    moreover have "m \<in> set TRUNCATION_MARKERS" using that(2) by (auto simp: TRUNCATION_MARKERS_def)
    ultimately show ?thesis unfolding sublist_def using marker_shows by blast
  qed
  moreover have "has_truncation (a @ quote s @ b)" if ends: "suffix ?ends s"
  proof -
    obtain u where s: "s = u @ ?ends" using ends by (auto simp: suffix_def)
    have shown: "\<forall>c\<in>set ?ends. shown_unit c"
      by (simp add: ELLIPSIS_def shown_unit_def high_surrogate_def low_surrogate_def)
    have "shown_unit ELLIPSIS" using shown by simp
    from quote_units_after [OF this] obtain w where "quote_units (u @ ?ends) = w @ quote_units ?ends" by blast
    then have "quote s = [34] @ w @ (?ends @ [34])"
      using quote_units_keeps [OF shown, of "[]"] s by (simp add: quote_def del: lit_simps)
    then have "a @ quote s @ b = (a @ [34] @ w) @ (ELLIPSIS # lit ''[truncated]\"'') @ b" by simp
    then have "sublist (ELLIPSIS # lit ''[truncated]\"'') (a @ quote s @ b)"
      unfolding sublist_def by blast
    then show ?thesis unfolding has_truncation_def python_preview_def js_includes_iff by blast
  qed
  ultimately show ?thesis unfolding cut_short_def by blast
qed

lemma stands_for_value_shows:
  assumes "stands_for_value s" "opened a" "closed b"
  shows "has_truncation (a @ quote s @ b)"
proof -
  have num: "match_marker \<lparr>mk_open = 34 # x, mk_digits = True, mk_close = y @ [34]\<rparr> (quote s @ b) = Some b"
    if n: "numbered x y s" and shown: "\<forall>c\<in>set x. shown_unit c" "\<forall>c\<in>set y. shown_unit c" and y: "\<not> is_digit (hd (y @ [34]))" for x y
  proof -
    obtain d where d: "d \<noteq> []" "\<forall>c\<in>set d. is_digit c" "s = x @ d @ y" using n by (auto simp: numbered_def)
    have "quote s = 34 # s @ [34]"
      by (rule quote_shown_all) (use shown digits_shown [OF d(2)] d(3) in auto)
    then show ?thesis
      using match_marker_here [of "\<lparr>mk_open = 34 # x, mk_digits = True, mk_close = y @ [34]\<rparr>" d b] d y by simp
  qed
  have at: "value_marker p (a @ quote s @ b)" if "match_marker p (quote s @ b) = Some b" for p
    using that assms(2,3) by (rule value_marker_finds)
  from assms(1) consider "numbered (lit ''<'') (lit '' bytes>'') s" | "s = ELLIPSIS # lit ''[depth limit]''"
    | "numbered (ELLIPSIS # lit ''['') (lit '' more]'') s" unfolding stands_for_value_def by blast
  then show ?thesis
  proof cases
    case 1
    then have "value_marker \<lparr>mk_open = 34 # lit ''<'', mk_digits = True, mk_close = lit '' bytes>'' @ [34]\<rparr> (a @ quote s @ b)"
      by (intro at num) (simp_all add: shown_unit_def high_surrogate_def low_surrogate_def is_digit_def)
    then show ?thesis unfolding has_truncation_def python_preview_def by simp
  next
    case 2
    have "quote s = 34 # s @ [34]"
      by (rule quote_shown_all) (simp add: 2 ELLIPSIS_def shown_unit_def high_surrogate_def low_surrogate_def)
    then have "value_marker \<lparr>mk_open = 34 # ELLIPSIS # lit ''[depth limit]\"'', mk_digits = False, mk_close = []\<rparr> (a @ quote s @ b)"
      using match_marker_here [of "\<lparr>mk_open = 34 # ELLIPSIS # lit ''[depth limit]\"'', mk_digits = False, mk_close = []\<rparr>" "[]" b] 2
      by (intro at) simp
    then show ?thesis unfolding has_truncation_def python_preview_def by blast
  next
    case 3
    then have "value_marker \<lparr>mk_open = 34 # ELLIPSIS # lit ''['', mk_digits = True, mk_close = lit '' more]'' @ [34]\<rparr> (a @ quote s @ b)"
      by (intro at num) (simp_all add: ELLIPSIS_def shown_unit_def high_surrogate_def low_surrogate_def is_digit_def)
    then show ?thesis unfolding has_truncation_def python_preview_def by simp
  qed
qed

lemma preview_field_shows:
  assumes "preview_field k v" "last a \<in> {123, 44}" "a \<noteq> []" "b \<noteq> []" "hd b \<in> {44, 125}"
  shows "has_truncation (a @ (quote k @ [58] @ print_json T v) @ b)"
proof -
  note shown = ELLIPSIS_def shown_unit_def high_surrogate_def low_surrogate_def
  from assms(1) consider
      w where "k = lit ''__graphmind''" "v = Jn_str w" "w \<in> {lit ''truncated'', lit ''unserializable''}"
    | w where "k = lit ''note''" "v = Jn_str (lit ''payload truncated: showing first '' @ w)"
    | d where "k = [ELLIPSIS]" "v = Jn_str (lit ''['' @ d @ lit '' more keys]'')" "d \<noteq> []" "\<forall>c\<in>set d. is_digit c"
    unfolding preview_field_def numbered_def prefix_def by blast
  then show ?thesis
  proof cases
    case 1
    have "quote k = 34 # k @ [34]" by (rule quote_shown_all) (simp add: 1 shown)
    moreover have "quote w = 34 # w @ [34]" by (rule quote_shown_all) (use 1(3) in \<open>auto simp: shown\<close>)
    ultimately have "a @ (quote k @ [58] @ print_json T v) @ b = a @ (34 # k @ [34, 58, 34] @ w @ [34]) @ b" using 1 by simp
    moreover have "34 # k @ [34, 58, 34] @ w @ [34] \<in> set TRUNCATION_MARKERS"
      using 1 by (auto simp: TRUNCATION_MARKERS_def)
    ultimately show ?thesis by (rule marker_shows [rotated])
  next
    case 2
    have "quote k = 34 # k @ [34]" by (rule quote_shown_all) (simp add: 2 shown)
    moreover have "quote (lit ''payload truncated: showing first '' @ w)
        = 34 # lit ''payload truncated: showing first '' @ quote_units w @ [34]"
      by (rule quote_shown) (simp add: shown)
    ultimately have "a @ (quote k @ [58] @ print_json T v) @ b
        = a @ (34 # k @ [34, 58, 34] @ lit ''payload truncated: showing first '') @ (quote_units w @ [34] @ b)"
      using 2 by simp
    moreover have "34 # k @ [34, 58, 34] @ lit ''payload truncated: showing first '' \<in> set TRUNCATION_MARKERS"
      using 2 by (simp add: TRUNCATION_MARKERS_def)
    ultimately show ?thesis by (rule marker_shows [rotated])
  next
    case 3
    let ?p = "\<lparr>mk_open = 34 # ELLIPSIS # lit ''\":\"['', mk_digits = True, mk_close = lit '' more keys]\"''\<rparr>"
    have "quote k = 34 # k @ [34]" by (rule quote_shown_all) (simp add: 3 shown)
    moreover have "quote (lit ''['' @ d @ lit '' more keys]'') = 34 # (lit ''['' @ d @ lit '' more keys]'') @ [34]"
      by (rule quote_shown_all) (use digits_shown [OF 3(4)] in \<open>simp add: shown\<close>)
    ultimately have "(quote k @ [58] @ print_json T v) @ b = mk_open ?p @ d @ mk_close ?p @ b" using 3 by simp
    moreover have "match_marker ?p (mk_open ?p @ d @ mk_close ?p @ b) = Some b"
      by (rule match_marker_here) (use 3 in \<open>simp_all add: is_digit_def\<close>)
    ultimately have "match_marker ?p ((quote k @ [58] @ print_json T v) @ b) = Some b" by simp
    then have "key_marker ?p (a @ (quote k @ [58] @ print_json T v) @ b)"
      unfolding key_marker_def by (rule scan_marker_finds) (use assms in \<open>auto\<close>)
    then show ?thesis unfolding has_truncation_def python_preview_def by blast
  qed
qed

lemma preview_is_printed:
  "\<lbrakk>holds_preview t; opened a; closed b\<rbrakk> \<Longrightarrow> has_truncation (a @ print_json T t @ b)"
proof (induction t arbitrary: a b)
  case (Jn_str s)
  then show ?case using cut_short_shows stands_for_value_shows by auto
next
  case (Jn_arr xs)
  then obtain x where x: "x \<in> set xs" "holds_preview x" by (auto simp: list_ex_iff)
  then obtain pre post where at: "commas (map (print_json T) xs) = pre @ print_json T x @ post"
    "pre = [] \<or> last pre = 44" "post = [] \<or> hd post = 44"
    using item_between_commas [of "print_json T x" "map (print_json T) xs"] by auto
  have "has_truncation ((a @ [91] @ pre) @ print_json T x @ post @ [93] @ b)"
    by (rule Jn_arr.IH [OF x]) (use at(2,3) in \<open>cases post; auto simp: opened_def closed_def\<close>)+
  then show ?case using at(1) by simp
next
  case (Jn_obj kvs)
  let ?f = "\<lambda>kv. quote (fst kv) @ [58] @ print_json T (snd kv)"
  from Jn_obj.prems obtain kv where kv: "kv \<in> set kvs"
    "cut_short (fst kv) \<or> preview_field (fst kv) (snd kv) \<or> holds_preview (snd kv)" by (auto simp: list_ex_iff)
  then obtain pre post where at: "commas (map ?f kvs) = pre @ ?f kv @ post"
    "pre = [] \<or> last pre = 44" "post = [] \<or> hd post = 44"
    using item_between_commas [of "?f kv" "map ?f kvs"] by auto
  have whole: "a @ print_json T (Jn_obj kvs) @ b = (a @ [123] @ pre) @ ?f kv @ (post @ [125] @ b)"
    using at(1) by simp
  have pre: "last (a @ [123] @ pre) \<in> {123, 44}" and post: "post @ [125] @ b \<noteq> []" "hd (post @ [125] @ b) \<in> {44, 125}"
    using at(2,3) by (cases post; auto)+
  from kv(2) consider "cut_short (fst kv)" | "preview_field (fst kv) (snd kv)" | "holds_preview (snd kv)" by blast
  then have "has_truncation ((a @ [123] @ pre) @ ?f kv @ (post @ [125] @ b))"
  proof cases
    case 1
    then show ?thesis using cut_short_shows [OF 1, of "a @ [123] @ pre" "[58] @ print_json T (snd kv) @ post @ [125] @ b"] by simp
  next
    case 2
    then show ?thesis using pre post by (intro preview_field_shows) auto
  next
    case 3
    have "has_truncation ((a @ [123] @ pre @ quote (fst kv) @ [58]) @ print_json T (snd kv) @ post @ [125] @ b)"
      by (rule Jn_obj.IH [OF kv(1) _ 3]) (use post in \<open>auto simp: opened_def closed_def snds.simps\<close>)
    then show ?thesis by simp
  qed
  then show ?case by (simp only: whole)
qed simp_all

text \<open>
  A word without punctuation that does not begin as an escape ends is in the text only where a string or
  a key holds it.
\<close>

definition fixed_unit :: "nat \<Rightarrow> bool" where
  "fixed_unit c \<longleftrightarrow> is_digit c \<or> 97 \<le> c \<and> c \<le> 102 \<or> c \<in> {34, 43, 45, 46, 92, 108, 110, 114, 115, 116, 117}"

definition plain_word :: "jstr \<Rightarrow> bool" where
  "plain_word w \<longleftrightarrow>
     w \<noteq> [] \<and> \<not> fixed_unit (hd w) \<and> (\<forall>c\<in>set w. c \<notin> {34, 92, 44, 58, 91, 93, 123, 125})"

definition preview_words :: "jstr list" where
  "preview_words = [lit ''__graphmind'', [ELLIPSIS], lit ''payload truncated'', lit '' bytes>'']"

lemma plain_word_punctuation: "\<lbrakk>plain_word w; c \<in> {34, 92, 44, 58, 91, 93, 123, 125}\<rbrakk> \<Longrightarrow> c \<notin> set w"
  unfolding plain_word_def by blast

lemma plain_word_first: "plain_word w \<Longrightarrow> \<exists>c w'. w = c # w' \<and> \<not> fixed_unit c"
  unfolding plain_word_def by (cases w) simp_all

lemma plain_words: "list_all plain_word (REDACTED # preview_words)"
  by (simp add: preview_words_def plain_word_def fixed_unit_def REDACTED_def ELLIPSIS_def is_digit_def)

lemma sublist_split: "\<lbrakk>sublist w (x @ c # y); c \<notin> set w\<rbrakk> \<Longrightarrow> sublist w x \<or> sublist w y"
proof -
  assume w: "sublist w (x @ c # y)" "c \<notin> set w"
  then consider "sublist w x" | "sublist w (c # y)"
    | w1 w2 where "w = w1 @ w2" "suffix w1 x" "prefix w2 (c # y)" by (auto simp: sublist_append)
  then show ?thesis
  proof cases
    case 2
    then show ?thesis using w(2) by (cases w) (auto simp: sublist_Cons_right prefix_Cons)
  next
    case 3
    then have "w2 = []" using w(2) by (cases w2) auto
    then show ?thesis using 3 by (auto dest: suffix_imp_sublist)
  qed simp
qed

lemma sublist_inside:
  assumes "sublist w (c # s @ [d])" "c \<notin> set w" "d \<notin> set w" "w \<noteq> []"
  shows "sublist w s"
proof -
  have "sublist w ([] @ c # (s @ d # []))" using assms(1) by simp
  from sublist_split [OF this assms(2)] have "sublist w (s @ d # [])" using assms(4) by simp
  from sublist_split [OF this assms(3)] show ?thesis using assms(4) by simp
qed

lemma no_sublist: "\<lbrakk>sublist (c # w) s; c \<notin> set s\<rbrakk> \<Longrightarrow> False"
  by (auto simp: sublist_def)

lemma hex_digits: "fixed_unit (hex_digit (n mod 16))"
  by (auto simp: hex_digit_def is_digit_def fixed_unit_def)

text \<open>An escape, or the unit itself.\<close>

lemma escape_first: "escape_unit u = [u] \<or> (\<exists>e. escape_unit u = 92 # e)"
  unfolding escape_unit_def hex4_def by (simp split: if_split)

lemma escape_hides:
  assumes "plain_word (c # w)"
  shows "escape_unit u = [u] \<or> c \<notin> set (escape_unit u)" "c \<notin> set (hex4 u)"
proof -
  have c: "\<not> fixed_unit c" using assms by (simp add: plain_word_def)
  have "list_all fixed_unit (hex4 u)" using hex_digits by (simp add: hex4_def) (simp add: fixed_unit_def)
  then show hex: "c \<notin> set (hex4 u)" using c by (auto simp: list_all_iff)
  have "escape_unit u = [u] \<or> escape_unit u = hex4 u \<or> list_all fixed_unit (escape_unit u)"
    by (simp add: escape_unit_def fixed_unit_def)
  then show "escape_unit u = [u] \<or> c \<notin> set (escape_unit u)" using c hex by (auto simp: list_all_iff)
qed

lemma sublist_behind: "\<lbrakk>sublist (c # w) (E @ Q); c \<notin> set E\<rbrakk> \<Longrightarrow> sublist (c # w) Q"
  by (induction E) (auto simp: sublist_Cons_right)

lemma quote_units_prefix:
  "\<lbrakk>prefix w (quote_units s); 92 \<notin> set w\<rbrakk> \<Longrightarrow> prefix w s"
proof (induction s arbitrary: w rule: quote_units.induct)
  case (2 c)
  then show ?case using escape_first [of c] by (cases w) (auto simp: hex4_def split: if_splits)
next
  case (3 c d s)
  show ?case
  proof (cases w)
    case (Cons x w')
    consider "high_surrogate c \<and> low_surrogate d" | "\<not> (high_surrogate c \<and> low_surrogate d)" "high_surrogate c \<or> low_surrogate c"
      | "\<not> (high_surrogate c \<or> low_surrogate c)" by blast
    then show ?thesis
    proof cases
      case 1
      then show ?thesis using 3 Cons by (cases w') auto
    next
      case 2
      then show ?thesis using 3(3,4) Cons by (auto simp: hex4_def)
    next
      case n: 3
      then have "\<not> (high_surrogate c \<and> low_surrogate d)" by blast
      then show ?thesis using 3(2) [of w'] 3(3,4) Cons escape_first [of c] n by auto
    qed
  qed simp
qed simp

lemma quote_units_sublist:
  assumes "plain_word w"
  shows "sublist w (quote_units s) \<Longrightarrow> sublist w s"
proof (induction s rule: quote_units.induct)
  case (2 c)
  obtain x w' where w: "w = x # w'" using plain_word_first [OF assms] by blast
  have "x \<notin> set (quote_units [c]) \<or> quote_units [c] = [c]"
    using escape_hides [OF assms [unfolded w], of c] by auto
  then show ?case using 2 no_sublist unfolding w by metis
next
  case (3 c d s)
  obtain x w' where w: "w = x # w'" using plain_word_first [OF assms] by blast
  have no: "92 \<notin> set w" using plain_word_punctuation [OF assms] by simp
  show ?case
  proof (cases "high_surrogate c \<and> low_surrogate d")
    case True
    have d: "prefix u (d # s)" if "prefix u (d # quote_units s)" "92 \<notin> set u" for u
      using that quote_units_prefix [of "tl u" s] by (cases u) auto
    have "prefix w (c # d # s)" if "prefix w (c # d # quote_units s)" using that d [of w'] no unfolding w by simp
    moreover have "prefix w (d # quote_units s) \<Longrightarrow> prefix w (d # s)" using d no by blast
    ultimately
    show ?thesis using 3(1) [OF True] 3(3) True by (auto simp: sublist_Cons_right)
  next
    case False
    show ?thesis
    proof (cases "\<not> (high_surrogate c \<or> low_surrogate c) \<and> escape_unit c = [c]")
      case True
      then have "prefix w (c # quote_units (d # s)) \<or> sublist w (quote_units (d # s))"
        using 3(3) False by (auto simp: sublist_Cons_right)
      then show ?thesis
      proof
        assume "prefix w (c # quote_units (d # s))"
        then show ?thesis using quote_units_prefix [of w' "d # s"] no unfolding w by (auto simp: sublist_Cons_right)
      next
        assume "sublist w (quote_units (d # s))"
        then have "sublist w (d # s)" by (rule 3(2) [OF False])
        then show ?thesis unfolding sublist_Cons_right [of w c] ..
      qed
    next
      case esc: False
      let ?E = "if high_surrogate c \<or> low_surrogate c then hex4 c else escape_unit c"
      have "x \<notin> set ?E" using esc escape_hides [OF assms [unfolded w], of c] by auto
      moreover have "quote_units (c # d # s) = ?E @ quote_units (d # s)" using False by auto
      then have "sublist (x # w') (?E @ quote_units (d # s))" using 3(3) unfolding w by (simp only:)
      ultimately have "sublist w (quote_units (d # s))" unfolding w by (rule sublist_behind [rotated])
      then have "sublist w (d # s)" by (rule 3(2) [OF False])
      then show ?thesis unfolding sublist_Cons_right [of w c] ..
    qed
  qed
qed simp

lemma word_in_quote:
  assumes "sublist w (quote s)" "plain_word w"
  shows "js_includes w s"
proof -
  have w: "34 \<notin> set w" using plain_word_punctuation [OF assms(2), of 34] by simp
  have ne: "w \<noteq> []" using assms(2) by (simp add: plain_word_def)
  have "sublist w (34 # quote_units s @ [34])" using assms(1) by (simp add: quote_def)
  then have "sublist w (quote_units s)" by (rule sublist_inside) (use w ne in simp_all)
  then show ?thesis using quote_units_sublist [OF assms(2)] by (simp add: js_includes_iff)
qed

lemma word_in_commas:
  "\<lbrakk>sublist w (commas xs); 44 \<notin> set w; w \<noteq> []\<rbrakk> \<Longrightarrow> \<exists>x\<in>set xs. sublist w x"
proof (induction xs rule: commas.induct)
  case (3 x y xs)
  then show ?case using sublist_split [of w x 44 "commas (y # xs)"] by auto
qed auto

lemma word_is_mentioned:
  assumes "number_texts T" "plain_word w"
  shows "sublist w (print_json T t) \<Longrightarrow> mentions w t"
proof -
  have no_word: "\<not> sublist w s"
    if "list_all fixed_unit s" for s
    using plain_word_first [OF assms(2)] that no_sublist by (metis list_all_iff)
  have w: "\<forall>c\<in>{44, 58, 91, 93, 123, 125}. c \<notin> set w" "w \<noteq> []"
    using plain_word_punctuation [OF assms(2)] plain_word_first [OF assms(2)] by blast+
  show "sublist w (print_json T t) \<Longrightarrow> mentions w t"
  proof (induction t)
  case Jn_null
  have "\<not> sublist w (print_json T Jn_null)" by (rule no_word) (simp add: fixed_unit_def)
  then show ?case using Jn_null by simp
next
  case (Jn_bool b)
  have "\<not> sublist w (print_json T (Jn_bool b))" by (rule no_word) (simp add: bool_text_def fixed_unit_def)
  then show ?case using Jn_bool by simp
next
  case (Jn_num q)
  have "\<not> sublist w (print_json T (Jn_num q))" by (rule no_word) (use assms(1) in \<open>fastforce simp: number_texts_def is_digit_def fixed_unit_def list_all_iff\<close>)
  then show ?case using Jn_num by simp
next
  case (Jn_str s)
  then show ?case using word_in_quote assms(2) by simp
next
  case (Jn_arr xs)
  have "sublist w (91 # commas (map (print_json T) xs) @ [93])" using Jn_arr.prems by simp
  then have "sublist w (commas (map (print_json T) xs))" by (rule sublist_inside) (use w in simp_all)
  then have "\<exists>x\<in>set (map (print_json T) xs). sublist w x" using w by (intro word_in_commas) simp_all
  then show ?case using Jn_arr.IH by (auto simp: list_ex_iff)
next
  case (Jn_obj kvs)
  let ?f = "\<lambda>kv. quote (fst kv) @ [58] @ print_json T (snd kv)"
  have "sublist w (123 # commas (map ?f kvs) @ [125])" using Jn_obj.prems by simp
  then have "sublist w (commas (map ?f kvs))" by (rule sublist_inside) (use w in simp_all)
  then have "\<exists>x\<in>set (map ?f kvs). sublist w x" using w by (intro word_in_commas) simp_all
  then obtain kv where kv: "kv \<in> set kvs" "sublist w (?f kv)" by auto
  then have "sublist w (quote (fst kv)) \<or> sublist w (print_json T (snd kv))"
    using sublist_split [of w "quote (fst kv)" 58 "print_json T (snd kv)"] w by simp
  then have "js_includes w (fst kv) \<or> mentions w (snd kv)"
    using word_in_quote [OF _ assms(2)] Jn_obj.IH [OF kv(1)] by (auto simp: snds.simps)
  then show ?case using kv(1) by (auto simp: list_ex_iff)
qed
qed

lemma shown_redacted: "\<forall>c \<in> set REDACTED. shown_unit c"
  by (simp add: REDACTED_def shown_unit_def high_surrogate_def low_surrogate_def)

text \<open>Every pattern holds one of the words.\<close>

lemma match_marker_text: "match_marker p s = Some r \<Longrightarrow> \<exists>d. s = mk_open p @ d @ mk_close p @ r"
proof -
  assume m: "match_marker p s = Some r"
  define s1 where "s1 = drop (length (mk_open p)) s"
  define s2 where "s2 = (if mk_digits p then dropWhile is_digit s1 else s1)"
  have "take (length (mk_open p)) s = mk_open p" "take (length (mk_close p)) s2 = mk_close p" "r = drop (length (mk_close p)) s2"
    using m by (auto simp: match_marker_def s1_def s2_def Let_def split: if_splits)
  then have "s = mk_open p @ s1" "s2 = mk_close p @ r" by (metis append_take_drop_id s1_def, metis append_take_drop_id)
  moreover have "\<exists>d. s1 = d @ s2" unfolding s2_def using takeWhile_dropWhile_id by (metis append_Nil)
  ultimately show ?thesis by auto
qed

lemma scan_marker_text:
  "scan_marker lead trail anchor p here s \<Longrightarrow> \<exists>a d r. s = a @ mk_open p @ d @ mk_close p @ r"
proof (induction lead trail anchor p here s rule: scan_marker.induct)
  case (1 lead trail anchor p here s)
  show ?case
  proof (cases "match_marker p s")
    case (Some r)
    then show ?thesis using match_marker_text by (metis append_Nil)
  next
    case None
    then obtain c cs where s: "s = c # cs" "scan_marker lead trail anchor p (c \<in> lead) cs"
      using 1(2) by (subst (asm) scan_marker.simps) (auto split: list.splits)
    then obtain a d r where "cs = a @ mk_open p @ d @ mk_close p @ r" using 1(1) by blast
    then show ?thesis using s(1) by (metis append_Cons)
  qed
qed

lemma sublist_in_middle: "sublist w m \<Longrightarrow> sublist w (a @ m @ r)"
  by (simp add: sublist_append)

lemma scan_marker_holds:
  assumes "scan_marker lead trail anchor p here s" and "sublist w (mk_open p) \<or> sublist w (mk_close p)"
  shows "sublist w s"
proof -
  obtain a d r where "s = a @ mk_open p @ d @ mk_close p @ r" using scan_marker_text [OF assms(1)] by blast
  then have "s = a @ mk_open p @ (d @ mk_close p @ r)" "s = (a @ mk_open p @ d) @ mk_close p @ r" by simp_all
  then show ?thesis using assms(2) sublist_in_middle by metis
qed

lemma truncation_has_word:
  assumes "has_truncation s"
  shows "\<exists>w\<in>set preview_words. sublist w s"
proof -
  have word: "?thesis" if "sublist m s" "\<exists>w\<in>set preview_words. js_includes w m" for m
    using that sublist_order.order.trans unfolding js_includes_iff by blast
  have "list_all (\<lambda>m. \<exists>w\<in>set preview_words. js_includes w m) TRUNCATION_MARKERS"
    by (simp add: TRUNCATION_MARKERS_def preview_words_def ELLIPSIS_def)
  then have fixed: ?thesis if "list_ex (\<lambda>m. js_includes m s) TRUNCATION_MARKERS"
    using that word unfolding list_all_iff list_ex_iff js_includes_iff by blast
  have held: ?thesis if "scan_marker lead trail anchor p here s" "\<exists>w\<in>set preview_words. js_includes w (mk_open p) \<or> js_includes w (mk_close p)" for lead trail anchor p here
    using that scan_marker_holds [OF that(1)] unfolding js_includes_iff by blast
  from assms consider "list_ex (\<lambda>m. js_includes m s) TRUNCATION_MARKERS" | "js_includes (ELLIPSIS # lit ''[truncated]\"'') s"
    | "value_marker \<lparr>mk_open = lit ''\"<'', mk_digits = True, mk_close = lit '' bytes>\"''\<rparr> s"
    | "value_marker \<lparr>mk_open = 34 # ELLIPSIS # lit ''[depth limit]\"'', mk_digits = False, mk_close = []\<rparr> s"
    | "key_marker \<lparr>mk_open = 34 # ELLIPSIS # lit ''\":\"['', mk_digits = True, mk_close = lit '' more keys]\"''\<rparr> s"
    | "value_marker \<lparr>mk_open = 34 # ELLIPSIS # lit ''['', mk_digits = True, mk_close = lit '' more]\"''\<rparr> s"
    unfolding has_truncation_def python_preview_def by blast
  then show ?thesis
  proof cases
    case 1
    then show ?thesis by (rule fixed)
  next
    case 2
    show ?thesis by (rule word [OF 2 [unfolded js_includes_iff]]) (simp add: preview_words_def ELLIPSIS_def)
  next
    case 3
    then show ?thesis unfolding value_marker_def by (rule held) (simp add: preview_words_def ELLIPSIS_def)
  next
    case 4
    then show ?thesis unfolding value_marker_def by (rule held) (simp add: preview_words_def ELLIPSIS_def)
  next
    case 5
    then show ?thesis unfolding key_marker_def by (rule held) (simp add: preview_words_def ELLIPSIS_def)
  next
    case 6
    then show ?thesis unfolding value_marker_def by (rule held) (simp add: preview_words_def ELLIPSIS_def)
  qed
qed

text \<open>
  A string that merely quotes LangGraph's marker passes; a key that ends in a quote and \<open>__graphmind\<close>
  does not, though it is no marker: the escaped quote stands for the raw one.
\<close>

lemma quoted_marker_passes: "\<not> has_truncation (print_json T (Jn_obj [(lit ''q'', Jn_str (lit ''\"__graphmind\":\"truncated\"''))]))"
  by (simp add: has_truncation_def TRUNCATION_MARKERS_def python_preview_def value_marker_def key_marker_def
      scan_marker.simps match_marker_def quote_def escape_unit_def high_surrogate_def low_surrogate_def ELLIPSIS_def is_digit_def)

lemma quoted_key_is_refused:
  "has_truncation (print_json T (Jn_obj [(lit ''a\"__graphmind'', Jn_str (lit ''truncated''))]))"
  "\<not> holds_preview (Jn_obj [(lit ''a\"__graphmind'', Jn_str (lit ''truncated''))])"
proof -
  show "has_truncation (print_json T (Jn_obj [(lit ''a\"__graphmind'', Jn_str (lit ''truncated''))]))"
    by (simp add: has_truncation_def TRUNCATION_MARKERS_def quote_def escape_unit_def high_surrogate_def low_surrogate_def)
  show "\<not> holds_preview (Jn_obj [(lit ''a\"__graphmind'', Jn_str (lit ''truncated''))])"
    by (simp add: cut_short_def stands_for_value_def preview_field_def numbered_def js_includes_iff [symmetric]
        ELLIPSIS_def suffix_def)
qed

text \<open>
  C7: Content its sender never saw in full never runs. Let the proposed value have JSON. It is refused
  as a placeholder if and only if some string or key in it, at any depth, holds the redaction
  placeholder. Otherwise it is refused as truncated when it holds, at any depth, one of the ten recorded
  previews: the shrink's key or suffix inside any string or key, one of LangGraph's two marker fields,
  the \<open>note\<close> field of the MCP server, or one of the Python SDK's five bounds - a string or key that ends
  as a cut one, the count of bytes, the depth limit or the count of items in the place of a value, the
  count of keys left out as a field. A value none of whose strings and keys holds the placeholder,
  \<open>__graphmind\<close>, an ellipsis, \<open>payload truncated\<close> or \<open> bytes>\<close> is not refused. The hub decides as the
  client does, with the same code.
\<close>

theorem marked_content_is_refused:
  assumes "number_texts T" and "stringify h n v = Jr_tree t"
  shows "(map_option er_code (proposedValueRefusal T h n v) = Some Rc_placeholder \<longleftrightarrow> mentions REDACTED t)
    \<and> (holds_preview t \<and> \<not> mentions REDACTED t
         \<longrightarrow> map_option er_code (proposedValueRefusal T h n v) = Some Rc_truncated)
    \<and> (list_all (\<lambda>w. \<not> mentions w t) (REDACTED # preview_words) \<longrightarrow> proposedValueRefusal T h n v = None)
    \<and> map_option er_code (contentRefusal T h n v what) = map_option er_code (proposedValueRefusal T h n v)"
proof -
  have words: "sublist w (print_json T t) \<Longrightarrow> mentions w t" if "w \<in> set (REDACTED # preview_words)" for w
    using word_is_mentioned [OF assms(1)] plain_words that unfolding list_all_iff by blast
  have "js_includes REDACTED (print_json T t) \<longleftrightarrow> mentions REDACTED t"
    using words [of REDACTED] mention_is_printed [OF shown_redacted] by (auto simp: js_includes_iff)
  moreover have "holds_preview t \<Longrightarrow> has_truncation (print_json T t)"
    using preview_is_printed [of t "[]" "[]" T] by (simp add: opened_def closed_def)
  moreover have "\<exists>w\<in>set preview_words. mentions w t" if "has_truncation (print_json T t)"
    using truncation_has_word [OF that] words by auto
  moreover have "map_option er_code (contentRefusal T h n v what) = map_option er_code (proposedValueRefusal T h n v)"
    by (cases "proposedValueRefusal T h n v") (simp_all add: contentRefusal_def Let_def refuse_def split: refusal_code.split)
  ultimately show ?thesis
    using assms(2) by (auto simp: proposedValueRefusal_def refuse_def list_all_iff Let_def)
qed

text \<open>A list that was cut, inside a key; the hub and the client refuse it.\<close>

definition cut_list :: heap where
  "cut_list a = js_record [(lit ''items'', Slot (JStr (ELLIPSIS # lit ''[3 more]'')))]"

theorem marked_content_is_refused_witness:
  "map_option er_code (proposedValueRefusal (\<lambda>q. [48]) cut_list 5 (JObj 0)) = Some Rc_truncated
   \<and> map_option er_code (contentRefusal (\<lambda>q. [48]) cut_list 5 (JObj 0) What_input) = Some Rc_truncated"
proof -
  let ?s = "ELLIPSIS # lit ''[3 more]''"
  have json: "stringify cut_list 5 (JObj 0) = Jr_tree (Jn_obj [(lit ''items'', Jn_str ?s)])"
    by (simp add: stringify_def call_toJSON_def cut_list_def js_record_def as_result_def eval_nat_numeral)
  have texts: "number_texts (\<lambda>q. [48])" by (simp add: number_texts_def)
  have "numbered (ELLIPSIS # lit ''['') (lit '' more]'') ?s"
    unfolding numbered_def by (rule exI [of _ "[51]"]) (simp add: is_digit_def)
  then have "holds_preview (Jn_obj [(lit ''items'', Jn_str ?s)])" by (simp add: stands_for_value_def)
  moreover have "\<not> mentions REDACTED (Jn_obj [(lit ''items'', Jn_str ?s)])"
    by (simp add: REDACTED_def ELLIPSIS_def)
  ultimately show ?thesis
    using marked_content_is_refused [OF texts json, of What_input] by simp
qed

section \<open>Short texts\<close>

lemma collapse_run_clean: "\<not> C 32 \<Longrightarrow> c \<in> set (collapse_run C b s) \<Longrightarrow> \<not> C c"
  by (induction s arbitrary: b) (auto split: if_splits)

lemma collapse_run_subset: "set (collapse_run C b s) \<subseteq> insert 32 (set s)"
proof (induction s arbitrary: b)
  case (Cons c s)
  from Cons.IH [of True] Cons.IH [of False] show ?case by auto
qed simp

lemma set_units_trim: "set (units_trim s) \<subseteq> set s"
proof -
  have "set (units_trim s) \<subseteq> set (dropWhile unit_space s)"
    using set_mono_suffix [OF suffix_dropWhile, of unit_space "rev (dropWhile unit_space s)"]
    by (simp add: units_trim_def)
  also have "\<dots> \<subseteq> set s"
    by (rule set_mono_suffix [OF suffix_dropWhile])
  finally show ?thesis .
qed

lemma sanitized_units:
  "\<forall>c \<in> set (units_trim (collapse unit_space (collapse unprintable m))). \<not> unprintable c"
proof -
  have "\<forall>c \<in> set (collapse unprintable m). \<not> unprintable c"
    using collapse_run_clean [of unprintable] by (simp add: collapse_def unprintable_def)
  moreover have "\<not> unprintable 32" by (simp add: unprintable_def)
  ultimately show ?thesis
    using set_units_trim [of "collapse unit_space (collapse unprintable m)"]
      collapse_run_subset [of unit_space False "collapse unprintable m"]
    by (auto simp: collapse_def)
qed

text \<open>A message the wire may carry.\<close>

definition wire_text :: "jstr \<Rightarrow> bool" where
  "wire_text t \<longleftrightarrow> 0 < length t \<and> length t \<le> MAX_REFUSAL_MESSAGE \<and> (\<forall>c \<in> set t. \<not> unprintable c)"

lemma cut_text_ok:
  assumes "\<forall>c \<in> set s. \<not> unprintable c" and "n < MAX_REFUSAL_MESSAGE"
  shows "wire_text (take n s @ [ELLIPSIS])"
  using assms by (auto simp: wire_text_def unprintable_def ELLIPSIS_def dest: in_set_takeD)

lemma sanitized_is_wire_text:
  assumes "sanitizeShortText m = Some t"
  shows "wire_text t"
proof -
  from assms obtain s where s: "m = JStr s" by (cases m) (simp_all add: sanitizeShortText_def)
  let ?u = "units_trim (collapse unit_space (collapse unprintable s))"
  show ?thesis
  proof (cases "MAX_REFUSAL_MESSAGE < length ?u")
    case True
    with assms s have "t \<in> {take 198 ?u @ [ELLIPSIS], take 199 ?u @ [ELLIPSIS]}"
      by (auto simp: sanitizeShortText_def Let_def MAX_REFUSAL_MESSAGE_def split: if_splits)
    then show ?thesis
      using cut_text_ok [OF sanitized_units] by (auto simp: MAX_REFUSAL_MESSAGE_def)
  next
    case False
    with assms s have "t = ?u" "?u \<noteq> []"
      by (simp_all add: sanitizeShortText_def Let_def split: if_splits)
    with False show ?thesis
      using sanitized_units by (simp add: wire_text_def)
  qed
qed

lemma malformed_is_wire_text: "MALFORMED = Val_refused r \<Longrightarrow> \<exists>t. er_message r = Some t \<and> wire_text t"
  by (auto simp: MALFORMED_def refuse_def wire_text_def MAX_REFUSAL_MESSAGE_def unprintable_def)

lemma read_verdict_refusal:
  assumes "read_verdict ob = Some (Val_refused r)"
  shows "MALFORMED = Val_refused r \<or> er_message r \<in> range sanitizeShortText"
  using assms unfolding read_verdict_def bind_eq_Some_conv
  by (elim exE conjE) (auto simp: bind_eq_Some_conv split: if_splits option.splits)

text \<open>
  Whatever a host's validator answers - garbage, a throwing getter, a message that quotes a value
  at length - the refusal that reaches the wire carries either no message or one of 1 to 200 code
  units without control or bidi characters.
\<close>

theorem refusal_message_is_printable:
  assumes "normalizeValidation h result = Val_refused r"
  shows "er_message r = None
    \<or> (\<exists>t. er_message r = Some t \<and> 0 < length t \<and> length t \<le> MAX_REFUSAL_MESSAGE
          \<and> (\<forall>c \<in> set t. \<not> unprintable c))"
proof -
  have "MALFORMED = Val_refused r \<or> er_message r \<in> range sanitizeShortText"
    using assms read_verdict_refusal
    by (auto simp: normalizeValidation_def split: js.splits option.splits)
  then have "\<forall>t. er_message r = Some t \<longrightarrow> wire_text t"
    using malformed_is_wire_text [of r] sanitized_is_wire_text by force
  then show ?thesis
    unfolding wire_text_def by (cases "er_message r") simp_all
qed

definition verdict_heap :: heap where
  "verdict_heap a = js_record [(lit ''ok'', Slot (JBool False)), (lit ''code'', Slot (JStr (lit ''schema'')))]"

theorem refusal_message_is_printable_witness:
  "\<exists>r. normalizeValidation verdict_heap (JObj 0) = Val_refused r \<and> er_code r = Rc_schema
    \<and> (er_message r = None \<or> (\<exists>t. er_message r = Some t \<and> length t \<le> MAX_REFUSAL_MESSAGE))"
proof -
  have r: "normalizeValidation verdict_heap (JObj 0) = Val_refused \<lparr>er_code = Rc_schema, er_message = None\<rparr>"
    by (simp add: normalizeValidation_def read_verdict_def verdict_heap_def get_prop_def known_code_def
        REFUSAL_CODES_def sanitizeShortText_def js_record_def)
  show ?thesis
    using refusal_message_is_printable [OF r] r by auto
qed

end
