(* ===== verification/Tool_Schema.thy ===== *)
theory Tool_Schema
  imports Edit_Input
begin

text \<open>
  The conservative JSON Schema check of \<open>packages/client/src/tool-edit.ts\<close>
  (\<open>checkJsonSchemaLite\<close>): what decides whether edited tool arguments may run when the tool only
  has a JSON Schema. Schemas and values are JavaScript values in the heap; a read that throws
  ends the check (None), and the caller lets the value pass. The recursion is on the depth left,
  the work budget and the cache of indexed enums are threaded through as the code does.

  \<open>Schema_Exact\<close> proves the check against a declarative reading of the JSON Schema keywords.
\<close>

section \<open>Types and names\<close>

definition LITE_MAX_DEPTH :: nat where "LITE_MAX_DEPTH = 32"

definition LITE_MAX_STEPS :: nat where "LITE_MAX_STEPS = 20000"

definition LITE_MAX_ITEMS :: nat where "LITE_MAX_ITEMS = 1000"

definition MAX_KEY_IN_MESSAGE :: nat where "MAX_KEY_IN_MESSAGE = 48"

datatype segment = Seg_key jstr | Seg_index jsnum

text \<open>\<open>steps\<close>, and the arrays that the \<open>WeakMap\<close> of enum sets knows.\<close>

record lite_state =
  ls_steps :: nat
  ls_indexed :: "addr list"

definition KNOWN_TYPES :: "jstr list" where
  "KNOWN_TYPES = map lit [''null'', ''boolean'', ''object'', ''array'', ''number'', ''integer'', ''string'']"

definition is_array_value :: "heap \<Rightarrow> js \<Rightarrow> bool option" where
  "is_array_value h v = (case v of JObj a \<Rightarrow> is_array (h a) | _ \<Rightarrow> Some False)"

definition typeMatches :: "heap \<Rightarrow> jstr \<Rightarrow> js \<Rightarrow> bool option" where
  "typeMatches h ty v =
     (if ty = lit ''null'' then Some (v = JNull)
      else if ty = lit ''boolean'' then Some (case v of JBool b \<Rightarrow> True | _ \<Rightarrow> False)
      else if ty = lit ''object'' then map_option (\<lambda>r. r \<noteq> None) (isRecord h v)
      else if ty = lit ''array'' then is_array_value h v
      else if ty = lit ''number'' then Some (case v of JNum (Fin q) \<Rightarrow> True | _ \<Rightarrow> False)
      else if ty = lit ''integer'' then Some (case v of JNum x \<Rightarrow> is_js_integer x | _ \<Rightarrow> False)
      else if ty = lit ''string'' then Some (case v of JStr s \<Rightarrow> True | _ \<Rightarrow> False)
      else Some True)"

definition typeName :: "heap \<Rightarrow> js \<Rightarrow> jstr option" where
  "typeName h v =
     (case v of
        JUndef \<Rightarrow> Some (lit ''nothing'')
      | JNull \<Rightarrow> Some (lit ''null'')
      | JBool b \<Rightarrow> Some (lit ''boolean'')
      | JNum x \<Rightarrow> Some (lit (if is_js_integer x then ''integer'' else ''number''))
      | JBig i \<Rightarrow> Some (lit ''bigint'')
      | JStr s \<Rightarrow> Some (lit ''string'')
      | JSym n \<Rightarrow> Some (lit ''symbol'')
      | JFun \<Rightarrow> Some (lit ''function'')
      | JObj a \<Rightarrow> map_option (\<lambda>arr. lit (if arr then ''array'' else ''object'')) (is_array (h a)))"

fun isPrimitive :: "js \<Rightarrow> bool" where
  "isPrimitive JNull = True"
| "isPrimitive (JStr s) = True"
| "isPrimitive (JNum x) = True"
| "isPrimitive (JBool b) = True"
| "isPrimitive _ = False"

definition shortKey :: "jstr \<Rightarrow> jstr" where
  "shortKey key =
     (if MAX_KEY_IN_MESSAGE < length key then take (MAX_KEY_IN_MESSAGE - 1) key @ [ELLIPSIS] else key)"

text \<open>\<open>T\<close>: the text of a finite number.\<close>

definition num_text :: "(rat \<Rightarrow> jstr) \<Rightarrow> jsnum \<Rightarrow> jstr" where
  "num_text T n =
     (case n of
        Fin q \<Rightarrow> T q
      | Pos_inf \<Rightarrow> lit ''Infinity''
      | Neg_inf \<Rightarrow> lit ''-Infinity''
      | NaN \<Rightarrow> lit ''NaN'')"

fun path_text :: "(rat \<Rightarrow> jstr) \<Rightarrow> jstr \<Rightarrow> segment list \<Rightarrow> jstr" where
  "path_text T text [] = text"
| "path_text T text (Seg_index i # path) = path_text T (text @ [91] @ num_text T i @ [93]) path"
| "path_text T text (Seg_key k # path) =
     path_text T (text @ (if text = [] then shortKey k else 46 # shortKey k)) path"

definition where_is :: "(rat \<Rightarrow> jstr) \<Rightarrow> segment list \<Rightarrow> jstr" where
  "where_is T path =
     (if path = [] then lit ''the arguments object'' else lit ''field '' @ quote (path_text T [] path))"

definition finiteNumber :: "js \<Rightarrow> rat option" where
  "finiteNumber v = (case v of JNum (Fin q) \<Rightarrow> Some q | _ \<Rightarrow> None)"

definition GENERIC_SCHEMA_MESSAGE :: jstr where
  "GENERIC_SCHEMA_MESSAGE = lit ''the edited arguments do not match the tool's input schema''"

definition problem :: "(rat \<Rightarrow> jstr) \<Rightarrow> segment list \<Rightarrow> jstr \<Rightarrow> jstr" where
  "problem T path text =
     (case sanitizeShortText (JStr (where_is T path @ 32 # text)) of
        Some m \<Rightarrow> m
      | None \<Rightarrow> GENERIC_SCHEMA_MESSAGE)"

section \<open>Verdicts of the parts\<close>

text \<open>A part passes, or finds a problem, or ends the whole check without one.\<close>

datatype lite_verdict = Pass | Enough | Problem jstr

type_synonym lite_result = "(lite_verdict \<times> lite_state) option"

definition next_part :: "lite_result \<Rightarrow> (lite_state \<Rightarrow> lite_result) \<Rightarrow> lite_result" where
  "next_part r f =
     (case r of
        None \<Rightarrow> None
      | Some (Pass, st) \<Rightarrow> f st
      | Some (v, st) \<Rightarrow> Some (v, st))"

text \<open>A check that throws or leaves the state as it is.\<close>

definition plainly :: "jstr option option \<Rightarrow> lite_state \<Rightarrow> lite_result" where
  "plainly r st =
     map_option (\<lambda>p. (case p of None \<Rightarrow> Pass | Some m \<Rightarrow> Problem m, st)) r"

definition over_budget :: "lite_state \<Rightarrow> bool" where
  "over_budget st \<longleftrightarrow> LITE_MAX_STEPS < ls_steps st"

text \<open>
  \<open>array.every(p)\<close> for a test that also gives what it found: reading stops at the first element
  that fails. Outer None: reading one throws; inner None: one fails.
\<close>

fun every :: "(js \<Rightarrow> 'a option) \<Rightarrow> js_slot list \<Rightarrow> 'a list option option" where
  "every p [] = Some (Some [])"
| "every p (s # ss) =
     do { v \<leftarrow> read_slot s;
          case p v of
            None \<Rightarrow> Some None
          | Some x \<Rightarrow> map_option (map_option ((#) x)) (every p ss) }"

text \<open>\<open>Array.isArray(v)\<close> with its object.\<close>

definition array_of :: "heap \<Rightarrow> js \<Rightarrow> (addr \<times> js_object) option option" where
  "array_of h v =
     (case v of
        JObj a \<Rightarrow> map_option (\<lambda>arr. if arr then Some (a, h a) else None) (is_array (h a))
      | _ \<Rightarrow> Some None)"

section \<open>The keywords\<close>

fun string_of :: "js \<Rightarrow> jstr option" where
  "string_of (JStr s) = Some s"
| "string_of _ = None"

definition opt_test :: "('a \<Rightarrow> bool) \<Rightarrow> 'a option \<Rightarrow> bool" where
  "opt_test P x = (case x of None \<Rightarrow> False | Some q \<Rightarrow> P q)"

text \<open>\<open>types\<close>: the names a \<open>type\<close> keyword lists, when it is one the check can use.\<close>

definition type_names :: "heap \<Rightarrow> js \<Rightarrow> jstr list option option" where
  "type_names h type =
     (case type of
        JStr s \<Rightarrow> Some (if s \<in> set KNOWN_TYPES then Some [s] else None)
      | _ \<Rightarrow>
          do { arr \<leftarrow> array_of h type;
               case arr of
                 None \<Rightarrow> Some None
               | Some (a, ob) \<Rightarrow>
                   do { texts \<leftarrow> every string_of (jo_items ob);
                        Some (case texts of
                          None \<Rightarrow> None
                        | Some ts \<Rightarrow>
                            if ts \<noteq> [] \<and> list_all (\<lambda>t. t \<in> set KNOWN_TYPES) ts then Some ts else None) } })"

fun any_type :: "heap \<Rightarrow> jstr list \<Rightarrow> js \<Rightarrow> bool option" where
  "any_type h [] v = Some False"
| "any_type h (t # ts) v = do { b \<leftarrow> typeMatches h t v; if b then Some True else any_type h ts v }"

fun join_or :: "jstr list \<Rightarrow> jstr" where
  "join_or [] = []"
| "join_or [t] = t"
| "join_or (t # ts) = t @ lit '' or '' @ join_or ts"

definition checkType :: "(rat \<Rightarrow> jstr) \<Rightarrow> heap \<Rightarrow> js \<Rightarrow> js \<Rightarrow> segment list \<Rightarrow> jstr option option" where
  "checkType T h type v path =
     do { names \<leftarrow> type_names h type;
          case names of
            None \<Rightarrow> Some None
          | Some types \<Rightarrow>
              do { ok \<leftarrow> any_type h types v;
                   if ok then Some None
                   else if v = JUndef then Some (Some (problem T path (lit ''is required'')))
                   else do { got \<leftarrow> typeName h v;
                             Some (Some (problem T path
                               (lit ''must be '' @ join_or types @ lit '', got '' @ got))) } } }"

text \<open>The enum as a set, when it holds primitives only; charged to the budget once per array.\<close>

definition enumSet :: "addr \<Rightarrow> js_object \<Rightarrow> lite_state \<Rightarrow> (js list option \<times> lite_state) option" where
  "enumSet a ob st =
     do { allowed \<leftarrow> every (\<lambda>v. if isPrimitive v then Some v else None) (jo_items ob);
          Some (allowed,
                if a \<in> set (ls_indexed st) then st
                else st\<lparr>ls_steps := ls_steps st + length (jo_items ob),
                        ls_indexed := a # ls_indexed st\<rparr>) }"

definition checkEnum ::
  "(rat \<Rightarrow> jstr) \<Rightarrow> heap \<Rightarrow> js_object \<Rightarrow> js \<Rightarrow> segment list \<Rightarrow> lite_state \<Rightarrow> lite_result" where
  "checkEnum T h schema v path st =
     do { e \<leftarrow> get_prop schema (lit ''enum'');
          arr \<leftarrow> array_of h e;
          case arr of
            None \<Rightarrow> Some (Pass, st)
          | Some (a, ob) \<Rightarrow>
              if jo_items ob = [] then Some (Pass, st)
              else do { (allowed, st') \<leftarrow> enumSet a ob st;
                        if over_budget st' then Some (Enough, st')
                        else case allowed of
                          None \<Rightarrow> Some (Pass, st')
                        | Some vs \<Rightarrow>
                            if \<not> isPrimitive v \<or> v \<notin> set vs
                            then Some (Problem (problem T path (lit ''is not one of the allowed values'')), st')
                            else Some (Pass, st') } }"

text \<open>\<open>===\<close> on primitives.\<close>

definition strict_equal :: "js \<Rightarrow> js \<Rightarrow> bool" where
  "strict_equal a b \<longleftrightarrow> a = b \<and> a \<noteq> JNum NaN"

definition checkConst :: "(rat \<Rightarrow> jstr) \<Rightarrow> js_object \<Rightarrow> js \<Rightarrow> segment list \<Rightarrow> jstr option option" where
  "checkConst T schema v path =
     do { own \<leftarrow> has_own schema (lit ''const'');
          if \<not> own then Some None
          else do { c \<leftarrow> get_prop schema (lit ''const'');
                    Some (if isPrimitive c \<and> \<not> strict_equal v c
                          then Some (problem T path (lit ''is not the allowed value'')) else None) } }"

text \<open>Code points, as a \<open>for..of\<close> loop over a string counts them.\<close>

fun code_points :: "jstr \<Rightarrow> nat" where
  "code_points [] = 0"
| "code_points [c] = 1"
| "code_points (c # d # s) =
     (if high_surrogate c \<and> low_surrogate d then 1 + code_points s else 1 + code_points (d # s))"

definition checkStringBounds ::
  "(rat \<Rightarrow> jstr) \<Rightarrow> js_object \<Rightarrow> jstr \<Rightarrow> segment list \<Rightarrow> jstr option option" where
  "checkStringBounds T schema s path =
     do { lo \<leftarrow> map_option finiteNumber (get_prop schema (lit ''minLength''));
          hi \<leftarrow> map_option finiteNumber (get_prop schema (lit ''maxLength''));
          let n = (of_nat (code_points s) :: rat);
          Some (if opt_test (\<lambda>q. n < q) lo
                then Some (problem T path (lit ''is too short (at least '' @ T (the lo) @ lit '' characters)''))
                else if opt_test (\<lambda>q. q < n) hi
                then Some (problem T path (lit ''is too long (at most '' @ T (the hi) @ lit '' characters)''))
                else None) }"

text \<open>\<open>x < q\<close> and \<open>q < x\<close> for a JavaScript number and a finite one.\<close>

definition num_less :: "jsnum \<Rightarrow> rat \<Rightarrow> bool" where
  "num_less x q = (case x of Fin v \<Rightarrow> v < q | Neg_inf \<Rightarrow> True | _ \<Rightarrow> False)"

definition num_greater :: "jsnum \<Rightarrow> rat \<Rightarrow> bool" where
  "num_greater x q = (case x of Fin v \<Rightarrow> q < v | Pos_inf \<Rightarrow> True | _ \<Rightarrow> False)"

definition checkNumberBounds ::
  "(rat \<Rightarrow> jstr) \<Rightarrow> js_object \<Rightarrow> jsnum \<Rightarrow> segment list \<Rightarrow> jstr option option" where
  "checkNumberBounds T schema x path =
     do { minimum \<leftarrow> map_option finiteNumber (get_prop schema (lit ''minimum''));
          maximum \<leftarrow> map_option finiteNumber (get_prop schema (lit ''maximum''));
          above \<leftarrow> map_option finiteNumber (get_prop schema (lit ''exclusiveMinimum''));
          below \<leftarrow> map_option finiteNumber (get_prop schema (lit ''exclusiveMaximum''));
          Some (if opt_test (num_less x) minimum
                then Some (problem T path (lit ''must be at least '' @ T (the minimum)))
                else if opt_test (num_greater x) maximum
                then Some (problem T path (lit ''must be at most '' @ T (the maximum)))
                else if opt_test (\<lambda>q. num_less x q \<or> x = Fin q) above
                then Some (problem T path (lit ''must be greater than '' @ T (the above)))
                else if opt_test (\<lambda>q. num_greater x q \<or> x = Fin q) below
                then Some (problem T path (lit ''must be less than '' @ T (the below)))
                else None) }"

section \<open>Arrays and objects\<close>

text \<open>The recursive call: schema, value, path, state.\<close>

type_synonym lite_check = "js \<Rightarrow> js \<Rightarrow> segment list \<Rightarrow> lite_state \<Rightarrow> lite_result"

text \<open>The loop over the first items; \<open>tuple\<close> is a tuple's schemas, \<open>rest\<close> the schema after them.\<close>

fun check_items ::
  "lite_check \<Rightarrow> js_slot list \<Rightarrow> js \<Rightarrow> segment list \<Rightarrow> nat \<Rightarrow> js_slot list \<Rightarrow> lite_state \<Rightarrow> lite_result" where
  "check_items f tuple rest path i [] st = Some (Pass, st)"
| "check_items f tuple rest path i (s # ss) st =
     do { item \<leftarrow> (if i < length tuple then read_slot (tuple ! i) else Some rest);
          if item = JUndef then check_items f tuple rest path (i + 1) ss st
          else do { v \<leftarrow> read_slot s;
                    next_part (f item v (path @ [Seg_index (Fin (of_nat i))]) st)
                      (\<lambda>st'. if over_budget st' then Some (Pass, st')
                             else check_items f tuple rest path (i + 1) ss st') } }"

definition checkArray ::
  "(rat \<Rightarrow> jstr) \<Rightarrow> heap \<Rightarrow> lite_check \<Rightarrow> js_object \<Rightarrow> js_slot list \<Rightarrow> segment list \<Rightarrow> lite_state
    \<Rightarrow> lite_result" where
  "checkArray T h f schema items path st =
     do { lo \<leftarrow> map_option finiteNumber (get_prop schema (lit ''minItems''));
          hi \<leftarrow> map_option finiteNumber (get_prop schema (lit ''maxItems''));
          let n = (of_nat (length items) :: rat);
          if opt_test (\<lambda>q. n < q) lo
          then Some (Problem (problem T path (lit ''has too few items (at least '' @ T (the lo) @ lit '')'')), st)
          else if opt_test (\<lambda>q. q < n) hi
          then Some (Problem (problem T path (lit ''has too many items (at most '' @ T (the hi) @ lit '')'')), st)
          else
            do { prefixItems \<leftarrow> get_prop schema (lit ''prefixItems'') \<bind> array_of h;
                 itemsValue \<leftarrow> get_prop schema (lit ''items'');
                 itemsArray \<leftarrow> array_of h itemsValue;
                 let tuple = (case prefixItems of
                     Some (a, ob) \<Rightarrow> jo_items ob
                   | None \<Rightarrow> (case itemsArray of Some (a, ob) \<Rightarrow> jo_items ob | None \<Rightarrow> []));
                 let rest = (if itemsArray = None then itemsValue else JUndef);
                 check_items f tuple rest path 0 (take LITE_MAX_ITEMS items) st } }"

text \<open>The required keys, in order; None throws.\<close>

fun missing_key :: "js_slot list \<Rightarrow> js_object \<Rightarrow> jstr option option" where
  "missing_key [] ob = Some None"
| "missing_key (s # ss) ob =
     do { k \<leftarrow> read_slot s;
          case string_of k of
            None \<Rightarrow> missing_key ss ob
          | Some key \<Rightarrow>
              do { own \<leftarrow> has_own ob key;
                   if \<not> own then Some (Some key)
                   else do { v \<leftarrow> get_prop ob key;
                             if v = JUndef then Some (Some key) else missing_key ss ob } } }"

text \<open>The loop over the keys of the value. \<open>properties\<close>: the object of declared ones, if any.\<close>

fun check_fields ::
  "(rat \<Rightarrow> jstr) \<Rightarrow> heap \<Rightarrow> lite_check \<Rightarrow> js_object option \<Rightarrow> js \<Rightarrow> bool \<Rightarrow> js_object \<Rightarrow> segment list
    \<Rightarrow> jstr list \<Rightarrow> lite_state \<Rightarrow> lite_result" where
  "check_fields T h f properties additional patterned ob path [] st = Some (Pass, st)"
| "check_fields T h f properties additional patterned ob path (key # keys) st =
     do { declared \<leftarrow> (case properties of None \<Rightarrow> Some False | Some p \<Rightarrow> has_own p key);
          next_part
            (if declared
             then do { schema \<leftarrow> get_prop (the properties) key;
                       v \<leftarrow> get_prop ob key;
                       f schema v (path @ [Seg_key key]) st }
             else if patterned then Some (Pass, st)
             else if additional = JBool False
             then Some (Problem (problem T (path @ [Seg_key key])
                    (lit ''is not a parameter of this tool (the schema allows no other keys)'')), st)
             else do { r \<leftarrow> isRecord h additional;
                       if r = None then Some (Pass, st)
                       else do { v \<leftarrow> get_prop ob key;
                                 f additional v (path @ [Seg_key key]) st } })
            (\<lambda>st'. if over_budget st' then Some (Pass, st')
                   else check_fields T h f properties additional patterned ob path keys st') }"

definition checkObject ::
  "(rat \<Rightarrow> jstr) \<Rightarrow> heap \<Rightarrow> lite_check \<Rightarrow> js_object \<Rightarrow> js_object \<Rightarrow> segment list \<Rightarrow> lite_state
    \<Rightarrow> lite_result" where
  "checkObject T h f schema ob path st =
     do { required \<leftarrow> get_prop schema (lit ''required'') \<bind> array_of h;
          missing \<leftarrow> (case required of
              None \<Rightarrow> Some None
            | Some (a, r) \<Rightarrow> missing_key (jo_items r) ob);
          case missing of
            Some key \<Rightarrow> Some (Problem (problem T (path @ [Seg_key key]) (lit ''is required'')), st)
          | None \<Rightarrow>
              do { properties \<leftarrow> get_prop schema (lit ''properties'') \<bind> isRecord h;
                   additional \<leftarrow> get_prop schema (lit ''additionalProperties'');
                   patterns \<leftarrow> get_prop schema (lit ''patternProperties'');
                   keys \<leftarrow> own_keys ob;
                   check_fields T h f properties additional (patterns \<noteq> JUndef) ob path keys st } }"

section \<open>Combinations, and the whole check\<close>

fun check_all :: "lite_check \<Rightarrow> js_slot list \<Rightarrow> js \<Rightarrow> segment list \<Rightarrow> lite_state \<Rightarrow> lite_result" where
  "check_all f [] v path st = Some (Pass, st)"
| "check_all f (s # ss) v path st =
     do { b \<leftarrow> read_slot s; next_part (f b v path st) (check_all f ss v path) }"

text \<open>\<open>branches.some\<close>: whether a branch finds no problem.\<close>

fun some_passes ::
  "lite_check \<Rightarrow> js_slot list \<Rightarrow> js \<Rightarrow> segment list \<Rightarrow> lite_state \<Rightarrow> (bool \<times> lite_state) option" where
  "some_passes f [] v path st = Some (False, st)"
| "some_passes f (s # ss) v path st =
     do { b \<leftarrow> read_slot s;
          (verdict, st') \<leftarrow> f b v path st;
          case verdict of
            Problem m \<Rightarrow> some_passes f ss v path st'
          | _ \<Rightarrow> Some (True, st') }"

definition check_any ::
  "(rat \<Rightarrow> jstr) \<Rightarrow> heap \<Rightarrow> lite_check \<Rightarrow> js_object \<Rightarrow> jstr \<Rightarrow> js \<Rightarrow> segment list \<Rightarrow> lite_state \<Rightarrow> lite_result" where
  "check_any T h f schema keyword v path st =
     do { arr \<leftarrow> get_prop schema keyword \<bind> array_of h;
          case arr of
            None \<Rightarrow> Some (Pass, st)
          | Some (a, ob) \<Rightarrow>
              if jo_items ob = [] then Some (Pass, st)
              else do { (passes, st') \<leftarrow> some_passes f (jo_items ob) v path st;
                        Some (if passes then Pass
                              else Problem (problem T path (lit ''does not match any of the allowed shapes'')),
                              st') } }"

definition check_allOf :: "heap \<Rightarrow> lite_check \<Rightarrow> js_object \<Rightarrow> js \<Rightarrow> segment list \<Rightarrow> lite_state \<Rightarrow> lite_result" where
  "check_allOf h f schema v path st =
     do { arr \<leftarrow> get_prop schema (lit ''allOf'') \<bind> array_of h;
          case arr of
            None \<Rightarrow> Some (Pass, st)
          | Some (a, ob) \<Rightarrow> check_all f (jo_items ob) v path st }"

definition check_bounds ::
  "(rat \<Rightarrow> jstr) \<Rightarrow> js_object \<Rightarrow> js \<Rightarrow> segment list \<Rightarrow> jstr option option" where
  "check_bounds T schema v path =
     (case v of
        JStr s \<Rightarrow> checkStringBounds T schema s path
      | JNum x \<Rightarrow> checkNumberBounds T schema x path
      | _ \<Rightarrow> Some None)"

definition check_structure ::
  "(rat \<Rightarrow> jstr) \<Rightarrow> heap \<Rightarrow> lite_check \<Rightarrow> js_object \<Rightarrow> js \<Rightarrow> segment list \<Rightarrow> lite_state \<Rightarrow> lite_result" where
  "check_structure T h f schema v path st =
     do { arr \<leftarrow> array_of h v;
          case arr of
            Some (a, ob) \<Rightarrow> checkArray T h f schema (jo_items ob) path st
          | None \<Rightarrow>
              do { r \<leftarrow> isRecord h v;
                   case r of Some ob \<Rightarrow> checkObject T h f schema ob path st | None \<Rightarrow> Some (Pass, st) } }"

text \<open>A schema that is an object, part by part.\<close>

definition lite_node ::
  "(rat \<Rightarrow> jstr) \<Rightarrow> heap \<Rightarrow> lite_check \<Rightarrow> js_object \<Rightarrow> js \<Rightarrow> segment list \<Rightarrow> lite_state \<Rightarrow> lite_result" where
  "lite_node T h f schema v path st =
     do { nullable \<leftarrow> (if v = JNull then get_prop schema (lit ''nullable'') else Some JUndef);
          if v = JNull \<and> nullable = JBool True then Some (Enough, st)
          else
            next_part (plainly (get_prop schema (lit ''type'') \<bind> (\<lambda>type. checkType T h type v path)) st) (\<lambda>st.
            next_part (checkEnum T h schema v path st) (\<lambda>st.
            next_part (plainly (checkConst T schema v path) st) (\<lambda>st.
            next_part (plainly (check_bounds T schema v path) st) (\<lambda>st.
            next_part (check_structure T h f schema v path st) (\<lambda>st.
            next_part (check_allOf h f schema v path st) (\<lambda>st.
            next_part (check_any T h f schema (lit ''anyOf'') v path st) (\<lambda>st.
            check_any T h f schema (lit ''oneOf'') v path st))))))) }"

definition count_step :: "lite_state \<Rightarrow> lite_state" where
  "count_step st = st\<lparr>ls_steps := ls_steps st + 1\<rparr>"

text \<open>The first argument: \<open>LITE_MAX_DEPTH + 1 - depth\<close>.\<close>

primrec liteCheck :: "nat \<Rightarrow> (rat \<Rightarrow> jstr) \<Rightarrow> heap \<Rightarrow> lite_check" where
  "liteCheck 0 T h schema v path st = Some (Pass, count_step st)"
| "liteCheck (Suc n) T h schema v path st =
     (let st1 = count_step st
      in if over_budget st1 then Some (Pass, st1)
         else if schema = JBool False
         then Some (Problem (problem T path (lit ''is not allowed by the tool's schema'')), st1)
         else do { r \<leftarrow> isRecord h schema;
                   case r of
                     None \<Rightarrow> Some (Pass, st1)
                   | Some ob \<Rightarrow>
                       do { (verdict, st2) \<leftarrow> lite_node T h (liteCheck n T h) ob v path st1;
                            Some (case verdict of Problem m \<Rightarrow> Problem m | _ \<Rightarrow> Pass, st2) } })"

text \<open>\<open>catch\<close>: a check that throws says nothing. \<open>indexed\<close>: the enums the cache knows already.\<close>

definition checkJsonSchemaLite :: "(rat \<Rightarrow> jstr) \<Rightarrow> heap \<Rightarrow> addr list \<Rightarrow> js \<Rightarrow> js \<Rightarrow> jstr option" where
  "checkJsonSchemaLite T h indexed schema v =
     (case liteCheck (LITE_MAX_DEPTH + 1) T h schema v [] \<lparr>ls_steps = 0, ls_indexed = indexed\<rparr> of
        Some (Problem m, st) \<Rightarrow> Some m
      | _ \<Rightarrow> None)"

definition jsonSchemaLiteCheck :: "(rat \<Rightarrow> jstr) \<Rightarrow> heap \<Rightarrow> addr list \<Rightarrow> js \<Rightarrow> js \<Rightarrow> validation" where
  "jsonSchemaLiteCheck T h indexed schema v =
     (case checkJsonSchemaLite T h indexed schema v of
        None \<Rightarrow> Val_ok v
      | Some m \<Rightarrow> Val_refused \<lparr>er_code = Rc_schema, er_message = Some m\<rparr>)"

end
