(* ===== verification/Schema_Exact.thy ===== *)
theory Schema_Exact
  imports Tool_Schema
begin

text \<open>
  The check of \<open>Tool_Schema\<close> against a declarative reading of the JSON Schema keywords it
  implements, as an inductive relation on JSON trees: on plain data it never throws, refuses only
  what the schema forbids, and within its limits refuses all of it. One judgement per part of the
  check, put together along the recursion.
\<close>

section \<open>What a schema forbids\<close>

text \<open>
  The keywords the check implements, read declaratively on JSON trees: one rule per way in which
  a value breaks a schema. The rules are those of the JSON Schema specification (a keyword that is
  absent or not of its expected form forbids nothing); keywords without a rule here can only make
  a schema stricter.
\<close>

definition json_type :: "jstr \<Rightarrow> json \<Rightarrow> bool" where
  "json_type ty V \<longleftrightarrow>
     (case V of
        Jn_null \<Rightarrow> ty = lit ''null''
      | Jn_bool b \<Rightarrow> ty = lit ''boolean''
      | Jn_num q \<Rightarrow> ty = lit ''number'' \<or> ty = lit ''integer'' \<and> q \<in> \<int>
      | Jn_str s \<Rightarrow> ty = lit ''string''
      | Jn_arr xs \<Rightarrow> ty = lit ''array''
      | Jn_obj kvs \<Rightarrow> ty = lit ''object'')"

text \<open>The type names of a \<open>type\<close> keyword of the right form.\<close>

fun json_strings :: "json list \<Rightarrow> jstr list option" where
  "json_strings [] = Some []"
| "json_strings (Jn_str s # xs) = map_option ((#) s) (json_strings xs)"
| "json_strings (_ # xs) = None"

definition listed_types :: "json \<Rightarrow> jstr list" where
  "listed_types t =
     (case t of
        Jn_str s \<Rightarrow> [s]
      | Jn_arr xs \<Rightarrow> (case json_strings xs of Some ts \<Rightarrow> ts | None \<Rightarrow> [])
      | _ \<Rightarrow> [])"

text \<open>OpenAPI's \<open>nullable\<close>.\<close>

definition nulled :: "(jstr \<times> json) list \<Rightarrow> json \<Rightarrow> bool" where
  "nulled kvs V \<longleftrightarrow> V = Jn_null \<and> map_of kvs (lit ''nullable'') = Some (Jn_bool True)"

fun json_primitive :: "json \<Rightarrow> bool" where
  "json_primitive (Jn_arr xs) = False"
| "json_primitive (Jn_obj kvs) = False"
| "json_primitive _ = True"

text \<open>The schema of element \<open>i\<close>: a tuple's (\<open>prefixItems\<close>, or \<open>items\<close> as an array), or \<open>items\<close>.\<close>

definition item_schema :: "(jstr \<times> json) list \<Rightarrow> nat \<Rightarrow> json option" where
  "item_schema kvs i =
     (let items = map_of kvs (lit ''items'');
          listed = (case items of Some (Jn_arr ps) \<Rightarrow> Some ps | _ \<Rightarrow> None);
          tuple = (case map_of kvs (lit ''prefixItems'') of
                     Some (Jn_arr ps) \<Rightarrow> ps
                   | _ \<Rightarrow> (case listed of Some ps \<Rightarrow> ps | None \<Rightarrow> []))
      in if i < length tuple then Some (tuple ! i) else if listed = None then items else None)"

definition declared_keys :: "(jstr \<times> json) list \<Rightarrow> jstr set" where
  "declared_keys kvs =
     (case map_of kvs (lit ''properties'') of Some (Jn_obj ps) \<Rightarrow> fst ` set ps | _ \<Rightarrow> {})"

inductive forbids :: "json \<Rightarrow> json \<Rightarrow> bool" where
  forbids_false: "forbids (Jn_bool False) V"
| forbids_type: "\<lbrakk>map_of kvs (lit ''type'') = Some t; \<not> nulled kvs V; listed_types t \<noteq> [];
     set (listed_types t) \<subseteq> set KNOWN_TYPES; \<forall>ty\<in>set (listed_types t). \<not> json_type ty V\<rbrakk> \<Longrightarrow> forbids (Jn_obj kvs) V"
| forbids_enum: "\<lbrakk>map_of kvs (lit ''enum'') = Some (Jn_arr es); \<not> nulled kvs V; es \<noteq> [];
     list_all json_primitive es; V \<notin> set es\<rbrakk>
     \<Longrightarrow> forbids (Jn_obj kvs) V"
| forbids_const: "\<lbrakk>map_of kvs (lit ''const'') = Some c; \<not> nulled kvs V; json_primitive c; V \<noteq> c\<rbrakk>
     \<Longrightarrow> forbids (Jn_obj kvs) V"
| forbids_minLength: "\<lbrakk>map_of kvs (lit ''minLength'') = Some (Jn_num q); of_nat (code_points s) < q\<rbrakk>
     \<Longrightarrow> forbids (Jn_obj kvs) (Jn_str s)"
| forbids_maxLength: "\<lbrakk>map_of kvs (lit ''maxLength'') = Some (Jn_num q); q < of_nat (code_points s)\<rbrakk>
     \<Longrightarrow> forbids (Jn_obj kvs) (Jn_str s)"
| forbids_minimum: "\<lbrakk>map_of kvs (lit ''minimum'') = Some (Jn_num q); x < q\<rbrakk>
     \<Longrightarrow> forbids (Jn_obj kvs) (Jn_num x)"
| forbids_maximum: "\<lbrakk>map_of kvs (lit ''maximum'') = Some (Jn_num q); q < x\<rbrakk>
     \<Longrightarrow> forbids (Jn_obj kvs) (Jn_num x)"
| forbids_exclusiveMinimum: "\<lbrakk>map_of kvs (lit ''exclusiveMinimum'') = Some (Jn_num q); x \<le> q\<rbrakk>
     \<Longrightarrow> forbids (Jn_obj kvs) (Jn_num x)"
| forbids_exclusiveMaximum: "\<lbrakk>map_of kvs (lit ''exclusiveMaximum'') = Some (Jn_num q); q \<le> x\<rbrakk>
     \<Longrightarrow> forbids (Jn_obj kvs) (Jn_num x)"
| forbids_minItems: "\<lbrakk>map_of kvs (lit ''minItems'') = Some (Jn_num q); of_nat (length xs) < q\<rbrakk>
     \<Longrightarrow> forbids (Jn_obj kvs) (Jn_arr xs)"
| forbids_maxItems: "\<lbrakk>map_of kvs (lit ''maxItems'') = Some (Jn_num q); q < of_nat (length xs)\<rbrakk>
     \<Longrightarrow> forbids (Jn_obj kvs) (Jn_arr xs)"
| forbids_item: "\<lbrakk>item_schema kvs i = Some S; i < length xs; forbids S (xs ! i)\<rbrakk>
     \<Longrightarrow> forbids (Jn_obj kvs) (Jn_arr xs)"
| forbids_required: "\<lbrakk>map_of kvs (lit ''required'') = Some (Jn_arr rs); Jn_str k \<in> set rs; k \<notin> fst ` set fs\<rbrakk>
     \<Longrightarrow> forbids (Jn_obj kvs) (Jn_obj fs)"
| forbids_property: "\<lbrakk>map_of kvs (lit ''properties'') = Some (Jn_obj ps); map_of ps k = Some S;
     map_of fs k = Some v; forbids S v\<rbrakk> \<Longrightarrow> forbids (Jn_obj kvs) (Jn_obj fs)"
| forbids_additional: "\<lbrakk>map_of kvs (lit ''additionalProperties'') = Some S;
     map_of kvs (lit ''patternProperties'') = None; k \<notin> declared_keys kvs;
     map_of fs k = Some v; forbids S v\<rbrakk> \<Longrightarrow> forbids (Jn_obj kvs) (Jn_obj fs)"
| forbids_allOf: "\<lbrakk>map_of kvs (lit ''allOf'') = Some (Jn_arr bs); \<not> nulled kvs V; b \<in> set bs; forbids b V\<rbrakk>
     \<Longrightarrow> forbids (Jn_obj kvs) V"
| forbids_anyOf: "\<lbrakk>map_of kvs (lit ''anyOf'') = Some (Jn_arr bs); \<not> nulled kvs V; bs \<noteq> []; \<forall>b\<in>set bs. forbids b V\<rbrakk>
     \<Longrightarrow> forbids (Jn_obj kvs) V"
| forbids_oneOf: "\<lbrakk>map_of kvs (lit ''oneOf'') = Some (Jn_arr bs); \<not> nulled kvs V; bs \<noteq> []; \<forall>b\<in>set bs. forbids b V\<rbrakk>
     \<Longrightarrow> forbids (Jn_obj kvs) V"

section \<open>Plain data in the heap\<close>

text \<open>The keywords the check reads on a schema.\<close>

definition SCHEMA_KEYWORDS :: "jstr list" where
  "SCHEMA_KEYWORDS = map lit
     [''nullable'', ''type'', ''enum'', ''const'', ''minLength'', ''maxLength'', ''minimum'', ''maximum'',
      ''exclusiveMinimum'', ''exclusiveMaximum'', ''minItems'', ''maxItems'', ''prefixItems'', ''items'',
      ''required'', ''properties'', ''additionalProperties'', ''patternProperties'', ''allOf'', ''anyOf'', ''oneOf'']"

text \<open>
  What \<open>JSON.parse\<close> makes: no hidden own properties, and prototypes that know no keyword.
\<close>

definition plain_object :: "js_object \<Rightarrow> bool" where
  "plain_object ob \<longleftrightarrow>
     jo_hidden ob = [] \<and> (\<forall>k\<in>set SCHEMA_KEYWORDS. map_of (jo_inherited ob) k = None)"

definition plain_heap :: "heap \<Rightarrow> bool" where
  "plain_heap h \<longleftrightarrow> (\<forall>a. plain_object (h a))"

definition record_as :: "heap \<Rightarrow> js_object \<Rightarrow> (jstr \<times> json) list \<Rightarrow> bool" where
  "record_as h ob kts \<longleftrightarrow>
     \<not> jo_array ob \<and> \<not> jo_revoked ob \<and> jo_toJSON ob = No_toJSON \<and> distinct (map fst kts)
     \<and> list_all2 (\<lambda>kv kt. fst kv = fst kt \<and> (\<exists>v. snd kv = Slot v \<and> reads_as h v (snd kt))) (jo_own ob) kts"

definition slots_as :: "heap \<Rightarrow> js_slot list \<Rightarrow> json list \<Rightarrow> bool" where
  "slots_as h ss ts \<longleftrightarrow> list_all2 (\<lambda>s t. \<exists>v. s = Slot v \<and> reads_as h v t) ss ts"

inductive_cases reads_as_elims:
  "reads_as h JUndef t" "reads_as h (JBig i) t" "reads_as h (JSym n) t" "reads_as h JFun t"

inductive_simps reads_as_simps:
  "reads_as h JNull t" "reads_as h (JBool b) t" "reads_as h (JNum x) t" "reads_as h (JStr s) t"

inductive_simps reads_as_json_simps:
  "reads_as h v Jn_null" "reads_as h v (Jn_bool b)" "reads_as h v (Jn_num q)" "reads_as h v (Jn_str s)"

lemma reads_as_defined [simp]:
  "\<not> reads_as h JUndef t" "\<not> reads_as h (JBig i) t" "\<not> reads_as h (JSym n) t" "\<not> reads_as h JFun t"
  by (auto elim: reads_as_elims)

lemma reads_as_obj_iff:
  "reads_as h (JObj a) t \<longleftrightarrow>
     (if jo_array (h a) then (\<exists>ts. t = Jn_arr ts \<and> \<not> jo_revoked (h a) \<and> jo_toJSON (h a) = No_toJSON
                              \<and> slots_as h (jo_items (h a)) ts)
      else (\<exists>kts. t = Jn_obj kts \<and> record_as h (h a) kts))"
  unfolding slots_as_def record_as_def
  by (auto elim: reads_as.cases intro: reads_as.intros)

lemma list_all2_lookup:
  assumes "list_all2 (\<lambda>kv kt. fst kv = fst kt \<and> (\<exists>v. snd kv = Slot v \<and> R v (snd kt))) xs ys"
  shows "rel_option (\<lambda>s t. \<exists>v. s = Slot v \<and> R v t) (map_of xs k) (map_of ys k)"
  using assms by (induction rule: list_all2_induct) auto

lemma list_all2_fst:
  assumes "list_all2 (\<lambda>kv kt. fst kv = fst kt \<and> P kv kt) xs ys"
  shows "map fst xs = map fst ys"
  using assms by (induction rule: list_all2_induct) auto

lemma record_as_keys: "record_as h ob kts \<Longrightarrow> map fst (jo_own ob) = map fst kts"
  unfolding record_as_def by (auto dest: list_all2_fst)

lemma record_as_lookup:
  "record_as h ob kts \<Longrightarrow>
   rel_option (\<lambda>s t. \<exists>v. s = Slot v \<and> reads_as h v t) (map_of (jo_own ob) k) (map_of kts k)"
  unfolding record_as_def by (auto dest: list_all2_lookup)

lemma integer_iff: "snd (quotient_of q) = 1 \<longleftrightarrow> q \<in> \<int>"
proof
  assume "snd (quotient_of q) = 1"
  then obtain n where "quotient_of q = (n, 1)" by (metis prod.collapse)
  from quotient_of_div [OF this] show "q \<in> \<int>" by simp
qed (auto elim!: Ints_cases)

section \<open>Reading plain data\<close>

definition reads_opt :: "heap \<Rightarrow> js \<Rightarrow> json option \<Rightarrow> bool" where
  "reads_opt h v t = (case t of None \<Rightarrow> v = JUndef | Some t' \<Rightarrow> reads_as h v t')"

lemma keyword_read:
  assumes "record_as h ob kvs" "plain_object ob" "k \<in> set SCHEMA_KEYWORDS"
  obtains v where "get_prop ob k = Some v" "reads_opt h v (map_of kvs k)"
proof -
  have inh: "map_of (jo_inherited ob) k = None" and hid: "jo_hidden ob = []"
    using assms by (auto simp: plain_object_def)
  show thesis
    using record_as_lookup [OF assms(1), of k] assms(1) inh hid that
    by (cases "map_of kvs k"; cases "map_of (jo_own ob) k")
      (auto simp: get_prop_def record_as_def reads_opt_def map_add_def)
qed

lemma own_read:
  assumes "record_as h ob kvs" "map_of kvs k = Some t"
  obtains v where "get_prop ob k = Some v" "reads_as h v t"
  using record_as_lookup [OF assms(1), of k] assms that
  by (cases "map_of (jo_own ob) k") (auto simp: get_prop_def record_as_def map_add_def)

lemma has_own_read:
  assumes "record_as h ob kvs" "plain_object ob"
  shows "has_own ob k = Some (k \<in> fst ` set kvs)"
proof -
  have "fst ` set (jo_own ob) = fst ` set kvs"
    using record_as_keys [OF assms(1)] by (metis set_map)
  then show ?thesis using assms by (simp add: has_own_def record_as_def plain_object_def)
qed

definition array_as :: "heap \<Rightarrow> (addr \<times> js_object) option \<Rightarrow> json option \<Rightarrow> bool" where
  "array_as h r t \<longleftrightarrow>
     (case t of
        Some (Jn_arr ts) \<Rightarrow> (\<exists>a. r = Some (a, h a) \<and> slots_as h (jo_items (h a)) ts)
      | _ \<Rightarrow> r = None)"

lemma array_of_reads:
  assumes "reads_opt h v t"
  shows "\<exists>r. array_of h v = Some r \<and> array_as h r t"
  using assms
  by (cases v; cases t)
    (auto simp: reads_opt_def array_of_def array_as_def reads_as_obj_iff reads_as_simps is_array_def
        record_as_def split: if_splits)

definition object_as :: "heap \<Rightarrow> js_object option \<Rightarrow> json option \<Rightarrow> bool" where
  "object_as h r t \<longleftrightarrow>
     (case t of
        Some (Jn_obj kvs) \<Rightarrow> (\<exists>a. r = Some (h a) \<and> record_as h (h a) kvs)
      | _ \<Rightarrow> r = None)"

lemma isRecord_reads:
  assumes "reads_opt h v t"
  shows "\<exists>r. isRecord h v = Some r \<and> object_as h r t"
  using assms
  by (cases v; cases t)
    (auto simp: reads_opt_def isRecord_def object_as_def reads_as_obj_iff reads_as_simps is_array_def
        record_as_def split: if_splits)

lemma finiteNumber_reads:
  assumes "reads_opt h v t"
  shows "finiteNumber v = (case t of Some (Jn_num q) \<Rightarrow> Some q | _ \<Rightarrow> None)"
  using assms
  by (cases v; cases t)
    (auto simp: reads_opt_def finiteNumber_def reads_as_obj_iff reads_as_simps split: if_splits)

section \<open>The keywords read declaratively\<close>

lemma typeMatches_reads:
  assumes "reads_as h v V" "ty \<in> set KNOWN_TYPES"
  shows "typeMatches h ty v = Some (json_type ty V)"
  using assms(2) unfolding KNOWN_TYPES_def
  by (cases V; cases v; insert assms(1))
    (auto simp: typeMatches_def json_type_def isRecord_def is_array_value_def is_array_def
       reads_as_simps reads_as_obj_iff record_as_def lit_def is_js_integer_def integer_iff
       split: if_splits)

lemma any_type_reads:
  assumes "reads_as h v V" "set tys \<subseteq> set KNOWN_TYPES"
  shows "any_type h tys v = Some (\<exists>ty\<in>set tys. json_type ty V)"
  using assms(2) by (induction tys) (auto simp: typeMatches_reads [OF assms(1)])

lemma every_string_reads:
  "slots_as h ss ts \<Longrightarrow> every string_of ss = Some (json_strings ts)"
  unfolding slots_as_def
proof (induction ss ts rule: list_all2_induct)
  case (Cons s ss t ts)
  then obtain v where "s = Slot v" "reads_as h v t" by blast
  then show ?case using Cons
    by (cases v) (auto simp: reads_as_simps reads_as_obj_iff split: if_splits)
qed simp

definition type_fails :: "json option \<Rightarrow> json \<Rightarrow> bool" where
  "type_fails t V \<longleftrightarrow>
     (\<exists>t'. t = Some t' \<and> listed_types t' \<noteq> [] \<and> set (listed_types t') \<subseteq> set KNOWN_TYPES
       \<and> (\<forall>ty\<in>set (listed_types t'). \<not> json_type ty V))"

lemma type_names_reads:
  assumes "reads_opt h type t"
  shows "type_names h type =
     Some (case t of None \<Rightarrow> None
           | Some t' \<Rightarrow> if listed_types t' \<noteq> [] \<and> set (listed_types t') \<subseteq> set KNOWN_TYPES
                       then Some (listed_types t') else None)"
proof (cases t)
  case None
  then show ?thesis using assms by (simp add: reads_opt_def type_names_def array_of_def)
next
  case (Some t')
  then have r: "reads_as h type t'" using assms by (simp add: reads_opt_def)
  obtain x where x: "array_of h type = Some x" "array_as h x t"
    using array_of_reads [OF assms] by blast
  show ?thesis
  proof (cases "\<exists>s. type = JStr s")
    case True
    then show ?thesis using r Some
      by (auto simp: type_names_def listed_types_def reads_as_simps split: if_splits)
  next
    case False
    then have n: "t' \<noteq> Jn_str s" for s using r by (auto simp: reads_as_json_simps)
    have "type_names h type = array_of h type \<bind> case_option (Some None)
            (\<lambda>(a, ob). every string_of (jo_items ob) \<bind> (\<lambda>texts. Some (case texts of
               None \<Rightarrow> None
             | Some ts \<Rightarrow> if ts \<noteq> [] \<and> list_all (\<lambda>t. t \<in> set KNOWN_TYPES) ts then Some ts else None)))"
      using False by (cases type) (simp_all add: type_names_def)
    then show ?thesis using x n Some
      by (cases t') (auto simp: array_as_def listed_types_def every_string_reads list_all_iff
          split: option.splits if_splits)
  qed
qed

lemma typeName_reads: "reads_as h v V \<Longrightarrow> typeName h v \<noteq> None"
  by (cases v) (auto simp: typeName_def reads_as_obj_iff is_array_def record_as_def split: if_splits)

lemma checkType_reads:
  assumes "reads_opt h type t" "reads_as h v V"
  shows "\<exists>p. checkType T h type v path = Some p \<and> (p \<noteq> None \<longleftrightarrow> type_fails t V)"
  using any_type_reads [OF assms(2)] typeName_reads [OF assms(2)] assms(2)
  unfolding checkType_def type_names_reads [OF assms(1)] type_fails_def
  by (cases t) auto

text \<open>Enumerations and constants: what reads as primitive JSON is the same primitive value.\<close>

lemma isPrimitive_reads: "reads_as h v V \<Longrightarrow> isPrimitive v = json_primitive V"
  by (cases v) (auto simp: reads_as_simps reads_as_obj_iff split: if_splits)

lemma reads_as_eq_iff:
  "\<lbrakk>reads_as h v V; reads_as h w W; json_primitive W\<rbrakk> \<Longrightarrow> v = w \<longleftrightarrow> V = W"
  by (cases v; cases w) (auto simp: reads_as_simps reads_as_obj_iff split: if_splits)

lemma every_primitive_reads:
  "slots_as h ss ts \<Longrightarrow>
   \<exists>r. every (\<lambda>v. if isPrimitive v then Some v else None) ss = Some r
     \<and> (if list_all json_primitive ts then \<exists>vs. r = Some vs \<and> list_all2 (reads_as h) vs ts else r = None)"
  unfolding slots_as_def
proof (induction ss ts rule: list_all2_induct)
  case (Cons s ss t ts)
  then show ?case by (auto simp: isPrimitive_reads split: if_splits)
qed simp

lemma member_reads:
  assumes "list_all2 (reads_as h) vs ts" "list_all json_primitive ts" "reads_as h v V"
  shows "v \<in> set vs \<longleftrightarrow> V \<in> set ts"
  using assms(1,2)
  by (induction rule: list_all2_induct) (auto simp: reads_as_eq_iff [OF assms(3)])

definition enum_fails :: "json option \<Rightarrow> json \<Rightarrow> bool" where
  "enum_fails e V \<longleftrightarrow> (\<exists>es. e = Some (Jn_arr es) \<and> es \<noteq> [] \<and> list_all json_primitive es \<and> V \<notin> set es)"

definition const_fails :: "json option \<Rightarrow> json \<Rightarrow> bool" where
  "const_fails c V \<longleftrightarrow> (\<exists>c'. c = Some c' \<and> json_primitive c' \<and> V \<noteq> c')"

text \<open>Arrays the check reads to their end.\<close>

fun small_arrays :: "json \<Rightarrow> bool" where
  "small_arrays (Jn_arr xs) \<longleftrightarrow> length xs \<le> LITE_MAX_ITEMS \<and> list_all small_arrays xs"
| "small_arrays (Jn_obj kvs) \<longleftrightarrow> list_all (\<lambda>kv. small_arrays (snd kv)) kvs"
| "small_arrays _ \<longleftrightarrow> True"

text \<open>Levels of nesting of a tree.\<close>

fun json_depth :: "json \<Rightarrow> nat" where
  "json_depth (Jn_arr xs) = Suc (Max (insert 0 (set (map json_depth xs))))"
| "json_depth (Jn_obj kvs) = Suc (Max (insert 0 (set (map (\<lambda>kv. json_depth (snd kv)) kvs))))"
| "json_depth _ = 1"


section \<open>Judging a part\<close>

text \<open>
  What the exactness proof says of a part's outcome \<open>r\<close>: it does not throw, the work only grows, a
  problem means that the part's keyword is broken (\<open>bad\<close>), and when no limit of the check is in
  play (\<open>inlim\<close>, and work to spare) no problem means that it is not.
\<close>

definition judges :: "bool \<Rightarrow> lite_state \<Rightarrow> lite_result \<Rightarrow> bool \<Rightarrow> bool" where
  "judges inlim st r bad \<longleftrightarrow>
     (\<exists>v st'. r = Some (v, st') \<and> ls_steps st \<le> ls_steps st'
        \<and> ((\<exists>m. v = Problem m) \<longrightarrow> bad)
        \<and> (inlim \<and> \<not> over_budget st' \<and> (\<forall>m. v \<noteq> Problem m) \<longrightarrow> v = Pass \<and> \<not> bad))"

lemma judges_pass: "\<not> bad \<Longrightarrow> judges inlim st (Some (Pass, st)) bad"
  by (simp add: judges_def)

lemma judges_problem: "bad \<Longrightarrow> judges inlim st (Some (Problem m, st)) bad"
  by (simp add: judges_def)

lemma judges_over: "\<lbrakk>over_budget st'; ls_steps st \<le> ls_steps st'; v = Pass \<or> v = Enough\<rbrakk>
   \<Longrightarrow> judges inlim st (Some (v, st')) bad"
  by (auto simp: judges_def)

lemma judges_plainly:
  "\<exists>p. r = Some p \<and> (p \<noteq> None \<longleftrightarrow> bad) \<Longrightarrow> judges inlim st (plainly r st) bad"
  by (cases r rule: option.exhaust; cases "the r") (auto simp: plainly_def judges_def)

lemma judges_next:
  assumes "judges inlim st r bad1"
    and "\<And>st1. ls_steps st \<le> ls_steps st1 \<Longrightarrow> judges inlim st1 (f st1) bad2"
  shows "judges inlim st (next_part r f) (bad1 \<or> bad2)"
proof -
  obtain v st1 where r: "r = Some (v, st1)" "ls_steps st \<le> ls_steps st1"
    "(\<exists>m. v = Problem m) \<longrightarrow> bad1"
    "inlim \<and> \<not> over_budget st1 \<and> (\<forall>m. v \<noteq> Problem m) \<longrightarrow> v = Pass \<and> \<not> bad1"
    using assms(1) by (auto simp: judges_def)
  show ?thesis
  proof (cases v)
    case Pass
    obtain w st2 where s: "f st1 = Some (w, st2)" "ls_steps st1 \<le> ls_steps st2"
      "(\<exists>m. w = Problem m) \<longrightarrow> bad2"
      "inlim \<and> \<not> over_budget st2 \<and> (\<forall>m. w \<noteq> Problem m) \<longrightarrow> w = Pass \<and> \<not> bad2"
      using assms(2) [OF r(2)] by (auto simp: judges_def)
    have "over_budget st1 \<Longrightarrow> over_budget st2" using s(2) by (simp add: over_budget_def)
    then show ?thesis using Pass r s by (auto simp: judges_def next_part_def)
  qed (use r in \<open>auto simp: judges_def next_part_def\<close>)
qed

text \<open>What is asked of the recursive call, on schemas of bounded depth.\<close>

definition exact_on :: "nat \<Rightarrow> heap \<Rightarrow> lite_check \<Rightarrow> bool" where
  "exact_on n h f \<longleftrightarrow>
     (\<forall>schema S v V path st. reads_as h schema S \<longrightarrow> reads_as h v V
        \<longrightarrow> judges (json_depth S \<le> n \<and> small_arrays V) st (f schema v path st) (forbids S V))"

section \<open>The parts, judged\<close>

lemma keyword_simps [simp]:
  "lit ''nullable'' \<in> set SCHEMA_KEYWORDS" "lit ''type'' \<in> set SCHEMA_KEYWORDS"
  "lit ''enum'' \<in> set SCHEMA_KEYWORDS" "lit ''const'' \<in> set SCHEMA_KEYWORDS"
  "lit ''minLength'' \<in> set SCHEMA_KEYWORDS" "lit ''maxLength'' \<in> set SCHEMA_KEYWORDS"
  "lit ''minimum'' \<in> set SCHEMA_KEYWORDS" "lit ''maximum'' \<in> set SCHEMA_KEYWORDS"
  "lit ''exclusiveMinimum'' \<in> set SCHEMA_KEYWORDS" "lit ''exclusiveMaximum'' \<in> set SCHEMA_KEYWORDS"
  "lit ''minItems'' \<in> set SCHEMA_KEYWORDS" "lit ''maxItems'' \<in> set SCHEMA_KEYWORDS"
  "lit ''prefixItems'' \<in> set SCHEMA_KEYWORDS" "lit ''items'' \<in> set SCHEMA_KEYWORDS"
  "lit ''required'' \<in> set SCHEMA_KEYWORDS" "lit ''properties'' \<in> set SCHEMA_KEYWORDS"
  "lit ''additionalProperties'' \<in> set SCHEMA_KEYWORDS" "lit ''patternProperties'' \<in> set SCHEMA_KEYWORDS"
  "lit ''allOf'' \<in> set SCHEMA_KEYWORDS" "lit ''anyOf'' \<in> set SCHEMA_KEYWORDS"
  "lit ''oneOf'' \<in> set SCHEMA_KEYWORDS"
  by (simp_all add: SCHEMA_KEYWORDS_def)

lemma number_keyword:
  assumes "record_as h ob kvs" "plain_object ob" "k \<in> set SCHEMA_KEYWORDS"
  shows "map_option finiteNumber (get_prop ob k) =
           Some (case map_of kvs k of Some (Jn_num q) \<Rightarrow> Some q | _ \<Rightarrow> None)"
  using keyword_read [OF assms] finiteNumber_reads by (metis option.simps(9))

definition number_fails :: "(rat \<Rightarrow> bool) \<Rightarrow> json option \<Rightarrow> bool" where
  "number_fails P t \<longleftrightarrow> (\<exists>q. t = Some (Jn_num q) \<and> P q)"

lemma opt_test_number:
  "opt_test P (case t of Some (Jn_num q) \<Rightarrow> Some q | _ \<Rightarrow> None) = number_fails P t"
  by (auto simp: opt_test_def number_fails_def split: option.splits json.splits)

lemma judges_checkType:
  assumes "record_as h ob kvs" "plain_object ob" "reads_as h v V"
  shows "judges inlim st (plainly (get_prop ob (lit ''type'') \<bind> (\<lambda>type. checkType T h type v path)) st)
           (type_fails (map_of kvs (lit ''type'')) V)"
proof -
  obtain type where t: "get_prop ob (lit ''type'') = Some type" "reads_opt h type (map_of kvs (lit ''type''))"
    using keyword_read [OF assms(1,2)] keyword_simps by blast
  show ?thesis
    by (rule judges_plainly) (use checkType_reads [OF t(2) assms(3)] t(1) in simp)
qed

lemma judges_checkConst:
  assumes "record_as h ob kvs" "plain_object ob" "reads_as h v V"
  shows "judges inlim st (plainly (checkConst T ob v path) st) (const_fails (map_of kvs (lit ''const'')) V)"
proof (rule judges_plainly)
  show "\<exists>p. checkConst T ob v path = Some p \<and> (p \<noteq> None \<longleftrightarrow> const_fails (map_of kvs (lit ''const'')) V)"
  proof (cases "map_of kvs (lit ''const'')")
    case None
    then have "lit ''const'' \<notin> fst ` set kvs" by (simp add: map_of_eq_None_iff)
    then show ?thesis using None has_own_read [OF assms(1,2)] by (simp add: checkConst_def const_fails_def)
  next
    case (Some c')
    then have "lit ''const'' \<in> fst ` set kvs" by (metis map_of_eq_None_iff option.distinct(1))
    then have own: "has_own ob (lit ''const'') = Some True" using has_own_read [OF assms(1,2)] by simp
    obtain c where c: "get_prop ob (lit ''const'') = Some c" "reads_as h c c'"
      using own_read [OF assms(1) Some] by blast
    have "c \<noteq> JNum NaN" using c(2) by (auto simp: reads_as_simps)
    then have "isPrimitive c \<and> \<not> strict_equal v c \<longleftrightarrow> json_primitive c' \<and> V \<noteq> c'"
      using isPrimitive_reads [OF c(2)] reads_as_eq_iff [OF assms(3) c(2)] by (auto simp: strict_equal_def)
    then show ?thesis using own c(1) Some by (auto simp: checkConst_def const_fails_def)
  qed
qed

lemma judges_checkEnum:
  assumes "record_as h ob kvs" "plain_object ob" "reads_as h v V"
  shows "judges inlim st (checkEnum T h ob v path st) (enum_fails (map_of kvs (lit ''enum'')) V)"
proof -
  obtain e where e: "get_prop ob (lit ''enum'') = Some e" "reads_opt h e (map_of kvs (lit ''enum''))"
    using keyword_read [OF assms(1,2)] keyword_simps by blast
  obtain r where r: "array_of h e = Some r" "array_as h r (map_of kvs (lit ''enum''))"
    using array_of_reads [OF e(2)] by blast
  show ?thesis
  proof (cases r)
    case None
    then show ?thesis using e r
      by (auto simp: checkEnum_def enum_fails_def array_as_def intro!: judges_pass)
  next
    case (Some x)
    then obtain a es where a: "r = Some (a, h a)" "map_of kvs (lit ''enum'') = Some (Jn_arr es)"
      "slots_as h (jo_items (h a)) es"
      using r(2) by (auto simp: array_as_def split: option.splits json.splits)
    have len: "jo_items (h a) = [] \<longleftrightarrow> es = []"
      using a(3) by (auto simp: slots_as_def)
    obtain q where q: "every (\<lambda>v. if isPrimitive v then Some v else None) (jo_items (h a)) = Some q"
      "if list_all json_primitive es then \<exists>vs. q = Some vs \<and> list_all2 (reads_as h) vs es else q = None"
      using every_primitive_reads [OF a(3)] by blast
    obtain st1 where st1: "enumSet a (h a) st = Some (q, st1)" "ls_steps st \<le> ls_steps st1"
      using q(1) by (simp add: enumSet_def)
    have "checkEnum T h ob v path st =
       (if es = [] then Some (Pass, st)
        else if over_budget st1 then Some (Enough, st1)
        else case q of
            None \<Rightarrow> Some (Pass, st1)
          | Some vs \<Rightarrow>
              if \<not> isPrimitive v \<or> v \<notin> set vs
              then Some (Problem (problem T path (lit ''is not one of the allowed values'')), st1)
              else Some (Pass, st1))"
      using e r a len st1 by (simp add: checkEnum_def)
    moreover have "V \<notin> set es" if "\<not> isPrimitive v" "list_all json_primitive es"
      using that isPrimitive_reads [OF assms(3)] by (auto simp: list_all_iff)
    ultimately show ?thesis
      using q(2) st1(2) a(2) isPrimitive_reads [OF assms(3)] member_reads [OF _ _ assms(3)]
      by (auto simp: judges_def enum_fails_def split: if_splits)
  qed
qed

definition bounds_fail :: "(jstr \<times> json) list \<Rightarrow> json \<Rightarrow> bool" where
  "bounds_fail kvs V \<longleftrightarrow>
     (case V of
        Jn_str s \<Rightarrow>
          number_fails (\<lambda>q. of_nat (code_points s) < q) (map_of kvs (lit ''minLength''))
          \<or> number_fails (\<lambda>q. q < of_nat (code_points s)) (map_of kvs (lit ''maxLength''))
      | Jn_num x \<Rightarrow>
          number_fails (\<lambda>q. x < q) (map_of kvs (lit ''minimum''))
          \<or> number_fails (\<lambda>q. q < x) (map_of kvs (lit ''maximum''))
          \<or> number_fails (\<lambda>q. x \<le> q) (map_of kvs (lit ''exclusiveMinimum''))
          \<or> number_fails (\<lambda>q. q \<le> x) (map_of kvs (lit ''exclusiveMaximum''))
      | _ \<Rightarrow> False)"

lemma num_compare [simp]:
  "num_less (Fin x) = (\<lambda>q. x < q)" "num_greater (Fin x) = (\<lambda>q. q < x)"
  by (auto simp: num_less_def num_greater_def fun_eq_iff)

lemma less_or_eq_flip [simp]:
  "(\<lambda>q. (x::rat) < q \<or> x = q) = (\<lambda>q. x \<le> q)" "(\<lambda>q. q < x \<or> x = q) = (\<lambda>q. q \<le> (x::rat))"
  by (auto simp: fun_eq_iff)

lemma judges_check_bounds:
  assumes "record_as h ob kvs" "plain_object ob" "reads_as h v V"
  shows "judges inlim st (plainly (check_bounds T ob v path) st) (bounds_fail kvs V)"
proof (rule judges_plainly)
  note read = keyword_simps(5-10) [THEN number_keyword [OF assms(1,2)]]
  show "\<exists>p. check_bounds T ob v path = Some p \<and> (p \<noteq> None \<longleftrightarrow> bounds_fail kvs V)"
  proof (cases v)
    case (JNum x)
    then obtain q where "x = Fin q" "V = Jn_num q" using assms(3) by (auto simp: reads_as_simps)
    then show ?thesis using JNum
      unfolding check_bounds_def checkNumberBounds_def read bounds_fail_def
      by (simp add: opt_test_number)
  next
    case (JStr s)
    then show ?thesis using assms(3)
      unfolding check_bounds_def checkStringBounds_def read bounds_fail_def
      by (auto simp: opt_test_number reads_as_simps Let_def)
  qed (use assms(3) in \<open>auto simp: check_bounds_def bounds_fail_def reads_as_simps reads_as_obj_iff
                        split: if_splits\<close>)
qed

section \<open>Arrays, judged\<close>

lemma slots_as_nth:
  assumes "slots_as h ss ts"
  shows "length ss = length ts" "i < length ts \<Longrightarrow> \<exists>v. ss ! i = Slot v \<and> reads_as h v (ts ! i)"
  using assms by (auto simp: slots_as_def list_all2_conv_all_nth)

lemma exact_onD:
  "\<lbrakk>exact_on n h f; reads_as h schema S; reads_as h v V\<rbrakk>
   \<Longrightarrow> judges (json_depth S \<le> n \<and> small_arrays V) st (f schema v path st) (forbids S V)"
  by (simp add: exact_on_def)

lemma judges_weaken: "\<lbrakk>judges inlim st r bad; inlim' \<Longrightarrow> inlim\<rbrakk> \<Longrightarrow> judges inlim' st r bad"
  unfolding judges_def by blast

lemma judges_budget:
  "judges inlim st (f st) bad \<Longrightarrow> judges inlim st (if over_budget st then Some (Pass, st) else f st) bad"
  by (auto intro: judges_over)

text \<open>The schema the loop finds for an element, and the keyword's.\<close>

definition items_as :: "heap \<Rightarrow> js_slot list \<Rightarrow> js \<Rightarrow> (nat \<Rightarrow> json option) \<Rightarrow> bool" where
  "items_as h tuple rest item \<longleftrightarrow>
     (\<forall>i. \<exists>s. (if i < length tuple then read_slot (tuple ! i) else Some rest) = Some s
            \<and> reads_opt h s (item i))"

lemma judges_check_items:
  assumes f: "exact_on n h f" and items: "items_as h tuple rest item"
    and "slots_as h ss ts"
  shows "judges ((\<forall>j S. item j = Some S \<longrightarrow> json_depth S \<le> n) \<and> list_all small_arrays ts) st
           (check_items f tuple rest path i ss st)
           (\<exists>j<length ts. \<exists>S. item (i + j) = Some S \<and> forbids S (ts ! j))"
  using assms(3)
proof (induction ss arbitrary: ts i st)
  case Nil
  then show ?case by (simp add: slots_as_def judges_pass)
next
  case (Cons s ss)
  then obtain t ts' v where ts: "ts = t # ts'" "slots_as h ss ts'" "s = Slot v" "reads_as h v t"
    by (auto simp: slots_as_def list_all2_Cons1)
  obtain c where c: "(if i < length tuple then read_slot (tuple ! i) else Some rest) = Some c"
    "reads_opt h c (item i)" using items by (auto simp: items_as_def)
  let ?inlim = "(\<forall>j S. item j = Some S \<longrightarrow> json_depth S \<le> n) \<and> list_all small_arrays ts"
  let ?rest = "\<exists>j<length ts'. \<exists>S. item (i + 1 + j) = Some S \<and> forbids S (ts' ! j)"
  have IH: "judges ?inlim st1 (check_items f tuple rest path (i + 1) ss st1) ?rest" for st1
    using Cons.IH [OF ts(2), of st1 "i + 1"] ts(1) by (auto elim: judges_weaken)
  have split: "(\<exists>j<length ts. \<exists>S. item (i + j) = Some S \<and> forbids S (ts ! j)) \<longleftrightarrow>
      (\<exists>S. item i = Some S \<and> forbids S t) \<or> ?rest"
    unfolding ts(1) by (auto simp: less_Suc_eq_0_disj)
  show ?case
  proof (cases "item i")
    case None
    then have "c = JUndef" using c(2) by (simp add: reads_opt_def)
    then show ?thesis using IH c(1) None unfolding split by simp
  next
    case (Some S)
    then have S: "reads_as h c S" "c \<noteq> JUndef" using c(2) by (auto simp: reads_opt_def)
    have "judges ?inlim st (f c v (path @ [Seg_index (Fin (of_nat i))]) st) (forbids S t)"
      by (rule judges_weaken [OF exact_onD [OF f S(1) ts(4)]]) (use Some ts(1) in auto)
    then have "judges ?inlim st
        (next_part (f c v (path @ [Seg_index (Fin (of_nat i))]) st)
          (\<lambda>st'. if over_budget st' then Some (Pass, st') else check_items f tuple rest path (i + 1) ss st'))
        (forbids S t \<or> ?rest)"
      by (rule judges_next) (rule judges_budget, rule IH)
    then show ?thesis using c(1) S(2) ts(3) Some unfolding split by simp
  qed
qed

lemma judges_cong:
  assumes "judges inlim st r bad" "bad \<Longrightarrow> bad'" "inlim' \<Longrightarrow> inlim \<and> (bad' \<longrightarrow> bad)"
  shows "judges inlim' st r bad'"
  using assms unfolding judges_def by blast

lemma json_depth_nonzero [simp]: "json_depth t \<noteq> 0"
  by (cases t) auto

lemma json_depth_elem: "t \<in> set xs \<Longrightarrow> json_depth t < json_depth (Jn_arr xs)"
  by (auto simp: less_Suc_eq_le intro!: Max_ge)

lemma json_depth_field: "map_of kvs k = Some t \<Longrightarrow> json_depth t < json_depth (Jn_obj kvs)"
  by (drule map_of_SomeD) (force simp: less_Suc_eq_le intro!: Max_ge)

lemma item_schema_depth:
  assumes "item_schema kvs i = Some S"
  shows "json_depth S < json_depth (Jn_obj kvs)"
proof -
  have *: "json_depth (ps ! i) < json_depth (Jn_obj kvs)"
    if "map_of kvs k = Some (Jn_arr ps)" "i < length ps" for k ps
    using json_depth_field [OF that(1)] json_depth_elem [OF nth_mem [OF that(2)]] by linarith
  show ?thesis
    using assms * json_depth_field
    unfolding item_schema_def Let_def
    by (auto split: if_splits option.splits json.splits)
qed

definition array_fails :: "(jstr \<times> json) list \<Rightarrow> json list \<Rightarrow> bool" where
  "array_fails kvs xs \<longleftrightarrow>
     number_fails (\<lambda>q. of_nat (length xs) < q) (map_of kvs (lit ''minItems''))
     \<or> number_fails (\<lambda>q. q < of_nat (length xs)) (map_of kvs (lit ''maxItems''))
     \<or> (\<exists>i<length xs. \<exists>S. item_schema kvs i = Some S \<and> forbids S (xs ! i))"

text \<open>The tuple and the rest that \<open>checkArray\<close> takes from \<open>prefixItems\<close> and \<open>items\<close>.\<close>

lemma items_as_schema:
  assumes "array_as h r1 (map_of kvs (lit ''prefixItems''))"
    and "reads_opt h iv (map_of kvs (lit ''items''))"
    and "array_as h r2 (map_of kvs (lit ''items''))"
  shows "items_as h
     (case r1 of Some (a, ob) \<Rightarrow> jo_items ob | None \<Rightarrow> (case r2 of Some (a, ob) \<Rightarrow> jo_items ob | None \<Rightarrow> []))
     (if r2 = None then iv else JUndef) (item_schema kvs)"
proof -
  define items where "items = map_of kvs (lit ''items'')"
  define listed where "listed = (case items of Some (Jn_arr ps) \<Rightarrow> Some ps | _ \<Rightarrow> None)"
  define tree where "tree = (case map_of kvs (lit ''prefixItems'') of
       Some (Jn_arr ps) \<Rightarrow> ps | _ \<Rightarrow> (case listed of Some ps \<Rightarrow> ps | None \<Rightarrow> []))"
  define tuple where "tuple = (case r1 of Some (a, ob) \<Rightarrow> jo_items ob
      | None \<Rightarrow> (case r2 of Some (a, ob) \<Rightarrow> jo_items ob | None \<Rightarrow> []))"
  have schema: "item_schema kvs i =
      (if i < length tree then Some (tree ! i) else if listed = None then items else None)" for i
    unfolding item_schema_def Let_def tree_def listed_def items_def by (rule refl)
  have slots: "slots_as h tuple tree"
    using assms(1,3) unfolding tuple_def tree_def listed_def items_def
    by (auto simp: array_as_def slots_as_def split: option.splits json.splits)
  have listed_iff: "r2 = None \<longleftrightarrow> listed = None"
    using assms(3) unfolding listed_def items_def
    by (auto simp: array_as_def split: option.splits json.splits)
  show ?thesis
    unfolding items_as_def tuple_def [symmetric]
  proof
    fix i
    show "\<exists>s. (if i < length tuple then read_slot (tuple ! i) else Some (if r2 = None then iv else JUndef)) = Some s
            \<and> reads_opt h s (item_schema kvs i)"
    proof (cases "i < length tree")
      case True
      then obtain v where "tuple ! i = Slot v" "reads_as h v (tree ! i)"
        using slots_as_nth(2) [OF slots] by blast
      then show ?thesis using True slots_as_nth(1) [OF slots] by (simp add: schema reads_opt_def)
    next
      case False
      then show ?thesis using assms(2) listed_iff slots_as_nth(1) [OF slots]
        by (auto simp: schema items_def reads_opt_def)
    qed
  qed
qed

lemma judges_checkArray:
  assumes f: "exact_on n h f" and ob: "record_as h ob kvs" "plain_object ob"
    and ss: "slots_as h ss ts"
  shows "judges (json_depth (Jn_obj kvs) \<le> Suc n \<and> small_arrays (Jn_arr ts)) st
           (checkArray T h f ob ss path st) (array_fails kvs ts)"
proof -
  note read = keyword_simps(11,12) [THEN number_keyword [OF ob]]
  have len: "length ss = length ts" using slots_as_nth(1) [OF ss] .
  obtain pv where pv: "get_prop ob (lit ''prefixItems'') = Some pv" "reads_opt h pv (map_of kvs (lit ''prefixItems''))"
    using keyword_read [OF ob] keyword_simps by blast
  obtain iv where iv: "get_prop ob (lit ''items'') = Some iv" "reads_opt h iv (map_of kvs (lit ''items''))"
    using keyword_read [OF ob] keyword_simps by blast
  obtain r1 where r1: "array_of h pv = Some r1" "array_as h r1 (map_of kvs (lit ''prefixItems''))"
    using array_of_reads [OF pv(2)] by blast
  obtain r2 where r2: "array_of h iv = Some r2" "array_as h r2 (map_of kvs (lit ''items''))"
    using array_of_reads [OF iv(2)] by blast
  let ?tuple = "case r1 of Some (a, ob) \<Rightarrow> jo_items ob
      | None \<Rightarrow> (case r2 of Some (a, ob) \<Rightarrow> jo_items ob | None \<Rightarrow> [])"
  let ?rest = "if r2 = None then iv else JUndef"
  let ?lo = "number_fails (\<lambda>q. of_nat (length ts) < q) (map_of kvs (lit ''minItems''))"
  let ?hi = "number_fails (\<lambda>q. q < of_nat (length ts)) (map_of kvs (lit ''maxItems''))"
  have eq: "\<exists>m1 m2. checkArray T h f ob ss path st =
      (if ?lo then Some (Problem m1, st) else if ?hi then Some (Problem m2, st)
       else check_items f ?tuple ?rest path 0 (take LITE_MAX_ITEMS ss) st)"
    unfolding checkArray_def read len using pv(1) iv(1) r1(1) r2(1) by (auto simp: opt_test_number Let_def)
  have taken: "slots_as h (take LITE_MAX_ITEMS ss) (take LITE_MAX_ITEMS ts)"
    using ss by (simp add: slots_as_def)
  have loop: "judges (json_depth (Jn_obj kvs) \<le> Suc n \<and> small_arrays (Jn_arr ts)) st
      (check_items f ?tuple ?rest path 0 (take LITE_MAX_ITEMS ss) st)
      (\<exists>i<length ts. \<exists>S. item_schema kvs i = Some S \<and> forbids S (ts ! i))"
  proof (rule judges_cong [OF judges_check_items [OF f items_as_schema [OF r1(2) iv(2) r2(2)] taken]])
    assume l: "json_depth (Jn_obj kvs) \<le> Suc n \<and> small_arrays (Jn_arr ts)"
    have "json_depth S \<le> n" if "item_schema kvs j = Some S" for j S
      using item_schema_depth [OF that] l by linarith
    then show "((\<forall>j S. item_schema kvs j = Some S \<longrightarrow> json_depth S \<le> n)
        \<and> list_all small_arrays (take LITE_MAX_ITEMS ts))
      \<and> ((\<exists>i<length ts. \<exists>S. item_schema kvs i = Some S \<and> forbids S (ts ! i))
        \<longrightarrow> (\<exists>j<length (take LITE_MAX_ITEMS ts). \<exists>S. item_schema kvs (0 + j) = Some S
              \<and> forbids S (take LITE_MAX_ITEMS ts ! j)))"
      using l by simp
  qed auto
  show ?thesis
    using eq loop by (auto simp: array_fails_def judges_problem)
qed

section \<open>Objects, judged\<close>

lemma string_of_reads: "reads_as h v V \<Longrightarrow> string_of v = (case V of Jn_str s \<Rightarrow> Some s | _ \<Rightarrow> None)"
  by (cases v) (auto simp: reads_as_simps reads_as_obj_iff split: if_splits)

lemma missing_key_reads:
  assumes "record_as h ob fs" "plain_object ob" "slots_as h ss rs"
  shows "\<exists>p. missing_key ss ob = Some p \<and> (p \<noteq> None \<longleftrightarrow> (\<exists>k. Jn_str k \<in> set rs \<and> k \<notin> fst ` set fs))"
  using assms(3) unfolding slots_as_def
proof (induction ss rs rule: list_all2_induct)
  case (Cons s ss r rs)
  then obtain v where v: "s = Slot v" "reads_as h v r" by blast
  show ?case
  proof (cases "\<exists>k. r = Jn_str k \<and> k \<in> fst ` set fs")
    case True
    then obtain k where k: "r = Jn_str k" "k \<in> fst ` set fs" by blast
    then obtain t where "map_of fs k = Some t" by (metis map_of_eq_None_iff not_Some_eq)
    then obtain w where "get_prop ob k = Some w" "reads_as h w t"
      using own_read [OF assms(1)] by blast
    moreover from this have "w \<noteq> JUndef" by auto
    ultimately show ?thesis
      using Cons v k has_own_read [OF assms(1,2)] by (auto simp: string_of_reads [OF v(2)])
  next
    case False
    then show ?thesis
      using Cons v has_own_read [OF assms(1,2)]
      by (cases r) (auto simp: string_of_reads [OF v(2)])
  qed
qed simp

text \<open>What a declared or an additional key's schema forbids.\<close>

definition field_fails :: "(jstr \<times> json) list option \<Rightarrow> json option \<Rightarrow> bool \<Rightarrow> jstr \<Rightarrow> json \<Rightarrow> bool" where
  "field_fails properties additional patterned k V \<longleftrightarrow>
     (case (case properties of None \<Rightarrow> None | Some ps \<Rightarrow> map_of ps k) of
        Some S \<Rightarrow> forbids S V
      | None \<Rightarrow> \<not> patterned \<and> (\<exists>S. additional = Some S \<and> forbids S V))"

inductive_cases forbids_elim: "forbids S V"

lemma forbids_shape: "forbids S V \<Longrightarrow> S = Jn_bool False \<or> (\<exists>kvs. S = Jn_obj kvs)"
  by (erule forbids_elim) simp_all

definition fields_ok :: "heap \<Rightarrow> js_object option \<Rightarrow> (jstr \<times> json) list option \<Rightarrow> bool" where
  "fields_ok h p ps \<longleftrightarrow> rel_option (\<lambda>ob kvs. record_as h ob kvs \<and> plain_object ob) p ps"

definition fields_depth :: "nat \<Rightarrow> (jstr \<times> json) list option \<Rightarrow> json option \<Rightarrow> bool" where
  "fields_depth n ps additional \<longleftrightarrow>
     (\<forall>kvs k S. ps = Some kvs \<and> map_of kvs k = Some S \<longrightarrow> json_depth S \<le> n)
     \<and> (\<forall>S. additional = Some S \<longrightarrow> json_depth S \<le> n)"

lemma judges_bind_option:
  "\<lbrakk>x = Some y; judges inlim st (f y) bad\<rbrakk> \<Longrightarrow> judges inlim st (x \<bind> f) bad"
  by simp

lemma judges_check_fields:
  assumes f: "exact_on n h f" and p: "fields_ok h p ps" and a: "reads_opt h av additional"
    and ob: "record_as h ob fs" "plain_object ob" and keys: "set keys \<subseteq> fst ` set fs"
  shows "judges (fields_depth n ps additional \<and> small_arrays (Jn_obj fs)) st
           (check_fields T h f p av patterned ob path keys st)
           (\<exists>k\<in>set keys. \<exists>V. map_of fs k = Some V \<and> field_fails ps additional patterned k V)"
  using keys
proof (induction keys arbitrary: st)
  case Nil
  then show ?case by (simp add: judges_pass)
next
  case (Cons k keys)
  let ?inlim = "fields_depth n ps additional \<and> small_arrays (Jn_obj fs)"
  let ?rest = "\<exists>k\<in>set keys. \<exists>V. map_of fs k = Some V \<and> field_fails ps additional patterned k V"
  from Cons.prems obtain V where V: "map_of fs k = Some V"
    by (metis list.set_intros(1) map_of_eq_None_iff not_None_eq subset_iff)
  obtain v where v: "get_prop ob k = Some v" "reads_as h v V" using own_read [OF ob(1) V] by blast
  have small: "small_arrays (Jn_obj fs) \<Longrightarrow> small_arrays V"
    using map_of_SomeD [OF V] by (auto simp: list_all_iff)
  have IH: "judges ?inlim st1 (check_fields T h f p av patterned ob path keys st1) ?rest" for st1
    using Cons.IH Cons.prems by simp
  have step: "judges ?inlim st (next_part r
      (\<lambda>st'. if over_budget st' then Some (Pass, st') else check_fields T h f p av patterned ob path keys st'))
      (\<exists>k\<in>set (k # keys). \<exists>V. map_of fs k = Some V \<and> field_fails ps additional patterned k V)"
    if "judges ?inlim st r (field_fails ps additional patterned k V)" for r
  proof -
    have "(\<exists>k\<in>set (k # keys). \<exists>V. map_of fs k = Some V \<and> field_fails ps additional patterned k V)
        \<longleftrightarrow> field_fails ps additional patterned k V \<or> ?rest" using V by auto
    moreover have "judges ?inlim st1 (if over_budget st1 then Some (Pass, st1)
        else check_fields T h f p av patterned ob path keys st1) ?rest" for st1
      by (rule judges_budget, rule IH)
    ultimately show ?thesis
      using judges_next [OF that] by (simp only:)
  qed
  show ?case
  proof (cases "case ps of None \<Rightarrow> None | Some kvs \<Rightarrow> map_of kvs k")
    case (Some S)
    then obtain kvs q where q: "ps = Some kvs" "p = Some q" "record_as h q kvs" "plain_object q"
      "map_of kvs k = Some S" using p by (cases ps; cases p) (auto simp: fields_ok_def)
    then have "k \<in> fst ` set kvs" by (metis map_of_eq_None_iff option.distinct(1))
    then have own: "has_own q k = Some True" using has_own_read [OF q(3,4)] by simp
    obtain s where s: "get_prop q k = Some s" "reads_as h s S" using own_read [OF q(3,5)] by blast
    have "judges ?inlim st (f s v (path @ [Seg_key k]) st) (field_fails ps additional patterned k V)"
      by (rule judges_cong [OF exact_onD [OF f s(2) v(2)]])
        (use Some q small in \<open>auto simp: field_fails_def fields_depth_def\<close>)
    from step [OF this] show ?thesis using own s v unfolding q(2) by simp
  next
    case None
    have decl: "(case p of None \<Rightarrow> Some False | Some q \<Rightarrow> has_own q k) = Some False"
      using None p has_own_read
      by (cases ps; cases p) (auto simp: fields_ok_def map_of_eq_None_iff)
    have ff: "field_fails ps additional patterned k V \<longleftrightarrow>
        \<not> patterned \<and> (\<exists>S. additional = Some S \<and> forbids S V)"
      using None by (simp add: field_fails_def)
    obtain r where r: "isRecord h av = Some r" "object_as h r additional"
      using isRecord_reads [OF a] by blast
    let ?m = "problem T (path @ [Seg_key k])
        (lit ''is not a parameter of this tool (the schema allows no other keys)'')"
    have "judges ?inlim st
        (if patterned then Some (Pass, st) else if av = JBool False then Some (Problem ?m, st)
         else isRecord h av \<bind> (\<lambda>r. if r = None then Some (Pass, st)
              else get_prop ob k \<bind> (\<lambda>v. f av v (path @ [Seg_key k]) st)))
        (field_fails ps additional patterned k V)"
    proof (cases "patterned \<or> av = JBool False")
      case True
      then show ?thesis using a unfolding ff
        by (auto simp: judges_pass reads_opt_def reads_as_simps intro!: judges_problem forbids_false
            split: option.splits)
    next
      case False
      show ?thesis
      proof (cases r)
        case None
        then have "\<not> (\<exists>S. additional = Some S \<and> forbids S V)"
          using r(2) a False
          by (auto simp: object_as_def reads_opt_def reads_as_json_simps split: option.splits
              dest!: forbids_shape)
        then show ?thesis using False None r(1) unfolding ff by (simp add: judges_pass)
      next
        case (Some q)
        then obtain S where S: "additional = Some S" "reads_as h av S"
          using r(2) a by (auto simp: object_as_def reads_opt_def split: option.splits)
        have ff': "field_fails ps additional patterned k V \<longleftrightarrow> forbids S V"
          using ff S False by simp
        have "judges ?inlim st (f av v (path @ [Seg_key k]) st) (field_fails ps additional patterned k V)"
          unfolding ff'
          by (rule judges_cong [OF exact_onD [OF f S(2) v(2)]])
            (use S small in \<open>auto simp: fields_depth_def\<close>)
        then show ?thesis using False Some r(1) v(1) by simp
      qed
    qed
    from step [OF this] show ?thesis using decl by simp
  qed
qed

text \<open>The keywords on objects together.\<close>

definition object_fails :: "(jstr \<times> json) list \<Rightarrow> (jstr \<times> json) list \<Rightarrow> bool" where
  "object_fails kvs fs \<longleftrightarrow>
     (\<exists>rs k. map_of kvs (lit ''required'') = Some (Jn_arr rs) \<and> Jn_str k \<in> set rs \<and> k \<notin> fst ` set fs)
     \<or> (\<exists>k V. map_of fs k = Some V
          \<and> field_fails (case map_of kvs (lit ''properties'') of Some (Jn_obj ps) \<Rightarrow> Some ps | _ \<Rightarrow> None)
              (map_of kvs (lit ''additionalProperties'')) (map_of kvs (lit ''patternProperties'') \<noteq> None) k V)"

lemma ex_field_iff:
  "(\<exists>k V. map_of fs k = Some V \<and> P k V) \<longleftrightarrow> (\<exists>k\<in>set (map fst fs). \<exists>V. map_of fs k = Some V \<and> P k V)"
proof -
  have "k \<in> set (map fst fs)" if "map_of fs k = Some V" for k V
    using imageI [OF map_of_SomeD [OF that], of fst] by simp
  then show ?thesis by blast
qed

lemma judges_checkObject:
  assumes f: "exact_on n h f" and plain: "plain_heap h" and ob: "record_as h ob kvs" "plain_object ob"
    and fo: "record_as h fob fs" "plain_object fob"
  shows "judges (json_depth (Jn_obj kvs) \<le> Suc n \<and> small_arrays (Jn_obj fs)) st
           (checkObject T h f ob fob path st) (object_fails kvs fs)"
proof -
  obtain rv where rv: "get_prop ob (lit ''required'') = Some rv" "reads_opt h rv (map_of kvs (lit ''required''))"
    using keyword_read [OF ob] keyword_simps by blast
  obtain pv where pv: "get_prop ob (lit ''properties'') = Some pv" "reads_opt h pv (map_of kvs (lit ''properties''))"
    using keyword_read [OF ob] keyword_simps by blast
  obtain av where av: "get_prop ob (lit ''additionalProperties'') = Some av"
    "reads_opt h av (map_of kvs (lit ''additionalProperties''))"
    using keyword_read [OF ob] keyword_simps by blast
  obtain tv where tv: "get_prop ob (lit ''patternProperties'') = Some tv"
    "reads_opt h tv (map_of kvs (lit ''patternProperties''))"
    using keyword_read [OF ob] keyword_simps by blast
  obtain r where r: "array_of h rv = Some r" "array_as h r (map_of kvs (lit ''required''))"
    using array_of_reads [OF rv(2)] by blast
  obtain p where p: "isRecord h pv = Some p" "object_as h p (map_of kvs (lit ''properties''))"
    using isRecord_reads [OF pv(2)] by blast
  let ?ps = "case map_of kvs (lit ''properties'') of Some (Jn_obj ps) \<Rightarrow> Some ps | _ \<Rightarrow> None"
  let ?need = "\<exists>rs k. map_of kvs (lit ''required'') = Some (Jn_arr rs) \<and> Jn_str k \<in> set rs \<and> k \<notin> fst ` set fs"
  have pat: "tv \<noteq> JUndef \<longleftrightarrow> map_of kvs (lit ''patternProperties'') \<noteq> None"
    using tv(2) by (auto simp: reads_opt_def split: option.splits)
  have pok: "fields_ok h p ?ps"
    using p(2) plain by (auto simp: fields_ok_def object_as_def plain_heap_def split: option.splits json.splits)
  obtain q where q: "(case r of None \<Rightarrow> Some None | Some (a, r) \<Rightarrow> missing_key (jo_items r) fob) = Some q"
    "q \<noteq> None \<longleftrightarrow> ?need"
  proof (cases r)
    case None
    then show ?thesis using r(2) that [of None] by (auto simp: array_as_def split: option.splits json.splits)
  next
    case (Some x)
    then obtain a rs where a: "r = Some (a, h a)" "map_of kvs (lit ''required'') = Some (Jn_arr rs)"
      "slots_as h (jo_items (h a)) rs"
      using r(2) by (auto simp: array_as_def split: option.splits json.splits)
    then show ?thesis using missing_key_reads [OF fo a(3)] that by auto
  qed
  have keys: "own_keys fob = Some (map fst fs)"
    using fo record_as_keys by (simp add: own_keys_def record_as_def list_all2_fst)
  have eq: "\<exists>m. checkObject T h f ob fob path st =
      (case q of Some key \<Rightarrow> Some (Problem m, st)
       | None \<Rightarrow> check_fields T h f p av (tv \<noteq> JUndef) fob path (map fst fs) st)"
    unfolding checkObject_def using rv(1) pv(1) av(1) tv(1) r(1) p(1) q(1) keys
    by (cases q) auto
  have fails: "object_fails kvs fs \<longleftrightarrow> ?need \<or> (\<exists>k\<in>set (map fst fs). \<exists>V. map_of fs k = Some V
      \<and> field_fails ?ps (map_of kvs (lit ''additionalProperties'')) (tv \<noteq> JUndef) k V)"
    unfolding object_fails_def pat ex_field_iff [of fs] by (rule refl)
  show ?thesis
  proof (cases q)
    case None
    have "judges (fields_depth n ?ps (map_of kvs (lit ''additionalProperties'')) \<and> small_arrays (Jn_obj fs)) st
        (check_fields T h f p av (tv \<noteq> JUndef) fob path (map fst fs) st)
        (\<exists>k\<in>set (map fst fs). \<exists>V. map_of fs k = Some V \<and> field_fails ?ps (map_of kvs (lit ''additionalProperties'')) (tv \<noteq> JUndef) k V)"
      by (rule judges_check_fields [OF f pok av(2) fo]) simp
    then have "judges (json_depth (Jn_obj kvs) \<le> Suc n \<and> small_arrays (Jn_obj fs)) st
        (check_fields T h f p av (tv \<noteq> JUndef) fob path (map fst fs) st) (object_fails kvs fs)"
    proof (rule judges_cong)
      assume l: "json_depth (Jn_obj kvs) \<le> Suc n \<and> small_arrays (Jn_obj fs)"
      have "json_depth S \<le> n" if "map_of kvs k = Some (Jn_obj ps)" "map_of ps k' = Some S" for k ps k' S
        using json_depth_field [OF that(1)] json_depth_field [OF that(2)] l by linarith
      moreover have "json_depth S \<le> n" if "map_of kvs k = Some S" for k S
        using json_depth_field [OF that] l by linarith
      ultimately have "fields_depth n ?ps (map_of kvs (lit ''additionalProperties''))"
        unfolding fields_depth_def by (auto split: option.splits json.splits)
      then show "(fields_depth n ?ps (map_of kvs (lit ''additionalProperties'')) \<and> small_arrays (Jn_obj fs))
        \<and> (object_fails kvs fs \<longrightarrow> (\<exists>k\<in>set (map fst fs). \<exists>V. map_of fs k = Some V
              \<and> field_fails ?ps (map_of kvs (lit ''additionalProperties'')) (tv \<noteq> JUndef) k V))"
        using l None q(2) fails by auto
    qed (use fails in auto)
    then show ?thesis using eq None by auto
  next
    case (Some k)
    then show ?thesis using eq q(2) by (auto simp: object_fails_def judges_problem)
  qed
qed

section \<open>Combinations and nodes, judged\<close>

definition structure_fails :: "(jstr \<times> json) list \<Rightarrow> json \<Rightarrow> bool" where
  "structure_fails kvs V \<longleftrightarrow>
     (case V of Jn_arr ts \<Rightarrow> array_fails kvs ts | Jn_obj fs \<Rightarrow> object_fails kvs fs | _ \<Rightarrow> False)"

definition all_fails :: "json option \<Rightarrow> json \<Rightarrow> bool" where
  "all_fails t V \<longleftrightarrow> (\<exists>bs. t = Some (Jn_arr bs) \<and> (\<exists>b\<in>set bs. forbids b V))"

definition any_fails :: "json option \<Rightarrow> json \<Rightarrow> bool" where
  "any_fails t V \<longleftrightarrow> (\<exists>bs. t = Some (Jn_arr bs) \<and> bs \<noteq> [] \<and> (\<forall>b\<in>set bs. forbids b V))"

lemma judges_check_structure:
  assumes f: "exact_on n h f" and plain: "plain_heap h" and ob: "record_as h ob kvs" "plain_object ob"
    and v: "reads_as h v V"
  shows "judges (json_depth (Jn_obj kvs) \<le> Suc n \<and> small_arrays V) st
           (check_structure T h f ob v path st) (structure_fails kvs V)"
proof -
  have v': "reads_opt h v (Some V)" using v by (simp add: reads_opt_def)
  obtain r where r: "array_of h v = Some r" "array_as h r (Some V)" using array_of_reads [OF v'] by blast
  obtain q where q: "isRecord h v = Some q" "object_as h q (Some V)" using isRecord_reads [OF v'] by blast
  show ?thesis
  proof (cases V)
    case (Jn_arr ts)
    then obtain a where a: "r = Some (a, h a)" "slots_as h (jo_items (h a)) ts"
      using r(2) by (auto simp: array_as_def)
    show ?thesis using judges_checkArray [OF f ob a(2)] r(1) a(1) Jn_arr
      by (simp add: check_structure_def structure_fails_def)
  next
    case (Jn_obj fs)
    then obtain a where a: "r = None" "q = Some (h a)" "record_as h (h a) fs"
      using r(2) q(2) by (auto simp: array_as_def object_as_def)
    have "plain_object (h a)" using plain by (simp add: plain_heap_def)
    from judges_checkObject [OF f plain ob a(3) this] show ?thesis using r(1) q(1) a(1,2) Jn_obj
      by (simp add: check_structure_def structure_fails_def)
  qed (use r q in \<open>auto simp: array_as_def object_as_def check_structure_def structure_fails_def judges_pass\<close>)
qed

lemma judges_check_all:
  assumes f: "exact_on n h f" and v: "reads_as h v V" and "slots_as h ss bs"
  shows "judges ((\<forall>b\<in>set bs. json_depth b \<le> n) \<and> small_arrays V) st
           (check_all f ss v path st) (\<exists>b\<in>set bs. forbids b V)"
  using assms(3)
proof (induction ss arbitrary: bs st)
  case Nil
  then show ?case by (simp add: slots_as_def judges_pass)
next
  case (Cons s ss)
  then obtain b bs' c where b: "bs = b # bs'" "slots_as h ss bs'" "s = Slot c" "reads_as h c b"
    by (auto simp: slots_as_def list_all2_Cons1)
  let ?inlim = "(\<forall>b\<in>set bs. json_depth b \<le> n) \<and> small_arrays V"
  have "judges ?inlim st (f c v path st) (forbids b V)"
    by (rule judges_weaken [OF exact_onD [OF f b(4) v]]) (use b(1) in auto)
  moreover have "judges ?inlim st1 (check_all f ss v path st1) (\<exists>b\<in>set bs'. forbids b V)" for st1
    by (rule judges_weaken [OF Cons.IH [OF b(2)]]) (use b(1) in auto)
  ultimately have "judges ?inlim st (next_part (f c v path st) (check_all f ss v path))
      (forbids b V \<or> (\<exists>b\<in>set bs'. forbids b V))"
    by (rule judges_next)
  then show ?case using b by simp
qed

lemma some_passes_judged:
  assumes f: "exact_on n h f" and v: "reads_as h v V" and "slots_as h ss bs"
  shows "\<exists>p st'. some_passes f ss v path st = Some (p, st') \<and> ls_steps st \<le> ls_steps st'
     \<and> (\<not> p \<longrightarrow> (\<forall>b\<in>set bs. forbids b V))
     \<and> (p \<and> (\<forall>b\<in>set bs. json_depth b \<le> n) \<and> small_arrays V \<and> \<not> over_budget st'
          \<longrightarrow> (\<exists>b\<in>set bs. \<not> forbids b V))"
  using assms(3)
proof (induction ss arbitrary: bs st)
  case Nil
  then show ?case by (auto simp: slots_as_def)
next
  case (Cons s ss)
  then obtain b bs' c where b: "bs = b # bs'" "slots_as h ss bs'" "s = Slot c" "reads_as h c b"
    by (auto simp: slots_as_def list_all2_Cons1)
  obtain w st1 where w: "f c v path st = Some (w, st1)" "ls_steps st \<le> ls_steps st1"
    "(\<exists>m. w = Problem m) \<longrightarrow> forbids b V"
    "(json_depth b \<le> n \<and> small_arrays V) \<and> \<not> over_budget st1 \<and> (\<forall>m. w \<noteq> Problem m) \<longrightarrow> w = Pass \<and> \<not> forbids b V"
    using exact_onD [OF f b(4) v, where st = st and path = path] unfolding judges_def by blast
  show ?case
  proof (cases "\<exists>m. w = Problem m")
    case True
    then obtain m where "w = Problem m" by blast
    then show ?thesis using Cons.IH [OF b(2), of st1] w b by (auto intro: order_trans)
  next
    case False
    then have "some_passes f (s # ss) v path st = Some (True, st1)"
      using w(1) b(3) by (cases w) auto
    then show ?thesis using w False b(1) by auto
  qed
qed

lemma branches:
  assumes "record_as h ob kvs" "plain_object ob" "k \<in> set SCHEMA_KEYWORDS"
  shows "(get_prop ob k \<bind> array_of h = Some None \<and> (\<forall>bs. map_of kvs k \<noteq> Some (Jn_arr bs)))
     \<or> (\<exists>a bs. get_prop ob k \<bind> array_of h = Some (Some (a, h a)) \<and> map_of kvs k = Some (Jn_arr bs)
          \<and> slots_as h (jo_items (h a)) bs
          \<and> (\<forall>b\<in>set bs. json_depth (Jn_obj kvs) \<le> Suc n \<longrightarrow> json_depth b \<le> n))"
proof -
  obtain v where v: "get_prop ob k = Some v" "reads_opt h v (map_of kvs k)"
    using keyword_read [OF assms] by blast
  obtain r where r: "array_of h v = Some r" "array_as h r (map_of kvs k)"
    using array_of_reads [OF v(2)] by blast
  show ?thesis
  proof (cases "\<exists>bs. map_of kvs k = Some (Jn_arr bs)")
    case True
    then obtain bs where bs: "map_of kvs k = Some (Jn_arr bs)" by blast
    have "json_depth b \<le> n" if "b \<in> set bs" "json_depth (Jn_obj kvs) \<le> Suc n" for b
      using json_depth_field [OF bs] json_depth_elem [OF that(1)] that(2) by linarith
    then show ?thesis using v r bs by (auto simp: array_as_def)
  next
    case False
    then show ?thesis using v r by (auto simp: array_as_def split: option.splits json.splits)
  qed
qed

lemma judges_check_allOf:
  assumes f: "exact_on n h f" and ob: "record_as h ob kvs" "plain_object ob" and v: "reads_as h v V"
  shows "judges (json_depth (Jn_obj kvs) \<le> Suc n \<and> small_arrays V) st
           (check_allOf h f ob v path st) (all_fails (map_of kvs (lit ''allOf'')) V)"
  using branches [OF ob keyword_simps(19), where n = n]
proof (elim disjE exE conjE)
  fix a bs
  assume a: "get_prop ob (lit ''allOf'') \<bind> array_of h = Some (Some (a, h a))"
    "map_of kvs (lit ''allOf'') = Some (Jn_arr bs)" "slots_as h (jo_items (h a)) bs"
    "\<forall>b\<in>set bs. json_depth (Jn_obj kvs) \<le> Suc n \<longrightarrow> json_depth b \<le> n"
  have "judges (json_depth (Jn_obj kvs) \<le> Suc n \<and> small_arrays V) st
      (check_all f (jo_items (h a)) v path st) (\<exists>b\<in>set bs. forbids b V)"
    by (rule judges_weaken [OF judges_check_all [OF f v a(3)]]) (use a(4) in auto)
  then show ?thesis unfolding check_allOf_def a(1,2) all_fails_def by simp
qed (auto simp: check_allOf_def all_fails_def judges_pass)

lemma judges_check_any:
  assumes f: "exact_on n h f" and ob: "record_as h ob kvs" "plain_object ob" "k \<in> set SCHEMA_KEYWORDS"
    and v: "reads_as h v V"
  shows "judges (json_depth (Jn_obj kvs) \<le> Suc n \<and> small_arrays V) st
           (check_any T h f ob k v path st) (any_fails (map_of kvs k) V)"
  using branches [OF ob, where n = n]
proof (elim disjE exE conjE)
  fix a bs
  assume a: "get_prop ob k \<bind> array_of h = Some (Some (a, h a))"
    "map_of kvs k = Some (Jn_arr bs)" "slots_as h (jo_items (h a)) bs"
    "\<forall>b\<in>set bs. json_depth (Jn_obj kvs) \<le> Suc n \<longrightarrow> json_depth b \<le> n"
  have len: "jo_items (h a) = [] \<longleftrightarrow> bs = []" using a(3) by (auto simp: slots_as_def)
  obtain p st1 where p: "some_passes f (jo_items (h a)) v path st = Some (p, st1)"
    "ls_steps st \<le> ls_steps st1" "\<not> p \<longrightarrow> (\<forall>b\<in>set bs. forbids b V)"
    "p \<and> (\<forall>b\<in>set bs. json_depth b \<le> n) \<and> small_arrays V \<and> \<not> over_budget st1
       \<longrightarrow> (\<exists>b\<in>set bs. \<not> forbids b V)"
    using some_passes_judged [OF f v a(3), where path = path and st = st]
    by (elim exE conjE) (rule that)
  show ?thesis
  proof (cases "bs = []")
    case True
    then show ?thesis unfolding check_any_def a(1,2) by (simp add: len any_fails_def judges_pass)
  next
    case False
    have "\<exists>m. check_any T h f ob k v path st = Some (if p then Pass else Problem m, st1)"
      unfolding check_any_def a(1) using False p(1) by (simp add: len)
    moreover have "any_fails (map_of kvs k) V \<longleftrightarrow> (\<forall>b\<in>set bs. forbids b V)"
      unfolding any_fails_def a(2) using False by simp
    ultimately show ?thesis using p(2-4) a(4) by (cases p) (auto simp: judges_def)
  qed
qed (auto simp: check_any_def any_fails_def judges_pass)

lemma array_fails_forbids: "array_fails kvs xs \<Longrightarrow> forbids (Jn_obj kvs) (Jn_arr xs)"
  unfolding array_fails_def number_fails_def
  by (elim disjE exE conjE) (blast intro: forbids.intros)+

lemma declared_keys_iff:
  "k \<in> declared_keys kvs \<longleftrightarrow>
     (case (case map_of kvs (lit ''properties'') of Some (Jn_obj ps) \<Rightarrow> Some ps | _ \<Rightarrow> None) of
        None \<Rightarrow> None | Some ps \<Rightarrow> map_of ps k) \<noteq> None"
proof -
  have "k \<in> fst ` set ps \<longleftrightarrow> map_of ps k \<noteq> None" for ps :: "(jstr \<times> json) list"
    by (simp add: map_of_eq_None_iff)
  then show ?thesis
    unfolding declared_keys_def by (simp split: option.split json.split)
qed

lemma object_fails_forbids:
  assumes "object_fails kvs fs"
  shows "forbids (Jn_obj kvs) (Jn_obj fs)"
  using assms unfolding object_fails_def
proof (elim disjE exE conjE)
  fix k V
  let ?ps = "case map_of kvs (lit ''properties'') of Some (Jn_obj ps) \<Rightarrow> Some ps | _ \<Rightarrow> None"
  assume V: "map_of fs k = Some V"
    and ff: "field_fails ?ps (map_of kvs (lit ''additionalProperties''))
        (map_of kvs (lit ''patternProperties'') \<noteq> None) k V"
  show ?thesis
  proof (cases "case ?ps of None \<Rightarrow> None | Some ps \<Rightarrow> map_of ps k")
    case (Some S)
    then obtain ps where "map_of kvs (lit ''properties'') = Some (Jn_obj ps)" "map_of ps k = Some S"
      by (auto split: option.splits json.splits)
    moreover have "forbids S V" using ff Some by (simp add: field_fails_def)
    ultimately show ?thesis using V by (blast intro: forbids_property)
  next
    case None
    then have "k \<notin> declared_keys kvs" by (simp add: declared_keys_iff)
    moreover obtain S where "map_of kvs (lit ''additionalProperties'') = Some S" "forbids S V"
      "map_of kvs (lit ''patternProperties'') = None"
      using ff None by (auto simp: field_fails_def)
    ultimately show ?thesis using V by (blast intro: forbids_additional)
  qed
qed (blast intro: forbids_required)

lemma fails_forbids:
  "\<lbrakk>\<not> nulled kvs V; type_fails (map_of kvs (lit ''type'')) V\<rbrakk> \<Longrightarrow> forbids (Jn_obj kvs) V"
  "\<lbrakk>\<not> nulled kvs V; enum_fails (map_of kvs (lit ''enum'')) V\<rbrakk> \<Longrightarrow> forbids (Jn_obj kvs) V"
  "\<lbrakk>\<not> nulled kvs V; const_fails (map_of kvs (lit ''const'')) V\<rbrakk> \<Longrightarrow> forbids (Jn_obj kvs) V"
  "\<lbrakk>\<not> nulled kvs V; all_fails (map_of kvs (lit ''allOf'')) V\<rbrakk> \<Longrightarrow> forbids (Jn_obj kvs) V"
  "\<lbrakk>\<not> nulled kvs V; any_fails (map_of kvs (lit ''anyOf'')) V\<rbrakk> \<Longrightarrow> forbids (Jn_obj kvs) V"
  "\<lbrakk>\<not> nulled kvs V; any_fails (map_of kvs (lit ''oneOf'')) V\<rbrakk> \<Longrightarrow> forbids (Jn_obj kvs) V"
  unfolding type_fails_def enum_fails_def const_fails_def all_fails_def any_fails_def
  by (blast intro: forbids.intros)+

lemma bounds_fail_forbids: "bounds_fail kvs V \<Longrightarrow> forbids (Jn_obj kvs) V"
  unfolding bounds_fail_def number_fails_def
  by (cases V) (auto intro: forbids.intros)

lemma structure_fails_forbids: "structure_fails kvs V \<Longrightarrow> forbids (Jn_obj kvs) V"
  unfolding structure_fails_def
  by (cases V) (auto intro: array_fails_forbids object_fails_forbids)

definition node_fails :: "(jstr \<times> json) list \<Rightarrow> json \<Rightarrow> bool" where
  "node_fails kvs V \<longleftrightarrow>
     type_fails (map_of kvs (lit ''type'')) V \<or> enum_fails (map_of kvs (lit ''enum'')) V
     \<or> const_fails (map_of kvs (lit ''const'')) V \<or> bounds_fail kvs V \<or> structure_fails kvs V
     \<or> all_fails (map_of kvs (lit ''allOf'')) V \<or> any_fails (map_of kvs (lit ''anyOf'')) V
     \<or> any_fails (map_of kvs (lit ''oneOf'')) V"

lemma forbids_fields:
  assumes "map_of fs k = Some V"
  shows "\<lbrakk>map_of kvs (lit ''properties'') = Some (Jn_obj ps); map_of ps k = Some S; forbids S V\<rbrakk>
           \<Longrightarrow> object_fails kvs fs"
    and "\<lbrakk>map_of kvs (lit ''additionalProperties'') = Some S; map_of kvs (lit ''patternProperties'') = None;
           k \<notin> declared_keys kvs; forbids S V\<rbrakk> \<Longrightarrow> object_fails kvs fs"
proof -
  assume a: "map_of kvs (lit ''properties'') = Some (Jn_obj ps)" "map_of ps k = Some S" "forbids S V"
  have "field_fails (Some ps) (map_of kvs (lit ''additionalProperties''))
          (map_of kvs (lit ''patternProperties'') \<noteq> None) k V"
    using a by (simp add: field_fails_def)
  then show "object_fails kvs fs" unfolding object_fails_def using a(1) assms by auto
next
  assume a: "map_of kvs (lit ''additionalProperties'') = Some S" "map_of kvs (lit ''patternProperties'') = None"
    "k \<notin> declared_keys kvs" "forbids S V"
  let ?ps = "case map_of kvs (lit ''properties'') of Some (Jn_obj ps) \<Rightarrow> Some ps | _ \<Rightarrow> None"
  have "(case ?ps of None \<Rightarrow> None | Some ps \<Rightarrow> map_of ps k) = None"
    using a(3) unfolding declared_keys_iff by (rule notnotD)
  then have "field_fails ?ps (map_of kvs (lit ''additionalProperties''))
          (map_of kvs (lit ''patternProperties'') \<noteq> None) k V"
    unfolding field_fails_def a(1,2) using a(4) by simp
  then show "object_fails kvs fs" unfolding object_fails_def using assms by blast
qed

lemma forbids_obj_iff: "forbids (Jn_obj kvs) V \<longleftrightarrow> \<not> nulled kvs V \<and> node_fails kvs V"
proof
  assume "forbids (Jn_obj kvs) V"
  then show "\<not> nulled kvs V \<and> node_fails kvs V"
  proof (cases rule: forbids.cases)
    case forbids_item
    then show ?thesis
      by (auto simp: nulled_def node_fails_def structure_fails_def array_fails_def)
  next
    case (forbids_required rs k fs)
    then show ?thesis
      by (auto simp: nulled_def node_fails_def structure_fails_def object_fails_def)
  next
    case (forbids_property ps k S fs v)
    then show ?thesis using forbids_fields(1) [of fs k v kvs ps S]
      by (simp add: nulled_def node_fails_def structure_fails_def)
  next
    case (forbids_additional S k fs v)
    then show ?thesis using forbids_fields(2) [of fs k v kvs S]
      by (simp add: nulled_def node_fails_def structure_fails_def)
  qed (simp_all add: node_fails_def type_fails_def enum_fails_def const_fails_def all_fails_def
        any_fails_def bounds_fail_def number_fails_def structure_fails_def array_fails_def nulled_def bexI)
next
  assume "\<not> nulled kvs V \<and> node_fails kvs V"
  then show "forbids (Jn_obj kvs) V"
    unfolding node_fails_def
    using fails_forbids bounds_fail_forbids structure_fails_forbids by blast
qed

lemma lite_node_parts:
  assumes "record_as h ob kvs" "plain_object ob" "reads_as h v V"
  shows "lite_node T h f ob v path st =
    (if nulled kvs V then Some (Enough, st)
     else
       next_part (plainly (get_prop ob (lit ''type'') \<bind> (\<lambda>type. checkType T h type v path)) st) (\<lambda>st.
       next_part (checkEnum T h ob v path st) (\<lambda>st.
       next_part (plainly (checkConst T ob v path) st) (\<lambda>st.
       next_part (plainly (check_bounds T ob v path) st) (\<lambda>st.
       next_part (check_structure T h f ob v path st) (\<lambda>st.
       next_part (check_allOf h f ob v path st) (\<lambda>st.
       next_part (check_any T h f ob (lit ''anyOf'') v path st) (\<lambda>st.
       check_any T h f ob (lit ''oneOf'') v path st))))))))"
proof -
  have nul: "v = JNull \<longleftrightarrow> V = Jn_null"
    using assms(3) by (cases v) (auto simp: reads_as_simps reads_as_obj_iff split: if_splits)
  obtain w where w: "get_prop ob (lit ''nullable'') = Some w" "reads_opt h w (map_of kvs (lit ''nullable''))"
    using keyword_read [OF assms(1,2) keyword_simps(1)] by blast
  have "w = JBool True \<longleftrightarrow> map_of kvs (lit ''nullable'') = Some (Jn_bool True)"
    using w(2) by (auto simp: reads_opt_def reads_as_simps reads_as_json_simps split: option.splits)
  then have "nulled kvs V \<longleftrightarrow> v = JNull \<and> w = JBool True" unfolding nulled_def nul by simp
  then show ?thesis unfolding lite_node_def w(1) by simp
qed

lemma judges_lite_node:
  assumes f: "exact_on n h f" and plain: "plain_heap h" and ob: "record_as h ob kvs" "plain_object ob"
    and v: "reads_as h v V" and "\<not> nulled kvs V"
  shows "judges (json_depth (Jn_obj kvs) \<le> Suc n \<and> small_arrays V) st
           (lite_node T h f ob v path st) (node_fails kvs V)"
proof -
  show ?thesis
    unfolding lite_node_parts [OF ob v] if_not_P [OF assms(6)] node_fails_def
    by (rule judges_next judges_checkType [OF ob v] judges_checkEnum [OF ob v] judges_checkConst [OF ob v]
        judges_check_bounds [OF ob v] judges_check_structure [OF f plain ob v]
        judges_check_allOf [OF f ob v] judges_check_any [OF f ob _ v] keyword_simps)+
qed

lemma judges_count_step:
  "judges inlim (count_step st) r bad \<Longrightarrow> judges inlim st r bad"
  by (auto simp: judges_def count_step_def)

lemma judges_settle:
  assumes "judges inlim st r bad"
  shows "judges inlim st (r \<bind> (\<lambda>(verdict, st2). Some (case verdict of Problem m \<Rightarrow> Problem m | _ \<Rightarrow> Pass, st2))) bad"
proof -
  obtain v st' where r: "r = Some (v, st')" "ls_steps st \<le> ls_steps st'"
    "(\<exists>m. v = Problem m) \<longrightarrow> bad"
    "inlim \<and> \<not> over_budget st' \<and> (\<forall>m. v \<noteq> Problem m) \<longrightarrow> v = Pass \<and> \<not> bad"
    using assms by (auto simp: judges_def)
  then show ?thesis by (cases v) (auto simp: judges_def)
qed

lemma liteCheck_exact:
  assumes plain: "plain_heap h"
  shows "exact_on n h (liteCheck n T h)"
proof (induction n)
  case 0
  show ?case
    by (auto simp: exact_on_def judges_def count_step_def)
next
  case (Suc n)
  show ?case unfolding exact_on_def
  proof (intro allI impI)
    fix schema v S V path st
    assume S: "reads_as h schema S" and V: "reads_as h v V"
    let ?st = "count_step st"
    let ?inlim = "json_depth S \<le> Suc n \<and> small_arrays V"
    obtain r where r: "isRecord h schema = Some r" "object_as h r (Some S)"
      using isRecord_reads [of h schema "Some S"] S by (auto simp: reads_opt_def)
    have step: "ls_steps st \<le> ls_steps ?st" by (simp add: count_step_def)
    show "judges ?inlim st (liteCheck (Suc n) T h schema v path st) (forbids S V)"
    proof (cases "over_budget ?st")
      case True
      then show ?thesis using step by (simp add: Let_def judges_over)
    next
      case False
      show ?thesis
      proof (cases "schema = JBool False")
        case True
        then show ?thesis using False S step
          by (auto simp: Let_def reads_as_simps judges_def intro: forbids_false)
      next
        case nf: False
        show ?thesis
        proof (cases r)
          case None
          then have "\<not> forbids S V" using r(2) nf S
            by (auto simp: object_as_def reads_as_json_simps dest!: forbids_shape)
          then have "judges ?inlim ?st (Some (Pass, ?st)) (forbids S V)" by (rule judges_pass)
          then show ?thesis using False nf r(1) None by (simp add: Let_def judges_count_step)
        next
          case (Some ob)
          then obtain kvs a where kvs: "S = Jn_obj kvs" "record_as h ob kvs" and "ob = h a"
            using r(2) by (auto simp: object_as_def split: json.splits)
          then have pl: "plain_object ob" using plain by (simp add: plain_heap_def)
          have eq: "liteCheck (Suc n) T h schema v path st =
              (lite_node T h (liteCheck n T h) ob v path ?st \<bind>
                (\<lambda>(verdict, st2). Some (case verdict of Problem m \<Rightarrow> Problem m | _ \<Rightarrow> Pass, st2)))"
            using False nf r(1) Some by (simp add: Let_def)
          show ?thesis
          proof (cases "nulled kvs V")
            case True
            then have "lite_node T h (liteCheck n T h) ob v path ?st = Some (Enough, ?st)"
              by (simp add: lite_node_parts [OF kvs(2) pl V])
            then have "liteCheck (Suc n) T h schema v path st = Some (Pass, ?st)" unfolding eq by simp
            then show ?thesis using True step by (auto simp: kvs(1) forbids_obj_iff judges_def)
          next
            case nn: False
            have "judges ?inlim ?st (lite_node T h (liteCheck n T h) ob v path ?st) (node_fails kvs V)"
              using judges_lite_node [OF Suc.IH plain kvs(2) pl V nn] kvs(1) by simp
            then have "judges ?inlim ?st (liteCheck (Suc n) T h schema v path st) (node_fails kvs V)"
              unfolding eq by (rule judges_settle)
            then show ?thesis using nn kvs(1) by (simp add: forbids_obj_iff judges_count_step)
          qed
        qed
      qed
    qed
  qed
qed

lemmas lite_parts =
  count_step_def over_budget_def LITE_MAX_STEPS_def isRecord_def is_array_def get_prop_def has_own_def own_keys_def
  next_part_def plainly_def checkType_def type_names_def array_of_def checkEnum_def checkConst_def
  check_bounds_def checkNumberBounds_def finiteNumber_def opt_test_def check_structure_def checkObject_def
  check_allOf_def check_any_def

text \<open>The work counted by the whole check: \<open>state.steps\<close> when it is over.\<close>

definition lite_work :: "(rat \<Rightarrow> jstr) \<Rightarrow> heap \<Rightarrow> addr list \<Rightarrow> js \<Rightarrow> js \<Rightarrow> nat" where
  "lite_work T h indexed schema v =
     (case liteCheck (LITE_MAX_DEPTH + 1) T h schema v [] \<lparr>ls_steps = 0, ls_indexed = indexed\<rparr> of
        Some (r, st) \<Rightarrow> ls_steps st
      | None \<Rightarrow> 0)"

text \<open>
  C9: on JSON data the check of edited tool arguments against a tool's JSON Schema refuses only
  what the schema forbids, whatever its limits do; and as long as the schema nests no deeper than
  \<open>LITE_MAX_DEPTH\<close> levels under its root, no array is longer than \<open>LITE_MAX_ITEMS\<close> and the work
  stays within \<open>LITE_MAX_STEPS\<close>, it refuses everything the schema's implemented keywords forbid.
\<close>

theorem lite_check_is_exact:
  assumes "plain_heap h" and "reads_as h schema S" and "reads_as h v V"
  shows "(checkJsonSchemaLite T h indexed schema v \<noteq> None \<longrightarrow> forbids S V)
     \<and> (json_depth S \<le> LITE_MAX_DEPTH + 1 \<and> small_arrays V
          \<and> lite_work T h indexed schema v \<le> LITE_MAX_STEPS \<and> forbids S V
        \<longrightarrow> checkJsonSchemaLite T h indexed schema v \<noteq> None)"
proof -
  let ?st = "\<lparr>ls_steps = 0, ls_indexed = indexed\<rparr>"
  have "judges (json_depth S \<le> LITE_MAX_DEPTH + 1 \<and> small_arrays V) ?st
      (liteCheck (LITE_MAX_DEPTH + 1) T h schema v [] ?st) (forbids S V)"
    by (rule exact_onD [OF liteCheck_exact [OF assms(1)] assms(2,3)])
  then obtain r st where run: "liteCheck (LITE_MAX_DEPTH + 1) T h schema v [] ?st = Some (r, st)"
    "(\<exists>m. r = Problem m) \<longrightarrow> forbids S V"
    "(json_depth S \<le> LITE_MAX_DEPTH + 1 \<and> small_arrays V) \<and> \<not> over_budget st \<and> (\<forall>m. r \<noteq> Problem m)
       \<longrightarrow> r = Pass \<and> \<not> forbids S V"
    unfolding judges_def by blast
  have "checkJsonSchemaLite T h indexed schema v \<noteq> None \<longleftrightarrow> (\<exists>m. r = Problem m)"
    unfolding checkJsonSchemaLite_def run(1) by (cases r) auto
  moreover have "lite_work T h indexed schema v = ls_steps st"
    unfolding lite_work_def run(1) by simp
  ultimately show ?thesis using run(2,3) unfolding over_budget_def by auto
qed

definition sample_schema_heap :: heap where
  "sample_schema_heap a =
     (if a = 2 then js_record [(lit ''properties'', Slot (JObj 3)), (lit ''required'', Slot (JObj 4))]
      else if a = 3 then js_record [(lit ''amount'', Slot (JObj 5))]
      else if a = 4 then js_array [Slot (JStr (lit ''amount''))]
      else if a = 5 then js_record [(lit ''minimum'', Slot (JNum (Fin 1)))]
      else if a = 6 then js_record [(lit ''amount'', Slot (JNum (Fin 0)))]
      else js_record [])"

definition sample_schema :: json where
  "sample_schema =
     Jn_obj [(lit ''properties'', Jn_obj [(lit ''amount'', Jn_obj [(lit ''minimum'', Jn_num 1)])]),
             (lit ''required'', Jn_arr [Jn_str (lit ''amount'')])]"

lemma schema_sample_plain: "plain_heap sample_schema_heap"
  by (simp add: plain_heap_def plain_object_def sample_schema_heap_def js_record_def js_array_def)

lemma schema_sample_reads:
  "reads_as sample_schema_heap (JObj 2) sample_schema"
  "reads_as sample_schema_heap (JObj 6) (Jn_obj [(lit ''amount'', Jn_num 0)])"
  unfolding sample_schema_def
  by (auto simp: reads_as_obj_iff record_as_def slots_as_def sample_schema_heap_def js_record_def js_array_def
      reads_as_simps)

lemma lite_check_is_exact_witness:
  "plain_heap sample_schema_heap
   \<and> lite_work (\<lambda>q. []) sample_schema_heap [] (JObj 2) (JObj 6) = 2
   \<and> forbids sample_schema (Jn_obj [(lit ''amount'', Jn_num 0)])
   \<and> checkJsonSchemaLite (\<lambda>q. []) sample_schema_heap [] (JObj 2) (JObj 6) \<noteq> None"
proof -
  have work: "lite_work (\<lambda>q. []) sample_schema_heap [] (JObj 2) (JObj 6) = 2"
  proof -
    have fuel: "LITE_MAX_DEPTH + 1 = Suc (Suc (Suc 30))" by (simp add: LITE_MAX_DEPTH_def)
    show ?thesis
      unfolding lite_work_def fuel liteCheck.simps lite_node_def
      by (simp add: lite_parts sample_schema_heap_def js_record_def js_array_def Let_def)
  qed
  have forbidden: "forbids sample_schema (Jn_obj [(lit ''amount'', Jn_num 0)])"
    unfolding sample_schema_def
    by (rule forbids_property [where k = "lit ''amount''"
            and ps = "[(lit ''amount'', Jn_obj [(lit ''minimum'', Jn_num 1)])]",
            OF _ _ _ forbids_minimum [where q = 1 and x = 0 and kvs = "[(lit ''minimum'', Jn_num 1)]"]]) simp_all
  have "json_depth sample_schema \<le> LITE_MAX_DEPTH + 1" "small_arrays (Jn_obj [(lit ''amount'', Jn_num 0)])"
    by (simp_all add: sample_schema_def LITE_MAX_DEPTH_def)
  then have "checkJsonSchemaLite (\<lambda>q. []) sample_schema_heap [] (JObj 2) (JObj 6) \<noteq> None"
    using lite_check_is_exact [OF schema_sample_plain schema_sample_reads, where T = "\<lambda>q. []" and indexed = "[]"]
      work forbidden by (simp add: LITE_MAX_STEPS_def)
  with schema_sample_plain work forbidden show ?thesis by blast
qed

end
