(* ===== verification/Tool_Edit.thy ===== *)
theory Tool_Edit
  imports Tool_Schema Loop_Canon Gate_Engine
begin

text \<open>
  The rest of \<open>packages/client/src/tool-edit.ts\<close>: the validator of an edited tool call
  (\<open>toolArgsValidator\<close>), the options of a tool gate, the arguments an accepted edit hands the call,
  and the short descriptions of a schema library's issues.

  Schemas are code of the host program: a check is a parameter of the model, a function on the
  world (the heap, the next free address, the \<open>WeakMap\<close> of merged arguments) that gives a verdict or
  throws. Promises are awaited in place: a verdict that comes later is the same verdict.
\<close>

section \<open>The world of a check\<close>

text \<open>\<open>wd_merged\<close>: the merged arguments behind the objects of accepted edits.\<close>

record world =
  wd_heap :: heap
  wd_next :: addr
  wd_merged :: "(addr \<times> js) list"

type_synonym schema_check = "world \<Rightarrow> js \<Rightarrow> bool \<Rightarrow> world \<times> validation option"

text \<open>\<open>{...base, ...proposed}\<close>: a new object.\<close>

definition new_object :: "(jstr \<times> js) list \<Rightarrow> world \<Rightarrow> js \<times> world" where
  "new_object ps w =
     (JObj (wd_next w),
      w\<lparr>wd_heap := (wd_heap w)(wd_next w := js_record (map (apsnd Slot) ps)), wd_next := wd_next w + 1\<rparr>)"

record args_options =
  ao_parsed :: bool
  ao_input :: js
  ao_runMerged :: bool

record tool_edit = args_options +
  te_args :: js
  te_check :: "schema_check option"

definition UNSERIALIZABLE :: jstr where "UNSERIALIZABLE = lit ''\"[unserializable]\"''"

definition PARSED_ONLY_MESSAGE :: string where
  "PARSED_ONLY_MESSAGE =
     ''this tool's schema changes arguments it has already parsed (a transform or coercion) and the '' @
     ''model's original arguments are not available here: edit every argument, or none''"

section \<open>The validator\<close>

definition isEditableToolInput :: "heap \<Rightarrow> js \<Rightarrow> bool" where
  "isEditableToolInput h v =
     (if v = JUndef then True
      else case isRecord h v of
             Some (Some ob) \<Rightarrow>
               (case get_proto ob of Some p \<Rightarrow> p = Object_proto \<or> p = Null_proto | None \<Rightarrow> False)
           | _ \<Rightarrow> False)"

definition sameArguments :: "digests \<Rightarrow> heap \<Rightarrow> js \<Rightarrow> js \<Rightarrow> bool" where
  "sameArguments D h a b =
     (let left = canonicalize D h a {} in left \<noteq> UNSERIALIZABLE \<and> left = canonicalize D h b {})"

definition rememberMerged :: "validation \<Rightarrow> js \<Rightarrow> world \<Rightarrow> world" where
  "rememberMerged verdict merged w =
     (case verdict of
        Val_ok (JObj a) \<Rightarrow> w\<lparr>wd_merged := AList.update a merged (wd_merged w)\<rparr>
      | _ \<Rightarrow> w)"

text \<open>What a validator answers: outer None, it never ends; inner None, it throws or rejects.\<close>

type_synonym edit_answer = "(world \<times> validation option) option"

fun val_ok :: "validation \<Rightarrow> bool" where
  "val_ok (Val_ok v) = True"
| "val_ok (Val_refused r) = False"

definition judge :: "schema_check option \<Rightarrow> bool \<Rightarrow> js \<Rightarrow> js \<Rightarrow> bool \<Rightarrow> world \<Rightarrow> edit_answer" where
  "judge check runMerged base proposed hidden w =
     (case mergeToolInput (wd_heap w) base proposed hidden of
        None \<Rightarrow> None
      | Some (Merge_refused r) \<Rightarrow> Some (w, Some (Val_refused r))
      | Some (Merge_ok ps) \<Rightarrow>
          (let (merged, w1) = new_object ps w
           in case check of
                None \<Rightarrow> Some (rememberMerged (Val_ok merged) merged w1, Some (Val_ok merged))
              | Some f \<Rightarrow>
                  (case f w1 merged hidden of
                     (w2, None) \<Rightarrow> Some (w2, None)
                   | (w2, Some verdict) \<Rightarrow>
                       (let final = (if val_ok verdict \<and> runMerged then Val_ok merged else verdict)
                        in Some (rememberMerged final merged w2, Some final)))))"

text \<open>\<open>parsesInto\<close>: the check, tried on a candidate, gives the parsed arguments.\<close>

definition parsesInto :: "digests \<Rightarrow> schema_check \<Rightarrow> js \<Rightarrow> js \<Rightarrow> bool \<Rightarrow> world \<Rightarrow> world \<times> bool" where
  "parsesInto D f candidate parsed hidden w =
     (case f w candidate hidden of
        (w1, Some (Val_ok v)) \<Rightarrow> (w1, sameArguments D (wd_heap w1) v parsed)
      | (w1, _) \<Rightarrow> (w1, False))"

fun owns_all :: "js_object \<Rightarrow> jstr list \<Rightarrow> bool option" where
  "owns_all ob [] = Some True"
| "owns_all ob (k # ks) = do { own \<leftarrow> has_own ob k; if own then owns_all ob ks else Some False }"

definition fullReplacement :: "heap \<Rightarrow> js \<Rightarrow> js \<Rightarrow> bool option" where
  "fullReplacement h liveArgs proposed =
     do { p \<leftarrow> isRecord h proposed;
          case p of
            None \<Rightarrow> Some False
          | Some pob \<Rightarrow>
              do { l \<leftarrow> isRecord h liveArgs;
                   case l of
                     None \<Rightarrow> Some True
                   | Some lob \<Rightarrow> do { keys \<leftarrow> own_keys lob; owns_all pob keys } } }"

text \<open>The branch for arguments the host parsed already.\<close>

definition judge_parsed ::
  "digests \<Rightarrow> schema_check \<Rightarrow> js \<Rightarrow> js \<Rightarrow> js \<Rightarrow> bool \<Rightarrow> world \<Rightarrow> edit_answer" where
  "judge_parsed D f liveArgs input proposed hidden w =
     (if hidden then judge (Some f) False liveArgs proposed hidden w
      else
        let (w1, byInput) = (if input = JUndef then (w, False) else parsesInto D f input liveArgs hidden w)
        in if byInput then judge (Some f) False input proposed hidden w1
           else
             let (w2, stable) = parsesInto D f liveArgs liveArgs hidden w1
             in if stable then judge (Some f) False liveArgs proposed hidden w2
                else case fullReplacement (wd_heap w2) liveArgs proposed of
                       None \<Rightarrow> Some (w2, None)
                     | Some True \<Rightarrow> judge (Some f) False liveArgs proposed hidden w2
                     | Some False \<Rightarrow>
                         Some (w2, Some (Val_refused (refuse Rc_unsupported PARSED_ONLY_MESSAGE))))"

definition toolArgsValidator ::
  "digests \<Rightarrow> js \<Rightarrow> schema_check option \<Rightarrow> 'z args_options_scheme \<Rightarrow> js \<Rightarrow> bool \<Rightarrow> world \<Rightarrow> edit_answer" where
  "toolArgsValidator D liveArgs check options proposed hidden w =
     (case check of
        Some f \<Rightarrow>
          (if \<not> ao_parsed options \<or> ao_runMerged options
           then judge check (ao_runMerged options) liveArgs proposed hidden w
           else judge_parsed D f liveArgs (ao_input options) proposed hidden w)
      | None \<Rightarrow> judge None (ao_runMerged options) liveArgs proposed hidden w)"

section \<open>Gates and decisions\<close>

record tool_gate =
  tg_editable :: bool
  tg_validateInput :: "(js \<Rightarrow> bool \<Rightarrow> world \<Rightarrow> edit_answer) option"
  tg_result :: "js option"

text \<open>\<open>edit\<close>: nothing, a plan, or a function that makes one.\<close>

datatype edit_source = No_edit | Edit_plan tool_edit | Edit_maker "world \<Rightarrow> tool_edit option \<times> world"

definition toolGateOptions ::
  "digests \<Rightarrow> bool \<Rightarrow> edit_source \<Rightarrow> js option \<Rightarrow> world \<Rightarrow> tool_gate option \<times> world" where
  "toolGateOptions D attached edit after w =
     (if \<not> attached then (None, w)
      else
        let (plan, w1) = (case edit of
                            No_edit \<Rightarrow> (None, w)
                          | Edit_plan p \<Rightarrow> (Some p, w)
                          | Edit_maker f \<Rightarrow> f w)
        in if Option.is_none plan \<and> Option.is_none after then (None, w1)
           else (Some \<lparr>tg_editable = (\<not> Option.is_none plan),
                       tg_validateInput =
                         map_option (\<lambda>p. toolArgsValidator D (te_args p) (te_check p) p) plan,
                       tg_result = after\<rparr>, w1))"

definition editedArgs :: "world \<Rightarrow> js decision \<Rightarrow> (js \<times> js option) option" where
  "editedArgs w d =
     (let found = (\<lambda>args. (args, case args of JObj a \<Rightarrow> map_of (wd_merged w) a | _ \<Rightarrow> None))
      in case d of
           D_continue (Some args) \<Rightarrow> Some (found args)
         | D_retry (Some args) \<Rightarrow> Some (found args)
         | _ \<Rightarrow> None)"

section \<open>Descriptions of issues\<close>

text \<open>\<open>/^[A-Za-z_][A-Za-z0-9_ -]{0,31}$/\<close>.\<close>

definition word_start :: "nat \<Rightarrow> bool" where
  "word_start c \<longleftrightarrow> 65 \<le> c \<and> c \<le> 90 \<or> 97 \<le> c \<and> c \<le> 122 \<or> c = 95"

definition issue_identifier :: "js \<Rightarrow> jstr option" where
  "issue_identifier v =
     (case v of
        JStr s \<Rightarrow>
          (if s \<noteq> [] \<and> word_start (hd s) \<and> length s \<le> 32
              \<and> list_all (\<lambda>c. word_start c \<or> is_digit c \<or> c = 32 \<or> c = 45) (tl s)
           then Some s else None)
      | _ \<Rightarrow> None)"

definition boundOf :: "(rat \<Rightarrow> jstr) \<Rightarrow> js \<Rightarrow> jstr option" where
  "boundOf T v = (case v of JBig i \<Rightarrow> Some (bigint_text i) | _ \<Rightarrow> map_option T (finiteNumber v))"

text \<open>One entry of an issue's path; \<open>desc\<close> is a symbol's description.\<close>

definition path_entry :: "(nat \<Rightarrow> jstr option) \<Rightarrow> heap \<Rightarrow> js \<Rightarrow> segment list option" where
  "path_entry desc h entry =
     do { r \<leftarrow> isRecord h entry;
          s \<leftarrow> (case r of
                 None \<Rightarrow> Some entry
               | Some ob \<Rightarrow> do { has \<leftarrow> has_prop ob (lit ''key'');
                                if has then get_prop ob (lit ''key'') else Some entry });
          Some (case s of
                  JNum n \<Rightarrow> [Seg_index n]
                | JStr k \<Rightarrow> [Seg_key k]
                | JSym y \<Rightarrow> [Seg_key (case desc y of Some d \<Rightarrow> d | None \<Rightarrow> lit ''symbol'')]
                | _ \<Rightarrow> []) }"

fun path_entries :: "(nat \<Rightarrow> jstr option) \<Rightarrow> heap \<Rightarrow> js_slot list \<Rightarrow> segment list option" where
  "path_entries desc h [] = Some []"
| "path_entries desc h (s # ss) =
     do { v \<leftarrow> read_slot s; p \<leftarrow> path_entry desc h v; ps \<leftarrow> path_entries desc h ss; Some (p @ ps) }"

definition readPath :: "(nat \<Rightarrow> jstr option) \<Rightarrow> heap \<Rightarrow> js \<Rightarrow> segment list option" where
  "readPath desc h raw =
     do { arr \<leftarrow> array_of h raw;
          case arr of
            None \<Rightarrow> Some []
          | Some (a, ob) \<Rightarrow> path_entries desc h (take 32 (jo_items ob)) }"

text \<open>
  An own property by a path segment: an element of an array by the text of its index, its length,
  or a string-keyed property. Outer None throws, inner None is absent.
\<close>

definition segment_key :: "(rat \<Rightarrow> jstr) \<Rightarrow> segment \<Rightarrow> jstr" where
  "segment_key T s = (case s of Seg_key k \<Rightarrow> k | Seg_index n \<Rightarrow> num_text T n)"

definition read_own :: "(rat \<Rightarrow> jstr) \<Rightarrow> js_object \<Rightarrow> jstr \<Rightarrow> js option option" where
  "read_own T ob key =
     (if jo_revoked ob then None
      else case (if jo_array ob then find (\<lambda>i. T (of_nat i) = key) [0..<length (jo_items ob)] else None) of
             Some i \<Rightarrow> map_option Some (read_slot (jo_items ob ! i))
           | None \<Rightarrow>
               (if jo_array ob \<and> key = lit ''length''
                then Some (Some (JNum (Fin (of_nat (length (jo_items ob))))))
                else do { own \<leftarrow> has_own ob key;
                          if own then map_option Some (get_prop ob key) else Some None }))"

fun valueAt :: "(rat \<Rightarrow> jstr) \<Rightarrow> heap \<Rightarrow> js \<Rightarrow> segment list \<Rightarrow> js option" where
  "valueAt T h current [] = Some current"
| "valueAt T h (JObj a) (s # path) =
     do { r \<leftarrow> read_own T (h a) (segment_key T s);
          case r of None \<Rightarrow> Some JUndef | Some v \<Rightarrow> valueAt T h v path }"
| "valueAt T h _ (s # path) = Some JUndef"

text \<open>\<open>issue_identifier(a) ?? issue_identifier(b)\<close>, on two properties.\<close>

definition first_identifier :: "js_object \<Rightarrow> string \<Rightarrow> string \<Rightarrow> jstr option option" where
  "first_identifier issue a b =
     do { x \<leftarrow> get_prop issue (lit a);
          case issue_identifier x of
            Some s \<Rightarrow> Some (Some s)
          | None \<Rightarrow> map_option issue_identifier (get_prop issue (lit b)) }"

definition sizeProblem :: "(rat \<Rightarrow> jstr) \<Rightarrow> js_object \<Rightarrow> bool \<Rightarrow> jstr option" where
  "sizeProblem T issue big =
     do { origin \<leftarrow> first_identifier issue ''origin'' ''type'';
          bound \<leftarrow> map_option (boundOf T) (get_prop issue (lit (if big then ''maximum'' else ''minimum'')));
          let limit = (case bound of
                         None \<Rightarrow> []
                       | Some b \<Rightarrow> lit '' ('' @ lit (if big then ''at most'' else ''at least'') @ 32 # b
                                   @ (if origin = Some (lit ''string'') then lit '' characters'' else []) @ lit '')'');
          Some (if origin = Some (lit ''string'')
                then lit (if big then ''is too long'' else ''is too short'') @ limit
                else if origin = Some (lit ''array'') \<or> origin = Some (lit ''set'')
                then lit (if big then ''has too many items'' else ''has too few items'') @ limit
                else if origin = Some (lit ''date'')
                then lit (if big then ''is too late'' else ''is too early'')
                else lit (if big then ''is too large'' else ''is too small'') @ limit) }"

text \<open>\<open>keys.filter\<close>: the strings of an array.\<close>

fun text_items :: "js_slot list \<Rightarrow> jstr list option" where
  "text_items [] = Some []"
| "text_items (s # ss) =
     do { v \<leftarrow> read_slot s; ts \<leftarrow> text_items ss;
          Some (case string_of v of Some t \<Rightarrow> t # ts | None \<Rightarrow> ts) }"

fun comma_list :: "jstr list \<Rightarrow> jstr" where
  "comma_list [] = []"
| "comma_list [t] = t"
| "comma_list (t # ts) = t @ lit '', '' @ comma_list ts"

definition unknown_keys_problem :: "jstr list \<Rightarrow> jstr" where
  "unknown_keys_problem keys =
     (if keys = [] then lit ''has keys the schema does not allow''
      else lit ''has '' @ lit (if length keys = 1 then ''a key'' else ''keys'')
        @ lit '' the schema does not allow: '' @ comma_list (map (\<lambda>k. quote (shortKey k)) (take 3 keys))
        @ (if 3 < length keys then lit '', '' @ [ELLIPSIS] else []))"

definition issueProblem :: "(rat \<Rightarrow> jstr) \<Rightarrow> heap \<Rightarrow> js_object \<Rightarrow> js \<Rightarrow> jstr option" where
  "issueProblem T h issue found =
     do { code \<leftarrow> get_prop issue (lit ''code'');
          let is = (\<lambda>n. code = JStr (lit n));
          if is ''invalid_type'' then
            do { expected \<leftarrow> map_option issue_identifier (get_prop issue (lit ''expected''));
                 if found = JUndef
                 then Some (case expected of
                        None \<Rightarrow> lit ''is required''
                      | Some e \<Rightarrow> lit ''is required ('' @ e @ lit '')'')
                 else do { got \<leftarrow> typeName h found;
                           Some (case expected of
                               None \<Rightarrow> lit ''has the wrong type ('' @ got @ lit '')''
                             | Some e \<Rightarrow> lit ''must be '' @ e @ lit '', got '' @ got) } }
          else if is ''too_small'' then sizeProblem T issue False
          else if is ''too_big'' then sizeProblem T issue True
          else if is ''invalid_value'' \<or> is ''invalid_enum_value'' \<or> is ''invalid_literal''
          then Some (lit ''is not one of the allowed values'')
          else if is ''unrecognized_keys'' then
            do { arr \<leftarrow> get_prop issue (lit ''keys'') \<bind> array_of h;
                 keys \<leftarrow> (case arr of None \<Rightarrow> Some [] | Some (a, ob) \<Rightarrow> text_items (jo_items ob));
                 Some (unknown_keys_problem keys) }
          else if is ''invalid_format'' \<or> is ''invalid_string'' then
            do { format \<leftarrow> first_identifier issue ''format'' ''validation'';
                 Some (case format of
                     None \<Rightarrow> lit ''is not in the expected format''
                   | Some f \<Rightarrow> lit ''is not a valid '' @ f) }
          else if is ''not_multiple_of'' then
            do { x \<leftarrow> map_option (boundOf T) (get_prop issue (lit ''divisor''));
                 divisor \<leftarrow> (case x of
                     Some d \<Rightarrow> Some (Some d)
                   | None \<Rightarrow> map_option (boundOf T) (get_prop issue (lit ''multipleOf'')));
                 Some (case divisor of
                     None \<Rightarrow> lit ''is not an allowed multiple''
                   | Some d \<Rightarrow> lit ''is not a multiple of '' @ d) }
          else if is ''invalid_union'' \<or> is ''invalid_union_discriminator''
          then Some (lit ''does not match any of the allowed shapes'')
          else if is ''invalid_date'' then Some (lit ''is not a valid date'')
          else if is ''not_finite'' then Some (lit ''must be a finite number'')
          else if is ''custom'' then Some (lit ''failed a check in the tool's schema'')
          else Some (lit ''is invalid'') }"

definition more_problems :: "(rat \<Rightarrow> jstr) \<Rightarrow> nat \<Rightarrow> jstr" where
  "more_problems T n =
     (if 1 < n
      then lit '' (and '' @ T (of_nat (n - 1)) @ lit '' more problem'' @ lit (if 2 < n then ''s'' else []) @ lit '')''
      else [])"

text \<open>What describing a list of issues gives before the \<open>catch\<close>; \<open>v\<close> is the checked value.\<close>

definition describe_first ::
  "(nat \<Rightarrow> jstr option) \<Rightarrow> (rat \<Rightarrow> jstr) \<Rightarrow> heap \<Rightarrow> js_slot list \<Rightarrow> js \<Rightarrow> jstr option" where
  "describe_first desc T h issues v =
     (case issues of
        [] \<Rightarrow> Some GENERIC_SCHEMA_MESSAGE
      | s # _ \<Rightarrow>
          do { first \<leftarrow> read_slot s;
               r \<leftarrow> isRecord h first;
               case r of
                 None \<Rightarrow> Some GENERIC_SCHEMA_MESSAGE
               | Some ob \<Rightarrow>
                   do { path \<leftarrow> get_prop ob (lit ''path'') \<bind> readPath desc h;
                        found \<leftarrow> valueAt T h v path;
                        p \<leftarrow> issueProblem T h ob found;
                        Some (case sanitizeShortText
                                (JStr (where_is T path @ 32 # p @ more_problems T (length issues))) of
                              Some m \<Rightarrow> m
                            | None \<Rightarrow> GENERIC_SCHEMA_MESSAGE) } })"

definition describeIssues ::
  "(nat \<Rightarrow> jstr option) \<Rightarrow> (rat \<Rightarrow> jstr) \<Rightarrow> heap \<Rightarrow> js \<Rightarrow> js \<Rightarrow> jstr" where
  "describeIssues desc T h issues v =
     (case array_of h issues of
        Some (Some (a, ob)) \<Rightarrow>
          (case describe_first desc T h (jo_items ob) v of Some m \<Rightarrow> m | None \<Rightarrow> GENERIC_SCHEMA_MESSAGE)
      | _ \<Rightarrow> GENERIC_SCHEMA_MESSAGE)"

text \<open>\<open>Array.isArray(object.issues)\<close>.\<close>

definition issues_of :: "heap \<Rightarrow> js_object \<Rightarrow> js option option" where
  "issues_of h ob =
     do { issues \<leftarrow> get_prop ob (lit ''issues'');
          arr \<leftarrow> array_of h issues;
          Some (if Option.is_none arr then None else Some issues) }"

text \<open>The array of issues an error carries: itself, its \<open>issues\<close>, its \<open>cause\<close> or the cause's \<open>issues\<close>.\<close>

definition error_issues :: "heap \<Rightarrow> addr \<Rightarrow> js option option" where
  "error_issues h a =
     do { self \<leftarrow> array_of h (JObj a);
          if \<not> Option.is_none self then Some (Some (JObj a))
          else do { issues \<leftarrow> issues_of h (h a);
                    case issues of
                      Some i \<Rightarrow> Some (Some i)
                    | None \<Rightarrow>
                        do { cause \<leftarrow> get_prop (h a) (lit ''cause'');
                             arr \<leftarrow> array_of h cause;
                             if \<not> Option.is_none arr then Some (Some cause)
                             else case cause of JObj b \<Rightarrow> issues_of h (h b) | _ \<Rightarrow> Some None } } }"

definition describeValidationError ::
  "(nat \<Rightarrow> jstr option) \<Rightarrow> (rat \<Rightarrow> jstr) \<Rightarrow> heap \<Rightarrow> js \<Rightarrow> js \<Rightarrow> jstr" where
  "describeValidationError desc T h error v =
     (case error of
        JObj a \<Rightarrow>
          (case error_issues h a of
             Some (Some issues) \<Rightarrow> describeIssues desc T h issues v
           | _ \<Rightarrow> GENERIC_SCHEMA_MESSAGE)
      | _ \<Rightarrow> GENERIC_SCHEMA_MESSAGE)"

section \<open>Checks from schemas\<close>

definition schema_refusal :: "jstr \<Rightarrow> validation" where
  "schema_refusal m = Val_refused \<lparr>er_code = Rc_schema, er_message = Some m\<rparr>"

text \<open>None throws.\<close>

definition fromSafeParse ::
  "(nat \<Rightarrow> jstr option) \<Rightarrow> (rat \<Rightarrow> jstr) \<Rightarrow> heap \<Rightarrow> js \<Rightarrow> js \<Rightarrow> validation option" where
  "fromSafeParse desc T h result v =
     do { r \<leftarrow> isRecord h result;
          case r of
            None \<Rightarrow> Some (schema_refusal (describeValidationError desc T h JUndef v))
          | Some ob \<Rightarrow>
              do { success \<leftarrow> get_prop ob (lit ''success'');
                   if success = JBool True then map_option Val_ok (get_prop ob (lit ''data''))
                   else do { error \<leftarrow> get_prop ob (lit ''error'');
                             Some (schema_refusal (describeValidationError desc T h error v)) } } }"

definition fromStandardResult ::
  "(nat \<Rightarrow> jstr option) \<Rightarrow> (rat \<Rightarrow> jstr) \<Rightarrow> heap \<Rightarrow> js \<Rightarrow> js \<Rightarrow> validation option" where
  "fromStandardResult desc T h result v =
     do { r \<leftarrow> isRecord h result;
          case r of
            None \<Rightarrow> Some (schema_refusal GENERIC_SCHEMA_MESSAGE)
          | Some ob \<Rightarrow>
              do { issues \<leftarrow> get_prop ob (lit ''issues'');
                   arr \<leftarrow> array_of h issues;
                   if (case arr of Some (a, iob) \<Rightarrow> jo_items iob \<noteq> [] | None \<Rightarrow> False)
                   then Some (schema_refusal (describeIssues desc T h issues v))
                   else do { has \<leftarrow> has_prop ob (lit ''value'');
                             if has then map_option Val_ok (get_prop ob (lit ''value''))
                             else Some (schema_refusal GENERIC_SCHEMA_MESSAGE) } } }"

definition JSON_SCHEMA_KEYWORDS :: "jstr list" where
  "JSON_SCHEMA_KEYWORDS = map lit
     [''type'', ''properties'', ''required'', ''additionalProperties'', ''items'', ''enum'', ''const'',
      ''anyOf'', ''oneOf'', ''allOf'', ''$schema'']"

fun owns_some :: "js_object \<Rightarrow> jstr list \<Rightarrow> bool option" where
  "owns_some ob [] = Some False"
| "owns_some ob (k # ks) = do { own \<leftarrow> has_own ob k; if own then Some True else owns_some ob ks }"

definition looksLikeJsonSchema :: "js_object \<Rightarrow> bool option" where
  "looksLikeJsonSchema ob = owns_some ob JSON_SCHEMA_KEYWORDS"

text \<open>
  The schema's own code: \<open>invoke\<close> calls the method of an object, by name, on a value; None throws.
  \<open>fob\<close> holds the properties of a schema that is a function, \<open>indexed\<close> is what the cache of enums
  knows at the time of a check.
\<close>

record schema_code =
  sc_invoke :: "js \<Rightarrow> string \<Rightarrow> world \<Rightarrow> js \<Rightarrow> world \<times> js option"
  sc_function :: js_object
  sc_indexed :: "world \<Rightarrow> addr list"
  sc_number :: "rat \<Rightarrow> jstr"
  sc_symbol :: "nat \<Rightarrow> jstr option"

definition method_check ::
  "schema_code \<Rightarrow> (heap \<Rightarrow> js \<Rightarrow> js \<Rightarrow> validation option) \<Rightarrow> js \<Rightarrow> string \<Rightarrow> schema_check" where
  "method_check C read this name w v hidden =
     (case sc_invoke C this name w v of
        (w1, None) \<Rightarrow> (w1, None)
      | (w1, Some result) \<Rightarrow> (w1, read (wd_heap w1) result v))"

definition is_function :: "js \<Rightarrow> bool" where
  "is_function v = (case v of JFun \<Rightarrow> True | _ \<Rightarrow> False)"

definition schema_object :: "schema_code \<Rightarrow> heap \<Rightarrow> js \<Rightarrow> js_object option" where
  "schema_object C h schema =
     (case schema of JObj a \<Rightarrow> Some (h a) | JFun \<Rightarrow> Some (sc_function C) | _ \<Rightarrow> None)"

definition schema_check_of :: "schema_code \<Rightarrow> heap \<Rightarrow> js \<Rightarrow> js_object \<Rightarrow> schema_check option option" where
  "schema_check_of C h schema ob =
     do { safeParseAsync \<leftarrow> get_prop ob (lit ''safeParseAsync'');
          if is_function safeParseAsync
          then Some (Some (method_check C (fromSafeParse (sc_symbol C) (sc_number C)) schema ''safeParseAsync''))
          else do { safeParse \<leftarrow> get_prop ob (lit ''safeParse'');
            if is_function safeParse
            then Some (Some (method_check C (fromSafeParse (sc_symbol C) (sc_number C)) schema ''safeParse''))
            else do { standard \<leftarrow> get_prop ob (lit ''~standard'');
              r \<leftarrow> isRecord h standard;
              validate \<leftarrow> (case r of None \<Rightarrow> Some JUndef | Some sob \<Rightarrow> get_prop sob (lit ''validate''));
              if is_function validate
              then Some (Some (method_check C (fromStandardResult (sc_symbol C) (sc_number C)) standard ''validate''))
              else do { s \<leftarrow> isRecord h schema;
                json \<leftarrow> (case s of None \<Rightarrow> Some False | Some sob \<Rightarrow> looksLikeJsonSchema sob);
                Some (if json
                      then Some (\<lambda>w v hidden.
                             (w, Some (jsonSchemaLiteCheck (sc_number C) (wd_heap w) (sc_indexed C w) schema v)))
                      else None) } } } }"

definition toolSchemaCheck :: "schema_code \<Rightarrow> heap \<Rightarrow> js \<Rightarrow> schema_check option" where
  "toolSchemaCheck C h schema =
     (case schema_object C h schema of
        None \<Rightarrow> None
      | Some ob \<Rightarrow> (case schema_check_of C h schema ob of Some c \<Rightarrow> c | None \<Rightarrow> None))"

section \<open>An accepted edit is parsed once\<close>

lemma merge_ok_parts:
  assumes "mergeToolInput h base (JObj a) hidden = Some (Merge_ok ps)"
  shows "merge_props h base (h a) hidden = Some ps" "\<not> jo_revoked (h a)" "\<not> jo_array (h a)"
  using assms
  by (auto simp: mergeToolInput_def Let_def isRecord_def is_array_def get_proto_def
      split: if_splits js_proto.splits option.splits pollution.splits)

lemma judge_accepts:
  assumes "judge (Some f) False base proposed hidden w = Some (w', Some (Val_ok v))"
  obtains ps where "mergeToolInput (wd_heap w) base proposed hidden = Some (Merge_ok ps)"
    "snd (f (snd (new_object ps w)) (fst (new_object ps w)) hidden) = Some (Val_ok v)"
    "w' = rememberMerged (Val_ok v) (fst (new_object ps w))
       (fst (f (snd (new_object ps w)) (fst (new_object ps w)) hidden))"
  using assms
  by (auto simp: judge_def Let_def split: option.splits merged.splits prod.splits)

lemma edited_remembered:
  "editedArgs (rememberMerged (Val_ok (JObj b)) merged w) (D_continue (Some (JObj b)))
     = Some (JObj b, Some merged)"
  by (simp add: editedArgs_def rememberMerged_def update_conv')

lemma owns_all_iff: "owns_all ob ks = Some True \<Longrightarrow> k \<in> set ks \<Longrightarrow> has_own ob k = Some True"
  by (induction ks) (auto simp: bind_eq_Some_conv split: if_splits)

lemma own_value_readable:
  assumes "merge_props h base ob hidden = Some ps" "k \<in> fst ` set (jo_own ob)"
  shows "own_value ob k \<noteq> None"
proof -
  obtain p where p: "spread ob = Some p"
    using assms(1) by (auto simp: merge_props_def bind_eq_Some_conv)
  have "map fst p = map fst (jo_own ob)" using spread_lookup [OF p] by blast
  then have "k \<in> fst ` set p" using assms(2) by (metis set_map)
  then show ?thesis using spread_lookup [OF p, of k] by (metis map_of_eq_None_iff)
qed

text \<open>A full replacement, and an edit of a hidden input, keep nothing of the live arguments.\<close>

lemma merged_is_proposal:
  assumes m: "mergeToolInput h liveArgs (JObj a) hidden = Some (Merge_ok ps)"
    and plain: "jo_hidden (h a) = []" "distinct (map fst (jo_own (h a)))"
    and full: "hidden \<or> fullReplacement h liveArgs (JObj a) = Some True"
  shows "map_of ps k = own_value (h a) k"
proof (cases "own_value (h a) k")
  case (Some x)
  then show ?thesis using merge_props_lookup [OF merge_ok_parts(1) [OF m] plain(2), of k] by simp
next
  case None
  then have notin: "k \<notin> fst ` set (jo_own (h a))"
    using own_value_readable [OF merge_ok_parts(1) [OF m]] by blast
  show ?thesis
  proof (cases "hidden")
    case True
    then show ?thesis
      using None merge_props_lookup [OF merge_ok_parts(1) [OF m] plain(2), of k] by simp
  next
    case False
    then have f: "fullReplacement h liveArgs (JObj a) = Some True" using full by simp
    have "own_value l k = None" if l: "isRecord h liveArgs = Some (Some l)" for l
    proof -
      obtain keys where keys: "own_keys l = Some keys" "owns_all (h a) keys = Some True"
        using f l merge_ok_parts(2,3) [OF m]
        by (auto simp: fullReplacement_def isRecord_def is_array_def bind_eq_Some_conv split: js.splits)
      have "k \<notin> set keys"
        using owns_all_iff [OF keys(2), of k] notin plain(1) by (auto simp: has_own_def split: if_splits)
      then show ?thesis using keys(1)
        by (auto simp: own_keys_def own_value_def iffD2 [OF map_of_eq_None_iff] split: if_splits)
    qed
    then show ?thesis
      using None False merge_props_lookup [OF merge_ok_parts(1) [OF m] plain(2), of k]
      by (auto split: option.splits)
  qed
qed

definition quiet_at :: "schema_check \<Rightarrow> addr \<Rightarrow> bool" where
  "quiet_at f a \<longleftrightarrow> (\<forall>w x hidden. wd_heap (fst (f w x hidden)) a = wd_heap w a)"

lemma parsesInto_quiet:
  "quiet_at f a \<Longrightarrow> wd_heap (fst (parsesInto D f c p hidden w)) a = wd_heap w a"
proof -
  assume "quiet_at f a"
  then have "wd_heap (fst (f w c hidden)) a = wd_heap w a" by (simp add: quiet_at_def)
  then show ?thesis
    by (auto simp: parsesInto_def split: prod.split option.split validation.split)
qed

text \<open>Which base an accepted edit was merged into.\<close>

definition base_is_fit ::
  "digests \<Rightarrow> schema_check \<Rightarrow> js \<Rightarrow> js \<Rightarrow> bool \<Rightarrow> addr \<Rightarrow> js_object \<Rightarrow> js \<Rightarrow> (jstr \<times> js) list \<Rightarrow> bool" where
  "base_is_fit D f liveArgs input hidden a proposal base ps \<longleftrightarrow>
     (\<forall>k. map_of ps k = own_value proposal k)
     \<or> \<not> hidden \<and> base \<in> {input, liveArgs} \<and> (\<exists>w. snd (parsesInto D f base liveArgs False w))"

lemma judge_parsed_accepts:
  assumes "judge_parsed D f liveArgs input (JObj a) hidden w = Some (w', Some (Val_ok v))"
    and "quiet_at f a" and plain: "jo_hidden (wd_heap w a) = []" "distinct (map fst (jo_own (wd_heap w a)))"
  obtains base ps w0 where "judge (Some f) False base (JObj a) hidden w0 = Some (w', Some (Val_ok v))"
    "mergeToolInput (wd_heap w0) base (JObj a) hidden = Some (Merge_ok ps)"
    "base_is_fit D f liveArgs input hidden a (wd_heap w a) base ps"
proof -
  note found = that
  have pick: thesis
    if j: "judge (Some f) False base (JObj a) hidden w0 = Some (w', Some (Val_ok v))"
      and same: "wd_heap w0 a = wd_heap w a"
      and why: "base = liveArgs \<and> (hidden \<or> fullReplacement (wd_heap w0) liveArgs (JObj a) = Some True)
         \<or> \<not> hidden \<and> base \<in> {input, liveArgs} \<and> (\<exists>w. snd (parsesInto D f base liveArgs False w))"
    for base w0
  proof -
    obtain ps where ps: "mergeToolInput (wd_heap w0) base (JObj a) hidden = Some (Merge_ok ps)"
      using judge_accepts [OF j] by blast
    have "base_is_fit D f liveArgs input hidden a (wd_heap w a) base ps"
      using why
    proof
      assume "base = liveArgs \<and> (hidden \<or> fullReplacement (wd_heap w0) liveArgs (JObj a) = Some True)"
      then have "map_of ps k = own_value (wd_heap w0 a) k" for k
        using merged_is_proposal [of "wd_heap w0" liveArgs a hidden ps k] ps plain same by simp
      then show ?thesis using same by (simp add: base_is_fit_def)
    qed (simp add: base_is_fit_def)
    then show thesis by (rule found [OF j ps])
  qed
  show thesis
  proof (cases hidden)
    case True
    then show thesis using assms(1) by (intro pick) (auto simp: judge_parsed_def)
  next
    case nh: False
    then have hf: "hidden = False" by simp
    obtain w1 byInput where
      w1: "(if input = JUndef then (w, False) else parsesInto D f input liveArgs False w) = (w1, byInput)"
      by (metis surj_pair)
    have h1: "wd_heap w1 a = wd_heap w a"
      using w1 parsesInto_quiet [OF assms(2)] by (metis fst_conv)
    obtain w2 stable where w2: "parsesInto D f liveArgs liveArgs False w1 = (w2, stable)" by (metis surj_pair)
    have h2: "wd_heap w2 a = wd_heap w a"
      using h1 w2 parsesInto_quiet [OF assms(2)] by (metis fst_conv)
    have run: "(if byInput then judge (Some f) False input (JObj a) hidden w1
        else if stable then judge (Some f) False liveArgs (JObj a) hidden w2
        else case fullReplacement (wd_heap w2) liveArgs (JObj a) of
               None \<Rightarrow> Some (w2, None)
             | Some True \<Rightarrow> judge (Some f) False liveArgs (JObj a) hidden w2
             | Some False \<Rightarrow> Some (w2, Some (Val_refused (refuse Rc_unsupported PARSED_ONLY_MESSAGE))))
        = Some (w', Some (Val_ok v))"
      using assms(1) unfolding judge_parsed_def Let_def hf w1 if_False prod.case w2 .
    show thesis
    proof (cases byInput)
      case True
      then have "snd (parsesInto D f input liveArgs False w)" using w1 by (auto split: if_splits)
      moreover have "judge (Some f) False input (JObj a) hidden w1 = Some (w', Some (Val_ok v))"
        using run True by simp
      ultimately show thesis using h1 nh by (intro pick [of input w1]) auto
    next
      case nb: False
      show thesis
      proof (cases stable)
        case True
        then have "snd (parsesInto D f liveArgs liveArgs False w1)" using w2 by simp
        moreover have "judge (Some f) False liveArgs (JObj a) hidden w2 = Some (w', Some (Val_ok v))"
          using run nb True by simp
        ultimately show thesis using h2 nh by (intro pick [of liveArgs w2]) auto
      next
        case False
        then show thesis using run nb h2
          by (intro pick [of liveArgs w2]) (auto split: option.splits bool.splits)
      qed
    qed
  qed
qed

text \<open>
  C29: An accepted edit of arguments the host has parsed already never runs the schema's transforms
  twice on a value the user did not touch. The check ran exactly on the merged arguments, whose
  other keys come from a base that the check was seen to parse into the live arguments (the model's
  raw arguments, or the live ones when parsing leaves them alone); failing that, every merged key
  is the edit's own. The merged arguments stay available behind the accepted value.
\<close>

theorem transforms_never_run_twice:
  assumes "toolArgsValidator D liveArgs (Some f) options (JObj a) hidden w = Some (w', Some (Val_ok v))"
    and "ao_parsed options" "\<not> ao_runMerged options"
    and "quiet_at f a" "jo_hidden (wd_heap w a) = []" "distinct (map fst (jo_own (wd_heap w a)))"
  shows "\<exists>base ps w0 merged w1.
     mergeToolInput (wd_heap w0) base (JObj a) hidden = Some (Merge_ok ps)
     \<and> new_object ps w0 = (merged, w1) \<and> snd (f w1 merged hidden) = Some (Val_ok v)
     \<and> ((\<forall>k. map_of ps k = own_value (wd_heap w a) k)
        \<or> \<not> hidden \<and> base \<in> {ao_input options, liveArgs}
          \<and> (\<exists>w2. snd (parsesInto D f base liveArgs False w2)))
     \<and> (case v of JObj b \<Rightarrow> editedArgs w' (D_continue (Some v)) = Some (v, Some merged) | _ \<Rightarrow> True)"
proof -
  have "judge_parsed D f liveArgs (ao_input options) (JObj a) hidden w = Some (w', Some (Val_ok v))"
    using assms(1-3) by (simp add: toolArgsValidator_def)
  then obtain base ps' w0 where j: "judge (Some f) False base (JObj a) hidden w0 = Some (w', Some (Val_ok v))"
    and ps': "mergeToolInput (wd_heap w0) base (JObj a) hidden = Some (Merge_ok ps')"
    and fit: "base_is_fit D f liveArgs (ao_input options) hidden a (wd_heap w a) base ps'"
    by (rule judge_parsed_accepts [OF _ assms(4-6)])
  obtain ps where ps: "mergeToolInput (wd_heap w0) base (JObj a) hidden = Some (Merge_ok ps)"
    "snd (f (snd (new_object ps w0)) (fst (new_object ps w0)) hidden) = Some (Val_ok v)"
    "w' = rememberMerged (Val_ok v) (fst (new_object ps w0))
       (fst (f (snd (new_object ps w0)) (fst (new_object ps w0)) hidden))"
    using judge_accepts [OF j] by blast
  have "ps' = ps" using ps' ps(1) by simp
  moreover have "case v of JObj b \<Rightarrow> editedArgs w' (D_continue (Some v)) = Some (v, Some (fst (new_object ps w0))) | _ \<Rightarrow> True"
    using edited_remembered ps(3) by (simp split: js.split)
  ultimately show ?thesis
    using ps(1,2) fit unfolding base_is_fit_def by (metis prod.collapse)
qed

text \<open>A check that takes what it is given; the live arguments are a price, the edit changes it.\<close>

definition taking_check :: schema_check where
  "taking_check w v hidden = (w, Some (Val_ok v))"

definition price_world :: world where
  "price_world =
     \<lparr>wd_heap = (\<lambda>a. if a = 0 then js_record [(lit ''price'', Slot (JBool True)), (lit ''unit'', Slot JNull)]
                     else if a = 2 then js_record [(lit ''price'', Slot (JBool False))] else js_record []),
      wd_next = 7, wd_merged = []\<rparr>"

lemma price_world_clean: "pollutionPath (wd_heap price_world) 2 = Some Pl_clean"
  by (simp add: pollutionPath_def pollution_loop.simps visit_node_def has_own_def constructor_path_def
      children_def price_world_def js_record_def)

theorem transforms_never_run_twice_witness:
  "\<exists>w' v. toolArgsValidator sample_digests (JObj 0) (Some taking_check)
       \<lparr>ao_parsed = True, ao_input = JUndef, ao_runMerged = False\<rparr> (JObj 2) False price_world
       = Some (w', Some (Val_ok v))
     \<and> v = JObj 7
     \<and> (\<exists>m. editedArgs w' (D_continue (Some v)) = Some (v, Some m))"
proof -
  let ?o = "\<lparr>ao_parsed = True, ao_input = JUndef, ao_runMerged = False\<rparr>"
  have same: "sameArguments sample_digests (wd_heap price_world) (JObj 0) (JObj 0)"
    by (simp add: sameArguments_def canonicalize_def price_world_def js_record_def sorted_keys_def
        UNSERIALIZABLE_def bool_text_def get_prop_def)
  obtain w' where run: "toolArgsValidator sample_digests (JObj 0) (Some taking_check) ?o (JObj 2) False price_world
       = Some (w', Some (Val_ok (JObj 7)))"
    using same price_world_clean
    by (simp add: toolArgsValidator_def judge_parsed_def judge_def parsesInto_def taking_check_def
        mergeToolInput_def isRecord_def is_array_def get_proto_def merge_props_def spread_def new_object_def
        Let_def price_world_def js_record_def)
  have q: "quiet_at taking_check 2" by (simp add: quiet_at_def taking_check_def)
  have "\<exists>m. editedArgs w' (D_continue (Some (JObj 7))) = Some (JObj 7, Some m)"
    using transforms_never_run_twice [OF run _ _ q] by (auto simp: price_world_def js_record_def)
  with run show ?thesis by blast
qed

section \<open>Descriptions never quote a value\<close>

text \<open>The path of the first issue.\<close>

definition issue_path :: "(nat \<Rightarrow> jstr option) \<Rightarrow> heap \<Rightarrow> js \<Rightarrow> segment list option" where
  "issue_path desc h issues =
     (case array_of h issues of
        Some (Some (a, ob)) \<Rightarrow>
          (case jo_items ob of
             [] \<Rightarrow> None
           | s # _ \<Rightarrow>
               do { first \<leftarrow> read_slot s;
                    r \<leftarrow> isRecord h first;
                    case r of
                      None \<Rightarrow> None
                    | Some iob \<Rightarrow> get_prop iob (lit ''path'') \<bind> readPath desc h })
      | _ \<Rightarrow> None)"

text \<open>What a description may tell of the value at a path: whether it can be read, and its type.\<close>

definition type_at :: "(rat \<Rightarrow> jstr) \<Rightarrow> heap \<Rightarrow> js \<Rightarrow> segment list \<Rightarrow> jstr option option" where
  "type_at T h v path = map_option (typeName h) (valueAt T h v path)"

lemma issueProblem_by_type:
  assumes "typeName h x = typeName h y"
  shows "issueProblem T h issue x = issueProblem T h issue y"
proof -
  have "x = JUndef \<longleftrightarrow> typeName h x = Some (lit ''nothing'')" for x
    by (cases x) (auto simp: typeName_def is_array_def)
  then have undefined_iff: "x = JUndef \<longleftrightarrow> y = JUndef" using assms by simp
  show ?thesis unfolding issueProblem_def assms undefined_iff by (rule refl)
qed

lemma describe_first_by_type:
  assumes "\<And>s ss first iob path. \<lbrakk>issues = s # ss; read_slot s = Some first;
      isRecord h first = Some (Some iob); get_prop iob (lit ''path'') \<bind> readPath desc h = Some path\<rbrakk>
      \<Longrightarrow> type_at T h x path = type_at T h y path"
  shows "describe_first desc T h issues x = describe_first desc T h issues y"
proof (cases issues)
  case (Cons s ss)
  show ?thesis
  proof (cases "read_slot s \<bind> isRecord h")
    case None
    then show ?thesis by (cases "read_slot s") (simp_all add: describe_first_def Cons)
  next
    case (Some r)
    then obtain first where first: "read_slot s = Some first" "isRecord h first = Some r"
      by (auto simp: bind_eq_Some_conv)
    show ?thesis
    proof (cases r)
      case None
      then show ?thesis using first by (simp add: describe_first_def Cons)
    next
      case iob: (Some iob)
      show ?thesis
      proof (cases "get_prop iob (lit ''path'') \<bind> readPath desc h")
        case None
        then show ?thesis unfolding describe_first_def Cons list.case first iob bind.simps option.case None
          by simp
      next
        case path: (Some path)
        have eq: "type_at T h x path = type_at T h y path"
          using assms [OF Cons first(1) _ path] first(2) iob by simp
        show ?thesis
        proof (cases "valueAt T h x path")
          case None
          then have "valueAt T h y path = None" using eq by (auto simp: type_at_def)
          then show ?thesis
            unfolding describe_first_def Cons list.case first iob bind.simps option.case path None by simp
        next
          case vx: (Some fx)
          then obtain fy where vy: "valueAt T h y path = Some fy" "typeName h fx = typeName h fy"
            using eq by (cases "valueAt T h y path") (auto simp: type_at_def)
          show ?thesis
            unfolding describe_first_def Cons list.case first iob bind.simps option.case path vx vy(1)
              issueProblem_by_type [OF vy(2)] by (rule refl)
        qed
      qed
    qed
  qed
qed (simp add: describe_first_def)

lemma generic_is_wire_text: "wire_text GENERIC_SCHEMA_MESSAGE"
  by (simp add: wire_text_def GENERIC_SCHEMA_MESSAGE_def MAX_REFUSAL_MESSAGE_def unprintable_def)

lemma describe_first_wire_text: "describe_first desc T h issues v = Some m \<Longrightarrow> wire_text m"
  using generic_is_wire_text sanitized_is_wire_text
  by (auto simp: describe_first_def bind_eq_Some_conv split: list.splits option.splits)

text \<open>
  C36: What is said of a schema library's issues never quotes a value: two values that have the same
  type at the first issue's path get the same message, whatever they hold, whatever the library put
  into its issues. And the message is 1 to 200 code units without control or bidi characters.
\<close>

theorem issue_messages_hide_values:
  assumes "\<And>path. issue_path desc h issues = Some path \<Longrightarrow> type_at T h x path = type_at T h y path"
  shows "describeIssues desc T h issues x = describeIssues desc T h issues y
    \<and> 0 < length (describeIssues desc T h issues x)
    \<and> length (describeIssues desc T h issues x) \<le> MAX_REFUSAL_MESSAGE
    \<and> list_all (\<lambda>c. \<not> unprintable c) (describeIssues desc T h issues x)"
proof -
  have same: "describeIssues desc T h issues x = describeIssues desc T h issues y"
  proof (cases "array_of h issues")
    case (Some r)
    show ?thesis
    proof (cases r)
      case r: (Some p)
      obtain a ob where p: "p = (a, ob)" by (cases p)
      have "describe_first desc T h (jo_items ob) x = describe_first desc T h (jo_items ob) y"
        by (rule describe_first_by_type) (rule assms, simp add: issue_path_def Some r p)
      then show ?thesis by (simp add: describeIssues_def Some r p)
    qed (simp add: describeIssues_def Some)
  qed (simp add: describeIssues_def)
  have "wire_text (describeIssues desc T h issues x)"
    using generic_is_wire_text describe_first_wire_text
    by (auto simp: describeIssues_def split: option.splits)
  then show ?thesis using same by (simp add: wire_text_def list_all_iff)
qed

definition issue_heap :: heap where
  "issue_heap a =
     (if a = 2 then js_array [Slot (JObj 3)]
      else if a = 3 then js_record [(lit ''code'', Slot (JStr (lit ''invalid_type''))),
             (lit ''path'', Slot (JObj 4)), (lit ''message'', Slot (JStr (lit ''got hunter2'')))]
      else if a = 4 then js_array [Slot (JStr (lit ''pin''))]
      else if a = 5 then js_record [(lit ''pin'', Slot (JStr (lit ''hunter2'')))]
      else js_record [(lit ''pin'', Slot (JStr []))])"

theorem issue_messages_hide_values_witness:
  "issue_path (\<lambda>n. None) issue_heap (JObj 2) = Some [Seg_key (lit ''pin'')]
   \<and> describeIssues (\<lambda>n. None) (\<lambda>q. []) issue_heap (JObj 2) (JObj 5)
       = describeIssues (\<lambda>n. None) (\<lambda>q. []) issue_heap (JObj 2) (JObj 6)"
proof -
  have path: "issue_path (\<lambda>n. None) issue_heap (JObj 2) = Some [Seg_key (lit ''pin'')]"
    by (simp add: issue_path_def array_of_def is_array_def isRecord_def get_prop_def readPath_def
        path_entry_def issue_heap_def js_record_def js_array_def)
  have "type_at (\<lambda>q. []) issue_heap (JObj 5) [Seg_key (lit ''pin'')]
      = type_at (\<lambda>q. []) issue_heap (JObj 6) [Seg_key (lit ''pin'')]"
    by (simp add: type_at_def read_own_def segment_key_def has_own_def get_prop_def typeName_def
        issue_heap_def js_record_def js_array_def)
  then show ?thesis
    using issue_messages_hide_values [where x = "JObj 5" and y = "JObj 6" and T = "\<lambda>q. []"
        and h = issue_heap and desc = "\<lambda>n. None" and issues = "JObj 2"] path by simp
qed

end
