(* ===== verification/Transport.thy ===== *)
theory Transport
  imports Js_Text
begin

text \<open>
  \<open>packages/client/src/transport.ts\<close>: the class \<open>Transport\<close>. Every method and every listener is a
  function from the transport to the transport and what it does to the outside, in order; the
  sockets, the timers and the session call them as events, in any order, with what can fail
  (the constructor, a send, building the hello) as an argument. The timers of the runtime are
  modelled as they are: \<open>setTimeout\<close> gives a fresh handle, only a cleared handle never fires, and
  an overwritten handle stays pending.

  The hooks are the session's: it guards them, so they do not throw, and while a detachment is
  announced it only sends, which does nothing then.
\<close>

section \<open>Options, state and effects\<close>

text \<open>\<open>to_impl\<close>: a WebSocket implementation is available. Times in ms.\<close>

record transport_options =
  to_impl :: bool
  to_connectTimeout :: rat
  to_handshakeTimeout :: rat
  to_retryInterval :: rat

datatype transport_state = Ts_idle | Ts_connecting | Ts_attached | Ts_disposed

type_synonym sock = nat

datatype timer = Open_timer sock | Ack_timer sock | Retry_timer

record pending_timer =
  pt_id :: nat
  pt_timer :: timer
  pt_delay :: rat

text \<open>The fields of the class; then the runtime: timers pending, next handle, next socket.\<close>

record transport =
  tp_state :: transport_state
  tp_started :: bool
  tp_ws :: "sock option"
  tp_retryTimer :: "nat option"
  tp_openTimer :: "nat option"
  tp_ackTimer :: "nat option"
  tp_fast :: nat
  tp_pending :: "pending_timer list"
  tp_nextTimer :: nat
  tp_nextSock :: sock

text \<open>A parsed envelope: its type, \<open>payload.versions.protocol\<close> when it is an ack, the rest.\<close>

record 'b wire_envelope =
  we_type :: string
  we_protocol :: int
  we_body :: 'b

datatype 'b parse_result =
    Pr_version_mismatch
  | Pr_invalid
  | Pr_unknown_type
  | Pr_known "'b wire_envelope"

datatype 'b effect =
    Fx_warn string
  | Fx_open sock
  | Fx_hello sock
  | Fx_frame sock jstr
  | Fx_close sock bool
  | Fx_timer timer rat
  | Fx_attached 'b
  | Fx_detached
  | Fx_control "'b wire_envelope"

type_synonym 'b tp_result = "transport \<times> 'b effect list"

definition FAST_RETRY_STEPS :: "rat list" where
  "FAST_RETRY_STEPS = [200, 400, 800]"

definition PROTOCOL_VERSION :: int where "PROTOCOL_VERSION = 1"

definition transport_new :: transport where
  "transport_new =
     \<lparr>tp_state = Ts_idle, tp_started = False, tp_ws = None, tp_retryTimer = None,
      tp_openTimer = None, tp_ackTimer = None, tp_fast = length FAST_RETRY_STEPS,
      tp_pending = [], tp_nextTimer = 0, tp_nextSock = 0\<rparr>"

definition attached :: "transport \<Rightarrow> bool" where
  "attached t \<longleftrightarrow> tp_state t = Ts_attached"

text \<open>A step, then another on its result.\<close>

definition also_then :: "'b tp_result \<Rightarrow> (transport \<Rightarrow> 'b tp_result) \<Rightarrow> 'b tp_result" where
  "also_then r f = (let (t', fx') = f (fst r) in (t', snd r @ fx'))"

section \<open>The runtime's timers\<close>

definition set_timeout :: "timer \<Rightarrow> rat \<Rightarrow> transport \<Rightarrow> transport" where
  "set_timeout tm d t =
     t\<lparr>tp_pending := tp_pending t @ [\<lparr>pt_id = tp_nextTimer t, pt_timer = tm, pt_delay = d\<rparr>],
       tp_nextTimer := Suc (tp_nextTimer t)\<rparr>"

definition clear_timeout :: "nat option \<Rightarrow> transport \<Rightarrow> transport" where
  "clear_timeout handle t = t\<lparr>tp_pending := filter (\<lambda>p. Some (pt_id p) \<noteq> handle) (tp_pending t)\<rparr>"

definition clearAttemptTimers :: "transport \<Rightarrow> transport" where
  "clearAttemptTimers t =
     (clear_timeout (tp_ackTimer t) (clear_timeout (tp_openTimer t) t))\<lparr>tp_openTimer := None, tp_ackTimer := None\<rparr>"

definition clearTimers :: "transport \<Rightarrow> transport" where
  "clearTimers t =
     (let t1 = clearAttemptTimers t
      in (clear_timeout (tp_retryTimer t1) t1)\<lparr>tp_retryTimer := None\<rparr>)"

section \<open>Retrying and losing a connection\<close>

text \<open>The delay, and the index afterwards.\<close>

definition nextRetryDelay :: "transport_options \<Rightarrow> transport \<Rightarrow> rat \<times> nat" where
  "nextRetryDelay opts t =
     (if tp_fast t < length FAST_RETRY_STEPS
      then (min (FAST_RETRY_STEPS ! tp_fast t) (to_retryInterval opts), tp_fast t + 1)
      else (to_retryInterval opts, tp_fast t))"

definition scheduleRetry :: "transport_options \<Rightarrow> transport \<Rightarrow> 'b tp_result" where
  "scheduleRetry opts t =
     (if tp_state t = Ts_disposed \<or> \<not> tp_started t \<or> tp_retryTimer t \<noteq> None then (t, [])
      else let (d, fast) = nextRetryDelay opts t
           in ((set_timeout Retry_timer d t)\<lparr>tp_fast := fast, tp_retryTimer := Some (tp_nextTimer t)\<rparr>,
               [Fx_timer Retry_timer d]))"

definition handleClose :: "transport_options \<Rightarrow> sock \<Rightarrow> transport \<Rightarrow> 'b tp_result" where
  "handleClose opts ws t =
     (if Some ws \<noteq> tp_ws t \<or> tp_state t = Ts_disposed then (t, [])
      else let wasAttached = (tp_state t = Ts_attached);
               t1 = (clearAttemptTimers t)\<lparr>tp_ws := None, tp_state := Ts_idle\<rparr>;
               t2 = (if wasAttached then t1\<lparr>tp_fast := 0\<rparr> else t1)
           in also_then (t2, if wasAttached then [Fx_detached] else []) (scheduleRetry opts))"

definition abandon :: "transport_options \<Rightarrow> sock \<Rightarrow> transport \<Rightarrow> 'b tp_result" where
  "abandon opts ws t = also_then (t, [Fx_close ws False]) (handleClose opts ws)"

section \<open>Connecting\<close>

text \<open>\<open>ctor_ok\<close>: the constructor of the socket returns.\<close>

definition connect :: "transport_options \<Rightarrow> bool \<Rightarrow> transport \<Rightarrow> 'b tp_result" where
  "connect opts ctor_ok t =
     (if tp_state t \<noteq> Ts_idle then (t, [])
      else if \<not> to_impl opts then (t, [Fx_warn ''transport-no-impl''])
      else if \<not> ctor_ok
      then also_then (t\<lparr>tp_state := Ts_idle\<rparr>, [Fx_warn ''transport-connect'']) (scheduleRetry opts)
      else let ws = tp_nextSock t;
               t1 = t\<lparr>tp_state := Ts_connecting, tp_ws := Some ws, tp_nextSock := Suc ws\<rparr>
           in ((set_timeout (Open_timer ws) (to_connectTimeout opts) t1)\<lparr>tp_openTimer := Some (tp_nextTimer t1)\<rparr>,
               [Fx_open ws, Fx_timer (Open_timer ws) (to_connectTimeout opts)]))"

definition start :: "transport_options \<Rightarrow> bool \<Rightarrow> transport \<Rightarrow> 'b tp_result" where
  "start opts ctor_ok t =
     (if tp_started t \<or> tp_state t = Ts_disposed then (t, [])
      else connect opts ctor_ok (t\<lparr>tp_started := True\<rparr>))"

definition kick :: "transport_options \<Rightarrow> bool \<Rightarrow> transport \<Rightarrow> 'b tp_result" where
  "kick opts ctor_ok t =
     (if tp_state t = Ts_disposed then (t, [])
      else if \<not> tp_started t then start opts ctor_ok t
      else if tp_state t \<noteq> Ts_idle then (t, [])
      else connect opts ctor_ok ((clear_timeout (tp_retryTimer t) t)\<lparr>tp_retryTimer := None\<rparr>))"

text \<open>\<open>send_ok\<close>: the socket's \<open>send\<close> returns. The flag is what \<open>send\<close> answers.\<close>

definition send :: "transport_options \<Rightarrow> jstr \<Rightarrow> bool \<Rightarrow> transport \<Rightarrow> bool \<times> 'b tp_result" where
  "send opts json send_ok t =
     (case tp_ws t of
        Some ws \<Rightarrow>
          if tp_state t \<noteq> Ts_attached then (False, t, [])
          else if send_ok then (True, t, [Fx_frame ws json])
          else (False, also_then (t, [Fx_warn ''transport-send'']) (handleClose opts ws))
      | None \<Rightarrow> (False, t, []))"

definition dispose :: "transport \<Rightarrow> 'b tp_result" where
  "dispose t =
     (if tp_state t = Ts_disposed then (t, [])
      else ((clearTimers (t\<lparr>tp_state := Ts_disposed\<rparr>))\<lparr>tp_ws := None\<rparr>,
            (case tp_ws t of Some ws \<Rightarrow> [Fx_close ws True] | None \<Rightarrow> [])))"

section \<open>The listeners\<close>

text \<open>\<open>hello_ok\<close>: the hello can be built and sent.\<close>

definition on_open :: "transport_options \<Rightarrow> sock \<Rightarrow> bool \<Rightarrow> transport \<Rightarrow> 'b tp_result" where
  "on_open opts ws hello_ok t =
     (if Some ws \<noteq> tp_ws t \<or> tp_state t \<noteq> Ts_connecting then (t, [])
      else let t1 = (clear_timeout (tp_openTimer t) t)\<lparr>tp_openTimer := None\<rparr>
           in if \<not> hello_ok then also_then (t1, [Fx_warn ''transport-hello'']) (abandon opts ws)
              else ((set_timeout (Ack_timer ws) (to_handshakeTimeout opts) t1)\<lparr>tp_ackTimer := Some (tp_nextTimer t1)\<rparr>,
                    [Fx_hello ws, Fx_timer (Ack_timer ws) (to_handshakeTimeout opts)]))"

text \<open>What a frame can carry; a Buffer and an ArrayBuffer are decoded by the runtime.\<close>

datatype frame_data = Fd_text jstr | Fd_bytes "nat list" | Fd_other

definition coerceFrameText :: "(nat list \<Rightarrow> jstr) \<Rightarrow> frame_data \<Rightarrow> jstr option" where
  "coerceFrameText utf8 data =
     (case data of Fd_text s \<Rightarrow> Some s | Fd_bytes b \<Rightarrow> Some (utf8 b) | Fd_other \<Rightarrow> None)"

definition on_envelope :: "transport_options \<Rightarrow> sock \<Rightarrow> 'b wire_envelope \<Rightarrow> transport \<Rightarrow> 'b tp_result" where
  "on_envelope opts ws e t =
     (if tp_state t = Ts_connecting then
        (if we_type e \<noteq> ''hello.ack'' then (t, [])
         else let t1 = (clear_timeout (tp_ackTimer t) t)\<lparr>tp_ackTimer := None\<rparr>
              in if we_protocol e \<noteq> PROTOCOL_VERSION
                 then also_then (t1, [Fx_warn ''transport-version'']) (abandon opts ws)
                 else (t1\<lparr>tp_state := Ts_attached\<rparr>, [Fx_attached (we_body e)]))
      else if tp_state t = Ts_attached then (t, [Fx_control e])
      else (t, []))"

definition handleMessage ::
  "(nat list \<Rightarrow> jstr) \<Rightarrow> (jstr \<Rightarrow> 'b parse_result) \<Rightarrow> transport_options \<Rightarrow> sock \<Rightarrow> frame_data
    \<Rightarrow> transport \<Rightarrow> 'b tp_result" where
  "handleMessage utf8 parse opts ws data t =
     (if Some ws \<noteq> tp_ws t \<or> tp_state t = Ts_disposed then (t, [])
      else case coerceFrameText utf8 data of
             None \<Rightarrow> (t, [])
           | Some text \<Rightarrow>
               (case parse text of
                  Pr_version_mismatch \<Rightarrow> also_then (t, [Fx_warn ''transport-version'']) (abandon opts ws)
                | Pr_invalid \<Rightarrow> (t, [Fx_warn ''transport-invalid''])
                | Pr_unknown_type \<Rightarrow> (t, [])
                | Pr_known e \<Rightarrow> on_envelope opts ws e t))"

text \<open>The callbacks of the three timers.\<close>

definition openTimeout :: "transport_options \<Rightarrow> sock \<Rightarrow> transport \<Rightarrow> 'b tp_result" where
  "openTimeout opts ws t = also_then (t, [Fx_warn ''transport-timeout'']) (abandon opts ws)"

definition ackTimeout :: "transport_options \<Rightarrow> sock \<Rightarrow> transport \<Rightarrow> 'b tp_result" where
  "ackTimeout opts ws t = also_then (t, [Fx_warn ''transport-ack-timeout'']) (abandon opts ws)"

definition retryTimeout :: "transport_options \<Rightarrow> bool \<Rightarrow> transport \<Rightarrow> 'b tp_result" where
  "retryTimeout opts ctor_ok t = connect opts ctor_ok (t\<lparr>tp_retryTimer := None\<rparr>)"

declare openTimeout_def [simp] ackTimeout_def [simp] retryTimeout_def [simp]

text \<open>A timer fires: it is no longer pending, and its callback runs.\<close>

definition on_timer :: "transport_options \<Rightarrow> nat \<Rightarrow> bool \<Rightarrow> transport \<Rightarrow> 'b tp_result" where
  "on_timer opts i ctor_ok t =
     (case find (\<lambda>p. pt_id p = i) (tp_pending t) of
        None \<Rightarrow> (t, [])
      | Some p \<Rightarrow>
          (let t1 = t\<lparr>tp_pending := filter (\<lambda>q. pt_id q \<noteq> i) (tp_pending t)\<rparr>
           in case pt_timer p of
                Open_timer ws \<Rightarrow> openTimeout opts ws t1
              | Ack_timer ws \<Rightarrow> ackTimeout opts ws t1
              | Retry_timer \<Rightarrow> retryTimeout opts ctor_ok t1))"

section \<open>Runs\<close>

datatype transport_event =
    Do_start bool
  | Do_kick bool
  | Do_send jstr bool
  | Do_dispose
  | On_open sock bool
  | On_message sock frame_data
  | On_close sock
  | On_timer nat bool

fun transport_step ::
  "(nat list \<Rightarrow> jstr) \<Rightarrow> (jstr \<Rightarrow> 'b parse_result) \<Rightarrow> transport_options \<Rightarrow> transport_event
    \<Rightarrow> transport \<Rightarrow> 'b tp_result" where
  "transport_step utf8 parse opts (Do_start ok) t = start opts ok t"
| "transport_step utf8 parse opts (Do_kick ok) t = kick opts ok t"
| "transport_step utf8 parse opts (Do_send json ok) t = snd (send opts json ok t)"
| "transport_step utf8 parse opts Do_dispose t = dispose t"
| "transport_step utf8 parse opts (On_open ws ok) t = on_open opts ws ok t"
| "transport_step utf8 parse opts (On_message ws data) t = handleMessage utf8 parse opts ws data t"
| "transport_step utf8 parse opts (On_close ws) t = handleClose opts ws t"
| "transport_step utf8 parse opts (On_timer i ok) t = on_timer opts i ok t"

text \<open>The transport and everything it did since it was made.\<close>

definition transport_run ::
  "(nat list \<Rightarrow> jstr) \<Rightarrow> (jstr \<Rightarrow> 'b parse_result) \<Rightarrow> transport_options \<Rightarrow> transport_event list \<Rightarrow> 'b tp_result" where
  "transport_run utf8 parse opts es =
     fold (\<lambda>e r. also_then r (transport_step utf8 parse opts e)) es (transport_new, [])"

section \<open>The invariant\<close>

text \<open>A pending timer with this handle.\<close>

definition runs :: "transport \<Rightarrow> nat \<Rightarrow> timer \<Rightarrow> bool" where
  "runs t i tm \<longleftrightarrow> (\<exists>p \<in> set (tp_pending t). pt_id p = i \<and> pt_timer p = tm)"

text \<open>Every pending retry is the one in the field, and due within the interval.\<close>

definition retry_ok :: "transport_options \<Rightarrow> transport \<Rightarrow> bool" where
  "retry_ok opts t \<longleftrightarrow>
     (\<forall>p \<in> set (tp_pending t). pt_timer p = Retry_timer
        \<longrightarrow> tp_retryTimer t = Some (pt_id p) \<and> pt_delay p \<le> to_retryInterval opts)"

definition ids_ok :: "transport \<Rightarrow> bool" where
  "ids_ok t \<longleftrightarrow> distinct (map pt_id (tp_pending t)) \<and> (\<forall>p \<in> set (tp_pending t). pt_id p < tp_nextTimer t)
     \<and> (\<forall>i. tp_openTimer t = Some i \<or> tp_ackTimer t = Some i \<or> tp_retryTimer t = Some i
          \<longrightarrow> i < tp_nextTimer t)"

fun phase_ok :: "transport_options \<Rightarrow> transport \<Rightarrow> transport_state \<Rightarrow> bool" where
  "phase_ok opts t Ts_idle \<longleftrightarrow>
     tp_ws t = None
     \<and> (case tp_retryTimer t of
          Some i \<Rightarrow> tp_started t \<and> runs t i Retry_timer
        | None \<Rightarrow> \<not> tp_started t \<or> \<not> to_impl opts)"
| "phase_ok opts t Ts_connecting \<longleftrightarrow>
     tp_started t \<and> tp_retryTimer t = None
     \<and> (\<exists>ws i. tp_ws t = Some ws
          \<and> (tp_openTimer t = Some i \<and> runs t i (Open_timer ws)
             \<or> tp_ackTimer t = Some i \<and> runs t i (Ack_timer ws)))"
| "phase_ok opts t Ts_attached \<longleftrightarrow> tp_started t \<and> tp_retryTimer t = None \<and> tp_ws t \<noteq> None"
| "phase_ok opts t Ts_disposed \<longleftrightarrow> tp_retryTimer t = None \<and> tp_ws t = None"

definition transport_ok :: "transport_options \<Rightarrow> transport \<Rightarrow> bool" where
  "transport_ok opts t \<longleftrightarrow> retry_ok opts t \<and> ids_ok t \<and> phase_ok opts t (tp_state t)"

text \<open>What the bookkeeping of timers does to what is pending.\<close>

lemma clear_timeout_fields [simp]:
  "tp_state (clear_timeout h t) = tp_state t" "tp_started (clear_timeout h t) = tp_started t"
  "tp_ws (clear_timeout h t) = tp_ws t" "tp_retryTimer (clear_timeout h t) = tp_retryTimer t"
  "tp_openTimer (clear_timeout h t) = tp_openTimer t" "tp_ackTimer (clear_timeout h t) = tp_ackTimer t"
  "tp_fast (clear_timeout h t) = tp_fast t" "tp_nextTimer (clear_timeout h t) = tp_nextTimer t"
  "tp_nextSock (clear_timeout h t) = tp_nextSock t"
  "tp_pending (clear_timeout h t) = filter (\<lambda>p. Some (pt_id p) \<noteq> h) (tp_pending t)"
  by (simp_all add: clear_timeout_def)

lemma set_timeout_fields [simp]:
  "tp_state (set_timeout tm d t) = tp_state t" "tp_started (set_timeout tm d t) = tp_started t"
  "tp_ws (set_timeout tm d t) = tp_ws t" "tp_retryTimer (set_timeout tm d t) = tp_retryTimer t"
  "tp_openTimer (set_timeout tm d t) = tp_openTimer t" "tp_ackTimer (set_timeout tm d t) = tp_ackTimer t"
  "tp_fast (set_timeout tm d t) = tp_fast t" "tp_nextTimer (set_timeout tm d t) = Suc (tp_nextTimer t)"
  "tp_nextSock (set_timeout tm d t) = tp_nextSock t"
  "tp_pending (set_timeout tm d t)
     = tp_pending t @ [\<lparr>pt_id = tp_nextTimer t, pt_timer = tm, pt_delay = d\<rparr>]"
  by (simp_all add: set_timeout_def)

lemma distinct_map_filter: "distinct (map f xs) \<Longrightarrow> distinct (map f (filter P xs))"
  by (induction xs) auto

lemma attempt_timers_fields [simp]:
  "tp_state (clearAttemptTimers t) = tp_state t" "tp_started (clearAttemptTimers t) = tp_started t"
  "tp_ws (clearAttemptTimers t) = tp_ws t" "tp_retryTimer (clearAttemptTimers t) = tp_retryTimer t"
  "tp_openTimer (clearAttemptTimers t) = None" "tp_ackTimer (clearAttemptTimers t) = None"
  "tp_fast (clearAttemptTimers t) = tp_fast t" "tp_nextTimer (clearAttemptTimers t) = tp_nextTimer t"
  "tp_nextSock (clearAttemptTimers t) = tp_nextSock t"
  "set (tp_pending (clearAttemptTimers t))
     = {p \<in> set (tp_pending t). Some (pt_id p) \<noteq> tp_openTimer t \<and> Some (pt_id p) \<noteq> tp_ackTimer t}"
  by (auto simp: clearAttemptTimers_def)

lemma attempt_timers_distinct:
  "distinct (map pt_id (tp_pending t)) \<Longrightarrow> distinct (map pt_id (tp_pending (clearAttemptTimers t)))"
  by (simp add: clearAttemptTimers_def distinct_map_filter)

lemma nextRetryDelay_le: "fst (nextRetryDelay opts t) \<le> to_retryInterval opts"
  by (simp add: nextRetryDelay_def)

text \<open>A retry is scheduled from an idle state without one.\<close>

lemma scheduleRetry_ok:
  assumes "retry_ok opts t" "ids_ok t" "tp_state t = Ts_idle" "tp_ws t = None" "tp_started t"
    and "tp_retryTimer t = None"
  shows "transport_ok opts (fst (scheduleRetry opts t :: 'b tp_result))"
proof -
  obtain d f where d: "nextRetryDelay opts t = (d, f)" by (cases "nextRetryDelay opts t")
  then have "d \<le> to_retryInterval opts" using nextRetryDelay_le [of opts t] by simp
  with assms d show ?thesis
    by (auto simp: transport_ok_def scheduleRetry_def retry_ok_def ids_ok_def runs_def)
qed

lemma handleClose_ok:
  assumes "retry_ok opts t" "ids_ok t" and "tp_ws t = Some ws \<longrightarrow> tp_retryTimer t = None \<and> tp_started t"
    and "tp_ws t \<noteq> Some ws \<longrightarrow> phase_ok opts t (tp_state t)" and "tp_state t \<noteq> Ts_disposed \<or> tp_ws t = None"
  shows "transport_ok opts (fst (handleClose opts ws t :: 'b tp_result))"
proof (cases "Some ws \<noteq> tp_ws t")
  case True
  with assms show ?thesis by (auto simp: handleClose_def transport_ok_def)
next
  case False
  define t' where "t' = (let t1 = (clearAttemptTimers t)\<lparr>tp_ws := None, tp_state := Ts_idle\<rparr>
     in if tp_state t = Ts_attached then t1\<lparr>tp_fast := 0\<rparr> else t1)"
  have "tp_state t' = Ts_idle" "tp_ws t' = None" "tp_started t'" "tp_retryTimer t' = None"
    using False assms(3) by (auto simp: t'_def Let_def)
  moreover have "retry_ok opts t'" "ids_ok t'"
    using assms(1,2) attempt_timers_distinct [of t] by (auto simp: t'_def Let_def retry_ok_def ids_ok_def)
  ultimately have "transport_ok opts (fst (scheduleRetry opts t' :: 'b tp_result))"
    by (intro scheduleRetry_ok)
  moreover have "fst (handleClose opts ws t :: 'b tp_result) = fst (scheduleRetry opts t' :: 'b tp_result)"
    using False assms(5) by (auto simp: handleClose_def t'_def also_then_def Let_def split: prod.split)
  ultimately show ?thesis by simp
qed

lemma also_then_simps [simp]:
  "fst (also_then r f) = fst (f (fst r))" "snd (also_then r f) = snd r @ snd (f (fst r))"
  by (simp_all add: also_then_def split: prod.split)

text \<open>Fewer timers, and a field forgotten, keep the bookkeeping in order.\<close>

lemma fewer_timers:
  assumes "retry_ok opts t" "ids_ok t" and "tp_pending t' = filter P (tp_pending t)"
    and "tp_nextTimer t' = tp_nextTimer t"
    and "tp_openTimer t' \<in> {None, tp_openTimer t}" "tp_ackTimer t' \<in> {None, tp_ackTimer t}"
    and "tp_retryTimer t' = tp_retryTimer t"
  shows "retry_ok opts t'" "ids_ok t'"
  using assms by (auto simp: retry_ok_def ids_ok_def distinct_map_filter)

lemma connect_ok:
  assumes "retry_ok opts t" "ids_ok t"
    and "tp_state t = Ts_idle \<Longrightarrow> tp_ws t = None \<and> tp_started t \<and> tp_retryTimer t = None"
    and "tp_state t \<noteq> Ts_idle \<Longrightarrow> phase_ok opts t (tp_state t)"
  shows "transport_ok opts (fst (connect opts ok t :: 'b tp_result))"
proof (cases "tp_state t = Ts_idle")
  case False
  with assms show ?thesis by (simp add: connect_def transport_ok_def)
next
  case True
  with assms(3) have idle: "tp_ws t = None" "tp_started t" "tp_retryTimer t = None" by auto
  show ?thesis
  proof (cases "to_impl opts \<and> \<not> ok")
    case True
    have "transport_ok opts (fst (scheduleRetry opts (t\<lparr>tp_state := Ts_idle\<rparr>) :: 'b tp_result))"
      using assms(1,2) idle by (intro scheduleRetry_ok) (simp_all add: retry_ok_def ids_ok_def)
    with True \<open>tp_state t = Ts_idle\<close> show ?thesis
      by (simp add: connect_def)
  next
    case False
    with assms(1,2) idle True show ?thesis
      by (auto simp: connect_def Let_def transport_ok_def retry_ok_def ids_ok_def runs_def)
  qed
qed

lemma start_ok:
  assumes "transport_ok opts t"
  shows "transport_ok opts (fst (start opts ok t :: 'b tp_result))"
proof (cases "tp_started t \<or> tp_state t = Ts_disposed")
  case True
  with assms show ?thesis by (simp add: start_def)
next
  case False
  with assms have "transport_ok opts (fst (connect opts ok (t\<lparr>tp_started := True\<rparr>) :: 'b tp_result))"
    by (intro connect_ok)
      (auto simp: transport_ok_def retry_ok_def ids_ok_def runs_def split: option.splits, cases "tp_state t", auto)
  with False show ?thesis by (simp add: start_def)
qed

lemma kick_ok:
  assumes "transport_ok opts t"
  shows "transport_ok opts (fst (kick opts ok t :: 'b tp_result))"
proof (cases "tp_state t = Ts_idle \<and> tp_started t")
  case False
  with assms start_ok [OF assms] show ?thesis by (auto simp: kick_def)
next
  case True
  define t' where "t' = (clear_timeout (tp_retryTimer t) t)\<lparr>tp_retryTimer := None\<rparr>"
  have "transport_ok opts (fst (connect opts ok t' :: 'b tp_result))"
    using assms True
    by (intro connect_ok) (auto simp: t'_def transport_ok_def retry_ok_def ids_ok_def distinct_map_filter)
  with True show ?thesis by (simp add: kick_def t'_def)
qed

lemma transport_okD:
  assumes "transport_ok opts t"
  shows "retry_ok opts t" "ids_ok t" "phase_ok opts t (tp_state t)"
    "tp_ws t = Some ws \<longrightarrow> tp_retryTimer t = None \<and> tp_started t"
    "tp_state t \<noteq> Ts_disposed \<or> tp_ws t = None"
  using assms unfolding transport_ok_def by (cases "tp_state t"; auto)+

lemma close_ok:
  assumes "transport_ok opts t"
  shows "transport_ok opts (fst (handleClose opts ws t :: 'b tp_result))"
  by (rule handleClose_ok) (use transport_okD [OF assms] in auto)

lemma send_ok:
  assumes "transport_ok opts t"
  shows "transport_ok opts (fst (snd (send opts json ok t :: bool \<times> 'b tp_result)))"
  using assms close_ok [OF assms] by (auto simp: send_def split: option.split)

lemma dispose_ok:
  assumes "transport_ok opts t"
  shows "transport_ok opts (fst (dispose t :: 'b tp_result))"
  using assms
  by (auto simp: dispose_def transport_ok_def clearTimers_def clearAttemptTimers_def Let_def retry_ok_def
      ids_ok_def distinct_map_filter)

text \<open>Giving up on the current socket after its timers were already touched.\<close>

lemma abandon_ok:
  assumes "transport_ok opts t" and "tp_pending t' = filter P (tp_pending t)"
    and "tp_nextTimer t' = tp_nextTimer t" "tp_state t' = tp_state t" "tp_ws t' = tp_ws t"
    and "tp_started t' = tp_started t" "tp_retryTimer t' = tp_retryTimer t"
    and "tp_openTimer t' \<in> {None, tp_openTimer t}" "tp_ackTimer t' \<in> {None, tp_ackTimer t}"
    and "tp_ws t \<noteq> Some ws \<Longrightarrow> phase_ok opts t' (tp_state t)"
  shows "transport_ok opts (fst (abandon opts ws t' :: 'b tp_result))"
proof -
  note t = transport_okD [OF assms(1)]
  have "transport_ok opts (fst (handleClose opts ws t' :: 'b tp_result))"
    using fewer_timers [OF t(1,2) assms(2,3,8,9,7)] t(4,5) assms(4-7,10)
    by (intro handleClose_ok) auto
  then show ?thesis by (simp add: abandon_def)
qed

lemma on_open_ok:
  assumes "transport_ok opts t"
  shows "transport_ok opts (fst (on_open opts ws ok t :: 'b tp_result))"
proof (cases "Some ws \<noteq> tp_ws t \<or> tp_state t \<noteq> Ts_connecting")
  case True
  with assms show ?thesis by (simp add: on_open_def)
next
  case False
  define t' where "t' = (clear_timeout (tp_openTimer t) t)\<lparr>tp_openTimer := None\<rparr>"
  have "transport_ok opts (fst (abandon opts ws t' :: 'b tp_result))"
    by (rule abandon_ok [OF assms]) (use False in \<open>auto simp: t'_def\<close>)
  moreover have "transport_ok opts ((set_timeout (Ack_timer ws) (to_handshakeTimeout opts) t')\<lparr>tp_ackTimer := Some (tp_nextTimer t')\<rparr>)"
    using transport_okD [OF assms] False
    by (auto simp: t'_def transport_ok_def retry_ok_def ids_ok_def runs_def distinct_map_filter)
  ultimately show ?thesis
    using False by (simp add: on_open_def Let_def t'_def)
qed

lemma on_envelope_ok:
  assumes "transport_ok opts t" and "tp_ws t = Some ws"
  shows "transport_ok opts (fst (on_envelope opts ws e t :: 'b tp_result))"
proof (cases "tp_state t = Ts_connecting \<and> we_type e = ''hello.ack''")
  case False
  with assms(1) show ?thesis by (simp add: on_envelope_def)
next
  case True
  define t' where "t' = (clear_timeout (tp_ackTimer t) t)\<lparr>tp_ackTimer := None\<rparr>"
  have "transport_ok opts (fst (abandon opts ws t' :: 'b tp_result))"
    by (rule abandon_ok [OF assms(1)]) (use assms(2) in \<open>auto simp: t'_def\<close>)
  moreover have "transport_ok opts (t'\<lparr>tp_state := Ts_attached\<rparr>)"
    using transport_okD [OF assms(1)] True
    by (auto simp: t'_def transport_ok_def retry_ok_def ids_ok_def distinct_map_filter)
  ultimately show ?thesis
    using True by (simp add: on_envelope_def Let_def t'_def)
qed

lemma handleMessage_ok:
  assumes "transport_ok opts t"
  shows "transport_ok opts (fst (handleMessage utf8 parse opts ws data t :: 'b tp_result))"
proof (cases "tp_ws t = Some ws")
  case True
  have "transport_ok opts (fst (abandon opts ws t :: 'b tp_result))"
    using close_ok [OF assms] by (simp add: abandon_def)
  with True assms on_envelope_ok [OF assms] show ?thesis
    by (auto simp: handleMessage_def split: option.split parse_result.split)
qed (use assms in \<open>simp add: handleMessage_def\<close>)

lemma retry_fires_ok:
  assumes "transport_ok opts t" and "p \<in> set (tp_pending t)" and "pt_timer p = Retry_timer"
    and "t' = t\<lparr>tp_pending := filter (\<lambda>q. pt_id q \<noteq> pt_id p) (tp_pending t), tp_retryTimer := None\<rparr>"
  shows "transport_ok opts (fst (connect opts ok t' :: 'b tp_result))"
proof -
  note t = transport_okD [OF assms(1)]
  from t(1) assms(2,3) have r: "tp_retryTimer t = Some (pt_id p)" by (auto simp: retry_ok_def)
  with t(3) have "tp_state t = Ts_idle" by (cases "tp_state t") auto
  with t r assms(4) show ?thesis
    by (intro connect_ok) (auto simp: retry_ok_def ids_ok_def distinct_map_filter)
qed

text \<open>A timer of another socket fires without touching what the phase rests on.\<close>

lemma other_timer_runs:
  assumes "ids_ok t" "p \<in> set (tp_pending t)" "runs t j tm" "pt_timer p \<noteq> tm"
  shows "runs (t\<lparr>tp_pending := filter (\<lambda>q. pt_id q \<noteq> pt_id p) (tp_pending t)\<rparr>) j tm"
proof -
  from assms(3) obtain q where q: "q \<in> set (tp_pending t)" "pt_id q = j" "pt_timer q = tm"
    by (auto simp: runs_def)
  have "inj_on pt_id (set (tp_pending t))"
    using assms(1) by (simp add: ids_ok_def distinct_map)
  then have "pt_id q \<noteq> pt_id p"
    using q assms(2,4) by (auto dest: inj_onD)
  with q show ?thesis by (auto simp: runs_def)
qed

lemma phase_survives:
  assumes "transport_ok opts t" "p \<in> set (tp_pending t)"
    and "pt_timer p = Open_timer ws \<or> pt_timer p = Ack_timer ws" and "tp_ws t \<noteq> Some ws"
  shows "phase_ok opts (t\<lparr>tp_pending := filter (\<lambda>q. pt_id q \<noteq> pt_id p) (tp_pending t)\<rparr>) (tp_state t)"
proof -
  note t = transport_okD [OF assms(1)]
  note keep = other_timer_runs [OF t(2) assms(2)]
  show ?thesis
  proof (cases "tp_state t")
    case Ts_idle
    with t(3) keep assms(3) show ?thesis by (auto split: option.splits)
  next
    case Ts_connecting
    with t(3) obtain ws' i where w: "tp_started t" "tp_retryTimer t = None" "tp_ws t = Some ws'"
      "tp_openTimer t = Some i \<and> runs t i (Open_timer ws') \<or> tp_ackTimer t = Some i \<and> runs t i (Ack_timer ws')"
      by auto
    moreover have "pt_timer p \<noteq> Open_timer ws'" "pt_timer p \<noteq> Ack_timer ws'"
      using assms(3,4) w(3) by auto
    ultimately show ?thesis
      using keep Ts_connecting by auto
  qed (use t(3) in auto)
qed

lemma on_timer_ok:
  assumes "transport_ok opts t"
  shows "transport_ok opts (fst (on_timer opts i ok t :: 'b tp_result))"
proof (cases "find (\<lambda>p. pt_id p = i) (tp_pending t)")
  case None
  with assms show ?thesis by (simp add: on_timer_def)
next
  case (Some p)
  then have p: "p \<in> set (tp_pending t)" "pt_id p = i"
    by (auto simp: find_Some_iff)
  define t1 where "t1 = t\<lparr>tp_pending := filter (\<lambda>q. pt_id q \<noteq> i) (tp_pending t)\<rparr>"
  have "transport_ok opts (fst (abandon opts ws t1 :: 'b tp_result))" 
    if attempt: "pt_timer p = Open_timer ws \<or> pt_timer p = Ack_timer ws" for ws
  proof (rule abandon_ok [OF assms])
    show "phase_ok opts t1 (tp_state t)" if "tp_ws t \<noteq> Some ws"
      using phase_survives [OF assms p(1) attempt that] p(2)
      by (simp add: t1_def)
  qed (simp_all add: t1_def)
  moreover have "transport_ok opts (fst (connect opts ok (t1\<lparr>tp_retryTimer := None\<rparr>) :: 'b tp_result))" if "pt_timer p = Retry_timer"
    by (rule retry_fires_ok [OF assms p(1) that]) (simp add: t1_def p(2))
  ultimately show ?thesis
    using Some by (auto simp: on_timer_def Let_def t1_def split: timer.split)
qed

lemma step_ok:
  assumes "transport_ok opts t"
  shows "transport_ok opts (fst (transport_step utf8 parse opts e t))"
  using assms
  by (cases e) (simp_all add: start_ok kick_ok send_ok dispose_ok on_open_ok handleMessage_ok close_ok on_timer_ok)

lemma new_ok: "transport_ok opts transport_new"
  by (simp add: transport_ok_def transport_new_def retry_ok_def ids_ok_def)

interpretation tm: event_machine "\<lambda>r. r = (transport_new, [])"
    "\<lambda>e r. also_then r (transport_step utf8 parse opts e)" "\<lambda>r. transport_ok opts (fst r)"
  for utf8 :: "nat list \<Rightarrow> jstr" and parse :: "jstr \<Rightarrow> 'b parse_result" and opts :: transport_options
  by unfold_locales (simp_all add: new_ok step_ok)

lemma run_ok: "transport_ok opts (fst (transport_run utf8 parse opts es))"
  unfolding transport_run_def by (rule tm.reach_inv) (rule refl)

section \<open>It never gives up\<close>

lemma timer_found:
  assumes "ids_ok t" "runs t i tm"
  obtains p where "find (\<lambda>p. pt_id p = i) (tp_pending t) = Some p" "pt_timer p = tm"
    "p \<in> set (tp_pending t)" "pt_id p = i"
proof -
  from assms(2) obtain q where q: "q \<in> set (tp_pending t)" "pt_id q = i" "pt_timer q = tm"
    by (auto simp: runs_def)
  then obtain p where p: "find (\<lambda>p. pt_id p = i) (tp_pending t) = Some p"
    by (cases "find (\<lambda>p. pt_id p = i) (tp_pending t)") (auto simp: find_None_iff)
  then have "p \<in> set (tp_pending t)" "pt_id p = i" by (auto simp: find_Some_iff)
  moreover have "inj_on pt_id (set (tp_pending t))"
    using assms(1) by (simp add: ids_ok_def distinct_map)
  ultimately have "p = q" using q by (auto dest: inj_onD)
  with p q that show ?thesis by blast
qed

lemma idle_retries:
  assumes "transport_ok opts t" "tp_state t = Ts_idle" "tp_started t" "to_impl opts"
  shows "\<exists>p \<in> set (tp_pending t). pt_delay p \<le> to_retryInterval opts
    \<and> tp_state (fst (on_timer opts (pt_id p) True t :: 'b tp_result)) = Ts_connecting"
proof -
  note t = transport_okD [OF assms(1)]
  from t(3) assms(2-4) obtain i where "tp_retryTimer t = Some i" "runs t i Retry_timer"
    by (auto split: option.splits)
  with t(2) obtain p where p: "find (\<lambda>p. pt_id p = i) (tp_pending t) = Some p" "pt_timer p = Retry_timer"
    "p \<in> set (tp_pending t)" "pt_id p = i" by (blast elim: timer_found)
  with t(1) have "pt_delay p \<le> to_retryInterval opts" by (auto simp: retry_ok_def)
  moreover have "tp_state (fst (on_timer opts (pt_id p) True t :: 'b tp_result)) = Ts_connecting"
    using p assms(2,4) by (simp add: on_timer_def connect_def Let_def)
  ultimately show ?thesis using p(3) by blast
qed

lemma attempt_expires:
  assumes "transport_ok opts t" "tp_state t = Ts_connecting"
  shows "\<exists>p \<in> set (tp_pending t).
    \<forall>ok. tp_state (fst (on_timer opts (pt_id p) ok t :: 'b tp_result)) = Ts_idle"
proof -
  note t = transport_okD [OF assms(1)]
  from t(3) assms(2) obtain ws i where w: "tp_ws t = Some ws"
    "runs t i (Open_timer ws) \<or> runs t i (Ack_timer ws)" by auto
  with t(2) obtain p where p: "find (\<lambda>p. pt_id p = i) (tp_pending t) = Some p"
    "pt_timer p = Open_timer ws \<or> pt_timer p = Ack_timer ws" "p \<in> set (tp_pending t)" "pt_id p = i"
    by (blast elim: timer_found)
  then have "\<forall>ok. tp_state (fst (on_timer opts (pt_id p) ok t :: 'b tp_result)) = Ts_idle"
    using assms(2) w(1)
    by (auto simp: on_timer_def abandon_def handleClose_def scheduleRetry_def Let_def split: prod.split)
  with p(3) show ?thesis by blast
qed

text \<open>
  C32: Whatever sockets, timers and callers do, a started transport with an implementation never
  stops trying. While idle a timer is pending, due within the retry interval, that opens the next
  connection; while connecting one is pending that gives the attempt up; and attached it holds a
  socket. Only \<open>dispose\<close> ends it.
\<close>

theorem transport_never_gives_up:
  assumes "transport_run utf8 parse opts es = (t, fx)"
    and "tp_started t" and "to_impl opts" and "tp_state t \<noteq> Ts_disposed"
  shows "case tp_state t of
      Ts_idle \<Rightarrow> \<exists>p \<in> set (tp_pending t). pt_delay p \<le> to_retryInterval opts
        \<and> tp_state (fst (on_timer opts (pt_id p) True t :: 'b tp_result)) = Ts_connecting
    | Ts_connecting \<Rightarrow> \<exists>p \<in> set (tp_pending t). \<forall>ok.
        tp_state (fst (on_timer opts (pt_id p) ok t :: 'b tp_result)) = Ts_idle
    | _ \<Rightarrow> tp_ws t \<noteq> None"
proof -
  have t: "transport_ok opts t"
    using run_ok [of opts utf8 parse es] assms(1) by simp
  show ?thesis
    using assms(2-4) idle_retries [OF t] attempt_expires [OF t] transport_okD(3) [OF t]
    by (cases "tp_state t") simp_all
qed

definition sample_options :: transport_options where
  "sample_options =
     \<lparr>to_impl = True, to_connectTimeout = 300, to_handshakeTimeout = 1000, to_retryInterval = 10000\<rparr>"

theorem transport_never_gives_up_witness:
  "\<exists>t. transport_run (\<lambda>_. []) (\<lambda>_. Pr_invalid :: nat parse_result) sample_options [Do_start False] = (t, [Fx_warn ''transport-connect'', Fx_timer Retry_timer 10000])
    \<and> (\<exists>p \<in> set (tp_pending t). tp_state (fst (on_timer sample_options (pt_id p) True t :: nat tp_result)) = Ts_connecting)"
proof -
  define t where "t = transport_new\<lparr>tp_started := True, tp_retryTimer := Some 0, tp_nextTimer := Suc 0,
    tp_pending := [\<lparr>pt_id = 0, pt_timer = Retry_timer, pt_delay = 10000\<rparr>]\<rparr>"
  have r: "transport_run (\<lambda>_. []) (\<lambda>_. Pr_invalid :: nat parse_result) sample_options [Do_start False]
      = (t, [Fx_warn ''transport-connect'', Fx_timer Retry_timer 10000])"
    by (simp add: transport_run_def also_then_def start_def connect_def scheduleRetry_def nextRetryDelay_def
        sample_options_def FAST_RETRY_STEPS_def transport_new_def set_timeout_def t_def)
  have t: "tp_state t = Ts_idle" "tp_started t" "to_impl sample_options"
    by (simp_all add: t_def transport_new_def sample_options_def)
  have "\<exists>p \<in> set (tp_pending t). pt_delay p \<le> to_retryInterval sample_options
      \<and> tp_state (fst (on_timer sample_options (pt_id p) True t :: nat tp_result)) = Ts_connecting"
    using transport_never_gives_up [OF r t(2,3)] unfolding t(1) by simp
  with r show ?thesis by blast
qed

section \<open>What the outside sees\<close>

text \<open>
  The contract the session relies on, as a machine over the effects alone: whether the link is up,
  the newest socket, whether an attachment was ever lost, and the retry delays since then.
\<close>

record link =
  lk_on :: bool
  lk_sock :: "sock option"
  lk_lost :: bool
  lk_delays :: "rat list"

definition link_new :: link where
  "link_new = \<lparr>lk_on = False, lk_sock = None, lk_lost = False, lk_delays = []\<rparr>"

text \<open>The delay of the n-th retry: the burst after a loss, else the steady interval.\<close>

definition backoff :: "transport_options \<Rightarrow> bool \<Rightarrow> nat \<Rightarrow> rat" where
  "backoff opts lost n =
     (if lost \<and> n < 3 then min ([200, 400, 800] ! n) (to_retryInterval opts) else to_retryInterval opts)"

fun link_step :: "transport_options \<Rightarrow> 'b effect \<Rightarrow> link \<Rightarrow> link option" where
  "link_step opts (Fx_open ws) l = (if lk_on l then None else Some (l\<lparr>lk_sock := Some ws\<rparr>))"
| "link_step opts (Fx_hello ws) l = (if lk_on l \<or> lk_sock l \<noteq> Some ws then None else Some l)"
| "link_step opts (Fx_attached b) l = (if lk_on l then None else Some (l\<lparr>lk_on := True\<rparr>))"
| "link_step opts Fx_detached l =
     (if lk_on l then Some (l\<lparr>lk_on := False, lk_lost := True, lk_delays := []\<rparr>) else None)"
| "link_step opts (Fx_frame ws json) l = (if lk_on l \<and> lk_sock l = Some ws then Some l else None)"
| "link_step opts (Fx_control e) l = (if lk_on l then Some l else None)"
| "link_step opts (Fx_timer tm d) l =
     (if tm \<noteq> Retry_timer then Some l
      else if \<not> lk_on l \<and> d = backoff opts (lk_lost l) (length (lk_delays l))
      then Some (l\<lparr>lk_delays := lk_delays l @ [d]\<rparr>) else None)"
| "link_step opts _ l = Some l"

fun link_run :: "transport_options \<Rightarrow> 'b effect list \<Rightarrow> link \<Rightarrow> link option" where
  "link_run opts [] l = Some l"
| "link_run opts (e # es) l = (case link_step opts e l of None \<Rightarrow> None | Some l' \<Rightarrow> link_run opts es l')"

lemma link_run_append:
  "link_run opts (es @ es') l = (case link_run opts es l of None \<Rightarrow> None | Some l' \<Rightarrow> link_run opts es' l')"
  by (induction opts es l rule: link_run.induct) (auto split: option.split)

text \<open>What the machine's state says about the transport.\<close>

definition link_of :: "transport \<Rightarrow> link \<Rightarrow> bool" where
  "link_of t l \<longleftrightarrow>
     (tp_state t \<noteq> Ts_disposed \<longrightarrow> lk_on l = attached t)
     \<and> (\<forall>ws. tp_ws t = Some ws \<longrightarrow> lk_sock l = Some ws)
     \<and> tp_fast t = (if lk_lost l then min 3 (length (lk_delays l)) else 3)"

text \<open>A step that keeps to the contract.\<close>

definition keeps :: "transport_options \<Rightarrow> transport \<Rightarrow> 'b tp_result \<Rightarrow> bool" where
  "keeps opts t r \<longleftrightarrow>
     (\<forall>l. link_of t l \<longrightarrow> (\<exists>l'. link_run opts (snd r) l = Some l' \<and> link_of (fst r) l'))"

lemma keeps_also_then:
  assumes "keeps opts t r" and "keeps opts (fst r) (f (fst r))"
  shows "keeps opts t (also_then r f)"
  using assms unfolding keeps_def by (fastforce simp: link_run_append)

lemma keeps_frame:
  assumes "tp_state t' = tp_state t" "tp_ws t' = tp_ws t" "tp_fast t' = tp_fast t" "keeps opts t' r"
  shows "keeps opts t r"
  using assms by (simp add: keeps_def link_of_def attached_def)

lemma keeps_nothing: "keeps opts t (t, [])"
  by (simp add: keeps_def)

lemma keeps_warn:
  assumes "tp_state t' = tp_state t" "tp_ws t' = tp_ws t" "tp_fast t' = tp_fast t"
  shows "keeps opts t (t', [Fx_warn w])" "keeps opts t (t', [Fx_close ws b])" "keeps opts t (t', [])"
  using assms by (simp_all add: keeps_def link_of_def attached_def)

lemma scheduleRetry_keeps:
  assumes "tp_state t = Ts_idle \<or> tp_state t = Ts_disposed"
  shows "keeps opts t (scheduleRetry opts t :: 'b tp_result)"
proof (cases "tp_state t = Ts_disposed \<or> \<not> tp_started t \<or> tp_retryTimer t \<noteq> None")
  case True
  then show ?thesis by (simp add: scheduleRetry_def keeps_nothing)
next
  case False
  obtain d f where d: "nextRetryDelay opts t = (d, f)" by (cases "nextRetryDelay opts t")
  have "d = backoff opts (lk_lost l) (length (lk_delays l))
      \<and> f = (if lk_lost l then min 3 (Suc (length (lk_delays l))) else 3)" if "link_of t l" for l
    using d that by (auto simp: nextRetryDelay_def link_of_def backoff_def FAST_RETRY_STEPS_def min_def split: if_splits)
  note next_delay = this
  show ?thesis
    unfolding keeps_def
  proof (intro allI impI)
    fix l assume l: "link_of t l"
    let ?l = "l\<lparr>lk_delays := lk_delays l @ [d]\<rparr>"
    have "\<not> lk_on l"
      using l assms False by (auto simp: link_of_def attached_def)
    with next_delay [OF l] False d have "link_run opts (snd (scheduleRetry opts t)) l = Some ?l"
      by (simp add: scheduleRetry_def)
    moreover have "link_of (fst (scheduleRetry opts t :: 'b tp_result)) ?l"
      using next_delay [OF l] l False d by (simp add: scheduleRetry_def link_of_def attached_def)
    ultimately show "\<exists>l'. link_run opts (snd (scheduleRetry opts t)) l = Some l'
        \<and> link_of (fst (scheduleRetry opts t :: 'b tp_result)) l'"
      by blast
  qed
qed

lemma handleClose_keeps: "keeps opts t (handleClose opts ws t)"
proof (cases "Some ws \<noteq> tp_ws t \<or> tp_state t = Ts_disposed")
  case True
  then show ?thesis by (simp add: handleClose_def keeps_nothing)
next
  case False
  define t' where "t' = (let t1 = (clearAttemptTimers t)\<lparr>tp_ws := None, tp_state := Ts_idle\<rparr>
     in if tp_state t = Ts_attached then t1\<lparr>tp_fast := 0\<rparr> else t1)"
  have "keeps opts t (t', if tp_state t = Ts_attached then [Fx_detached] else [])"
    using False by (auto simp: keeps_def link_of_def attached_def t'_def Let_def)
  moreover have "keeps opts t' (scheduleRetry opts t')"
    by (rule scheduleRetry_keeps) (simp add: t'_def Let_def)
  ultimately show ?thesis
    using False by (auto simp: handleClose_def t'_def Let_def intro: keeps_also_then)
qed

lemma abandon_keeps: "keeps opts t (abandon opts ws t)"
  unfolding abandon_def by (rule keeps_also_then) (simp_all add: keeps_warn handleClose_keeps)

lemma warn_abandon_keeps:
  assumes "tp_state t' = tp_state t" "tp_ws t' = tp_ws t" "tp_fast t' = tp_fast t"
  shows "keeps opts t (also_then (t', [Fx_warn w]) (abandon opts ws))"
  by (rule keeps_also_then) (simp_all add: assms keeps_warn abandon_keeps)

lemma connect_keeps: "keeps opts t (connect opts ok t)"
proof (cases "tp_state t \<noteq> Ts_idle \<or> \<not> to_impl opts")
  case True
  then show ?thesis by (auto simp: connect_def keeps_nothing keeps_warn)
next
  case False
  have "keeps opts t (also_then (t\<lparr>tp_state := Ts_idle\<rparr>, [Fx_warn ''transport-connect'']) (scheduleRetry opts))"
    by (rule keeps_also_then) (use False in \<open>simp_all add: keeps_warn scheduleRetry_keeps\<close>)
  moreover have "keeps opts t (connect opts True t)"
    using False by (auto simp: connect_def Let_def keeps_def link_of_def attached_def)
  ultimately show ?thesis
    using False by (cases ok) (simp_all add: connect_def)
qed

lemma start_keeps: "keeps opts t (start opts ok t)"
  unfolding start_def by (auto simp: keeps_nothing intro: keeps_frame [OF _ _ _ connect_keeps])

lemma kick_keeps: "keeps opts t (kick opts ok t)"
  unfolding kick_def by (auto simp: keeps_nothing start_keeps intro: keeps_frame [OF _ _ _ connect_keeps])

lemma send_keeps: "keeps opts t (snd (send opts json ok t))"
proof (cases "tp_ws t")
  case (Some ws)
  have "keeps opts t (also_then (t, [Fx_warn w]) (handleClose opts ws))" for w
    by (rule keeps_also_then) (simp_all add: keeps_warn handleClose_keeps)
  with Some show ?thesis
    by (auto simp: send_def keeps_nothing keeps_def [of _ _ "(_, [Fx_frame _ _])"] link_of_def attached_def)
qed (simp add: send_def keeps_nothing)

lemma dispose_keeps: "keeps opts t (dispose t)"
  by (auto simp: dispose_def keeps_def link_of_def clearTimers_def Let_def split: option.split)

lemma on_open_keeps: "keeps opts t (on_open opts ws ok t)"
proof (cases "Some ws \<noteq> tp_ws t \<or> tp_state t \<noteq> Ts_connecting")
  case False
  then have ws: "tp_ws t = Some ws" by auto
  with False show ?thesis
    by (auto simp: on_open_def Let_def keeps_def [of _ _ "(_, [Fx_hello _, Fx_timer _ _])"] link_of_def attached_def
        intro!: warn_abandon_keeps)
qed (simp add: on_open_def keeps_nothing)

lemma handleMessage_keeps: "keeps opts t (handleMessage utf8 parse opts ws data t)"
proof -
  have "keeps opts t (on_envelope opts ws e t)" for e
    by (auto simp: on_envelope_def Let_def keeps_nothing keeps_def [of _ _ "(_, [Fx_attached _])"]
        keeps_def [of _ _ "(_, [Fx_control _])"] link_of_def attached_def intro!: warn_abandon_keeps)
  then show ?thesis
    by (auto simp: handleMessage_def keeps_nothing keeps_warn warn_abandon_keeps
        split: option.split parse_result.split)
qed

lemma on_timer_keeps: "keeps opts t (on_timer opts i ok t)"
proof (cases "find (\<lambda>p. pt_id p = i) (tp_pending t)")
  case (Some p)
  then show ?thesis
    by (auto simp: on_timer_def Let_def split: timer.split
        intro!: warn_abandon_keeps intro: keeps_frame [OF _ _ _ connect_keeps])
qed (simp add: on_timer_def keeps_nothing)

lemma step_keeps: "keeps opts t (transport_step utf8 parse opts e t)"
  by (cases e) (simp_all add: start_keeps kick_keeps send_keeps dispose_keeps on_open_keeps handleMessage_keeps
      handleClose_keeps on_timer_keeps)

lemma run_keeps: "keeps opts transport_new (transport_run utf8 parse opts es)"
proof -
  have "keeps opts t r \<Longrightarrow> keeps opts t (fold (\<lambda>e r. also_then r (transport_step utf8 parse opts e)) es r)" for t r
    by (induction es arbitrary: r) (simp_all add: keeps_also_then step_keeps)
  then show ?thesis
    by (simp add: transport_run_def keeps_nothing)
qed

text \<open>
  C8: What the session may rely on, whatever sockets, timers and callers do. Attachments and
  detachments alternate, control messages and frames only pass in between, frames and the hello
  only go to the newest socket, \<open>attached\<close> is exactly the link's state, and the n-th retry since
  the last loss of an attachment waits 200, 400, 800 ms (never more than the interval) and then
  the interval, before any loss always the interval.
\<close>

theorem transport_refines_link:
  "\<exists>l. link_run opts (snd (transport_run utf8 parse opts es)) link_new = Some l
     \<and> (let t = fst (transport_run utf8 parse opts es)
        in if tp_state t = Ts_disposed then tp_ws t = None \<and> tp_retryTimer t = None else lk_on l = attached t)"
proof -
  have "link_of transport_new link_new"
    by (simp add: link_of_def transport_new_def link_new_def attached_def FAST_RETRY_STEPS_def)
  with run_keeps [of opts utf8 parse es] obtain l
    where l: "link_run opts (snd (transport_run utf8 parse opts es)) link_new = Some l"
      "link_of (fst (transport_run utf8 parse opts es)) l"
    by (auto simp: keeps_def)
  with transport_okD(3) [OF run_ok [of opts utf8 parse es]] show ?thesis
    by (auto simp: link_of_def Let_def)
qed

section \<open>With well-behaved sockets no timer outlives its purpose\<close>

text \<open>
  The order the WebSocket interface documents: a socket that was made opens at most once, and
  delivers messages only after it opened. \<open>Os\<close>: the sockets that have opened.
\<close>

fun orderly ::
  "(nat list \<Rightarrow> jstr) \<Rightarrow> (jstr \<Rightarrow> 'b parse_result) \<Rightarrow> transport_options \<Rightarrow> sock set \<Rightarrow> transport
    \<Rightarrow> transport_event list \<Rightarrow> bool" where
  "orderly utf8 parse opts Os t [] = True"
| "orderly utf8 parse opts Os t (e # es) \<longleftrightarrow>
     (case e of
        On_open ws ok \<Rightarrow> ws < tp_nextSock t \<and> ws \<notin> Os
      | On_message ws data \<Rightarrow> ws \<in> Os
      | _ \<Rightarrow> True)
     \<and> orderly utf8 parse opts (case e of On_open ws ok \<Rightarrow> insert ws Os | _ \<Rightarrow> Os)
         (fst (transport_step utf8 parse opts e t)) es"

text \<open>A pending timer of an attempt is the one in its field, of the socket being connected.\<close>

definition calm :: "sock set \<Rightarrow> transport \<Rightarrow> bool" where
  "calm Os t \<longleftrightarrow>
     (\<forall>p \<in> set (tp_pending t). case pt_timer p of
        Open_timer ws \<Rightarrow> tp_openTimer t = Some (pt_id p) \<and> tp_ws t = Some ws
          \<and> tp_state t = Ts_connecting \<and> ws \<notin> Os
      | Ack_timer ws \<Rightarrow> tp_ackTimer t = Some (pt_id p) \<and> tp_ws t = Some ws
          \<and> tp_state t = Ts_connecting \<and> ws \<in> Os
      | Retry_timer \<Rightarrow> True)
     \<and> (\<forall>ws \<in> Os. ws < tp_nextSock t) \<and> (\<forall>ws. tp_ws t = Some ws \<longrightarrow> ws < tp_nextSock t)"

text \<open>No timer of an attempt is pending.\<close>

definition no_attempt :: "transport \<Rightarrow> bool" where
  "no_attempt t \<longleftrightarrow> (\<forall>p \<in> set (tp_pending t). pt_timer p = Retry_timer)"

lemma calm_no_attempt: "calm Os t \<Longrightarrow> tp_state t \<noteq> Ts_connecting \<Longrightarrow> no_attempt t"
  unfolding calm_def no_attempt_def by (auto split: timer.splits) (metis timer.exhaust)

lemma no_attempt_calm:
  "no_attempt t \<Longrightarrow> \<forall>ws \<in> Os. ws < tp_nextSock t \<Longrightarrow> \<forall>ws. tp_ws t = Some ws \<longrightarrow> ws < tp_nextSock t
    \<Longrightarrow> calm Os t"
  by (auto simp: calm_def no_attempt_def)

lemma scheduleRetry_calm:
  assumes "no_attempt t" "\<forall>ws \<in> Os. ws < tp_nextSock t" "\<forall>ws. tp_ws t = Some ws \<longrightarrow> ws < tp_nextSock t"
  shows "calm Os (fst (scheduleRetry opts t :: 'b tp_result))"
  by (rule no_attempt_calm)
    (use assms in \<open>auto simp: scheduleRetry_def no_attempt_def split: prod.split\<close>)

text \<open>Only the attempt's own timers may be pending when it is given up.\<close>

lemma handleClose_calm:
  assumes "calm Os t"
  shows "calm Os (fst (handleClose opts ws t :: 'b tp_result))"
proof (cases "Some ws \<noteq> tp_ws t \<or> tp_state t = Ts_disposed")
  case True
  with assms show ?thesis by (auto simp: handleClose_def)
next
  case False
  define t' where "t' = (let t1 = (clearAttemptTimers t)\<lparr>tp_ws := None, tp_state := Ts_idle\<rparr>
     in if tp_state t = Ts_attached then t1\<lparr>tp_fast := 0\<rparr> else t1)"
  have "no_attempt t'"
    using assms by (auto simp: t'_def Let_def no_attempt_def calm_def split: timer.splits) (metis timer.exhaust)+
  then have "calm Os (fst (scheduleRetry opts t' :: 'b tp_result))"
    using assms by (intro scheduleRetry_calm) (auto simp: t'_def Let_def calm_def)
  with False show ?thesis
    by (auto simp: handleClose_def t'_def Let_def)
qed

lemma connect_calm:
  assumes "no_attempt t \<or> tp_state t \<noteq> Ts_idle \<and> calm Os t"
    and "\<forall>ws \<in> Os. ws < tp_nextSock t" "\<forall>ws. tp_ws t = Some ws \<longrightarrow> ws < tp_nextSock t"
  shows "calm Os (fst (connect opts ok t :: 'b tp_result))"
proof (cases "tp_state t \<noteq> Ts_idle \<or> \<not> to_impl opts")
  case True
  with assms no_attempt_calm show ?thesis by (auto simp: connect_def)
next
  case False
  with assms have "no_attempt t" by blast
  then have "calm Os (fst (scheduleRetry opts (t\<lparr>tp_state := Ts_idle\<rparr>) :: 'b tp_result))"
    using assms by (intro scheduleRetry_calm) (auto simp: no_attempt_def)
  moreover have "calm Os (fst (connect opts True t :: 'b tp_result))"
    using False \<open>no_attempt t\<close> assms(2)
    by (auto simp: connect_def Let_def calm_def no_attempt_def less_Suc_eq)
  ultimately show ?thesis
    using False by (cases ok) (simp_all add: connect_def)
qed

lemma fewer_calm:
  assumes "calm Os t" "tp_pending t' = filter P (tp_pending t)" "tp_openTimer t' = tp_openTimer t"
    "tp_ackTimer t' = tp_ackTimer t" "tp_ws t' = tp_ws t" "tp_state t' = tp_state t" "tp_nextSock t' = tp_nextSock t"
  shows "calm Os t'"
  unfolding calm_def assms(2-7) using assms(1) unfolding calm_def by simp

lemma calm_socks:
  assumes "calm Os t"
  shows "\<forall>ws \<in> Os. ws < tp_nextSock t" "\<forall>ws. tp_ws t = Some ws \<longrightarrow> ws < tp_nextSock t"
  using assms by (simp_all add: calm_def)

lemma start_calm:
  assumes "calm Os t" "transport_ok opts t"
  shows "calm Os (fst (start opts ok t :: 'b tp_result))"
proof (cases "tp_started t \<or> tp_state t = Ts_disposed")
  case False
  with transport_okD(3) [OF assms(2)] have "tp_state t = Ts_idle" by (cases "tp_state t") auto
  with calm_no_attempt [OF assms(1)] have "no_attempt (t\<lparr>tp_started := True\<rparr>)" by (simp add: no_attempt_def)
  then have "calm Os (fst (connect opts ok (t\<lparr>tp_started := True\<rparr>) :: 'b tp_result))"
    using calm_socks [OF assms(1)] by (intro connect_calm) auto
  with False show ?thesis by (simp add: start_def)
qed (use assms in \<open>simp add: start_def\<close>)

lemma kick_calm:
  assumes "calm Os t" "transport_ok opts t"
  shows "calm Os (fst (kick opts ok t :: 'b tp_result))"
proof (cases "tp_state t = Ts_idle \<and> tp_started t")
  case True
  define t' where "t' = (clear_timeout (tp_retryTimer t) t)\<lparr>tp_retryTimer := None\<rparr>"
  have "no_attempt t'"
    using calm_no_attempt [OF assms(1)] True by (auto simp: t'_def no_attempt_def)
  then have "calm Os (fst (connect opts ok t' :: 'b tp_result))"
    using calm_socks [OF assms(1)] by (intro connect_calm) (auto simp: t'_def)
  with True show ?thesis by (simp add: kick_def t'_def)
qed (use assms start_calm [OF assms] in \<open>auto simp: kick_def\<close>)

lemma dispose_calm:
  assumes "calm Os t"
  shows "calm Os (fst (dispose t :: 'b tp_result))"
proof (cases "tp_state t = Ts_disposed")
  case False
  have "no_attempt (fst (dispose t :: 'b tp_result))"
    using assms False
    by (auto simp: dispose_def clearTimers_def Let_def no_attempt_def calm_def split: timer.splits)
      (metis timer.exhaust)+
  then show ?thesis
    using calm_socks [OF assms] False
    by (intro no_attempt_calm) (auto simp: dispose_def clearTimers_def Let_def)
qed (use assms in \<open>simp add: dispose_def\<close>)

lemma send_calm:
  assumes "calm Os t"
  shows "calm Os (fst (snd (send opts json ok t :: bool \<times> 'b tp_result)))"
  using assms handleClose_calm [OF assms] by (auto simp: send_def split: option.split)

lemma on_open_calm:
  assumes "calm Os t" "ws < tp_nextSock t" "ws \<notin> Os"
  shows "calm (insert ws Os) (fst (on_open opts ws ok t :: 'b tp_result))"
proof (cases "Some ws \<noteq> tp_ws t \<or> tp_state t \<noteq> Ts_connecting")
  case True
  then have "calm (insert ws Os) t"
    using assms by (auto simp: calm_def split: timer.splits)
  with True show ?thesis by (simp add: on_open_def)
next
  case False
  define t1 where "t1 = (clear_timeout (tp_openTimer t) t)\<lparr>tp_openTimer := None\<rparr>"
  have na: "no_attempt t1"
    using assms(1,3) False
    by (auto simp: t1_def no_attempt_def calm_def split: timer.splits) (metis timer.exhaust option.inject)+
  then have "calm (insert ws Os) t1"
    using assms by (intro no_attempt_calm) (auto simp: t1_def calm_def)
  then have "calm (insert ws Os) (fst (abandon opts ws t1 :: 'b tp_result))"
    by (simp add: abandon_def handleClose_calm)
  moreover have "calm (insert ws Os)
      ((set_timeout (Ack_timer ws) (to_handshakeTimeout opts) t1)\<lparr>tp_ackTimer := Some (tp_nextTimer t1)\<rparr>)"
    using na assms(1,2) False by (auto simp: calm_def no_attempt_def t1_def)
  ultimately show ?thesis
    using False by (simp add: on_open_def Let_def t1_def)
qed

lemma on_envelope_calm:
  assumes "calm Os t" "ws \<in> Os" "tp_ws t = Some ws"
  shows "calm Os (fst (on_envelope opts ws e t :: 'b tp_result))"
proof (cases "tp_state t = Ts_connecting \<and> we_type e = ''hello.ack''")
  case True
  define t1 where "t1 = (clear_timeout (tp_ackTimer t) t)\<lparr>tp_ackTimer := None\<rparr>"
  have na: "no_attempt t1"
    using assms True
    by (auto simp: t1_def no_attempt_def calm_def split: timer.splits) (metis timer.exhaust option.inject)+
  then have "calm Os t1"
    using assms by (intro no_attempt_calm) (auto simp: t1_def calm_def)
  then have "calm Os (fst (abandon opts ws t1 :: 'b tp_result))"
    by (simp add: abandon_def handleClose_calm)
  moreover have "calm Os (t1\<lparr>tp_state := Ts_attached\<rparr>)"
    using na calm_socks [OF assms(1)] by (intro no_attempt_calm) (auto simp: no_attempt_def t1_def)
  ultimately show ?thesis
    using True by (simp add: on_envelope_def Let_def t1_def)
qed (use assms in \<open>simp add: on_envelope_def\<close>)

lemma handleMessage_calm:
  assumes "calm Os t" "ws \<in> Os"
  shows "calm Os (fst (handleMessage utf8 parse opts ws data t :: 'b tp_result))"
  using assms handleClose_calm [OF assms(1)] on_envelope_calm [OF assms]
  by (auto simp: handleMessage_def abandon_def split: option.split parse_result.split)

lemma on_timer_calm:
  assumes "calm Os t" "transport_ok opts t"
  shows "calm Os (fst (on_timer opts i ok t :: 'b tp_result))"
proof (cases "find (\<lambda>p. pt_id p = i) (tp_pending t)")
  case (Some p)
  then have p: "p \<in> set (tp_pending t)" "pt_id p = i" by (auto simp: find_Some_iff)
  define t1 where "t1 = t\<lparr>tp_pending := filter (\<lambda>q. pt_id q \<noteq> i) (tp_pending t)\<rparr>"
  have c: "calm Os t1"
    by (rule fewer_calm [OF assms(1)]) (simp_all add: t1_def)
  have "calm Os (fst (connect opts ok (t1\<lparr>tp_retryTimer := None\<rparr>) :: 'b tp_result))" if "pt_timer p = Retry_timer"
  proof (rule connect_calm)
    have "tp_retryTimer t = Some i"
      using transport_okD(1) [OF assms(2)] p that by (auto simp: retry_ok_def)
    with transport_okD(3) [OF assms(2)] have "tp_state t = Ts_idle" by (cases "tp_state t") auto
    with calm_no_attempt [OF assms(1)]
    show "no_attempt (t1\<lparr>tp_retryTimer := None\<rparr>) \<or> tp_state (t1\<lparr>tp_retryTimer := None\<rparr>) \<noteq> Ts_idle \<and> calm Os (t1\<lparr>tp_retryTimer := None\<rparr>)"
      by (auto simp: no_attempt_def t1_def)
  qed (use calm_socks [OF c] in auto)
  with Some c show ?thesis
    by (auto simp: on_timer_def Let_def t1_def abandon_def handleClose_calm split: timer.split)
qed (use assms in \<open>simp add: on_timer_def\<close>)

lemma orderly_run_calm:
  assumes "calm Os t" "transport_ok opts t" "orderly utf8 parse opts Os t es"
  shows "\<exists>Os'. calm Os' (fst (fold (\<lambda>e r. also_then r (transport_step utf8 parse opts e)) es (t, fx)))"
  using assms
proof (induction es arbitrary: Os t fx)
  case (Cons e es)
  let ?Os = "case e of On_open ws ok \<Rightarrow> insert ws Os | _ \<Rightarrow> Os"
  let ?r = "transport_step utf8 parse opts e t"
  have "calm ?Os (fst ?r)"
    using Cons.prems handleClose_calm [OF Cons.prems(1)]
    by (cases e)
      (simp_all add: start_calm kick_calm send_calm dispose_calm on_open_calm handleMessage_calm on_timer_calm)
  moreover have "transport_ok opts (fst ?r)" by (rule step_ok [OF Cons.prems(2)])
  moreover have "orderly utf8 parse opts ?Os (fst ?r) es" using Cons.prems(3) by simp
  ultimately show ?case
    using Cons.IH [of ?Os "fst ?r" "fx @ snd ?r"] by (simp add: also_then_def split_beta)
qed auto

text \<open>
  With sockets that open at most once and deliver messages only after opening, an attached
  transport has no timer pending at all - nothing but the socket, a failing send or \<open>dispose\<close> can
  end an attachment - and a disposed one has none either, so it keeps no process alive.
\<close>

theorem attached_has_no_timers:
  assumes "orderly utf8 parse opts {} transport_new es"
    and "transport_run utf8 parse opts es = (t, fx)"
    and "attached t \<or> tp_state t = Ts_disposed"
  shows "tp_pending t = []"
proof -
  have "calm {} transport_new" by (simp add: calm_def transport_new_def)
  from orderly_run_calm [OF this new_ok assms(1), of "[]"] assms(2) obtain Os where "calm Os t"
    by (auto simp: transport_run_def)
  then have "no_attempt t"
    using assms(3) by (intro calm_no_attempt) (auto simp: attached_def)
  moreover have "transport_ok opts t"
    using run_ok [of opts utf8 parse es] assms(2) by simp
  then have "tp_retryTimer t = None" "retry_ok opts t"
    using assms(3) transport_okD(3) [of opts t] by (auto simp: transport_ok_def attached_def)
  ultimately have "\<forall>p \<in> set (tp_pending t). False"
    by (auto simp: no_attempt_def retry_ok_def)
  then show ?thesis by (cases "tp_pending t") auto
qed

definition ack_parse :: "jstr \<Rightarrow> nat parse_result" where
  "ack_parse text =
     (if text = [] then Pr_invalid else Pr_known \<lparr>we_type = ''hello.ack'', we_protocol = 1, we_body = 7\<rparr>)"

definition handshake :: "transport_event list" where
  "handshake = [Do_start True, On_open 0 True, On_message 0 (Fd_text [1])]"

theorem attached_has_no_timers_witness:
  "\<exists>t fx. transport_run (\<lambda>_. []) ack_parse sample_options handshake = (t, fx)
     \<and> attached t \<and> Fx_attached 7 \<in> set fx \<and> tp_pending t = []"
proof -
  obtain t fx where r: "transport_run (\<lambda>_. []) ack_parse sample_options handshake = (t, fx)" by fastforce
  then have "attached t" "Fx_attached 7 \<in> set fx"
    by (auto simp: transport_run_def handshake_def also_then_def start_def connect_def on_open_def handleMessage_def
        on_envelope_def coerceFrameText_def ack_parse_def sample_options_def transport_new_def
        set_timeout_def clear_timeout_def Let_def attached_def PROTOCOL_VERSION_def)
  moreover have "orderly (\<lambda>_. []) ack_parse sample_options {} transport_new handshake"
    by (simp add: handshake_def start_def connect_def on_open_def sample_options_def transport_new_def
        set_timeout_def clear_timeout_def Let_def)
  ultimately show ?thesis
    using attached_has_no_timers [OF _ r] r by blast
qed

end
