(* ===== verification/Mcp_Relay.thy ===== *)
theory Mcp_Relay
  imports GM_Prelude
begin

text \<open>
  One direction of the MCP proxy's pipe, \<open>packages/cli/src/mcp-proxy/\<close>: the newline framer
  (\<open>framing.ts\<close>), the serialized writer (\<open>writer.ts\<close>) and the relay between them (\<open>relay.ts\<close>).
  A Buffer is its list of bytes. The relay's pump is an async function: the model keeps where it
  waits (at the interceptor, at a write, at the last write) and each event runs it to its next
  wait, so interceptors, writes and chunks may interleave in any order.
\<close>

type_synonym bytes = "nat list"

abbreviation NEWLINE :: nat where "NEWLINE \<equiv> 10"

section \<open>\<open>LineFramer\<close>\<close>

record framer =
  fr_chunks :: "bytes list"
  fr_pendingSize :: nat
  fr_maxBytes :: nat

definition framer_new :: "nat \<Rightarrow> framer" where
  "framer_new maxBytes = \<lparr>fr_chunks = [], fr_pendingSize = 0, fr_maxBytes = maxBytes\<rparr>"

text \<open>The loop over the newlines of a chunk: the framer, the frames and the rest.\<close>

function take_frames :: "framer \<Rightarrow> bytes \<Rightarrow> framer \<times> bytes list \<times> bytes" where
  "take_frames fr chunk =
     (if NEWLINE \<notin> set chunk then (fr, [], chunk)
      else let piece = takeWhile (\<lambda>b. b \<noteq> NEWLINE) chunk;
               frame = (if fr_chunks fr = [] then piece else concat (fr_chunks fr @ [piece]));
               (fr', frames, rest) =
                 take_frames (fr\<lparr>fr_chunks := [], fr_pendingSize := 0\<rparr>) (drop (length piece + 1) chunk)
           in (fr', frame # frames, rest))"
  by pat_completeness auto
termination
proof (relation "measure (length \<circ> snd)", goal_cases)
  case (2 fr chunk piece)
  then show ?case by (cases chunk) auto
qed simp

declare take_frames.simps [simp del]

text \<open>The frames and whether the tail overflowed.\<close>

definition framer_append :: "bytes \<Rightarrow> framer \<Rightarrow> framer \<times> bytes list \<times> bool" where
  "framer_append chunk fr =
     (let (fr1, frames, rest) = take_frames fr chunk;
          fr2 = (if rest = [] then fr1
                 else fr1\<lparr>fr_chunks := fr_chunks fr1 @ [rest], fr_pendingSize := fr_pendingSize fr1 + length rest\<rparr>)
      in (fr2, frames, fr_maxBytes fr2 < fr_pendingSize fr2))"

definition takePending :: "framer \<Rightarrow> framer \<times> bytes" where
  "takePending fr =
     (if fr_chunks fr = [] then (fr, [])
      else (fr\<lparr>fr_chunks := [], fr_pendingSize := 0\<rparr>,
            if length (fr_chunks fr) = 1 then fr_chunks fr ! 0 else concat (fr_chunks fr)))"

section \<open>\<open>FrameWriter\<close>\<close>

datatype job = Write bytes | End

text \<open>\<open>wr_tail\<close>: the jobs chained on the promise; then the stream: closed, and what it received.\<close>

record writer =
  wr_tail :: "job list"
  wr_ended :: bool
  wr_failed :: bool
  wr_closed :: bool
  wr_received :: bytes

definition writer_new :: writer where
  "writer_new = \<lparr>wr_tail = [], wr_ended = False, wr_failed = False, wr_closed = False, wr_received = []\<rparr>"

definition enqueue :: "bytes \<Rightarrow> writer \<Rightarrow> writer" where
  "enqueue data w = w\<lparr>wr_tail := wr_tail w @ [Write data]\<rparr>"

definition writeFrame :: "bytes \<Rightarrow> writer \<Rightarrow> writer" where
  "writeFrame raw w = enqueue (raw @ [NEWLINE]) w"

definition writeRaw :: "bytes \<Rightarrow> writer \<Rightarrow> writer" where
  "writeRaw raw w = (if raw = [] then w else enqueue raw w)"

definition writer_end :: "writer \<Rightarrow> writer" where
  "writer_end w = (if wr_ended w then w else w\<lparr>wr_tail := wr_tail w @ [End], wr_ended := True\<rparr>)"

text \<open>\<open>throws\<close>: the stream's \<open>write\<close> throws.\<close>

definition writeOne :: "bytes \<Rightarrow> bool \<Rightarrow> writer \<Rightarrow> writer" where
  "writeOne data throws w =
     (if wr_failed w \<or> wr_closed w then w
      else if throws then w\<lparr>wr_failed := True\<rparr>
      else w\<lparr>wr_received := wr_received w @ data\<rparr>)"

definition endOne :: "writer \<Rightarrow> writer" where
  "endOne w = (if wr_failed w \<or> wr_closed w then w else w\<lparr>wr_closed := True\<rparr>)"

text \<open>The next job of the chain runs; \<open>stream_error\<close>: the stream emits an error.\<close>

definition run_job :: "bool \<Rightarrow> writer \<Rightarrow> writer" where
  "run_job throws w =
     (case wr_tail w of
        [] \<Rightarrow> w
      | Write data # jobs \<Rightarrow> writeOne data throws (w\<lparr>wr_tail := jobs\<rparr>)
      | End # jobs \<Rightarrow> endOne (w\<lparr>wr_tail := jobs\<rparr>))"

definition stream_error :: "writer \<Rightarrow> writer" where
  "stream_error w = w\<lparr>wr_failed := True\<rparr>"

section \<open>\<open>FrameRelay\<close>\<close>

datatype frame_action = Forward | Replace bytes | Drop

datatype queue_item = Q_frame bytes | Q_raw bytes

text \<open>Where the pump waits; \<open>rl_last\<close>: \<open>finish\<close> waits for its write.\<close>

datatype pump_wait = Pw_none | Pw_intercept bytes | Pw_write

record relay =
  rl_framer :: framer
  rl_queue :: "queue_item list"
  rl_pumping :: bool
  rl_degraded :: bool
  rl_sourceEnded :: bool
  rl_settled :: bool
  rl_finished :: bool
  rl_wait :: pump_wait
  rl_last :: bool

definition relay_new :: "nat \<Rightarrow> relay" where
  "relay_new maxFrameBytes =
     \<lparr>rl_framer = framer_new maxFrameBytes, rl_queue = [], rl_pumping = False, rl_degraded = False,
      rl_sourceEnded = False, rl_settled = False, rl_finished = False, rl_wait = Pw_none, rl_last = False\<rparr>"

datatype relay_effect =
    Rx_pause
  | Rx_resume
  | Rx_intercept bytes
  | Rx_intercept_error
  | Rx_decided frame_action
  | Rx_frame bytes
  | Rx_raw bytes
  | Rx_degrade nat
  | Rx_finished

type_synonym relayed = "relay \<times> relay_effect list"

text \<open>After the source ended and the queue is empty.\<close>

definition finish :: "relay \<Rightarrow> relayed" where
  "finish r =
     (if rl_settled r then (r, [])
      else let (fr, pending) = takePending (rl_framer r);
               r1 = r\<lparr>rl_settled := True, rl_framer := fr\<rparr>
           in if pending \<noteq> [] then (r1\<lparr>rl_last := True\<rparr>, [Rx_raw pending])
              else (r1\<lparr>rl_finished := True\<rparr>, [Rx_finished]))"

text \<open>The loop of the pump from its condition to its next wait, with the \<open>finally\<close> block.\<close>

definition pump_loop :: "relay \<Rightarrow> relayed" where
  "pump_loop r =
     (case rl_queue r of
        Q_raw data # q \<Rightarrow> (r\<lparr>rl_queue := q, rl_wait := Pw_write\<rparr>, [Rx_raw data])
      | Q_frame raw # q \<Rightarrow> (r\<lparr>rl_queue := q, rl_wait := Pw_intercept raw\<rparr>, [Rx_intercept raw])
      | [] \<Rightarrow>
          (let r1 = r\<lparr>rl_pumping := False, rl_wait := Pw_none\<rparr>
           in if rl_sourceEnded r1 then finish r1 else (r1, [Rx_resume])))"

definition pump :: "relay \<Rightarrow> relayed" where
  "pump r = (let (r', fx) = pump_loop (r\<lparr>rl_pumping := True\<rparr>) in (r', Rx_pause # fx))"

definition onChunk :: "bytes \<Rightarrow> relay \<Rightarrow> relayed" where
  "onChunk chunk r =
     (let (r1, fx) =
            (if rl_degraded r then (r\<lparr>rl_queue := rl_queue r @ [Q_raw chunk]\<rparr>, [])
             else let (fr, frames, overflowed) = framer_append chunk (rl_framer r);
                      r0 = r\<lparr>rl_framer := fr, rl_queue := rl_queue r @ map Q_frame frames\<rparr>
                  in if \<not> overflowed then (r0, [])
                     else let (fr', pending) = takePending fr
                          in (r0\<lparr>rl_degraded := True, rl_framer := fr',
                                 rl_queue := rl_queue r0 @ (if pending \<noteq> [] then [Q_raw pending] else [])\<rparr>,
                              [Rx_degrade (length pending)]))
      in if rl_pumping r1 then (r1, fx)
         else let (r2, fx') = pump r1 in (r2, fx @ fx'))"

text \<open>\<open>relayOne\<close> after the interceptor answered; None is a throw.\<close>

definition relayOne :: "frame_action option \<Rightarrow> bytes \<Rightarrow> relay \<Rightarrow> relayed" where
  "relayOne answer raw r =
     (let (action, fx) = (case answer of Some a \<Rightarrow> (a, []) | None \<Rightarrow> (Forward, [Rx_intercept_error]))
      in if action = Drop then (let (r', fx') = pump_loop r in (r', fx @ [Rx_decided Drop] @ fx'))
         else (r\<lparr>rl_wait := Pw_write\<rparr>,
               fx @ [Rx_decided action, Rx_frame (case action of Replace raw' \<Rightarrow> raw' | _ \<Rightarrow> raw)]))"

definition onSourceEnd :: "relay \<Rightarrow> relayed" where
  "onSourceEnd r =
     (if rl_sourceEnded r then (r, [])
      else let r1 = r\<lparr>rl_sourceEnded := True\<rparr>
           in if rl_pumping r1 then (r1, [])
              else if rl_queue r1 \<noteq> [] then pump r1
              else finish r1)"

datatype relay_event =
    Rv_chunk bytes
  | Rv_end
  | Rv_answer "frame_action option"
  | Rv_written
  | Rv_last_written

text \<open>An answer or a completed write resumes the function that waits for it.\<close>

fun relay_step :: "relay_event \<Rightarrow> relay \<Rightarrow> relayed" where
  "relay_step (Rv_chunk chunk) r = onChunk chunk r"
| "relay_step Rv_end r = onSourceEnd r"
| "relay_step (Rv_answer answer) r =
     (case rl_wait r of Pw_intercept raw \<Rightarrow> relayOne answer raw r | _ \<Rightarrow> (r, []))"
| "relay_step Rv_written r =
     (case rl_wait r of Pw_write \<Rightarrow> pump_loop r | _ \<Rightarrow> (r, []))"
| "relay_step Rv_last_written r =
     (if rl_last r then (r\<lparr>rl_last := False, rl_finished := True\<rparr>, [Rx_finished]) else (r, []))"

fun relay_run :: "relay_event list \<Rightarrow> relay \<Rightarrow> relayed" where
  "relay_run [] r = (r, [])"
| "relay_run (e # es) r = (let (r1, fx) = relay_step e r; (r2, fx') = relay_run es r1 in (r2, fx @ fx'))"

section \<open>Framing keeps every byte\<close>

definition lines :: "bytes list \<Rightarrow> bytes" where
  "lines frames = concat (map (\<lambda>f. f @ [NEWLINE]) frames)"

definition framer_ok :: "framer \<Rightarrow> bool" where
  "framer_ok fr \<longleftrightarrow> fr_pendingSize fr = length (concat (fr_chunks fr)) \<and> NEWLINE \<notin> set (concat (fr_chunks fr))"

lemma lines_simps [simp]: "lines [] = []" "lines (f # fs) = f @ NEWLINE # lines fs"
  by (simp_all add: lines_def)

lemma first_line:
  assumes "NEWLINE \<in> set s"
  shows "takeWhile (\<lambda>b. b \<noteq> NEWLINE) s @ NEWLINE # drop (length (takeWhile (\<lambda>b. b \<noteq> NEWLINE) s) + 1) s = s"
  using assms by (induction s) auto

lemma take_frames_none: "NEWLINE \<notin> set chunk \<Longrightarrow> take_frames fr chunk = (fr, [], chunk)"
  by (simp add: take_frames.simps)

lemma take_frames_some:
  assumes "NEWLINE \<in> set chunk"
    and "take_frames (fr\<lparr>fr_chunks := [], fr_pendingSize := 0\<rparr>)
        (drop (length (takeWhile (\<lambda>b. b \<noteq> NEWLINE) chunk) + 1) chunk) = (fr', fs, rest)"
  shows "take_frames fr chunk
    = (fr', (concat (fr_chunks fr) @ takeWhile (\<lambda>b. b \<noteq> NEWLINE) chunk) # fs, rest)"
  using assms(2) by (subst take_frames.simps) (simp add: assms(1) Let_def)

lemma take_frames_bytes:
  assumes "take_frames fr chunk = (fr', frames, rest)" and "framer_ok fr"
  shows "lines frames @ concat (fr_chunks fr') @ rest = concat (fr_chunks fr) @ chunk
    \<and> framer_ok fr' \<and> NEWLINE \<notin> set rest \<and> (\<forall>f \<in> set frames. NEWLINE \<notin> set f)
    \<and> fr_maxBytes fr' = fr_maxBytes fr"
  using assms
proof (induction fr chunk arbitrary: fr' frames rest rule: take_frames.induct)
  case (1 fr chunk)
  show ?case
  proof (cases "NEWLINE \<in> set chunk")
    case False
    with 1(2,3) show ?thesis by (auto simp: take_frames_none)
  next
    case True
    let ?piece = "takeWhile (\<lambda>b. b \<noteq> NEWLINE) chunk"
    let ?fr = "fr\<lparr>fr_chunks := [], fr_pendingSize := 0\<rparr>"
    obtain fr1 fs rest1 where r: "take_frames ?fr (drop (length ?piece + 1) chunk) = (fr1, fs, rest1)"
      by (rule prod_cases3)
    have eq: "fr' = fr1" "frames = (concat (fr_chunks fr) @ ?piece) # fs" "rest = rest1"
      using 1(2) unfolding take_frames_some [OF True r] by simp_all
    have piece: "NEWLINE \<notin> set ?piece"
      by (metis (mono_tags) set_takeWhileD)
    have "lines fs @ concat (fr_chunks fr1) @ rest1 = drop (length ?piece + 1) chunk
      \<and> framer_ok fr1 \<and> NEWLINE \<notin> set rest1 \<and> (\<forall>f \<in> set fs. NEWLINE \<notin> set f)
      \<and> fr_maxBytes fr1 = fr_maxBytes fr"
      using 1(1) [OF _ refl refl r] True by (simp add: framer_ok_def)
    with eq first_line [OF True] piece 1(3) show ?thesis
      by (auto simp: framer_ok_def)
  qed
qed

lemma framer_append_bytes:
  assumes "framer_append chunk fr = (fr', frames, overflowed)" and "framer_ok fr"
  shows "lines frames @ concat (fr_chunks fr') = concat (fr_chunks fr) @ chunk"
    and "framer_ok fr'" and "\<forall>f \<in> set frames. NEWLINE \<notin> set f"
    and "overflowed \<longleftrightarrow> fr_maxBytes fr < length (concat (fr_chunks fr'))"
    and "fr_maxBytes fr' = fr_maxBytes fr"
proof -
  obtain fr1 fs rest where t: "take_frames fr chunk = (fr1, fs, rest)"
    by (rule prod_cases3)
  note b = take_frames_bytes [OF t assms(2)]
  have eq: "fr' = (if rest = [] then fr1
      else fr1\<lparr>fr_chunks := fr_chunks fr1 @ [rest], fr_pendingSize := fr_pendingSize fr1 + length rest\<rparr>)"
    "frames = fs" "overflowed = (fr_maxBytes fr' < fr_pendingSize fr')"
    using assms(1) t by (auto simp: framer_append_def Let_def)
  show "lines frames @ concat (fr_chunks fr') = concat (fr_chunks fr) @ chunk"
    using b eq(1,2) by (cases "rest = []") auto
  show ok: "framer_ok fr'"
    using b eq(1) by (cases "rest = []") (auto simp: framer_ok_def)
  show "\<forall>f \<in> set frames. NEWLINE \<notin> set f" using b eq(2) by simp
  show "overflowed \<longleftrightarrow> fr_maxBytes fr < length (concat (fr_chunks fr'))"
    using b eq(1,3) ok by (cases "rest = []") (auto simp: framer_ok_def)
  show "fr_maxBytes fr' = fr_maxBytes fr" using b eq(1) by simp
qed

lemma takePending_bytes:
  "takePending fr = (fr', p) \<Longrightarrow> p = concat (fr_chunks fr) \<and> fr_chunks fr' = [] \<and> framer_ok fr'
    \<or> \<not> framer_ok fr"
  by (cases "fr_chunks fr" rule: remdups_adj.cases) (auto simp: takePending_def framer_ok_def)

section \<open>What the relay does with the stream\<close>

text \<open>
  A monitor over the effects alone: whether a frame is held at the interceptor or its replacement
  owed to the sink, the bytes of the source dealt with so far, and the bytes given to the sink.
\<close>

datatype relay_mode = Free | Held bytes | Owes bytes

record monitor =
  mo_mode :: relay_mode
  mo_taken :: bytes
  mo_out :: bytes

fun monitor_step :: "relay_effect \<Rightarrow> monitor \<Rightarrow> monitor option" where
  "monitor_step (Rx_intercept raw) m =
     (if mo_mode m = Free
      then Some (m\<lparr>mo_mode := Held raw, mo_taken := mo_taken m @ raw @ [NEWLINE]\<rparr>) else None)"
| "monitor_step (Rx_decided action) m =
     (case mo_mode m of
        Held raw \<Rightarrow> Some (m\<lparr>mo_mode := (case action of Forward \<Rightarrow> Owes raw | Replace raw' \<Rightarrow> Owes raw' | Drop \<Rightarrow> Free)\<rparr>)
      | _ \<Rightarrow> None)"
| "monitor_step (Rx_frame raw) m =
     (if mo_mode m = Owes raw then Some (m\<lparr>mo_mode := Free, mo_out := mo_out m @ raw @ [NEWLINE]\<rparr>) else None)"
| "monitor_step (Rx_raw data) m =
     (if mo_mode m = Free then Some (m\<lparr>mo_taken := mo_taken m @ data, mo_out := mo_out m @ data\<rparr>) else None)"
| "monitor_step _ m = Some m"

fun monitor_run :: "relay_effect list \<Rightarrow> monitor \<Rightarrow> monitor option" where
  "monitor_run [] m = Some m"
| "monitor_run (e # es) m = (case monitor_step e m of None \<Rightarrow> None | Some m' \<Rightarrow> monitor_run es m')"

lemma monitor_run_append:
  "monitor_run (es @ es') m = (case monitor_run es m of None \<Rightarrow> None | Some m' \<Rightarrow> monitor_run es' m')"
  by (induction es m rule: monitor_run.induct) (auto split: option.split)

definition monitor_new :: monitor where
  "monitor_new = \<lparr>mo_mode = Free, mo_taken = [], mo_out = []\<rparr>"

fun item_bytes :: "queue_item \<Rightarrow> bytes" where
  "item_bytes (Q_frame f) = f @ [NEWLINE]"
| "item_bytes (Q_raw d) = d"

text \<open>Bytes received and not yet dealt with.\<close>

definition backlog :: "relay \<Rightarrow> bytes" where
  "backlog r = concat (map item_bytes (rl_queue r)) @ concat (fr_chunks (rl_framer r))"

definition mode_of :: "relay \<Rightarrow> relay_mode" where
  "mode_of r = (case rl_wait r of Pw_intercept raw \<Rightarrow> Held raw | _ \<Rightarrow> Free)"

text \<open>Framing never holds more than the limit; once given up it holds nothing.\<close>

definition framing_ok :: "framer \<Rightarrow> bool \<Rightarrow> bool" where
  "framing_ok fr degraded \<longleftrightarrow> framer_ok fr
     \<and> length (concat (fr_chunks fr)) \<le> (if degraded then 0 else fr_maxBytes fr)"

definition relay_ok :: "relay \<Rightarrow> bool" where
  "relay_ok r \<longleftrightarrow> framing_ok (rl_framer r) (rl_degraded r)
     \<and> (rl_pumping r \<longleftrightarrow> rl_wait r \<noteq> Pw_none) \<and> (\<not> rl_pumping r \<longrightarrow> rl_queue r = [])
     \<and> (rl_sourceEnded r \<and> \<not> rl_pumping r \<longrightarrow> rl_settled r)
     \<and> (rl_settled r \<longrightarrow> rl_sourceEnded r \<and> rl_last r \<noteq> rl_finished r)
     \<and> (\<not> rl_settled r \<longrightarrow> \<not> rl_last r \<and> \<not> rl_finished r)"

text \<open>A step of the relay: the monitor follows it, \<open>arrived\<close> is what came in.\<close>

definition follows :: "relay \<Rightarrow> bytes \<Rightarrow> relayed \<Rightarrow> bool" where
  "follows r arrived s \<longleftrightarrow>
     (\<forall>m. mo_mode m = mode_of r \<longrightarrow>
        (\<exists>m'. monitor_run (snd s) m = Some m' \<and> mo_mode m' = mode_of (fst s)
           \<and> mo_taken m' @ backlog (fst s) = mo_taken m @ backlog r @ arrived))"

lemma lines_as_items: "concat (map (item_bytes \<circ> Q_frame) fs) = lines fs"
  by (induction fs) simp_all

lemma follows_same:
  assumes "mode_of r1 = mode_of r" "backlog r1 = backlog r @ arrived" "follows r1 [] s"
  shows "follows r arrived s"
  using assms by (simp add: follows_def)

lemma follows_quietly:
  assumes "follows r arrived (r', fx)" "\<And>m. monitor_run fx0 m = Some m"
  shows "follows r arrived (r', fx0 @ fx)"
  using assms by (simp add: follows_def monitor_run_append)

lemma finish_follows:
  assumes "rl_queue r = []" "rl_wait r = Pw_none" "framer_ok (rl_framer r)"
  shows "follows r [] (finish r)"
proof (cases "rl_settled r")
  case True
  then show ?thesis by (simp add: finish_def follows_def)
next
  case False
  obtain fr p where t: "takePending (rl_framer r) = (fr, p)" by fastforce
  with takePending_bytes [OF t] assms(3) have "concat (fr_chunks (rl_framer r)) = p" "fr_chunks fr = []" by auto
  with False t assms show ?thesis
    by (cases "p = []")
      (simp_all add: finish_def follows_def backlog_def mode_of_def Let_def del: concat_eq_Nil_conv)
qed

lemma pump_loop_follows:
  assumes "mode_of r = Free" "framer_ok (rl_framer r)"
  shows "follows r [] (pump_loop r)"
proof (cases "rl_queue r")
  case Nil
  let ?r = "r\<lparr>rl_pumping := False, rl_wait := Pw_none\<rparr>"
  have "follows ?r [] (finish ?r)"
    using Nil assms(2) by (intro finish_follows) simp_all
  moreover have "follows ?r [] (?r, [Rx_resume])"
    by (simp add: follows_def)
  moreover have "pump_loop r = (if rl_sourceEnded r then finish ?r else (?r, [Rx_resume]))"
    using Nil by (simp add: pump_loop_def Let_def)
  ultimately show ?thesis
    using assms(1) by (auto simp: backlog_def mode_of_def intro!: follows_same [of ?r r])
next
  case (Cons item q)
  with assms show ?thesis
    by (cases item) (auto simp: pump_loop_def follows_def backlog_def mode_of_def)
qed

lemma pump_follows:
  assumes "rl_wait r = Pw_none" "framer_ok (rl_framer r)"
  shows "follows r [] (pump r)"
proof -
  let ?r = "r\<lparr>rl_pumping := True\<rparr>"
  have "follows ?r [] (pump_loop ?r)"
    using assms by (intro pump_loop_follows) (simp_all add: mode_of_def)
  then have "follows r [] (fst (pump_loop ?r), snd (pump_loop ?r))"
    by (intro follows_same [of ?r r]) (simp_all add: mode_of_def backlog_def)
  then have "follows r [] (fst (pump_loop ?r), [Rx_pause] @ snd (pump_loop ?r))"
    by (rule follows_quietly) simp
  then show ?thesis by (simp add: pump_def split_beta)
qed

text \<open>What a chunk does before the pump is looked at.\<close>

definition take_chunk :: "bytes \<Rightarrow> relay \<Rightarrow> relayed" where
  "take_chunk chunk r =
     (if rl_degraded r then (r\<lparr>rl_queue := rl_queue r @ [Q_raw chunk]\<rparr>, [])
      else let (fr, frames, overflowed) = framer_append chunk (rl_framer r);
               r0 = r\<lparr>rl_framer := fr, rl_queue := rl_queue r @ map Q_frame frames\<rparr>
           in if \<not> overflowed then (r0, [])
              else let (fr', pending) = takePending fr
                   in (r0\<lparr>rl_degraded := True, rl_framer := fr',
                          rl_queue := rl_queue r0 @ (if pending \<noteq> [] then [Q_raw pending] else [])\<rparr>,
                       [Rx_degrade (length pending)]))"

lemma onChunk_eq:
  "onChunk chunk r =
     (let (r1, fx) = take_chunk chunk r
      in if rl_pumping r1 then (r1, fx) else let (r2, fx') = pump r1 in (r2, fx @ fx'))"
  unfolding onChunk_def take_chunk_def by (rule refl)

lemma take_chunk_frame:
  assumes "take_chunk chunk r = (r1, fx)"
  shows "rl_wait r1 = rl_wait r" "rl_pumping r1 = rl_pumping r" "rl_sourceEnded r1 = rl_sourceEnded r"
    "rl_settled r1 = rl_settled r" "rl_finished r1 = rl_finished r" "rl_last r1 = rl_last r"
    "monitor_run fx m = Some m"
  using assms by (auto simp: take_chunk_def Let_def split: if_splits prod.splits)

lemma take_chunk_backlog:
  assumes "take_chunk chunk r = (r1, fx)" and "framing_ok (rl_framer r) (rl_degraded r)"
  shows "backlog r1 = backlog r @ chunk" and "framing_ok (rl_framer r1) (rl_degraded r1)"
proof -
  have ok: "framer_ok (rl_framer r)" "rl_degraded r \<longrightarrow> concat (fr_chunks (rl_framer r)) = []"
    using assms(2) by (auto simp: framing_ok_def)
  obtain fr fs ov where a: "framer_append chunk (rl_framer r) = (fr, fs, ov)" by (rule prod_cases3)
  note f = framer_append_bytes [OF a ok(1)]
  obtain fr' p where t: "takePending fr = (fr', p)" by fastforce
  have p: "concat (fr_chunks fr) = p" "fr_chunks fr' = []" "framer_ok fr'"
    using takePending_bytes [OF t] f(2) by auto
  show "backlog r1 = backlog r @ chunk"
    using assms(1) ok(2) a t p f(1)
    by (auto simp: take_chunk_def backlog_def lines_as_items Let_def simp del: concat_eq_Nil_conv split: if_splits)
  show "framing_ok (rl_framer r1) (rl_degraded r1)"
    using assms a t p f(2,4,5) by (auto simp: take_chunk_def Let_def framing_ok_def split: if_splits)
qed

lemma onChunk_follows:
  assumes "relay_ok r"
  shows "follows r chunk (onChunk chunk r)"
proof -
  obtain r1 fx where t: "take_chunk chunk r = (r1, fx)" by fastforce
  note frame = take_chunk_frame [OF t]
  have b: "backlog r1 = backlog r @ chunk" "framer_ok (rl_framer r1)"
    using take_chunk_backlog [OF t] assms by (simp_all add: relay_ok_def framing_ok_def)
  show ?thesis
  proof (cases "rl_pumping r1")
    case True
    with t b frame(1,7) show ?thesis
      by (auto simp: onChunk_eq follows_def mode_of_def)
  next
    case False
    with frame(1,2) assms have "rl_wait r1 = Pw_none" by (auto simp: relay_ok_def)
    then have "follows r chunk (fst (pump r1), snd (pump r1))"
      using b frame(1) by (intro follows_same [of r1 r]) (simp_all add: pump_follows mode_of_def)
    then have "follows r chunk (fst (pump r1), fx @ snd (pump r1))"
      by (rule follows_quietly) (rule frame(7))
    with t False show ?thesis by (simp add: onChunk_eq split_beta)
  qed
qed

lemma relayOne_follows:
  assumes "relay_ok r" "rl_wait r = Pw_intercept raw"
  shows "follows r [] (relayOne answer raw r)"
proof (cases "answer = Some Drop")
  case False
  with assms(2) show ?thesis
    by (cases answer) (auto simp: relayOne_def follows_def mode_of_def backlog_def split: frame_action.splits)
next
  case True
  have "follows (r\<lparr>rl_wait := Pw_write\<rparr>) [] (pump_loop (r\<lparr>rl_wait := Pw_write\<rparr>))"
    using assms(1) by (intro pump_loop_follows) (simp_all add: mode_of_def relay_ok_def framing_ok_def)
  moreover have "pump_loop (r\<lparr>rl_wait := Pw_write\<rparr>) = pump_loop r"
    by (cases r) (simp add: pump_loop_def split: list.split queue_item.split)
  ultimately have free: "follows (r\<lparr>rl_wait := Pw_write\<rparr>) [] (pump_loop r)"
    by simp
  show ?thesis
    unfolding follows_def
  proof (intro allI impI)
    fix m :: monitor assume m: "mo_mode m = mode_of r"
    let ?m = "m\<lparr>mo_mode := Free\<rparr>"
    have "mo_mode ?m = mode_of (r\<lparr>rl_wait := Pw_write\<rparr>)" "backlog (r\<lparr>rl_wait := Pw_write\<rparr>) = backlog r"
      by (simp_all add: mode_of_def backlog_def)
    with free obtain m' where "monitor_run (snd (pump_loop r)) ?m = Some m'"
      "mo_mode m' = mode_of (fst (pump_loop r))" "mo_taken m' @ backlog (fst (pump_loop r)) = mo_taken m @ backlog r"
      unfolding follows_def by fastforce
    moreover have "relayOne answer raw r = (fst (pump_loop r), Rx_decided Drop # snd (pump_loop r))"
      using True by (simp add: relayOne_def split_beta)
    ultimately show "\<exists>m'. monitor_run (snd (relayOne answer raw r)) m = Some m'
        \<and> mo_mode m' = mode_of (fst (relayOne answer raw r))
        \<and> mo_taken m' @ backlog (fst (relayOne answer raw r)) = mo_taken m @ backlog r @ []"
      using m assms(2) by (auto simp: mode_of_def)
  qed
qed

section \<open>The relay's own invariant\<close>

lemma finish_ok:
  assumes "framing_ok (rl_framer r) (rl_degraded r)" "rl_sourceEnded r" "\<not> rl_pumping r"
    and "rl_wait r = Pw_none" "rl_queue r = []"
    and "rl_settled r \<longrightarrow> rl_last r \<noteq> rl_finished r" "\<not> rl_settled r \<longrightarrow> \<not> rl_last r \<and> \<not> rl_finished r"
  shows "relay_ok (fst (finish r))"
proof -
  obtain fr p where t: "takePending (rl_framer r) = (fr, p)" by fastforce
  with takePending_bytes [OF t] assms(1) have "framing_ok fr (rl_degraded r)"
    by (auto simp: framing_ok_def)
  with t assms show ?thesis
    by (cases "p = []") (auto simp: finish_def relay_ok_def Let_def)
qed

text \<open>What holds while the pump is about to look at the queue.\<close>

definition pump_ready :: "relay \<Rightarrow> bool" where
  "pump_ready r \<longleftrightarrow> framing_ok (rl_framer r) (rl_degraded r) \<and> rl_pumping r
     \<and> (rl_settled r \<longrightarrow> rl_sourceEnded r \<and> rl_last r \<noteq> rl_finished r)
     \<and> (\<not> rl_settled r \<longrightarrow> \<not> rl_last r \<and> \<not> rl_finished r)"

lemma pump_loop_ok:
  assumes "pump_ready r"
  shows "relay_ok (fst (pump_loop r))"
proof (cases "rl_queue r")
  case Nil
  let ?r = "r\<lparr>rl_pumping := False, rl_wait := Pw_none\<rparr>"
  have "relay_ok (fst (finish ?r))" if "rl_sourceEnded r"
    by (rule finish_ok) (use that assms Nil in \<open>auto simp: pump_ready_def\<close>)
  moreover have "relay_ok ?r" if "\<not> rl_sourceEnded r"
    using that assms Nil by (auto simp: pump_ready_def relay_ok_def)
  ultimately show ?thesis
    using Nil by (simp add: pump_loop_def Let_def)
next
  case (Cons item q)
  with assms show ?thesis
    by (cases item) (auto simp: pump_loop_def pump_ready_def relay_ok_def)
qed

lemma pump_ok: "pump_ready (r\<lparr>rl_pumping := True\<rparr>) \<Longrightarrow> relay_ok (fst (pump r))"
  using pump_loop_ok by (simp add: pump_def split_beta)

lemma relay_ok_ready: "relay_ok r \<Longrightarrow> pump_ready (r\<lparr>rl_pumping := True\<rparr>)"
  by (simp add: relay_ok_def pump_ready_def)

lemma onChunk_ok:
  assumes "relay_ok r"
  shows "relay_ok (fst (onChunk chunk r))"
proof -
  obtain r1 fx where t: "take_chunk chunk r = (r1, fx)" by fastforce
  note frame = take_chunk_frame [OF t] and t' = take_chunk_backlog [OF t]
  show ?thesis
  proof (cases "rl_pumping r1")
    case True
    with t frame t' assms show ?thesis
      by (auto simp: onChunk_eq relay_ok_def)
  next
    case False
    then have "pump_ready (r1\<lparr>rl_pumping := True\<rparr>)"
      using frame t' assms by (auto simp: relay_ok_def pump_ready_def)
    with t False pump_ok show ?thesis by (simp add: onChunk_eq split_beta)
  qed
qed

lemma relay_step_ok:
  assumes "relay_ok r"
  shows "relay_ok (fst (relay_step e r))"
proof (cases e)
  case (Rv_chunk chunk)
  with assms onChunk_ok show ?thesis by simp
next
  case Rv_end
  let ?r = "r\<lparr>rl_sourceEnded := True\<rparr>"
  have "relay_ok (fst (finish ?r))" if "\<not> rl_pumping r"
    by (rule finish_ok) (use that assms in \<open>auto simp: relay_ok_def\<close>)
  with Rv_end assms show ?thesis
    by (auto simp: onSourceEnd_def Let_def relay_ok_def)
next
  case (Rv_answer answer)
  show ?thesis
  proof (cases "rl_wait r")
    case (Pw_intercept raw)
    then have "pump_ready r" "relay_ok (r\<lparr>rl_wait := Pw_write\<rparr>)"
      using assms by (auto simp: relay_ok_def pump_ready_def)
    with Rv_answer Pw_intercept pump_loop_ok show ?thesis
      by (auto simp: relayOne_def split_beta split: option.split)
  qed (use assms Rv_answer in auto)
next
  case Rv_written
  show ?thesis
  proof (cases "rl_wait r")
    case Pw_write
    with assms have "pump_ready r" by (auto simp: relay_ok_def pump_ready_def)
    with Rv_written Pw_write pump_loop_ok show ?thesis by simp
  qed (use assms Rv_written in auto)
next
  case Rv_last_written
  with assms show ?thesis by (auto simp: relay_ok_def)
qed

fun arrived :: "relay_event list \<Rightarrow> bytes" where
  "arrived [] = []"
| "arrived (Rv_chunk c # es) = c @ arrived es"
| "arrived (_ # es) = arrived es"

lemma relay_step_follows:
  assumes "relay_ok r"
  shows "follows r (arrived [e]) (relay_step e r)"
proof (cases e)
  case (Rv_chunk chunk)
  with onChunk_follows [OF assms] show ?thesis by simp
next
  case Rv_end
  let ?r = "r\<lparr>rl_sourceEnded := True\<rparr>"
  have "follows r [] (finish ?r)" if "\<not> rl_pumping r"
    by (rule follows_same [of ?r], unfold mode_of_def backlog_def, simp_all, rule finish_follows)
      (use that assms in \<open>auto simp: relay_ok_def framing_ok_def\<close>)
  moreover have "follows r [] (?r, [])"
    by (simp add: follows_def mode_of_def backlog_def)
  ultimately show ?thesis
    using Rv_end assms by (auto simp: onSourceEnd_def Let_def relay_ok_def follows_def)
next
  case (Rv_answer answer)
  with relayOne_follows [OF assms] show ?thesis
    by (auto simp: follows_def split: pump_wait.split)
next
  case Rv_written
  have "follows r [] (pump_loop r)" if "rl_wait r = Pw_write"
    using assms that by (intro pump_loop_follows) (simp_all add: mode_of_def relay_ok_def framing_ok_def)
  with Rv_written show ?thesis
    by (auto simp: follows_def split: pump_wait.split)
next
  case Rv_last_written
  then show ?thesis by (auto simp: follows_def mode_of_def backlog_def)
qed

section \<open>Whole runs\<close>

lemma arrived_Cons: "arrived (e # es) = arrived [e] @ arrived es"
  by (cases e) simp_all

lemma relay_run_follows:
  assumes "relay_ok r"
  shows "follows r (arrived es) (relay_run es r) \<and> relay_ok (fst (relay_run es r))"
  using assms
proof (induction es arbitrary: r)
  case Nil
  then show ?case by (simp add: follows_def)
next
  case (Cons e es)
  have "follows r (arrived [e]) (relay_step e r)" by (rule relay_step_follows [OF Cons.prems])
  moreover have "follows (fst (relay_step e r)) (arrived es) (relay_run es (fst (relay_step e r)))"
    "relay_ok (fst (relay_run es (fst (relay_step e r))))"
    using Cons.IH [OF relay_step_ok [OF Cons.prems]] by simp_all
  ultimately show ?case
    unfolding follows_def arrived_Cons [of e es]
    by (fastforce simp: split_beta monitor_run_append)
qed

lemma finish_limit: "fr_maxBytes (rl_framer (fst (finish r))) = fr_maxBytes (rl_framer r)"
  by (simp add: finish_def takePending_def Let_def split_beta)

lemma pump_loop_limit: "fr_maxBytes (rl_framer (fst (pump_loop r))) = fr_maxBytes (rl_framer r)"
  by (simp add: pump_loop_def Let_def finish_limit split: list.split queue_item.split)

lemma pump_limit: "fr_maxBytes (rl_framer (fst (pump r))) = fr_maxBytes (rl_framer r)"
  by (simp add: pump_def split_beta pump_loop_limit)

lemma take_frames_limit: "fr_maxBytes (fst (take_frames fr chunk)) = fr_maxBytes fr"
proof (induction fr chunk rule: take_frames.induct)
  case (1 fr chunk)
  then show ?case
    by (subst take_frames.simps) (simp add: Let_def split_beta)
qed

lemma take_chunk_limit: "fr_maxBytes (rl_framer (fst (take_chunk chunk r))) = fr_maxBytes (rl_framer r)"
  by (simp add: take_chunk_def framer_append_def takePending_def Let_def split_beta take_frames_limit)

lemma relay_step_limit: "fr_maxBytes (rl_framer (fst (relay_step e r))) = fr_maxBytes (rl_framer r)"
  by (cases e) (simp_all add: onChunk_eq onSourceEnd_def relayOne_def Let_def split_beta take_chunk_limit
      pump_limit finish_limit pump_loop_limit split: pump_wait.split option.split)

lemma relay_run_limit: "fr_maxBytes (rl_framer (fst (relay_run es r))) = fr_maxBytes (rl_framer r)"
  by (induction es arbitrary: r) (simp_all add: split_beta relay_step_limit)

lemma relay_new_ok: "relay_ok (relay_new n)"
  by (simp add: relay_ok_def relay_new_def framing_ok_def framer_ok_def framer_new_def)

lemma relay_new_simps [simp]:
  "mode_of (relay_new n) = Free" "backlog (relay_new n) = []" "rl_settled (relay_new n) = False"
  "rl_sourceEnded (relay_new n) = False"
  by (simp_all add: mode_of_def backlog_def relay_new_def framer_new_def)

lemma relay_ok_bound: "relay_ok r \<Longrightarrow> length (concat (fr_chunks (rl_framer r))) \<le> fr_maxBytes (rl_framer r)"
  unfolding relay_ok_def framing_ok_def by (elim conjE) (simp only: split: if_splits)

lemma relay_ok_waits: "relay_ok r \<Longrightarrow> rl_sourceEnded r \<longrightarrow> rl_finished r \<or> rl_wait r \<noteq> Pw_none \<or> rl_last r"
  by (auto simp: relay_ok_def)

lemma follows_new:
  assumes "follows (relay_new n) a s"
  shows "\<exists>m. monitor_run (snd s) monitor_new = Some m \<and> mo_mode m = mode_of (fst s)
    \<and> mo_taken m @ backlog (fst s) = a"
proof -
  have "mo_mode monitor_new = mode_of (relay_new n)" "mo_taken monitor_new = []"
    by (simp_all add: monitor_new_def)
  with assms [unfolded follows_def, THEN spec, of monitor_new] show ?thesis by simp
qed

text \<open>
  C22: One direction of the proxy, whatever the order of chunks, answers, writes and the end of the
  source. Frames are shown to the interceptor one at a time and in order, nothing is written while
  one is held, and what it answers is what the sink is given for that frame; every byte that
  arrived is dealt with or still queued, in order; framing never buffers more than its limit; and
  after the source ended the relay is finished or waits for an answer or a write.
\<close>

theorem relay_keeps_order_and_bytes:
  "\<exists>m. monitor_run (snd (relay_run es (relay_new n))) monitor_new = Some m
     \<and> (let r = fst (relay_run es (relay_new n))
        in mo_mode m = mode_of r \<and> mo_taken m @ backlog r = arrived es
           \<and> length (concat (fr_chunks (rl_framer r))) \<le> n
           \<and> (if rl_sourceEnded r \<and> rl_wait r = Pw_none then rl_finished r \<or> rl_last r else True))"
proof -
  note run = relay_run_follows [OF relay_new_ok [of n], of es]
  from follows_new [OF conjunct1 [OF run]]
  obtain m where "monitor_run (snd (relay_run es (relay_new n))) monitor_new = Some m"
    "mo_mode m = mode_of (fst (relay_run es (relay_new n)))"
    "mo_taken m @ backlog (fst (relay_run es (relay_new n))) = arrived es" by blast
  moreover have "fr_maxBytes (rl_framer (fst (relay_run es (relay_new n)))) = n"
    by (simp add: relay_run_limit relay_new_def framer_new_def)
  ultimately show ?thesis
    using relay_ok_bound [OF conjunct2 [OF run]] relay_ok_waits [OF conjunct2 [OF run]] by (simp add: Let_def)
qed

section \<open>An unobserved pipe\<close>

text \<open>The interceptor forwards or throws; no data after the end of the source.\<close>

definition forwards :: "relay_event list \<Rightarrow> bool" where
  "forwards es \<longleftrightarrow> (\<forall>a. Rv_answer (Some a) \<in> set es \<longrightarrow> a = Forward)"

fun no_late_data :: "bool \<Rightarrow> relay_event list \<Rightarrow> bool" where
  "no_late_data ended [] = True"
| "no_late_data ended (Rv_chunk c # es) \<longleftrightarrow> \<not> ended \<and> no_late_data ended es"
| "no_late_data ended (Rv_end # es) = no_late_data True es"
| "no_late_data ended (_ # es) = no_late_data ended es"

lemma finish_decides: "Rx_decided a \<notin> set (snd (finish r))"
  by (simp add: finish_def Let_def split_beta)

lemma pump_loop_decides: "Rx_decided a \<notin> set (snd (pump_loop r))"
  by (auto simp: pump_loop_def Let_def finish_decides split: list.split queue_item.split)

lemma pump_decides: "Rx_decided a \<notin> set (snd (pump r))"
  by (simp add: pump_def split_beta pump_loop_decides)

lemma take_chunk_decides: "Rx_decided a \<notin> set (snd (take_chunk chunk r))"
  by (simp add: take_chunk_def Let_def split_beta)

lemma step_decides:
  "Rx_decided a \<in> set (snd (relay_step e r)) \<Longrightarrow> e = Rv_answer (Some a) \<or> a = Forward"
  by (cases e) (auto simp: onChunk_eq onSourceEnd_def relayOne_def Let_def split_beta take_chunk_decides
      pump_decides finish_decides pump_loop_decides split: if_splits pump_wait.splits option.splits)

lemma run_decides:
  "Rx_decided a \<in> set (snd (relay_run es r)) \<Longrightarrow> forwards es \<Longrightarrow> a = Forward"
proof (induction es arbitrary: r)
  case (Cons e es)
  then show ?case
    using step_decides [of a e r] by (auto simp: forwards_def split_beta)
qed simp

text \<open>What the monitor says when everything was forwarded.\<close>

definition all_forwarded :: "monitor \<Rightarrow> bool" where
  "all_forwarded m \<longleftrightarrow>
     mo_taken m = mo_out m @ (case mo_mode m of Free \<Rightarrow> [] | Held raw \<Rightarrow> raw @ [NEWLINE] | Owes raw \<Rightarrow> raw @ [NEWLINE])"

lemma monitor_step_forwards:
  assumes "monitor_step x m = Some m'" "all_forwarded m" "\<forall>a. x = Rx_decided a \<longrightarrow> a = Forward"
  shows "all_forwarded m'"
  using assms by (cases x; cases "mo_mode m") (auto simp: all_forwarded_def split: if_splits)

lemma monitor_forwards:
  assumes "monitor_run fx m = Some m'" "all_forwarded m" "\<forall>a. Rx_decided a \<in> set fx \<longrightarrow> a = Forward"
  shows "all_forwarded m'"
  using assms
proof (induction fx arbitrary: m)
  case (Cons x fx)
  then obtain m1 where m1: "monitor_step x m = Some m1" "monitor_run fx m1 = Some m'"
    by (auto split: option.splits)
  with Cons.prems have "all_forwarded m1"
    by (intro monitor_step_forwards [OF m1(1)]) auto
  with Cons m1 show ?case by simp
qed simp

text \<open>Once settled there is nothing left.\<close>

definition drained :: "relay \<Rightarrow> bool" where
  "drained r \<longleftrightarrow> (rl_settled r \<longrightarrow> backlog r = [] \<and> \<not> rl_pumping r)"

lemma finish_drained:
  assumes "drained r" "rl_queue r = []" "\<not> rl_pumping r" "framer_ok (rl_framer r)"
  shows "drained (fst (finish r))"
  using assms takePending_bytes [of "rl_framer r"]
  by (cases "takePending (rl_framer r)") (auto simp: finish_def drained_def backlog_def Let_def)

lemma pump_loop_drained:
  assumes "\<not> rl_settled r" "framer_ok (rl_framer r)"
  shows "drained (fst (pump_loop r))"
proof (cases "rl_queue r")
  case Nil
  have "drained (fst (finish (r\<lparr>rl_pumping := False, rl_wait := Pw_none\<rparr>)))"
    by (rule finish_drained) (use Nil assms in \<open>auto simp: drained_def\<close>)
  with Nil assms show ?thesis
    by (auto simp: pump_loop_def Let_def drained_def)
next
  case (Cons item q)
  with assms show ?thesis by (cases item) (auto simp: pump_loop_def drained_def)
qed

lemma step_drained:
  assumes "relay_ok r" "drained r" "\<forall>c. e = Rv_chunk c \<longrightarrow> \<not> rl_sourceEnded r"
  shows "drained (fst (relay_step e r))"
proof -
  have f: "framer_ok (rl_framer r)" using assms(1) by (simp add: relay_ok_def framing_ok_def)
  have loop: "drained (fst (pump_loop r))" if "rl_wait r \<noteq> Pw_none"
    using pump_loop_drained [OF _ f] assms(1,2) that by (auto simp: drained_def relay_ok_def)
  show ?thesis
  proof (cases e)
    case (Rv_chunk c)
    obtain r1 fx where t: "take_chunk c r = (r1, fx)" by fastforce
    have r1: "\<not> rl_settled r1" "framer_ok (rl_framer r1)"
      using assms(1,3) Rv_chunk take_chunk_frame(4) [OF t] take_chunk_backlog(2) [OF t]
      by (auto simp: relay_ok_def framing_ok_def)
    then have "drained r1" "drained (fst (pump r1))"
      using pump_loop_drained [of "r1\<lparr>rl_pumping := True\<rparr>"] by (simp_all add: drained_def pump_def split_beta)
    with Rv_chunk t show ?thesis by (simp add: onChunk_eq split_beta)
  next
    case Rv_end
    let ?r = "r\<lparr>rl_sourceEnded := True\<rparr>"
    have d: "drained ?r" using assms(2) by (simp add: drained_def backlog_def)
    have q: "rl_queue r = []" if "\<not> rl_pumping r" using assms(1) that by (simp add: relay_ok_def)
    have "drained (fst (finish ?r))" if "\<not> rl_pumping r"
      by (rule finish_drained [OF d]) (simp_all add: that q f)
    with Rv_end assms(2) d q show ?thesis
      by (simp add: onSourceEnd_def Let_def)
  next
    case (Rv_answer answer)
    show ?thesis
    proof (cases "rl_wait r")
      case (Pw_intercept raw)
      with assms(1,2) have "\<not> rl_settled r" by (auto simp: drained_def relay_ok_def)
      then have "drained (r\<lparr>rl_wait := Pw_write\<rparr>)" by (simp add: drained_def)
      with Rv_answer Pw_intercept loop show ?thesis
        by (cases answer) (simp_all add: relayOne_def split_beta)
    qed (use Rv_answer assms(2) in simp_all)
  next
    case Rv_written
    with loop assms(2) show ?thesis by (auto split: pump_wait.split)
  next
    case Rv_last_written
    with assms(2) show ?thesis by (auto simp: drained_def backlog_def)
  qed
qed

lemma ended_stays: "rl_sourceEnded (fst (relay_step e r)) \<longleftrightarrow> rl_sourceEnded r \<or> e = Rv_end"
proof -
  have f: "rl_sourceEnded (fst (finish r)) = rl_sourceEnded r" for r
    by (simp add: finish_def Let_def split_beta)
  have l: "rl_sourceEnded (fst (pump_loop r)) = rl_sourceEnded r" for r
    by (simp add: pump_loop_def Let_def f split: list.split queue_item.split)
  have p: "rl_sourceEnded (fst (pump r)) = rl_sourceEnded r" for r
    by (simp add: pump_def split_beta l)
  have t: "rl_sourceEnded (fst (take_chunk c r)) = rl_sourceEnded r" for c
    by (simp add: take_chunk_def Let_def split_beta)
  show ?thesis
    by (cases e) (auto simp: onChunk_eq onSourceEnd_def relayOne_def Let_def split_beta f l p t
        split: pump_wait.split option.split)
qed

lemma run_drained:
  assumes "relay_ok r" "drained r" "no_late_data (rl_sourceEnded r) es"
  shows "drained (fst (relay_run es r))"
  using assms
proof (induction es arbitrary: r)
  case (Cons e es)
  have "no_late_data (rl_sourceEnded (fst (relay_step e r))) es" "\<forall>c. e = Rv_chunk c \<longrightarrow> \<not> rl_sourceEnded r"
    using Cons.prems(3) ended_stays [of e r] by (cases e; auto)+
  with Cons step_drained relay_step_ok show ?case by (simp add: split_beta)
qed simp

section \<open>The pipe with its writer\<close>

definition feed :: "relay_effect \<Rightarrow> writer \<Rightarrow> writer" where
  "feed x w = (case x of Rx_frame raw \<Rightarrow> writeFrame raw w | Rx_raw data \<Rightarrow> writeRaw data w | _ \<Rightarrow> w)"

datatype pipe_event =
    Pe_relay relay_event
  | Pe_job bool
  | Pe_error
  | Pe_closed

fun pipe_step :: "pipe_event \<Rightarrow> relay \<times> writer \<Rightarrow> relay \<times> writer" where
  "pipe_step (Pe_relay e) (r, w) = (let (r', fx) = relay_step e r in (r', fold feed fx w))"
| "pipe_step (Pe_job throws) (r, w) = (r, run_job throws w)"
| "pipe_step Pe_error (r, w) = (r, stream_error w)"
| "pipe_step Pe_closed (r, w) = (r, w\<lparr>wr_closed := True\<rparr>)"

fun relay_events :: "pipe_event list \<Rightarrow> relay_event list" where
  "relay_events [] = []"
| "relay_events (Pe_relay e # es) = e # relay_events es"
| "relay_events (_ # es) = relay_events es"

fun effect_bytes :: "relay_effect \<Rightarrow> bytes" where
  "effect_bytes (Rx_frame raw) = raw @ [NEWLINE]"
| "effect_bytes (Rx_raw data) = data"
| "effect_bytes _ = []"

fun job_bytes :: "job \<Rightarrow> bytes" where
  "job_bytes (Write data) = data"
| "job_bytes End = []"

text \<open>What the stream received is a prefix of what the writer was given; while it works, the rest is queued.\<close>

definition writer_ok :: "bytes \<Rightarrow> writer \<Rightarrow> bool" where
  "writer_ok given w \<longleftrightarrow> End \<notin> set (wr_tail w)
     \<and> (\<exists>rest. given = wr_received w @ rest
          \<and> (\<not> wr_failed w \<and> \<not> wr_closed w \<longrightarrow> rest = concat (map job_bytes (wr_tail w))))"

lemma feed_ok: "writer_ok given w \<Longrightarrow> writer_ok (given @ effect_bytes x) (feed x w)"
  by (cases x) (auto simp: writer_ok_def feed_def writeFrame_def writeRaw_def enqueue_def)

lemma feeds_ok: "writer_ok given w \<Longrightarrow> writer_ok (given @ concat (map effect_bytes fx)) (fold feed fx w)"
  using feed_ok by (induction fx arbitrary: given w) force+

lemma run_job_ok: "writer_ok given w \<Longrightarrow> writer_ok given (run_job throws w)"
  by (auto simp: writer_ok_def run_job_def writeOne_def split: list.split job.split)

lemma pipe_run:
  "fold pipe_step es (r, w) = (r', w') \<Longrightarrow> writer_ok given w
    \<Longrightarrow> r' = fst (relay_run (relay_events es) r)
      \<and> writer_ok (given @ concat (map effect_bytes (snd (relay_run (relay_events es) r)))) w'"
proof (induction es arbitrary: r w given)
  case (Cons e es)
  show ?case
  proof (cases e)
    case (Pe_relay x)
    let ?s = "relay_step x r"
    have "fold pipe_step es (fst ?s, fold feed (snd ?s) w) = (r', w')"
      using Cons.prems(1) Pe_relay by (simp add: split_beta)
    from Cons.IH [OF this feeds_ok [OF Cons.prems(2)]] show ?thesis
      using Pe_relay by (simp add: split_beta)
  next
    case (Pe_job throws)
    with Cons.IH [of r "run_job throws w" given] Cons.prems run_job_ok show ?thesis by simp
  next
    case Pe_error
    with Cons.IH [of r "stream_error w" given] Cons.prems show ?thesis
      by (auto simp: writer_ok_def stream_error_def)
  next
    case Pe_closed
    with Cons.IH [of r "w\<lparr>wr_closed := True\<rparr>" given] Cons.prems show ?thesis
      by (auto simp: writer_ok_def)
  qed
qed simp

lemma monitor_out:
  "monitor_run fx m = Some m' \<Longrightarrow> mo_out m' = mo_out m @ concat (map effect_bytes fx)"
proof (induction fx arbitrary: m)
  case (Cons x fx)
  then obtain m1 where m1: "monitor_step x m = Some m1" "monitor_run fx m1 = Some m'"
    by (auto split: option.splits)
  have "mo_out m1 = mo_out m @ effect_bytes x"
    using m1(1) by (cases x) (auto split: if_splits relay_mode.splits)
  with Cons.IH [OF m1(2)] show ?case by simp
qed simp

text \<open>
  C12: An observed conversation is the unobserved one. When every held frame is forwarded (or the
  interceptor throws), the sink has received a prefix of exactly the bytes the source sent,
  whatever the chunking, the frame limit, the interleaving of holds and writes, and wherever the
  sink fails; and when the relay has finished and the writer has flushed to a healthy sink, it has
  received all of them.
\<close>

theorem forwarding_pipe_is_invisible:
  assumes "fold pipe_step es (relay_new n, writer_new) = (r, w)"
    and "forwards (relay_events es)" and "no_late_data False (relay_events es)"
  shows "(\<exists>rest. arrived (relay_events es) = wr_received w @ rest)
    \<and> (rl_finished r \<and> \<not> rl_last r \<and> wr_tail w = [] \<and> \<not> wr_failed w \<and> \<not> wr_closed w
        \<longrightarrow> wr_received w = arrived (relay_events es))"
proof -
  let ?run = "relay_run (relay_events es) (relay_new n)"
  let ?given = "concat (map effect_bytes (snd ?run))"
  have "writer_ok [] writer_new" by (simp add: writer_ok_def writer_new_def)
  from pipe_run [OF assms(1) this] have w: "r = fst ?run" "writer_ok ?given w" by simp_all
  note run = relay_run_follows [OF relay_new_ok [of n], of "relay_events es"]
  from follows_new [OF conjunct1 [OF run]] obtain m where m: "monitor_run (snd ?run) monitor_new = Some m"
    "mo_mode m = mode_of r" "mo_taken m @ backlog r = arrived (relay_events es)"
    unfolding w(1) by blast
  have "all_forwarded m"
    by (rule monitor_forwards [OF m(1)])
      (use run_decides assms(2) in \<open>auto simp: all_forwarded_def monitor_new_def\<close>)
  moreover have "mo_out m = ?given"
    using monitor_out [OF m(1)] by (simp add: monitor_new_def)
  ultimately obtain held where taken: "mo_taken m = ?given @ held" "mode_of r = Free \<longrightarrow> held = []"
    using m(2) by (auto simp: all_forwarded_def split: relay_mode.splits)
  obtain rest where rest: "?given = wr_received w @ rest"
    "\<not> wr_failed w \<and> \<not> wr_closed w \<longrightarrow> rest = concat (map job_bytes (wr_tail w))"
    using w(2) by (auto simp: writer_ok_def)
  have "drained r"
    unfolding w(1) by (rule run_drained [OF relay_new_ok]) (use assms(3) in \<open>simp_all add: drained_def\<close>)
  have emptied: "backlog r = [] \<and> mode_of r = Free" if "rl_finished r"
  proof -
    have "relay_ok r" using run w(1) by simp
    with that \<open>drained r\<close> show ?thesis
      by (auto simp: relay_ok_def drained_def mode_of_def split: pump_wait.split)
  qed
  have eq: "arrived (relay_events es) = wr_received w @ rest @ held @ backlog r"
    using m(3) taken(1) rest(1) by simp
  moreover have "rest @ held @ backlog r = []" if "rl_finished r" "wr_tail w = []" "\<not> wr_failed w" "\<not> wr_closed w"
  proof -
    from emptied [OF that(1)] taken(2) have "backlog r = []" "held = []" by blast+
    with that rest(2) show ?thesis by simp
  qed
  ultimately show ?thesis by auto
qed

definition split_input :: "pipe_event list" where
  "split_input =
     [Pe_relay (Rv_chunk [65, 10, 66]), Pe_relay (Rv_chunk [67, 10]), Pe_relay (Rv_answer (Some Forward)), Pe_job False,
      Pe_relay Rv_written, Pe_relay (Rv_chunk [68]), Pe_relay (Rv_answer None), Pe_job False, Pe_relay Rv_end,
      Pe_relay Rv_written, Pe_job False, Pe_relay Rv_last_written]"

theorem forwarding_pipe_is_invisible_witness:
  "\<exists>r w. fold pipe_step split_input (relay_new 100, writer_new) = (r, w)
     \<and> wr_received w = [65, 10, 66, 67, 10, 68]"
proof -
  obtain r w where rw: "fold pipe_step split_input (relay_new 100, writer_new) = (r, w)" by fastforce
  have "forwards (relay_events split_input)" "no_late_data False (relay_events split_input)"
    "arrived (relay_events split_input) = [65, 10, 66, 67, 10, 68]"
    by (simp_all add: split_input_def forwards_def)
  moreover have "(case fold pipe_step split_input (relay_new 100, writer_new) of (r, w) \<Rightarrow>
      rl_finished r \<and> \<not> rl_last r \<and> wr_tail w = [] \<and> \<not> wr_failed w \<and> \<not> wr_closed w)"
    by code_simp
  ultimately show ?thesis
    using forwarding_pipe_is_invisible [OF rw] rw by auto
qed

end
