(* ===== verification/Stderr_Ring.thy ===== *)
theory Stderr_Ring
  imports Js_Text
begin

text \<open>
  \<open>packages/cli/src/mcp-proxy/stderr-ring.ts\<close> and \<open>exit-status.ts\<close>: the bounded memory of a
  server's last words, and how its end is described. Text is UTF-16 code units; decoding a chunk
  is the caller's.
\<close>

section \<open>The ring\<close>

definition STDERR_RING_MAX_LINES :: nat where "STDERR_RING_MAX_LINES = 200"

definition STDERR_RING_MAX_BYTES :: nat where "STDERR_RING_MAX_BYTES = 32 * 1024"

record stderr_ring =
  sr_maxLines :: nat
  sr_maxBytes :: nat
  sr_lines :: "jstr list"
  sr_bytes :: int
  sr_partial :: jstr
  sr_droppedLines :: nat
  sr_totalLines :: nat

definition stderr_new :: "nat \<Rightarrow> nat \<Rightarrow> stderr_ring" where
  "stderr_new maxLines maxBytes =
     \<lparr>sr_maxLines = maxLines, sr_maxBytes = maxBytes, sr_lines = [], sr_bytes = 0, sr_partial = [],
      sr_droppedLines = 0, sr_totalLines = 0\<rparr>"

text \<open>The eviction loop of \<open>addLine\<close>.\<close>

function evict_lines :: "stderr_ring \<Rightarrow> stderr_ring" where
  "evict_lines s =
     (if sr_maxLines s < length (sr_lines s) \<or> int (sr_maxBytes s) < sr_bytes s \<and> 1 < length (sr_lines s)
      then evict_lines (s\<lparr>sr_lines := tl (sr_lines s),
                          sr_bytes := sr_bytes s - int (length (hd (sr_lines s))),
                          sr_droppedLines := sr_droppedLines s + 1\<rparr>)
      else s)"
  by pat_completeness auto
termination by (relation "measure (length \<circ> sr_lines)") auto

declare evict_lines.simps [simp del]

definition addLine :: "jstr \<Rightarrow> stderr_ring \<Rightarrow> stderr_ring" where
  "addLine rawLine s =
     (let line = (if rawLine \<noteq> [] \<and> last rawLine = 13 then butlast rawLine else rawLine);
          kept = (if sr_maxBytes s < length line then take (sr_maxBytes s) line @ [8230] else line)
      in evict_lines (s\<lparr>sr_totalLines := sr_totalLines s + 1, sr_lines := sr_lines s @ [kept],
                        sr_bytes := sr_bytes s + int (length kept)\<rparr>))"

text \<open>The loop over the newlines of the text, then its rest.\<close>

function push_lines :: "jstr \<Rightarrow> stderr_ring \<Rightarrow> stderr_ring" where
  "push_lines text s =
     (if 10 \<in> set text
      then let line = takeWhile (\<lambda>c. c \<noteq> 10) text
           in push_lines (drop (length line + 1) text) ((addLine (sr_partial s @ line) s)\<lparr>sr_partial := []\<rparr>)
      else if text = [] then s
      else let s1 = s\<lparr>sr_partial := sr_partial s @ text\<rparr>
           in if sr_maxBytes s1 < length (sr_partial s1) then (addLine (sr_partial s1) s1)\<lparr>sr_partial := []\<rparr>
              else s1)"
  by pat_completeness auto
termination
proof (relation "measure (length \<circ> fst)", goal_cases)
  case (2 t s line)
  then show ?case by (cases t) auto
qed simp

declare push_lines.simps [simp del]

definition seen :: "stderr_ring \<Rightarrow> nat" where
  "seen s = sr_totalLines s + (if sr_partial s = [] then 0 else 1)"

definition isEmpty :: "stderr_ring \<Rightarrow> bool" where
  "isEmpty s \<longleftrightarrow> sr_lines s = [] \<and> sr_partial s = []"

definition tail :: "nat option \<Rightarrow> stderr_ring \<Rightarrow> jstr list" where
  "tail maxLines s =
     (let n = (case maxLines of Some k \<Rightarrow> k | None \<Rightarrow> sr_maxLines s);
          all = (if sr_partial s = [] then sr_lines s else sr_lines s @ [sr_partial s])
      in if length all \<le> n then all else drop (length all - n) all)"

section \<open>How a child ended\<close>

definition NTSTATUS_NAMES :: "(int \<times> string) list" where
  "NTSTATUS_NAMES =
     [(0xc0000005, ''STATUS_ACCESS_VIOLATION''), (0xc0000017, ''STATUS_NO_MEMORY''),
      (0xc000001d, ''STATUS_ILLEGAL_INSTRUCTION''), (0xc0000094, ''STATUS_INTEGER_DIVIDE_BY_ZERO''),
      (0xc00000fd, ''STATUS_STACK_OVERFLOW''), (0xc0000135, ''STATUS_DLL_NOT_FOUND''),
      (0xc0000139, ''STATUS_ENTRYPOINT_NOT_FOUND''), (0xc000013a, ''STATUS_CONTROL_C_EXIT''),
      (0xc0000142, ''STATUS_DLL_INIT_FAILED''), (0xc0000374, ''STATUS_HEAP_CORRUPTION''),
      (0xc0000409, ''STATUS_STACK_BUFFER_OVERRUN''), (0xc0000417, ''STATUS_INVALID_CRUNTIME_PARAMETER'')]"

text \<open>An exit code is an integer or null.\<close>

definition ntstatusName :: "int option \<Rightarrow> string option" where
  "ntstatusName code =
     (case code of
        None \<Rightarrow> None
      | Some c \<Rightarrow>
          (let unsigned = (if c < 0 then c + 0x100000000 else c)
           in if unsigned < 0xc0000000 \<or> 0xffffffff < unsigned then None
              else map_of NTSTATUS_NAMES unsigned))"

text \<open>\<open>T\<close>: the decimal text of a number.\<close>

definition describeExit :: "(int \<Rightarrow> string) \<Rightarrow> int option \<Rightarrow> string option \<Rightarrow> jstr" where
  "describeExit T code signal =
     (case signal of
        Some sig \<Rightarrow> lit (''the MCP server was killed by '' @ sig)
      | None \<Rightarrow>
          (let c = (case code of Some c \<Rightarrow> c | None \<Rightarrow> 0)
           in case ntstatusName (Some c) of
                None \<Rightarrow> lit (''the MCP server exited with code '' @ T c)
              | Some name \<Rightarrow>
                  lit (''the MCP server exited with code '' @ T c @ '' ('' @ name @ '' '')
                    @ [8212] @ lit '' it crashed)''))"

section \<open>Bounded, and nothing uncounted\<close>

definition stderr_ok :: "stderr_ring \<Rightarrow> bool" where
  "stderr_ok s \<longleftrightarrow>
     sr_bytes s = int (sum_list (map length (sr_lines s)))
     \<and> (\<forall>l \<in> set (sr_lines s). length l \<le> sr_maxBytes s + 1)
     \<and> length (sr_lines s) \<le> sr_maxLines s
     \<and> (int (sr_maxBytes s) < sr_bytes s \<longrightarrow> length (sr_lines s) \<le> 1)
     \<and> length (sr_partial s) \<le> sr_maxBytes s
     \<and> sr_totalLines s = sr_droppedLines s + length (sr_lines s)"

definition tally_ok :: "stderr_ring \<Rightarrow> bool" where
  "tally_ok s \<longleftrightarrow> sr_bytes s = int (sum_list (map length (sr_lines s)))
     \<and> (\<forall>l \<in> set (sr_lines s). length l \<le> sr_maxBytes s + 1)
     \<and> sr_totalLines s = sr_droppedLines s + length (sr_lines s)"

lemma evict_lines_ok:
  assumes "tally_ok s" "length (sr_partial s) \<le> sr_maxBytes s"
  shows "stderr_ok (evict_lines s) \<and> sr_partial (evict_lines s) = sr_partial s
    \<and> sr_maxLines (evict_lines s) = sr_maxLines s \<and> sr_maxBytes (evict_lines s) = sr_maxBytes s
    \<and> sr_totalLines (evict_lines s) = sr_totalLines s"
  using assms
proof (induction s rule: evict_lines.induct)
  case (1 s)
  show ?case
  proof (cases "sr_maxLines s < length (sr_lines s) \<or> int (sr_maxBytes s) < sr_bytes s \<and> 1 < length (sr_lines s)")
    case True
    let ?s = "s\<lparr>sr_lines := tl (sr_lines s), sr_bytes := sr_bytes s - int (length (hd (sr_lines s))),
                sr_droppedLines := sr_droppedLines s + 1\<rparr>"
    from True obtain l ls where "sr_lines s = l # ls" by (cases "sr_lines s") auto
    with "1.prems" have "tally_ok ?s" "length (sr_partial ?s) \<le> sr_maxBytes ?s"
      by (auto simp: tally_ok_def)
    with "1.IH" [OF True] True show ?thesis by (subst (1 2 3 4 5) evict_lines.simps) simp
  next
    case False
    with "1.prems" show ?thesis
      by (subst (1 2 3 4 5) evict_lines.simps) (auto simp: stderr_ok_def tally_ok_def)
  qed
qed

lemma addLine_ok:
  assumes "tally_ok s"
  shows "stderr_ok ((addLine l s)\<lparr>sr_partial := []\<rparr>)
    \<and> sr_maxLines (addLine l s) = sr_maxLines s \<and> sr_maxBytes (addLine l s) = sr_maxBytes s"
proof -
  define line where "line = (if l \<noteq> [] \<and> last l = 13 then butlast l else l)"
  define kept where "kept = (if sr_maxBytes s < length line then take (sr_maxBytes s) line @ [8230] else line)"
  have kept: "length kept \<le> sr_maxBytes s + 1" by (simp add: kept_def)
  define s1 where "s1 = s\<lparr>sr_totalLines := sr_totalLines s + 1, sr_lines := sr_lines s @ [kept],
                        sr_bytes := sr_bytes s + int (length kept)\<rparr>"
  have a: "addLine l s = evict_lines s1"
    by (simp add: addLine_def Let_def line_def kept_def s1_def)
  have "tally_ok s1"
    using assms kept by (auto simp: tally_ok_def s1_def)
  then have c: "tally_ok (s1\<lparr>sr_partial := []\<rparr>)" by (simp add: tally_ok_def)
  have e: "evict_lines (s1\<lparr>sr_partial := []\<rparr>) = (evict_lines s1)\<lparr>sr_partial := []\<rparr>" for s1
  proof (induction s1 rule: evict_lines.induct)
    case (1 s)
    then show ?case
      by (cases s, subst (1 2) evict_lines.simps) simp
  qed
  from evict_lines_ok [OF c] show ?thesis
    by (simp add: a e) (simp add: s1_def)
qed

lemma stderr_counts: "stderr_ok s \<Longrightarrow> tally_ok s"
  by (simp add: stderr_ok_def tally_ok_def)

lemma counts_partial: "tally_ok (s\<lparr>sr_partial := p\<rparr>) = tally_ok s"
  by (simp add: tally_ok_def)

lemma push_lines_ok:
  assumes "stderr_ok s"
  shows "stderr_ok (push_lines t s) \<and> sr_maxLines (push_lines t s) = sr_maxLines s
    \<and> sr_maxBytes (push_lines t s) = sr_maxBytes s"
  using assms
proof (induction t s rule: push_lines.induct)
  case (1 t s)
  note c = stderr_counts [OF "1.prems"]
  show ?case
  proof (cases "10 \<in> set t")
    case True
    let ?l = "takeWhile (\<lambda>c. c \<noteq> 10) t"
    note a = addLine_ok [OF c, of "sr_partial s @ ?l"]
    from "1.IH" [OF True refl conjunct1 [OF a]] a True show ?thesis
      by (subst (1 2 3) push_lines.simps) (simp add: Let_def)
  next
    case False
    let ?s = "s\<lparr>sr_partial := sr_partial s @ t\<rparr>"
    have "tally_ok ?s" using c by (simp add: counts_partial)
    from addLine_ok [OF this, of "sr_partial ?s"] False "1.prems" show ?thesis
      by (subst (1 2 3) push_lines.simps) (auto simp: Let_def stderr_ok_def)
  qed
qed

text \<open>
  Whatever a server writes to its stderr, in whatever chunks, the ring keeps at most its limit
  of lines, more bytes than the budget only as one line cut to it (and its mark), an unterminated
  line within the budget, every line received is kept or counted as dropped, and the tail that is
  shown never has more lines than the limit.
\<close>

theorem stderr_memory_is_bounded:
  "let s = fold push_lines chunks (stderr_new maxLines maxBytes)
   in length (sr_lines s) \<le> maxLines
      \<and> (maxBytes < sum_list (map length (sr_lines s)) \<longrightarrow> length (sr_lines s) \<le> 1)
      \<and> (\<forall>l \<in> set (sr_lines s). length l \<le> maxBytes + 1)
      \<and> length (sr_partial s) \<le> maxBytes
      \<and> seen s = sr_droppedLines s + length (sr_lines s) + (if sr_partial s = [] then 0 else 1)
      \<and> length (tail None s) \<le> maxLines"
proof -
  have "stderr_ok s \<Longrightarrow> stderr_ok (fold push_lines chunks s) \<and> sr_maxLines (fold push_lines chunks s) = sr_maxLines s
      \<and> sr_maxBytes (fold push_lines chunks s) = sr_maxBytes s" for s
    using push_lines_ok by (induction chunks arbitrary: s) auto
  moreover have "stderr_ok (stderr_new maxLines maxBytes)" "sr_maxLines (stderr_new maxLines maxBytes) = maxLines"
    "sr_maxBytes (stderr_new maxLines maxBytes) = maxBytes"
    by (simp_all add: stderr_ok_def stderr_new_def)
  ultimately obtain s where "s = fold push_lines chunks (stderr_new maxLines maxBytes)" "stderr_ok s"
    "sr_maxLines s = maxLines" "sr_maxBytes s = maxBytes" by metis
  then show ?thesis
    unfolding Let_def by (auto simp: stderr_ok_def seen_def tail_def Let_def)
qed

theorem stderr_memory_is_bounded_witness:
  "let s = fold push_lines [lit ''panic: '', lit ''x'' @ [10] @ lit ''y''] (stderr_new 1 4)
   in length (sr_lines s) \<le> 1 \<and> length (sr_partial s) \<le> 4"
  using stderr_memory_is_bounded [where chunks = "[lit ''panic: '', lit ''x'' @ [10] @ lit ''y'']" and maxLines = 1 and maxBytes = 4]
  unfolding Let_def by blast

end
