(* ===== verification/Session_Delivery.thy ===== *)
theory Session_Delivery
  imports Ring_Buffer Js_Text Clock "HOL-Library.Multiset"
begin

text \<open>
  How \<open>packages/client/src/session.ts\<close> gets events to the debugger: \<open>emitInternal\<close> numbers an
  envelope, keeps it in the replay buffer and sends it when attached; an event evicted before it
  was sent leaves a hole (\<open>recordEviction\<close>), which the next attach announces (\<open>flushGapMarkers\<close>)
  before it replays the buffer (\<open>handleAttached\<close>).

  Redaction and serialisation are the environment's: an emission says whether the redactor drops
  it and the text it serialises to, if any. A \<open>BufferedEnvelope\<close> is an object
  with an identity, its place in \<open>sd_made\<close>, the objects made so far; its field \<open>sent\<close> is kept as
  the set of the objects that have it. A warning is modelled by its key. Code that runs inside an emission - a
  \<open>toJSON\<close> method, the gates released when a send fails - may emit again: an emission carries the
  emissions nested in it.
\<close>

section \<open>State\<close>

definition MAX_TRACKED_GAP_RUNS :: nat where "MAX_TRACKED_GAP_RUNS = 64"

record buffered =
  be_id :: nat
  be_json :: jstr
  be_seq :: nat
  be_run :: ident

record gap_record =
  gp_droppedCount :: nat
  gp_fromSeq :: nat
  gp_toSeq :: nat

datatype out_frame = Fr_event buffered | Fr_gap ident gap_record nat | Fr_hello nat

datatype out_note = Frame out_frame | Warning string

text \<open>\<open>sd_attached\<close>: \<open>transport.attached\<close>. \<open>sd_out\<close>: the frames the socket took and the warnings.\<close>

record delivery =
  sd_ring :: "buffered ring"
  sd_sent :: "nat set"
  sd_made :: "buffered list"
  sd_seq :: nat
  sd_gaps :: "(ident, gap_record) omap"
  sd_lost :: nat
  sd_unattributed :: nat
  sd_attached :: bool
  sd_out :: "out_note list"

definition delivery_new :: "buffered ring \<Rightarrow> delivery" where
  "delivery_new ring =
     \<lparr>sd_ring = ring, sd_sent = {}, sd_made = [], sd_seq = 0, sd_gaps = [], sd_lost = 0,
      sd_unattributed = 0, sd_attached = False, sd_out = []\<rparr>"

text \<open>
  An event: dropped by the redactor; or of a run, with what is emitted while it is serialised, its
  text (None: it cannot be serialised), and what the socket does with it.
\<close>

datatype emission = Redacted_away | Emission ident "emission list" "jstr option" send_env
  and send_env = Accepts | Fails "emission list"

definition noted :: "out_note \<Rightarrow> delivery \<Rightarrow> delivery" where
  "noted n st = st\<lparr>sd_out := sd_out st @ [n]\<rparr>"

definition mark_sent :: "buffered \<Rightarrow> delivery \<Rightarrow> delivery" where
  "mark_sent it st = st\<lparr>sd_sent := insert (be_id it) (sd_sent st)\<rparr>"

section \<open>Losses\<close>

definition warnLoss :: "delivery \<Rightarrow> delivery" where
  "warnLoss st = noted (Warning ''buffer-overflow'') st"

definition widen :: "nat \<Rightarrow> gap_record \<Rightarrow> gap_record" where
  "widen s g =
     \<lparr>gp_droppedCount = gp_droppedCount g + 1, gp_fromSeq = min s (gp_fromSeq g), gp_toSeq = max s (gp_toSeq g)\<rparr>"

definition recordEviction :: "bool \<Rightarrow> buffered \<Rightarrow> delivery \<Rightarrow> delivery" where
  "recordEviction warn it st =
     (if be_id it \<in> sd_sent st then st
      else
        let st1 = st\<lparr>sd_lost := sd_lost st + 1\<rparr>;
            st2 = (case map_of (sd_gaps st1) (be_run it) of
                     Some g \<Rightarrow> st1\<lparr>sd_gaps := AList.update (be_run it) (widen (be_seq it) g) (sd_gaps st1)\<rparr>
                   | None \<Rightarrow>
                       (if length (sd_gaps st1) < MAX_TRACKED_GAP_RUNS
                        then st1\<lparr>sd_gaps := AList.update (be_run it)
                                   \<lparr>gp_droppedCount = 1, gp_fromSeq = be_seq it, gp_toSeq = be_seq it\<rparr> (sd_gaps st1)\<rparr>
                        else st1\<lparr>sd_unattributed := sd_unattributed st1 + 1\<rparr>))
        in if warn then warnLoss st2 else st2)"

text \<open>After the attempt to send it live: \<open>sent\<close> is its outcome.\<close>

definition handleUnbuffered :: "buffered \<Rightarrow> bool \<Rightarrow> delivery \<Rightarrow> delivery" where
  "handleUnbuffered it sent st =
     (if sent then noted (Warning ''buffer-oversize-sent'') (mark_sent it st)
      else noted (Warning ''buffer-oversize-lost'') (recordEviction False it st))"

section \<open>Emitting\<close>

definition new_item :: "jstr \<Rightarrow> nat \<Rightarrow> ident \<Rightarrow> delivery \<Rightarrow> buffered \<times> delivery" where
  "new_item json s run st =
     (let it = \<lparr>be_id = length (sd_made st), be_json = json, be_seq = s, be_run = run\<rparr>
      in (it, st\<lparr>sd_made := sd_made st @ [it]\<rparr>))"

text \<open>
  The seq of an emitted event. An envelope that cannot be serialised gives its seq back, unless
  something took the next one.
\<close>

fun emitInternal :: "emission \<Rightarrow> delivery \<Rightarrow> delivery \<times> nat option"
  and emit_all :: "emission list \<Rightarrow> delivery \<Rightarrow> delivery"
  and send_json :: "send_env \<Rightarrow> out_frame \<Rightarrow> delivery \<Rightarrow> bool \<times> delivery"
where
  "emitInternal Redacted_away st = (st, None)"
| "emitInternal (Emission run nested json env) st =
     (let s = sd_seq st;
          st1 = emit_all nested (st\<lparr>sd_seq := s + 1\<rparr>)
      in case json of
           None \<Rightarrow> (if sd_seq st1 = s + 1 then st1\<lparr>sd_seq := s\<rparr> else st1, None)
         | Some text \<Rightarrow>
             (let (it, st2) = new_item text s run st1;
                  (ring, evicted, kept) = ring_push (sd_ring st2) it;
                  st3 = fold (recordEviction True) evicted (st2\<lparr>sd_ring := ring\<rparr>);
                  (sent, st4) = send_json env (Fr_event it) st3
              in (if \<not> kept then handleUnbuffered it sent st4
                  else if sent then mark_sent it st4 else st4,
                  Some s)))"
| "emit_all [] st = st"
| "emit_all (e # es) st = emit_all es (fst (emitInternal e st))"
| "send_json env frame st =
     (if \<not> sd_attached st then (False, st)
      else case env of
             Accepts \<Rightarrow> (True, noted (Frame frame) st)
           | Fails nested \<Rightarrow>
               (False, emit_all nested (noted (Warning ''transport-send'') (st\<lparr>sd_attached := False\<rparr>))))"

section \<open>Attaching\<close>

text \<open>What the socket does with the frames to come; it takes the ones after the list.\<close>

fun next_env :: "send_env list \<Rightarrow> send_env" where
  "next_env [] = Accepts"
| "next_env (e # es) = e"

definition put_back :: "(ident \<times> gap_record) list \<Rightarrow> delivery \<Rightarrow> delivery" where
  "put_back pending st = st\<lparr>sd_gaps := fold (\<lambda>(run, g). AList.update run g) pending (sd_gaps st)\<rparr>"

fun flush_loop ::
  "send_env list \<Rightarrow> (ident \<times> gap_record) list \<Rightarrow> delivery \<Rightarrow> send_env list \<times> delivery" where
  "flush_loop envs [] st = (envs, st)"
| "flush_loop envs ((run, g) # pending) st =
     (let s = sd_seq st;
          (sent, st1) = send_json (next_env envs) (Fr_gap run g s) (st\<lparr>sd_seq := s + 1\<rparr>)
      in if sent then flush_loop (tl envs) pending st1
         else (tl envs, put_back ((run, g) # pending) st1))"

definition flushGapMarkers :: "send_env list \<Rightarrow> delivery \<Rightarrow> send_env list \<times> delivery" where
  "flushGapMarkers envs st =
     (if sd_gaps st = [] then (envs, st) else flush_loop envs (sd_gaps st) (st\<lparr>sd_gaps := []\<rparr>))"

fun replay :: "send_env list \<Rightarrow> buffered list \<Rightarrow> delivery \<Rightarrow> delivery" where
  "replay envs [] st = st"
| "replay envs (it # its) st =
     (let (sent, st1) = send_json (next_env envs) (Fr_event it) st
      in if sent then replay (tl envs) its (mark_sent it st1) else st1)"

definition handleAttached :: "send_env list \<Rightarrow> delivery \<Rightarrow> delivery" where
  "handleAttached envs st =
     (let (envs', st1) = flushGapMarkers envs st in replay envs' (ring_list (sd_ring st1)) st1)"

definition build_hello :: "delivery \<Rightarrow> delivery" where
  "build_hello st = noted (Frame (Fr_hello (sd_seq st))) (st\<lparr>sd_seq := sd_seq st + 1\<rparr>)"

text \<open>
  What happens to a session's delivery. A detach releases the held gates, which emit.
\<close>

datatype delivery_event =
    Sd_emit emission
  | Sd_hello
  | Sd_attach "send_env list"
  | Sd_detach "emission list"

fun delivery_step :: "delivery_event \<Rightarrow> delivery \<Rightarrow> delivery" where
  "delivery_step (Sd_emit e) st = fst (emitInternal e st)"
| "delivery_step Sd_hello st = build_hello st"
| "delivery_step (Sd_attach envs) st =
     (if sd_attached st then st else handleAttached envs (st\<lparr>sd_attached := True\<rparr>))"
| "delivery_step (Sd_detach nested) st =
     (if sd_attached st then emit_all nested (st\<lparr>sd_attached := False\<rparr>) else st)"

record session_stats =
  ss_attached :: bool
  ss_buffered :: nat
  ss_dropped :: nat
  ss_lost :: nat
  ss_pendingGaps :: nat
  ss_seq :: nat

definition delivery_stats :: "delivery \<Rightarrow> session_stats" where
  "delivery_stats st =
     \<lparr>ss_attached = sd_attached st, ss_buffered = rb_count (sd_ring st), ss_dropped = rb_dropped (sd_ring st),
      ss_lost = sd_lost st, ss_pendingGaps = length (sd_gaps st), ss_seq = sd_seq st\<rparr>"

section \<open>Where every event is\<close>

declare map_of_eq_Some_iff [simp del] Some_eq_map_of_iff [simp del]

text \<open>
  \<open>all\<close>: the events so far, in the order they were made; \<open>lost\<close>: those counted as lost. \<open>X\<close> are
  events between two places: just refused by the buffer, or evicted and not looked at yet.
\<close>

definition items_ok :: "buffered set \<Rightarrow> buffered list \<Rightarrow> buffered list \<Rightarrow> delivery \<Rightarrow> bool" where
  "items_ok X all lost st \<longleftrightarrow>
     ring_ok (sd_ring st) \<and> sd_made st = all \<and> map be_id all = [0..<length all] \<and> sd_sent st \<subseteq> {..<length all}
     \<and> distinct (map be_seq all) \<and> (\<forall>x\<in>set all. be_seq x < sd_seq st)
     \<and> distinct (ring_list (sd_ring st)) \<and> set (ring_list (sd_ring st)) \<subseteq> set all
     \<and> X \<subseteq> set all \<and> X \<inter> set (ring_list (sd_ring st)) = {} \<and> X \<inter> set lost = {}
     \<and> (\<forall>x\<in>set all. x \<in> set (ring_list (sd_ring st)) \<or> be_id x \<in> sd_sent st \<or> x \<in> set lost \<or> x \<in> X)
     \<and> distinct lost \<and> set lost \<subseteq> set all
     \<and> (\<forall>x\<in>set lost. x \<notin> set (ring_list (sd_ring st)) \<and> be_id x \<notin> sd_sent st)
     \<and> (\<forall>x\<in>set all. be_id x \<in> sd_sent st \<longrightarrow> Frame (Fr_event x) \<in> set (sd_out st))"

text \<open>A gap record tells exactly of the events \<open>xs\<close>.\<close>

definition gap_of :: "ident \<Rightarrow> gap_record \<Rightarrow> buffered list \<Rightarrow> bool" where
  "gap_of run g xs \<longleftrightarrow>
     xs \<noteq> [] \<and> (\<forall>x\<in>set xs. be_run x = run) \<and> gp_droppedCount g = length xs
     \<and> gp_fromSeq g = Min (be_seq ` set xs) \<and> gp_toSeq g = Max (be_seq ` set xs)"

type_synonym hole = "ident \<times> gap_record \<times> buffered list"

definition hole_ok :: "hole \<Rightarrow> bool" where
  "hole_ok = (\<lambda>(run, g, xs). gap_of run g xs)"

definition hole_told :: "out_note list \<Rightarrow> hole \<Rightarrow> bool" where
  "hole_told out = (\<lambda>(run, g, xs). \<exists>s. Frame (Fr_gap run g s) \<in> set out)"

definition events_of :: "hole list \<Rightarrow> buffered list" where
  "events_of hs = concat (map (\<lambda>h. snd (snd h)) hs)"

text \<open>
  The lost events are those of the announced holes, of holes in hand \<open>Y\<close>, of the pending ones
  (\<open>items\<close>, by run) and the unattributed \<open>rest\<close>.
\<close>

definition pending_events :: "(ident \<Rightarrow> buffered list) \<Rightarrow> (ident, gap_record) omap \<Rightarrow> buffered list" where
  "pending_events items gaps = concat (map items (okeys gaps))"

definition books_ok ::
  "hole list \<Rightarrow> hole list \<Rightarrow> buffered list \<Rightarrow> (ident \<Rightarrow> buffered list) \<Rightarrow> buffered list \<Rightarrow> delivery \<Rightarrow> bool" where
  "books_ok ann Y lost items rest st \<longleftrightarrow>
     mset lost = mset (events_of ann) + mset (events_of Y)
                 + mset (pending_events items (sd_gaps st)) + mset rest
     \<and> list_all hole_ok (ann @ Y) \<and> list_all (hole_told (sd_out st)) ann
     \<and> (\<forall>run g. map_of (sd_gaps st) run = Some g \<longrightarrow> gap_of run g (items run))
     \<and> wf_omap (sd_gaps st) \<and> length (sd_gaps st) \<le> MAX_TRACKED_GAP_RUNS
     \<and> length rest = sd_unattributed st \<and> length lost = sd_lost st"

definition good :: "buffered set \<Rightarrow> hole list \<Rightarrow> hole list \<Rightarrow> buffered list \<Rightarrow> delivery \<Rightarrow> bool" where
  "good X ann Y all st \<longleftrightarrow>
     (\<exists>lost items rest. items_ok X all lost st \<and> books_ok ann Y lost items rest st)"

definition advances ::
  "buffered set \<Rightarrow> hole list \<Rightarrow> hole list \<Rightarrow> buffered list \<Rightarrow> delivery \<Rightarrow> delivery \<Rightarrow> bool" where
  "advances X ann Y all st st' \<longleftrightarrow>
     (\<exists>new. good X ann Y (all @ new) st' \<and> sd_seq st \<le> sd_seq st' \<and> (\<forall>x\<in>set new. sd_seq st \<le> be_seq x))"

lemma advances_refl: "good X ann Y all st \<Longrightarrow> advances X ann Y all st st"
  unfolding advances_def by (rule exI [of _ "[]"]) simp

lemma advances_trans:
  assumes "advances X ann Y all st st1" and "\<And>new. good X ann Y (all @ new) st1 \<Longrightarrow> advances X ann Y (all @ new) st1 st2"
  shows "advances X ann Y all st st2"
proof -
  obtain new where new: "good X ann Y (all @ new) st1" "sd_seq st \<le> sd_seq st1" "\<forall>x\<in>set new. sd_seq st \<le> be_seq x"
    using assms(1) by (auto simp: advances_def)
  obtain new' where new': "good X ann Y ((all @ new) @ new') st2" "sd_seq st1 \<le> sd_seq st2"
    "\<forall>x\<in>set new'. sd_seq st1 \<le> be_seq x"
    using assms(2) [OF new(1)] by (auto simp: advances_def)
  then show ?thesis
    using new(2,3) unfolding advances_def
    by (intro exI [of _ "new @ new'"]) (auto intro: order_trans)
qed

text \<open>What only adds to the notes, moves the link or the seq forward, keeps everything.\<close>

lemma good_noted: "good X ann Y all st \<Longrightarrow> good X ann Y all (noted n st)"
proof -
  assume "good X ann Y all st"
  then obtain lost items rest where "items_ok X all lost st" "books_ok ann Y lost items rest st"
    by (auto simp: good_def)
  then have "items_ok X all lost (noted n st)" "books_ok ann Y lost items rest (noted n st)"
    by (auto simp: items_ok_def books_ok_def noted_def hole_told_def list_all_iff)
  then show ?thesis by (auto simp: good_def)
qed

lemma good_link: "good X ann Y all (st\<lparr>sd_attached := b\<rparr>) = good X ann Y all st"
  by (simp add: good_def items_ok_def books_ok_def)

lemma good_seq: "good X ann Y all st \<Longrightarrow> sd_seq st \<le> s \<Longrightarrow> good X ann Y all (st\<lparr>sd_seq := s\<rparr>)"
proof -
  assume "good X ann Y all st" and s: "sd_seq st \<le> s"
  then obtain lost items rest where i: "items_ok X all lost st" and b: "books_ok ann Y lost items rest st"
    by (auto simp: good_def)
  have "\<forall>x\<in>set all. be_seq x < s" using i s by (auto simp: items_ok_def)
  then have "items_ok X all lost (st\<lparr>sd_seq := s\<rparr>)" using i by (simp add: items_ok_def)
  moreover have "books_ok ann Y lost items rest (st\<lparr>sd_seq := s\<rparr>)" using b by (simp add: books_ok_def)
  ultimately show "good X ann Y all (st\<lparr>sd_seq := s\<rparr>)" by (auto simp: good_def)
qed

section \<open>Evictions\<close>

lemma gap_of_one: "be_run x = run \<Longrightarrow>
   gap_of run \<lparr>gp_droppedCount = 1, gp_fromSeq = be_seq x, gp_toSeq = be_seq x\<rparr> [x]"
  by (simp add: gap_of_def)

lemma gap_of_widen: "\<lbrakk>gap_of run g xs; be_run x = run\<rbrakk> \<Longrightarrow> gap_of run (widen (be_seq x) g) (xs @ [x])"
  by (auto simp: gap_of_def widen_def)

lemma concat_upd:
  "distinct ks \<Longrightarrow> run \<in> set ks \<Longrightarrow>
   mset (concat (map (items(run := items run @ [x])) ks)) = add_mset x (mset (concat (map items ks)))"
proof (induction ks)
  case (Cons k ks)
  have absent: "map (items(run := ys)) ks = map items ks" if "run \<notin> set ks" for ys
    using that by (auto simp: map_eq_conv)
  show ?case
  proof (cases "k = run")
    case True
    then have "map (items(run := items run @ [x])) ks = map items ks" using Cons.prems absent by simp
    then have "concat (map (items(run := items run @ [x])) ks) = concat (map items ks)" by (simp only:)
    then show ?thesis unfolding True list.map concat.simps fun_upd_same mset_append by simp
  next
    case False
    then show ?thesis using Cons by (simp del: fun_upd_apply add: fun_upd_other)
  qed
qed simp

lemma pending_update:
  assumes "wf_omap gaps" "map_of gaps run = Some g"
  shows "mset (pending_events (items(run := items run @ [x])) (AList.update run v gaps))
           = add_mset x (mset (pending_events items gaps))"
    and "length (AList.update run v gaps) = length gaps" and "wf_omap (AList.update run v gaps)"
proof -
  have mem: "run \<in> set (okeys gaps)" using assms(2) by (metis map_of_None_keys option.distinct(1))
  then have keys: "okeys (AList.update run v gaps) = okeys gaps" by (simp add: okeys_update)
  show "mset (pending_events (items(run := items run @ [x])) (AList.update run v gaps))
           = add_mset x (mset (pending_events items gaps))"
    unfolding pending_events_def keys by (rule concat_upd [OF assms(1) mem])
  show "length (AList.update run v gaps) = length gaps" using keys by (metis length_map)
  show "wf_omap (AList.update run v gaps)" using keys assms(1) by simp
qed

lemma pending_fresh:
  assumes "map_of gaps run = None"
  shows "pending_events (items(run := [x])) (gaps @ [(run, g)]) = pending_events items gaps @ [x]"
proof -
  have "run \<notin> set (okeys gaps)" using assms by (simp add: map_of_None_keys)
  then have eq: "map (items(run := [x])) (okeys gaps) = map items (okeys gaps)" by (auto simp: map_eq_conv)
  have keys: "okeys (gaps @ [(run, g)]) = okeys gaps @ [run]" by simp
  show ?thesis unfolding pending_events_def keys map_append concat_append eq by simp
qed

lemma recordEviction_items:
  assumes "items_ok (insert x X) all lost st" "x \<notin> X"
  shows "items_ok X all (if be_id x \<in> sd_sent st then lost else lost @ [x]) (recordEviction w x st)"
  using assms
  by (auto simp: items_ok_def recordEviction_def Let_def warnLoss_def noted_def split: option.split)

text \<open>The three cases of an event that was not sent.\<close>

definition counted :: "bool \<Rightarrow> (ident, gap_record) omap \<Rightarrow> nat \<Rightarrow> delivery \<Rightarrow> delivery" where
  "counted warn gaps n st =
     (let st1 = st\<lparr>sd_lost := sd_lost st + 1, sd_gaps := gaps, sd_unattributed := sd_unattributed st + n\<rparr>
      in if warn then warnLoss st1 else st1)"

lemma recordEviction_cases:
  assumes "be_id x \<notin> sd_sent st"
  shows "map_of (sd_gaps st) (be_run x) = Some g \<Longrightarrow>
      recordEviction w x st = counted w (AList.update (be_run x) (widen (be_seq x) g) (sd_gaps st)) 0 st"
    and "\<lbrakk>map_of (sd_gaps st) (be_run x) = None; length (sd_gaps st) < MAX_TRACKED_GAP_RUNS\<rbrakk> \<Longrightarrow>
      recordEviction w x st = counted w (sd_gaps st @
        [(be_run x, \<lparr>gp_droppedCount = 1, gp_fromSeq = be_seq x, gp_toSeq = be_seq x\<rparr>)]) 0 st"
    and "\<lbrakk>map_of (sd_gaps st) (be_run x) = None; \<not> length (sd_gaps st) < MAX_TRACKED_GAP_RUNS\<rbrakk> \<Longrightarrow>
      recordEviction w x st = counted w (sd_gaps st) 1 st"
proof -
  show "map_of (sd_gaps st) (be_run x) = Some g \<Longrightarrow>
      recordEviction w x st = counted w (AList.update (be_run x) (widen (be_seq x) g) (sd_gaps st)) 0 st"
    using assms by (simp add: recordEviction_def counted_def Let_def)
  assume none: "map_of (sd_gaps st) (be_run x) = None"
  then have fresh: "AList.update (be_run x) v (sd_gaps st) = sd_gaps st @ [(be_run x, v)]" for v
    by (simp add: update_fresh map_of_None_keys)
  show "length (sd_gaps st) < MAX_TRACKED_GAP_RUNS \<Longrightarrow>
      recordEviction w x st = counted w (sd_gaps st @
        [(be_run x, \<lparr>gp_droppedCount = 1, gp_fromSeq = be_seq x, gp_toSeq = be_seq x\<rparr>)]) 0 st"
    using assms none fresh by (simp add: recordEviction_def counted_def Let_def)
  show "\<not> length (sd_gaps st) < MAX_TRACKED_GAP_RUNS \<Longrightarrow>
      recordEviction w x st = counted w (sd_gaps st) 1 st"
    using assms none by (simp add: recordEviction_def counted_def Let_def)
qed

lemma counted_books:
  assumes "books_ok ann Y lost items rest st"
    and "mset (lost @ [x]) = mset (events_of ann) + mset (events_of Y) + mset (pending_events items' gaps) + mset rest'"
    and "\<forall>run g. map_of gaps run = Some g \<longrightarrow> gap_of run g (items' run)"
    and "wf_omap gaps" "length gaps \<le> MAX_TRACKED_GAP_RUNS" "length rest' = sd_unattributed st + n"
  shows "books_ok ann Y (lost @ [x]) items' rest' (counted w gaps n st)"
  using assms
  by (simp add: books_ok_def counted_def Let_def warnLoss_def noted_def hole_told_def list_all_iff)

lemma recordEviction_books:
  assumes "books_ok ann Y lost items rest st" "be_id x \<notin> sd_sent st"
  shows "\<exists>items' rest'. books_ok ann Y (lost @ [x]) items' rest' (recordEviction w x st)"
proof -
  note case_eqs = recordEviction_cases [OF assms(2), where w = w]
  note b = assms(1) [unfolded books_ok_def]
  show ?thesis
  proof (cases "map_of (sd_gaps st) (be_run x)")
    case (Some g)
    let ?items = "items(be_run x := items (be_run x) @ [x])"
    have wf: "wf_omap (sd_gaps st)" using b by blast
    have "gap_of (be_run x) g (items (be_run x))" using b Some by blast
    from gap_of_widen [OF this, of x] b Some pending_update(1) [OF wf Some, where items = items and x = x]
      pending_update(2,3) [OF wf Some]
    have "books_ok ann Y (lost @ [x]) ?items rest (recordEviction w x st)"
      unfolding case_eqs(1) [OF Some] by (intro counted_books [OF assms(1)]) auto
    then show ?thesis by blast
  next
    case None
    then have mem: "be_run x \<notin> set (okeys (sd_gaps st))" by (simp add: map_of_None_keys)
    show ?thesis
    proof (cases "length (sd_gaps st) < MAX_TRACKED_GAP_RUNS")
      case True
      let ?items = "items(be_run x := [x])"
      have "books_ok ann Y (lost @ [x]) ?items rest (recordEviction w x st)"
        unfolding case_eqs(2) [OF None True]
        by (intro counted_books [OF assms(1)])
          (use None b True mem gap_of_one [of x "be_run x"] in
            \<open>auto simp: pending_fresh [OF None] map_add_def split: option.splits\<close>)
      then show ?thesis by blast
    next
      case False
      have "books_ok ann Y (lost @ [x]) items (rest @ [x]) (recordEviction w x st)"
        unfolding case_eqs(3) [OF None False]
        by (intro counted_books [OF assms(1)]) (use b in auto)
      then show ?thesis by blast
    qed
  qed
qed

lemma recordEviction_frame:
  "sd_ring (recordEviction w x st) = sd_ring st" "sd_seq (recordEviction w x st) = sd_seq st"
  "sd_made (recordEviction w x st) = sd_made st" "sd_attached (recordEviction w x st) = sd_attached st"
  "sd_sent (recordEviction w x st) = sd_sent st"
  by (simp_all add: recordEviction_def Let_def warnLoss_def noted_def split: option.split)

lemma recordEviction_good:
  assumes "good (insert x X) ann Y all st" "x \<notin> X"
  shows "good X ann Y all (recordEviction w x st)"
proof -
  obtain lost items rest where i: "items_ok (insert x X) all lost st" and b: "books_ok ann Y lost items rest st"
    using assms(1) by (auto simp: good_def)
  note i' = recordEviction_items [OF i assms(2), of w]
  show ?thesis
  proof (cases "be_id x \<in> sd_sent st")
    case True
    then have "recordEviction w x st = st" by (simp add: recordEviction_def)
    then show ?thesis using i' b True by (auto simp: good_def)
  next
    case False
    then show ?thesis using i' recordEviction_books [OF b False, of w] by (auto simp: good_def)
  qed
qed

lemma evictions_good:
  "\<lbrakk>good (X \<union> set ev) ann Y all st; distinct ev; X \<inter> set ev = {}\<rbrakk>
   \<Longrightarrow> good X ann Y all (fold (recordEviction w) ev st)"
proof (induction ev arbitrary: st)
  case (Cons x ev)
  have "good (X \<union> set ev) ann Y all (recordEviction w x st)"
    by (rule recordEviction_good) (use Cons.prems in auto)
  then show ?case using Cons by simp
qed simp

lemma evictions_frame:
  "sd_ring (fold (recordEviction w) ev st) = sd_ring st" "sd_seq (fold (recordEviction w) ev st) = sd_seq st"
  "sd_attached (fold (recordEviction w) ev st) = sd_attached st"
  by (induction ev arbitrary: st) (simp_all add: recordEviction_frame)

section \<open>Emissions keep the books\<close>

lemma items_ok_fresh_id:
  assumes "items_ok X all lost st" "be_id it = length (sd_made st)"
  shows "it \<notin> set all"
proof
  assume "it \<in> set all"
  moreover have "be_id ` set all = {0..<length (sd_made st)}"
    using assms(1) unfolding items_ok_def by (metis set_map set_upt)
  ultimately show False using assms(2) by (metis atLeastLessThan_iff imageI less_irrefl)
qed

lemma pushed_items:
  assumes i: "items_ok X all lost st" and s: "s < sd_seq st" "s \<notin> be_seq ` set all"
    and new: "new_item text s run st = (it, st2)"
    and push: "ring_push (sd_ring st2) it = (ring, ev, kept)"
  shows "items_ok (if kept then X \<union> set ev else insert it X) (all @ [it]) lost (st2\<lparr>sd_ring := ring\<rparr>)"
    and "distinct ev" and "X \<inter> set ev = {}" and "it \<notin> X" and "kept \<Longrightarrow> it \<in> set (ring_list ring)"
proof -
  have it: "be_id it = length (sd_made st)" "be_seq it = s" "st2 = st\<lparr>sd_made := sd_made st @ [it]\<rparr>"
    using new by (auto simp: new_item_def Let_def)
  have fresh: "it \<notin> set all" by (rule items_ok_fresh_id [OF i it(1)])
  have rok: "ring_ok (sd_ring st)" using i by (simp add: items_ok_def)
  have p: "ring_push (sd_ring st) it = (ring, ev, kept)" using push it(3) by simp
  have ok': "ring_ok ring" by (rule rb.push_ok [OF rok p])
  have conserve: "if kept then ev @ ring_list ring = ring_list (sd_ring st) @ [it]
      else ev = [] \<and> ring_list ring = ring_list (sd_ring st)"
    using rb.accepted [OF rok, of it ring ev] rb.refused [OF rok, of it ring ev] p by (cases kept) auto
  have itX: "it \<notin> X" using fresh i by (auto simp: items_ok_def)
  then show "it \<notin> X" .
  have dist: "distinct (ring_list (sd_ring st) @ [it])" using fresh i by (auto simp: items_ok_def)
  show d: "distinct ev" using conserve dist by (metis distinct.simps(1) distinct_append)
  have evs: "set ev \<subseteq> set (ring_list (sd_ring st))"
    using rb.evicted_were_there [OF rok p] .
  then show "X \<inter> set ev = {}" using i by (auto simp: items_ok_def)
  show newest: "kept \<Longrightarrow> it \<in> set (ring_list ring)"
    using rb.newest_last [OF rok, of it ring ev] rb.keeps_newest [OF rok, of it ring ev] p
    by (metis last_in_set)
  have members: "set ev \<union> set (ring_list ring) = set (ring_list (sd_ring st)) \<union> (if kept then {it} else {})"
    by (rule rb.members [OF rok p])
  have disj: "set ev \<inter> set (ring_list ring) = {}" "distinct (ring_list ring)"
    using conserve dist by (cases kept; metis distinct_append distinct.simps(1) empty_set inf_bot_left)+
  have unsent: "length all \<notin> sd_sent st" using i by (auto simp: items_ok_def)
  show "items_ok (if kept then X \<union> set ev else insert it X) (all @ [it]) lost (st2\<lparr>sd_ring := ring\<rparr>)"
  proof (cases kept)
    case True
    have itev: "it \<notin> set ev" using newest [OF True] disj(1) by blast
    show ?thesis
      using i ok' s it fresh members disj newest itX evs True itev unsent unfolding items_ok_def
      by (auto simp: image_iff)
  next
    case False
    then have e: "ev = []" "ring_list ring = ring_list (sd_ring st)" using conserve by auto
    show ?thesis
      using i ok' s it fresh itX False e unsent unfolding items_ok_def by (auto simp: image_iff)
  qed
qed

lemma new_item_frame:
  "new_item text s run st = (it, st2) \<Longrightarrow> sd_seq st2 = sd_seq st \<and> sd_attached st2 = sd_attached st
     \<and> be_seq it = s"
  by (auto simp: new_item_def Let_def)

lemma good_marked:
  assumes "good X ann Y all st" "it \<in> set all" "Frame (Fr_event it) \<in> set (sd_out st)"
    and "it \<in> set (ring_list (sd_ring st)) \<or> it \<in> X"
  shows "good (X - {it}) ann Y all (mark_sent it st)"
proof -
  obtain lost items rest where i: "items_ok X all lost st" and b: "books_ok ann Y lost items rest st"
    using assms(1) by (auto simp: good_def)
  have notlost: "it \<notin> set lost" using i assms(4) by (auto simp: items_ok_def)
  have ids: "be_id x = be_id it \<longleftrightarrow> x = it" if "x \<in> set all" for x
  proof -
    have "distinct (map be_id all)" using i by (simp add: items_ok_def)
    then show ?thesis using that assms(2) by (auto simp: distinct_map inj_on_def)
  qed
  have idlt: "be_id it < length all"
  proof -
    have "be_id ` set all = {0..<length all}"
      using i unfolding items_ok_def by (metis set_map set_upt)
    then show ?thesis using assms(2) by (metis atLeastLessThan_iff imageI)
  qed
  have "items_ok (X - {it}) all lost (mark_sent it st)"
    using i notlost ids idlt assms(3) unfolding items_ok_def mark_sent_def by auto
  moreover have "books_ok ann Y lost items rest (mark_sent it st)"
    using b by (simp add: books_ok_def mark_sent_def)
  ultimately show ?thesis by (auto simp: good_def)
qed

text \<open>The seq given back is the one that was taken.\<close>

lemma good_give_back:
  assumes "good X ann Y (all @ new) st1" "sd_seq st1 = s + 1" "\<forall>x\<in>set new. s + 1 \<le> be_seq x"
    and "good X ann Y all st" "sd_seq st = s"
  shows "good X ann Y all (st1\<lparr>sd_seq := s\<rparr>)"
proof -
  obtain lost items rest where i: "items_ok X (all @ new) lost st1" and b: "books_ok ann Y lost items rest st1"
    using assms(1) by (auto simp: good_def)
  have "new = []" using i assms(2,3) by (cases new) (auto simp: items_ok_def)
  moreover have "\<forall>x\<in>set all. be_seq x < s" using assms(4,5) by (auto simp: good_def items_ok_def)
  ultimately have "items_ok X all lost (st1\<lparr>sd_seq := s\<rparr>)" using i by (simp add: items_ok_def)
  moreover have "books_ok ann Y lost items rest (st1\<lparr>sd_seq := s\<rparr>)" using b by (simp add: books_ok_def)
  ultimately show ?thesis by (auto simp: good_def)
qed

lemma advances_intro:
  "\<lbrakk>good X ann Y (all @ new) st'; sd_seq st \<le> sd_seq st'; \<forall>x\<in>set new. sd_seq st \<le> be_seq x\<rbrakk>
   \<Longrightarrow> advances X ann Y all st st'"
  by (auto simp: advances_def)

lemma advances_good: "advances X ann Y all st st' \<Longrightarrow> \<exists>new. good X ann Y (all @ new) st' \<and> sd_seq st \<le> sd_seq st'
    \<and> (\<forall>x\<in>set new. sd_seq st \<le> be_seq x)"
  by (simp add: advances_def)

definition send_keeps :: "hole list \<Rightarrow> hole list \<Rightarrow> send_env \<Rightarrow> out_frame \<Rightarrow> delivery \<Rightarrow> bool" where
  "send_keeps ann Y env frame st \<longleftrightarrow>
     (fst (send_json env frame st) \<longrightarrow> snd (send_json env frame st) = noted (Frame frame) st)
     \<and> (\<forall>X all. good X ann Y all st \<longrightarrow> advances X ann Y all st (snd (send_json env frame st)))"

text \<open>The envelope that can be serialised: numbered, pushed, evictions recorded, sent.\<close>

lemma emitted_item:
  assumes st: "good X ann Y (all @ new) st1" "s < sd_seq st1" "s \<notin> be_seq ` set (all @ new)"
    and item: "new_item text s run st1 = (it, st2)"
    and push: "ring_push (sd_ring st2) it = (ring, ev, kept)"
    and st3: "st3 = fold (recordEviction True) ev (st2\<lparr>sd_ring := ring\<rparr>)"
    and send: "send_keeps ann Y env (Fr_event it) st3" "send_json env (Fr_event it) st3 = (sent, st4)"
  shows "advances X ann Y ((all @ new) @ [it]) st1
           (if \<not> kept then handleUnbuffered it sent st4 else if sent then mark_sent it st4 else st4)"
proof -
  let ?X = "if kept then X else insert it X"
  obtain lost items rest where i: "items_ok X (all @ new) lost st1" and b: "books_ok ann Y lost items rest st1"
    using st(1) by (auto simp: good_def)
  note pushed = pushed_items [OF i st(2,3) item push]
  have b2: "books_ok ann Y lost items rest (st2\<lparr>sd_ring := ring\<rparr>)"
    using b item by (auto simp: books_ok_def new_item_def Let_def)
  have "good (?X \<union> set ev) ann Y ((all @ new) @ [it]) (st2\<lparr>sd_ring := ring\<rparr>)"
  proof (cases kept)
    case False
    then have "ev = []" using i item push rb.refused [of "sd_ring st2" it ring ev]
      by (auto simp: items_ok_def new_item_def Let_def)
    then show ?thesis using pushed(1) b2 False by (auto simp: good_def)
  qed (use pushed(1) b2 in \<open>auto simp: good_def\<close>)
  moreover have "?X \<inter> set ev = {}"
  proof (cases kept)
    case False
    then have "ev = []" using i item push rb.refused [of "sd_ring st2" it ring ev]
      by (auto simp: items_ok_def new_item_def Let_def)
    then show ?thesis by simp
  qed (use pushed(3) in simp)
  ultimately have g3: "good ?X ann Y ((all @ new) @ [it]) st3"
    unfolding st3 using pushed(2) by (intro evictions_good) auto
  have frame3: "sd_ring st3 = ring" "sd_seq st3 = sd_seq st1"
    using st3 new_item_frame [OF item] by (simp_all add: evictions_frame)
  obtain more where more: "good ?X ann Y (((all @ new) @ [it]) @ more) st4" "sd_seq st1 \<le> sd_seq st4"
    "\<forall>x\<in>set more. sd_seq st1 \<le> be_seq x"
    using send g3 frame3(2) unfolding send_keeps_def advances_def by (metis snd_conv)
  have taken: "st4 = noted (Frame (Fr_event it)) st3" if sent
    using send that by (simp add: send_keeps_def)
  have mem: "it \<in> set (((all @ new) @ [it]) @ more)" by simp
  show ?thesis
  proof (cases kept)
    case True
    show ?thesis
    proof (cases sent)
      case True
      have "good (X - {it}) ann Y (((all @ new) @ [it]) @ more) (mark_sent it st4)"
        by (rule good_marked [OF _ mem])
          (use more(1) \<open>kept\<close> taken [OF True] frame3 pushed(5) in \<open>auto simp: noted_def\<close>)
      then have "good X ann Y (((all @ new) @ [it]) @ more) (mark_sent it st4)" using pushed(4) by simp
      then show ?thesis using \<open>kept\<close> True more(2,3)
        by (intro advances_intro [where new = more]) (auto simp: mark_sent_def)
    next
      case False
      then show ?thesis using \<open>kept\<close> more by (intro advances_intro [where new = more]) auto
    qed
  next
    case False
    show ?thesis
    proof (cases sent)
      case True
      have "good (insert it X - {it}) ann Y (((all @ new) @ [it]) @ more) (mark_sent it st4)"
        by (rule good_marked [OF _ mem]) (use more(1) False taken [OF True] in \<open>auto simp: noted_def\<close>)
      then have "good X ann Y (((all @ new) @ [it]) @ more) (mark_sent it st4)" using pushed(4) by simp
      then have "good X ann Y (((all @ new) @ [it]) @ more) (handleUnbuffered it sent st4)"
        using True by (simp add: handleUnbuffered_def good_noted)
      then show ?thesis using False True more(2,3)
        by (intro advances_intro [where new = more]) (auto simp: handleUnbuffered_def mark_sent_def noted_def)
    next
      case ns: False
      have "good X ann Y (((all @ new) @ [it]) @ more) (recordEviction False it st4)"
        by (rule recordEviction_good) (use more(1) False pushed(4) in auto)
      then have "good X ann Y (((all @ new) @ [it]) @ more) (handleUnbuffered it sent st4)"
        using ns by (simp add: handleUnbuffered_def good_noted)
      then show ?thesis using False ns more(2,3)
        by (intro advances_intro [where new = more])
          (auto simp: handleUnbuffered_def noted_def recordEviction_frame)
    qed
  qed
qed

lemma emissions_advance:
  "\<forall>X all. good X ann Y all st \<longrightarrow> advances X ann Y all st (fst (emitInternal e st))"
  "\<forall>X all. good X ann Y all st' \<longrightarrow> advances X ann Y all st' (emit_all es st')"
  "send_keeps ann Y env frame st''"
proof (induction e st and es st' and env frame st'' rule: emitInternal_emit_all_send_json.induct)
  case (1 st)
  then show ?case by (simp add: advances_refl)
next
  case (2 run nested json env st)
  show ?case
  proof (intro allI impI)
    fix X all
    assume g: "good X ann Y all st"
    let ?s = "sd_seq st"
    let ?st1 = "emit_all nested (st\<lparr>sd_seq := ?s + 1\<rparr>)"
    have "good X ann Y all (st\<lparr>sd_seq := ?s + 1\<rparr>)" by (rule good_seq [OF g]) simp
    then obtain new where new: "good X ann Y (all @ new) ?st1" "?s + 1 \<le> sd_seq ?st1"
      "\<forall>x\<in>set new. ?s + 1 \<le> be_seq x"
      using 2(1) [OF refl] by (force simp: advances_def)
    show "advances X ann Y all st (fst (emitInternal (Emission run nested json env) st))"
    proof (cases json)
      case None
      then show ?thesis
      proof (cases "sd_seq ?st1 = ?s + 1")
        case True
        then show ?thesis using None good_give_back [OF new(1) True new(3) g refl]
          by (intro advances_intro [where new = "[]"]) (simp_all add: Let_def)
      next
        case False
        then show ?thesis using None new
          by (intro advances_intro [where new = new]) (auto simp: Let_def)
      qed
    next
      case (Some j)
      obtain it st2 where item: "new_item j ?s run ?st1 = (it, st2)" by (metis surj_pair)
      obtain ring ev kept where push: "ring_push (sd_ring st2) it = (ring, ev, kept)" by (metis prod_cases3)
      define st3 where "st3 = fold (recordEviction True) ev (st2\<lparr>sd_ring := ring\<rparr>)"
      obtain sent st4 where send: "send_json env (Fr_event it) st3 = (sent, st4)" by (metis surj_pair)
      have keeps: "send_keeps ann Y env (Fr_event it) st3"
        using 2(2) [OF refl refl Some item [symmetric] refl push [symmetric] refl refl st3_def] by simp
      have "?s \<notin> be_seq ` set (all @ new)"
        using new(3) g by (fastforce simp: good_def items_ok_def)
      from emitted_item [OF new(1) _ this item push st3_def keeps send] new(2)
      have adv: "advances X ann Y ((all @ new) @ [it]) ?st1 (fst (emitInternal (Emission run nested json env) st))"
        using Some item push send st3_def by (simp add: Let_def)
      then obtain more where more: "good X ann Y (((all @ new) @ [it]) @ more)
           (fst (emitInternal (Emission run nested json env) st))"
        "sd_seq ?st1 \<le> sd_seq (fst (emitInternal (Emission run nested json env) st))"
        "\<forall>x\<in>set more. sd_seq ?st1 \<le> be_seq x"
        by (auto simp: advances_def)
      show ?thesis
        by (rule advances_intro [where new = "new @ [it] @ more"])
          (use more new new_item_frame [OF item] in \<open>auto intro: order_trans\<close>)
    qed
  qed
next
  case (3 st)
  then show ?case by (simp add: advances_refl)
next
  case (4 e es st)
  then show ?case by (simp, blast intro: advances_trans)
next
  case (5 env frame st)
  show ?case
  proof (cases "sd_attached st")
    case False
    then show ?thesis by (simp add: send_keeps_def advances_refl)
  next
    case True
    show ?thesis
    proof (cases env)
      case Accepts
      then show ?thesis using True
        by (auto simp: send_keeps_def noted_def intro!: advances_intro [where new = "[]"] dest: good_noted [where n = "Frame frame"])
    next
      case (Fails nested)
      let ?st = "noted (Warning ''transport-send'') (st\<lparr>sd_attached := False\<rparr>)"
      have "advances X ann Y all st (emit_all nested ?st)" if "good X ann Y all st" for X all
      proof -
        have "good X ann Y all ?st" by (rule good_noted) (use that in \<open>simp add: good_link\<close>)
        then have "advances X ann Y all ?st (emit_all nested ?st)" using 5 [OF _ Fails] True by simp
        then show ?thesis by (simp add: advances_def noted_def)
      qed
      then show ?thesis using True Fails by (simp add: send_keeps_def)
    qed
  qed
qed

section \<open>Attaching keeps the books\<close>

text \<open>The holes taken in hand: the pending records with their events.\<close>

definition hole_record :: "hole \<Rightarrow> ident \<times> gap_record" where
  "hole_record = (\<lambda>(run, g, xs). (run, g))"

definition in_hand :: "hole list \<Rightarrow> (ident \<times> gap_record) list \<Rightarrow> delivery \<Rightarrow> bool" where
  "in_hand Y pending st \<longleftrightarrow>
     map hole_record Y = pending \<and> distinct (map fst pending) \<and> length pending \<le> MAX_TRACKED_GAP_RUNS
     \<and> sd_gaps st = []"

lemma take_in_hand:
  assumes "good X ann [] all st"
  shows "\<exists>Y. in_hand Y (sd_gaps st) (st\<lparr>sd_gaps := []\<rparr>) \<and> good X ann Y all (st\<lparr>sd_gaps := []\<rparr>)"
proof -
  obtain lost items rest where i: "items_ok X all lost st" and b: "books_ok ann [] lost items rest st"
    using assms by (auto simp: good_def)
  let ?Y = "map (\<lambda>(run, g). (run, g, items run)) (sd_gaps st)"
  have "events_of ?Y = pending_events items (sd_gaps st)"
    by (simp add: events_of_def pending_events_def comp_def case_prod_unfold)
  moreover have "list_all hole_ok ?Y"
    using b unfolding books_ok_def
    by (fastforce simp: list_all_iff hole_ok_def intro: map_of_is_SomeI)
  ultimately have "books_ok ann ?Y lost items rest (st\<lparr>sd_gaps := []\<rparr>)"
    using b by (simp add: books_ok_def events_of_def pending_events_def)
  moreover have "items_ok X all lost (st\<lparr>sd_gaps := []\<rparr>)" using i by (simp add: items_ok_def)
  moreover have "in_hand ?Y (sd_gaps st) (st\<lparr>sd_gaps := []\<rparr>)"
    using b by (simp add: in_hand_def books_ok_def hole_record_def comp_def case_prod_unfold)
  ultimately show ?thesis unfolding good_def by blast
qed

lemma good_told:
  assumes "good X ann (h # Y) all st" "hole_told (sd_out st) h"
  shows "good X (ann @ [h]) Y all st"
proof -
  obtain lost items rest where i: "items_ok X all lost st" and b: "books_ok ann (h # Y) lost items rest st"
    using assms(1) by (auto simp: good_def)
  have "books_ok (ann @ [h]) Y lost items rest st"
    using b assms(2) by (simp add: books_ok_def events_of_def)
  then show ?thesis using i by (auto simp: good_def)
qed

lemma put_back_all:
  "distinct (map fst (acc @ pending)) \<Longrightarrow>
   fold (\<lambda>(run, g). AList.update run g) pending acc = acc @ pending"
proof (induction pending arbitrary: acc)
  case (Cons p pending)
  then show ?case by (cases p) (simp add: update_fresh)
qed simp

lemma in_hand_record:
  assumes "distinct (map fst (map hole_record Y))" "(run, g, xs) \<in> set Y"
  shows "map_of (map (\<lambda>(run, g, xs). (run, xs)) Y) run = Some xs"
  using assms by (intro map_of_is_SomeI) (force simp: hole_record_def comp_def case_prod_unfold)+

lemma good_put_back:
  assumes g: "good X ann Y all st" and h: "in_hand Y pending st"
  shows "good X ann [] all (put_back pending st)"
proof -
  obtain lost items rest where i: "items_ok X all lost st" and b: "books_ok ann Y lost items rest st"
    using g by (auto simp: good_def)
  let ?items = "\<lambda>run. the (map_of (map (\<lambda>(run, g, xs). (run, xs)) Y) run)"
  have recs: "map hole_record Y = pending" and dist: "distinct (map fst pending)" using h by (simp_all add: in_hand_def)
  have own: "?items run = xs" if "(run, g, xs) \<in> set Y" for run g xs
    using in_hand_record [OF _ that] recs dist by simp
  have gaps: "sd_gaps (put_back pending st) = pending"
    using put_back_all [of "[]" pending] dist h by (simp add: put_back_def in_hand_def)
  have "pending_events ?items pending = events_of Y"
    unfolding pending_events_def events_of_def recs [symmetric]
    by (rule arg_cong [where f = concat]) (use own in \<open>force simp: hole_record_def\<close>)
  moreover have "gap_of run g (?items run)" if "map_of pending run = Some g" for run g
  proof -
    have "(run, g) \<in> set (map hole_record Y)" using map_of_SomeD [OF that] recs by simp
    then obtain xs where "(run, g, xs) \<in> set Y" by (force simp: hole_record_def)
    then show ?thesis using own b by (fastforce simp: books_ok_def list_all_iff hole_ok_def)
  qed
  ultimately have "books_ok ann [] lost ?items rest (put_back pending st)"
    using b h gaps by (simp add: books_ok_def in_hand_def put_back_def events_of_def pending_events_def)
  moreover have "items_ok X all lost (put_back pending st)" using i by (simp add: items_ok_def put_back_def)
  ultimately show ?thesis unfolding good_def by blast
qed

text \<open>
  Nothing is emitted while the debugger attaches: no gate is held then, so a socket that dies in
  the middle releases none.
\<close>

definition quiet_env :: "send_env \<Rightarrow> bool" where
  "quiet_env env = (case env of Accepts \<Rightarrow> True | Fails nested \<Rightarrow> nested = [])"

definition accounted :: "delivery \<Rightarrow> bool" where
  "accounted st \<longleftrightarrow> (\<exists>ann. good {} ann [] (sd_made st) st)"

lemma good_made: "good X ann Y all st \<Longrightarrow> sd_made st = all"
  by (auto simp: good_def items_ok_def)

lemma quiet_next: "list_all quiet_env envs \<Longrightarrow> quiet_env (next_env envs)"
  by (cases envs) (simp_all add: quiet_env_def)

lemma quiet_tl: "list_all quiet_env envs \<Longrightarrow> list_all quiet_env (tl envs)"
  by (cases envs) simp_all

lemma quiet_send:
  assumes "quiet_env env" "send_json env frame st = (sent, st')"
  shows "st' = (if sent then noted (Frame frame) st
                else if sd_attached st then noted (Warning ''transport-send'') (st\<lparr>sd_attached := False\<rparr>) else st)"
  using assms by (auto simp: quiet_env_def split: if_splits send_env.splits)

lemma quiet_send_good:
  assumes "quiet_env env" "send_json env frame st = (sent, st')" "good X ann Y all st"
  shows "good X ann Y all st'" "sent \<Longrightarrow> Frame frame \<in> set (sd_out st')"
    "sd_gaps st' = sd_gaps st" "sd_ring st' = sd_ring st" "sd_made st' = sd_made st"
proof -
  note st' = quiet_send [OF assms(1,2)]
  have "good X ann Y all (st\<lparr>sd_attached := False\<rparr>)" using assms(3) by (simp add: good_link)
  then show "good X ann Y all st'" unfolding st' using assms(3) by (simp add: good_noted)
  show "sent \<Longrightarrow> Frame frame \<in> set (sd_out st')" unfolding st' by (simp add: noted_def)
  show "sd_gaps st' = sd_gaps st" "sd_ring st' = sd_ring st" "sd_made st' = sd_made st"
    unfolding st' by (simp_all add: noted_def)
qed

lemma flush_loop_good:
  assumes "list_all quiet_env envs" "in_hand Y pending st" "good {} ann Y (sd_made st) st"
    and "flush_loop envs pending st = (envs', st')"
  shows "list_all quiet_env envs' \<and> accounted st'"
  using assms
proof (induction pending arbitrary: envs Y st ann)
  case Nil
  then have "Y = []" by (simp add: in_hand_def)
  then show ?case using Nil by (auto simp: accounted_def)
next
  case (Cons p pending)
  obtain run g where p: "p = (run, g)" by (cases p)
  obtain h Y' where Y: "Y = h # Y'" "hole_record h = (run, g)" using Cons.prems(2) p by (auto simp: in_hand_def)
  obtain sent st1 where send: "send_json (next_env envs) (Fr_gap run g (sd_seq st)) (st\<lparr>sd_seq := sd_seq st + 1\<rparr>) = (sent, st1)"
    by (metis surj_pair)
  have "good {} ann Y (sd_made st) (st\<lparr>sd_seq := sd_seq st + 1\<rparr>)" by (rule good_seq [OF Cons.prems(3)]) simp
  note sending = quiet_send_good [OF quiet_next [OF Cons.prems(1)] send this]
  have made: "sd_made st1 = sd_made st" using sending(5) by simp
  show ?case
  proof (cases sent)
    case True
    have "hole_told (sd_out st1) h"
      using sending(2) [OF True] Y(2) by (cases h) (auto simp: hole_told_def hole_record_def)
    then have "good {} (ann @ [h]) Y' (sd_made st1) st1"
      using good_told sending(1) Y(1) made by metis
    moreover have "in_hand Y' pending st1" using Cons.prems(2) Y sending(3) p by (simp add: in_hand_def)
    moreover have "flush_loop (tl envs) pending st1 = (envs', st')"
      using Cons.prems(4) p send True by (simp add: Let_def)
    ultimately show ?thesis using Cons.IH quiet_tl [OF Cons.prems(1)] by metis
  next
    case False
    have "in_hand Y (p # pending) st1" using Cons.prems(2) sending(3) by (simp add: in_hand_def)
    from good_put_back [OF sending(1) this]
    have "good {} ann [] (sd_made st) (put_back (p # pending) st1)" .
    then have "accounted (put_back (p # pending) st1)"
      using good_made unfolding accounted_def by metis
    moreover have "envs' = tl envs" "st' = put_back (p # pending) st1"
      using Cons.prems(4) p send False by (simp_all add: Let_def)
    ultimately show ?thesis using quiet_tl [OF Cons.prems(1)] by simp
  qed
qed

lemma flushGapMarkers_accounted:
  assumes "list_all quiet_env envs" "accounted st" "flushGapMarkers envs st = (envs', st')"
  shows "list_all quiet_env envs' \<and> accounted st'"
proof (cases "sd_gaps st = []")
  case True
  then show ?thesis using assms by (simp add: flushGapMarkers_def)
next
  case False
  obtain ann where "good {} ann [] (sd_made st) st" using assms(2) by (auto simp: accounted_def)
  from take_in_hand [OF this] obtain Y where "in_hand Y (sd_gaps st) (st\<lparr>sd_gaps := []\<rparr>)"
    "good {} ann Y (sd_made (st\<lparr>sd_gaps := []\<rparr>)) (st\<lparr>sd_gaps := []\<rparr>)" by auto
  from flush_loop_good [OF assms(1) this] show ?thesis
    using assms(3) False by (simp add: flushGapMarkers_def)
qed

lemma replay_accounted:
  assumes "list_all quiet_env envs" "accounted st" "set its \<subseteq> set (ring_list (sd_ring st))"
  shows "accounted (replay envs its st)"
  using assms
proof (induction its arbitrary: envs st)
  case (Cons it its)
  obtain ann where g: "good {} ann [] (sd_made st) st" using Cons.prems(2) by (auto simp: accounted_def)
  obtain sent st1 where send: "send_json (next_env envs) (Fr_event it) st = (sent, st1)" by (metis surj_pair)
  note sending = quiet_send_good [OF quiet_next [OF Cons.prems(1)] send g]
  have g1: "good {} ann [] (sd_made st1) st1" using sending by simp
  show ?case
  proof (cases sent)
    case True
    have mem: "it \<in> set (sd_made st1)" using g1 Cons.prems(3) sending(4) by (auto simp: good_def items_ok_def)
    have "good ({} - {it}) ann [] (sd_made st1) (mark_sent it st1)"
      by (rule good_marked [OF g1 mem sending(2) [OF True]]) (use Cons.prems(3) sending(4) in auto)
    then have "accounted (mark_sent it st1)" by (auto simp: accounted_def mark_sent_def)
    moreover have "set its \<subseteq> set (ring_list (sd_ring (mark_sent it st1)))"
      using Cons.prems(3) sending(4) by (simp add: mark_sent_def)
    ultimately show ?thesis using Cons.IH quiet_tl [OF Cons.prems(1)] send True by simp
  next
    case False
    then show ?thesis using send g1 by (auto simp: accounted_def)
  qed
qed simp

section \<open>Every step keeps the books\<close>

definition quiet_event :: "delivery_event \<Rightarrow> bool" where
  "quiet_event ev = (case ev of Sd_attach envs \<Rightarrow> list_all quiet_env envs | _ \<Rightarrow> True)"

lemma advances_accounted: "advances {} ann [] all st st' \<Longrightarrow> accounted st'"
  unfolding advances_def accounted_def using good_made by metis

lemma accounted_link: "accounted (st\<lparr>sd_attached := b\<rparr>) = accounted st"
  by (simp add: accounted_def good_link)

lemma emit_all_accounted: "accounted st \<Longrightarrow> accounted (emit_all es st)"
  unfolding accounted_def [of st] using emissions_advance(2) advances_accounted by blast

lemma delivery_step_accounted:
  assumes "accounted st" "quiet_event ev"
  shows "accounted (delivery_step ev st)"
proof (cases ev)
  case (Sd_emit e)
  obtain ann where "good {} ann [] (sd_made st) st" using assms(1) by (auto simp: accounted_def)
  then have "advances {} ann [] (sd_made st) st (fst (emitInternal e st))" using emissions_advance(1) by blast
  then show ?thesis using Sd_emit by (simp add: advances_accounted)
next
  case Sd_hello
  obtain ann where g: "good {} ann [] (sd_made st) st" using assms(1) by (auto simp: accounted_def)
  have "good {} ann [] (sd_made st) (build_hello st)"
    unfolding build_hello_def by (rule good_noted) (rule good_seq [OF g], simp)
  moreover have "sd_made (build_hello st) = sd_made st" by (simp add: build_hello_def noted_def)
  ultimately show ?thesis using Sd_hello by (auto simp: accounted_def)
next
  case (Sd_attach envs)
  show ?thesis
  proof (cases "sd_attached st")
    case False
    let ?st = "st\<lparr>sd_attached := True\<rparr>"
    obtain envs' st1 where f: "flushGapMarkers envs ?st = (envs', st1)" by (metis surj_pair)
    have "list_all quiet_env envs" using assms(2) Sd_attach by (simp add: quiet_event_def)
    then have "list_all quiet_env envs' \<and> accounted st1"
      by (rule flushGapMarkers_accounted [OF _ _ f]) (use assms(1) in \<open>simp add: accounted_link\<close>)
    then have "accounted (replay envs' (ring_list (sd_ring st1)) st1)" by (simp add: replay_accounted)
    then show ?thesis using False Sd_attach f by (simp add: handleAttached_def)
  qed (use assms Sd_attach in simp)
next
  case (Sd_detach nested)
  then show ?thesis using assms(1) by (simp add: emit_all_accounted accounted_link)
qed

lemma delivery_new_accounted:
  assumes "ring_ok ring" "ring_list ring = []"
  shows "accounted (delivery_new ring)"
proof -
  have "items_ok {} [] [] (delivery_new ring)" "books_ok [] [] [] (\<lambda>_. []) [] (delivery_new ring)"
    using assms by (simp_all add: items_ok_def books_ok_def delivery_new_def events_of_def pending_events_def)
  then have "good {} [] [] [] (delivery_new ring)" unfolding good_def by blast
  then show ?thesis unfolding accounted_def by (auto simp: delivery_new_def)
qed

lemma delivery_run_accounted:
  "\<lbrakk>accounted st; list_all quiet_event evs\<rbrakk> \<Longrightarrow> accounted (fold delivery_step evs st)"
  by (induction evs arbitrary: st) (simp_all add: delivery_step_accounted)

section \<open>An attach on a working link\<close>

definition gap_frames :: "nat \<Rightarrow> (ident \<times> gap_record) list \<Rightarrow> out_note list" where
  "gap_frames s pending = map (\<lambda>(i, run, g). Frame (Fr_gap run g i)) (enumerate s pending)"

lemma flush_loop_accepting:
  "sd_attached st \<Longrightarrow> flush_loop [] pending st
     = ([], st\<lparr>sd_seq := sd_seq st + length pending, sd_out := sd_out st @ gap_frames (sd_seq st) pending\<rparr>)"
proof (induction pending arbitrary: st)
  case (Cons p pending)
  then show ?case by (cases p) (simp add: Let_def noted_def gap_frames_def)
qed (simp add: gap_frames_def)

lemma replay_accepting:
  "sd_attached st \<Longrightarrow> replay [] its st
     = st\<lparr>sd_sent := sd_sent st \<union> be_id ` set its, sd_out := sd_out st @ map (\<lambda>it. Frame (Fr_event it)) its\<rparr>"
  by (induction its arbitrary: st) (simp_all add: mark_sent_def noted_def)

text \<open>
  C35: On a link that takes every frame, an attach says everything that is owed: one gap marker per
  pending record, with fresh sequence numbers, and after them every buffered event, oldest first and
  with its own number. Nothing stays pending, every buffered event counts as sent, and the buffer is
  kept for the next attach. While attached, an attach does nothing.
\<close>

theorem attach_tells_everything:
  "delivery_step (Sd_attach []) st =
     (if sd_attached st then st
      else st\<lparr>sd_attached := True, sd_gaps := [],
              sd_seq := sd_seq st + length (sd_gaps st),
              sd_sent := sd_sent st \<union> be_id ` set (ring_list (sd_ring st)),
              sd_out := sd_out st @ gap_frames (sd_seq st) (sd_gaps st)
                          @ map (\<lambda>it. Frame (Fr_event it)) (ring_list (sd_ring st))\<rparr>)"
proof -
  have "flushGapMarkers [] (st\<lparr>sd_attached := True\<rparr>)
     = ([], st\<lparr>sd_attached := True, sd_gaps := [], sd_seq := sd_seq st + length (sd_gaps st),
               sd_out := sd_out st @ gap_frames (sd_seq st) (sd_gaps st)\<rparr>)"
    by (cases "sd_gaps st = []")
      (simp_all add: flushGapMarkers_def flush_loop_accepting, simp_all add: gap_frames_def)
  then show ?thesis by (simp add: handleAttached_def replay_accepting)
qed

section \<open>No silent loss\<close>

text \<open>
  C10: No event disappears silently. However a session emits, attaches, detaches and loses its
  socket, with emissions nested in emissions, every envelope made so far was sent, is in the replay
  buffer, or is one of the \<open>lost\<close>, which \<open>stats().lost\<close> counts. Every lost one is told of exactly
  once: by a gap marker on the wire, by a pending gap record of its run, or by the count of the
  unattributed ones; each record gives the number of its events and their lowest and highest sequence
  number. At most 64 runs are tracked and no two envelopes share a sequence number. Assumed: nothing
  is emitted while the debugger attaches.
\<close>

theorem no_silent_loss:
  assumes "ring_new capacity maxBytes sizeOf reject = Inr ring"
    and "list_all quiet_event evs"
    and "st = fold delivery_step evs (delivery_new ring)"
  shows "\<exists>lost announced pending unattributed.
     (\<forall>x\<in>set (sd_made st). Frame (Fr_event x) \<in> set (sd_out st) \<or> x \<in> set (ring_list (sd_ring st)) \<or> x \<in> set lost)
     \<and> set lost \<subseteq> set (sd_made st) \<and> distinct lost
     \<and> (\<forall>x\<in>set lost. x \<notin> set (ring_list (sd_ring st)) \<and> be_id x \<notin> sd_sent st)
     \<and> ss_lost (delivery_stats st) = length lost
     \<and> mset lost = mset (events_of announced) + mset (pending_events pending (sd_gaps st)) + mset unattributed
     \<and> (\<forall>(run, g, xs)\<in>set announced. gap_of run g xs \<and> (\<exists>s. Frame (Fr_gap run g s) \<in> set (sd_out st)))
     \<and> (\<forall>run g. map_of (sd_gaps st) run = Some g \<longrightarrow> gap_of run g (pending run))
     \<and> sd_unattributed st = length unattributed
     \<and> ss_pendingGaps (delivery_stats st) \<le> MAX_TRACKED_GAP_RUNS
     \<and> distinct (map be_seq (sd_made st))"
proof -
  have "accounted (delivery_new ring)"
    using ring_new_ok [OF assms(1)] by (simp add: delivery_new_accounted)
  from delivery_run_accounted [OF this assms(2)] obtain ann where "good {} ann [] (sd_made st) st"
    unfolding assms(3) accounted_def by blast
  then obtain lost items rest where i: "items_ok {} (sd_made st) lost st"
    and b: "books_ok ann [] lost items rest st" by (auto simp: good_def)
  show ?thesis
  proof (intro exI conjI)
    show "\<forall>x\<in>set (sd_made st). Frame (Fr_event x) \<in> set (sd_out st) \<or> x \<in> set (ring_list (sd_ring st)) \<or> x \<in> set lost"
      using i unfolding items_ok_def by blast
    show "mset lost = mset (events_of ann) + mset (pending_events items (sd_gaps st)) + mset rest"
      using b by (simp add: books_ok_def events_of_def)
    show "\<forall>(run, g, xs)\<in>set ann. gap_of run g xs \<and> (\<exists>s. Frame (Fr_gap run g s) \<in> set (sd_out st))"
      using b by (fastforce simp: books_ok_def list_all_iff hole_ok_def hole_told_def)
    show "\<forall>run g. map_of (sd_gaps st) run = Some g \<longrightarrow> gap_of run g (items run)"
      using b unfolding books_ok_def by blast
  qed (use i b in \<open>auto simp: items_ok_def books_ok_def delivery_stats_def\<close>)
qed

text \<open>A buffer of one event, two events of a run before the first attach.\<close>

definition small_ring :: "buffered ring" where
  "small_ring = (case ring_new (Fin 1) None None True of Inl _ \<Rightarrow> undefined | Inr r \<Rightarrow> r)"

definition two_events :: "delivery_event list" where
  "two_events = [Sd_emit (Emission [] [] (Some []) Accepts), Sd_emit (Emission [] [] (Some [1]) Accepts)]"

lemma small_ring: "ring_new (Fin 1) None None True = Inr small_ring"
  by (simp add: small_ring_def ring_new_def is_js_integer_def)

theorem no_silent_loss_witness:
  "\<exists>lost announced pending unattributed.
     length lost = 1
     \<and> mset lost = mset (events_of announced)
        + mset (pending_events pending (sd_gaps (fold delivery_step (two_events @ [Sd_attach []]) (delivery_new small_ring))))
        + mset unattributed"
proof -
  let ?st = "fold delivery_step (two_events @ [Sd_attach []]) (delivery_new small_ring)"
  have "list_all quiet_event (two_events @ [Sd_attach []])"
    by (simp add: two_events_def quiet_event_def)
  from no_silent_loss [OF small_ring this refl] obtain lost announced pending unattributed where
    "ss_lost (delivery_stats ?st) = length lost"
    "mset lost = mset (events_of announced) + mset (pending_events pending (sd_gaps ?st)) + mset unattributed"
    by (elim exE conjE) (rule that)
  moreover have "ss_lost (delivery_stats ?st) = 1" by code_simp
  ultimately show ?thesis by metis
qed

section \<open>An emission in the middle of an attach\<close>

text \<open>
  The hypothesis of the last theorem is needed. The socket dies under the gap marker of the run and
  the warning about it makes the host emit another event of the run: its eviction opens a new record,
  which the old record, put back, overwrites. Two events are lost, the run's marker tells of one.
\<close>

definition noisy_attach :: delivery_event where
  "noisy_attach = Sd_attach [Fails [Emission [] [] (Some [2]) Accepts]]"

lemma put_back_overwrites:
  "let st = fold delivery_step (two_events @ [noisy_attach, Sd_attach []]) (delivery_new small_ring)
   in ss_lost (delivery_stats st) = 2 \<and> sd_unattributed st = 0 \<and> sd_gaps st = []
      \<and> [g. Frame (Fr_gap run g s) \<leftarrow> sd_out st]
        = [\<lparr>gp_droppedCount = 1, gp_fromSeq = 0, gp_toSeq = 0\<rparr>]"
  by code_simp

end
