(* ===== verification/Redaction.thy ===== *)
theory Redaction
  imports Edit_Input Loop_Guard
begin

text \<open>
  \<open>packages/client/src/redaction.ts\<close>: the kill switches that keep inputs and outputs out of a
  recording. \<open>apply\<close> looks at an event before it is numbered and buffered: it lets it pass, sends a
  copy with the covered values replaced, sends the failed form of a payload that cannot be
  inspected, or drops it.

  A payload is an object of the heap; what is sent is a copy: fields whose values are values of the
  heap or new objects (\<open>built\<close>). None is a throw. The lemmas show that no covered value is in a
  copy, that a copy does not depend on it, and that a result is judged by the kind its start named.
\<close>

section \<open>Switches\<close>

record hide_switches =
  hs_hideInputs :: bool
  hs_hideOutputs :: bool
  hs_hideToolArgs :: bool
  hs_hideToolResults :: bool

definition NO_REDACTION :: hide_switches where
  "NO_REDACTION =
     \<lparr>hs_hideInputs = False, hs_hideOutputs = False, hs_hideToolArgs = False, hs_hideToolResults = False\<rparr>"

definition envFlagOn :: "string option \<Rightarrow> bool" where
  "envFlagOn value = killSwitchOn value"

text \<open>
  An option is text of UTF-16 units; only letters of ASCII lower to the letters of the off spellings.
\<close>

definition unit_lower :: "nat \<Rightarrow> nat" where
  "unit_lower c = (if 65 \<le> c \<and> c \<le> 90 then c + 32 else c)"

definition optionFlagOn :: "js \<Rightarrow> bool" where
  "optionFlagOn value =
     (case value of
        JBool b \<Rightarrow> b
      | JNum n \<Rightarrow> n = Fin 1
      | JStr s \<Rightarrow> map unit_lower (units_trim s) \<notin> set (map lit KILL_SWITCH_OFF)
      | _ \<Rightarrow> False)"

definition resolveRedaction :: "heap \<Rightarrow> js \<Rightarrow> env \<Rightarrow> hide_switches option" where
  "resolveRedaction h options env =
     do { i \<leftarrow> opt_member h options ''hideInputs'';
          out \<leftarrow> opt_member h options ''hideOutputs'';
          ta \<leftarrow> opt_member h options ''hideToolArgs'';
          tr \<leftarrow> opt_member h options ''hideToolResults'';
          Some \<lparr>hs_hideInputs = optionFlagOn i \<or> envFlagOn (env ''GRAPHMIND_HIDE_INPUTS''),
                hs_hideOutputs = optionFlagOn out \<or> envFlagOn (env ''GRAPHMIND_HIDE_OUTPUTS''),
                hs_hideToolArgs = optionFlagOn ta \<or> envFlagOn (env ''GRAPHMIND_HIDE_TOOL_ARGS''),
                hs_hideToolResults = optionFlagOn tr \<or> envFlagOn (env ''GRAPHMIND_HIDE_TOOL_RESULTS'')\<rparr> }"

definition anyRedaction :: "hide_switches \<Rightarrow> bool" where
  "anyRedaction s \<longleftrightarrow> hs_hideInputs s \<or> hs_hideOutputs s \<or> hs_hideToolArgs s \<or> hs_hideToolResults s"

text \<open>A kind that is not known counts as a tool.\<close>

definition coversPauseInput :: "hide_switches \<Rightarrow> node_kind option \<Rightarrow> bool" where
  "coversPauseInput s kind \<longleftrightarrow> hs_hideInputs s \<or> hs_hideToolArgs s \<and> (kind = None \<or> kind = Some Tool)"

section \<open>Copies\<close>

datatype built = Bv js | Bo "(jstr \<times> built) list" | Ba "built list"

type_synonym fields = "(jstr \<times> built) list"

definition PLACEHOLDER :: built where "PLACEHOLDER = Bv (JStr REDACTED)"

definition number :: "nat \<Rightarrow> built" where "number n = Bv (JNum (Fin (of_nat n)))"

definition texts :: "jstr list \<Rightarrow> built" where "texts ks = Ba (map (\<lambda>k. Bv (JStr k)) ks)"

definition lifted :: "(jstr \<times> js) list \<Rightarrow> fields" where "lifted p = map (\<lambda>(k, v). (k, Bv v)) p"

text \<open>\<open>p[key]\<close> of a plain object.\<close>

definition field_of :: "(jstr \<times> js) list \<Rightarrow> string \<Rightarrow> js" where
  "field_of p key = (case map_of p (lit key) of None \<Rightarrow> JUndef | Some v \<Rightarrow> v)"

abbreviation put_field :: "string \<Rightarrow> built \<Rightarrow> fields \<Rightarrow> fields" where
  "put_field key v fs \<equiv> AList.update (lit key) v fs"

definition snapshot :: "js_object \<Rightarrow> (jstr \<times> js) list option" where
  "snapshot ob = map_option (AList.delete (lit ''toJSON'')) (spread ob)"

definition identity :: "(jstr \<times> js) list \<Rightarrow> string \<Rightarrow> jstr option option" where
  "identity p key =
     (case field_of p key of JUndef \<Rightarrow> Some None | JNull \<Rightarrow> Some None | JStr s \<Rightarrow> Some (Some s) | _ \<Rightarrow> None)"

definition MAX_SAFE_INTEGER :: rat where "MAX_SAFE_INTEGER = 9007199254740991"

definition is_safe :: "rat \<Rightarrow> bool" where
  "is_safe q \<longleftrightarrow> is_js_integer (Fin q) \<and> - MAX_SAFE_INTEGER \<le> q \<and> q \<le> MAX_SAFE_INTEGER"

fun isDuration :: "js \<Rightarrow> bool" where
  "isDuration (JNum (Fin q)) \<longleftrightarrow> 0 \<le> q"
| "isDuration _ \<longleftrightarrow> False"

fun isTokenCount :: "js \<Rightarrow> bool" where
  "isTokenCount (JNum (Fin q)) \<longleftrightarrow> is_safe q \<and> 0 \<le> q"
| "isTokenCount _ \<longleftrightarrow> False"

definition summary :: "rat \<Rightarrow> jstr list \<Rightarrow> built" where
  "summary count keys = Bo [(lit ''count'', Bv (JNum (Fin count))), (lit ''keys'', texts keys)]"

definition merged_count :: "jsnum \<Rightarrow> nat \<Rightarrow> rat" where
  "merged_count raw count =
     (let prior = (case raw of Fin q \<Rightarrow> if is_safe q \<and> 0 \<le> q then q else 0 | _ \<Rightarrow> 0);
          total = prior + of_nat count
      in if is_safe total then total else of_nat count)"

definition mergeSummary :: "heap \<Rightarrow> js \<Rightarrow> nat \<Rightarrow> string \<Rightarrow> built option" where
  "mergeSummary h existing count key =
     (let fresh = Some (summary (of_nat count) [lit key])
      in do { r \<leftarrow> isRecord h existing;
              case r of
                None \<Rightarrow> fresh
              | Some ob \<Rightarrow>
                  do { c \<leftarrow> get_prop ob (lit ''count'');
                       case c of
                         JNum raw \<Rightarrow>
                           do { ks \<leftarrow> get_prop ob (lit ''keys'');
                                case ks of
                                  JObj b \<Rightarrow>
                                    do { arr \<leftarrow> is_array (h b);
                                         if \<not> arr then fresh
                                         else do { prior \<leftarrow> only_strings (jo_items (h b));
                                                   Some (summary (merged_count raw count)
                                                           (if lit key \<in> set prior then prior else prior @ [lit key])) } }
                                | _ \<Rightarrow> fresh }
                       | _ \<Rightarrow> fresh } })"

text \<open>\<open>{...p, redaction: mergeSummary(p.redaction, count, key)}\<close>.\<close>

definition with_summary :: "heap \<Rightarrow> (jstr \<times> js) list \<Rightarrow> nat \<Rightarrow> string \<Rightarrow> fields \<Rightarrow> fields option" where
  "with_summary h p count key fs =
     map_option (\<lambda>s. put_field ''redaction'' s fs) (mergeSummary h (field_of p ''redaction'') count key)"

section \<open>The redactor\<close>

definition DEFAULT_MAX_TRACKED_INSTANCES_rd :: nat where "DEFAULT_MAX_TRACKED_INSTANCES_rd = 10000"

definition MAX_TRACKED_NODES :: nat where "MAX_TRACKED_NODES = 10000"

text \<open>Kinds are the text the start carried. \<open>rd_reports\<close>: the warnings given, by key.\<close>

record redactor =
  rd_switches :: hide_switches
  rd_maxInstances :: nat
  rd_instances :: "(jstr, jstr) omap"
  rd_nodes :: "(jstr, jstr) omap"
  rd_reports :: "string list"

definition redactor_new :: "hide_switches \<Rightarrow> nat \<Rightarrow> redactor" where
  "redactor_new s maxInstances =
     \<lparr>rd_switches = s, rd_maxInstances = maxInstances, rd_instances = [], rd_nodes = [], rd_reports = []\<rparr>"

definition TOOL :: jstr where "TOOL = lit ''tool''"

definition node_key :: "jstr \<Rightarrow> jstr \<Rightarrow> jstr" where "node_key run node = run @ [0] @ node"

definition instanceKey :: "jstr \<Rightarrow> jstr \<Rightarrow> jstr \<Rightarrow> jstr" where
  "instanceKey run node inst = run @ [0] @ node @ [0] @ inst"

fun evictOldest :: "('k, 'v) omap \<Rightarrow> ('k, 'v) omap" where
  "evictOldest [] = []"
| "evictOldest (kv # m) = m"

fun evict_past :: "nat \<Rightarrow> ('k, 'v) omap \<Rightarrow> ('k, 'v) omap" where
  "evict_past n [] = []"
| "evict_past n (kv # m) = (if n < length (kv # m) then evict_past n (evictOldest (kv # m)) else kv # m)"

definition remember :: "jstr \<Rightarrow> jstr \<Rightarrow> jstr option \<Rightarrow> jstr \<Rightarrow> redactor \<Rightarrow> redactor" where
  "remember run node inst kind rd =
     (let nodes = AList.update (node_key run node) kind (AList.delete (node_key run node) (rd_nodes rd));
          nodes' = (if MAX_TRACKED_NODES < length nodes then evictOldest nodes else nodes);
          rd1 = rd\<lparr>rd_nodes := nodes'\<rparr>
      in case inst of
           None \<Rightarrow> rd1
         | Some i \<Rightarrow>
             rd1\<lparr>rd_instances := evict_past (rd_maxInstances rd1)
                                  (AList.update (instanceKey run node i) kind (rd_instances rd1))\<rparr>)"

definition kindOf :: "jstr \<Rightarrow> jstr \<Rightarrow> jstr option \<Rightarrow> redactor \<Rightarrow> jstr option" where
  "kindOf run node inst rd =
     (let byInstance = (case inst of None \<Rightarrow> None | Some i \<Rightarrow> map_of (rd_instances rd) (instanceKey run node i))
      in if byInstance \<noteq> None then byInstance
         else case map_of (rd_nodes rd) (node_key run node) of
                Some k \<Rightarrow> Some k
              | None \<Rightarrow> if take 5 node = lit ''tool:'' then Some TOOL else None)"

definition forget_kind :: "jstr \<Rightarrow> jstr \<Rightarrow> jstr \<Rightarrow> redactor \<Rightarrow> redactor" where
  "forget_kind run node inst rd = rd\<lparr>rd_instances := AList.delete (instanceKey run node inst) (rd_instances rd)\<rparr>"

definition report :: "string \<Rightarrow> redactor \<Rightarrow> redactor" where
  "report key rd = rd\<lparr>rd_reports := rd_reports rd @ [key]\<rparr>"

section \<open>The events\<close>

text \<open>
  A handler gives the new state and the fields to send, or None when it throws; what it had changed
  stays changed.
\<close>

definition onStarted ::
  "heap \<Rightarrow> (jstr \<times> js) list \<Rightarrow> jstr \<Rightarrow> redactor \<Rightarrow> redactor \<times> fields option" where
  "onStarted h p run rd =
     (case (identity p ''nodeId'', identity p ''instanceId'', identity p ''kind'') of
        (Some node, Some inst, Some kind) \<Rightarrow>
          (let rd1 = (case (node, kind) of
                        (Some n, Some k) \<Rightarrow> remember run n inst k rd
                      | _ \<Rightarrow> rd);
               s = rd_switches rd;
               hide = hs_hideInputs s \<or> hs_hideToolArgs s \<and> kind = Some TOOL;
               input = field_of p ''input''
           in (rd1, if \<not> hide \<or> input = JUndef \<or> input = JStr REDACTED then Some (lifted p)
                    else with_summary h p 1 ''input'' (put_field ''input'' PLACEHOLDER (lifted p))))
      | _ \<Rightarrow> (rd, None))"

definition TOOL_CALL_ARG_KEYS :: "string list" where
  "TOOL_CALL_ARG_KEYS = [''input'', ''inputText'', ''arguments'', ''args'']"

text \<open>One argument field of a copied call: the fields and the count so far.\<close>

definition hide_arg :: "string \<Rightarrow> fields \<times> nat \<Rightarrow> fields \<times> nat" where
  "hide_arg key = (\<lambda>(entry, count).
     case map_of entry (lit key) of
       None \<Rightarrow> (entry, count)
     | Some v \<Rightarrow> if v = Bv JUndef \<or> v = PLACEHOLDER then (entry, count)
                else (put_field key PLACEHOLDER entry, count + 1))"

definition hide_call :: "heap \<Rightarrow> js \<Rightarrow> (built \<times> nat) option" where
  "hide_call h call =
     (if call = JNull \<or> call = JUndef \<or> call = JStr REDACTED then Some (Bv call, 0)
      else do { r \<leftarrow> isRecord h call;
                case r of
                  None \<Rightarrow> Some (PLACEHOLDER, 1)
                | Some ob \<Rightarrow>
                    do { entry \<leftarrow> snapshot ob;
                         let (fs, n) = fold hide_arg TOOL_CALL_ARG_KEYS (lifted entry, 0) in Some (Bo fs, n) } })"

text \<open>\<open>Array.from(items).map\<close>: every item is read first.\<close>

fun read_items :: "js_slot list \<Rightarrow> js list option" where
  "read_items [] = Some []"
| "read_items (s # ss) = do { v \<leftarrow> read_slot s; vs \<leftarrow> read_items ss; Some (v # vs) }"

fun map_counting :: "(js \<Rightarrow> (built \<times> nat) option) \<Rightarrow> js list \<Rightarrow> (built list \<times> nat) option" where
  "map_counting f [] = Some ([], 0)"
| "map_counting f (v # vs) =
     do { (b, n) \<leftarrow> f v; (bs, m) \<leftarrow> map_counting f vs; Some (b # bs, n + m) }"

definition array_items :: "heap \<Rightarrow> js \<Rightarrow> js list option option" where
  "array_items h v =
     (case v of
        JObj a \<Rightarrow> do { arr \<leftarrow> is_array (h a);
                      if arr then map_option Some (read_items (jo_items (h a))) else Some None }
      | _ \<Rightarrow> Some None)"

definition hideToolCallArgs :: "heap \<Rightarrow> (jstr \<times> js) list \<Rightarrow> fields option" where
  "hideToolCallArgs h p =
     do { r \<leftarrow> isRecord h (field_of p ''output'');
          case r of
            None \<Rightarrow> Some (lifted p)
          | Some ob \<Rightarrow>
              do { own \<leftarrow> has_own ob (lit ''toolCalls'');
                   if \<not> own then Some (lifted p)
                   else do { copy \<leftarrow> snapshot ob;
                     let calls = field_of copy ''toolCalls''
                     in if calls = JUndef \<or> calls = JNull \<or> calls = JStr REDACTED then Some (lifted p)
                        else do { items \<leftarrow> array_items h calls;
                          (b, count) \<leftarrow> (case items of
                                            None \<Rightarrow> Some (PLACEHOLDER, 1)
                                          | Some vs \<Rightarrow> map_option (apfst Ba) (map_counting (hide_call h) vs));
                          let out = put_field ''output'' (Bo (put_field ''toolCalls'' b (lifted copy))) (lifted p)
                          in if count = 0 then Some out
                             else with_summary h p count ''output.toolCalls'' out } } } }"

definition onFinished ::
  "heap \<Rightarrow> (jstr \<times> js) list \<Rightarrow> jstr \<Rightarrow> redactor \<Rightarrow> redactor \<times> fields option" where
  "onFinished h p run rd =
     (case (identity p ''nodeId'', identity p ''instanceId'') of
        (Some node, Some inst) \<Rightarrow>
          (let kind = Option.bind node (\<lambda>n. kindOf run n inst rd);
               rd1 = (case (node, inst) of (Some n, Some i) \<Rightarrow> forget_kind run n i rd | _ \<Rightarrow> rd);
               s = rd_switches rd;
               hide = hs_hideOutputs s \<or> hs_hideToolResults s \<and> kind = Some TOOL;
               output = field_of p ''output''
           in (rd1,
               if hide
               then if output = JUndef \<or> output = JStr REDACTED then Some (lifted p)
                    else with_summary h p 1 ''output'' (put_field ''output'' PLACEHOLDER (lifted p))
               else if hs_hideToolArgs s \<or> hs_hideInputs s then hideToolCallArgs h p
               else Some (lifted p)))
      | _ \<Rightarrow> (rd, None))"

definition hide_delta :: "heap \<Rightarrow> bool \<Rightarrow> bool \<Rightarrow> js \<Rightarrow> (built \<times> nat) option" where
  "hide_delta h hideAll hideToolArgs delta =
     (if delta = JNull \<or> delta = JUndef then Some (Bv delta, 0)
      else do { r \<leftarrow> isRecord h delta;
                ob \<leftarrow> r;
                d \<leftarrow> snapshot ob;
                channel \<leftarrow> identity d ''t'';
                let v = field_of d ''v''
                in if \<not> (hideAll \<or> hideToolArgs \<and> channel = Some (lit ''tool-args'')) then Some (Bo (lifted d), 0)
                   else case v of
                          JUndef \<Rightarrow> Some (Bo (lifted d), 0)
                        | JStr text \<Rightarrow>
                            if text = [] then Some (Bo (lifted d), 0)
                            else Some (Bo (put_field ''chars'' (number (length text))
                                             (put_field ''v'' (Bv (JStr [])) (lifted d))), 1)
                        | _ \<Rightarrow> None })"

definition onToken ::
  "heap \<Rightarrow> (jstr \<times> js) list \<Rightarrow> jstr \<Rightarrow> redactor \<Rightarrow> fields option" where
  "onToken h p run rd =
     do { node \<leftarrow> identity p ''nodeId'';
          let s = rd_switches rd;
              nodeIsTool = (case node of
                              None \<Rightarrow> False
                            | Some n \<Rightarrow> hs_hideToolResults s \<and> kindOf run n None rd = Some TOOL);
              hideAll = hs_hideOutputs s \<or> nodeIsTool;
              hideArgs = hs_hideToolArgs s \<or> hs_hideInputs s
          in if \<not> hideAll \<and> \<not> hideArgs then Some (lifted p)
             else do { items \<leftarrow> array_items h (field_of p ''deltas'');
                       vs \<leftarrow> items;
                       (bs, count) \<leftarrow> map_counting (hide_delta h hideAll hideArgs) vs;
                       let out = put_field ''deltas'' (Ba bs) (lifted p)
                       in if count = 0 then Some out else with_summary h p count ''deltas'' out } }"

section \<open>Failing closed\<close>

definition failed_summary :: "string list \<Rightarrow> built" where
  "failed_summary keys =
     Bo [(lit ''count'', number 0), (lit ''keys'', texts (map lit keys)), (lit ''failed'', Bv (JBool True))]"

definition FAILED_REDACTION_KEYS :: "string list" where
  "FAILED_REDACTION_KEYS = [''input'', ''output'', ''deltas'']"

text \<open>\<open>read(payload, key)\<close>, where a read that throws gives a value no check accepts.\<close>

definition read_field :: "js_object \<Rightarrow> string \<Rightarrow> js" where
  "read_field ob key = (case get_prop ob (lit key) of None \<Rightarrow> JSym 0 | Some v \<Rightarrow> v)"

fun text_of :: "js \<Rightarrow> jstr option" where
  "text_of (JStr s) = Some s"
| "text_of _ = None"

definition optional :: "js_object \<Rightarrow> string \<Rightarrow> (js \<Rightarrow> bool) \<Rightarrow> fields \<Rightarrow> fields" where
  "optional ob key valid out =
     (let value = read_field ob key in if valid value then put_field key (Bv value) out else out)"

definition NODE_KINDS :: "jstr list" where
  "NODE_KINDS = map kind_text [Agent, LLM, Tool, Chain, Retriever, Server, Resource, Prompt, Custom]"

definition RUN_STATUSES :: "jstr list" where
  "RUN_STATUSES = [lit ''ok'', lit ''error'', lit ''aborted'']"

definition kept_usage :: "js_object \<Rightarrow> fields option" where
  "kept_usage ob =
     (let i = read_field ob ''inputTokens''; out = read_field ob ''outputTokens''
      in if \<not> (isTokenCount i \<and> isTokenCount out) then None
         else Some (optional ob ''reasoningTokens'' isTokenCount
                (optional ob ''cacheWriteTokens'' isTokenCount
                (optional ob ''cacheReadTokens'' isTokenCount
                (optional ob ''inclusive'' (\<lambda>v. case v of JBool b \<Rightarrow> True | _ \<Rightarrow> False)
                   [(lit ''inputTokens'', Bv i), (lit ''outputTokens'', Bv out)])))))"

datatype redact_type = Rt_started | Rt_finished | Rt_token | Rt_resumed | Rt_refused | Rt_other

definition failed_started :: "js_object \<Rightarrow> jstr \<Rightarrow> jstr \<Rightarrow> redactor \<Rightarrow> redactor \<times> fields option" where
  "failed_started ob node run rd =
     (case (text_of (read_field ob ''kind''), text_of (read_field ob ''name''), text_of (read_field ob ''instanceId'')) of
        (Some kind, Some name, Some inst) \<Rightarrow>
          if kind \<notin> set NODE_KINDS then (rd, None)
          else (remember run node (Some inst) kind rd,
                Some (optional ob ''parentId'' (\<lambda>v. text_of v \<noteq> None) [(lit ''nodeId'', Bv (JStr node))]
                      @ [(lit ''kind'', Bv (JStr kind)), (lit ''name'', Bv (JStr name)),
                         (lit ''instanceId'', Bv (JStr inst)), (lit ''input'', PLACEHOLDER),
                         (lit ''redaction'', failed_summary FAILED_REDACTION_KEYS)]))
      | _ \<Rightarrow> (rd, None))"

definition failed_finished ::
  "heap \<Rightarrow> js_object \<Rightarrow> jstr \<Rightarrow> jstr \<Rightarrow> redactor \<Rightarrow> redactor \<times> fields option" where
  "failed_finished h ob node run rd =
     (let inst = text_of (read_field ob ''instanceId'');
          rd1 = (case inst of None \<Rightarrow> rd | Some i \<Rightarrow> forget_kind run node i rd);
          durationMs = read_field ob ''durationMs'';
          status = text_of (read_field ob ''status'')
      in case status of
           None \<Rightarrow> (rd1, None)
         | Some st \<Rightarrow>
             if \<not> isDuration durationMs \<or> st \<notin> set RUN_STATUSES then (rd1, None)
             else (rd1,
               Some ([(lit ''nodeId'', Bv (JStr node))]
                     @ (case inst of None \<Rightarrow> [] | Some i \<Rightarrow> [(lit ''instanceId'', Bv (JStr i))])
                     @ [(lit ''durationMs'', Bv durationMs)]
                     @ optional ob ''heldMs'' isDuration []
                     @ [(lit ''status'', Bv (JStr st))]
                     @ (case read_field ob ''usage'' of
                          JObj u \<Rightarrow> (case kept_usage (h u) of None \<Rightarrow> [] | Some kept \<Rightarrow> [(lit ''usage'', Bo kept)])
                        | _ \<Rightarrow> [])
                     @ [(lit ''output'', PLACEHOLDER),
                        (lit ''redaction'', failed_summary FAILED_REDACTION_KEYS)])))"

definition failedForm ::
  "heap \<Rightarrow> redact_type \<Rightarrow> js \<Rightarrow> jstr \<Rightarrow> redactor \<Rightarrow> redactor \<times> fields option" where
  "failedForm h ty payload run rd =
     (case payload of
        JObj a \<Rightarrow>
          (let ob = h a
           in case text_of (read_field ob ''nodeId'') of
                None \<Rightarrow> (rd, None)
              | Some node \<Rightarrow>
                  (case ty of
                     Rt_started \<Rightarrow> failed_started ob node run rd
                   | Rt_finished \<Rightarrow> failed_finished h ob node run rd
                   | Rt_token \<Rightarrow>
                       (rd, Some (optional ob ''instanceId'' (\<lambda>v. text_of v \<noteq> None) [(lit ''nodeId'', Bv (JStr node))]
                                  @ [(lit ''deltas'', Ba []),
                                     (lit ''redaction'', failed_summary FAILED_REDACTION_KEYS)]))
                   | _ \<Rightarrow> (rd, None)))
      | _ \<Rightarrow> (rd, None))"

datatype redact_outcome = Same | Sent fields | Dropped

definition reported :: "redactor \<times> fields option \<Rightarrow> redactor \<times> redact_outcome" where
  "reported = (\<lambda>(rd, out). case out of
                 None \<Rightarrow> (report ''redaction:dropped'' rd, Dropped)
               | Some fs \<Rightarrow> (report ''redaction:failed'' rd, Sent fs))"

definition failClosed ::
  "heap \<Rightarrow> redact_type \<Rightarrow> js \<Rightarrow> jstr \<Rightarrow> redactor \<Rightarrow> redactor \<times> redact_outcome" where
  "failClosed h ty payload run rd = reported (failedForm h ty payload run rd)"

section \<open>Answers of a pause\<close>

definition RESUME_ACTIONS :: "jstr list" where
  "RESUME_ACTIONS = [lit ''continue'', lit ''retry'', lit ''inject'', lit ''abort'']"

definition edited_placeholder :: built where
  "edited_placeholder = Bo [(lit ''after'', PLACEHOLDER)]"

text \<open>\<open>edited\<close> is already the placeholder.\<close>

definition placeholder_edit :: "heap \<Rightarrow> js \<Rightarrow> bool option" where
  "placeholder_edit h edited =
     do { r \<leftarrow> isRecord h edited;
          case r of
            None \<Rightarrow> Some False
          | Some ob \<Rightarrow>
              do { keys \<leftarrow> own_keys ob;
                   Some (length keys = 1 \<and> read_field ob ''after'' = JStr REDACTED) } }"

definition answer_fields :: "heap \<Rightarrow> redact_type \<Rightarrow> js \<Rightarrow> fields option" where
  "answer_fields h ty payload =
     do { r \<leftarrow> isRecord h payload;
          ob \<leftarrow> r;
          p \<leftarrow> snapshot ob;
          _ \<leftarrow> identity p ''pauseId'';
          if ty = Rt_resumed
          then let edited = field_of p ''edited''
               in if edited = JUndef then Some (lifted p)
                  else do { already \<leftarrow> placeholder_edit h edited;
                            if already then Some (lifted p)
                            else with_summary h p 1 ''edited'' (put_field ''edited'' edited_placeholder (lifted p)) }
          else if field_of p ''message'' = JUndef then Some (lifted p)
          else map_option (AList.delete (lit ''message'')) (with_summary h p 1 ''message'' (lifted p)) }"

definition failedAnswerForm :: "heap \<Rightarrow> redact_type \<Rightarrow> js \<Rightarrow> fields option" where
  "failedAnswerForm h ty payload =
     (case payload of
        JObj a \<Rightarrow>
          (let ob = h a;
               echo = (case text_of (read_field ob ''requestId'') of
                         None \<Rightarrow> [] | Some i \<Rightarrow> [(lit ''requestId'', Bv (JStr i))])
           in case text_of (read_field ob ''pauseId'') of
                None \<Rightarrow> None
              | Some pauseId \<Rightarrow>
                  if ty = Rt_resumed
                  then (case text_of (read_field ob ''action'') of
                          None \<Rightarrow> None
                        | Some action \<Rightarrow>
                            if action \<notin> set RESUME_ACTIONS then None
                            else Some ([(lit ''pauseId'', Bv (JStr pauseId)), (lit ''action'', Bv (JStr action))]
                                   @ (if read_field ob ''edited'' \<noteq> JUndef
                                      then [(lit ''edited'', edited_placeholder)] else [])
                                   @ echo @ [(lit ''redaction'', failed_summary [''edited''])]))
                  else (case text_of (read_field ob ''code'') of
                          None \<Rightarrow> None
                        | Some code \<Rightarrow>
                            if code \<notin> set (map (lit \<circ> refusal_text) REFUSAL_CODES) then None
                            else Some ([(lit ''pauseId'', Bv (JStr pauseId)), (lit ''code'', Bv (JStr code))]
                                   @ echo @ [(lit ''redaction'', failed_summary [''message''])])))
      | _ \<Rightarrow> None)"

definition failClosedAnswer ::
  "heap \<Rightarrow> redact_type \<Rightarrow> js \<Rightarrow> redactor \<Rightarrow> redactor \<times> redact_outcome" where
  "failClosedAnswer h ty payload rd = reported (rd, failedAnswerForm h ty payload)"

definition onPauseAnswer ::
  "heap \<Rightarrow> redact_type \<Rightarrow> js \<Rightarrow> node_kind option \<Rightarrow> redactor \<Rightarrow> redactor \<times> redact_outcome" where
  "onPauseAnswer h ty payload kind rd =
     (if \<not> coversPauseInput (rd_switches rd) kind then (rd, Same)
      else case answer_fields h ty payload of
             Some fs \<Rightarrow> (rd, Sent fs)
           | None \<Rightarrow> failClosedAnswer h ty payload rd)"

section \<open>One event\<close>

definition handled ::
  "heap \<Rightarrow> redact_type \<Rightarrow> (jstr \<times> js) list \<Rightarrow> jstr \<Rightarrow> redactor \<Rightarrow> redactor \<times> fields option" where
  "handled h ty p run rd =
     (case ty of
        Rt_started \<Rightarrow> onStarted h p run rd
      | Rt_finished \<Rightarrow> onFinished h p run rd
      | _ \<Rightarrow> (rd, onToken h p run rd))"

definition redact_apply ::
  "heap \<Rightarrow> redact_type \<Rightarrow> js \<Rightarrow> jstr \<Rightarrow> node_kind option \<Rightarrow> redactor \<Rightarrow> redactor \<times> redact_outcome" where
  "redact_apply h ty payload run kind rd =
     (if \<not> anyRedaction (rd_switches rd) then (rd, Same)
      else if ty = Rt_resumed \<or> ty = Rt_refused then onPauseAnswer h ty payload kind rd
      else if ty = Rt_other then (rd, Same)
      else case (do { r \<leftarrow> isRecord h payload; ob \<leftarrow> r; snapshot ob }) of
             None \<Rightarrow> failClosed h ty payload run rd
           | Some p \<Rightarrow>
               (case handled h ty p run rd of
                  (rd1, Some fs) \<Rightarrow> (rd1, Sent fs)
                | (rd1, None) \<Rightarrow> failClosed h ty payload run rd1))"

section \<open>What a copy shows\<close>

text \<open>A field of the copy that shows nothing: it is absent, undefined or the placeholder.\<close>

definition blank :: "built option \<Rightarrow> bool" where
  "blank b \<longleftrightarrow> b = None \<or> b = Some (Bv JUndef) \<or> b = Some PLACEHOLDER"

definition sent_text :: "fields \<Rightarrow> string \<Rightarrow> jstr option" where
  "sent_text fs key = (case map_of fs (lit key) of Some (Bv (JStr s)) \<Rightarrow> Some s | _ \<Rightarrow> None)"

definition call_blank :: "built \<Rightarrow> bool" where
  "call_blank b = (case b of
     Bv v \<Rightarrow> v = JNull \<or> v = JUndef \<or> v = JStr REDACTED
   | Bo fs \<Rightarrow> list_all (\<lambda>key. blank (map_of fs (lit key))) TOOL_CALL_ARG_KEYS
   | Ba bs \<Rightarrow> False)"

definition calls_blank :: "built option \<Rightarrow> bool" where
  "calls_blank b = (case b of
     None \<Rightarrow> True
   | Some (Bv v) \<Rightarrow> v = JUndef \<or> v = JNull \<or> v = JStr REDACTED
   | Some (Ba bs) \<Rightarrow> list_all call_blank bs
   | Some (Bo fs) \<Rightarrow> False)"

text \<open>
  The output of a copy shows no arguments of requested calls. Where it is the adapter's own value it
  is no object with own, enumerable, filled \<open>toolCalls\<close>.
\<close>

definition output_blank :: "heap \<Rightarrow> built option \<Rightarrow> bool" where
  "output_blank h b = (case b of
     Some (Bo fs) \<Rightarrow> calls_blank (map_of fs (lit ''toolCalls''))
   | Some (Bv (JObj a)) \<Rightarrow>
       jo_array (h a) \<or> calls_blank (case map_of (jo_own (h a)) (lit ''toolCalls'') of
                                       Some (Slot v) \<Rightarrow> Some (Bv v) | Some Throwing \<Rightarrow> Some (Bo []) | None \<Rightarrow> None)
   | Some (Ba bs) \<Rightarrow> False
   | _ \<Rightarrow> True)"

definition delta_blank :: "bool \<Rightarrow> built \<Rightarrow> bool" where
  "delta_blank all b = (case b of
     Bv v \<Rightarrow> v = JNull \<or> v = JUndef
   | Bo fs \<Rightarrow> (all \<or> map_of fs (lit ''t'') = Some (Bv (JStr (lit ''tool-args'')))) \<longrightarrow>
       (map_of fs (lit ''v'') = None \<or> map_of fs (lit ''v'') = Some (Bv JUndef)
        \<or> map_of fs (lit ''v'') = Some (Bv (JStr [])))
   | Ba bs \<Rightarrow> False)"

definition deltas_blank :: "bool \<Rightarrow> built option \<Rightarrow> bool" where
  "deltas_blank all b = (case b of Some (Ba bs) \<Rightarrow> list_all (delta_blank all) bs | _ \<Rightarrow> False)"

section \<open>No covered value is in a copy\<close>

declare map_of_eq_Some_iff [simp del] Some_eq_map_of_iff [simp del]
declare lit_simps [simp del] lit_inj [simp] One_nat_def [simp del]

lemma map_of_lifted: "map_of (lifted p) k = map_option Bv (map_of p k)"
  by (induction p) (auto simp: lifted_def)

lemma put_other: "k \<noteq> lit key \<Longrightarrow> map_of (put_field key v fs) k = map_of fs k"
  by simp

lemma with_summary_other:
  assumes "with_summary h p n key fs = Some out" "k \<noteq> ''redaction''"
  shows "map_of out (lit k) = map_of fs (lit k)"
  using assms by (auto simp: with_summary_def lit_inj)

lemma blank_field: "field_of p key = JUndef \<or> field_of p key = JStr REDACTED \<Longrightarrow> blank (map_of (lifted p) (lit key))"
  by (auto simp: field_of_def blank_def map_of_lifted PLACEHOLDER_def split: option.splits)

lemma blank_placeholder [simp]: "blank (Some PLACEHOLDER)"
  by (simp add: blank_def)

lemma sent_text_identity: "identity p key = Some i \<Longrightarrow> sent_text (lifted p) key = i"
  by (auto simp: identity_def field_of_def sent_text_def map_of_lifted split: option.splits js.splits)

lemma sent_text_put: "k \<noteq> key \<Longrightarrow> sent_text (put_field key v fs) k = sent_text fs k"
  by (simp add: sent_text_def lit_inj)

lemma sent_text_summary:
  "with_summary h p n key fs = Some out \<Longrightarrow> k \<noteq> ''redaction'' \<Longrightarrow> sent_text out k = sent_text fs k"
  by (simp add: sent_text_def with_summary_other)

lemma started_blank:
  assumes "onStarted h p run rd = (rd', Some fs)"
    and "hs_hideInputs (rd_switches rd) \<or> hs_hideToolArgs (rd_switches rd) \<and> sent_text fs ''kind'' = Some TOOL"
  shows "blank (map_of fs (lit ''input''))"
proof -
  obtain node inst kind where ids: "identity p ''nodeId'' = Some node" "identity p ''instanceId'' = Some inst"
      "identity p ''kind'' = Some kind"
    using assms(1) by (auto simp: onStarted_def split: option.splits)
  let ?hide = "hs_hideInputs (rd_switches rd) \<or> hs_hideToolArgs (rd_switches rd) \<and> kind = Some TOOL"
  have fs: "(if \<not> ?hide \<or> field_of p ''input'' = JUndef \<or> field_of p ''input'' = JStr REDACTED then Some (lifted p)
      else with_summary h p 1 ''input'' (put_field ''input'' PLACEHOLDER (lifted p))) = Some fs"
    using assms(1) unfolding onStarted_def ids prod.case option.case Let_def prod.inject by (rule conjunct2)
  have kind: "sent_text fs ''kind'' = kind"
    using fs sent_text_identity [OF ids(3)]
    by (auto simp: sent_text_summary sent_text_put split: if_splits)
  show ?thesis
  proof (cases "field_of p ''input'' = JUndef \<or> field_of p ''input'' = JStr REDACTED")
    case True
    then show ?thesis using fs blank_field by (auto split: if_splits)
  next
    case False
    then have "with_summary h p 1 ''input'' (put_field ''input'' PLACEHOLDER (lifted p)) = Some fs"
      using fs assms(2) kind by (auto split: if_splits)
    then show ?thesis by (simp add: with_summary_other)
  qed
qed

lemma hide_arg_blank:
  "hide_arg key (fs, n) = (fs', n') \<Longrightarrow> blank (map_of fs' (lit key))
     \<and> (\<forall>k. blank (map_of fs (lit k)) \<longrightarrow> blank (map_of fs' (lit k)))"
  by (auto simp: hide_arg_def blank_def split: option.splits if_splits)

lemma hide_args_blank:
  assumes "fold hide_arg keys (fs, n) = (fs', n')"
  shows "(\<forall>key\<in>set keys. blank (map_of fs' (lit key))) \<and> (\<forall>k. blank (map_of fs (lit k)) \<longrightarrow> blank (map_of fs' (lit k)))"
  using assms
proof (induction keys arbitrary: fs n)
  case (Cons key keys)
  obtain fs1 n1 where s: "hide_arg key (fs, n) = (fs1, n1)" by fastforce
  with Cons.prems have "fold hide_arg keys (fs1, n1) = (fs', n')" by simp
  with Cons.IH [OF this] hide_arg_blank [OF s] show ?case by auto
qed simp

lemma hide_call_blank: "hide_call h call = Some (b, n) \<Longrightarrow> call_blank b"
proof -
  assume call: "hide_call h call = Some (b, n)"
  show "call_blank b"
  proof (cases "call = JNull \<or> call = JUndef \<or> call = JStr REDACTED")
    case True
    then show ?thesis using call by (auto simp: hide_call_def call_blank_def)
  next
    case False
    then obtain r where r: "isRecord h call = Some r" using call by (auto simp: hide_call_def split: bind_splits)
    show ?thesis
    proof (cases r)
      case None
      then show ?thesis using call False r by (auto simp: hide_call_def call_blank_def PLACEHOLDER_def)
    next
      case (Some ob)
      then obtain entry where e: "snapshot ob = Some entry"
        using call False r by (auto simp: hide_call_def split: bind_splits)
      obtain fs m where f: "fold hide_arg TOOL_CALL_ARG_KEYS (lifted entry, 0) = (fs, m)" by fastforce
      have "b = Bo fs" using call False r Some e f by (simp add: hide_call_def)
      then show ?thesis using hide_args_blank [OF f] by (simp add: call_blank_def list_all_iff)
    qed
  qed
qed

lemma map_counting_all:
  "map_counting f vs = Some (bs, n) \<Longrightarrow> (\<And>v b m. f v = Some (b, m) \<Longrightarrow> P b) \<Longrightarrow> list_all P bs"
proof (induction vs arbitrary: bs n)
  case (Cons v vs)
  obtain b m bs' m' where s: "f v = Some (b, m)" "map_counting f vs = Some (bs', m')" "bs = b # bs'"
    using Cons.prems(1) by (auto split: bind_splits)
  have "list_all P bs'" by (rule Cons.IH [OF s(2) Cons.prems(2)])
  then show ?case using Cons.prems(2) [OF s(1)] s(3) by simp
qed simp

lemma output_of: "map_of (lifted p) (lit ''output'') = (case map_of p (lit ''output'') of None \<Rightarrow> None | Some v \<Rightarrow> Some (Bv v))"
  by (simp add: map_of_lifted split: option.split)

lemma read_props_map: "read_props own = Some ps \<Longrightarrow> map_of own k = map_option Slot (map_of ps k)"
proof (induction own arbitrary: ps)
  case (Cons kv own)
  obtain key s where kv: "kv = (key, s)" by (cases kv)
  obtain v rest where "read_slot s = Some v" "read_props own = Some rest" "ps = (key, v) # rest"
    using Cons.prems kv by (auto split: bind_splits)
  then show ?case using Cons.IH kv by (cases s) auto
qed simp

lemma snapshot_own:
  "snapshot ob = Some copy \<Longrightarrow> k \<noteq> ''toJSON'' \<Longrightarrow> map_of (jo_own ob) (lit k) = map_option Slot (map_of copy (lit k))"
  by (auto simp: snapshot_def spread_def read_props_map split: if_splits)

lemma isRecord_object: "isRecord h v = Some (Some ob) \<longleftrightarrow> (\<exists>a. v = JObj a \<and> ob = h a \<and> \<not> jo_revoked (h a) \<and> \<not> jo_array (h a))"
  by (auto simp: isRecord_def is_array_def split: js.splits if_splits)

lemma isRecord_none: "isRecord h v = Some None \<Longrightarrow> v = JObj a \<Longrightarrow> jo_array (h a)"
  by (auto simp: isRecord_def is_array_def split: if_splits)

lemma own_output: "map_of (lifted p) (lit ''output'') = Some (Bv (JObj a)) \<Longrightarrow> field_of p ''output'' = JObj a"
  by (auto simp: map_of_lifted field_of_def)

text \<open>A copy that leaves the output as it is.\<close>

lemma kept_output:
  assumes "\<And>a. field_of p ''output'' = JObj a \<Longrightarrow> output_blank h (Some (Bv (JObj a)))"
  shows "output_blank h (map_of (lifted p) (lit ''output''))"
proof (cases "map_of p (lit ''output'')")
  case (Some v)
  then have f: "field_of p ''output'' = v" by (simp add: field_of_def)
  show ?thesis using assms f Some by (cases v) (simp_all add: map_of_lifted output_blank_def)
qed (simp add: map_of_lifted output_blank_def)

lemma array_items_calls:
  assumes "array_items h calls = Some items"
    and "(case items of None \<Rightarrow> Some (PLACEHOLDER, 1) | Some vs \<Rightarrow> map_option (apfst Ba) (map_counting (hide_call h) vs))
           = Some (b, count)"
  shows "calls_blank (Some b)"
proof (cases items)
  case None
  then show ?thesis using assms(2) by (auto simp: calls_blank_def PLACEHOLDER_def)
next
  case (Some vs)
  then obtain bs where "map_counting (hide_call h) vs = Some (bs, count)" "b = Ba bs"
    using assms(2) by (auto simp: apfst_def map_prod_def)
  then show ?thesis using map_counting_all [of "hide_call h" vs bs count call_blank] hide_call_blank
    by (auto simp: calls_blank_def)
qed

lemma hideToolCallArgs_blank:
  assumes "hideToolCallArgs h p = Some fs"
  shows "output_blank h (map_of fs (lit ''output''))"
    and "\<And>k. k \<noteq> ''output'' \<Longrightarrow> k \<noteq> ''redaction'' \<Longrightarrow> map_of fs (lit k) = map_of (lifted p) (lit k)"
proof -
  obtain r where r: "isRecord h (field_of p ''output'') = Some r"
    using assms by (auto simp: hideToolCallArgs_def split: bind_splits)
  have "output_blank h (map_of fs (lit ''output''))
     \<and> (\<forall>k. k \<noteq> ''output'' \<longrightarrow> k \<noteq> ''redaction'' \<longrightarrow> map_of fs (lit k) = map_of (lifted p) (lit k))"
  proof (cases r)
    case None
    then have "fs = lifted p" using assms r by (simp add: hideToolCallArgs_def)
    then show ?thesis
      using kept_output [of p h] isRecord_none [OF r [unfolded None]] by (auto simp: output_blank_def)
  next
    case (Some ob)
    then obtain a where a: "field_of p ''output'' = JObj a" "ob = h a" "\<not> jo_revoked (h a)" "\<not> jo_array (h a)"
      using r isRecord_object by blast
    have own: "has_own ob (lit ''toolCalls'') = Some (lit ''toolCalls'' \<in> fst ` set (jo_own ob @ jo_hidden ob))"
      using a by (simp add: has_own_def)
    note body = assms [unfolded hideToolCallArgs_def r Some bind.bind_lunit option.case own]
    show ?thesis
    proof (cases "lit ''toolCalls'' \<in> fst ` set (jo_own ob @ jo_hidden ob)")
      case False
      then have fs: "fs = lifted p" using body by simp
      have "map_of (jo_own (h a)) (lit ''toolCalls'') = None"
        using False a(2) by (auto simp: map_of_eq_None_iff)
      then have "output_blank h (Some (Bv (JObj a)))" by (simp add: output_blank_def calls_blank_def)
      then show ?thesis using kept_output [of p h] a(1) fs by simp
    next
      case True
      obtain copy where copy: "snapshot ob = Some copy"
        using body True by (auto split: bind_splits)
      let ?calls = "field_of copy ''toolCalls''"
      show ?thesis
      proof (cases "?calls = JUndef \<or> ?calls = JNull \<or> ?calls = JStr REDACTED")
        case blank: True
        then have fs: "fs = lifted p" using body True copy by (auto simp: Let_def)
        have "calls_blank (case map_of (jo_own (h a)) (lit ''toolCalls'') of
            Some (Slot v) \<Rightarrow> Some (Bv v) | Some Throwing \<Rightarrow> Some (Bo []) | None \<Rightarrow> None)"
          using snapshot_own [OF copy, of "''toolCalls''"] blank a(2)
          by (auto simp: field_of_def calls_blank_def split: option.splits)
        then have "output_blank h (Some (Bv (JObj a)))" by (simp add: output_blank_def)
        then show ?thesis using kept_output [of p h] a(1) fs by simp
      next
        case filled: False
        note rest = body [unfolded if_not_P [OF not_not [THEN iffD2, OF True]] copy bind.bind_lunit Let_def if_not_P [OF filled]]
        obtain items where items: "array_items h ?calls = Some items"
          using rest by (auto split: bind_splits)
        obtain b count where b: "(case items of None \<Rightarrow> Some (PLACEHOLDER, 1)
              | Some vs \<Rightarrow> map_option (apfst Ba) (map_counting (hide_call h) vs)) = Some (b, count)"
          using rest items by (auto split: bind_splits)
        let ?out = "put_field ''output'' (Bo (put_field ''toolCalls'' b (lifted copy))) (lifted p)"
        have fs: "(if count = 0 then Some ?out else with_summary h p count ''output.toolCalls'' ?out) = Some fs"
          using rest [unfolded items bind.bind_lunit b prod.case] .
        have "calls_blank (Some b)" by (rule array_items_calls [OF items b])
        then show ?thesis using fs by (auto simp: output_blank_def with_summary_other split: if_splits)
      qed
    qed
  qed
  then show "output_blank h (map_of fs (lit ''output''))"
    and "\<And>k. k \<noteq> ''output'' \<Longrightarrow> k \<noteq> ''redaction'' \<Longrightarrow> map_of fs (lit k) = map_of (lifted p) (lit k)" by blast+
qed

definition judged :: "jstr \<Rightarrow> fields \<Rightarrow> string option \<Rightarrow> redactor \<Rightarrow> jstr option" where
  "judged run fs inst rd =
     Option.bind (sent_text fs ''nodeId'') (\<lambda>n. kindOf run n (Option.bind inst (sent_text fs)) rd)"

lemma finished_blank:
  assumes "onFinished h p run rd = (rd', Some fs)"
  shows "hs_hideOutputs (rd_switches rd) \<or> hs_hideToolResults (rd_switches rd) \<and> judged run fs (Some ''instanceId'') rd = Some TOOL
           \<Longrightarrow> blank (map_of fs (lit ''output''))"
    and "hs_hideInputs (rd_switches rd) \<or> hs_hideToolArgs (rd_switches rd)
           \<Longrightarrow> blank (map_of fs (lit ''output'')) \<or> output_blank h (map_of fs (lit ''output''))"
proof -
  obtain node inst where ids: "identity p ''nodeId'' = Some node" "identity p ''instanceId'' = Some inst"
    using assms by (auto simp: onFinished_def split: option.splits)
  let ?s = "rd_switches rd"
  let ?kind = "Option.bind node (\<lambda>n. kindOf run n inst rd)"
  let ?hide = "hs_hideOutputs ?s \<or> hs_hideToolResults ?s \<and> ?kind = Some TOOL"
  let ?empty = "field_of p ''output'' = JUndef \<or> field_of p ''output'' = JStr REDACTED"
  have fs: "(if ?hide
       then if ?empty then Some (lifted p)
            else with_summary h p 1 ''output'' (put_field ''output'' PLACEHOLDER (lifted p))
       else if hs_hideToolArgs ?s \<or> hs_hideInputs ?s then hideToolCallArgs h p else Some (lifted p)) = Some fs"
    using assms unfolding onFinished_def ids prod.case option.case Let_def prod.inject by (rule conjunct2)
  have same: "sent_text fs k = sent_text (lifted p) k" if "k \<noteq> ''output''" "k \<noteq> ''redaction''" for k
  proof -
    have "map_of fs (lit k) = map_of (lifted p) (lit k)"
      using fs that hideToolCallArgs_blank(2) [of h p fs k] by (auto simp: with_summary_other split: if_splits)
    then show ?thesis by (simp add: sent_text_def)
  qed
  have kind: "judged run fs (Some ''instanceId'') rd = ?kind"
    using same [of "''nodeId''"] same [of "''instanceId''"] sent_text_identity [OF ids(1)] sent_text_identity [OF ids(2)]
    by (cases node; simp add: judged_def)
  have blank: "blank (map_of fs (lit ''output''))" if ?hide
  proof (cases ?empty)
    case True
    then show ?thesis using fs that blank_field by auto
  next
    case False
    then have "with_summary h p 1 ''output'' (put_field ''output'' PLACEHOLDER (lifted p)) = Some fs"
      using fs that by auto
    then show ?thesis by (simp add: with_summary_other)
  qed
  then show "hs_hideOutputs ?s \<or> hs_hideToolResults ?s \<and> judged run fs (Some ''instanceId'') rd = Some TOOL
           \<Longrightarrow> blank (map_of fs (lit ''output''))" using kind by simp
  show "hs_hideInputs ?s \<or> hs_hideToolArgs ?s \<Longrightarrow>
      blank (map_of fs (lit ''output'')) \<or> output_blank h (map_of fs (lit ''output''))"
    using blank fs hideToolCallArgs_blank(1) [of h p fs] by (cases ?hide) auto
qed

lemma hide_delta_blank:
  assumes "hide_delta h hideAll hideArgs delta = Some (b, n)" "hideAll \<or> hideArgs"
  shows "delta_blank hideAll b"
proof (cases "delta = JNull \<or> delta = JUndef")
  case True
  then show ?thesis using assms by (auto simp: hide_delta_def delta_blank_def)
next
  case False
  then obtain ob d channel where d: "isRecord h delta = Some (Some ob)" "snapshot ob = Some d" "identity d ''t'' = Some channel"
    using assms(1) by (auto simp: hide_delta_def split: bind_splits)
  note body = assms(1) [unfolded hide_delta_def if_not_P [OF False] d bind.bind_lunit Let_def]
  have t: "map_of (lifted d) (lit ''t'') = Some (Bv (JStr (lit ''tool-args''))) \<longleftrightarrow> channel = Some (lit ''tool-args'')"
    using d(3) by (auto simp: identity_def field_of_def map_of_lifted split: option.splits js.splits)
  have kept: "delta_blank hideAll (Bo (lifted d))"
    if "field_of d ''v'' = JUndef \<or> field_of d ''v'' = JStr []"
    using that by (auto simp: delta_blank_def field_of_def map_of_lifted split: option.splits)
  show ?thesis
  proof (cases "hideAll \<or> hideArgs \<and> channel = Some (lit ''tool-args'')")
    case False
    then have "b = Bo (lifted d)" using body by auto
    then show ?thesis using False assms(2) t by (auto simp: delta_blank_def)
  next
    case True
    note body' = body [unfolded if_not_P [OF not_not [THEN iffD2, OF True]]]
    show ?thesis
    proof (cases "field_of d ''v''")
      case JUndef
      then show ?thesis using body' kept by auto
    next
      case (JStr v)
      show ?thesis
      proof (cases "v = []")
        case True
        then show ?thesis using body' JStr kept by auto
      next
        case False
        then have "b = Bo (put_field ''chars'' (number (length v)) (put_field ''v'' (Bv (JStr [])) (lifted d)))"
          using body' JStr by auto
        then show ?thesis by (simp add: delta_blank_def)
      qed
    qed (use body' in auto)
  qed
qed

lemma token_blank:
  assumes "onToken h p run rd = Some fs"
  shows "hs_hideOutputs (rd_switches rd) \<or> hs_hideToolResults (rd_switches rd) \<and> judged run fs None rd = Some TOOL
           \<Longrightarrow> deltas_blank True (map_of fs (lit ''deltas''))"
    and "hs_hideInputs (rd_switches rd) \<or> hs_hideToolArgs (rd_switches rd)
           \<Longrightarrow> deltas_blank False (map_of fs (lit ''deltas''))"
proof -
  let ?s = "rd_switches rd"
  obtain node where node: "identity p ''nodeId'' = Some node"
    using assms by (auto simp: onToken_def split: bind_splits)
  let ?tool = "case node of None \<Rightarrow> False | Some n \<Rightarrow> hs_hideToolResults ?s \<and> kindOf run n None rd = Some TOOL"
  let ?all = "hs_hideOutputs ?s \<or> ?tool" and ?args = "hs_hideToolArgs ?s \<or> hs_hideInputs ?s"
  note body = assms [unfolded onToken_def node bind.bind_lunit Let_def]
  have one: "sent_text fs ''nodeId'' = node \<and> (?all \<or> ?args \<longrightarrow> deltas_blank ?all (map_of fs (lit ''deltas'')))"
  proof (cases "\<not> ?all \<and> \<not> ?args")
    case True
    then have "fs = lifted p" using body by auto
    then show ?thesis using True sent_text_identity [OF node] by simp
  next
    case False
    note rest = body [unfolded if_not_P [OF False]]
    obtain vs where vs: "array_items h (field_of p ''deltas'') = Some (Some vs)"
      using rest by (auto split: bind_splits)
    obtain bs count where bs: "map_counting (hide_delta h ?all ?args) vs = Some (bs, count)"
      using rest vs by (auto split: bind_splits)
    let ?out = "put_field ''deltas'' (Ba bs) (lifted p)"
    have fs: "(if count = 0 then Some ?out else with_summary h p count ''deltas'' ?out) = Some fs"
      using rest [unfolded vs bind.bind_lunit bs prod.case] .
    have "list_all (delta_blank ?all) bs"
      by (rule map_counting_all [OF bs]) (rule hide_delta_blank, assumption, use False in blast)
    moreover have "map_of fs (lit ''deltas'') = Some (Ba bs)" "sent_text fs ''nodeId'' = sent_text (lifted p) ''nodeId''"
      using fs by (auto simp: with_summary_other sent_text_summary sent_text_put split: if_splits)
    ultimately show ?thesis using sent_text_identity [OF node] by (simp add: deltas_blank_def)
  qed
  have kind: "judged run fs None rd = Option.bind node (\<lambda>n. kindOf run n None rd)" using one by (simp add: judged_def)
  show "hs_hideOutputs ?s \<or> hs_hideToolResults ?s \<and> judged run fs None rd = Some TOOL
           \<Longrightarrow> deltas_blank True (map_of fs (lit ''deltas''))"
    using one kind by (cases node) auto
  have weaker: "deltas_blank all b \<Longrightarrow> deltas_blank False b" for all b
    by (auto simp: deltas_blank_def list_all_iff delta_blank_def split: option.splits built.splits)
  show "hs_hideInputs ?s \<or> hs_hideToolArgs ?s \<Longrightarrow> deltas_blank False (map_of fs (lit ''deltas''))"
    using one weaker by blast
qed

text \<open>An edit that is shown as the placeholder only.\<close>

definition edit_blank :: "heap \<Rightarrow> built option \<Rightarrow> bool" where
  "edit_blank h b = (case b of
     None \<Rightarrow> True
   | Some (Bv v) \<Rightarrow> v = JUndef \<or> placeholder_edit h v = Some True
   | Some e \<Rightarrow> e = edited_placeholder)"

lemma answer_blank:
  assumes "answer_fields h ty payload = Some fs"
  shows "ty = Rt_resumed \<Longrightarrow> edit_blank h (map_of fs (lit ''edited''))"
    and "ty = Rt_refused \<Longrightarrow> map_of fs (lit ''message'') = None \<or> map_of fs (lit ''message'') = Some (Bv JUndef)"
proof -
  obtain ob p i where p: "isRecord h payload = Some (Some ob)" "snapshot ob = Some p" "identity p ''pauseId'' = Some i"
    using assms by (auto simp: answer_fields_def split: bind_splits)
  note body = assms [unfolded answer_fields_def p bind.bind_lunit Let_def]
  have kept: "edit_blank h (map_of (lifted p) (lit ''edited''))"
    if "field_of p ''edited'' = JUndef \<or> placeholder_edit h (field_of p ''edited'') = Some True"
    using that by (auto simp: edit_blank_def field_of_def map_of_lifted split: option.splits)
  show "ty = Rt_resumed \<Longrightarrow> edit_blank h (map_of fs (lit ''edited''))"
  proof -
    assume ty: "ty = Rt_resumed"
    show ?thesis
    proof (cases "field_of p ''edited'' = JUndef")
      case True
      then show ?thesis using body ty kept by simp
    next
      case False
      obtain already where al: "placeholder_edit h (field_of p ''edited'') = Some already"
        using body ty False by (auto split: bind_splits)
      show ?thesis
      proof (cases already)
        case True
        then show ?thesis using body ty False al kept by simp
      next
        case no: False
        then have "with_summary h p 1 ''edited'' (put_field ''edited'' edited_placeholder (lifted p)) = Some fs"
          using body ty False al by simp
        then show ?thesis by (simp add: with_summary_other edit_blank_def edited_placeholder_def)
      qed
    qed
  qed
  show "ty = Rt_refused \<Longrightarrow> map_of fs (lit ''message'') = None \<or> map_of fs (lit ''message'') = Some (Bv JUndef)"
    using body by (auto simp: field_of_def map_of_lifted map_of_delete split: if_splits option.splits)
qed

lemma map_of_optional: "k \<noteq> key \<Longrightarrow> map_of (optional ob key valid out) (lit k) = map_of out (lit k)"
  by (simp add: optional_def Let_def)

text \<open>The failed forms.\<close>

lemma failed_blank:
  assumes "failedForm h ty payload run rd = (rd', Some fs)"
  shows "ty = Rt_started \<Longrightarrow> map_of fs (lit ''input'') = Some PLACEHOLDER"
    and "ty = Rt_finished \<Longrightarrow> map_of fs (lit ''output'') = Some PLACEHOLDER"
    and "ty = Rt_token \<Longrightarrow> map_of fs (lit ''deltas'') = Some (Ba [])"
  using assms
  by (auto simp: failedForm_def failed_started_def failed_finished_def Let_def map_add_def map_of_optional
      split: js.splits option.splits if_splits)

lemma failed_answer_blank:
  assumes "failedAnswerForm h ty payload = Some fs"
  shows "ty = Rt_resumed \<Longrightarrow> edit_blank h (map_of fs (lit ''edited''))"
    and "ty = Rt_refused \<Longrightarrow> map_of fs (lit ''message'') = None"
  using assms
  by (auto simp: failedAnswerForm_def Let_def edit_blank_def edited_placeholder_def
      split: js.splits option.splits if_splits)

text \<open>
  C5: No covered value is in what is sent, whatever the payload is - a Proxy, an object with
  throwing getters, a class instance. With a switch that hides a node's input on, the input of a start
  that names that kind on the wire is absent or the placeholder; with one that hides a result on, the
  result of a node judged a tool (or of any node) is, and so are the arguments of the tool calls a
  model asked for; covered token deltas are empty; the edited input of a covered pause is the
  placeholder and the message of a refusal is dropped. The payload itself passes only when no switch
  covers it, and an event whose failed form cannot be built is dropped.
\<close>

theorem covered_values_are_not_sent:
  assumes "redact_apply h ty payload run kind rd = (rd', outcome)" and "s = rd_switches rd"
  shows "case outcome of
     Dropped \<Rightarrow> rd_reports rd' = rd_reports rd @ [''redaction:dropped'']
   | Same \<Rightarrow> \<not> anyRedaction s \<or> ty = Rt_other \<or> (ty = Rt_resumed \<or> ty = Rt_refused) \<and> \<not> coversPauseInput s kind
   | Sent fs \<Rightarrow>
       (case ty of
          Rt_started \<Rightarrow>
            hs_hideInputs s \<or> hs_hideToolArgs s \<and> sent_text fs ''kind'' = Some TOOL \<longrightarrow> blank (map_of fs (lit ''input''))
        | Rt_finished \<Rightarrow>
            (hs_hideOutputs s \<or> hs_hideToolResults s \<and> judged run fs (Some ''instanceId'') rd = Some TOOL
               \<longrightarrow> blank (map_of fs (lit ''output'')))
            \<and> (hs_hideInputs s \<or> hs_hideToolArgs s
               \<longrightarrow> blank (map_of fs (lit ''output'')) \<or> output_blank h (map_of fs (lit ''output'')))
        | Rt_token \<Rightarrow>
            (hs_hideOutputs s \<or> hs_hideToolResults s \<and> judged run fs None rd = Some TOOL
               \<longrightarrow> deltas_blank True (map_of fs (lit ''deltas'')))
            \<and> (hs_hideInputs s \<or> hs_hideToolArgs s \<longrightarrow> deltas_blank False (map_of fs (lit ''deltas'')))
        | Rt_resumed \<Rightarrow> edit_blank h (map_of fs (lit ''edited''))
        | Rt_refused \<Rightarrow> map_of fs (lit ''message'') = None \<or> map_of fs (lit ''message'') = Some (Bv JUndef)
        | Rt_other \<Rightarrow> False)"
proof -
  have failed: ?thesis
    if f: "failClosed h ty payload run rd1 = (rd', outcome)" and ty: "ty \<in> {Rt_started, Rt_finished, Rt_token}"
      and r: "rd_reports rd1 = rd_reports rd" for rd1
  proof -
    obtain rd2 fs where ff: "failedForm h ty payload run rd1 = (rd2, fs)" by fastforce
    have "rd_reports rd2 = rd_reports rd1"
      using ff by (auto simp: failedForm_def failed_started_def failed_finished_def Let_def remember_def forget_kind_def
          split: js.splits option.splits if_splits redact_type.splits)
    then show ?thesis
      using f r ty ff failed_blank [of h ty payload run rd1 rd2]
      by (auto simp: failClosed_def reported_def report_def deltas_blank_def split: option.splits)
  qed
  show ?thesis
  proof (cases "anyRedaction s \<and> ty \<noteq> Rt_other")
    case False
    then show ?thesis using assms by (auto simp: redact_apply_def onPauseAnswer_def coversPauseInput_def anyRedaction_def split: if_splits)
  next
    case True
    show ?thesis
    proof (cases "ty = Rt_resumed \<or> ty = Rt_refused")
      case answer: True
      then have a: "onPauseAnswer h ty payload kind rd = (rd', outcome)" using assms True by (simp add: redact_apply_def)
      show ?thesis
        using a answer assms(2) answer_blank [of h ty payload] failed_answer_blank [of h ty payload]
        by (auto simp: onPauseAnswer_def failClosedAnswer_def reported_def report_def split: if_splits option.splits)
    next
      case event: False
      then have ty: "ty \<in> {Rt_started, Rt_finished, Rt_token}" using True by (cases ty) auto
      let ?p = "do { r \<leftarrow> isRecord h payload; ob \<leftarrow> r; snapshot ob }"
      note run_it = assms(1) [unfolded redact_apply_def]
      show ?thesis
      proof (cases ?p)
        case None
        then show ?thesis using run_it True event assms(2) by (intro failed [OF _ ty refl]) simp
      next
        case (Some p)
        obtain rd1 fs where hd: "handled h ty p run rd = (rd1, fs)" by fastforce
        show ?thesis
        proof (cases fs)
          case None
          have "rd_reports rd1 = rd_reports rd"
            using hd by (auto simp: handled_def onStarted_def onFinished_def Let_def remember_def forget_kind_def
                split: redact_type.splits option.splits)
          then show ?thesis using run_it True event assms(2) Some hd None by (intro failed [of rd1, OF _ ty]) simp_all
        next
          case sent: (Some out)
          then have o: "outcome = Sent out" "handled h ty p run rd = (rd1, Some out)"
            using run_it True event assms(2) Some hd by simp_all
          show ?thesis
            using ty o started_blank [of h p run rd rd1 out] finished_blank [of h p run rd rd1 out]
              token_blank [of h p run rd out] assms(2)
            by (auto simp: handled_def)
        qed
      qed
    qed
  qed
qed

section \<open>What is sent does not depend on a covered value\<close>

text \<open>The object with another value in one of its own fields.\<close>

definition with_own :: "string \<Rightarrow> js \<Rightarrow> js_object \<Rightarrow> js_object" where
  "with_own key v ob = ob\<lparr>jo_own := AList.update (lit key) (Slot v) (jo_own ob)\<rparr>"

text \<open>Heaps that differ only in one field of one object; in both it has a value that is not yet hidden.\<close>

definition to_hide :: "js \<Rightarrow> bool" where "to_hide v \<longleftrightarrow> v \<noteq> JUndef \<and> v \<noteq> JStr REDACTED"

definition alike_but :: "addr \<Rightarrow> string \<Rightarrow> heap \<Rightarrow> heap \<Rightarrow> bool" where
  "alike_but a key h h' \<longleftrightarrow>
     (\<forall>b. b \<noteq> a \<longrightarrow> h' b = h b)
     \<and> (\<exists>ob v v'. to_hide v \<and> to_hide v' \<and> h a = with_own key v ob \<and> h' a = with_own key v' ob)"

lemma with_own_reads:
  "is_array (with_own key v ob) = is_array ob" "jo_items (with_own key v ob) = jo_items ob"
  "jo_revoked (with_own key v ob) = jo_revoked ob" "jo_array (with_own key v ob) = jo_array ob"
  "k \<noteq> key \<Longrightarrow> get_prop (with_own key v ob) (lit k) = get_prop ob (lit k)"
  by (simp_all add: with_own_def is_array_def get_prop_def map_add_def)

lemma alike_reads:
  assumes "alike_but a key h h'"
  shows "is_array (h' b) = is_array (h b)" "jo_items (h' b) = jo_items (h b)"
    and "k \<noteq> key \<Longrightarrow> get_prop (h' b) (lit k) = get_prop (h b) (lit k)"
  using assms by (cases "b = a"; auto simp: alike_but_def with_own_reads)+

lemma alike_revoked:
  assumes "alike_but a key h h'"
  shows "jo_revoked (h' b) = jo_revoked (h b)"
  using assms by (cases "b = a"; auto simp: alike_but_def with_own_reads)

lemma alike_summary:
  assumes "alike_but a key h h'" "key \<notin> {''count'', ''keys''}"
  shows "mergeSummary h' existing n sk = mergeSummary h existing n sk"
proof (cases existing)
  case (JObj b)
  note reads = alike_reads [OF assms(1)]
  have g: "get_prop (h' b) (lit ''count'') = get_prop (h b) (lit ''count'')"
    "get_prop (h' b) (lit ''keys'') = get_prop (h b) (lit ''keys'')"
    using reads(3) [of "''count''" b] reads(3) [of "''keys''" b] assms(2) by auto
  show ?thesis
  proof (cases "is_array (h b) = Some False")
    case True
    show ?thesis
      unfolding mergeSummary_def JObj isRecord_def js.case reads(1,2) Let_def True bind.bind_lunit if_False option.case g
      by (rule refl)
  next
    case False
    then show ?thesis
      unfolding mergeSummary_def JObj isRecord_def js.case reads(1,2) Let_def
      by (cases "is_array (h b)") simp_all
  qed
qed (simp_all add: mergeSummary_def isRecord_def)

lemma read_props_update:
  "read_props (AList.update k (Slot v) own)
     = map_option (AList.update k v) (read_props (AList.update k (Slot w) own))"
proof (induction own)
  case (Cons kv own)
  obtain k' s where kv: "kv = (k', s)" by (cases kv)
  show ?case
  proof (cases "k' = k")
    case True
    then show ?thesis using kv by (cases "read_props own") auto
  next
    case False
    then show ?thesis using Cons kv by (cases s) (auto split: option.splits bind_splits)
  qed
qed simp

lemma snapshot_with_own:
  assumes "key \<noteq> ''toJSON''"
  shows "snapshot (with_own key v ob) = map_option (AList.update (lit key) v) (snapshot (with_own key w ob))"
proof -
  have "read_props (AList.update (lit key) (Slot v) (jo_own ob))
      = map_option (AList.update (lit key) v) (read_props (AList.update (lit key) (Slot w) (jo_own ob)))"
    by (rule read_props_update)
  then show ?thesis
    using assms by (cases "read_props (AList.update (lit key) (Slot w) (jo_own ob))")
      (simp_all add: snapshot_def spread_def with_own_def AList.delete_update)
qed

lemma lifted_update: "lifted (AList.update k v p) = AList.update k (Bv v) (lifted p)"
  by (induction p) (auto simp: lifted_def)

lemma updated_fields:
  "field_of (AList.update (lit key) v p) key = v"
  "k \<noteq> key \<Longrightarrow> field_of (AList.update (lit key) v p) k = field_of p k"
  "k \<noteq> key \<Longrightarrow> identity (AList.update (lit key) v p) k = identity p k"
  "put_field key b (lifted (AList.update (lit key) v p)) = put_field key b (lifted p)"
  by (simp_all add: field_of_def identity_def lifted_update update_conv')

lemma alike_with_summary:
  "\<lbrakk>alike_but a key h h'; key \<notin> {''count'', ''keys'', ''redaction''}\<rbrakk>
   \<Longrightarrow> with_summary h' (AList.update (lit key) v' p) n sk fs = with_summary h (AList.update (lit key) v p) n sk fs"
  using alike_summary [of a key h h']
  by (auto simp: with_summary_def updated_fields(2) [where k = "''redaction''" and key = key, OF not_sym])

lemma alike_failed:
  assumes "alike_but a key h h'" "ty = Rt_started \<and> key = ''input'' \<or> ty = Rt_finished \<and> key = ''output''"
  shows "failClosed h' ty (JObj a) run rd = failClosed h ty (JObj a) run rd"
proof -
  have same: "read_field (h' b) k = read_field (h b) k" if "k \<noteq> key" for b k
    using alike_reads(3) [OF assms(1) that] by (simp add: read_field_def)
  then have opt: "optional (h' b) k f out = optional (h b) k f out" if "k \<noteq> key" for b k f out
    using that by (simp add: optional_def)
  from assms(2) show ?thesis
  proof
    assume k: "ty = Rt_started \<and> key = ''input''"
    then have "failed_started (h' a) node run rd = failed_started (h a) node run rd" for node
      by (simp add: failed_started_def same opt cong: option.case_cong if_cong)
    then show ?thesis
      using k same by (simp add: failClosed_def failedForm_def Let_def cong: option.case_cong if_cong)
  next
    assume k: "ty = Rt_finished \<and> key = ''output''"
    then have "kept_usage (h' u) = kept_usage (h u)" for u
      by (simp add: kept_usage_def same opt Let_def)
    then have "failed_finished h' (h' a) node run rd = failed_finished h (h a) node run rd" for node
      using k by (simp add: failed_finished_def same opt Let_def cong: option.case_cong js.case_cong if_cong)
    then show ?thesis
      using k same by (simp add: failClosed_def failedForm_def Let_def cong: option.case_cong if_cong)
  qed
qed

text \<open>
  C30: Nothing that is sent depends on a covered value. Take two runs of the same start, with
  \<open>hideInputs\<close> on, whose payload has different inputs - or of the same finish, with \<open>hideOutputs\<close>
  on, whose payload has different outputs - neither of them undefined or already the placeholder, and
  let everything else in memory be the same. Then what is sent is the same, the summary and the
  failed form included, and so is what the redactor remembers and reports.
\<close>

theorem covered_value_does_not_interfere:
  assumes "alike_but a key h h'"
    and "ty = Rt_started \<and> key = ''input'' \<and> hs_hideInputs (rd_switches rd)
       \<or> ty = Rt_finished \<and> key = ''output'' \<and> hs_hideOutputs (rd_switches rd)"
  shows "redact_apply h' ty (JObj a) run kind rd = redact_apply h ty (JObj a) run kind rd"
proof -
  obtain ob v v' where ob: "to_hide v" "to_hide v'" "h a = with_own key v ob" "h' a = with_own key v' ob"
    using assms(1) by (auto simp: alike_but_def)
  have key: "key \<noteq> ''toJSON''" "key \<notin> {''count'', ''keys'', ''redaction''}" using assms(2) by auto
  have is_rec: "isRecord g (JObj a) = None \<or> isRecord g (JObj a) = Some None \<or> isRecord g (JObj a) = Some (Some (g a))"
    for g
    by (auto simp: isRecord_def split: bind_splits)
  have rec_same: "isRecord h' (JObj a) = Some (Some (h' a)) \<longleftrightarrow> isRecord h (JObj a) = Some (Some (h a))"
    using alike_reads(1) [OF assms(1), of a] by (auto simp: isRecord_def split: bind_splits)
  have failed: "failClosed h' ty (JObj a) run r = failClosed h ty (JObj a) run r" for r
    by (rule alike_failed [OF assms(1)]) (use assms(2) in auto)
  show ?thesis
  proof (cases "isRecord h (JObj a) = Some (Some (h a)) \<and> snapshot (h a) \<noteq> None")
    case True
    then obtain p where p: "snapshot (with_own key JNull ob) = Some p"
      using snapshot_with_own [OF key(1), of v ob JNull] ob(3) by auto
    have sn: "snapshot (h a) = Some (AList.update (lit key) v p)" "snapshot (h' a) = Some (AList.update (lit key) v' p)"
      using snapshot_with_own [OF key(1), of v ob JNull] snapshot_with_own [OF key(1), of v' ob JNull] p ob(3,4)
      by simp_all
    have "handled h' ty (AList.update (lit key) v' p) run rd = handled h ty (AList.update (lit key) v p) run rd"
      using assms(2) alike_with_summary [OF assms(1) key(2)] ob(1,2)
      by (auto simp: handled_def onStarted_def onFinished_def updated_fields to_hide_def Let_def
          split: option.splits)
    then show ?thesis
      using True sn rec_same assms(2) failed by (auto simp: redact_apply_def)
  next
    case False
    moreover from this have "\<not> (isRecord h' (JObj a) = Some (Some (h' a)) \<and> snapshot (h' a) \<noteq> None)"
      using rec_same snapshot_with_own [OF key(1), of v ob v'] ob(3,4) by auto
    ultimately have "(do { r \<leftarrow> isRecord h (JObj a); ob \<leftarrow> r; snapshot ob }) = None"
      "(do { r \<leftarrow> isRecord h' (JObj a); ob \<leftarrow> r; snapshot ob }) = None"
      using is_rec [of h] is_rec [of h'] by auto
    then show ?thesis
      using assms(2) failed by (auto simp: redact_apply_def)
  qed
qed

section \<open>An example\<close>

text \<open>The finish of a model call that asked for a tool call; address 4 is a revoked proxy.\<close>

definition finish_heap :: "js \<Rightarrow> heap" where
  "finish_heap v a =
     (if a = 0 then js_record [(lit ''nodeId'', Slot (JStr (lit ''n''))), (lit ''output'', Slot v),
                               (lit ''status'', Slot (JStr (lit ''ok''))), (lit ''durationMs'', Slot (JNum (Fin 5)))]
      else if a = 1 then js_record [(lit ''toolCalls'', Slot (JObj 2))]
      else if a = 2 then js_array [Slot (JObj 3)]
      else if a = 3 then js_record [(lit ''name'', Slot (JStr (lit ''pay''))), (lit ''args'', Slot (JStr (lit ''1'')))]
      else (js_record [])\<lparr>jo_revoked := True\<rparr>)"

definition some_switches :: "bool \<Rightarrow> bool \<Rightarrow> hide_switches" where
  "some_switches outputs args =
     \<lparr>hs_hideInputs = False, hs_hideOutputs = outputs, hs_hideToolArgs = args, hs_hideToolResults = False\<rparr>"

definition example_redactor :: "bool \<Rightarrow> bool \<Rightarrow> redactor" where
  "example_redactor outputs args = redactor_new (some_switches outputs args) 4"

theorem covered_values_are_not_sent_witness:
  "case redact_apply (finish_heap (JObj 1)) Rt_finished (JObj 0) (lit ''r'') None (example_redactor False True) of
     (rd', Sent fs) \<Rightarrow> blank (map_of fs (lit ''output'')) \<or> output_blank (finish_heap (JObj 1)) (map_of fs (lit ''output''))
   | _ \<Rightarrow> False"
proof -
  let ?r = "redact_apply (finish_heap (JObj 1)) Rt_finished (JObj 0) (lit ''r'') None (example_redactor False True)"
  have "case ?r of (rd', Sent fs) \<Rightarrow> True | _ \<Rightarrow> False" by code_simp
  then obtain rd' fs where r: "?r = (rd', Sent fs)" by (auto split: prod.splits redact_outcome.splits)
  have "hs_hideToolArgs (rd_switches (example_redactor False True))"
    by (simp add: example_redactor_def redactor_new_def some_switches_def)
  with covered_values_are_not_sent [OF r refl] show ?thesis by (simp add: r)
qed

theorem covered_value_does_not_interfere_witness:
  "redact_apply (finish_heap (JObj 4)) Rt_finished (JObj 0) (lit ''r'') None (example_redactor True False)
     = redact_apply (finish_heap (JObj 1)) Rt_finished (JObj 0) (lit ''r'') None (example_redactor True False)"
proof (rule covered_value_does_not_interfere [where key = "''output''"])
  have "finish_heap v 0 = with_own ''output'' v (finish_heap JNull 0)" for v
    by (simp add: finish_heap_def with_own_def js_record_def lit_inj)
  then have "finish_heap (JObj 1) 0 = with_own ''output'' (JObj 1) (finish_heap JNull 0)
      \<and> finish_heap (JObj 4) 0 = with_own ''output'' (JObj 4) (finish_heap JNull 0)"
    by blast
  moreover have "finish_heap (JObj 4) b = finish_heap (JObj 1) b" if "b \<noteq> 0" for b
    using that by (simp add: finish_heap_def)
  moreover have "to_hide (JObj 1)" "to_hide (JObj 4)" by (simp_all add: to_hide_def)
  ultimately show "alike_but 0 ''output'' (finish_heap (JObj 1)) (finish_heap (JObj 4))"
    unfolding alike_but_def by blast
qed (simp add: example_redactor_def redactor_new_def some_switches_def)

section \<open>A result is judged by the kind its start named\<close>

lemma evict_oldest: "wf_omap m \<Longrightarrow> m \<noteq> [] \<Longrightarrow> evictOldest m = AList.delete (hd (okeys m)) m"
  by (cases m rule: evictOldest.cases) (auto simp: delete_filter filter_absent map_of_None_keys)

definition push_kind :: "jstr \<Rightarrow> jstr \<Rightarrow> (jstr, jstr) omap \<Rightarrow> (jstr, jstr) omap" where
  "push_kind key kind m =
     (let m' = AList.update key kind (AList.delete key m)
      in if MAX_TRACKED_NODES < length (okeys m') then AList.delete (hd (okeys m')) m' else m')"

lemma wf_push_kind: "wf_omap m \<Longrightarrow> wf_omap (push_kind key kind m)"
  by (simp add: push_kind_def Let_def om.ok_put om.ok_del)

lemma remember_nodes:
  assumes "wf_omap (rd_nodes rd)"
  shows "rd_nodes (remember run n i kind rd) = push_kind (node_key run n) kind (rd_nodes rd)"
proof -
  let ?m = "AList.update (node_key run n) kind (AList.delete (node_key run n) (rd_nodes rd))"
  have "wf_omap ?m" using assms by (intro om.ok_put om.ok_del)
  moreover have "?m \<noteq> []" by simp
  ultimately show ?thesis
    using evict_oldest [of ?m] by (simp add: remember_def push_kind_def Let_def split: option.splits)
qed

lemma push_kind_last:
  assumes "wf_omap m"
  shows "map_of (push_kind key kind m) key = Some kind" and "\<exists>zs. okeys (push_kind key kind m) = zs @ [key]"
proof -
  let ?m = "AList.update key kind (AList.delete key m)"
  have keys: "okeys ?m = filter (\<lambda>x. x \<noteq> key) (okeys m) @ [key]" by (rule om.move_to_end_keys)
  show "map_of (push_kind key kind m) key = Some kind"
    using om.newest_survives_eviction [OF assms, of MAX_TRACKED_NODES key kind]
    by (simp add: push_kind_def Let_def MAX_TRACKED_NODES_def)
  show "\<exists>zs. okeys (push_kind key kind m) = zs @ [key]"
  proof (cases "MAX_TRACKED_NODES < length (okeys ?m)")
    case over: True
    have "filter (\<lambda>x. x \<noteq> key) (okeys m) \<noteq> []"
      using over [unfolded keys MAX_TRACKED_NODES_def] by (intro notI) simp
    then have "hd (okeys ?m) \<noteq> key"
      using keys hd_in_set [of "filter (\<lambda>x. x \<noteq> key) (okeys m)"] by (simp add: hd_append)
    then have "okeys (AList.delete (hd (okeys ?m)) ?m)
        = filter (\<lambda>x. x \<noteq> hd (okeys ?m)) (filter (\<lambda>x. x \<noteq> key) (okeys m)) @ [key]"
      unfolding om.keys_del keys by simp
    then show ?thesis using over by (auto simp: push_kind_def Let_def)
  next
    case False
    then have "push_kind key kind m = ?m" by (simp only: push_kind_def Let_def if_False)
    then show ?thesis using keys by (intro exI) simp
  qed
qed

text \<open>Evicting kinds of instances makes no kind appear.\<close>

lemma map_of_evict_past: "map_of (evict_past n m) k = None \<or> map_of (evict_past n m) k = map_of m k" if "wf_omap m"
  using that
proof (induction n m rule: evict_past.induct)
  case (2 n kv m)
  show ?case
  proof (cases "n < length (kv # m)")
    case True
    then have "map_of (evict_past n m) k = None \<or> map_of (evict_past n m) k = map_of m k" using 2 by auto
    moreover have "map_of m k = None \<or> map_of m k = map_of (kv # m) k"
      using 2(2) by (cases kv) (auto simp: map_of_None_keys)
    ultimately show ?thesis using True by auto
  qed simp
qed simp

lemma wf_evict_past: "wf_omap m \<Longrightarrow> wf_omap (evict_past n m)"
  by (induction n m rule: evict_past.induct) auto

text \<open>\<open>others\<close>: the nodes that started since.\<close>

definition seen_as_tool :: "jstr \<Rightarrow> jstr option \<Rightarrow> jstr set \<Rightarrow> redactor \<Rightarrow> bool" where
  "seen_as_tool key ik others rd \<longleftrightarrow>
     wf_omap (rd_nodes rd) \<and> wf_omap (rd_instances rd)
     \<and> (case ik of None \<Rightarrow> True
        | Some i \<Rightarrow> map_of (rd_instances rd) i = None \<or> map_of (rd_instances rd) i = Some TOOL)
     \<and> map_of (rd_nodes rd) key = Some TOOL
     \<and> (\<exists>xs ys. okeys (rd_nodes rd) = xs @ key # ys \<and> set ys \<subseteq> others)"

lemma seen_as_tool_kind:
  assumes "seen_as_tool (node_key run node) (map_option (instanceKey run node) inst) others rd"
  shows "kindOf run node inst rd = Some TOOL" "kindOf run node None rd = Some TOOL"
  using assms by (auto simp: seen_as_tool_def kindOf_def Let_def split: option.splits)

lemma seen_instances:
  assumes "wf_omap (rd_instances rd)" "wf_omap (rd_nodes rd)"
  shows "wf_omap (rd_instances (remember run n i kind rd))"
    and "map_of (rd_instances (remember run n i kind rd)) k = None
       \<or> map_of (rd_instances (remember run n i kind rd)) k = map_of (rd_instances rd) k
       \<or> i \<noteq> None \<and> k = instanceKey run n (the i) \<and> map_of (rd_instances (remember run n i kind rd)) k = Some kind"
proof -
  have "wf_omap (AList.update (instanceKey run n j) kind (rd_instances rd))" for j
    using assms(1) by (rule om.ok_put)
  note wf = this
  show "wf_omap (rd_instances (remember run n i kind rd))"
    using assms wf wf_evict_past by (auto simp: remember_def Let_def split: option.splits)
  show "map_of (rd_instances (remember run n i kind rd)) k = None
       \<or> map_of (rd_instances (remember run n i kind rd)) k = map_of (rd_instances rd) k
       \<or> i \<noteq> None \<and> k = instanceKey run n (the i) \<and> map_of (rd_instances (remember run n i kind rd)) k = Some kind"
  proof (cases i)
    case (Some j)
    then show ?thesis
      using map_of_evict_past [OF wf, of "rd_maxInstances rd" j k]
      by (auto simp: remember_def Let_def split: if_splits)
  qed (simp add: remember_def Let_def)
qed

lemma remember_keeps_seen:
  assumes seen: "seen_as_tool key ik others rd"
    and new: "kind = TOOL \<or> node_key run n \<noteq> key \<and> (i = None \<or> ik \<noteq> Some (instanceKey run n (the i)))"
    and key: "node_key run n \<in> others" and few: "finite others" "card others < MAX_TRACKED_NODES"
  shows "seen_as_tool key ik others (remember run n i kind rd)"
proof -
  obtain xs ys where wf: "wf_omap (rd_nodes rd)" "wf_omap (rd_instances rd)"
    and at_key: "map_of (rd_nodes rd) key = Some TOOL" "okeys (rd_nodes rd) = xs @ key # ys" "set ys \<subseteq> others"
    using seen by (auto simp: seen_as_tool_def)
  let ?rd = "remember run n i kind rd"
  have nodes: "rd_nodes ?rd = push_kind (node_key run n) kind (rd_nodes rd)" by (rule remember_nodes [OF wf(1)])
  have "map_of (rd_nodes ?rd) key = Some TOOL \<and> (\<exists>xs ys. okeys (rd_nodes ?rd) = xs @ key # ys \<and> set ys \<subseteq> others)"
  proof (cases "node_key run n = key")
    case True
    obtain zs where "okeys (rd_nodes ?rd) = zs @ key # []" and kept: "map_of (push_kind key kind (rd_nodes rd)) key = Some kind"
      using push_kind_last [OF wf(1), of key kind] True nodes by auto
    moreover have "set [] \<subseteq> others" by simp
    ultimately have "\<exists>xs ys. okeys (rd_nodes ?rd) = xs @ key # ys \<and> set ys \<subseteq> others" by blast
    then show ?thesis using True new kept nodes by simp
  next
    case False
    then show ?thesis
      using om.recent_survives_eviction [OF wf(1) at_key(2,3) key False few, of kind] at_key(1) nodes
      by (simp add: push_kind_def Let_def)
  qed
  moreover have "case ik of None \<Rightarrow> True
      | Some k \<Rightarrow> map_of (rd_instances ?rd) k = None \<or> map_of (rd_instances ?rd) k = Some TOOL"
  proof (cases ik)
    case (Some k)
    then show ?thesis
      using seen_instances(2) [OF wf(2,1), of run n i kind k] seen new by (auto simp: seen_as_tool_def)
  qed simp
  ultimately show ?thesis
    using seen_instances(1) [OF wf(2,1)] wf_push_kind [OF wf(1)] nodes by (simp add: seen_as_tool_def)
qed

lemma other_steps_keep_seen:
  "seen_as_tool key ik others rd \<Longrightarrow> seen_as_tool key ik others (forget_kind run n i rd)"
  "seen_as_tool key ik others rd \<Longrightarrow> seen_as_tool key ik others (report w rd)"
  by (auto simp: seen_as_tool_def forget_kind_def report_def om.ok_del split: option.splits)

text \<open>The texts a payload shows when its fields are read.\<close>

definition shows_text :: "heap \<Rightarrow> js \<Rightarrow> string \<Rightarrow> jstr option" where
  "shows_text h payload key = (case payload of JObj a \<Rightarrow> text_of (read_field (h a) key) | _ \<Rightarrow> None)"

lemma snapshot_shows:
  assumes "(do { r \<leftarrow> isRecord h payload; ob \<leftarrow> r; snapshot ob }) = Some p"
    and "identity p key = Some (Some t)" "key \<noteq> ''toJSON''"
  shows "shows_text h payload key = Some t"
proof -
  obtain a where a: "payload = JObj a" "snapshot (h a) = Some p"
    using assms(1) by (auto simp: isRecord_object split: bind_splits)
  then obtain ps where ps: "read_props (jo_own (h a)) = Some ps" "p = AList.delete (lit ''toJSON'') ps" "\<not> jo_revoked (h a)"
    by (auto simp: snapshot_def spread_def split: if_splits)
  have "map_of p (lit key) = Some (JStr t)"
    using assms(2) by (auto simp: identity_def field_of_def split: option.splits js.splits)
  then have "map_of ps (lit key) = Some (JStr t)" using ps(2) by (simp split: if_splits)
  then have "map_of (jo_own (h a)) (lit key) = Some (Slot (JStr t))" using read_props_map [OF ps(1)] by simp
  then have "get_prop (h a) (lit key) = Some (JStr t)" using ps(3) by (simp add: get_prop_def map_add_def)
  then show ?thesis using a(1) by (simp add: shows_text_def read_field_def)
qed

lemma apply_keeps:
  assumes out: "\<And>n i rd. P rd \<Longrightarrow> P (forget_kind run n i rd)" "\<And>w rd. P rd \<Longrightarrow> P (report w rd)"
    and start: "\<And>n i k rd. \<lbrakk>ty = Rt_started; shows_text h payload ''nodeId'' = Some n; shows_text h payload ''kind'' = Some k;
          i = None \<or> i = shows_text h payload ''instanceId''; P rd\<rbrakk> \<Longrightarrow> P (remember run n i k rd)"
    and now: "P rd" and step: "redact_apply h ty payload run kind rd = (rd', out)"
  shows "P rd'"
proof -
  have failed: "P r'" if "failClosed h ty payload run r = (r', res)" "P r" "ty \<in> {Rt_started, Rt_finished, Rt_token}" for r r' res
    using that out start
    by (auto simp: failClosed_def reported_def failedForm_def failed_started_def failed_finished_def Let_def shows_text_def
        split: js.splits option.splits if_splits prod.splits)
  have answer: "P r'" if "onPauseAnswer h ty payload kind r = (r', res)" "P r" for r r' res
    using that out(2)
    by (auto simp: onPauseAnswer_def failClosedAnswer_def reported_def split: option.splits if_splits)
  have handler: "P rd1" if snap: "(do { r \<leftarrow> isRecord h payload; ob \<leftarrow> r; snapshot ob }) = Some p"
    and h: "handled h ty p run rd = (rd1, res)" for p rd1 res
  proof (cases "ty = Rt_started")
    case True
    show ?thesis
    proof (cases "\<exists>n i k. identity p ''nodeId'' = Some (Some n) \<and> identity p ''instanceId'' = Some i \<and> identity p ''kind'' = Some (Some k)")
      case ids: True
      then obtain n i k where ids: "identity p ''nodeId'' = Some (Some n)" "identity p ''instanceId'' = Some i"
        "identity p ''kind'' = Some (Some k)" by blast
      have "rd1 = remember run n i k rd" using h True ids by (simp add: handled_def onStarted_def Let_def)
      moreover have "i = None \<or> i = shows_text h payload ''instanceId''"
        using snapshot_shows [OF snap, of "''instanceId''"] ids(2) by (cases i) auto
      ultimately show ?thesis
        using start [OF True _ _ _ now] snapshot_shows [OF snap ids(1)] snapshot_shows [OF snap ids(3)] by simp
    next
      case False
      then have "rd1 = rd" using h True by (auto simp: handled_def onStarted_def Let_def split: option.splits)
      then show ?thesis using now by simp
    qed
  next
    case False
    then show ?thesis
      using h now out(1) by (auto simp: handled_def onFinished_def Let_def split: redact_type.splits option.splits)
  qed
  show ?thesis
    using step now answer failed handler
    by (auto simp: redact_apply_def split: if_splits option.splits prod.splits intro: redact_type.exhaust [of ty])
qed

definition wf_redactor :: "redactor \<Rightarrow> bool" where
  "wf_redactor rd \<longleftrightarrow> wf_omap (rd_nodes rd) \<and> wf_omap (rd_instances rd)"

lemma wf_redactor_steps:
  "wf_redactor rd \<Longrightarrow> wf_redactor (remember run n i kind rd)"
  "wf_redactor rd \<Longrightarrow> wf_redactor (forget_kind run n j rd)"
  "wf_redactor rd \<Longrightarrow> wf_redactor (report w rd)"
  using seen_instances(1) [of rd run n i kind]
  by (auto simp: wf_redactor_def remember_nodes wf_push_kind forget_kind_def report_def om.ok_del)

type_synonym redact_event = "heap \<times> redact_type \<times> js \<times> jstr \<times> node_kind option"

definition redact_step :: "redact_event \<Rightarrow> redactor \<Rightarrow> redactor" where
  "redact_step = (\<lambda>(h, ty, payload, run, kind) rd. fst (redact_apply h ty payload run kind rd))"

abbreviation redact_run :: "redact_event list \<Rightarrow> redactor \<Rightarrow> redactor" where
  "redact_run evs rd \<equiv> fold redact_step evs rd"

text \<open>The node and the instance a start names.\<close>

definition started_key :: "redact_event \<Rightarrow> jstr option" where
  "started_key = (\<lambda>(h, ty, payload, run, kind).
     if ty = Rt_started then map_option (node_key run) (shows_text h payload ''nodeId'') else None)"

definition started_instance :: "redact_event \<Rightarrow> jstr option" where
  "started_instance = (\<lambda>(h, ty, payload, run, kind).
     if ty \<noteq> Rt_started then None
     else do { n \<leftarrow> shows_text h payload ''nodeId''; i \<leftarrow> shows_text h payload ''instanceId''; Some (instanceKey run n i) })"

definition started_kind :: "redact_event \<Rightarrow> jstr option" where
  "started_kind = (\<lambda>(h, ty, payload, run, kind). if ty = Rt_started then shows_text h payload ''kind'' else None)"

text \<open>The event does not start the node, or the instance, as something other than a tool.\<close>

definition leaves_tool :: "jstr \<Rightarrow> jstr option \<Rightarrow> redact_event \<Rightarrow> bool" where
  "leaves_tool key ik ev \<longleftrightarrow>
     started_kind ev = Some TOOL \<or> started_key ev \<noteq> Some key \<and> (ik = None \<or> started_instance ev \<noteq> ik)"

definition started_keys :: "redact_event list \<Rightarrow> jstr list" where
  "started_keys evs = List.map_filter started_key evs"

lemma step_keeps_wf:
  assumes wf: "wf_redactor rd"
  shows "wf_redactor (redact_step ev rd)"
proof -
  obtain h ty payload run kind where ev: "ev = (h, ty, payload, run, kind)" by (cases ev)
  obtain rd' out where r: "redact_apply h ty payload run kind rd = (rd', out)" by fastforce
  have "wf_redactor rd'" by (rule apply_keeps [where P = wf_redactor, OF _ _ _ wf r]) (auto intro: wf_redactor_steps)
  then show ?thesis by (simp add: redact_step_def ev r)
qed

lemma step_keeps_switches: "rd_switches (redact_step ev rd) = rd_switches rd"
proof -
  obtain h ty payload run kind where ev: "ev = (h, ty, payload, run, kind)" by (cases ev)
  obtain rd' out where r: "redact_apply h ty payload run kind rd = (rd', out)" by fastforce
  have "rd_switches rd' = rd_switches rd"
    by (rule apply_keeps [where P = "\<lambda>r. rd_switches r = rd_switches rd", OF _ _ _ _ r])
      (auto simp: forget_kind_def report_def remember_def Let_def split: option.splits)
  then show ?thesis by (simp add: redact_step_def ev r)
qed

interpretation rdm: event_machine
  "\<lambda>rd. rd_nodes rd = [] \<and> rd_instances rd = []" redact_step wf_redactor
  by unfold_locales (simp add: wf_redactor_def, rule step_keeps_wf)

lemma step_keeps_seen:
  assumes "seen_as_tool key ik others rd" "leaves_tool key ik ev" "set (started_keys [ev]) \<subseteq> others"
    and few: "finite others" "card others < MAX_TRACKED_NODES"
  shows "seen_as_tool key ik others (redact_step ev rd)"
proof -
  obtain h ty payload run kind where ev: "ev = (h, ty, payload, run, kind)" by (cases ev)
  obtain rd' out where r: "redact_apply h ty payload run kind rd = (rd', out)" by fastforce
  have "seen_as_tool key ik others rd'"
  proof (rule apply_keeps [where P = "seen_as_tool key ik others", OF _ _ _ assms(1) r])
    fix n i k rd
    assume start: "ty = Rt_started" "shows_text h payload ''nodeId'' = Some n" "shows_text h payload ''kind'' = Some k"
      "i = None \<or> i = shows_text h payload ''instanceId''" "seen_as_tool key ik others rd"
    have "k = TOOL \<or> node_key run n \<noteq> key \<and> (i = None \<or> ik \<noteq> Some (instanceKey run n (the i)))"
      using assms(2) start(1-4) by (cases i) (auto simp: ev leaves_tool_def started_kind_def started_key_def started_instance_def)
    moreover have "node_key run n \<in> others"
      using assms(3) start(1,2) by (simp add: ev started_keys_def started_key_def List.map_filter_def)
    ultimately show "seen_as_tool key ik others (remember run n i k rd)"
      by (rule remember_keeps_seen [OF start(5) _ _ few])
  qed (auto intro: other_steps_keep_seen)
  then show ?thesis by (simp add: redact_step_def ev r)
qed

lemma run_keeps_seen:
  assumes "seen_as_tool key ik others rd" "list_all (leaves_tool key ik) evs" "set (started_keys evs) \<subseteq> others"
    and "finite others" "card others < MAX_TRACKED_NODES"
  shows "seen_as_tool key ik others (redact_run evs rd)"
  using assms(1-3)
proof (induction evs arbitrary: rd)
  case (Cons ev evs)
  have "set (started_keys [ev]) \<subseteq> others" "set (started_keys evs) \<subseteq> others"
    using Cons.prems(3) by (auto simp: started_keys_def List.map_filter_def split: if_splits)
  then show ?case using Cons step_keeps_seen [OF _ _ _ assms(4,5)] by simp
qed simp

lemma started_texts:
  assumes "onStarted h p run rd = (rd', Some fs)" "sent_text fs ''nodeId'' = Some n" "sent_text fs ''kind'' = Some k"
  shows "rd' = remember run n (sent_text fs ''instanceId'') k rd"
proof -
  obtain node inst kind where ids: "identity p ''nodeId'' = Some node" "identity p ''instanceId'' = Some inst"
      "identity p ''kind'' = Some kind"
    using assms(1) by (auto simp: onStarted_def split: option.splits)
  have fs: "fs = lifted p \<or> with_summary h p 1 ''input'' (put_field ''input'' PLACEHOLDER (lifted p)) = Some fs"
    using assms(1) ids by (auto simp: onStarted_def Let_def split: if_splits)
  have "sent_text fs ''nodeId'' = node" "sent_text fs ''instanceId'' = inst" "sent_text fs ''kind'' = kind"
    using fs sent_text_identity [OF ids(1)] sent_text_identity [OF ids(2)] sent_text_identity [OF ids(3)]
    by (auto simp: sent_text_summary sent_text_put)
  then show ?thesis using assms ids by (auto simp: onStarted_def Let_def)
qed

lemma failed_start_texts:
  assumes "failClosed h Rt_started payload run rd = (rd', Sent fs)" "sent_text fs ''nodeId'' = Some n" "sent_text fs ''kind'' = Some k"
  shows "rd' = report ''redaction:failed'' (remember run n (sent_text fs ''instanceId'') k rd)"
  using assms
  by (auto simp: failClosed_def reported_def failedForm_def failed_started_def Let_def sent_text_def optional_def
      split: js.splits option.splits if_splits)

text \<open>A start that was sent is remembered as it was sent.\<close>

lemma sent_start_is_seen:
  assumes wf: "wf_redactor rd" and step: "redact_apply h Rt_started payload run kind rd = (rd', Sent fs)"
    and tool: "sent_text fs ''kind'' = Some TOOL" and node: "sent_text fs ''nodeId'' = Some n"
  shows "seen_as_tool (node_key run n) (map_option (instanceKey run n) (sent_text fs ''instanceId'')) {} rd'"
proof -
  have seen: "seen_as_tool (node_key run n) (map_option (instanceKey run n) i) {} (remember run n i TOOL r)"
    if "wf_redactor r" for r i
  proof -
    have wfr: "wf_omap (rd_nodes r)" "wf_omap (rd_instances r)" using that by (simp_all add: wf_redactor_def)
    obtain zs where zs: "okeys (rd_nodes (remember run n i TOOL r)) = zs @ node_key run n # []"
        "map_of (rd_nodes (remember run n i TOOL r)) (node_key run n) = Some TOOL"
      using push_kind_last [OF wfr(1), of "node_key run n" TOOL] remember_nodes [OF wfr(1)] by auto
    have "map_of (rd_instances (remember run n i TOOL r)) (instanceKey run n j) = None
        \<or> map_of (rd_instances (remember run n i TOOL r)) (instanceKey run n j) = Some TOOL" if "i = Some j" for j
    proof -
      let ?m = "AList.update (instanceKey run n j) TOOL (rd_instances r)"
      have "wf_omap ?m" using wfr(2) by (rule om.ok_put)
      from map_of_evict_past [OF this, of "rd_maxInstances r" "instanceKey run n j"]
      show ?thesis using that by (auto simp: remember_def Let_def split: if_splits)
    qed
    moreover have "\<exists>xs ys. okeys (rd_nodes (remember run n i TOOL r)) = xs @ node_key run n # ys \<and> set ys \<subseteq> {}"
      using zs(1) by (intro exI [of _ zs] exI [of _ "[]"]) simp
    ultimately show ?thesis
      using zs(2) wf_redactor_steps(1) [OF that, of run n i TOOL]
      by (auto simp: seen_as_tool_def wf_redactor_def split: option.splits)
  qed
  have "onStarted h p run r = (r', Some fs) \<Longrightarrow> wf_redactor r \<Longrightarrow> ?thesis" if "r' = rd'" for p r r'
    using started_texts [of h p run r r' fs n TOOL] node tool seen that by simp
  moreover have "failClosed h Rt_started payload run r = (rd', Sent fs) \<Longrightarrow> wf_redactor r \<Longrightarrow> ?thesis" for r
    using failed_start_texts [of h payload run r rd' fs n TOOL] node tool seen other_steps_keep_seen(2) by simp
  moreover have "wf_redactor r" if "onStarted h p run rd = (r, out)" for p r out
    using that wf wf_redactor_steps(1) by (auto simp: onStarted_def Let_def split: option.splits)
  ultimately show ?thesis
    using step wf by (auto simp: redact_apply_def handled_def split: if_splits option.splits prod.splits)
qed

lemma seen_as_tool_mono: "seen_as_tool key ik A rd \<Longrightarrow> A \<subseteq> B \<Longrightarrow> seen_as_tool key ik B rd"
  unfolding seen_as_tool_def by blast

lemma deltas_blank_empty [simp]: "deltas_blank all (Some (Ba []))"
  by (simp add: deltas_blank_def)

text \<open>
  C16: The output of a tool stays hidden however its result is reported. Take any run of a new redactor
  with \<open>hideToolResults\<close>, in it a start that was sent as the start of a tool - in its failed form or
  not - and after it fewer than 10,000 different nodes that start, none of them restarting that node or
  instance as something else. Then the output of a result sent for that node is absent or the
  placeholder, with the instance of the start or without one, whatever happened to the instance in
  between - it finished once already, it was evicted - and the token deltas of the node are empty.
\<close>

theorem tool_results_stay_hidden:
  assumes "hs_hideToolResults s"
    and "redact_apply h Rt_started payload run kind (redact_run earlier (redactor_new s m)) = (rd, Sent fs)"
    and "sent_text fs ''kind'' = Some TOOL" "sent_text fs ''nodeId'' = Some node"
    and "list_all (leaves_tool (node_key run node) (map_option (instanceKey run node) (sent_text fs ''instanceId''))) later"
    and "card (set (started_keys later)) < MAX_TRACKED_NODES"
    and "redact_apply h' ty payload' run kind' (redact_run later rd) = (rd', Sent out)"
    and "sent_text out ''nodeId'' = Some node"
  shows "(ty = Rt_finished \<and> sent_text out ''instanceId'' \<in> {None, sent_text fs ''instanceId''}
             \<longrightarrow> blank (map_of out (lit ''output'')))
    \<and> (ty = Rt_token \<longrightarrow> deltas_blank True (map_of out (lit ''deltas'')))"
proof -
  let ?before = "redact_run earlier (redactor_new s m)" and ?now = "redact_run later rd"
  have "wf_redactor ?before" by (rule rdm.reach_inv) (simp add: redactor_new_def)
  from sent_start_is_seen [OF this assms(2-4)] have "seen_as_tool (node_key run node)
      (map_option (instanceKey run node) (sent_text fs ''instanceId'')) (set (started_keys later)) rd"
    by (rule seen_as_tool_mono) simp
  from run_keeps_seen [OF this assms(5) _ _ assms(6)] have seen: "seen_as_tool (node_key run node)
      (map_option (instanceKey run node) (sent_text fs ''instanceId'')) (set (started_keys later)) ?now" by simp
  have "rd_switches ?before = s" using rdm.run_frame [of rd_switches, OF step_keeps_switches] by (simp add: redactor_new_def)
  then have "rd_switches rd = s" using step_keeps_switches [of "(h, Rt_started, payload, run, kind)" ?before] assms(2)
    by (simp add: redact_step_def)
  then have s: "rd_switches ?now = s" using rdm.run_frame [of rd_switches, OF step_keeps_switches] by simp
  show ?thesis
  proof (intro conjI impI; (elim conjE)?)
    assume ty: "ty = Rt_finished" and inst: "sent_text out ''instanceId'' \<in> {None, sent_text fs ''instanceId''}"
    then have "judged run out (Some ''instanceId'') ?now = Some TOOL"
      using seen_as_tool_kind [OF seen] assms(8) by (auto simp: judged_def)
    then show "blank (map_of out (lit ''output''))"
      using assms(1,7) ty s finished_blank(1) failed_blank(2)
      by (auto simp: redact_apply_def handled_def failClosed_def reported_def split: if_splits option.splits prod.splits)
  next
    assume ty: "ty = Rt_token"
    have "judged run out None ?now = Some TOOL" using seen_as_tool_kind(2) [OF seen] assms(8) by (simp add: judged_def)
    then show "deltas_blank True (map_of out (lit ''deltas''))"
      using assms(1,7) ty s token_blank(1) failed_blank(3)
      by (auto simp: redact_apply_def handled_def failClosed_def reported_def split: if_splits option.splits prod.splits)
  qed
qed

text \<open>A tool starts, another node starts, the tool finishes twice; address 1 is the start, 2 the other one.\<close>

definition tool_heap :: heap where
  "tool_heap a =
     (if a = 0 then (finish_heap (JStr (lit ''secret'')) 0)
      else js_record [(lit ''nodeId'', Slot (JStr (if a = 1 then lit ''n'' else lit ''m''))),
                      (lit ''kind'', Slot (JStr (if a = 1 then TOOL else lit ''llm''))),
                      (lit ''instanceId'', Slot (JStr (lit ''i'')))])"

definition tool_events :: "redact_event list" where
  "tool_events = [(tool_heap, Rt_started, JObj 2, lit ''r'', None), (tool_heap, Rt_finished, JObj 0, lit ''r'', None)]"

definition tool_redactor :: redactor where
  "tool_redactor = redactor_new ((some_switches False False)\<lparr>hs_hideToolResults := True\<rparr>) 1"

theorem tool_results_stay_hidden_witness:
  "case redact_apply tool_heap Rt_started (JObj 1) (lit ''r'') None (redact_run [] tool_redactor) of
     (rd, Sent fs) \<Rightarrow>
       (case redact_apply tool_heap Rt_finished (JObj 0) (lit ''r'') None (redact_run tool_events rd) of
          (rd', Sent out) \<Rightarrow> blank (map_of out (lit ''output''))
        | _ \<Rightarrow> False)
   | _ \<Rightarrow> False"
proof -
  let ?a = "redact_apply tool_heap Rt_started (JObj 1) (lit ''r'') None (redact_run [] tool_redactor)"
  have "case ?a of (rd, Sent fs) \<Rightarrow>
          sent_text fs ''kind'' = Some TOOL \<and> sent_text fs ''nodeId'' = Some (lit ''n'')
          \<and> list_all (leaves_tool (node_key (lit ''r'') (lit ''n''))
              (map_option (instanceKey (lit ''r'') (lit ''n'')) (sent_text fs ''instanceId''))) tool_events
          \<and> (case redact_apply tool_heap Rt_finished (JObj 0) (lit ''r'') None (redact_run tool_events rd) of
               (rd', Sent out) \<Rightarrow> sent_text out ''nodeId'' = Some (lit ''n'') \<and> sent_text out ''instanceId'' = None
             | _ \<Rightarrow> False)
      | _ \<Rightarrow> False"
    by code_simp
  moreover have "card (set (started_keys tool_events)) < MAX_TRACKED_NODES" by code_simp
  moreover have "hs_hideToolResults ((some_switches False False)\<lparr>hs_hideToolResults := True\<rparr>)" by simp
  ultimately show ?thesis
    using tool_results_stay_hidden [of "(some_switches False False)\<lparr>hs_hideToolResults := True\<rparr>" tool_heap "JObj 1"
        "lit ''r''" None "[]" 1 _ _ "lit ''n''" tool_events tool_heap Rt_finished "JObj 0" None]
    by (auto simp: tool_redactor_def split: prod.splits redact_outcome.splits)
qed

end
