(* ===== verification/Session_Pause.thy ===== *)
theory Session_Pause
  imports Tool_Edit Gate_Engine Smart_Breakpoints Redaction
begin

text \<open>
  How \<open>packages/client/src/session.ts\<close> drives the gate engine: when \<open>gate\<close> holds and what the pause
  announces, what \<open>handleResume\<close> does with an \<open>exec.resume\<close>, and how an edited input is checked
  before a call runs with it (contract C2): the refusals, the validation and its time limit, the
  verdict.

  The engine, the content checks and the normalisation of verdicts are the definitions of
  \<open>Gate_Engine\<close> and \<open>Edit_Input\<close>. The adapter's validator, the clock and the heap are inputs of the
  event during which they are used. What the loop guard and the detectors found is an argument of
  \<open>gate\<close>. What goes out - events, the decisions of the held promises, warnings - is a list of notes.
\<close>

section \<open>Data\<close>

text \<open>The engine carries live values (a decision's input or output) and wire copies.\<close>

datatype carried = Live js | Copy json

datatype pause_reason = Rs_loop | Rs_breakpoint | Rs_step | Rs_error

record pending_pause =
  pp_reason :: pause_reason
  pp_loop :: "loop_info option"
  pp_smart :: "smart_info option"
  pp_editable :: bool
  pp_validate :: bool
  pp_unsupported :: "resume_action list option"
  pp_signal :: bool

text \<open>\<open>exec.paused\<close>. \<open>smart\<close>: the rule and the detail.\<close>

record paused_payload =
  py_pauseId :: ident
  py_nodeId :: ident
  py_point :: pause_point
  py_reason :: "pause_reason option"
  py_loop :: "loop_info option"
  py_smart :: "(string \<times> jstr option) option"
  py_editable :: bool
  py_instanceId :: "ident option"

datatype pause_note =
    N_paused paused_payload ident
  | N_resumed ident resume_action "json option" "ident option" ident node_kind
  | N_refused ident edit_refusal "ident option" ident node_kind
  | N_decided ident "carried decision"
  | N_rejected ident
  | N_warned string
  | N_validate ident js bool

text \<open>A validation that awaits a promise: what its callbacks close over, and when it began.\<close>

record edit_check =
  ck_ticket :: ticket
  ck_gate :: held_view
  ck_action :: resume_action
  ck_input :: js
  ck_requestId :: "ident option"
  ck_startedAt :: "millis option"

text \<open>
  \<open>ps_editable\<close>: the pauses offered as editable, with whether there is a validator. \<open>ps_checks\<close>: the
  validations that wait, by an address. \<open>ps_base\<close>, \<open>ps_ids\<close>: the source of pause ids.
\<close>

record paused_session =
  ps_engine :: engine
  ps_base :: string
  ps_ids :: nat
  ps_attached :: bool
  ps_editInput :: bool
  ps_hub :: "jstr list option"
  ps_switches :: hide_switches
  ps_smart :: smart_switches
  ps_editable :: "(ident, bool) omap"
  ps_unsupported :: "(ident, resume_action list) omap"
  ps_signals :: "ident list"
  ps_checks :: "(nat, edit_check) omap"
  ps_nextCheck :: nat
  ps_out :: "pause_note list"

definition pause_session_new ::
  "string \<Rightarrow> millis option \<Rightarrow> bool \<Rightarrow> hide_switches \<Rightarrow> smart_switches \<Rightarrow> paused_session" where
  "pause_session_new base timeout editInput switches smart =
     \<lparr>ps_engine = engine_new timeout, ps_base = base, ps_ids = 0, ps_attached = False,
      ps_editInput = editInput, ps_hub = None, ps_switches = switches, ps_smart = smart,
      ps_editable = [], ps_unsupported = [], ps_signals = [], ps_checks = [], ps_nextCheck = 0, ps_out = []\<rparr>"

definition say :: "pause_note \<Rightarrow> paused_session \<Rightarrow> paused_session" where
  "say n st = st\<lparr>ps_out := ps_out st @ [n]\<rparr>"

section \<open>Options of a gate\<close>

text \<open>\<open>for (const action of list)\<close>; None: reading an item threw.\<close>

fun unsupported_items :: "js_slot list \<Rightarrow> resume_action list option" where
  "unsupported_items [] = Some []"
| "unsupported_items (s # ss) =
     do { v \<leftarrow> read_slot s; rest \<leftarrow> unsupported_items ss;
          Some (if v = JStr (lit ''retry'') then Act_retry # rest
                else if v = JStr (lit ''inject'') then Act_inject # rest else rest) }"

definition unsupportedOf :: "heap \<Rightarrow> js_object option \<Rightarrow> resume_action list option" where
  "unsupportedOf h options =
     (case options of
        None \<Rightarrow> None
      | Some ob \<Rightarrow>
          (case (do { v \<leftarrow> get_prop ob (lit ''unsupportedActions'');
                      case v of
                        JObj a \<Rightarrow> do { arr \<leftarrow> is_array (h a);
                                      if arr then unsupported_items (jo_items (h a)) else Some [] }
                      | _ \<Rightarrow> Some [] }) of
             None \<Rightarrow> None
           | Some acts \<Rightarrow> if acts = [] then None else Some acts))"

text \<open>A signal is known by whether it is aborted.\<close>

definition signalOf :: "heap \<Rightarrow> js_object option \<Rightarrow> bool option" where
  "signalOf h options =
     (case options of
        None \<Rightarrow> None
      | Some ob \<Rightarrow>
          (case (do { v \<leftarrow> get_prop ob (lit ''signal'');
                      case v of
                        JObj a \<Rightarrow>
                          do { aborted \<leftarrow> get_prop (h a) (lit ''aborted'');
                               case aborted of
                                 JBool b \<Rightarrow> do { add \<leftarrow> get_prop (h a) (lit ''addEventListener'');
                                               Some (if is_function add then Some b else None) }
                               | _ \<Rightarrow> Some None }
                      | _ \<Rightarrow> Some None }) of
             None \<Rightarrow> None
           | Some r \<Rightarrow> r))"

definition EDIT_INPUT :: jstr where "EDIT_INPUT = lit ''edit-input''"

definition editsHonoured :: "paused_session \<Rightarrow> bool" where
  "editsHonoured st \<longleftrightarrow>
     ps_editInput st \<and> (case ps_hub st of None \<Rightarrow> False | Some caps \<Rightarrow> EDIT_INPUT \<in> set caps)"

text \<open>Whether the pause is editable, whether it has a validator, and whether to warn.\<close>

definition editabilityOf :: "js_object option \<Rightarrow> paused_session \<Rightarrow> (bool \<times> bool) \<times> bool" where
  "editabilityOf options st =
     (case options of
        None \<Rightarrow> ((False, False), False)
      | Some ob \<Rightarrow>
          if \<not> editsHonoured st then ((False, False), False)
          else case (do { e \<leftarrow> get_prop ob (lit ''editable''); v \<leftarrow> get_prop ob (lit ''validateInput'');
                          Some (e, v) }) of
                 None \<Rightarrow> ((False, False), False)
               | Some (e, v) \<Rightarrow>
                   if e \<noteq> JBool True then ((False, False), False)
                   else if v = JUndef then ((True, False), False)
                   else if \<not> is_function v then ((False, False), True)
                   else ((True, True), False))"

section \<open>What a pause announces\<close>

definition loopOnWire :: "hide_switches \<Rightarrow> loop_info \<Rightarrow> gate_node \<Rightarrow> loop_info" where
  "loopOnWire s loop node =
     (let tool = (gn_kind node = Tool);
          inputHidden = hs_hideInputs s \<or> hs_hideToolArgs s \<and> tool;
          hidden = (if li_kind loop = None then inputHidden
                    else inputHidden \<or> hs_hideOutputs s \<or> hs_hideToolResults s \<and> tool)
      in if hidden then loop\<lparr>li_fingerprint := REDACTED\<rparr> else loop)"

definition smartOnWire :: "hide_switches \<Rightarrow> smart_info \<Rightarrow> gate_node \<Rightarrow> string \<times> jstr option" where
  "smartOnWire s smart node =
     (let tool = (gn_kind node = Tool);
          hidden = hs_hideInputs s \<or> hs_hideOutputs s \<or> tool \<and> (hs_hideToolArgs s \<or> hs_hideToolResults s)
      in (sm_rule smart, if hidden then None else sanitizeShortText (JStr (lit (sm_detail smart)))))"

definition matchedReason :: "pause_point \<Rightarrow> gate_node \<Rightarrow> paused_session \<Rightarrow> pause_reason" where
  "matchedReason point node st =
     (if point = At_error then Rs_error
      else if list_ex (\<lambda>m. matcherMatches m point node) (ge_breakpoints (ps_engine st)) then Rs_breakpoint
      else Rs_step)"

definition pausedPayload ::
  "hide_switches \<Rightarrow> ident \<Rightarrow> gate_node \<Rightarrow> pause_point \<Rightarrow> pending_pause option \<Rightarrow> paused_payload" where
  "pausedPayload s pauseId node point pending =
     (let loop = Option.bind pending pp_loop; smart = Option.bind pending pp_smart
      in \<lparr>py_pauseId = pauseId, py_nodeId = gn_nodeId node, py_point = point,
          py_reason = (if loop \<noteq> None then Some Rs_loop
                       else if smart \<noteq> None then Some Rs_breakpoint
                       else map_option pp_reason pending),
          py_loop = map_option (\<lambda>l. loopOnWire s l node) loop,
          py_smart = (if loop \<noteq> None then None else map_option (\<lambda>x. smartOnWire s x node) smart),
          py_editable = (case pending of None \<Rightarrow> False | Some p \<Rightarrow> pp_editable p),
          py_instanceId = (case gn_instanceId node of Some i \<Rightarrow> if i \<noteq> [] then Some i else None | None \<Rightarrow> None)\<rparr>)"

section \<open>What the engine tells\<close>

text \<open>\<open>onPaused\<close>: \<open>announced\<close> says whether it returned.\<close>

definition onPaused ::
  "ident \<Rightarrow> gate_node \<Rightarrow> pause_point \<Rightarrow> ident \<Rightarrow> pending_pause \<Rightarrow> bool \<Rightarrow> paused_session \<Rightarrow> paused_session" where
  "onPaused pauseId node point runId pending announced st =
     (let st1 = (if pp_editable pending
                 then st\<lparr>ps_editable := AList.update pauseId (pp_validate pending) (ps_editable st)\<rparr> else st);
          st2 = (case pp_unsupported pending of
                   None \<Rightarrow> st1
                 | Some acts \<Rightarrow> st1\<lparr>ps_unsupported := AList.update pauseId acts (ps_unsupported st1)\<rparr>);
          st3 = (if pp_signal pending then st2\<lparr>ps_signals := pauseId # ps_signals st2\<rparr> else st2)
      in if announced
         then say (N_paused (pausedPayload (ps_switches st3) pauseId node point (Some pending)) runId) st3
         else st3)"

definition onResumed ::
  "ident \<Rightarrow> gate_node \<Rightarrow> resume_action \<Rightarrow> ident \<Rightarrow> carried resume_info option \<Rightarrow> paused_session \<Rightarrow> paused_session"
where
  "onResumed pauseId node action runId info st =
     say (N_resumed pauseId action
            (case Option.bind info ri_edited of Some (Copy t) \<Rightarrow> Some t | _ \<Rightarrow> None)
            (Option.bind info ri_requestId) runId (gn_kind node))
       (st\<lparr>ps_editable := AList.delete pauseId (ps_editable st),
           ps_unsupported := AList.delete pauseId (ps_unsupported st),
           ps_signals := removeAll pauseId (ps_signals st)\<rparr>)"

fun told :: "carried gate_effect \<Rightarrow> paused_session \<Rightarrow> paused_session" where
  "told (Eff_paused p node point run) st = st"
| "told (Eff_rejected p) st = say (N_rejected p) st"
| "told (Eff_resumed p node action run held info) st = onResumed p node action run info st"
| "told (Eff_resolved p d) st = say (N_decided p d) st"

text \<open>An engine call: its new state and what it told.\<close>

definition engine_did :: "engine \<Rightarrow> carried gate_effect list \<Rightarrow> paused_session \<Rightarrow> paused_session" where
  "engine_did e effects st = fold told effects (st\<lparr>ps_engine := e\<rparr>)"

section \<open>Opening a gate\<close>

text \<open>
  \<open>consulted\<close>: what the loop guard answers in mode \<open>pause\<close>. \<open>announced\<close>: the event could be emitted and the held time pinned.
\<close>

record gate_call =
  gc_point :: pause_point
  gc_node :: gate_node
  gc_options :: "js_object option"
  gc_runId :: ident
  gc_consulted :: "loop_info option"
  gc_heap :: heap
  gc_now :: "millis option"
  gc_announced :: bool

text \<open>The result of the call, read from the options; None when absent or unreadable.\<close>

definition given_result :: "js_object \<Rightarrow> js option" where
  "given_result ob = do { given \<leftarrow> has_prop ob (lit ''result''); if given then get_prop ob (lit ''result'') else None }"

fun first_hit ::
  "(heap \<Rightarrow> after_context \<Rightarrow> smart_info option) list \<Rightarrow> heap \<Rightarrow> after_context \<Rightarrow> smart_info option" where
  "first_hit [] h cx = None"
| "first_hit (d # ds) h cx = (case d h cx of Some hit \<Rightarrow> Some hit | None \<Rightarrow> first_hit ds h cx)"

definition detect_after ::
  "heap \<Rightarrow> (heap \<Rightarrow> after_context \<Rightarrow> smart_info option) list \<Rightarrow> gate_node \<Rightarrow> js_object \<Rightarrow> smart_info option" where
  "detect_after h detectors node ob =
     (case given_result ob of
        None \<Rightarrow> None
      | Some result \<Rightarrow> first_hit detectors h \<lparr>ac_node = node, ac_result = result\<rparr>)"

definition detectAtError :: "heap \<Rightarrow> gate_node \<Rightarrow> js_object \<Rightarrow> smart_info option" where
  "detectAtError h node ob =
     (case given_result ob of
        None \<Rightarrow> None
      | Some result \<Rightarrow> errorResultAtErrorGate h \<lparr>ac_node = node, ac_result = result\<rparr>)"

definition gate :: "gate_call \<Rightarrow> paused_session \<Rightarrow> paused_session" where
  "gate c st =
     (let point = gc_point c; node = gc_node c; options = gc_options c;
          loop = (if point = Before \<and> ps_attached st then gc_consulted c else None);
          smart = (case options of
                     None \<Rightarrow> None
                   | Some ob \<Rightarrow>
                       if \<not> ps_attached st then None
                       else if point = After \<and> defaultDetectors (ps_smart st) \<noteq> []
                       then detect_after (gc_heap c) (defaultDetectors (ps_smart st)) node ob
                       else if point = At_error \<and> sw_errorResult (ps_smart st)
                       then detectAtError (gc_heap c) node ob
                       else None)
      in if loop = None \<and> smart = None \<and> (\<not> ps_attached st \<or> \<not> shouldPause point node (ps_engine st)) then st
         else if signalOf (gc_heap c) options = Some True then st
         else
           let ((editable, validate), warned) = editabilityOf options st;
               pending =
                 \<lparr>pp_reason = (if loop \<noteq> None then Rs_loop else if smart \<noteq> None then Rs_breakpoint
                                else matchedReason point node st),
                  pp_loop = loop, pp_smart = smart, pp_editable = editable, pp_validate = validate,
                  pp_unsupported = unsupportedOf (gc_heap c) options,
                  pp_signal = (signalOf (gc_heap c) options \<noteq> None)\<rparr>;
               st1 = (if warned then say (N_warned ''edit-input-validator'') st else st);
               pauseId = pause_id (ps_base st1) (Suc (ps_ids st1));
               (e, effects) = hold pauseId point node (gc_runId c) (gc_now c) (gc_announced c) (ps_engine st1);
               st2 = st1\<lparr>ps_ids := Suc (ps_ids st1)\<rparr>;
               st3 = (if gc_now c = None then st2
                      else onPaused pauseId node point (gc_runId c) pending (gc_announced c) st2)
           in engine_did e effects st3)"

section \<open>Refusals\<close>

definition unsupportedActionRefusal :: "resume_action \<Rightarrow> resume_action list \<Rightarrow> edit_refusal" where
  "unsupportedActionRefusal action unsupported =
     (let works = ''continue'' # (if Act_retry \<in> set unsupported then [] else [''retry''])
                    @ (if Act_inject \<in> set unsupported then [] else [''inject'']) @ [''abort''];
          choices = concat (map (\<lambda>w. w @ '', '') (butlast (butlast works))) @ last (butlast works)
                      @ '' or '' @ last works;
          what = (if action = Act_retry then ''cannot run the call again''
                  else ''cannot substitute a value for the call'')
      in refuse Rc_unsupported (''this pause '' @ what @ ''; '' @ choices))"

definition emitRefused :: "held_view \<Rightarrow> edit_refusal \<Rightarrow> ident option \<Rightarrow> paused_session \<Rightarrow> paused_session" where
  "emitRefused hv refusal requestId st =
     say (N_refused (hv_pauseId hv) refusal requestId (hv_runId hv) (gn_kind (hv_node hv))) st"

definition fits :: "resume_action \<Rightarrow> pause_point \<Rightarrow> bool" where
  "fits action point \<longleftrightarrow>
     action = Act_continue \<and> point = Before \<or> action = Act_retry \<and> (point = After \<or> point = At_error)"

definition editRefusal :: "held_view \<Rightarrow> resume_action \<Rightarrow> paused_session \<Rightarrow> edit_refusal option" where
  "editRefusal hv action st =
     (if \<not> ps_editInput st
      then Some (refuse Rc_disabled ''input edits are turned off in this app (GRAPHMIND_DISABLE_EDIT_INPUT)'')
      else if \<not> (case ps_hub st of None \<Rightarrow> False | Some caps \<Rightarrow> EDIT_INPUT \<in> set caps)
      then Some (refuse Rc_disabled ''this debugger has not enabled input edits'')
      else if map_of (ps_editable st) (hv_pauseId hv) = None
      then Some (refuse Rc_unsupported ''this pause cannot run with an edited input'')
      else if \<not> fits action (hv_point hv)
      then Some (refuse Rc_shape
             ''an edited input needs continue at a before gate, or retry at an after or error gate'')
      else None)"

section \<open>Checking an edit\<close>

definition VALIDATION_TIMEOUT_MS :: millis where "VALIDATION_TIMEOUT_MS = 4000"

definition VALIDATION_TIMED_OUT :: validation where
  "VALIDATION_TIMED_OUT = Val_refused (refuse Rc_shape ''the input was not validated within 4 s'')"

definition VALIDATOR_FAILED :: validation where "VALIDATOR_FAILED = MALFORMED"

definition edit_decision :: "resume_action \<Rightarrow> js \<Rightarrow> carried decision" where
  "edit_decision action v = (if action = Act_retry then D_retry (Some (Live v)) else D_continue (Some (Live v)))"

text \<open>\<open>h\<close>, \<open>n\<close>: the heap and the stack while the verdict is applied.\<close>

definition applyVerdict ::
  "heap \<Rightarrow> nat \<Rightarrow> edit_check \<Rightarrow> validation \<Rightarrow> millis option \<Rightarrow> paused_session \<Rightarrow> paused_session" where
  "applyVerdict h n ck verdict now st =
     (let refused = (\<lambda>refusal.
            let (e, effects, reopened) = reopen (ck_ticket ck) now (ps_engine st);
                st1 = engine_did e effects st
            in if reopened then emitRefused (ck_gate ck) refusal (ck_requestId ck) st1 else st1)
      in case verdict of
           Val_ok v \<Rightarrow>
             (case wireCopy h n v of
                Some copy \<Rightarrow>
                  (let info = \<lparr>ri_requestId = ck_requestId ck, ri_edited = Some (Copy copy)\<rparr>;
                       (e, effects, _) = completeValidation (ck_ticket ck) (edit_decision (ck_action ck) v)
                                           (Some info) now (ps_engine st)
                   in engine_did e effects st)
              | None \<Rightarrow> refused (refuse Rc_shape ''the validated input has no JSON form, so it cannot be recorded''))
         | Val_refused r \<Rightarrow> refused r)"

definition outlived :: "edit_check \<Rightarrow> millis option \<Rightarrow> bool" where
  "outlived ck now \<longleftrightarrow>
     (case (ck_startedAt ck, now) of (Some t0, Some t) \<Rightarrow> VALIDATION_TIMEOUT_MS \<le> t - t0 | _ \<Rightarrow> False)"

text \<open>
  The verdict comes: \<open>given\<close> is the value the validator gave, or the verdict that stands for it.
  The clock is read when it comes and when it is applied.
\<close>

definition finish_check ::
  "heap \<Rightarrow> nat \<Rightarrow> edit_check \<Rightarrow> validation \<Rightarrow> millis option \<times> millis option \<Rightarrow> paused_session \<Rightarrow> paused_session"
where
  "finish_check h n ck given clocks st =
     (let verdict = (if outlived ck (fst clocks) then VALIDATION_TIMED_OUT else given)
      in applyVerdict h n ck verdict (snd clocks) st)"

text \<open>What the validator did: threw or gave what cannot be read, a value, a promise.\<close>

datatype check_outcome = Ck_failed | Ck_gave js | Ck_promise

definition outcome_of :: "heap \<Rightarrow> js option \<Rightarrow> check_outcome" where
  "outcome_of h result =
     (case result of
        None \<Rightarrow> Ck_failed
      | Some v \<Rightarrow>
          (case v of
             JObj a \<Rightarrow> (case get_prop (h a) (lit ''then'') of
                          None \<Rightarrow> Ck_failed
                        | Some t \<Rightarrow> if is_function t then Ck_promise else Ck_gave v)
           | _ \<Rightarrow> Ck_gave v))"

section \<open>Resumes\<close>

text \<open>\<open>exec.resume\<close>: \<open>input\<close> is undefined where the request has none.\<close>

record resume_payload =
  rq_pauseId :: ident
  rq_action :: resume_action
  rq_output :: js
  rq_input :: js
  rq_requestId :: "ident option"

text \<open>
  What the handling of a resume reads: the heap, the stack and the text of numbers; what the validator
  does, when it is called, and the heap it leaves; the clock.
\<close>

record edit_env =
  ev_heap :: heap
  ev_stack :: nat
  ev_number :: "rat \<Rightarrow> jstr"
  ev_answer :: "js option"
  ev_heapAfter :: heap
  ev_started :: "millis option"
  ev_clocks :: "millis option \<times> millis option"

definition validateEdit :: "edit_env \<Rightarrow> edit_check \<Rightarrow> paused_session \<Rightarrow> paused_session" where
  "validateEdit env ck st =
     (let h = ev_heapAfter env; n = ev_stack env
      in if map_of (ps_editable st) (hv_pauseId (ck_gate ck)) \<noteq> Some True
         then finish_check (ev_heap env) n ck (Val_ok (ck_input ck)) (ev_clocks env) st
         else
           let st1 = say (N_validate (hv_pauseId (ck_gate ck)) (ck_input ck)
                            (coversPauseInput (ps_switches st) (Some (gn_kind (hv_node (ck_gate ck)))))) st
           in case outcome_of h (ev_answer env) of
                Ck_failed \<Rightarrow> finish_check h n ck VALIDATOR_FAILED (ev_clocks env) st1
              | Ck_gave v \<Rightarrow> finish_check h n ck (normalizeValidation h v) (ev_clocks env) st1
              | Ck_promise \<Rightarrow>
                  st1\<lparr>ps_checks := AList.update (ps_nextCheck st1) ck (ps_checks st1),
                      ps_nextCheck := Suc (ps_nextCheck st1)\<rparr>)"

definition refuse_resume ::
  "held_view \<Rightarrow> edit_refusal \<Rightarrow> ident option \<Rightarrow> string \<Rightarrow> paused_session \<Rightarrow> paused_session" where
  "refuse_resume hv refusal requestId key st =
     (let st1 = emitRefused hv refusal requestId st
      in if ps_hub st1 = None then say (N_warned key) st1 else st1)"

definition check_of ::
  "edit_env \<Rightarrow> resume_payload \<Rightarrow> held_view \<Rightarrow> ticket \<Rightarrow> edit_check" where
  "check_of env rq hv ticket =
     \<lparr>ck_ticket = ticket, ck_gate = hv, ck_action = rq_action rq, ck_input = rq_input rq,
      ck_requestId = rq_requestId rq, ck_startedAt = ev_started env\<rparr>"

text \<open>The edit is refused, or its validation begins. None: the search for pollution does not end.\<close>

definition resume_edited ::
  "edit_env \<Rightarrow> resume_payload \<Rightarrow> held_view \<Rightarrow> paused_session \<Rightarrow> paused_session option" where
  "resume_edited env rq hv st =
     do { refusal \<leftarrow>
            (case editRefusal hv (rq_action rq) st of
               Some r \<Rightarrow> Some (Some r)
             | None \<Rightarrow>
                 case proposedValueRefusal (ev_number env) (ev_heap env) (ev_stack env) (rq_input rq) of
                   Some r \<Rightarrow> Some (Some r)
                 | None \<Rightarrow> prototypeKeyRefusal (ev_heap env) (rq_input rq));
          Some (case refusal of
                  Some r \<Rightarrow> emitRefused hv r (rq_requestId rq) st
                | None \<Rightarrow>
                    (case beginValidation (rq_pauseId rq) (ps_engine st) of
                       (e, None) \<Rightarrow> st
                     | (e, Some ticket) \<Rightarrow>
                         validateEdit env (check_of env rq hv ticket) (st\<lparr>ps_engine := e\<rparr>))) }"

definition resume_plain ::
  "edit_env \<Rightarrow> resume_payload \<Rightarrow> held_view \<Rightarrow> paused_session \<Rightarrow> paused_session" where
  "resume_plain env rq hv st =
     (case (if rq_action rq = Act_inject
            then proposedValueRefusal (ev_number env) (ev_heap env) (ev_stack env) (rq_output rq) else None) of
        Some r \<Rightarrow> refuse_resume hv r (rq_requestId rq) ''inject-refused'' st
      | None \<Rightarrow>
          (let info = map_option (\<lambda>i. \<lparr>ri_requestId = Some i, ri_edited = None\<rparr>) (rq_requestId rq);
               (e, effects, _) = resume (rq_pauseId rq) (rq_action rq) (Live (rq_output rq)) info
                                   (snd (ev_clocks env)) (ps_engine st)
           in engine_did e effects st))"

definition handleResume :: "edit_env \<Rightarrow> resume_payload \<Rightarrow> paused_session \<Rightarrow> paused_session option" where
  "handleResume env rq st =
     (case peek (rq_pauseId rq) (ps_engine st) of
        None \<Rightarrow> Some st
      | Some hv \<Rightarrow>
          if hv_state hv \<noteq> Gs_held then Some st
          else
            let unsupported = map_of (ps_unsupported st) (rq_pauseId rq);
                refused = (unsupported \<noteq> None \<and> rq_action rq \<in> {Act_retry, Act_inject}
                           \<and> rq_action rq \<in> set (the unsupported))
            in if refused
               then Some (refuse_resume hv (unsupportedActionRefusal (rq_action rq) (the unsupported))
                            (rq_requestId rq)
                            (if rq_action rq = Act_retry then ''retry-unsupported'' else ''inject-unsupported'') st)
               else if rq_input rq = JUndef then Some (resume_plain env rq hv st)
               else resume_edited env rq hv st)"

section \<open>The session at work\<close>

text \<open>
  \<open>Pe_settled\<close>: the promise of a validation settles (None: it rejects); \<open>Pe_expired\<close>: its timer fires;
  \<open>Pe_timeout\<close>: a pause timeout; \<open>Pe_signal\<close>: a gate's signal aborts.
\<close>

datatype pause_event =
    Pe_attach "jstr list option" "matcher list" run_mode
  | Pe_detach "ident \<Rightarrow> millis option"
  | Pe_break_set matcher
  | Pe_break_clear matcher
  | Pe_mode run_mode
  | Pe_gate gate_call
  | Pe_resume edit_env resume_payload
  | Pe_settled nat "js option" heap nat "millis option \<times> millis option"
  | Pe_expired nat heap nat "millis option \<times> millis option"
  | Pe_timeout ident "millis option"
  | Pe_signal ident "millis option"
  | Pe_dispose "ident \<Rightarrow> millis option"

definition settled_check ::
  "nat \<Rightarrow> heap \<Rightarrow> nat \<Rightarrow> validation \<Rightarrow> millis option \<times> millis option \<Rightarrow> paused_session \<Rightarrow> paused_session" where
  "settled_check k h n given clocks st =
     (case map_of (ps_checks st) k of
        None \<Rightarrow> st
      | Some ck \<Rightarrow> finish_check h n ck given clocks (st\<lparr>ps_checks := AList.delete k (ps_checks st)\<rparr>))"

definition release_held :: "(ident \<Rightarrow> millis option) \<Rightarrow> paused_session \<Rightarrow> paused_session" where
  "release_held clock st =
     (let (e, effects, _) = releaseAll clock (ps_engine st) in engine_did e effects st)"

definition attached_pauses :: "jstr list option \<Rightarrow> matcher list \<Rightarrow> run_mode \<Rightarrow> paused_session \<Rightarrow> paused_session" where
  "attached_pauses caps bps mode st =
     st\<lparr>ps_attached := True, ps_hub := caps, ps_engine := arm bps mode (ps_engine st)\<rparr>"

definition handleDetached :: "(ident \<Rightarrow> millis option) \<Rightarrow> paused_session \<Rightarrow> paused_session" where
  "handleDetached clock st =
     release_held clock (st\<lparr>ps_attached := False, ps_hub := None, ps_engine := disarm (ps_engine st)\<rparr>)"

definition dispose_pauses :: "(ident \<Rightarrow> millis option) \<Rightarrow> paused_session \<Rightarrow> paused_session" where
  "dispose_pauses clock st =
     (let st1 = release_held clock st in st1\<lparr>ps_engine := disarm (ps_engine st1), ps_attached := False\<rparr>)"

fun pause_step :: "pause_event \<Rightarrow> paused_session \<Rightarrow> paused_session option" where
  "pause_step (Pe_attach caps bps mode) st = Some (attached_pauses caps bps mode st)"
| "pause_step (Pe_detach clock) st = Some (handleDetached clock st)"
| "pause_step (Pe_break_set m) st = Some (st\<lparr>ps_engine := addBreakpoint m (ps_engine st)\<rparr>)"
| "pause_step (Pe_break_clear m) st = Some (st\<lparr>ps_engine := removeBreakpoint m (ps_engine st)\<rparr>)"
| "pause_step (Pe_mode mode) st = Some (st\<lparr>ps_engine := setMode mode (ps_engine st)\<rparr>)"
| "pause_step (Pe_gate c) st = Some (gate c st)"
| "pause_step (Pe_resume env rq) st = handleResume env rq st"
| "pause_step (Pe_settled k result h n clocks) st =
     Some (settled_check k h n
             (case result of None \<Rightarrow> VALIDATOR_FAILED | Some v \<Rightarrow> normalizeValidation h v) clocks st)"
| "pause_step (Pe_expired k h n clocks) st = Some (settled_check k h n VALIDATION_TIMED_OUT clocks st)"
| "pause_step (Pe_timeout p now) st =
     Some (let (e, effects, _) = gate_timeout p now (ps_engine st) in engine_did e effects st)"
| "pause_step (Pe_signal p now) st =
     Some (if p \<in> set (ps_signals st)
           then let (e, effects, _) = release p now (ps_engine st) in engine_did e effects st
           else st)"
| "pause_step (Pe_dispose clock) st = Some (dispose_pauses clock st)"

fun pause_run :: "pause_event list \<Rightarrow> paused_session \<Rightarrow> paused_session option" where
  "pause_run [] st = Some st"
| "pause_run (ev # evs) st = Option.bind (pause_step ev st) (pause_run evs)"

lemma pause_run_snoc: "pause_run (evs @ [ev]) st = Option.bind (pause_run evs st) (pause_step ev)"
proof (induction evs arbitrary: st)
  case Nil
  then show ?case by (cases "pause_step ev st") simp_all
next
  case (Cons e evs)
  then show ?case by (cases "pause_step e st") simp_all
qed

section \<open>What the engine's answers change\<close>

declare map_of_eq_Some_iff [simp del] Some_eq_map_of_iff [simp del]

fun effect_notes :: "carried gate_effect \<Rightarrow> pause_note list" where
  "effect_notes (Eff_paused p node point run) = []"
| "effect_notes (Eff_rejected p) = [N_rejected p]"
| "effect_notes (Eff_resumed p node action run held info) =
     [N_resumed p action (case Option.bind info ri_edited of Some (Copy t) \<Rightarrow> Some t | _ \<Rightarrow> None)
        (Option.bind info ri_requestId) run (gn_kind node)]"
| "effect_notes (Eff_resolved p d) = [N_decided p d]"

text \<open>What an operation leaves alone.\<close>

definition same_setup :: "paused_session \<Rightarrow> paused_session \<Rightarrow> bool" where
  "same_setup st st' \<longleftrightarrow>
     ps_checks st' = ps_checks st \<and> ps_nextCheck st' = ps_nextCheck st \<and> ps_hub st' = ps_hub st
     \<and> ps_editInput st' = ps_editInput st \<and> ps_attached st' = ps_attached st"

lemma told_effect:
  "ps_out (told x st) = ps_out st @ effect_notes x" "same_setup st (told x st)"
  "ps_engine (told x st) = ps_engine st"
  by (cases x; simp add: say_def onResumed_def same_setup_def)+

lemma told_effects:
  "ps_out (fold told l st) = ps_out st @ concat (map effect_notes l)
   \<and> same_setup st (fold told l st) \<and> ps_engine (fold told l st) = ps_engine st"
proof (induction l arbitrary: st)
  case (Cons x l)
  then show ?case using told_effect [where x = x and st = st] by (simp add: same_setup_def)
qed (simp add: same_setup_def)

lemma engine_did_simps [simp]:
  "ps_engine (engine_did e l st) = e"
  "ps_out (engine_did e l st) = ps_out st @ concat (map effect_notes l)"
  "ps_checks (engine_did e l st) = ps_checks st" "ps_nextCheck (engine_did e l st) = ps_nextCheck st"
  "ps_hub (engine_did e l st) = ps_hub st" "ps_editInput (engine_did e l st) = ps_editInput st"
  "ps_attached (engine_did e l st) = ps_attached st"
  using told_effects [of l "st\<lparr>ps_engine := e\<rparr>"] by (simp_all add: engine_did_def same_setup_def)

lemma say_simps [simp]:
  "ps_engine (say n st) = ps_engine st" "ps_out (say n st) = ps_out st @ [n]"
  "ps_checks (say n st) = ps_checks st" "ps_nextCheck (say n st) = ps_nextCheck st"
  "ps_hub (say n st) = ps_hub st" "ps_editInput (say n st) = ps_editInput st"
  "ps_attached (say n st) = ps_attached st" "ps_editable (say n st) = ps_editable st"
  by (simp_all add: say_def)

lemma emitRefused_simps [simp]:
  "ps_engine (emitRefused hv r i st) = ps_engine st"
  "ps_out (emitRefused hv r i st) = ps_out st @ [N_refused (hv_pauseId hv) r i (hv_runId hv) (gn_kind (hv_node hv))]"
  "ps_checks (emitRefused hv r i st) = ps_checks st" "ps_nextCheck (emitRefused hv r i st) = ps_nextCheck st"
  "ps_hub (emitRefused hv r i st) = ps_hub st"
  by (simp_all add: emitRefused_def)

text \<open>The input a decision makes the adapter run with.\<close>

fun edited_input :: "carried decision \<Rightarrow> carried option" where
  "edited_input (D_continue i) = i"
| "edited_input (D_retry i) = i"
| "edited_input _ = None"

definition unedited :: "pause_note list \<Rightarrow> bool" where
  "unedited new \<longleftrightarrow> (\<forall>p d. N_decided p d \<in> set new \<longrightarrow> edited_input d = None)"

lemma unedited_simps [simp]:
  "unedited []" "unedited (xs @ ys) \<longleftrightarrow> unedited xs \<and> unedited ys"
  "unedited (x # xs) \<longleftrightarrow> (case x of N_decided p d \<Rightarrow> edited_input d = None | _ \<Rightarrow> True) \<and> unedited xs"
  by (auto simp: unedited_def split: pause_note.splits)

text \<open>Operations that only release gates.\<close>

definition releases :: "engine \<Rightarrow> engine \<Rightarrow> carried gate_effect list \<Rightarrow> bool" where
  "releases e e' l \<longleftrightarrow>
     (\<forall>q g. map_of (ge_held e') q = Some g \<longrightarrow> map_of (ge_held e) q = Some g)
     \<and> unedited (concat (map effect_notes l))"

lemma releases_refl: "releases e e []"
  by (simp add: releases_def)

lemma releases_trans: "releases e e1 l1 \<Longrightarrow> releases e1 e2 l2 \<Longrightarrow> releases e e2 (l1 @ l2)"
  by (auto simp: releases_def)

lemma settle_releases: "\<lbrakk>settle p d a i now e = (e', l, b); edited_input d = None\<rbrakk> \<Longrightarrow> releases e e' l"
  by (auto simp: settle_def releases_def Let_def split: option.splits if_splits)

lemma gate_timeout_releases: "gate_timeout p now e = (e', l, b) \<Longrightarrow> releases e e' l"
  by (auto simp: gate_timeout_def intro: settle_releases releases_refl split: option.splits if_splits)

lemma resume_releases: "resume p a v i now e = (e', l, b) \<Longrightarrow> releases e e' l"
  by (auto simp: resume_def Let_def intro: settle_releases releases_refl split: if_splits resume_action.splits)

lemma release_each_releases: "release_each ps now e = (e', l) \<Longrightarrow> releases e e' l"
proof (induction ps arbitrary: e e' l)
  case (Cons p ps)
  obtain e1 b and l1 :: "carried gate_effect list"
    where s: "settle p CONTINUE_DECISION Act_continue None (now p) e = (e1, l1, b)" by (metis prod_cases3)
  obtain e2 and l2 :: "carried gate_effect list" where r: "release_each ps now e1 = (e2, l2)" by fastforce
  have "releases e e1 l1" by (rule settle_releases [OF s]) simp
  then show ?case using releases_trans Cons.IH [OF r] Cons.prems s r by fastforce
qed (simp add: releases_refl)

lemma releaseAll_releases: "releaseAll now e = (e', l, n) \<Longrightarrow> releases e e' l"
  by (auto simp: releaseAll_def intro: release_each_releases split: prod.splits)

section \<open>A verdict is applied\<close>

text \<open>
  What an accepted edit leaves: the value the call runs with is the validated one, and
  \<open>exec.resumed\<close> records its wire copy.
\<close>

definition edit_applied :: "edit_check \<Rightarrow> js \<Rightarrow> ident \<Rightarrow> carried decision \<Rightarrow> pause_note list \<Rightarrow> bool" where
  "edit_applied ck v p d notes \<longleftrightarrow>
     p = fst (ck_ticket ck) \<and> d = edit_decision (ck_action ck) v
     \<and> (\<exists>h n copy run kind. wireCopy h n v = Some copy
          \<and> N_resumed p (decision_action d) (Some copy) (ck_requestId ck) run kind \<in> set notes)"

lemma edited_edit_decision [simp]: "edited_input (edit_decision a v) = Some (Live v)"
  by (simp add: edit_decision_def)

lemma settle_notes:
  assumes "settle p d a info now e = (e', l, b)"
  shows "b = (map_of (ge_held e) p \<noteq> None)"
    and "\<And>q d'. N_decided q d' \<in> set (concat (map effect_notes l)) \<Longrightarrow> q = p \<and> d' = d"
    and "b \<Longrightarrow> \<exists>run kind. N_resumed p a (case Option.bind info ri_edited of Some (Copy t) \<Rightarrow> Some t | _ \<Rightarrow> None)
           (Option.bind info ri_requestId) run kind \<in> set (concat (map effect_notes l))"
    and "\<not> b \<Longrightarrow> l = [] \<and> e' = e" and "b \<Longrightarrow> ge_held e' = AList.delete p (ge_held e)"
    and "ge_pauseTimeoutMs e' = ge_pauseTimeoutMs e" "ge_tickets e' = ge_tickets e"
  using assms by (auto simp: settle_def Let_def split: option.splits if_splits)

lemma completeValidation_notes:
  assumes "completeValidation (ck_ticket ck) (edit_decision (ck_action ck) v)
             (Some \<lparr>ri_requestId = ck_requestId ck, ri_edited = Some (Copy copy)\<rparr>) now e = (e', l, b)"
    and "wireCopy h n v = Some copy"
    and "N_decided p d \<in> set (concat (map effect_notes l))" "edited_input d \<noteq> None"
  shows "edit_applied ck v p d (concat (map effect_notes l))"
  using assms(1)
proof (cases rule: completeValidation_cases)
  case stale
  then show ?thesis using assms(3) by simp
next
  case (late g)
  then show ?thesis using settle_notes(2) [OF late(5) assms(3)] assms(4) by simp
next
  case (in_time g)
  have d: "p = fst (ck_ticket ck)" "d = edit_decision (ck_action ck) v"
    using settle_notes(2) [OF in_time(5) assms(3)] by simp_all
  moreover obtain run kind where "N_resumed (fst (ck_ticket ck)) (decision_action (edit_decision (ck_action ck) v))
      (Some copy) (ck_requestId ck) run kind \<in> set (concat (map effect_notes l))"
    using settle_notes(3) [OF in_time(5)] by auto
  ultimately show ?thesis using assms(2) unfolding edit_applied_def by blast
qed

lemma reopen_unedited:
  assumes "reopen t now e = (e', l, b)"
  shows "unedited (concat (map effect_notes l))"
  using assms
proof (cases rule: reopen_cases)
  case (late g)
  then show ?thesis using settle_releases [OF late(5)] by (simp add: releases_def)
qed simp_all

text \<open>The two ways a verdict ends.\<close>

lemma applyVerdict_cases:
  obtains (complete) v copy e l b where "verdict = Val_ok v" "wireCopy h n v = Some copy"
      "completeValidation (ck_ticket ck) (edit_decision (ck_action ck) v)
         (Some \<lparr>ri_requestId = ck_requestId ck, ri_edited = Some (Copy copy)\<rparr>) now (ps_engine st) = (e, l, b)"
      "applyVerdict h n ck verdict now st = engine_did e l st"
    | (refuse) r e l b where "reopen (ck_ticket ck) now (ps_engine st) = (e, l, b)"
      "applyVerdict h n ck verdict now st
         = (if b then emitRefused (ck_gate ck) r (ck_requestId ck) (engine_did e l st) else engine_did e l st)"
      "\<And>r'. verdict = Val_refused r' \<Longrightarrow> r = r'"
proof -
  obtain e b and l :: "carried gate_effect list"
    where r: "reopen (ck_ticket ck) now (ps_engine st) = (e, l, b)" by (metis prod_cases3)
  show ?thesis
  proof (cases verdict)
    case (Val_refused rf)
    show ?thesis by (rule refuse [OF r, of rf]) (simp_all add: applyVerdict_def Val_refused r Let_def)
  next
    case (Val_ok v)
    show ?thesis
    proof (cases "wireCopy h n v")
      case None
      show ?thesis
        by (rule refuse [OF r, of "Edit_Input.refuse Rc_shape ''the validated input has no JSON form, so it cannot be recorded''"])
          (simp_all add: applyVerdict_def Val_ok None r Let_def)
    next
      case (Some copy)
      obtain e' l' b' where c: "completeValidation (ck_ticket ck) (edit_decision (ck_action ck) v)
         (Some \<lparr>ri_requestId = ck_requestId ck, ri_edited = Some (Copy copy)\<rparr>) now (ps_engine st) = (e', l', b')"
        by (metis prod_cases3)
      show ?thesis by (rule complete [OF Val_ok Some c]) (simp add: applyVerdict_def Val_ok Some c Let_def)
    qed
  qed
qed

lemma applyVerdict_frame:
  "ps_checks (applyVerdict h n ck verdict now st) = ps_checks st"
  "ps_nextCheck (applyVerdict h n ck verdict now st) = ps_nextCheck st"
  "ps_hub (applyVerdict h n ck verdict now st) = ps_hub st"
  by (rule applyVerdict_cases [of verdict h n ck now st]; simp)+

lemma applyVerdict_notes:
  "\<exists>new. ps_out (applyVerdict h n ck verdict now st) = ps_out st @ new
     \<and> (\<forall>p d. N_decided p d \<in> set new \<longrightarrow> edited_input d \<noteq> None \<longrightarrow>
          (\<exists>v. verdict = Val_ok v \<and> edit_applied ck v p d new))"
proof (rule applyVerdict_cases [of verdict h n ck now st])
  fix v copy e l b
  assume v: "verdict = Val_ok v" "wireCopy h n v = Some copy"
    and c: "completeValidation (ck_ticket ck) (edit_decision (ck_action ck) v)
         (Some \<lparr>ri_requestId = ck_requestId ck, ri_edited = Some (Copy copy)\<rparr>) now (ps_engine st) = (e, l, b)"
    and a: "applyVerdict h n ck verdict now st = engine_did e l st"
  show ?thesis
    by (rule exI [of _ "concat (map effect_notes l)"])
      (use a v completeValidation_notes [OF c v(2)] in simp)
next
  fix r e l b
  assume r: "reopen (ck_ticket ck) now (ps_engine st) = (e, l, b)"
    and a: "applyVerdict h n ck verdict now st
         = (if b then emitRefused (ck_gate ck) r (ck_requestId ck) (engine_did e l st) else engine_did e l st)"
  have "unedited (concat (map effect_notes l))" by (rule reopen_unedited [OF r])
  then show ?thesis unfolding a by (auto simp: unedited_def)
qed

lemma finish_check_notes:
  "\<exists>new. ps_out (finish_check h n ck given clocks st) = ps_out st @ new
     \<and> (\<forall>p d. N_decided p d \<in> set new \<longrightarrow> edited_input d \<noteq> None \<longrightarrow>
          (\<exists>v. given = Val_ok v \<and> edit_applied ck v p d new))"
proof -
  let ?verdict = "if outlived ck (fst clocks) then VALIDATION_TIMED_OUT else given"
  obtain new where new: "ps_out (applyVerdict h n ck ?verdict (snd clocks) st) = ps_out st @ new"
    "\<forall>p d. N_decided p d \<in> set new \<longrightarrow> edited_input d \<noteq> None \<longrightarrow>
          (\<exists>v. ?verdict = Val_ok v \<and> edit_applied ck v p d new)"
    using applyVerdict_notes [of h n ck ?verdict "snd clocks" st] by blast
  have "given = Val_ok v" if "?verdict = Val_ok v" for v
    using that by (simp add: VALIDATION_TIMED_OUT_def split: if_splits)
  then show ?thesis using new unfolding finish_check_def Let_def by blast
qed

lemma finish_check_frame:
  "ps_checks (finish_check h n ck given clocks st) = ps_checks st"
  "ps_nextCheck (finish_check h n ck given clocks st) = ps_nextCheck st"
  "ps_hub (finish_check h n ck given clocks st) = ps_hub st"
  by (simp_all add: finish_check_def Let_def applyVerdict_frame)

section \<open>An edited input runs only with every condition met\<close>

text \<open>Conditions 1 to 5 of \<open>handleResume\<close>, in the state and on the heap of the request.\<close>

definition edit_permitted :: "edit_env \<Rightarrow> resume_payload \<Rightarrow> held_view \<Rightarrow> paused_session \<Rightarrow> bool" where
  "edit_permitted env rq hv st \<longleftrightarrow>
     peek (rq_pauseId rq) (ps_engine st) = Some hv \<and> hv_state hv = Gs_held
     \<and> ps_editInput st \<and> (\<exists>caps. ps_hub st = Some caps \<and> EDIT_INPUT \<in> set caps)
     \<and> map_of (ps_editable st) (rq_pauseId rq) \<noteq> None
     \<and> fits (rq_action rq) (hv_point hv)
     \<and> rq_input rq \<noteq> JUndef
     \<and> proposedValueRefusal (ev_number env) (ev_heap env) (ev_stack env) (rq_input rq) = None
     \<and> prototypeKeyRefusal (ev_heap env) (rq_input rq) = Some None"

text \<open>The run of \<open>evs\<close> from \<open>s0\<close> came to \<open>st\<close>, took the permitted request, and went on with \<open>later\<close>.\<close>

definition edit_from ::
  "pause_event list \<Rightarrow> paused_session \<Rightarrow> edit_env \<Rightarrow> resume_payload \<Rightarrow> held_view \<Rightarrow> paused_session
   \<Rightarrow> pause_event list \<Rightarrow> bool" where
  "edit_from evs s0 env rq hv st later \<longleftrightarrow>
     (\<exists>earlier. evs = earlier @ Pe_resume env rq # later \<and> pause_run earlier s0 = Some st)
     \<and> edit_permitted env rq hv st"

text \<open>
  Condition 6: without a validator the value is the proposed one; with one, the validator was called
  with the proposed input and told whether the input is hidden, and it, or the promise it gave,
  answered with this value.
\<close>

definition validator_asked :: "resume_payload \<Rightarrow> held_view \<Rightarrow> paused_session \<Rightarrow> pause_note list \<Rightarrow> bool" where
  "validator_asked rq hv st notes \<longleftrightarrow>
     N_validate (rq_pauseId rq) (rq_input rq) (coversPauseInput (ps_switches st) (Some (gn_kind (hv_node hv)))) \<in> set notes"

definition validated ::
  "edit_env \<Rightarrow> resume_payload \<Rightarrow> held_view \<Rightarrow> paused_session \<Rightarrow> pause_event list \<Rightarrow> pause_note list \<Rightarrow> js \<Rightarrow> bool"
where
  "validated env rq hv st later notes v \<longleftrightarrow>
     (if map_of (ps_editable st) (rq_pauseId rq) \<noteq> Some True then v = rq_input rq
      else validator_asked rq hv st notes
           \<and> ((\<exists>w. ev_answer env = Some w \<and> normalizeValidation (ev_heapAfter env) w = Val_ok v)
              \<or> (\<exists>w h n clocks. Pe_settled (ps_nextCheck st) (Some w) h n clocks \<in> set later
                   \<and> normalizeValidation h w = Val_ok v)))"

definition justified ::
  "pause_event list \<Rightarrow> paused_session \<Rightarrow> pause_note list \<Rightarrow> ident \<Rightarrow> carried decision \<Rightarrow> bool" where
  "justified evs s0 notes p d \<longleftrightarrow>
     (\<exists>env rq hv st later v. edit_from evs s0 env rq hv st later \<and> rq_pauseId rq = p
        \<and> validated env rq hv st later notes v \<and> d = edit_decision (rq_action rq) v
        \<and> (\<exists>h n copy run kind. wireCopy h n v = Some copy
             \<and> N_resumed p (rq_action rq) (Some copy) (rq_requestId rq) run kind \<in> set notes))"

definition check_from ::
  "pause_event list \<Rightarrow> paused_session \<Rightarrow> pause_note list \<Rightarrow> nat \<Rightarrow> edit_check \<Rightarrow> bool" where
  "check_from evs s0 notes k ck \<longleftrightarrow>
     (\<exists>env rq hv st later t. edit_from evs s0 env rq hv st later \<and> ck = check_of env rq hv t
        \<and> fst t = rq_pauseId rq \<and> ps_nextCheck st = k
        \<and> map_of (ps_editable st) (rq_pauseId rq) = Some True \<and> validator_asked rq hv st notes)"

definition edits_ok :: "pause_event list \<Rightarrow> paused_session \<Rightarrow> paused_session \<Rightarrow> bool" where
  "edits_ok evs s0 st \<longleftrightarrow>
     (\<forall>k ck. map_of (ps_checks st) k = Some ck \<longrightarrow> check_from evs s0 (ps_out st) k ck)
     \<and> (\<forall>p d. N_decided p d \<in> set (ps_out st) \<longrightarrow> edited_input d \<noteq> None \<longrightarrow> justified evs s0 (ps_out st) p d)"

lemma edit_from_grows: "edit_from evs s0 env rq hv st later \<Longrightarrow> edit_from (evs @ [ev]) s0 env rq hv st (later @ [ev])"
  by (auto simp: edit_from_def)

lemma validated_grows:
  "\<lbrakk>validated env rq hv st later notes v; set notes \<subseteq> set notes'; set later \<subseteq> set later'\<rbrakk>
   \<Longrightarrow> validated env rq hv st later' notes' v"
  unfolding validated_def validator_asked_def by (cases "map_of (ps_editable st) (rq_pauseId rq) = Some True"; simp; metis subsetD)

lemma justified_grows:
  assumes "justified evs s0 notes p d" "set notes \<subseteq> set notes'"
  shows "justified (evs @ [ev]) s0 notes' p d"
proof -
  obtain env rq hv st later v h n copy run kind where
    "edit_from evs s0 env rq hv st later" "rq_pauseId rq = p" "validated env rq hv st later notes v"
    "d = edit_decision (rq_action rq) v" "wireCopy h n v = Some copy"
    "N_resumed p (rq_action rq) (Some copy) (rq_requestId rq) run kind \<in> set notes"
    using assms(1) unfolding justified_def by (elim exE conjE) (rule that)
  moreover have "validated env rq hv st (later @ [ev]) notes' v"
    by (rule validated_grows [OF calculation(3) assms(2)]) auto
  moreover have "edit_from (evs @ [ev]) s0 env rq hv st (later @ [ev])"
    by (rule edit_from_grows) fact
  ultimately show ?thesis using assms(2) unfolding justified_def by blast
qed

lemma check_from_grows:
  assumes "check_from evs s0 notes k ck" "set notes \<subseteq> set notes'"
  shows "check_from (evs @ [ev]) s0 notes' k ck"
proof -
  obtain env rq hv st later t where c: "edit_from evs s0 env rq hv st later" "ck = check_of env rq hv t"
      "fst t = rq_pauseId rq" "ps_nextCheck st = k" "map_of (ps_editable st) (rq_pauseId rq) = Some True"
      "validator_asked rq hv st notes"
    using assms(1) unfolding check_from_def by (elim exE conjE) (rule that)
  have "validator_asked rq hv st notes'" using c(6) assms(2) by (auto simp: validator_asked_def)
  then show ?thesis using edit_from_grows [OF c(1)] c(2-5) unfolding check_from_def by blast
qed

text \<open>A step that runs no edit, and leaves the waiting validations alone.\<close>

lemma plain_step_edits:
  assumes "edits_ok evs s0 st" "ps_out st' = ps_out st @ new" "unedited new" "ps_checks st' = ps_checks st"
  shows "edits_ok (evs @ [ev]) s0 st'"
  using assms check_from_grows [of evs s0 "ps_out st" _ _ "ps_out st'" ev]
    justified_grows [of evs s0 "ps_out st" _ _ "ps_out st'" ev]
  unfolding edits_ok_def unedited_def by (metis Un_iff option.distinct(1) set_append subsetI)

lemma edit_decision_action: "fits a pt \<Longrightarrow> decision_action (edit_decision a v) = a"
  by (auto simp: fits_def edit_decision_def)

text \<open>A verdict on a check of a permitted request.\<close>

lemma verdict_edits:
  assumes ok: "edits_ok evs s0 st"
    and f: "edit_from (evs @ [ev]) s0 env rq hv st1 later" and t: "fst t = rq_pauseId rq"
    and before: "ps_out sta = ps_out st @ asked" "unedited asked" "ps_checks sta = ps_checks st'"
    and less: "\<And>k ck. map_of (ps_checks st') k = Some ck \<Longrightarrow> map_of (ps_checks st) k = Some ck"
    and st': "st' = finish_check h n (check_of env rq hv t) given clocks sta"
    and v: "\<And>v. given = Val_ok v \<Longrightarrow> validated env rq hv st1 later (ps_out st @ asked) v"
  shows "edits_ok (evs @ [ev]) s0 st'"
proof -
  obtain new where out: "ps_out st' = ps_out sta @ new"
    and edits: "\<forall>p d. N_decided p d \<in> set new \<longrightarrow> edited_input d \<noteq> None \<longrightarrow>
          (\<exists>v. given = Val_ok v \<and> edit_applied (check_of env rq hv t) v p d new)"
    unfolding st' using finish_check_notes by blast
  have grow: "set (ps_out st) \<subseteq> set (ps_out st')" using out before(1) by auto
  have "justified (evs @ [ev]) s0 (ps_out st') p d"
    if d: "N_decided p d \<in> set (ps_out st')" "edited_input d \<noteq> None" for p d
  proof -
    consider (old) "N_decided p d \<in> set (ps_out st)" | (new) "N_decided p d \<in> set new"
      using d out before by (auto simp: unedited_def)
    then show ?thesis
    proof cases
      case old
      then show ?thesis using ok d(2) justified_grows [OF _ grow] unfolding edits_ok_def by blast
    next
      case new
      then obtain v where given: "given = Val_ok v" and a: "edit_applied (check_of env rq hv t) v p d new"
        using edits d(2) by blast
      have valid: "validated env rq hv st1 later (ps_out st') v"
        by (rule validated_grows [OF v [OF given]]) (use out before(1) in auto)
      have "fits (rq_action rq) (hv_point hv)" using f by (simp add: edit_from_def edit_permitted_def)
      then have act: "decision_action (edit_decision (rq_action rq) v) = rq_action rq" by (rule edit_decision_action)
      have p: "p = rq_pauseId rq" "d = edit_decision (rq_action rq) v"
        using a t by (simp_all add: edit_applied_def check_of_def)
      from a obtain h' n' copy run kind where w: "wireCopy h' n' v = Some copy"
        and r: "N_resumed p (decision_action d) (Some copy) (ck_requestId (check_of env rq hv t)) run kind \<in> set new"
        unfolding edit_applied_def by blast
      have "N_resumed p (rq_action rq) (Some copy) (rq_requestId rq) run kind \<in> set (ps_out st')"
        using r act p(2) out by (simp add: check_of_def)
      then show ?thesis using f valid p w unfolding justified_def by blast
    qed
  qed
  moreover have "check_from (evs @ [ev]) s0 (ps_out st') k ck" if "map_of (ps_checks st') k = Some ck" for k ck
    using check_from_grows [OF _ grow] less [OF that] ok unfolding edits_ok_def by blast
  ultimately show ?thesis unfolding edits_ok_def by blast
qed

text \<open>The other operations run no edit.\<close>

definition quiet_step :: "paused_session \<Rightarrow> paused_session \<Rightarrow> bool" where
  "quiet_step st st' \<longleftrightarrow> (\<exists>new. ps_out st' = ps_out st @ new \<and> unedited new) \<and> ps_checks st' = ps_checks st"

lemma quiet_step_edits: "edits_ok evs s0 st \<Longrightarrow> quiet_step st st' \<Longrightarrow> edits_ok (evs @ [ev]) s0 st'"
  using plain_step_edits unfolding quiet_step_def by blast

lemma quiet_step_refl: "quiet_step st st"
  by (simp add: quiet_step_def)

lemma quiet_released: "releases e e' l \<Longrightarrow> quiet_step st (engine_did e' l st)"
  by (auto simp: quiet_step_def releases_def)

lemma quiet_frame: "quiet_step st1 st' \<Longrightarrow> ps_out st1 = ps_out st \<Longrightarrow> ps_checks st1 = ps_checks st \<Longrightarrow> quiet_step st st'"
  by (simp add: quiet_step_def)

lemma release_held_quiet: "quiet_step st (release_held clock st)"
proof -
  obtain e n and l :: "carried gate_effect list"
    where r: "releaseAll clock (ps_engine st) = (e, l, n)" by (metis prod_cases3)
  show ?thesis using quiet_released [OF releaseAll_releases [OF r]] by (simp add: release_held_def r)
qed

lemma hold_unedited: "hold p pt node run now a e = (e', l) \<Longrightarrow> unedited (concat (map effect_notes l))"
  by (auto simp: hold_def Let_def split: option.splits if_splits)

lemma onPaused_simps:
  "ps_checks (onPaused p node pt run pending a st) = ps_checks st"
  "ps_nextCheck (onPaused p node pt run pending a st) = ps_nextCheck st"
  "\<exists>new. ps_out (onPaused p node pt run pending a st) = ps_out st @ new \<and> unedited new"
  by (simp_all add: onPaused_def Let_def say_def split: option.split)

text \<open>Opening a gate: it stays shut, or the engine holds and the pause is announced.\<close>

lemma gate_cases:
  obtains (passes) "gate c st = st"
    | (holds) st1 e l where
      "hold (pause_id (ps_base st) (Suc (ps_ids st))) (gc_point c) (gc_node c) (gc_runId c) (gc_now c)
         (gc_announced c) (ps_engine st) = (e, l)"
      "\<exists>new. ps_out st1 = ps_out st @ new \<and> unedited new" "ps_checks st1 = ps_checks st"
      "ps_nextCheck st1 = ps_nextCheck st" "gate c st = engine_did e l st1"
proof (cases "gate c st = st")
  case True
  then show ?thesis by (rule passes)
next
  case False
  obtain a b warned where ed: "editabilityOf (gc_options c) st = ((a, b), warned)" by (metis surj_pair)
  let ?p = "pause_id (ps_base st) (Suc (ps_ids st))"
  obtain e and l :: "carried gate_effect list"
    where h: "hold ?p (gc_point c) (gc_node c) (gc_runId c) (gc_now c) (gc_announced c) (ps_engine st) = (e, l)"
    by (metis surj_pair)
  let ?st1 = "if warned then say (N_warned ''edit-input-validator'') st else st"
  have ids: "ps_base ?st1 = ps_base st" "ps_ids ?st1 = ps_ids st" "ps_engine ?st1 = ps_engine st"
    "ps_checks ?st1 = ps_checks st" "ps_nextCheck ?st1 = ps_nextCheck st"
    by (simp_all add: say_def)
  have out: "\<exists>new. ps_out ?st1 = ps_out st @ new \<and> unedited new" by simp
  obtain pending where eq: "gate c st = engine_did e l
      (if gc_now c = None then ?st1\<lparr>ps_ids := Suc (ps_ids ?st1)\<rparr>
       else onPaused ?p (gc_node c) (gc_point c) (gc_runId c) pending (gc_announced c)
              (?st1\<lparr>ps_ids := Suc (ps_ids ?st1)\<rparr>))"
    using False unfolding gate_def Let_def ed prod.case ids h by (auto split: if_splits)
  show ?thesis
  proof (rule holds [OF h _ _ _ eq])
    show "\<exists>new. ps_out (if gc_now c = None then ?st1\<lparr>ps_ids := Suc (ps_ids ?st1)\<rparr>
       else onPaused ?p (gc_node c) (gc_point c) (gc_runId c) pending (gc_announced c)
              (?st1\<lparr>ps_ids := Suc (ps_ids ?st1)\<rparr>)) = ps_out st @ new \<and> unedited new"
      using out onPaused_simps(3) [of ?p "gc_node c" "gc_point c" "gc_runId c" pending "gc_announced c"
          "?st1\<lparr>ps_ids := Suc (ps_ids ?st1)\<rparr>"]
      by (auto split: if_splits)
  qed (use ids in \<open>simp_all add: onPaused_simps\<close>)
qed

lemma gate_quiet: "quiet_step st (gate c st)"
proof (cases rule: gate_cases [of c st])
  case passes
  then show ?thesis by (simp add: quiet_step_refl)
next
  case (holds st1 e l)
  then show ?thesis using hold_unedited [OF holds(1)] by (auto simp: quiet_step_def)
qed

lemma refuse_resume_quiet: "quiet_step st (refuse_resume hv r i key st)"
  by (simp add: refuse_resume_def Let_def quiet_step_def)

lemma resume_plain_quiet: "quiet_step st (resume_plain env rq hv st)"
proof -
  let ?info = "map_option (\<lambda>i. \<lparr>ri_requestId = Some i, ri_edited = None\<rparr>) (rq_requestId rq)"
  obtain e b and l :: "carried gate_effect list" where r: "resume (rq_pauseId rq) (rq_action rq) (Live (rq_output rq))
      ?info (snd (ev_clocks env)) (ps_engine st) = (e, l, b)" by (metis prod_cases3)
  have "quiet_step st (engine_did e l st)" by (rule quiet_released [OF resume_releases [OF r]])
  then show ?thesis
    unfolding resume_plain_def r Let_def prod.case by (simp add: refuse_resume_quiet split: option.split)
qed

lemma resume_edited_cases:
  assumes "resume_edited env rq hv st = Some st'"
  obtains (refused) r where "st' = emitRefused hv r (rq_requestId rq) st"
    | (stale) "beginValidation (rq_pauseId rq) (ps_engine st) = (ps_engine st, None)" "st' = st"
    | (checked) e ticket where "editRefusal hv (rq_action rq) st = None"
      "proposedValueRefusal (ev_number env) (ev_heap env) (ev_stack env) (rq_input rq) = None"
      "prototypeKeyRefusal (ev_heap env) (rq_input rq) = Some None"
      "beginValidation (rq_pauseId rq) (ps_engine st) = (e, Some ticket)"
      "st' = validateEdit env (check_of env rq hv ticket) (st\<lparr>ps_engine := e\<rparr>)"
proof -
  let ?content = "case proposedValueRefusal (ev_number env) (ev_heap env) (ev_stack env) (rq_input rq) of
      Some r \<Rightarrow> Some (Some r) | None \<Rightarrow> prototypeKeyRefusal (ev_heap env) (rq_input rq)"
  let ?all = "case editRefusal hv (rq_action rq) st of Some r \<Rightarrow> Some (Some r) | None \<Rightarrow> ?content"
  obtain refusal where r: "?all = Some refusal"
    using assms unfolding resume_edited_def by (cases ?all) simp_all
  note eq = assms [unfolded resume_edited_def r bind.bind_lunit option.inject]
  show ?thesis
  proof (cases refusal)
    case (Some rf)
    then show ?thesis using eq by (intro refused [of rf]) simp
  next
    case None
    have clean: "editRefusal hv (rq_action rq) st = None"
      "proposedValueRefusal (ev_number env) (ev_heap env) (ev_stack env) (rq_input rq) = None"
      "prototypeKeyRefusal (ev_heap env) (rq_input rq) = Some None"
      using r None by (auto split: option.splits)
    obtain e t where b: "beginValidation (rq_pauseId rq) (ps_engine st) = (e, t)" by (metis surj_pair)
    show ?thesis
    proof (cases t)
      case None2: None
      then have "e = ps_engine st" using b by (auto simp: beginValidation_def Let_def split: option.splits if_splits)
      then show ?thesis using eq None b None2 by (intro stale) simp_all
    next
      case (Some ticket)
      then show ?thesis using eq None b clean by (intro checked [of e ticket]) simp_all
    qed
  qed
qed

lemma beginValidation_ticket: "beginValidation p e = (e', Some t) \<Longrightarrow> fst t = p"
  by (auto simp: beginValidation_def Let_def split: option.splits if_splits)

lemma editRefusal_None:
  "editRefusal hv a st = None \<longleftrightarrow>
     ps_editInput st \<and> (\<exists>caps. ps_hub st = Some caps \<and> EDIT_INPUT \<in> set caps)
     \<and> map_of (ps_editable st) (hv_pauseId hv) \<noteq> None \<and> fits a (hv_point hv)"
  by (auto simp: editRefusal_def split: option.splits)

lemma peek_id: "peek p e = Some hv \<Longrightarrow> hv_pauseId hv = p"
  by (auto simp: peek_def split: option.splits)

text \<open>The ways a validation goes on.\<close>

lemma validateEdit_cases:
  obtains (none) "map_of (ps_editable st) (hv_pauseId (ck_gate ck)) \<noteq> Some True"
      "validateEdit env ck st = finish_check (ev_heap env) (ev_stack env) ck (Val_ok (ck_input ck)) (ev_clocks env) st"
    | (answered) st1 given where "map_of (ps_editable st) (hv_pauseId (ck_gate ck)) = Some True"
      "st1 = say (N_validate (hv_pauseId (ck_gate ck)) (ck_input ck)
                    (coversPauseInput (ps_switches st) (Some (gn_kind (hv_node (ck_gate ck)))))) st"
      "validateEdit env ck st = finish_check (ev_heapAfter env) (ev_stack env) ck given (ev_clocks env) st1"
      "\<And>v. given = Val_ok v \<Longrightarrow> \<exists>w. ev_answer env = Some w \<and> normalizeValidation (ev_heapAfter env) w = Val_ok v"
    | (promised) st1 where "map_of (ps_editable st) (hv_pauseId (ck_gate ck)) = Some True"
      "st1 = say (N_validate (hv_pauseId (ck_gate ck)) (ck_input ck)
                    (coversPauseInput (ps_switches st) (Some (gn_kind (hv_node (ck_gate ck)))))) st"
      "validateEdit env ck st = st1\<lparr>ps_checks := AList.update (ps_nextCheck st) ck (ps_checks st),
                                   ps_nextCheck := Suc (ps_nextCheck st)\<rparr>"
proof -
  let ?st1 = "say (N_validate (hv_pauseId (ck_gate ck)) (ck_input ck)
                    (coversPauseInput (ps_switches st) (Some (gn_kind (hv_node (ck_gate ck)))))) st"
  show ?thesis
  proof (cases "map_of (ps_editable st) (hv_pauseId (ck_gate ck)) = Some True")
    case False
    then show ?thesis by (intro none) (simp_all add: validateEdit_def Let_def)
  next
    case True
    show ?thesis
    proof (cases "outcome_of (ev_heapAfter env) (ev_answer env)")
      case Ck_failed
      show ?thesis
        by (rule answered [OF True refl, of VALIDATOR_FAILED])
          (simp_all add: validateEdit_def True Ck_failed Let_def VALIDATOR_FAILED_def MALFORMED_def)
    next
      case (Ck_gave w)
      have ans: "ev_answer env = Some w"
        using Ck_gave by (auto simp: outcome_of_def split: option.splits js.splits if_splits)
      show ?thesis
        by (rule answered [OF True refl, of "normalizeValidation (ev_heapAfter env) w"])
          (simp_all add: validateEdit_def True Ck_gave Let_def, simp add: ans)
    next
      case Ck_promise
      show ?thesis by (rule promised [OF True refl]) (simp add: validateEdit_def True Ck_promise Let_def)
    qed
  qed
qed

lemma checked_edits:
  assumes ok: "edits_ok evs s0 st" and run: "pause_run evs s0 = Some st"
    and hv: "peek (rq_pauseId rq) (ps_engine st) = Some hv" "hv_state hv = Gs_held" "rq_input rq \<noteq> JUndef"
    and clean: "editRefusal hv (rq_action rq) st = None"
      "proposedValueRefusal (ev_number env) (ev_heap env) (ev_stack env) (rq_input rq) = None"
      "prototypeKeyRefusal (ev_heap env) (rq_input rq) = Some None"
    and t: "beginValidation (rq_pauseId rq) (ps_engine st) = (e, Some ticket)"
    and st': "st' = validateEdit env (check_of env rq hv ticket) (st\<lparr>ps_engine := e\<rparr>)"
  shows "edits_ok (evs @ [Pe_resume env rq]) s0 st'"
proof -
  let ?ck = "check_of env rq hv ticket" and ?st = "st\<lparr>ps_engine := e\<rparr>" and ?evs = "evs @ [Pe_resume env rq]"
  have id: "hv_pauseId hv = rq_pauseId rq" by (rule peek_id [OF hv(1)])
  have "edit_permitted env rq hv st"
    using hv clean editRefusal_None [of hv "rq_action rq" st] id by (simp add: edit_permitted_def)
  then have f: "edit_from ?evs s0 env rq hv st []" using run by (simp add: edit_from_def)
  have tk: "fst ticket = rq_pauseId rq" by (rule beginValidation_ticket [OF t])
  have ck: "ck_gate ?ck = hv" "ck_input ?ck = rq_input rq" by (simp_all add: check_of_def)
  show ?thesis
  proof (cases rule: validateEdit_cases [of ?st ?ck env])
    case none
    show ?thesis
      by (rule verdict_edits [OF ok f tk, of ?st "[]"])
        (use st' none ck id in \<open>auto simp: finish_check_frame validated_def\<close>)
  next
    case (answered st1 given)
    have "validated env rq hv st [] (ps_out st @ [N_validate (rq_pauseId rq) (rq_input rq)
        (coversPauseInput (ps_switches st) (Some (gn_kind (hv_node hv))))]) v" if "given = Val_ok v" for v
      using answered(1) answered(4) [OF that] ck id by (simp add: validated_def validator_asked_def)
    then show ?thesis
      by (intro verdict_edits [OF ok f tk, of st1 "[N_validate (rq_pauseId rq) (rq_input rq)
        (coversPauseInput (ps_switches st) (Some (gn_kind (hv_node hv))))]"])
        (use st' answered(2,3) ck id in \<open>simp_all add: finish_check_frame\<close>)
  next
    case (promised st1)
    let ?new = "[N_validate (rq_pauseId rq) (rq_input rq) (coversPauseInput (ps_switches st) (Some (gn_kind (hv_node hv))))]"
    have out: "ps_out st' = ps_out st @ ?new" using st' promised ck id by simp
    have checks: "ps_checks st' = AList.update (ps_nextCheck st) ?ck (ps_checks st)" using st' promised by simp
    have "check_from ?evs s0 (ps_out st') (ps_nextCheck st) ?ck"
      using f tk promised(1) ck id out unfolding check_from_def validator_asked_def
      by (intro exI [of _ env] exI [of _ rq] exI [of _ hv] exI [of _ st] exI [of _ "[]"] exI [of _ ticket]) simp
    moreover have "edits_ok ?evs s0 (st'\<lparr>ps_checks := ps_checks st\<rparr>)"
      by (rule plain_step_edits [OF ok, of _ ?new]) (simp_all add: out)
    ultimately show ?thesis unfolding edits_ok_def checks by (simp add: checks)
  qed
qed

lemma handleResume_cases:
  assumes "handleResume env rq st = Some st'"
  obtains (ignored) "st' = st" "\<And>hv. peek (rq_pauseId rq) (ps_engine st) = Some hv \<Longrightarrow> hv_state hv \<noteq> Gs_held"
    | (unsupported) hv key where "peek (rq_pauseId rq) (ps_engine st) = Some hv" "hv_state hv = Gs_held"
      "map_of (ps_unsupported st) (rq_pauseId rq) \<noteq> None" "rq_action rq \<in> {Act_retry, Act_inject}"
      "rq_action rq \<in> set (the (map_of (ps_unsupported st) (rq_pauseId rq)))"
      "st' = refuse_resume hv (unsupportedActionRefusal (rq_action rq) (the (map_of (ps_unsupported st) (rq_pauseId rq))))
               (rq_requestId rq) key st"
    | (plain) hv where "peek (rq_pauseId rq) (ps_engine st) = Some hv" "hv_state hv = Gs_held"
      "rq_input rq = JUndef" "st' = resume_plain env rq hv st"
    | (edited) hv where "peek (rq_pauseId rq) (ps_engine st) = Some hv" "hv_state hv = Gs_held"
      "rq_input rq \<noteq> JUndef" "resume_edited env rq hv st = Some st'"
proof (cases "peek (rq_pauseId rq) (ps_engine st)")
  case None
  then show ?thesis using assms by (intro ignored) (simp_all add: handleResume_def)
next
  case (Some hv)
  note peeked = Some
  show ?thesis
  proof (cases "hv_state hv = Gs_held")
    case False
    then show ?thesis using assms Some by (intro ignored) (simp_all add: handleResume_def)
  next
    case True
    let ?u = "map_of (ps_unsupported st) (rq_pauseId rq)"
    let ?refused = "?u \<noteq> None \<and> rq_action rq \<in> {Act_retry, Act_inject} \<and> rq_action rq \<in> set (the ?u)"
    note eq = assms [unfolded handleResume_def peeked option.case Let_def]
    show ?thesis
    proof (cases ?refused)
      case refused: True
      then show ?thesis using eq True
        by (intro unsupported [OF Some True, of "if rq_action rq = Act_retry then ''retry-unsupported'' else ''inject-unsupported''"])
          auto
    next
      case no: False
      note rest = eq [unfolded if_not_P [OF no]]
      show ?thesis
      proof (cases "rq_input rq = JUndef")
        case True2: True
        then show ?thesis using rest True by (intro plain [OF Some True]) simp_all
      next
        case False
        then show ?thesis using rest True by (intro edited [OF Some True]) simp_all
      qed
    qed
  qed
qed

lemma settled_edits:
  assumes ok: "edits_ok evs s0 st" and wf: "wf_omap (ps_checks st)"
    and v: "\<And>v. given = Val_ok v \<Longrightarrow> \<exists>w h n clocks. ev = Pe_settled k (Some w) h n clocks \<and> normalizeValidation h w = Val_ok v"
  shows "edits_ok (evs @ [ev]) s0 (settled_check k h n given clocks st)"
proof (cases "map_of (ps_checks st) k")
  case None
  then show ?thesis using plain_step_edits [OF ok, of st "[]"] by (simp add: settled_check_def)
next
  case (Some ck)
  obtain env rq hv st1 later t where c: "edit_from evs s0 env rq hv st1 later" "ck = check_of env rq hv t"
      "fst t = rq_pauseId rq" "ps_nextCheck st1 = k" "map_of (ps_editable st1) (rq_pauseId rq) = Some True"
      "validator_asked rq hv st1 (ps_out st)"
    using ok Some unfolding edits_ok_def check_from_def by meson
  have valid: "validated env rq hv st1 (later @ [ev]) (ps_out st @ []) v" if given: "given = Val_ok v" for v
  proof -
    obtain w h n clocks where "ev = Pe_settled k (Some w) h n clocks" "normalizeValidation h w = Val_ok v"
      using v [OF given] by blast
    then have "Pe_settled (ps_nextCheck st1) (Some w) h n clocks \<in> set (later @ [ev])" using c(4) by simp
    then show ?thesis using c(5,6) \<open>normalizeValidation h w = Val_ok v\<close>
      unfolding validated_def by (simp only: append_Nil2 if_False not_True_eq_False simp_thms) blast
  qed
  show ?thesis unfolding settled_check_def Some option.case c(2)
    by (rule verdict_edits [OF ok edit_from_grows [OF c(1)] c(3) _ _ _ _ refl valid])
      (simp_all add: finish_check_frame split: if_splits)
qed

lemma pause_step_edits:
  assumes ok: "edits_ok evs s0 st" and run: "pause_run evs s0 = Some st" and step: "pause_step ev st = Some st'"
    and wf: "wf_omap (ps_checks st)"
  shows "edits_ok (evs @ [ev]) s0 st'"
proof (cases ev)
  case (Pe_resume env rq)
  then have h: "handleResume env rq st = Some st'" using step by simp
  then show ?thesis
  proof (cases rule: handleResume_cases)
    case ignored
    then show ?thesis using quiet_step_edits [OF ok quiet_step_refl] by simp
  next
    case (unsupported hv key)
    show ?thesis unfolding unsupported(6) by (rule quiet_step_edits [OF ok refuse_resume_quiet])
  next
    case (plain hv)
    show ?thesis unfolding plain(4) by (rule quiet_step_edits [OF ok resume_plain_quiet])
  next
    case (edited hv)
    from edited(4) show ?thesis
    proof (cases rule: resume_edited_cases)
      case (refused r)
      have "quiet_step st (emitRefused hv r (rq_requestId rq) st)" by (simp add: quiet_step_def)
      then show ?thesis unfolding refused by (rule quiet_step_edits [OF ok])
    next
      case stale
      then show ?thesis using quiet_step_edits [OF ok quiet_step_refl] by simp
    next
      case (checked e ticket)
      show ?thesis unfolding Pe_resume
        by (rule checked_edits [OF ok run edited(1,2,3) checked(1,2,3,4,5)])
    qed
  qed
next
  case (Pe_settled k result h n clocks)
  have st': "st' = settled_check k h n
      (case result of None \<Rightarrow> VALIDATOR_FAILED | Some v \<Rightarrow> normalizeValidation h v) clocks st"
    using step Pe_settled by simp
  show ?thesis unfolding st' Pe_settled
    by (rule settled_edits [OF ok wf])
      (auto simp: VALIDATOR_FAILED_def MALFORMED_def split: option.splits)
next
  case (Pe_expired k h n clocks)
  then have st': "st' = settled_check k h n VALIDATION_TIMED_OUT clocks st" using step by simp
  show ?thesis unfolding st' by (rule settled_edits [OF ok wf]) (simp add: VALIDATION_TIMED_OUT_def)
next
  case (Pe_gate c)
  then show ?thesis using step quiet_step_edits [OF ok gate_quiet] by auto
next
  case (Pe_detach clock)
  have "quiet_step st st'" using step Pe_detach
    by (auto simp: handleDetached_def intro: quiet_frame [OF release_held_quiet])
  then show ?thesis by (rule quiet_step_edits [OF ok])
next
  case (Pe_dispose clock)
  have "quiet_step st (release_held clock st)" by (rule release_held_quiet)
  then have "quiet_step st st'" using step Pe_dispose by (auto simp: dispose_pauses_def Let_def quiet_step_def)
  then show ?thesis by (rule quiet_step_edits [OF ok])
next
  case (Pe_timeout p now)
  obtain e b and l :: "carried gate_effect list"
    where t: "gate_timeout p now (ps_engine st) = (e, l, b)" by (metis prod_cases3)
  have "quiet_step st st'" using step Pe_timeout t quiet_released [OF gate_timeout_releases [OF t], of st] by auto
  then show ?thesis by (rule quiet_step_edits [OF ok])
next
  case (Pe_signal p now)
  obtain e b and l :: "carried gate_effect list"
    where t: "release p now (ps_engine st) = (e, l, b)" by (metis prod_cases3)
  have "releases (ps_engine st) e l" using settle_releases [OF t [unfolded release_def]] by simp
  from quiet_released [OF this, of st] have "quiet_step st st'" using step Pe_signal t
    by (auto simp: quiet_step_refl split: if_splits)
  then show ?thesis by (rule quiet_step_edits [OF ok])
qed (use step quiet_step_edits [OF ok] in \<open>auto simp: quiet_step_def attached_pauses_def\<close>)

section \<open>No validation is forgotten\<close>

text \<open>
  Every gate that is being validated has a waiting validation with its ticket; \<open>but\<close> is a ticket in
  hand.
\<close>

definition tickets_held :: "ticket option \<Rightarrow> engine \<Rightarrow> (nat, edit_check) omap \<Rightarrow> bool" where
  "tickets_held but e checks \<longleftrightarrow>
     (\<forall>p g t. map_of (ge_held e) p = Some g \<longrightarrow> hg_ticket g = Some t \<longrightarrow> but \<noteq> Some t \<longrightarrow>
        (\<exists>k ck. map_of checks k = Some ck \<and> ck_ticket ck = t))"

definition checks_ok :: "ticket option \<Rightarrow> paused_session \<Rightarrow> bool" where
  "checks_ok but st \<longleftrightarrow>
     engine_ok (ps_engine st) \<and> wf_omap (ps_checks st)
     \<and> (\<forall>k ck. map_of (ps_checks st) k = Some ck \<longrightarrow> k < ps_nextCheck st)
     \<and> tickets_held but (ps_engine st) (ps_checks st)"

lemma checks_ok_released:
  assumes "checks_ok None st" "releases (ps_engine st) (ps_engine st') l" "engine_ok (ps_engine st')"
    and "ps_checks st' = ps_checks st" "ps_nextCheck st' = ps_nextCheck st"
  shows "checks_ok None st'"
  using assms unfolding checks_ok_def tickets_held_def releases_def by metis

lemma ticket_own: "\<lbrakk>engine_ok e; map_of (ge_held e) p = Some g; hg_ticket g = Some t\<rbrakk> \<Longrightarrow> fst t = p"
  using engine_okD [of e p g] by (simp add: gate_ok_def)

lemma settle_all_held:
  fixes l :: "carried gate_effect list"
  assumes "settle p d a i now e = (e', l, b)"
  shows "map_of (ge_held e') q = (if q = p then None else map_of (ge_held e) q)"
  using settle_notes(1,4,5) [OF assms] by (cases b) (auto split: if_splits)

text \<open>After a verdict no gate holds its ticket.\<close>

lemma ticket_gone:
  assumes ok: "engine_ok e" and held: "tickets_held (Some t) e checks"
    and e': "\<And>q g. map_of (ge_held e') q = Some g \<Longrightarrow> hg_ticket g \<noteq> None \<Longrightarrow> map_of (ge_held e) q = Some g"
    and own: "\<And>g. map_of (ge_held e') (fst t) = Some g \<Longrightarrow> hg_ticket g \<noteq> Some t"
  shows "tickets_held None e' checks"
  unfolding tickets_held_def
proof (intro allI impI)
  fix p g t'
  assume a: "map_of (ge_held e') p = Some g" "hg_ticket g = Some t'"
  then have old: "map_of (ge_held e) p = Some g" using e' by simp
  then have p: "fst t' = p" using ticket_own [OF ok _ a(2)] by simp
  have "t' \<noteq> t" using own a p by auto
  then show "\<exists>k ck. map_of checks k = Some ck \<and> ck_ticket ck = t'"
    using held old a(2) unfolding tickets_held_def by blast
qed

lemma applyVerdict_ok:
  assumes ok: "checks_ok (Some (ck_ticket ck)) st"
  shows "checks_ok None (applyVerdict h n ck verdict now st)"
proof -
  have base: "engine_ok (ps_engine st)" "tickets_held (Some (ck_ticket ck)) (ps_engine st) (ps_checks st)"
    using ok by (simp_all add: checks_ok_def)
  have goal: "checks_ok None (applyVerdict h n ck verdict now st)"
    if "engine_ok e" "tickets_held None e (ps_checks st)" "ps_engine (applyVerdict h n ck verdict now st) = e" for e
    using ok that unfolding checks_ok_def applyVerdict_frame by simp
  show ?thesis
  proof (cases rule: applyVerdict_cases [of verdict h n ck now st])
    case (complete v copy e l b)
    have "engine_ok e" by (rule completeValidation_ok [OF complete(3) base(1)])
    moreover have "tickets_held None e (ps_checks st)"
      using complete(3)
    proof (cases rule: completeValidation_cases)
      case stale
      then show ?thesis by (intro ticket_gone [OF base]) auto
    next
      case (late g)
      then show ?thesis
        by (intro ticket_gone [OF base]) (auto simp: settle_all_held [OF late(5)] split: if_splits)
    next
      case (in_time g)
      then show ?thesis
        by (intro ticket_gone [OF base]) (auto simp: settle_all_held [OF in_time(5)] split: if_splits)
    qed
    ultimately show ?thesis using complete(4) by (intro goal) simp_all
  next
    case (refuse r e l b)
    have "engine_ok e" by (rule reopen_ok [OF refuse(1) base(1)])
    moreover have "tickets_held None e (ps_checks st)"
      using refuse(1)
    proof (cases rule: reopen_cases)
      case stale
      then show ?thesis by (intro ticket_gone [OF base]) auto
    next
      case (late g)
      then show ?thesis
        by (intro ticket_gone [OF base]) (auto simp: settle_all_held [OF late(5)] split: if_splits)
    next
      case (in_time g)
      then show ?thesis by (intro ticket_gone [OF base]) (auto split: if_splits)
    qed
    ultimately show ?thesis using refuse(2) by (intro goal) (simp_all split: if_splits)
  qed
qed

lemma finish_check_ok:
  "checks_ok (Some (ck_ticket ck)) st \<Longrightarrow> checks_ok None (finish_check h n ck given clocks st)"
  by (simp add: finish_check_def Let_def applyVerdict_ok)

lemma checks_ok_said: "checks_ok b (say x st) = checks_ok b st"
  by (simp add: checks_ok_def)

lemma settled_check_ok:
  assumes ok: "checks_ok None st"
  shows "checks_ok None (settled_check k h n given clocks st)"
proof (cases "map_of (ps_checks st) k")
  case (Some ck)
  have "tickets_held (Some (ck_ticket ck)) (ps_engine st) (AList.delete k (ps_checks st))"
    unfolding tickets_held_def
  proof (intro allI impI)
    fix p g t
    assume a: "map_of (ge_held (ps_engine st)) p = Some g" "hg_ticket g = Some t" "Some (ck_ticket ck) \<noteq> Some t"
    then obtain k' ck' where k': "map_of (ps_checks st) k' = Some ck'" "ck_ticket ck' = t"
      using ok unfolding checks_ok_def tickets_held_def by blast
    then have "k' \<noteq> k" using Some a(3) by auto
    then show "\<exists>k' ck'. map_of (AList.delete k (ps_checks st)) k' = Some ck' \<and> ck_ticket ck' = t"
      using k' by (intro exI [of _ k'] exI [of _ ck']) simp
  qed
  then have "checks_ok (Some (ck_ticket ck)) (st\<lparr>ps_checks := AList.delete k (ps_checks st)\<rparr>)"
    using ok by (auto simp: checks_ok_def distinct_delete split: if_splits)
  then show ?thesis using Some by (simp add: settled_check_def finish_check_ok)
qed (use ok in \<open>simp add: settled_check_def\<close>)

lemma validateEdit_ok:
  assumes ok: "checks_ok (Some (ck_ticket ck)) st"
  shows "checks_ok None (validateEdit env ck st)"
proof (cases rule: validateEdit_cases [of st ck env])
  case none
  then show ?thesis using finish_check_ok [OF ok] by simp
next
  case (answered st1 given)
  then show ?thesis using finish_check_ok ok by (simp add: checks_ok_said)
next
  case (promised st1)
  let ?checks = "AList.update (ps_nextCheck st) ck (ps_checks st)"
  have fresh: "map_of (ps_checks st) (ps_nextCheck st) = None"
    using ok unfolding checks_ok_def by (metis less_irrefl not_None_eq)
  have "tickets_held None (ps_engine st) ?checks"
    unfolding tickets_held_def
  proof (intro allI impI)
    fix p g t
    assume a: "map_of (ge_held (ps_engine st)) p = Some g" "hg_ticket g = Some t"
    show "\<exists>k ck'. map_of ?checks k = Some ck' \<and> ck_ticket ck' = t"
    proof (cases "t = ck_ticket ck")
      case True
      then show ?thesis by (intro exI [of _ "ps_nextCheck st"] exI [of _ ck]) simp
    next
      case False
      then obtain k ck' where k: "map_of (ps_checks st) k = Some ck'" "ck_ticket ck' = t"
        using ok a unfolding checks_ok_def tickets_held_def by blast
      then have "k \<noteq> ps_nextCheck st" using fresh by auto
      then show ?thesis using k by (intro exI [of _ k] exI [of _ ck']) simp
    qed
  qed
  then show ?thesis
    using ok promised unfolding checks_ok_def
    by (auto simp: distinct_update less_Suc_eq split: if_splits)
qed

lemma begun_ok:
  assumes ok: "checks_ok None st" and b: "beginValidation p (ps_engine st) = (e, Some t)"
  shows "checks_ok (Some t) (st\<lparr>ps_engine := e\<rparr>)"
proof -
  obtain g where g: "map_of (ge_held (ps_engine st)) p = Some g" "hg_state g = Gs_held"
      "t = (p, ge_tickets (ps_engine st))"
      "e = (ps_engine st)\<lparr>ge_held := AList.update p (g\<lparr>hg_state := Gs_validating, hg_ticket := Some t\<rparr>)
              (ge_held (ps_engine st)), ge_tickets := Suc (ge_tickets (ps_engine st))\<rparr>"
    using b by (auto simp: beginValidation_def Let_def split: option.splits if_splits)
  have "engine_ok (ps_engine st)" using ok by (simp add: checks_ok_def)
  then have "engine_ok e" by (rule beginValidation_ok [OF b])
  moreover have "tickets_held (Some t) e (ps_checks st)"
    using ok unfolding checks_ok_def tickets_held_def g(4) by (simp split: if_splits)
  ultimately show ?thesis using ok by (simp add: checks_ok_def)
qed

lemma gate_ok_step:
  assumes ok: "checks_ok None st"
  shows "checks_ok None (gate c st)"
proof (cases rule: gate_cases [of c st])
  case (holds st1 e l)
  have base: "engine_ok (ps_engine st)" using ok by (simp add: checks_ok_def)
  have "engine_ok e" by (rule hold_ok [OF holds(1) base])
  moreover have "tickets_held None e (ps_checks st)"
    using ok holds(1) unfolding checks_ok_def tickets_held_def
    by (auto simp: hold_def Let_def split: option.splits if_splits)
  ultimately show ?thesis using ok holds(3,4,5) by (simp add: checks_ok_def)
qed (use ok in simp)

lemma engine_did_ok:
  "\<lbrakk>checks_ok None st; releases (ps_engine st) e l; engine_ok e\<rbrakk> \<Longrightarrow> checks_ok None (engine_did e l st)"
  by (rule checks_ok_released) simp_all

lemma release_held_ok:
  assumes "checks_ok None st"
  shows "checks_ok None (release_held clock st)"
proof -
  obtain e n and l :: "carried gate_effect list"
    where r: "releaseAll clock (ps_engine st) = (e, l, n)" by (metis prod_cases3)
  have "engine_ok e" using releaseAll_ok [OF r] assms by (simp add: checks_ok_def)
  then show ?thesis using engine_did_ok [OF assms releaseAll_releases [OF r]] by (simp add: release_held_def r)
qed

lemma refuse_resume_ok: "checks_ok None st \<Longrightarrow> checks_ok None (refuse_resume hv r i key st)"
  by (simp add: refuse_resume_def Let_def emitRefused_def checks_ok_said)

lemma resume_plain_ok:
  assumes "checks_ok None st"
  shows "checks_ok None (resume_plain env rq hv st)"
proof -
  let ?info = "map_option (\<lambda>i. \<lparr>ri_requestId = Some i, ri_edited = None\<rparr>) (rq_requestId rq)"
  obtain e b and l :: "carried gate_effect list" where r: "resume (rq_pauseId rq) (rq_action rq) (Live (rq_output rq))
      ?info (snd (ev_clocks env)) (ps_engine st) = (e, l, b)" by (metis prod_cases3)
  have "engine_ok e" using resume_ok [OF r] assms by (simp add: checks_ok_def)
  then have "checks_ok None (engine_did e l st)" by (rule engine_did_ok [OF assms resume_releases [OF r]])
  then show ?thesis using assms
    unfolding resume_plain_def r Let_def prod.case by (simp add: refuse_resume_ok split: option.split)
qed

lemma pause_step_ok:
  assumes ok: "checks_ok None st" and step: "pause_step ev st = Some st'"
  shows "checks_ok None st'"
proof (cases ev)
  case (Pe_resume env rq)
  then have "handleResume env rq st = Some st'" using step by simp
  then show ?thesis
  proof (cases rule: handleResume_cases)
    case (edited hv)
    from edited(4) show ?thesis
    proof (cases rule: resume_edited_cases)
      case (checked e ticket)
      have "ck_ticket (check_of env rq hv ticket) = ticket" by (simp add: check_of_def)
      then show ?thesis using validateEdit_ok begun_ok [OF ok checked(4)] checked(5) by metis
    qed (use ok in \<open>simp_all add: emitRefused_def checks_ok_said\<close>)
  qed (use ok in \<open>simp_all add: refuse_resume_ok resume_plain_ok\<close>)
next
  case (Pe_timeout p now)
  obtain e b and l :: "carried gate_effect list"
    where t: "gate_timeout p now (ps_engine st) = (e, l, b)" by (metis prod_cases3)
  have "engine_ok e" using gate_timeout_ok [OF t] ok by (simp add: checks_ok_def)
  then show ?thesis using step Pe_timeout t engine_did_ok [OF ok gate_timeout_releases [OF t]] by auto
next
  case (Pe_signal p now)
  obtain e b and l :: "carried gate_effect list"
    where t: "release p now (ps_engine st) = (e, l, b)" by (metis prod_cases3)
  have "releases (ps_engine st) e l" using settle_releases [OF t [unfolded release_def]] by simp
  moreover have "engine_ok e" using settle_ok [OF t [unfolded release_def]] ok by (simp add: checks_ok_def)
  ultimately show ?thesis using step Pe_signal t engine_did_ok [OF ok] ok by (auto split: if_splits)
next
  case (Pe_attach caps bps mode)
  have "engine_ok (arm bps mode (ps_engine st))" using ok by (simp add: checks_ok_def breakpoint_ops_ok)
  then show ?thesis using ok step Pe_attach
    by (auto simp: checks_ok_def attached_pauses_def tickets_held_def breakpoint_ops_held)
next
  case (Pe_detach clock)
  have "checks_ok None (st\<lparr>ps_attached := False, ps_hub := None, ps_engine := disarm (ps_engine st)\<rparr>)"
    using ok by (simp add: checks_ok_def tickets_held_def breakpoint_ops_held breakpoint_ops_ok)
  then show ?thesis using step Pe_detach release_held_ok by (auto simp: handleDetached_def)
next
  case (Pe_dispose clock)
  then show ?thesis using step release_held_ok [OF ok, of clock]
    by (auto simp: dispose_pauses_def Let_def checks_ok_def tickets_held_def breakpoint_ops_held breakpoint_ops_ok)
qed (use ok step settled_check_ok gate_ok_step in
  \<open>auto simp: checks_ok_def tickets_held_def breakpoint_ops_held breakpoint_ops_ok\<close>)

lemma session_new_ok: "checks_ok None (pause_session_new base timeout editInput switches smart)"
  by (simp add: checks_ok_def pause_session_new_def engine_new_ok tickets_held_def)
    (simp add: engine_new_def)

lemma pause_run_invariant:
  assumes "pause_run evs (pause_session_new base timeout editInput switches smart) = Some st"
  shows "checks_ok None st \<and> edits_ok evs (pause_session_new base timeout editInput switches smart) st"
  using assms
proof (induction evs arbitrary: st rule: rev_induct)
  case Nil
  then show ?case using session_new_ok [of base timeout editInput switches smart]
    by (auto simp: edits_ok_def pause_session_new_def)
next
  case (snoc ev evs)
  obtain st1 where st1: "pause_run evs (pause_session_new base timeout editInput switches smart) = Some st1"
    "pause_step ev st1 = Some st"
    using snoc.prems unfolding pause_run_snoc by (auto simp: bind_eq_Some_conv)
  have "checks_ok None st1" "edits_ok evs (pause_session_new base timeout editInput switches smart) st1"
    using snoc.IH [OF st1(1)] by simp_all
  then show ?case
    using pause_step_ok [OF _ st1(2)] pause_step_edits [OF _ st1] by (simp add: checks_ok_def)
qed

text \<open>
  C3: An edited input reaches a call only with every condition of the contract met. Whenever a held
  gate is decided with an input, the run took, at some point, an \<open>exec.resume\<close> for that pause while
  its gate was held, the app had edits on, the debugger had listed \<open>edit-input\<close>, the pause had been
  offered as editable, the action fitted the point, and the proposed input held no placeholder, no
  truncation marker and no prototype key. The value is the one the adapter's validator, called with
  the proposed input and told whether a switch hides it, gave then or through its promise - the
  proposed one only where the pause has no validator. The action is the requested one, and
  \<open>exec.resumed\<close> records the value's JSON copy with the request's id.
\<close>

theorem edited_call_was_allowed:
  assumes "pause_run evs (pause_session_new base timeout editInput switches smart) = Some st"
    and "N_decided p d \<in> set (ps_out st)" and "edited_input d = Some x"
  shows "\<exists>earlier env rq later hv st1 v.
     evs = earlier @ Pe_resume env rq # later
     \<and> pause_run earlier (pause_session_new base timeout editInput switches smart) = Some st1
     \<and> rq_pauseId rq = p \<and> edit_permitted env rq hv st1 \<and> validated env rq hv st1 later (ps_out st) v
     \<and> x = Live v \<and> decision_action d = rq_action rq
     \<and> (\<exists>h n copy run kind. wireCopy h n v = Some copy
          \<and> N_resumed p (rq_action rq) (Some copy) (rq_requestId rq) run kind \<in> set (ps_out st))"
proof -
  have "edits_ok evs (pause_session_new base timeout editInput switches smart) st"
    using pause_run_invariant [OF assms(1)] by simp
  then have "justified evs (pause_session_new base timeout editInput switches smart) (ps_out st) p d"
    using assms(2,3) unfolding edits_ok_def by blast
  then obtain env rq hv st1 later v h n copy run kind where
    j: "edit_from evs (pause_session_new base timeout editInput switches smart) env rq hv st1 later"
      "rq_pauseId rq = p" "validated env rq hv st1 later (ps_out st) v" "d = edit_decision (rq_action rq) v"
      "wireCopy h n v = Some copy"
      "N_resumed p (rq_action rq) (Some copy) (rq_requestId rq) run kind \<in> set (ps_out st)"
    unfolding justified_def by (elim exE conjE) (rule that)
  obtain earlier where e: "evs = earlier @ Pe_resume env rq # later"
    "pause_run earlier (pause_session_new base timeout editInput switches smart) = Some st1"
    and permitted: "edit_permitted env rq hv st1"
    using j(1) unfolding edit_from_def by blast
  have "decision_action d = rq_action rq"
    using permitted j(4) edit_decision_action unfolding edit_permitted_def by blast
  then show ?thesis
    using e permitted j assms(3) by (intro exI conjI) (assumption | simp)+
qed

section \<open>Every resume is answered\<close>

definition releases_one :: "ident \<Rightarrow> paused_session \<Rightarrow> pause_note list \<Rightarrow> bool" where
  "releases_one p st' new \<longleftrightarrow>
     peek p (ps_engine st') = None \<and> (\<exists>a copy i run kind. N_resumed p a copy i run kind \<in> set new)"

definition refuses_one :: "held_view \<Rightarrow> ident option \<Rightarrow> paused_session \<Rightarrow> pause_note list \<Rightarrow> bool" where
  "refuses_one hv i st' new \<longleftrightarrow>
     peek (hv_pauseId hv) (ps_engine st') = Some hv
     \<and> (\<exists>r. N_refused (hv_pauseId hv) r i (hv_runId hv) (gn_kind (hv_node hv)) \<in> set new)
     \<and> (\<forall>q d. N_decided q d \<notin> set new)"

definition checks_one :: "held_view \<Rightarrow> resume_payload \<Rightarrow> paused_session \<Rightarrow> pause_note list \<Rightarrow> bool" where
  "checks_one hv rq st' new \<longleftrightarrow>
     peek (hv_pauseId hv) (ps_engine st') = Some (hv\<lparr>hv_state := Gs_validating\<rparr>)
     \<and> (\<exists>k ck. map_of (ps_checks st') k = Some ck \<and> current_ticket (ck_ticket ck) (ps_engine st')
            \<and> ck_gate ck = hv \<and> ck_action ck = rq_action rq \<and> ck_requestId ck = rq_requestId rq)
     \<and> (\<exists>hidden. new = [N_validate (hv_pauseId hv) (rq_input rq) hidden])"

definition resume_answer ::
  "resume_payload \<Rightarrow> held_view \<Rightarrow> paused_session \<Rightarrow> paused_session \<Rightarrow> bool" where
  "resume_answer rq hv st st' \<longleftrightarrow>
     (\<exists>new. ps_out st' = ps_out st @ new
        \<and> (releases_one (rq_pauseId rq) st' new \<or> refuses_one hv (rq_requestId rq) st' new
           \<or> checks_one hv rq st' new))"

lemma peek_held: "peek p e = Some hv \<Longrightarrow> \<exists>g. map_of (ge_held e) p = Some g \<and> hv_state hv = hg_state g
    \<and> hv = \<lparr>hv_pauseId = p, hv_node = hg_node g, hv_point = hg_point g, hv_runId = hg_runId g, hv_state = hg_state g\<rparr>"
  by (auto simp: peek_def split: option.splits)

lemma peek_None: "peek p e = None \<longleftrightarrow> map_of (ge_held e) p = None"
  by (simp add: peek_def split: option.split)

lemma settled_released:
  fixes l :: "carried gate_effect list"
  assumes "settle p d a i now (ps_engine st0) = (e', l, True)" "ps_out st0 = ps_out st @ asked"
  shows "\<exists>new. ps_out (engine_did e' l st0) = ps_out st @ new \<and> releases_one p (engine_did e' l st0) new"
proof -
  obtain run kind c j where "N_resumed p a c j run kind \<in> set (concat (map effect_notes l))"
    using settle_notes(3) [OF assms(1)] by blast
  then show ?thesis
    using settle_all_held [OF assms(1), of p] assms(2)
    by (intro exI [of _ "asked @ concat (map effect_notes l)"])
      (simp add: releases_one_def peek_None del: set_concat, blast)
qed

text \<open>A verdict on the check that has just begun releases the gate or reopens it as it was.\<close>

lemma verdict_answers:
  assumes hv: "peek p (ps_engine st) = Some hv" "hv_state hv = Gs_held"
    and b: "beginValidation p (ps_engine st) = (e, Some t)"
    and sta: "ps_engine sta = e" "ps_out sta = ps_out st @ asked" "\<forall>q d. N_decided q d \<notin> set asked"
    and ck: "ck_ticket ck = t" "ck_gate ck = hv"
  shows "\<exists>new. ps_out (finish_check h n ck given clocks sta) = ps_out st @ new
     \<and> (releases_one p (finish_check h n ck given clocks sta) new
        \<or> refuses_one hv (ck_requestId ck) (finish_check h n ck given clocks sta) new)"
proof -
  obtain g where g: "map_of (ge_held (ps_engine st)) p = Some g" "hg_state g = Gs_held" using peek_held [OF hv(1)] hv(2) by auto
  let ?g = "g\<lparr>hg_state := Gs_validating, hg_ticket := Some t\<rparr>"
  have t: "fst t = p" by (rule beginValidation_ticket [OF b])
  have held: "map_of (ge_held e) p = Some ?g"
    using b g by (auto simp: beginValidation_def Let_def)
  have id: "hv_pauseId hv = p" by (rule peek_id [OF hv(1)])
  have hvg: "hv = \<lparr>hv_pauseId = p, hv_node = hg_node g, hv_point = hg_point g, hv_runId = hg_runId g, hv_state = hg_state g\<rparr>"
    using peek_held [OF hv(1)] g(1) by auto
  let ?verdict = "if outlived ck (fst clocks) then VALIDATION_TIMED_OUT else given"
  have "\<exists>new. ps_out (applyVerdict h n ck ?verdict (snd clocks) sta) = ps_out st @ new
     \<and> (releases_one p (applyVerdict h n ck ?verdict (snd clocks) sta) new
        \<or> refuses_one hv (ck_requestId ck) (applyVerdict h n ck ?verdict (snd clocks) sta) new)"
  proof (cases rule: applyVerdict_cases [of ?verdict h n ck "snd clocks" sta])
    case (complete v copy e' l b')
    from complete(3) show ?thesis
    proof (cases rule: completeValidation_cases)
      case stale
      then show ?thesis using held t ck sta by simp
    next
      case (late g')
      then show ?thesis unfolding complete(4) using settled_released [of p _ _ _ _ sta e' l st asked] ck t sta by auto
    next
      case (in_time g')
      then show ?thesis unfolding complete(4) using settled_released [of p _ _ _ _ sta e' l st asked] ck t sta by auto
    qed
  next
    case (refuse r e' l b')
    from refuse(1) show ?thesis
    proof (cases rule: reopen_cases)
      case stale
      then show ?thesis using held t ck sta by simp
    next
      case (late g')
      then show ?thesis unfolding refuse(2) using settled_released [of p _ _ _ _ sta e' l st asked] ck t sta by auto
    next
      case (in_time g')
      have "g' = ?g" using in_time(1) held t ck sta by simp
      then have "peek p e' = Some hv" using in_time(6) hvg g(2) t ck by (simp add: peek_def)
      then have "refuses_one hv (ck_requestId ck) (applyVerdict h n ck ?verdict (snd clocks) sta)
          (asked @ [N_refused p r (ck_requestId ck) (hv_runId hv) (gn_kind (hv_node hv))])"
        unfolding refuses_one_def id refuse(2) using in_time(4,5) sta(3) by auto
      then show ?thesis using refuse(2) in_time(4,5) sta ck id by auto
    qed
  qed
  then show ?thesis by (simp add: finish_check_def Let_def)
qed

lemma validateEdit_answers:
  assumes hv: "peek (rq_pauseId rq) (ps_engine st) = Some hv" "hv_state hv = Gs_held"
    and b: "beginValidation (rq_pauseId rq) (ps_engine st) = (e, Some t)"
  shows "resume_answer rq hv st (validateEdit env (check_of env rq hv t) (st\<lparr>ps_engine := e\<rparr>))"
proof -
  let ?ck = "check_of env rq hv t" and ?st = "st\<lparr>ps_engine := e\<rparr>"
  have ck: "ck_ticket ?ck = t" "ck_gate ?ck = hv" "ck_requestId ?ck = rq_requestId rq" "ck_input ?ck = rq_input rq"
    "ck_action ?ck = rq_action rq" by (simp_all add: check_of_def)
  have id: "hv_pauseId hv = rq_pauseId rq" by (rule peek_id [OF hv(1)])
  show ?thesis
  proof (cases rule: validateEdit_cases [of ?st ?ck env])
    case none
    show ?thesis
      using verdict_answers [OF hv b, of ?st "[]" ?ck] ck unfolding none(2) resume_answer_def by simp blast
  next
    case (answered st1 given)
    have out: "ps_out st1 = ps_out st @ [N_validate (hv_pauseId (ck_gate ?ck)) (ck_input ?ck)
        (coversPauseInput (ps_switches st) (Some (gn_kind (hv_node (ck_gate ?ck)))))]" "ps_engine st1 = e"
      using answered(2) by simp_all
    show ?thesis
      using verdict_answers [OF hv b out(2,1) _ ck(1,2)] ck(3) unfolding answered(3) resume_answer_def
      by (simp, blast)
  next
    case (promised st1)
    let ?st' = "validateEdit env ?ck ?st"
    have tk: "fst t = rq_pauseId rq" by (rule beginValidation_ticket [OF b])
    obtain g where g: "map_of (ge_held (ps_engine st)) (rq_pauseId rq) = Some g" "hg_state g = Gs_held"
        "hv = \<lparr>hv_pauseId = rq_pauseId rq, hv_node = hg_node g, hv_point = hg_point g, hv_runId = hg_runId g, hv_state = hg_state g\<rparr>"
      using peek_held [OF hv(1)] hv(2) by auto
    have held: "map_of (ge_held e) (rq_pauseId rq) = Some (g\<lparr>hg_state := Gs_validating, hg_ticket := Some t\<rparr>)"
      using b g(1,2) by (auto simp: beginValidation_def Let_def)
    have st': "ps_engine ?st' = e" "ps_checks ?st' = AList.update (ps_nextCheck st) ?ck (ps_checks st)"
      "ps_out ?st' = ps_out st @ [N_validate (hv_pauseId hv) (rq_input rq)
        (coversPauseInput (ps_switches st) (Some (gn_kind (hv_node hv))))]"
      using promised(2,3) ck by simp_all
    have "peek (hv_pauseId hv) e = Some (hv\<lparr>hv_state := Gs_validating\<rparr>)" using held g(3) by (simp add: peek_def)
    moreover have "current_ticket t e" using held tk by (simp add: current_ticket_def)
    moreover have "map_of (ps_checks ?st') (ps_nextCheck st) = Some ?ck" using st'(2) by simp
    ultimately have "checks_one hv rq ?st' [N_validate (hv_pauseId hv) (rq_input rq)
        (coversPauseInput (ps_switches st) (Some (gn_kind (hv_node hv))))]"
      unfolding checks_one_def st'(1)
      by (intro conjI exI [of _ "ps_nextCheck st"] exI [of _ ?ck]
          exI [of _ "coversPauseInput (ps_switches st) (Some (gn_kind (hv_node hv)))"]) (simp_all add: ck)
    then show ?thesis unfolding resume_answer_def using st'(3) by blast
  qed
qed

lemma refuse_resume_answers:
  assumes hv: "peek (rq_pauseId rq) (ps_engine st) = Some hv" "hv_state hv = Gs_held"
  shows "resume_answer rq hv st (refuse_resume hv rf (rq_requestId rq) key st)"
proof -
  have id: "hv_pauseId hv = rq_pauseId rq" by (rule peek_id [OF hv(1)])
  show ?thesis
    unfolding resume_answer_def refuses_one_def id using hv id
    by (intro exI [of _ "N_refused (rq_pauseId rq) rf (rq_requestId rq) (hv_runId hv) (gn_kind (hv_node hv))
          # (if ps_hub st = None then [N_warned key] else [])"] conjI disjI2 disjI1)
      (auto simp: refuse_resume_def Let_def)
qed

lemma resume_plain_answers:
  assumes hv: "peek (rq_pauseId rq) (ps_engine st) = Some hv" "hv_state hv = Gs_held"
  shows "resume_answer rq hv st (resume_plain env rq hv st)"
proof -
  let ?info = "map_option (\<lambda>i. \<lparr>ri_requestId = Some i, ri_edited = None\<rparr>) (rq_requestId rq)"
  have id: "hv_pauseId hv = rq_pauseId rq" by (rule peek_id [OF hv(1)])
  obtain e b and l :: "carried gate_effect list" where r: "resume (rq_pauseId rq) (rq_action rq) (Live (rq_output rq))
      ?info (snd (ev_clocks env)) (ps_engine st) = (e, l, b)" by (metis prod_cases3)
  have "\<exists>d. settle (rq_pauseId rq) d (rq_action rq) ?info (snd (ev_clocks env)) (ps_engine st) = (e, l, True)"
  proof -
    obtain g where g: "map_of (ge_held (ps_engine st)) (rq_pauseId rq) = Some g" "hg_state g = Gs_held"
      using peek_held [OF hv(1)] hv(2) by auto
    obtain d where d: "settle (rq_pauseId rq) d (rq_action rq) ?info (snd (ev_clocks env)) (ps_engine st) = (e, l, b)"
      using r g by (auto simp: resume_def Let_def)
    then show ?thesis using settle_notes(1) [OF d] g by auto
  qed
  then have rel: "\<exists>new. ps_out (engine_did e l st) = ps_out st @ new \<and> releases_one (rq_pauseId rq) (engine_did e l st) new"
    using settled_released [of "rq_pauseId rq" _ _ _ _ st e l st "[]"] by auto
  show ?thesis
    unfolding resume_plain_def r Let_def prod.case using rel refuse_resume_answers [OF hv]
    by (auto simp: resume_answer_def split: option.split)
qed

text \<open>The content checks end where the proposed value reaches finitely many objects.\<close>

definition finite_value :: "heap \<Rightarrow> js \<Rightarrow> bool" where
  "finite_value h v = (case v of JObj a \<Rightarrow> finite {b. reaches h a b} | _ \<Rightarrow> True)"

lemma pollutionPath_returns: "finite {b. reaches h a b} \<Longrightarrow> \<exists>r. pollutionPath h a = Some r"
proof -
  assume "finite {b. reaches h a b}"
  then have "search_end h {b. reaches h a b} ([], [a])"
    by (rule pollution_loop_ends) (auto simp: search_inv_def intro: reaches_refl reaches_step)
  then show ?thesis unfolding search_end_def pollutionPath_def by auto
qed

lemma prototypeKeyRefusal_returns:
  assumes "finite_value h v"
  shows "\<exists>r. prototypeKeyRefusal h v = Some r"
proof (cases v)
  case (JObj a)
  then obtain r where "pollutionPath h a = Some r" using assms pollutionPath_returns by (auto simp: finite_value_def)
  then show ?thesis by (cases r) (simp_all add: prototypeKeyRefusal_def JObj)
qed (simp_all add: prototypeKeyRefusal_def)

lemma handleResume_returns:
  assumes "finite_value (ev_heap env) (rq_input rq)"
  shows "\<exists>st'. handleResume env rq st = Some st'"
proof -
  obtain r where "prototypeKeyRefusal (ev_heap env) (rq_input rq) = Some r"
    using prototypeKeyRefusal_returns [OF assms] by blast
  then have "\<exists>st'. resume_edited env rq hv st = Some st'" for hv
    by (auto simp: resume_edited_def split: option.split)
  then show ?thesis by (simp add: handleResume_def Let_def split: option.split)
qed

text \<open>
  C23: Every \<open>exec.resume\<close> is answered. Handling one ends, whatever the request proposes; for a pause
  that is not held it changes nothing, and for a held one it does exactly one of three things. The
  gate is released, and \<open>exec.resumed\<close> says so. Or it is refused: \<open>exec.refused\<close> with the request's
  id, the gate is held as before, and nobody is given a decision. Or the proposed input is being
  checked: the gate waits for the validator's promise under a current ticket.
\<close>

theorem resume_is_answered:
  assumes "finite_value (ev_heap env) (rq_input rq)"
  shows "\<exists>st'. handleResume env rq st = Some st'
    \<and> (case peek (rq_pauseId rq) (ps_engine st) of
         None \<Rightarrow> st' = st
       | Some hv \<Rightarrow> if hv_state hv = Gs_held then resume_answer rq hv st st' else st' = st)"
proof -
  obtain st' where h: "handleResume env rq st = Some st'" using handleResume_returns [OF assms] by blast
  have refusing: "resume_answer rq hv st st1"
    if "peek (rq_pauseId rq) (ps_engine st) = Some hv" "ps_engine st1 = ps_engine st"
      "ps_out st1 = ps_out st @ N_refused (hv_pauseId hv) rf (rq_requestId rq) (hv_runId hv) (gn_kind (hv_node hv)) # warned"
      "\<forall>q d. N_decided q d \<notin> set warned" for hv st1 rf warned
  proof -
    have "refuses_one hv (rq_requestId rq) st1
        (N_refused (hv_pauseId hv) rf (rq_requestId rq) (hv_runId hv) (gn_kind (hv_node hv)) # warned)"
      using that peek_id [OF that(1)] unfolding refuses_one_def by auto
    then show ?thesis using that(3) unfolding resume_answer_def by blast
  qed
  from h show ?thesis
  proof (cases rule: handleResume_cases)
    case ignored
    then show ?thesis using h by (auto split: option.split)
  next
    case (unsupported hv key)
    have "resume_answer rq hv st st'"
      unfolding unsupported(6) by (rule refuse_resume_answers [OF unsupported(1,2)])
    then show ?thesis using h unsupported(1,2) by simp
  next
    case (plain hv)
    then show ?thesis using h resume_plain_answers [OF plain(1,2)] by simp
  next
    case (edited hv)
    from edited(4) have "resume_answer rq hv st st'"
    proof (cases rule: resume_edited_cases)
      case (refused r)
      then show ?thesis using refusing [OF edited(1), of st' r "[]"] by simp
    next
      case stale
      then show ?thesis using peek_held [OF edited(1)] edited(2) by (auto simp: beginValidation_def Let_def)
    next
      case (checked e ticket)
      then show ?thesis using validateEdit_answers [OF edited(1,2)] by simp
    qed
    then show ?thesis using h edited(1,2) by simp
  qed
qed

section \<open>No gate stays in validation\<close>

text \<open>
  C27: No validation holds a gate for good. In every reachable state, a gate that is being validated
  has a validation waiting in the session, and when its timer fires - four seconds after the request,
  whatever the validator does - the gate is released with its own input or held again.
\<close>

theorem validation_always_ends:
  assumes "pause_run evs (pause_session_new base timeout editInput switches smart) = Some st"
    and "peek p (ps_engine st) = Some hv" and "hv_state hv = Gs_validating"
  shows "\<exists>k ck. map_of (ps_checks st) k = Some ck \<and> current_ticket (ck_ticket ck) (ps_engine st)
    \<and> (\<forall>h n clocks. \<exists>st'. pause_step (Pe_expired k h n clocks) st = Some st'
          \<and> (case peek p (ps_engine st') of None \<Rightarrow> True | Some hv' \<Rightarrow> hv' = hv\<lparr>hv_state := Gs_held\<rparr>))"
proof -
  have ok: "checks_ok None st" using pause_run_invariant [OF assms(1)] by simp
  then have eok: "engine_ok (ps_engine st)" by (simp add: checks_ok_def)
  obtain g where g: "map_of (ge_held (ps_engine st)) p = Some g" "hg_state g = Gs_validating"
      "hv = \<lparr>hv_pauseId = p, hv_node = hg_node g, hv_point = hg_point g, hv_runId = hg_runId g, hv_state = hg_state g\<rparr>"
    using peek_held [OF assms(2)] assms(3) by auto
  then obtain t where t: "hg_ticket g = Some t" "fst t = p"
    using engine_okD [OF eok g(1)] by (auto simp: gate_ok_def)
  then obtain k ck where k: "map_of (ps_checks st) k = Some ck" "ck_ticket ck = t"
    using ok g(1) unfolding checks_ok_def tickets_held_def by blast
  have current: "current_ticket (ck_ticket ck) (ps_engine st)" using g(1) t k(2) by (simp add: current_ticket_def)
  have "case peek p (ps_engine (settled_check k h n VALIDATION_TIMED_OUT clocks st)) of
      None \<Rightarrow> True | Some hv' \<Rightarrow> hv' = hv\<lparr>hv_state := Gs_held\<rparr>" for h n clocks
  proof -
    let ?st = "st\<lparr>ps_checks := AList.delete k (ps_checks st)\<rparr>"
    have eq: "settled_check k h n VALIDATION_TIMED_OUT clocks st
        = applyVerdict h n ck VALIDATION_TIMED_OUT (snd clocks) ?st"
      using k(1) by (simp add: settled_check_def finish_check_def)
    show ?thesis
    proof (cases rule: applyVerdict_cases [of VALIDATION_TIMED_OUT h n ck "snd clocks" ?st])
      case (complete v copy e l b)
      then show ?thesis by (simp add: VALIDATION_TIMED_OUT_def)
    next
      case (refuse r e l b)
      from refuse(1) show ?thesis
      proof (cases rule: reopen_cases)
        case stale
        then show ?thesis using g(1) t k(2) by simp
      next
        case (late g')
        then have "map_of (ge_held e) p = None" using settle_all_held [OF late(5), of p] t(2) k(2) by simp
        then show ?thesis unfolding eq refuse(2) using late(4) by (simp add: peek_def)
      next
        case (in_time g')
        then have "g' = g" using g(1) t k(2) by simp
        then have "peek p e = Some (hv\<lparr>hv_state := Gs_held\<rparr>)" using in_time(6) g(3) t(2) k(2) by (simp add: peek_def)
        then show ?thesis unfolding eq refuse(2) using in_time(4) by simp
      qed
    qed
  qed
  then show ?thesis using k(1) current by (intro exI [of _ k] exI [of _ ck]) simp
qed

section \<open>A run with two edits\<close>

text \<open>
  A tool call paused at its before gate, editable, with a validator that answers with a promise; and
  the same without a validator.
\<close>

definition edit_switches :: hide_switches where
  "edit_switches = \<lparr>hs_hideInputs = False, hs_hideOutputs = False, hs_hideToolArgs = False, hs_hideToolResults = False\<rparr>"

definition edit_session :: paused_session where
  "edit_session = pause_session_new ''b'' None True edit_switches \<lparr>sw_errorResult = True, sw_truncatedToolCall = True\<rparr>"

definition edit_call :: "(jstr \<times> js_slot) list \<Rightarrow> pause_event" where
  "edit_call extra =
     Pe_gate \<lparr>gc_point = Before,
       gc_node = \<lparr>gn_nodeId = ''n'', gn_kind = Tool, gn_name = ''t'', gn_instanceId = None\<rparr>,
       gc_options = Some (js_record ((lit ''editable'', Slot (JBool True)) # extra)),
       gc_runId = ''r'', gc_consulted = None, gc_heap = (\<lambda>a. js_record []), gc_now = Some 0, gc_announced = True\<rparr>"

definition edit_world :: "js option \<Rightarrow> heap \<Rightarrow> edit_env" where
  "edit_world ans h' =
     \<lparr>ev_heap = (\<lambda>a. js_record []), ev_stack = 3, ev_number = (\<lambda>q. []), ev_answer = ans,
      ev_heapAfter = h', ev_started = Some 1, ev_clocks = (Some 2, Some 2)\<rparr>"

definition edit_request :: resume_payload where
  "edit_request =
     \<lparr>rq_pauseId = pause_id ''b'' 1, rq_action = Act_continue, rq_output = JUndef, rq_input = JNum (Fin 7),
      rq_requestId = None\<rparr>"

definition edit_attach :: pause_event where
  "edit_attach = Pe_attach (Some [EDIT_INPUT]) [\<lparr>bm_kind = None, bm_name = None, bm_point = None\<rparr>] Run_mode"

definition promise_heap :: heap where
  "promise_heap = (\<lambda>a. js_record [(lit ''then'', Slot JFun)])"

definition edited_run :: "pause_event list" where
  "edited_run = [edit_attach, edit_call [], Pe_resume (edit_world None promise_heap) edit_request]"

definition promised_run :: "pause_event list" where
  "promised_run =
     [edit_attach, edit_call [(lit ''validateInput'', Slot JFun)],
      Pe_resume (edit_world (Some (JObj 0)) promise_heap) edit_request]"

theorem edited_call_was_allowed_witness:
  "\<exists>earlier env rq later hv st1.
     edited_run = earlier @ Pe_resume env rq # later \<and> edit_permitted env rq hv st1
     \<and> rq_pauseId rq = pause_id ''b'' 1"
proof -
  have "case pause_run edited_run edit_session of None \<Rightarrow> False
      | Some st \<Rightarrow> N_decided (pause_id ''b'' 1) (D_continue (Some (Live (JNum (Fin 7))))) \<in> set (ps_out st)"
    by code_simp
  then obtain st where "pause_run edited_run edit_session = Some st"
    "N_decided (pause_id ''b'' 1) (D_continue (Some (Live (JNum (Fin 7))))) \<in> set (ps_out st)"
    by (auto split: option.splits)
  from edited_call_was_allowed [OF this(1) [unfolded edit_session_def] this(2)] show ?thesis
    by (simp only: edited_input.simps option.inject) blast
qed

theorem resume_is_answered_witness:
  "case pause_run [edit_attach, edit_call []] edit_session of
     None \<Rightarrow> False
   | Some st \<Rightarrow> \<exists>hv st'. handleResume (edit_world None promise_heap) edit_request st = Some st'
                  \<and> resume_answer edit_request hv st st'"
proof -
  have "case pause_run [edit_attach, edit_call []] edit_session of None \<Rightarrow> False
      | Some st \<Rightarrow> map_option hv_state (peek (rq_pauseId edit_request) (ps_engine st)) = Some Gs_held"
    by code_simp
  then obtain st hv where st: "pause_run [edit_attach, edit_call []] edit_session = Some st"
    "peek (rq_pauseId edit_request) (ps_engine st) = Some hv" "hv_state hv = Gs_held"
    by (auto split: option.splits)
  have "finite_value (ev_heap (edit_world None promise_heap)) (rq_input edit_request)"
    by (simp add: finite_value_def edit_request_def)
  from resume_is_answered [OF this, of st] show ?thesis using st by auto
qed

theorem validation_always_ends_witness:
  "case pause_run promised_run edit_session of
     None \<Rightarrow> False
   | Some st \<Rightarrow> \<exists>k ck. map_of (ps_checks st) k = Some ck \<and> current_ticket (ck_ticket ck) (ps_engine st)"
proof -
  have "case pause_run promised_run edit_session of None \<Rightarrow> False
      | Some st \<Rightarrow> map_option hv_state (peek (pause_id ''b'' 1) (ps_engine st)) = Some Gs_validating"
    by code_simp
  then obtain st hv where st: "pause_run promised_run edit_session = Some st"
    "peek (pause_id ''b'' 1) (ps_engine st) = Some hv" "hv_state hv = Gs_validating"
    by (auto split: option.splits)
  from validation_always_ends [OF st(1) [unfolded edit_session_def] st(2,3)] show ?thesis
    using st(1) by auto
qed

end
