(* ===== verification/Json_Scan.thy ===== *)
theory Json_Scan
  imports Js_Value
begin

text \<open>
  Reading JSON text without parsing it, as \<open>packages/schema/src/shrink.ts\<close> does: the length of a text
  in UTF-8 (\<open>utf8ByteLength\<close>, \<open>countUtf8Bytes\<close>) and where the top-level fields of an object sit in
  its text (\<open>stringEnd\<close>, \<open>topLevelSpans\<close>).

  The lemmas show that the length counted in chunks is the length of the encoding, for well-formed
  text - the chunks split pairs in text that is not - and that the spans found in the text of an object
  are those of its values.
\<close>

section \<open>UTF-8\<close>

text \<open>The bytes of the UTF-8 encoding; a surrogate without its other half is encoded as U+FFFD.\<close>

fun utf8_unit :: "nat \<Rightarrow> nat list" where
  "utf8_unit u =
     (if u < 128 then [u]
      else if u < 2048 then [192 + u div 64, 128 + u mod 64]
      else if high_surrogate u \<or> low_surrogate u then [239, 191, 189]
      else [224 + u div 4096, 128 + u div 64 mod 64, 128 + u mod 64])"

definition utf8_pair :: "nat \<Rightarrow> nat \<Rightarrow> nat list" where
  "utf8_pair u v =
     (let c = 65536 + (u - 55296) * 1024 + (v - 56320)
      in [240 + c div 262144, 128 + c div 4096 mod 64, 128 + c div 64 mod 64, 128 + c mod 64])"

fun utf8 :: "jstr \<Rightarrow> nat list" where
  "utf8 [] = []"
| "utf8 [u] = utf8_unit u"
| "utf8 (u # v # s) =
     (if high_surrogate u \<and> low_surrogate v then utf8_pair u v @ utf8 s else utf8_unit u @ utf8 (v # s))"

fun countUtf8Bytes :: "jstr \<Rightarrow> nat" where
  "countUtf8Bytes [] = 0"
| "countUtf8Bytes [u] = (if u < 128 then 1 else if u < 2048 then 2 else 3)"
| "countUtf8Bytes (u # v # s) =
     (if u < 128 then 1 + countUtf8Bytes (v # s)
      else if u < 2048 then 2 + countUtf8Bytes (v # s)
      else if high_surrogate u \<and> low_surrogate v then 4 + countUtf8Bytes s
      else 3 + countUtf8Bytes (v # s))"

text \<open>
  \<open>TextEncoder.encodeInto\<close>: the code points that fit into the room left, as units read and bytes
  written.
\<close>

fun encodeInto :: "nat \<Rightarrow> jstr \<Rightarrow> nat \<times> nat" where
  "encodeInto room [] = (0, 0)"
| "encodeInto room [u] = (let n = length (utf8_unit u) in if n \<le> room then (1, n) else (0, 0))"
| "encodeInto room (u # v # s) =
     (if high_surrogate u \<and> low_surrogate v
      then if 4 \<le> room then (let (r, w) = encodeInto (room - 4) s in (r + 2, w + 4)) else (0, 0)
      else let n = length (utf8_unit u)
           in if n \<le> room then (let (r, w) = encodeInto (room - n) (v # s) in (r + 1, w + n)) else (0, 0))"

definition ENCODE_CHUNK :: nat where "ENCODE_CHUNK = 65536"

text \<open>The end of the chunk that starts at \<open>start\<close>.\<close>

definition chunk_end :: "jstr \<Rightarrow> nat \<Rightarrow> nat" where
  "chunk_end s start =
     (let e = min (start + ENCODE_CHUNK) (length s)
      in if high_surrogate (s ! (e - 1)) \<and> e < length s then e + 1 else e)"

lemma chunk_end_later: "start < length s \<Longrightarrow> start < chunk_end s start"
  by (auto simp: chunk_end_def ENCODE_CHUNK_def Let_def min_def)

text \<open>The loop over the chunks; None: the encoder did not read a whole chunk.\<close>

function count_chunks :: "jstr \<Rightarrow> nat \<Rightarrow> nat \<Rightarrow> nat option" where
  "count_chunks s start bytes =
     (if length s \<le> start then Some bytes
      else let e = chunk_end s start;
               chunk = take (e - start) (drop start s);
               (r, w) = encodeInto (ENCODE_CHUNK * 3 + 4) chunk
           in if r \<noteq> length chunk then None else count_chunks s e (bytes + w))"
  by pat_completeness auto
termination
  by (relation "measure (\<lambda>(s, start, bytes). length s - start)")
    (auto simp: chunk_end_later diff_less_mono2)

declare count_chunks.simps [simp del]

text \<open>\<open>encoder\<close>: whether the platform has a \<open>TextEncoder\<close>.\<close>

definition utf8ByteLength :: "bool \<Rightarrow> jstr \<Rightarrow> nat" where
  "utf8ByteLength encoder s =
     (if \<not> encoder then countUtf8Bytes s
      else case count_chunks s 0 0 of None \<Rightarrow> countUtf8Bytes s | Some n \<Rightarrow> n)"

text \<open>Every surrogate has its other half.\<close>

fun well_formed :: "jstr \<Rightarrow> bool" where
  "well_formed [] \<longleftrightarrow> True"
| "well_formed [u] \<longleftrightarrow> \<not> high_surrogate u \<and> \<not> low_surrogate u"
| "well_formed (u # v # s) \<longleftrightarrow>
     (if high_surrogate u then low_surrogate v \<and> well_formed s else \<not> low_surrogate u \<and> well_formed (v # s))"

section \<open>Counting bytes\<close>

lemma surrogates_apart: "high_surrogate u \<Longrightarrow> \<not> low_surrogate u" "high_surrogate u \<Longrightarrow> 2048 \<le> u" "low_surrogate u \<Longrightarrow> 2048 \<le> u"
  by (simp_all add: high_surrogate_def low_surrogate_def)

lemma length_utf8_unit [simp]: "length (utf8_unit u) = (if u < 128 then 1 else if u < 2048 then 2 else 3)"
  by simp

declare utf8_unit.simps [simp del]

lemma countUtf8Bytes_encodes: "countUtf8Bytes s = length (utf8 s)"
  by (induction s rule: utf8.induct) (auto simp: utf8_pair_def Let_def dest: surrogates_apart)

lemma countUtf8Bytes_le: "countUtf8Bytes s \<le> 3 * length s"
  by (induction s rule: countUtf8Bytes.induct) auto

lemma countUtf8Bytes_low: "low_surrogate u \<Longrightarrow> countUtf8Bytes (u # s) = 3 + countUtf8Bytes s"
  by (cases s) (auto dest: surrogates_apart simp: high_surrogate_def low_surrogate_def)

lemma countUtf8Bytes_append_le: "countUtf8Bytes (s @ t) \<le> countUtf8Bytes s + countUtf8Bytes t"
proof (induction s rule: countUtf8Bytes.induct)
  case (2 u)
  show ?case by (cases t) (auto simp: countUtf8Bytes_low)
qed auto

text \<open>No pair sits across the seam.\<close>

definition seam :: "jstr \<Rightarrow> jstr \<Rightarrow> bool" where
  "seam s t \<longleftrightarrow> s = [] \<or> t = [] \<or> \<not> (high_surrogate (last s) \<and> low_surrogate (hd t))"

lemma countUtf8Bytes_append: "seam s t \<Longrightarrow> countUtf8Bytes (s @ t) = countUtf8Bytes s + countUtf8Bytes t"
proof (induction s rule: countUtf8Bytes.induct)
  case (2 u)
  then show ?case by (cases t) (auto simp: seam_def)
next
  case (3 u v s)
  then show ?case by (cases "s = []") (auto simp: seam_def)
qed simp

lemma encodeInto_all: "countUtf8Bytes s \<le> room \<Longrightarrow> encodeInto room s = (length s, countUtf8Bytes s)"
proof (induction room s rule: encodeInto.induct)
  case (3 room u v s)
  show ?case
  proof (cases "high_surrogate u \<and> low_surrogate v")
    case True
    then show ?thesis using 3 by (auto dest: surrogates_apart)
  next
    case False
    then show ?thesis using 3 by (auto simp: Let_def split: if_splits)
  qed
qed (simp_all add: Let_def split: if_splits)

lemma well_formed_cut:
  "\<lbrakk>well_formed s; 0 < k; k \<le> length s; \<not> high_surrogate (s ! (k - 1))\<rbrakk> \<Longrightarrow> well_formed (drop k s)"
proof (induction s arbitrary: k rule: well_formed.induct)
  case (2 u)
  then show ?case by (cases k) auto
next
  case (3 u v s)
  show ?case
  proof (cases "high_surrogate u")
    case True
    then have "2 \<le> k" using 3 by (cases "k = 1") auto
    then obtain j where k: "k = Suc (Suc j)" by (metis add_2_eq_Suc le_Suc_ex)
    show ?thesis
    proof (cases j)
      case 0
      then show ?thesis using 3 True k by simp
    next
      case (Suc i)
      then show ?thesis using 3(1) [of j] 3(3-) True k by simp
    qed
  next
    case False
    obtain j where k: "k = Suc j" using 3(4) by (cases k) auto
    show ?thesis
    proof (cases j)
      case 0
      then show ?thesis using 3(3) False k by simp
    next
      case (Suc i)
      then show ?thesis using 3(2) [OF False, of j] 3(3-) False k by simp
    qed
  qed
qed simp

lemma well_formed_pair: "\<lbrakk>well_formed s; Suc k < length s; high_surrogate (s ! k)\<rbrakk> \<Longrightarrow> low_surrogate (s ! Suc k)"
proof (induction s arbitrary: k rule: well_formed.induct)
  case (3 u v s)
  show ?case
  proof (cases k)
    case 0
    then show ?thesis using 3 by auto
  next
    case (Suc i)
    then show ?thesis
      using 3 by (cases i; cases "high_surrogate u") (auto dest: surrogates_apart)
  qed
qed auto

lemma chunk_cut:
  assumes "well_formed (drop start s)" "start < length s"
  defines "e \<equiv> chunk_end s start"
  shows "start < e" "e \<le> length s" "e - start \<le> ENCODE_CHUNK + 1" "well_formed (drop e s)"
    "countUtf8Bytes (drop start s) = countUtf8Bytes (take (e - start) (drop start s)) + countUtf8Bytes (drop e s)"
proof -
  let ?e = "min (start + ENCODE_CHUNK) (length s)" and ?s = "drop start s"
  show "start < e" using chunk_end_later [OF assms(2)] by (simp add: e_def)
  show "e \<le> length s" by (auto simp: e_def chunk_end_def Let_def)
  show "e - start \<le> ENCODE_CHUNK + 1" by (auto simp: e_def chunk_end_def Let_def)
  have "e = length s \<or> \<not> high_surrogate (s ! (e - 1))"
  proof (cases "high_surrogate (s ! (?e - 1)) \<and> ?e < length s")
    case True
    then have e: "e = Suc ?e" by (simp add: e_def chunk_end_def Let_def)
    have later: "start < ?e" using assms(2) by (simp add: ENCODE_CHUNK_def)
    define j where "j = ?e - 1 - start"
    have j: "?e = Suc (start + j)" using later unfolding j_def by linarith
    have "low_surrogate (?s ! Suc j)"
      using well_formed_pair [OF assms(1), of j] True less_diff_conv [of "Suc j" "length s" start]
      unfolding j by (simp add: add.commute)
    then have "low_surrogate (s ! (e - 1))" using e True unfolding j by simp
    then show ?thesis using surrogates_apart(1) by blast
  next
    case False
    then have "e = ?e" by (simp add: e_def chunk_end_def Let_def)
    then show ?thesis using False by auto
  qed
  then have cut: "e = length s \<or> \<not> high_surrogate (?s ! (e - start - 1))"
  proof -
    obtain i where "e = Suc (start + i)" using \<open>start < e\<close> less_iff_Suc_add by auto
    moreover assume "e = length s \<or> \<not> high_surrogate (s ! (e - 1))"
    ultimately show ?thesis using assms(2) by simp
  qed
  show wf: "well_formed (drop e s)"
    using cut well_formed_cut [OF assms(1), of "e - start"] \<open>start < e\<close> \<open>e \<le> length s\<close> by auto
  have "seam (take (e - start) ?s) (drop e s)"
    using cut \<open>start < e\<close> \<open>e \<le> length s\<close> assms(2)
    by (auto simp: seam_def last_conv_nth)
  from countUtf8Bytes_append [OF this]
  show "countUtf8Bytes ?s = countUtf8Bytes (take (e - start) ?s) + countUtf8Bytes (drop e s)"
    using append_take_drop_id [of "e - start" ?s] \<open>start < e\<close> by simp
qed

lemma count_chunks_exact:
  "\<lbrakk>well_formed (drop start s); start \<le> length s\<rbrakk>
   \<Longrightarrow> count_chunks s start bytes = Some (bytes + countUtf8Bytes (drop start s))"
proof (induction s start bytes rule: count_chunks.induct)
  case (1 s start bytes)
  show ?case
  proof (cases "length s \<le> start")
    case True
    then show ?thesis by (simp add: count_chunks.simps)
  next
    case False
    then have start: "start < length s" by simp
    note cut = chunk_cut [OF "1.prems"(1) start]
    let ?e = "chunk_end s start"
    let ?chunk = "take (?e - start) (drop start s)"
    have "length ?chunk \<le> ENCODE_CHUNK + 1" using cut(3) by simp
    then have "countUtf8Bytes ?chunk \<le> ENCODE_CHUNK * 3 + 4" using countUtf8Bytes_le [of ?chunk] by linarith
    then have enc: "encodeInto (ENCODE_CHUNK * 3 + 4) ?chunk = (length ?chunk, countUtf8Bytes ?chunk)"
      by (rule encodeInto_all)
    have "count_chunks s start bytes = count_chunks s ?e (bytes + countUtf8Bytes ?chunk)"
      using start enc by (subst count_chunks.simps) (simp add: Let_def)
    then show ?thesis
      using "1.IH" [OF False refl refl enc [symmetric] refl _ cut(4,2)] cut(5) by simp
  qed
qed

lemma utf8ByteLength_exact: "well_formed s \<Longrightarrow> utf8ByteLength encoder s = countUtf8Bytes s"
  using count_chunks_exact [of 0 s 0] by (simp add: utf8ByteLength_def)

text \<open>
  A chunk that ends behind a high surrogate takes one more unit; when that is a high surrogate of its
  own, its pair is split and counted as two lone halves.
\<close>

definition split_pair :: jstr where
  "split_pair = replicate (ENCODE_CHUNK - 1) 97 @ [55296, 55296, 56320]"

lemma countUtf8Bytes_ascii: "countUtf8Bytes (replicate n 97 @ t) = n + countUtf8Bytes t"
proof (induction n)
  case (Suc n)
  then show ?case by (cases "replicate n 97 @ t") auto
qed simp

lemma chunks_split_a_pair:
  "utf8ByteLength True split_pair = countUtf8Bytes split_pair + 2"
proof -
  let ?a = "replicate (ENCODE_CHUNK - 1) (97 :: nat)"
  have len: "length split_pair = ENCODE_CHUNK + 2" by (simp add: split_pair_def ENCODE_CHUNK_def)
  have "split_pair ! (ENCODE_CHUNK - 1) = 55296" by (simp add: split_pair_def nth_append)
  then have e: "chunk_end split_pair 0 = ENCODE_CHUNK + 1"
    by (simp add: chunk_end_def len high_surrogate_def)
  have "split_pair = (?a @ [55296, 55296]) @ [56320]" "length (?a @ [55296, 55296]) = ENCODE_CHUNK + 1"
    by (simp_all add: split_pair_def ENCODE_CHUNK_def)
  then have take: "take (ENCODE_CHUNK + 1) split_pair = ?a @ [55296, 55296]" "drop (ENCODE_CHUNK + 1) split_pair = [56320]"
    using append_eq_conv_conj [of "?a @ [55296, 55296]" "[56320]" split_pair] by simp_all
  have count: "countUtf8Bytes (?a @ [55296, 55296]) = ENCODE_CHUNK - 1 + 6"
    by (simp only: countUtf8Bytes_ascii) (simp add: high_surrogate_def low_surrogate_def)
  have first: "encodeInto (ENCODE_CHUNK * 3 + 4) (?a @ [55296, 55296]) = (ENCODE_CHUNK + 1, ENCODE_CHUNK - 1 + 6)"
    using encodeInto_all [of "?a @ [55296, 55296]" "ENCODE_CHUNK * 3 + 4"] count by (simp add: ENCODE_CHUNK_def)
  have "count_chunks split_pair 0 0 = count_chunks split_pair (ENCODE_CHUNK + 1) (ENCODE_CHUNK - 1 + 6)"
    using first take by (subst count_chunks.simps) (simp add: len e)
  also have "\<dots> = Some (ENCODE_CHUNK - 1 + 9)"
  proof -
    have "chunk_end split_pair (ENCODE_CHUNK + 1) = ENCODE_CHUNK + 2"
      by (simp add: chunk_end_def len ENCODE_CHUNK_def)
    moreover have "count_chunks split_pair (ENCODE_CHUNK + 2) b = Some b" for b
      by (subst count_chunks.simps) (simp add: len)
    moreover have "encodeInto (ENCODE_CHUNK * 3 + 4) [56320] = (1, 3)" by simp
    ultimately show ?thesis using take(2) by (subst count_chunks.simps) (simp add: len)
  qed
  finally have "utf8ByteLength True split_pair = ENCODE_CHUNK - 1 + 9" by (simp add: utf8ByteLength_def)
  moreover have "countUtf8Bytes split_pair = ENCODE_CHUNK - 1 + 7"
    unfolding split_pair_def countUtf8Bytes_ascii by (simp add: high_surrogate_def low_surrogate_def)
  ultimately show ?thesis by simp
qed

section \<open>JSON text is well-formed\<close>

definition ascii :: "jstr \<Rightarrow> bool" where
  "ascii s \<longleftrightarrow> list_all (\<lambda>c. c < 128) s"

lemma well_formed_ascii_append: "ascii s \<Longrightarrow> well_formed (s @ t) = well_formed t"
proof (induction s)
  case (Cons c s)
  then have "\<not> high_surrogate c" "\<not> low_surrogate c"
    by (auto simp: ascii_def high_surrogate_def low_surrogate_def)
  then show ?case using Cons by (cases "s @ t") (auto simp: ascii_def)
qed simp

lemma countUtf8Bytes_ascii_append: "ascii s \<Longrightarrow> countUtf8Bytes (s @ t) = length s + countUtf8Bytes t"
proof (induction s)
  case (Cons c s)
  then show ?case by (cases "s @ t") (auto simp: ascii_def)
qed simp

lemma ascii_escape: "\<not> high_surrogate c \<Longrightarrow> \<not> low_surrogate c \<Longrightarrow> ascii (escape_unit c) \<or> escape_unit c = [c]"
  by (auto simp: escape_unit_def ascii_def hex4_def hex_digit_def)

lemma ascii_hex4: "ascii (hex4 c)"
proof -
  have "hex_digit (n mod 16) < 128" for n :: nat
  proof -
    have "n mod 16 < 16" by simp
    then show ?thesis by (cases "n mod 16 < 10") (simp_all add: hex_digit_def)
  qed
  then show ?thesis by (simp add: ascii_def hex4_def)
qed

lemma well_formed_escape:
  "\<not> high_surrogate c \<Longrightarrow> \<not> low_surrogate c \<Longrightarrow> well_formed (escape_unit c @ t) = well_formed t"
proof -
  assume c: "\<not> high_surrogate c" "\<not> low_surrogate c"
  then have "well_formed (c # t) = well_formed t" by (cases t) auto
  then show ?thesis using ascii_escape [OF c] well_formed_ascii_append by auto
qed

lemma well_formed_quote_units: "well_formed t \<Longrightarrow> well_formed (quote_units s @ t)"
proof (induction s rule: quote_units.induct)
  case (2 c)
  then show ?case by (auto simp: well_formed_ascii_append ascii_hex4 well_formed_escape)
next
  case (3 c d s)
  then show ?case
    by (auto simp: well_formed_ascii_append ascii_hex4 well_formed_escape)
qed simp

lemma ascii_simps [simp]: "ascii []" "ascii (c # s) \<longleftrightarrow> c < 128 \<and> ascii s" "ascii (s @ t) \<longleftrightarrow> ascii s \<and> ascii t"
  by (auto simp: ascii_def)

lemma ascii_lit: "list_all (\<lambda>c. of_char c < (128::nat)) s \<Longrightarrow> ascii (lit s)"
  by (induction s) (auto simp: lit_def)

lemma ascii_number: "number_texts T \<Longrightarrow> ascii (T q)"
  by (fastforce simp: number_texts_def ascii_def list_all_iff)

lemma well_formed_cons: "c < 128 \<Longrightarrow> well_formed (c # t) = well_formed t"
  using well_formed_ascii_append [of "[c]" t] by simp

lemma well_formed_quote: "well_formed t \<Longrightarrow> well_formed (quote s @ t)"
  by (simp add: quote_def well_formed_cons well_formed_quote_units)

lemma well_formed_commas:
  assumes "\<And>x t. x \<in> set xs \<Longrightarrow> well_formed t \<Longrightarrow> well_formed (f x @ t)" "well_formed t"
  shows "well_formed (commas (map f xs) @ t)"
  using assms
proof (induction xs)
  case (Cons x xs)
  then show ?case by (cases xs) (simp_all add: well_formed_cons)
qed simp

lemma well_formed_print: "\<lbrakk>number_texts T; well_formed t\<rbrakk> \<Longrightarrow> well_formed (print_json T v @ t)"
proof (induction T v arbitrary: t rule: print_json.induct)
  case (1 T)
  then show ?case by (simp add: high_surrogate_def low_surrogate_def well_formed_cons)
next
  case (2 T b)
  then show ?case by (simp add: bool_text_def high_surrogate_def low_surrogate_def well_formed_cons)
next
  case (3 T q)
  then show ?case by (simp add: well_formed_ascii_append ascii_number)
next
  case (4 T s)
  then show ?case by (simp add: well_formed_quote)
next
  case (5 T xs)
  then show ?case by (simp add: well_formed_cons well_formed_commas)
next
  case (6 T kvs)
  have "well_formed ((quote (fst kv) @ [58] @ print_json T (snd kv)) @ u)" if "kv \<in> set kvs" "well_formed u" for kv u
    using 6 that by (simp add: well_formed_quote well_formed_cons)
  then show ?case using 6(3) by (simp add: well_formed_cons well_formed_commas)
qed

section \<open>Spans in the text of an object\<close>

text \<open>\<open>json.indexOf(unit, from)\<close>.\<close>

definition index_from :: "nat \<Rightarrow> jstr \<Rightarrow> nat \<Rightarrow> nat option" where
  "index_from c s i =
     (let k = i + length (takeWhile (\<lambda>x. x \<noteq> c) (drop i s)) in if k < length s then Some k else None)"

lemma index_from_later: "index_from c s i = Some k \<Longrightarrow> i \<le> k \<and> k < length s"
  by (auto simp: index_from_def Let_def split: if_splits)

text \<open>The backslashes that end a text.\<close>

definition backslashes :: "jstr \<Rightarrow> nat" where
  "backslashes s = length (takeWhile (\<lambda>c. c = 92) (rev s))"

function quote_end :: "jstr \<Rightarrow> nat \<Rightarrow> nat option" where
  "quote_end s i =
     (case index_from 34 s i of
        None \<Rightarrow> None
      | Some k \<Rightarrow> if even (backslashes (take k s)) then Some k else quote_end s (Suc k))"
  by pat_completeness auto
termination
  by (relation "measure (\<lambda>(s, i). length s - i)") (auto dest!: index_from_later)

declare quote_end.simps [simp del]

definition stringEnd :: "jstr \<Rightarrow> nat \<Rightarrow> nat option" where
  "stringEnd s open_at = quote_end s (Suc open_at)"

lemma quote_end_later: "quote_end s i = Some e \<Longrightarrow> i \<le> e \<and> e < length s"
proof (induction s i rule: quote_end.induct)
  case (1 s i)
  then show ?case
    by (subst (asm) (2) quote_end.simps) (fastforce split: option.splits if_splits dest: index_from_later)
qed

lemma stringEnd_later: "stringEnd s i = Some e \<Longrightarrow> i < e \<and> e < length s"
  using quote_end_later [of s "Suc i" e] by (simp add: stringEnd_def)

text \<open>The end of the value at \<open>j\<close>: where a comma or a closing bracket stands outside it.\<close>

function value_end :: "jstr \<Rightarrow> nat \<Rightarrow> nat \<Rightarrow> nat option" where
  "value_end s depth j =
     (if length s \<le> j then None
      else let u = s ! j
           in if u = 34
              then (case stringEnd s j of None \<Rightarrow> None | Some e \<Rightarrow> value_end s depth (Suc e))
              else if u = 123 \<or> u = 91 then value_end s (Suc depth) (Suc j)
              else if u = 125 \<or> u = 93 then if depth = 0 then Some j else value_end s (depth - 1) (Suc j)
              else if u = 44 \<and> depth = 0 then Some j
              else value_end s depth (Suc j))"
  by pat_completeness auto
termination
  by (relation "measure (\<lambda>(s, depth, j). length s - j)") (auto dest!: stringEnd_later)

declare value_end.simps [simp del]

lemma value_end_later: "value_end s depth j = Some e \<Longrightarrow> j \<le> e \<and> e < length s"
proof (induction s depth j rule: value_end.induct)
  case (1 s depth j)
  note step = 1(5) [unfolded value_end.simps [of s depth j] Let_def]
  have now: "\<not> length s \<le> j" using step by (auto split: if_splits)
  consider (quoted) e' where "s ! j = 34" "stringEnd s j = Some e'" "value_end s depth (Suc e') = Some e"
    | (opens) "s ! j \<noteq> 34" "s ! j = 123 \<or> s ! j = 91" "value_end s (Suc depth) (Suc j) = Some e"
    | (closes) "s ! j \<noteq> 34" "\<not> (s ! j = 123 \<or> s ! j = 91)" "s ! j = 125 \<or> s ! j = 93" "depth \<noteq> 0"
        "value_end s (depth - 1) (Suc j) = Some e"
    | (ends) "e = j"
    | (other) "s ! j \<noteq> 34" "\<not> (s ! j = 123 \<or> s ! j = 91)" "\<not> (s ! j = 125 \<or> s ! j = 93)"
        "\<not> (s ! j = 44 \<and> depth = 0)" "value_end s depth (Suc j) = Some e"
    using step now by (auto split: if_splits option.splits)
  then show ?case
  proof cases
    case quoted
    then show ?thesis using 1(1) [OF now refl quoted] stringEnd_later [OF quoted(2)] by auto
  next
    case opens
    then show ?thesis using 1(2) [OF now refl opens(1,2)] by auto
  next
    case closes
    then show ?thesis using 1(3) [OF now refl closes(1-4)] by auto
  next
    case ends
    then show ?thesis using now by simp
  next
    case other
    then show ?thesis using 1(4) [OF now refl other(1-4)] by auto
  qed
qed

text \<open>\<open>JSON.parse\<close> of the text of a string.\<close>

definition parse_key :: "jstr \<Rightarrow> jstr option" where
  "parse_key s = (case unquote (tl s) of Some (k, []) \<Rightarrow> Some k | _ \<Rightarrow> None)"

function span_loop :: "jstr \<Rightarrow> nat \<Rightarrow> (jstr, nat \<times> nat) omap \<Rightarrow> (jstr, nat \<times> nat) omap option" where
  "span_loop s i spans =
     (if length s \<le> i \<or> s ! i \<noteq> 34 then None
      else case stringEnd s i of
             None \<Rightarrow> None
           | Some keyEnd \<Rightarrow>
               (case parse_key (take (Suc keyEnd - i) (drop i s)) of
                  None \<Rightarrow> None
                | Some key \<Rightarrow>
                    if length s \<le> Suc keyEnd \<or> s ! Suc keyEnd \<noteq> 58 then None
                    else case value_end s 0 (keyEnd + 2) of
                           None \<Rightarrow> None
                         | Some j \<Rightarrow>
                             if j = keyEnd + 2 then None
                             else let spans' = AList.update key (keyEnd + 2, j) spans
                                  in if s ! j = 125 then if j = length s - 1 then Some spans' else None
                                     else span_loop s (Suc j) spans'))"
  by pat_completeness auto
termination
  by (relation "measure (\<lambda>(s, i, spans). length s - i)") (auto dest!: value_end_later stringEnd_later)

declare span_loop.simps [simp del]

definition topLevelSpans :: "jstr \<Rightarrow> (jstr, nat \<times> nat) omap option" where
  "topLevelSpans s =
     (if s = [] \<or> hd s \<noteq> 123 then None else if s = [123, 125] then Some [] else span_loop s 1 [])"

subsection \<open>Where a string ends\<close>

text \<open>Reading forward from behind the opening quote, a unit behind a backslash is skipped.\<close>

fun closing :: "jstr \<Rightarrow> nat option" where
  "closing [] = None"
| "closing [c] = (if c = 34 then Some 0 else None)"
| "closing (c # d # s) =
     (if c = 92 then map_option (\<lambda>n. n + 2) (closing s)
      else if c = 34 then Some 0 else map_option Suc (closing (d # s)))"

lemma backslashes_snoc: "backslashes (p @ [c]) = (if c = 92 then Suc (backslashes p) else 0)"
  by (simp add: backslashes_def)

lemma index_from_step: "index_from c (p @ x # s) (length p) = (if x = c then Some (length p) else index_from c (p @ x # s) (Suc (length p)))"
  by (simp add: index_from_def)

lemma index_from_end: "index_from c p (length p) = None"
  by (simp add: index_from_def)

lemma quote_end_step: "x \<noteq> 34 \<Longrightarrow> quote_end (p @ x # s) (length p) = quote_end (p @ x # s) (Suc (length p))"
  by (subst (1 2) quote_end.simps) (simp add: index_from_step [of 34 p x s])

lemma quote_end_closing:
  "even (backslashes p) \<Longrightarrow> quote_end (p @ s) (length p) = map_option (\<lambda>n. length p + n) (closing s)"
proof (induction s arbitrary: p rule: closing.induct)
  case 1
  then show ?case by (subst quote_end.simps) (simp add: index_from_end)
next
  case (2 c)
  have "index_from 34 (p @ [c]) (Suc (length p)) = None" using index_from_end [of 34 "p @ [c]"] by simp
  then show ?case using 2 by (subst quote_end.simps) (simp add: index_from_step)
next
  case (3 c d s)
  have p1: "quote_end (p @ c # d # s) (Suc (length p)) = quote_end ((p @ [c]) @ d # s) (length (p @ [c]))" by simp
  have p2: "quote_end (p @ c # d # s) (Suc (Suc (length p))) = quote_end ((p @ [c, d]) @ s) (length (p @ [c, d]))" by simp
  consider "c = 92" | "c = 34" | "c \<noteq> 92" "c \<noteq> 34" by blast
  then show ?case
  proof cases
    case 1
    have parity: "even (backslashes (p @ [c, d]))"
      using 3(3) 1 backslashes_snoc [of "p @ [c]" d] backslashes_snoc [of p c] by simp
    have "quote_end (p @ c # d # s) (length p) = quote_end (p @ c # d # s) (Suc (length p))"
      using 1 by (intro quote_end_step) simp
    also have "\<dots> = quote_end (p @ c # d # s) (Suc (Suc (length p)))"
    proof (cases "d = 34")
      case True
      have "odd (backslashes (p @ [c]))" using 3(3) 1 by (simp add: backslashes_snoc)
      then show ?thesis
        using index_from_step [of 34 "p @ [c]" d s] True by (subst quote_end.simps) simp
    next
      case False
      then show ?thesis using quote_end_step [of d "p @ [c]" s] by simp
    qed
    also have "\<dots> = map_option (\<lambda>n. length (p @ [c, d]) + n) (closing s)"
      unfolding p2 by (rule 3(1) [OF 1 parity])
    finally show ?thesis using 1 by (simp add: option.map_comp comp_def)
  next
    case 2
    then show ?thesis using 3(3) by (subst quote_end.simps) (simp add: index_from_step)
  next
    case 3
    have "quote_end (p @ c # d # s) (length p) = map_option (\<lambda>n. length (p @ [c]) + n) (closing (d # s))"
      using quote_end_step [OF 3(2)] "3.IH"(2) [OF 3, of "p @ [c]"] 3 unfolding p1 by (simp add: backslashes_snoc)
    then show ?thesis using 3 by (simp add: option.map_comp comp_def)
  qed
qed

lemma closing_raw: "c \<noteq> 92 \<Longrightarrow> c \<noteq> 34 \<Longrightarrow> closing (c # s) = map_option Suc (closing s)"
  by (cases s) auto

lemma closing_hex4: "closing (hex4 n @ s) = map_option (\<lambda>k. k + 6) (closing s)"
proof -
  have "hex_digit (m mod 16) \<noteq> 92 \<and> hex_digit (m mod 16) \<noteq> 34" for m :: nat
  proof -
    have "m mod 16 < 16" by simp
    then show ?thesis by (cases "m mod 16 < 10") (simp_all add: hex_digit_def)
  qed
  then show ?thesis by (cases "closing s") (simp_all add: hex4_def closing_raw)
qed

lemma closing_escape: "closing (escape_unit c @ s) = map_option (\<lambda>k. k + length (escape_unit c)) (closing s)"
proof -
  have "length (hex4 c) = 6" by (simp add: hex4_def)
  then show ?thesis by (auto simp: escape_unit_def closing_raw closing_hex4)
qed

lemma closing_quote_units: "closing (quote_units t @ 34 # r) = Some (length (quote_units t))"
proof (induction t rule: quote_units.induct)
  case 1
  then show ?case by (cases r) auto
next
  case (2 c)
  have "closing (34 # r) = Some 0" by (cases r) auto
  moreover have "length (hex4 c) = 6" by (simp add: hex4_def)
  ultimately show ?case by (auto simp: closing_hex4 closing_escape)
next
  case (3 c d s)
  have pair: "c \<noteq> 92 \<and> c \<noteq> 34 \<and> d \<noteq> 92 \<and> d \<noteq> 34" if "high_surrogate c \<and> low_surrogate d"
    using that by (auto simp: high_surrogate_def low_surrogate_def)
  have "length (hex4 c) = 6" by (simp add: hex4_def)
  then show ?case using 3 pair by (auto simp: closing_hex4 closing_escape closing_raw)
qed

lemma stringEnd_quote: "stringEnd (p @ quote t @ r) (length p) = Some (length p + length (quote_units t) + 1)"
  using quote_end_closing [of "p @ [34]" "quote_units t @ 34 # r"]
  by (simp add: stringEnd_def quote_def closing_quote_units backslashes_snoc)

subsection \<open>Where a value ends\<close>

text \<open>Text that the search for the end of a value runs over, at least \<open>k\<close> brackets deep.\<close>

definition run_over :: "nat \<Rightarrow> jstr \<Rightarrow> bool" where
  "run_over k x \<longleftrightarrow>
     (\<forall>p r d. k \<le> d \<longrightarrow> value_end (p @ x @ r) d (length p) = value_end (p @ x @ r) d (length (p @ x)))"

lemma run_over_le: "run_over k x \<Longrightarrow> k \<le> l \<Longrightarrow> run_over l x"
  by (simp add: run_over_def)

lemma run_over_Nil: "run_over k []"
  by (simp add: run_over_def)

lemma run_over_append:
  assumes "run_over k x" "run_over k y"
  shows "run_over k (x @ y)"
  unfolding run_over_def
proof (intro allI impI)
  fix p r and d :: nat
  assume d: "k \<le> d"
  have "value_end (p @ x @ (y @ r)) d (length p) = value_end (p @ x @ (y @ r)) d (length (p @ x))"
    using assms(1) d unfolding run_over_def by blast
  also have "\<dots> = value_end ((p @ x) @ y @ r) d (length ((p @ x) @ y))"
    using assms(2) [unfolded run_over_def, rule_format, of d "p @ x" r] d by simp
  finally show "value_end (p @ (x @ y) @ r) d (length p) = value_end (p @ (x @ y) @ r) d (length (p @ x @ y))" by simp
qed

lemma run_over_unit: "c \<notin> {34, 123, 91, 125, 93} \<Longrightarrow> c \<noteq> 44 \<or> 0 < k \<Longrightarrow> run_over k [c]"
  unfolding run_over_def by (intro allI impI, subst value_end.simps) (auto simp: Let_def)

lemma run_over_plain: "\<forall>c\<in>set x. c \<notin> {34, 123, 91, 125, 93, 44} \<Longrightarrow> run_over k x"
proof (induction x)
  case (Cons c x)
  have "run_over k [c]" by (rule run_over_unit) (use Cons.prems in auto)
  then show ?case using run_over_append [of k "[c]" x] Cons by simp
qed (simp add: run_over_Nil)

lemma run_over_quote: "run_over k (quote t)"
proof -
  have "value_end (p @ quote t @ r) d (length p) = value_end (p @ quote t @ r) d (length (p @ quote t))" for p r d
    using stringEnd_quote [of p t r]
    by (subst value_end.simps) (simp add: Let_def quote_def)
  then show ?thesis by (simp add: run_over_def)
qed

lemma run_over_brackets:
  assumes "run_over (Suc 0) x" "b \<in> {123, 91}" "e \<in> {125, 93}"
  shows "run_over k ([b] @ x @ [e])"
  unfolding run_over_def
proof (intro allI impI)
  fix p r and d :: nat
  let ?s = "p @ ([b] @ x @ [e]) @ r"
  have "value_end ?s d (length p) = value_end ?s (Suc d) (Suc (length p))"
    using assms(2) by (subst value_end.simps) (auto simp: Let_def)
  also have "\<dots> = value_end ((p @ [b]) @ x @ ([e] @ r)) (Suc d) (length (p @ [b]))" by simp
  also have "\<dots> = value_end ((p @ [b]) @ x @ ([e] @ r)) (Suc d) (length ((p @ [b]) @ x))"
    using assms(1) [unfolded run_over_def, rule_format, of "Suc d" "p @ [b]" "[e] @ r"] by simp
  also have "\<dots> = value_end ?s d (length (p @ [b] @ x @ [e]))"
    using assms(3) nth_append_length [of "p @ [b] @ x" e r]
    by (subst value_end.simps) (auto simp: Let_def)
  finally show "value_end ?s d (length p) = value_end ?s d (length (p @ [b] @ x @ [e]))" .
qed

lemma run_over_commas:
  assumes "\<And>x. x \<in> set xs \<Longrightarrow> run_over (Suc 0) (f x)"
  shows "run_over (Suc 0) (commas (map f xs))"
  using assms
proof (induction xs)
  case (Cons x xs)
  have "run_over (Suc 0) [44]" by (rule run_over_unit) auto
  then show ?case
    using Cons run_over_append [of "Suc 0" "f x"] run_over_append [of "Suc 0" "[44]"] by (cases xs) auto
qed (simp add: run_over_Nil)

lemma run_over_print: "number_texts T \<Longrightarrow> run_over k (print_json T v)"
proof (induction T v arbitrary: k rule: print_json.induct)
  case (1 T)
  then show ?case by (auto intro: run_over_plain)
next
  case (2 T b)
  then show ?case by (auto simp: bool_text_def intro: run_over_plain)
next
  case (3 T q)
  then have "\<forall>c\<in>set (T q). c \<in> {43, 45, 46, 101} \<or> 48 \<le> c \<and> c \<le> 57" by (simp add: number_texts_def)
  then have "\<forall>c\<in>set (T q). c \<notin> {34, 123, 91, 125, 93, 44}" by fastforce
  then show ?case by (simp add: run_over_plain)
next
  case (4 T s)
  then show ?case by (simp add: run_over_quote)
next
  case (5 T xs)
  then show ?case using run_over_brackets [OF run_over_commas, of xs "print_json T" 91 93] by simp
next
  case (6 T kvs)
  have "run_over (Suc 0) [58]" by (rule run_over_unit) auto
  then have "run_over (Suc 0) (quote (fst kv) @ [58] @ print_json T (snd kv))" if "kv \<in> set kvs" for kv
    using 6 that by (intro run_over_append run_over_quote) auto
  from run_over_brackets [OF run_over_commas, of kvs "\<lambda>kv. quote (fst kv) @ [58] @ print_json T (snd kv)", OF this, of 123 125]
  show ?case by simp
qed

lemma value_end_here: "c \<in> {44, 125} \<Longrightarrow> value_end (p @ c # r) 0 (length p) = Some (length p)"
  by (subst value_end.simps) (auto simp: Let_def)

subsection \<open>The spans of the fields\<close>

text \<open>Where the values sit when the fields are written from position \<open>i\<close> on.\<close>

fun spans_of :: "(rat \<Rightarrow> jstr) \<Rightarrow> nat \<Rightarrow> (jstr \<times> json) list \<Rightarrow> (jstr, nat \<times> nat) omap" where
  "spans_of T i [] = []"
| "spans_of T i ((k, v) # kvs) =
     (let start = i + length (quote k) + 1; e = start + length (print_json T v)
      in (k, (start, e)) # spans_of T (e + 1) kvs)"

abbreviation field_json :: "(rat \<Rightarrow> jstr) \<Rightarrow> jstr \<times> json \<Rightarrow> jstr" where
  "field_json T \<equiv> (\<lambda>kv. quote (fst kv) @ [58] @ print_json T (snd kv))"

lemma parse_key_quote: "parse_key (quote k) = Some k"
  using unquote_quote_units [of k "[]"] by (simp add: parse_key_def quote_def)

lemma print_nonempty: "number_texts T \<Longrightarrow> print_json T v \<noteq> []"
  by (cases v) (auto simp: bool_text_def number_texts_def)

lemma span_loop_step:
  assumes T: "number_texts T" and s: "s = p @ field_json T (k, v) @ c # r" and c: "c \<in> {44, 125}"
  defines "start \<equiv> length p + length (quote k) + 1"
  defines "e \<equiv> start + length (print_json T v)"
  shows "span_loop s (length p) spans =
    (let spans' = AList.update k (start, e) spans
     in if c = 125 then if r = [] then Some spans' else None else span_loop s (e + 1) spans')"
proof -
  have first: "\<not> (length s \<le> length p \<or> s ! length p \<noteq> 34)" by (simp add: s quote_def)
  have string: "stringEnd s (length p) = Some (length p + length (quote_units k) + 1)"
    using stringEnd_quote [of p k] by (simp add: s)
  let ?ke = "length p + length (quote_units k) + 1"
  have q: "length (quote k) = length (quote_units k) + 2" by (simp add: quote_def)
  have "take (Suc ?ke - length p) (drop (length p) s) = quote k" by (simp add: s q)
  then have key: "parse_key (take (Suc ?ke - length p) (drop (length p) s)) = Some k" by (simp only: parse_key_quote)
  have split: "s = (p @ quote k @ [58]) @ print_json T v @ c # r" by (simp add: s)
  have colon: "\<not> (length s \<le> Suc ?ke \<or> s ! Suc ?ke \<noteq> 58)"
    using nth_append_length [of "p @ quote k" 58] by (simp add: s q)
  have at_start: "length (p @ quote k @ [58]) = start" "?ke + 2 = start" by (simp_all add: start_def q)
  have "value_end s 0 start = value_end ((p @ quote k @ [58]) @ print_json T v @ c # r) 0 (length (p @ quote k @ [58]))"
    using split at_start(1) by simp
  also have "\<dots> = value_end ((p @ quote k @ [58]) @ print_json T v @ c # r) 0 (length ((p @ quote k @ [58]) @ print_json T v))"
    using run_over_print [OF T, of 0 v] unfolding run_over_def by blast
  also have "\<dots> = Some e"
    using value_end_here [OF c, of "(p @ quote k @ [58]) @ print_json T v" r] at_start(1) by (simp add: e_def)
  finally have ends: "value_end s 0 (?ke + 2) = Some e" using at_start(2) by simp
  have "e \<noteq> start" using print_nonempty [OF T, of v] by (simp add: e_def)
  moreover have "s ! e = c" "length s = Suc e + length r"
    using nth_append_length [of "(p @ quote k @ [58]) @ print_json T v" c r]
    by (simp_all add: split e_def start_def add.assoc)
  ultimately show ?thesis
    using first string key colon ends at_start(2) c
    by (subst span_loop.simps) (auto simp: Let_def)
qed

lemma update_fresh_append: "k \<notin> fst ` set m \<Longrightarrow> AList.update k v m @ n = m @ (k, v) # n"
  by (simp add: update_fresh)

lemma span_loop_fields:
  assumes T: "number_texts T"
  shows "\<lbrakk>s = p @ commas (map (field_json T) kvs) @ [125]; kvs \<noteq> []; distinct (map fst kvs);
     fst ` set spans \<inter> fst ` set kvs = {}\<rbrakk>
   \<Longrightarrow> span_loop s (length p) spans = Some (spans @ spans_of T (length p) kvs)"
proof (induction kvs arbitrary: p spans)
  case (Cons kv kvs)
  obtain k v where kv: "kv = (k, v)" by (cases kv)
  let ?start = "length p + length (quote k) + 1"
  let ?e = "?start + length (print_json T v)"
  have fresh: "k \<notin> fst ` set spans" using Cons.prems(4) kv by auto
  show ?case
  proof (cases "kvs = []")
    case True
    then have "s = p @ field_json T (k, v) @ 125 # []" using Cons.prems(1) kv by simp
    from span_loop_step [OF T this, of spans] show ?thesis
      using True kv fresh by (simp add: update_fresh)
  next
    case False
    then have s: "s = p @ field_json T (k, v) @ 44 # (commas (map (field_json T) kvs) @ [125])"
      using Cons.prems(1) kv by (cases kvs) simp_all
    have s': "s = (p @ field_json T (k, v) @ [44]) @ commas (map (field_json T) kvs) @ [125]" by (simp add: s)
    have len: "length (p @ field_json T (k, v) @ [44]) = ?e + 1" by simp
    have "span_loop s (length p) spans = span_loop s (?e + 1) (AList.update k (?start, ?e) spans)"
      using span_loop_step [OF T s, of spans] by simp
    also have "\<dots> = Some (AList.update k (?start, ?e) spans @ spans_of T (?e + 1) kvs)"
      using Cons.IH [OF s' False, of "AList.update k (?start, ?e) spans"] Cons.prems(3,4) kv unfolding len by auto
    finally show ?thesis using kv fresh by (simp add: update_fresh_append Let_def)
  qed
qed simp

lemma topLevelSpans_print:
  assumes "number_texts T" "distinct (map fst kvs)"
  shows "topLevelSpans (print_json T (Jn_obj kvs)) = Some (spans_of T 1 kvs)"
proof (cases "kvs = []")
  case True
  then show ?thesis by (simp add: topLevelSpans_def)
next
  case False
  let ?s = "[123] @ commas (map (field_json T) kvs) @ [125]"
  obtain k v r where "kvs = (k, v) # r" using False by (cases kvs) auto
  then have "?s \<noteq> [123, 125]" by (cases r) (auto simp: quote_def)
  then show ?thesis
    using span_loop_fields [OF assms(1), of ?s "[123]" kvs "[]"] False assms(2)
    by (simp add: topLevelSpans_def del: commas.simps)
qed

text \<open>A text cut out at the span of a field is the text of its value.\<close>

definition slice :: "jstr \<Rightarrow> nat \<times> nat \<Rightarrow> jstr" where
  "slice s = (\<lambda>(i, j). take (j - i) (drop i s))"

lemma spans_of_slices:
  "\<lbrakk>s = p @ commas (map (field_json T) kvs) @ t; distinct (map fst kvs)\<rbrakk>
   \<Longrightarrow> map_option (slice s) (map_of (spans_of T (length p) kvs) k) = map_option (print_json T) (map_of kvs k)"
proof (induction kvs arbitrary: p)
  case (Cons kv kvs)
  obtain k' v where kv: "kv = (k', v)" by (cases kv)
  let ?start = "length p + length (quote k') + 1"
  let ?e = "?start + length (print_json T v)"
  have s: "s = p @ field_json T (k', v) @ (if kvs = [] then t else 44 # commas (map (field_json T) kvs) @ t)"
    using Cons.prems(1) kv by (cases kvs) simp_all
  show ?case
  proof (cases "k = k'")
    case True
    have "drop ?start s = print_json T v @ (if kvs = [] then t else 44 # commas (map (field_json T) kvs) @ t)"
      by (simp add: s)
    then have "slice s (?start, ?e) = print_json T v" by (simp add: slice_def)
    then show ?thesis using True kv by (simp add: Let_def)
  next
    case False
    show ?thesis
    proof (cases "kvs = []")
      case True
      then show ?thesis using False kv by (simp add: Let_def)
    next
      case more: False
      then have "s = (p @ field_json T (k', v) @ [44]) @ commas (map (field_json T) kvs) @ t" using s by simp
      from Cons.IH [OF this] show ?thesis using False kv Cons.prems(2) by (simp add: Let_def add.assoc)
    qed
  qed
qed simp

end
