(* ===== verification/Payload_Shrink.thy ===== *)
theory Payload_Shrink
  imports Json_Scan
begin

text \<open>
  \<open>packages/schema/src/shrink.ts\<close>: the payload budget. \<open>serializePayload\<close> turns a payload into JSON
  text; one that is too long, or that has no JSON, is replaced by a smaller one: its biggest fields
  trimmed, the skeleton of the event's schema, or a marker. The schemas are those of
  \<open>packages/schema/src/events.ts\<close> and \<open>primitives.ts\<close>.

  A payload is a tree. What zod makes of a schema is a parameter, relied on to accept what the
  schema says; a getter that throws is outside the model, as is the limit of the length of strings.
\<close>

section \<open>Values\<close>

text \<open>
  \<open>Pv_absent\<close>: undefined, a function, a symbol. An array or object whose JSON its fields do not decide
  - a \<open>toJSON\<close>, a cycle, more depth than the stack has - carries it.
\<close>

datatype pval =
    Pv_absent
  | Pv_null
  | Pv_bool bool
  | Pv_num jsnum
  | Pv_str jstr
  | Pv_big
  | Pv_arr "json_result option" "pval list"
  | Pv_obj "json_result option" "(jstr \<times> pval) list"

type_synonym pfields = "(jstr \<times> pval) list"

fun pv_json :: "pval \<Rightarrow> json_result" where
  "pv_json Pv_absent = Jr_undefined"
| "pv_json Pv_null = Jr_tree Jn_null"
| "pv_json (Pv_bool b) = Jr_tree (Jn_bool b)"
| "pv_json (Pv_num x) = Jr_tree (case x of Fin q \<Rightarrow> Jn_num q | _ \<Rightarrow> Jn_null)"
| "pv_json (Pv_str s) = Jr_tree (Jn_str s)"
| "pv_json Pv_big = Jr_throws"
| "pv_json (Pv_arr (Some r) xs) = r"
| "pv_json (Pv_arr None xs) = as_result Jn_arr (join_items (map pv_json xs))"
| "pv_json (Pv_obj (Some r) fs) = r"
| "pv_json (Pv_obj None fs) = as_result Jn_obj (join_fields (map (\<lambda>(k, v). (k, pv_json v)) fs))"

text \<open>\<open>JSON.stringify(value) ?? 'null'\<close>; None: it throws.\<close>

definition json_tree :: "pval \<Rightarrow> json option" where
  "json_tree v = (case pv_json v of Jr_throws \<Rightarrow> None | Jr_undefined \<Rightarrow> Some Jn_null | Jr_tree t \<Rightarrow> Some t)"

definition safeStringify :: "(rat \<Rightarrow> jstr) \<Rightarrow> pval \<Rightarrow> jstr option" where
  "safeStringify T v = map_option (print_json T) (json_tree v)"

text \<open>A budget; None is \<open>Infinity\<close>.\<close>

type_synonym budget = "nat option"

definition within_budget :: "nat \<Rightarrow> budget \<Rightarrow> bool" where
  "within_budget n b \<longleftrightarrow> (case b of None \<Rightarrow> True | Some m \<Rightarrow> n \<le> m)"

definition half_spent :: "int \<Rightarrow> budget \<Rightarrow> bool" where
  "half_spent n b \<longleftrightarrow> (case b of None \<Rightarrow> True | Some m \<Rightarrow> 2 * n \<le> int m)"

section \<open>Constants and markers\<close>

definition MAX_PAYLOAD_BYTES :: nat where "MAX_PAYLOAD_BYTES = 512 * 1024"
definition PREVIEW_CHARS :: nat where "PREVIEW_CHARS = 2000"
definition TRUNCATION_SUFFIX :: jstr where "TRUNCATION_SUFFIX = 8230 # lit ''[graphmind: truncated]''"
definition MAX_SHRINK_DEPTH :: nat where "MAX_SHRINK_DEPTH = 6"
definition MAX_SHRINK_KEYS :: nat where "MAX_SHRINK_KEYS = 256"
definition MAX_TRIM_FIELDS :: nat where "MAX_TRIM_FIELDS = 4096"
definition SKELETON_CHARS :: nat where "SKELETON_CHARS = 256"
definition SKELETON_MIN_CHARS :: nat where "SKELETON_MIN_CHARS = 32"
definition UNSIZED :: nat where "UNSIZED = 9007199254740991"

definition truncated_key :: jstr where "truncated_key = lit ''__graphmindTruncated''"

definition pnum :: "nat \<Rightarrow> pval" where "pnum n = Pv_num (Fin (of_nat n))"

definition truncation :: "nat \<Rightarrow> jstr \<Rightarrow> pfields" where
  "truncation bytes preview =
     [(truncated_key, Pv_bool True), (lit ''bytes'', pnum bytes), (lit ''preview'', Pv_str preview)]"

text \<open>Assigning properties: \<open>{...object, ...more}\<close>.\<close>

definition assign_all :: "pfields \<Rightarrow> pfields \<Rightarrow> pfields" where
  "assign_all extra fs = fold (\<lambda>(k, v). AList.update k v) extra fs"

section \<open>Shrinking a field\<close>

text \<open>
  \<open>shrinkValue\<close> below the top of a field, and at its top, where \<open>encoded\<close> is the field's text when it is
  known.
\<close>

lemma size_of_kept [termination_simp]:
  "(k, v) \<in> set (take n fs) \<Longrightarrow> size v < Suc (size_list (\<lambda>x. Suc (size (snd x))) fs)"
proof (induction fs arbitrary: n)
  case (Cons x fs)
  show ?case
  proof (cases "(k, v) = x")
    case True
    then show ?thesis by auto
  next
    case False
    then have "size v < Suc (size_list (\<lambda>x. Suc (size (snd x))) fs)"
      using Cons.prems by (cases n) (auto intro: Cons.IH)
    then show ?thesis by simp
  qed
qed simp

fun shrink_inner :: "nat \<Rightarrow> pval \<Rightarrow> pval" where
  "shrink_inner depth (Pv_str s) =
     Pv_str (if length s \<le> PREVIEW_CHARS then s else take PREVIEW_CHARS s @ TRUNCATION_SUFFIX)"
| "shrink_inner depth (Pv_arr ov xs) = Pv_arr None []"
| "shrink_inner depth (Pv_obj ov fs) =
     (if MAX_SHRINK_DEPTH \<le> depth then Pv_obj None (truncation 0 (lit ''[deeply nested]''))
      else let kept = map (\<lambda>(k, v). (k, shrink_inner (Suc depth) v)) (take MAX_SHRINK_KEYS fs);
               dropped = length fs - MAX_SHRINK_KEYS
           in Pv_obj None (if 0 < dropped
                           then assign_all [(truncated_key, Pv_bool True), (lit ''keysDropped'', pnum dropped)] kept
                           else kept))"
| "shrink_inner depth v = v"

definition shrinkValue :: "(rat \<Rightarrow> jstr) \<Rightarrow> jstr option \<Rightarrow> pval \<Rightarrow> pval" where
  "shrinkValue T encoded v =
     (case v of
        Pv_obj ov fs \<Rightarrow>
          (let kept = map (\<lambda>(k, v). (k, shrink_inner 1 v)) (take MAX_SHRINK_KEYS fs);
               dropped = length fs - MAX_SHRINK_KEYS;
               text_of_it = (case encoded of Some e \<Rightarrow> Some e | None \<Rightarrow> safeStringify T v);
               marked = assign_all (case text_of_it of
                                      None \<Rightarrow> truncation 0 (lit ''[unserializable field]'')
                                    | Some e \<Rightarrow> truncation (length e) (take PREVIEW_CHARS e)) kept
           in Pv_obj None (if 0 < dropped then assign_all [(lit ''keysDropped'', pnum dropped)] marked else marked))
      | _ \<Rightarrow> shrink_inner 0 v)"

section \<open>Trimming the biggest fields\<close>

definition field_json_text :: "(rat \<Rightarrow> jstr) \<Rightarrow> jstr \<Rightarrow> (jstr, nat \<times> nat) omap option \<Rightarrow> jstr \<times> pval \<Rightarrow> jstr option" where
  "field_json_text T json spans = (\<lambda>(k, v).
     case Option.bind spans (\<lambda>m. map_of m k) of
       Some sp \<Rightarrow> Some (slice json sp)
     | None \<Rightarrow> safeStringify T v)"

definition field_size :: "jstr option \<Rightarrow> nat" where
  "field_size encoded = (case encoded of None \<Rightarrow> UNSIZED | Some e \<Rightarrow> length e)"

text \<open>Biggest first; equal sizes keep their order.\<close>

definition by_size :: "(jstr \<times> jstr option) list \<Rightarrow> (jstr \<times> jstr option) list" where
  "by_size sizes = sort_key (\<lambda>(k, encoded). - int (field_size encoded)) sizes"

definition payload_at :: "pfields \<Rightarrow> jstr \<Rightarrow> pval" where
  "payload_at fs k = (case map_of fs k of None \<Rightarrow> Pv_absent | Some v \<Rightarrow> v)"

fun trim_loop ::
  "(rat \<Rightarrow> jstr) \<Rightarrow> pfields \<Rightarrow> budget \<Rightarrow> (jstr \<times> jstr option) list \<Rightarrow> int \<Rightarrow> pfields \<Rightarrow> jstr list \<Rightarrow> pfields \<times> jstr list"
where
  "trim_loop T payload maxBytes [] remaining trimmed dropped = (trimmed, dropped)"
| "trim_loop T payload maxBytes ((k, encoded) # sizes) remaining trimmed dropped =
     (if half_spent remaining maxBytes then (trimmed, dropped)
      else trim_loop T payload maxBytes sizes (remaining - int (field_size encoded))
             (AList.update k (shrinkValue T encoded (payload_at payload k)) trimmed) (dropped @ [k]))"

definition names :: "jstr list \<Rightarrow> pval" where "names ks = Pv_arr None (map Pv_str ks)"

definition truncateFields ::
  "(rat \<Rightarrow> jstr) \<Rightarrow> bool \<Rightarrow> json_result option \<Rightarrow> pfields \<Rightarrow> budget \<Rightarrow> nat \<Rightarrow> jstr \<Rightarrow> (jstr \<times> pfields) option" where
  "truncateFields T encoder own_json fs maxBytes totalBytes json =
     (let spans = (if own_json \<noteq> None then None else topLevelSpans json);
          sizes = by_size (map (\<lambda>(k, v). (k, field_json_text T json spans (k, v))) fs);
          (trimmed, dropped) = trim_loop T fs maxBytes sizes (int totalBytes) fs []
      in if dropped = [] then None
         else let result = assign_all (truncation totalBytes (take PREVIEW_CHARS json) @ [(lit ''fields'', names dropped)]) trimmed
              in case safeStringify T (Pv_obj None result) of
                   None \<Rightarrow> None
                 | Some encoded \<Rightarrow>
                     if within_budget (utf8ByteLength encoder encoded) maxBytes then Some (encoded, result) else None)"

section \<open>Fields without JSON\<close>

definition without_json :: "(rat \<Rightarrow> jstr) \<Rightarrow> pval \<Rightarrow> pval" where
  "without_json T v =
     (if safeStringify T v \<noteq> None then v
      else case v of
             Pv_arr ov xs \<Rightarrow> Pv_arr None []
           | _ \<Rightarrow> Pv_obj None (truncation 0 (lit ''[unserializable value]'')))"

definition truncateUnserializableFields :: "(rat \<Rightarrow> jstr) \<Rightarrow> pfields \<Rightarrow> (jstr \<times> pfields) option" where
  "truncateUnserializableFields T fs =
     (let trimmed = map (\<lambda>(k, v). (k, without_json T v)) fs;
          dropped = map fst (filter (\<lambda>(k, v). safeStringify T v = None) fs);
          result = assign_all [(truncated_key, Pv_bool True), (lit ''fields'', names dropped)] trimmed
      in if dropped = [] then None
         else map_option (\<lambda>json. (json, result)) (safeStringify T (Pv_obj None result)))"

section \<open>Event schemas\<close>

text \<open>What the schemas of the events use of zod; a field is required or optional.\<close>

datatype field_schema =
    Fs_unknown
  | Fs_string
  | Fs_enum "string list"
  | Fs_nonnegative
  | Fs_count
  | Fs_positive
  | Fs_boolean
  | Fs_record
  | Fs_array field_schema
  | Fs_object "(string \<times> bool \<times> field_schema) list"

definition NodeKindSchema :: field_schema where
  "NodeKindSchema =
     Fs_enum [''agent'', ''llm'', ''tool'', ''chain'', ''retriever'', ''server'', ''resource'', ''prompt'', ''custom'']"

definition RunStatusSchema :: field_schema where "RunStatusSchema = Fs_enum [''ok'', ''error'', ''aborted'']"
definition PausePointSchema :: field_schema where "PausePointSchema = Fs_enum [''before'', ''after'', ''error'']"
definition ResumeActionSchema :: field_schema where
  "ResumeActionSchema = Fs_enum [''continue'', ''retry'', ''inject'', ''abort'']"

definition ErrorInfoSchema :: field_schema where
  "ErrorInfoSchema = Fs_object [(''name'', True, Fs_string), (''message'', True, Fs_string), (''stack'', False, Fs_string)]"

definition TokenUsageSchema :: field_schema where
  "TokenUsageSchema = Fs_object
     [(''inputTokens'', True, Fs_count), (''outputTokens'', True, Fs_count), (''inclusive'', False, Fs_boolean),
      (''cacheReadTokens'', False, Fs_count), (''cacheWriteTokens'', False, Fs_count), (''reasoningTokens'', False, Fs_count)]"

definition TokenDeltaSchema :: field_schema where
  "TokenDeltaSchema = Fs_object [(''t'', True, Fs_enum [''text'', ''reasoning'', ''tool-args'']), (''v'', True, Fs_string)]"

definition GraphNodeHintSchema :: field_schema where
  "GraphNodeHintSchema = Fs_object
     [(''nodeId'', True, Fs_string), (''kind'', True, NodeKindSchema), (''name'', True, Fs_string), (''parentId'', False, Fs_string)]"

definition SdkInfoSchema :: field_schema where
  "SdkInfoSchema = Fs_object [(''name'', True, Fs_string), (''version'', True, Fs_string)]"

definition RedactionSummarySchema :: field_schema where
  "RedactionSummarySchema = Fs_object [(''count'', True, Fs_count), (''keys'', True, Fs_array Fs_string)]"

definition PauseReasonSchema :: field_schema where
  "PauseReasonSchema = Fs_enum [''breakpoint'', ''error'', ''step'', ''loop'']"

definition LoopInfoSchema :: field_schema where
  "LoopInfoSchema = Fs_object
     [(''repeats'', True, Fs_count), (''firstSeq'', True, Fs_count), (''lastSeq'', True, Fs_count),
      (''fingerprint'', True, Fs_string), (''kind'', False, Fs_enum [''repeat'', ''cycle'', ''error-repeat'']),
      (''period'', False, Fs_positive), (''laps'', False, Fs_positive)]"

definition SmartInfoSchema :: field_schema where
  "SmartInfoSchema = Fs_object
     [(''rule'', True, Fs_enum [''error-result'', ''truncated-tool-call'']), (''detail'', False, Fs_string)]"

definition RefusalCodeSchema :: field_schema where
  "RefusalCodeSchema = Fs_enum [''schema'', ''shape'', ''placeholder'', ''truncated'', ''disabled'', ''unsupported'']"

definition EventPayloadSchemas :: "(string \<times> (string \<times> bool \<times> field_schema) list) list" where
  "EventPayloadSchemas =
     [(''run.started'', [(''app'', True, Fs_string), (''sdk'', True, SdkInfoSchema), (''meta'', False, Fs_record)]),
      (''run.finished'', [(''status'', True, RunStatusSchema), (''error'', False, ErrorInfoSchema)]),
      (''graph.hint'', [(''nodes'', True, Fs_array GraphNodeHintSchema)]),
      (''node.started'',
        [(''nodeId'', True, Fs_string), (''parentId'', False, Fs_string), (''kind'', True, NodeKindSchema),
         (''name'', True, Fs_string), (''instanceId'', True, Fs_string), (''input'', False, Fs_unknown),
         (''collapsed'', False, Fs_boolean), (''redaction'', False, RedactionSummarySchema)]),
      (''node.token'',
        [(''nodeId'', True, Fs_string), (''deltas'', True, Fs_array TokenDeltaSchema),
         (''redaction'', False, RedactionSummarySchema)]),
      (''node.finished'',
        [(''nodeId'', True, Fs_string), (''instanceId'', False, Fs_string), (''output'', False, Fs_unknown),
         (''usage'', False, TokenUsageSchema), (''durationMs'', True, Fs_nonnegative), (''heldMs'', False, Fs_nonnegative),
         (''status'', True, RunStatusSchema), (''redaction'', False, RedactionSummarySchema)]),
      (''node.error'',
        [(''nodeId'', True, Fs_string), (''instanceId'', False, Fs_string), (''error'', True, ErrorInfoSchema),
         (''heldMs'', False, Fs_nonnegative)]),
      (''exec.paused'',
        [(''pauseId'', True, Fs_string), (''nodeId'', True, Fs_string), (''point'', True, PausePointSchema),
         (''reason'', False, PauseReasonSchema), (''loop'', False, LoopInfoSchema), (''smart'', False, SmartInfoSchema),
         (''editable'', False, Fs_boolean), (''instanceId'', False, Fs_string)]),
      (''exec.refused'',
        [(''pauseId'', True, Fs_string), (''code'', True, RefusalCodeSchema), (''message'', False, Fs_string),
         (''requestId'', False, Fs_string)]),
      (''exec.resumed'',
        [(''pauseId'', True, Fs_string), (''action'', True, ResumeActionSchema),
         (''edited'', False, Fs_object [(''after'', True, Fs_unknown)]), (''requestId'', False, Fs_string),
         (''principal'', False, Fs_string)])]"

text \<open>What a schema accepts; a key without a value stands for an absent one only where it is optional.\<close>

definition safe_integer :: "jsnum \<Rightarrow> bool" where
  "safe_integer x \<longleftrightarrow> (case x of Fin q \<Rightarrow> is_js_integer x \<and> \<bar>q\<bar> \<le> 9007199254740991 | _ \<Rightarrow> False)"

definition at_least :: "rat \<Rightarrow> jsnum \<Rightarrow> bool" where
  "at_least q x \<longleftrightarrow> (case x of Fin r \<Rightarrow> q \<le> r | _ \<Rightarrow> False)"

fun accepts :: "field_schema \<Rightarrow> pval \<Rightarrow> bool" where
  "accepts Fs_unknown v \<longleftrightarrow> v \<noteq> Pv_absent"
| "accepts Fs_string v \<longleftrightarrow> (case v of Pv_str s \<Rightarrow> True | _ \<Rightarrow> False)"
| "accepts (Fs_enum choices) v \<longleftrightarrow> (case v of Pv_str s \<Rightarrow> s \<in> lit ` set choices | _ \<Rightarrow> False)"
| "accepts Fs_nonnegative v \<longleftrightarrow> (case v of Pv_num x \<Rightarrow> at_least 0 x | _ \<Rightarrow> False)"
| "accepts Fs_count v \<longleftrightarrow> (case v of Pv_num x \<Rightarrow> safe_integer x \<and> at_least 0 x | _ \<Rightarrow> False)"
| "accepts Fs_positive v \<longleftrightarrow> (case v of Pv_num x \<Rightarrow> safe_integer x \<and> at_least 1 x | _ \<Rightarrow> False)"
| "accepts Fs_boolean v \<longleftrightarrow> (case v of Pv_bool b \<Rightarrow> True | _ \<Rightarrow> False)"
| "accepts Fs_record v \<longleftrightarrow> (case v of Pv_obj ov fs \<Rightarrow> True | _ \<Rightarrow> False)"
| "accepts (Fs_array s) v \<longleftrightarrow> (case v of Pv_arr ov xs \<Rightarrow> list_all (accepts s) xs | _ \<Rightarrow> False)"
| "accepts (Fs_object members) v \<longleftrightarrow>
     (case v of
        Pv_obj ov fs \<Rightarrow>
          list_all (\<lambda>(k, required, s).
            case map_of fs (lit k) of
              None \<Rightarrow> \<not> required
            | Some w \<Rightarrow> accepts s w \<or> \<not> required \<and> w = Pv_absent) members
      | _ \<Rightarrow> False)"

section \<open>Skeletons\<close>

text \<open>A key maps to the plan of its own keys, to null, or is optional.\<close>

datatype plan = Pl_value | Pl_optional | Pl_keys "(jstr \<times> plan) list"

fun planOf :: "field_schema \<Rightarrow> plan" where
  "planOf (Fs_object members) =
     Pl_keys (map (\<lambda>(k, required, s). (lit k, if required then planOf s else Pl_optional)) members)"
| "planOf s = Pl_value"

definition skeletonPlan :: "string \<Rightarrow> (jstr \<times> plan) list option" where
  "skeletonPlan ty =
     (case map_of EventPayloadSchemas ty of
        None \<Rightarrow> None
      | Some members \<Rightarrow> (case planOf (Fs_object members) of Pl_keys ks \<Rightarrow> Some ks | _ \<Rightarrow> None))"

definition omittedMarker :: pval where "omittedMarker = Pv_obj None (truncation 0 (lit ''[omitted]''))"

definition primitive :: "pval \<Rightarrow> bool" where
  "primitive v \<longleftrightarrow> (case v of Pv_str s \<Rightarrow> True | Pv_num x \<Rightarrow> True | Pv_bool b \<Rightarrow> True | _ \<Rightarrow> False)"

text \<open>\<open>keepPlanned\<close> gives the kept fields, the keys kept verbatim, and how many were kept.\<close>

fun hardShrink :: "nat \<Rightarrow> plan \<Rightarrow> pval \<Rightarrow> pval \<times> bool"
  and keepPlanned :: "nat \<Rightarrow> (jstr \<times> plan) list \<Rightarrow> pfields \<Rightarrow> pfields \<times> jstr list \<times> nat" where
  "hardShrink chars plan v =
     (case v of
        Pv_str s \<Rightarrow> if length s \<le> chars then (v, True) else (Pv_str (take chars s @ TRUNCATION_SUFFIX), False)
      | Pv_num x \<Rightarrow> (v, True)
      | Pv_bool b \<Rightarrow> (v, True)
      | Pv_null \<Rightarrow> (v, True)
      | Pv_arr ov xs \<Rightarrow> (Pv_arr None [], xs = [])
      | Pv_obj ov fs \<Rightarrow>
          (case plan of
             Pl_keys ks \<Rightarrow>
               (let (out, verbatim, kept) = keepPlanned chars ks fs
                in (Pv_obj None out, length verbatim = kept \<and> \<not> kept < length fs))
           | _ \<Rightarrow> (omittedMarker, False))
      | _ \<Rightarrow> (omittedMarker, False))"
| "keepPlanned chars [] fs = ([], [], 0)"
| "keepPlanned chars ((key, sub) # ks) fs =
     (case map_of fs key of
        None \<Rightarrow> keepPlanned chars ks fs
      | Some child \<Rightarrow>
          if sub = Pl_optional \<and> \<not> primitive child then keepPlanned chars ks fs
          else let (v, same) = hardShrink chars sub child;
                   (out, verbatim, kept) = keepPlanned chars ks fs
               in ((key, v) # out, if same then key # verbatim else verbatim, Suc kept))"

text \<open>The keys not kept verbatim, until their names alone are over the budget; and their units.\<close>

fun list_lost :: "budget \<Rightarrow> jstr list \<Rightarrow> nat \<Rightarrow> jstr list \<Rightarrow> jstr list \<times> nat" where
  "list_lost maxBytes verbatim units [] = ([], units)"
| "list_lost maxBytes verbatim units (k # ks) =
     (if k \<in> set verbatim then list_lost maxBytes verbatim units ks
      else let units' = units + length k
           in if \<not> within_budget units' maxBytes then ([k], units')
              else apfst ((#) k) (list_lost maxBytes verbatim units' ks))"

definition SKELETON_ATTEMPTS :: "(nat \<times> bool) list" where
  "SKELETON_ATTEMPTS = [(SKELETON_CHARS, True), (SKELETON_CHARS, False), (SKELETON_MIN_CHARS, False)]"

definition skeleton_attempt ::
  "(rat \<Rightarrow> jstr) \<Rightarrow> bool \<Rightarrow> (pval \<Rightarrow> bool) \<Rightarrow> pfields \<Rightarrow> (jstr \<times> plan) list \<Rightarrow> budget \<Rightarrow> nat \<Rightarrow> jstr \<Rightarrow> nat \<times> bool
     \<Rightarrow> (jstr \<times> pfields) option" where
  "skeleton_attempt T encoder valid fs plan maxBytes bytes preview = (\<lambda>(chars, full).
     let (out, verbatim, kept) = keepPlanned chars plan fs;
         out1 = assign_all (truncation bytes (if full then preview else [])) out;
         (lost, units) = (if full then list_lost maxBytes verbatim 0 (map fst fs) else ([], 0));
         out2 = (if full then assign_all [(lit ''fields'', names lost)] out1 else out1)
     in if \<not> within_budget units maxBytes then None
        else case safeStringify T (Pv_obj None out2) of
               None \<Rightarrow> None
             | Some json \<Rightarrow>
                 if within_budget (utf8ByteLength encoder json) maxBytes \<and> valid (Pv_obj None out2)
                 then Some (json, out2) else None)"

fun first_some :: "('a \<Rightarrow> 'b option) \<Rightarrow> 'a list \<Rightarrow> 'b option" where
  "first_some f [] = None"
| "first_some f (x # xs) = (case f x of None \<Rightarrow> first_some f xs | Some y \<Rightarrow> Some y)"

text \<open>\<open>parses\<close>: what \<open>safeParse\<close> of the schema of a known type says.\<close>

definition skeletonPayload ::
  "(rat \<Rightarrow> jstr) \<Rightarrow> bool \<Rightarrow> (string \<Rightarrow> pval \<Rightarrow> bool) \<Rightarrow> pfields \<Rightarrow> string \<Rightarrow> (jstr \<times> plan) list \<Rightarrow> budget \<Rightarrow> nat \<Rightarrow> jstr
     \<Rightarrow> (jstr \<times> pfields) option" where
  "skeletonPayload T encoder parses fs ty plan maxBytes bytes preview =
     first_some (skeleton_attempt T encoder (parses ty) fs plan maxBytes bytes preview) SKELETON_ATTEMPTS"

definition isValidFor :: "(string \<Rightarrow> pval \<Rightarrow> bool) \<Rightarrow> string option \<Rightarrow> pval \<Rightarrow> bool" where
  "isValidFor parses ty payload \<longleftrightarrow>
     (case ty of None \<Rightarrow> True | Some t \<Rightarrow> map_of EventPayloadSchemas t = None \<or> parses t payload)"

section \<open>The budget\<close>

definition unserializable_marker :: pfields where "unserializable_marker = truncation 0 (lit ''[unserializable payload]'')"

text \<open>The text, the payload it is the text of, and whether it differs.\<close>

definition replaced :: "jstr \<times> pfields \<Rightarrow> jstr \<times> pval \<times> bool" where
  "replaced = (\<lambda>(json, fs). (json, Pv_obj None fs, True))"

definition marked :: "(rat \<Rightarrow> jstr) \<Rightarrow> pfields \<Rightarrow> jstr \<times> pval \<times> bool" where
  "marked T fs =
     ((case safeStringify T (Pv_obj None fs) of None \<Rightarrow> [] | Some json \<Rightarrow> json), Pv_obj None fs, True)"

definition or_else :: "'a option \<Rightarrow> 'a option \<Rightarrow> 'a option" where
  "or_else x y = (case x of None \<Rightarrow> y | Some v \<Rightarrow> Some v)"

definition or_skeleton ::
  "(rat \<Rightarrow> jstr) \<Rightarrow> bool \<Rightarrow> (string \<Rightarrow> pval \<Rightarrow> bool) \<Rightarrow> pfields \<Rightarrow> string option \<Rightarrow> budget \<Rightarrow> nat \<Rightarrow> jstr
     \<Rightarrow> (jstr \<times> pfields) option" where
  "or_skeleton T encoder parses fs ty maxBytes bytes preview =
     (case ty of
        None \<Rightarrow> None
      | Some t \<Rightarrow>
          (case skeletonPlan t of
             None \<Rightarrow> None
           | Some plan \<Rightarrow> skeletonPayload T encoder parses fs t plan maxBytes bytes preview))"

definition trimmed_to_fit ::
  "(rat \<Rightarrow> jstr) \<Rightarrow> bool \<Rightarrow> (string \<Rightarrow> pval \<Rightarrow> bool) \<Rightarrow> json_result option \<Rightarrow> pfields \<Rightarrow> string option \<Rightarrow> budget \<Rightarrow> nat \<Rightarrow> jstr
     \<Rightarrow> (jstr \<times> pfields) option" where
  "trimmed_to_fit T encoder parses own_json fs ty maxBytes bytes json =
     (if MAX_TRIM_FIELDS < length fs then None
      else case truncateFields T encoder own_json fs maxBytes bytes json of
             None \<Rightarrow> None
           | Some r \<Rightarrow> if isValidFor parses ty (Pv_obj None (snd r)) then Some r else None)"

text \<open>The branch for a payload that has no JSON.\<close>

definition unserializable ::
  "(rat \<Rightarrow> jstr) \<Rightarrow> bool \<Rightarrow> (string \<Rightarrow> pval \<Rightarrow> bool) \<Rightarrow> pfields \<Rightarrow> string option \<Rightarrow> budget \<Rightarrow> (jstr \<times> pfields) option" where
  "unserializable T encoder parses fs ty maxBytes =
     or_else
       (case truncateUnserializableFields T fs of
          None \<Rightarrow> None
        | Some (json, trimmed) \<Rightarrow>
            if Option.bind ty skeletonPlan = None then Some (json, trimmed)
            else let bytes = utf8ByteLength encoder json
                 in if within_budget bytes maxBytes
                    then if isValidFor parses ty (Pv_obj None trimmed) then Some (json, trimmed) else None
                    else trimmed_to_fit T encoder parses None trimmed ty maxBytes bytes json)
       (or_skeleton T encoder parses fs ty maxBytes 0 (lit ''[unserializable payload]''))"

definition serializePayload ::
  "(rat \<Rightarrow> jstr) \<Rightarrow> bool \<Rightarrow> (string \<Rightarrow> pval \<Rightarrow> bool) \<Rightarrow> pval \<Rightarrow> budget \<Rightarrow> string option \<Rightarrow> jstr \<times> pval \<times> bool" where
  "serializePayload T encoder parses payload maxBytes ty =
     (case safeStringify T payload of
        None \<Rightarrow>
          (case payload of
             Pv_obj own_json fs \<Rightarrow>
               (case unserializable T encoder parses fs ty maxBytes of
                  Some r \<Rightarrow> replaced r
                | None \<Rightarrow> marked T unserializable_marker)
           | _ \<Rightarrow> marked T unserializable_marker)
      | Some json \<Rightarrow>
          (let bytes = utf8ByteLength encoder json; preview = take PREVIEW_CHARS json
           in if within_budget bytes maxBytes then (json, payload, False)
              else case payload of
                     Pv_obj own_json fs \<Rightarrow>
                       (case or_else (trimmed_to_fit T encoder parses own_json fs ty maxBytes bytes json)
                               (or_skeleton T encoder parses fs ty maxBytes bytes preview) of
                          Some r \<Rightarrow> replaced r
                        | None \<Rightarrow> marked T (truncation bytes preview))
                   | _ \<Rightarrow> marked T (truncation bytes preview)))"

section \<open>The text is the text of the payload\<close>

lemma utf8ByteLength_text: "number_texts T \<Longrightarrow> safeStringify T v = Some json \<Longrightarrow> utf8ByteLength encoder json = countUtf8Bytes json"
  using well_formed_print [of T "[]"] by (auto simp: safeStringify_def intro!: utf8ByteLength_exact)

lemma or_else_cases: "or_else x y = Some r \<Longrightarrow> x = Some r \<or> y = Some r"
  by (auto simp: or_else_def split: option.splits)

lemma first_some_cases: "first_some f xs = Some r \<Longrightarrow> \<exists>x\<in>set xs. f x = Some r"
  by (induction xs) (auto split: option.splits)

lemma truncateFields_text:
  "truncateFields T encoder own fs maxBytes n json = Some (encoded, out)
   \<Longrightarrow> safeStringify T (Pv_obj None out) = Some encoded \<and> within_budget (utf8ByteLength encoder encoded) maxBytes"
  by (auto simp: truncateFields_def Let_def split: prod.splits option.splits if_splits)

lemma trimmed_to_fit_text:
  "trimmed_to_fit T encoder parses own fs ty maxBytes n json = Some (encoded, out)
   \<Longrightarrow> safeStringify T (Pv_obj None out) = Some encoded \<and> within_budget (utf8ByteLength encoder encoded) maxBytes
       \<and> isValidFor parses ty (Pv_obj None out)"
  by (auto simp: trimmed_to_fit_def split: option.splits if_splits dest: truncateFields_text)

lemma skeleton_attempt_text:
  "skeleton_attempt T encoder valid fs plan maxBytes n preview att = Some (encoded, out)
   \<Longrightarrow> safeStringify T (Pv_obj None out) = Some encoded \<and> within_budget (utf8ByteLength encoder encoded) maxBytes
       \<and> valid (Pv_obj None out)"
  by (auto simp: skeleton_attempt_def Let_def split: prod.splits option.splits if_splits)

lemma or_skeleton_text:
  "or_skeleton T encoder parses fs ty maxBytes n preview = Some (encoded, out)
   \<Longrightarrow> safeStringify T (Pv_obj None out) = Some encoded \<and> within_budget (utf8ByteLength encoder encoded) maxBytes
       \<and> isValidFor parses ty (Pv_obj None out)"
  by (auto simp: or_skeleton_def skeletonPayload_def isValidFor_def split: option.splits
      dest!: first_some_cases skeleton_attempt_text)

lemma unserializable_text:
  assumes "unserializable T encoder parses fs ty maxBytes = Some (encoded, out)"
  shows "safeStringify T (Pv_obj None out) = Some encoded"
    and "Option.bind ty skeletonPlan \<noteq> None \<Longrightarrow> within_budget (utf8ByteLength encoder encoded) maxBytes \<and> isValidFor parses ty (Pv_obj None out)"
  using assms
  by (auto simp: unserializable_def truncateUnserializableFields_def Let_def
      dest!: or_else_cases trimmed_to_fit_text or_skeleton_text split: option.splits if_splits prod.splits)

lemma truncation_json:
  "pv_json (Pv_obj None (truncation n preview))
     = Jr_tree (Jn_obj [(truncated_key, Jn_bool True), (lit ''bytes'', Jn_num (of_nat n)), (lit ''preview'', Jn_str preview)])"
  by (simp add: truncation_def pnum_def as_result_def)

lemma marked_text: "safeStringify T (fst (snd (marked T (truncation n preview)))) = Some (fst (marked T (truncation n preview)))"
  by (simp add: marked_def safeStringify_def json_tree_def truncation_json del: pv_json.simps)

lemma serializePayload_text:
  assumes "serializePayload T encoder parses payload maxBytes ty = (json, p, tr)"
  shows "safeStringify T p = Some json"
  using assms marked_text [of T]
  by (auto simp: serializePayload_def replaced_def unserializable_marker_def Let_def
      dest!: or_else_cases trimmed_to_fit_text or_skeleton_text unserializable_text(1)
      split: option.splits pval.splits if_splits prod.splits)
    (metis fst_conv snd_conv)+

section \<open>Upper bounds\<close>

text \<open>The value has JSON of at most \<open>n\<close> bytes.\<close>

definition costs :: "(rat \<Rightarrow> jstr) \<Rightarrow> nat \<Rightarrow> pval \<Rightarrow> bool" where
  "costs T n v \<longleftrightarrow> (\<exists>t. pv_json v = Jr_tree t \<and> countUtf8Bytes (print_json T t) \<le> n)"

lemma costs_le: "costs T n v \<Longrightarrow> n \<le> m \<Longrightarrow> costs T m v"
  by (auto simp: costs_def)

lemma count_ascii: "ascii s \<Longrightarrow> countUtf8Bytes s = length s"
  using countUtf8Bytes_ascii_append [of s "[]"] by simp

lemma length_escape: "length (escape_unit c) \<le> 6" "length (hex4 c) = 6"
  by (auto simp: escape_unit_def hex4_def)

lemma count_escape: "countUtf8Bytes (escape_unit c) \<le> 6"
proof (cases "escape_unit c = [c]")
  case True
  then show ?thesis by simp
next
  case False
  have "ascii (escape_unit c)"
  proof (cases "high_surrogate c \<or> low_surrogate c")
    case True
    then have "escape_unit c = [c]"
      by (auto simp: escape_unit_def high_surrogate_def low_surrogate_def)
    then show ?thesis using False by simp
  next
    case plain: False
    then show ?thesis using ascii_escape [of c] False by auto
  qed
  then show ?thesis using length_escape(1) by (simp add: count_ascii)
qed

lemma count_hex4: "countUtf8Bytes (hex4 c) = 6"
  by (simp add: count_ascii ascii_hex4 length_escape)

lemma count_quote_units: "countUtf8Bytes (quote_units s) \<le> 6 * length s"
proof (induction s rule: quote_units.induct)
  case (2 c)
  then show ?case using count_escape [of c] by (simp add: count_hex4)
next
  case (3 c d s)
  show ?case
  proof (cases "high_surrogate c \<and> low_surrogate d")
    case True
    then show ?thesis using 3 surrogates_apart(2) [of c] by auto
  next
    case False
    let ?x = "if high_surrogate c \<or> low_surrogate c then hex4 c else escape_unit c"
    have "countUtf8Bytes ?x \<le> 6" using count_escape [of c] by (simp add: count_hex4)
    moreover have "quote_units (c # d # s) = ?x @ quote_units (d # s)" using False by auto
    ultimately show ?thesis
      using 3(2) [OF False] countUtf8Bytes_append_le [of ?x "quote_units (d # s)"] by simp
  qed
qed simp

lemma count_quote: "countUtf8Bytes (quote s) \<le> 2 + 6 * length s"
  using countUtf8Bytes_ascii_append [of "[34]" "quote_units s @ [34]"]
    countUtf8Bytes_append_le [of "quote_units s" "[34]"] count_quote_units [of s]
  by (simp add: quote_def)

lemma count_commas: "countUtf8Bytes (commas xs) \<le> sum_list (map (\<lambda>x. countUtf8Bytes x + 1) xs)"
proof (induction xs rule: commas.induct)
  case (3 x y xs)
  then show ?case
    using countUtf8Bytes_append_le [of x "[44] @ commas (y # xs)"] countUtf8Bytes_append_le [of "[44]" "commas (y # xs)"]
    by simp
qed simp_all

lemma costs_simps:
  "costs T (2 + 6 * length s) (Pv_str s)" "number_texts T \<Longrightarrow> costs T 25 (Pv_num x)" "costs T 5 (Pv_bool b)"
  "costs T 4 Pv_null" "costs T 2 (Pv_arr None [])"
proof -
  show "costs T (2 + 6 * length s) (Pv_str s)" using count_quote by (simp add: costs_def)
  have null: "countUtf8Bytes (lit ''null'') = 4" by simp
  show "costs T 25 (Pv_num x)" if "number_texts T"
  proof -
    have "countUtf8Bytes (T q) \<le> 25" for q
      using that ascii_number [OF that, of q] by (simp add: count_ascii number_texts_def)
    then show ?thesis using null by (auto simp: costs_def split: jsnum.splits)
  qed
  show "costs T 5 (Pv_bool b)" by (simp add: costs_def bool_text_def)
  show "costs T 4 Pv_null" using null by (simp add: costs_def)
  show "costs T 2 (Pv_arr None [])" by (simp add: costs_def as_result_def)
qed

definition member_cost :: "(jstr \<times> 'a) \<times> nat \<Rightarrow> nat" where
  "member_cost = (\<lambda>((k, v), n). 4 + 6 * length k + n)"

lemma costs_object:
  "list_all2 (\<lambda>kv n. costs T n (snd kv)) fs ns \<Longrightarrow> costs T (2 + sum_list (map member_cost (zip fs ns))) (Pv_obj None fs)"
proof -
  assume all: "list_all2 (\<lambda>kv n. costs T n (snd kv)) fs ns"
  have "\<exists>kts. join_fields (map (\<lambda>(k, v). (k, pv_json v)) fs) = Some kts
      \<and> sum_list (map (\<lambda>x. countUtf8Bytes x + 1) (map (field_json T) kts)) \<le> sum_list (map member_cost (zip fs ns))"
    using all
  proof (induction rule: list_all2_induct)
    case (Cons kv fs n ns)
    obtain k v where kv: "kv = (k, v)" by (cases kv)
    from Cons(1) kv obtain t where t: "pv_json v = Jr_tree t" "countUtf8Bytes (print_json T t) \<le> n" by (auto simp: costs_def)
    from Cons(3) obtain kts where kts: "join_fields (map (\<lambda>(k, v). (k, pv_json v)) fs) = Some kts"
      "sum_list (map (\<lambda>x. countUtf8Bytes x + 1) (map (field_json T) kts)) \<le> sum_list (map member_cost (zip fs ns))" by blast
    have "countUtf8Bytes (field_json T (k, t)) + 1 \<le> member_cost (kv, n)"
      using countUtf8Bytes_append_le [of "quote k" "[58] @ print_json T t"] countUtf8Bytes_append_le [of "[58]" "print_json T t"]
        count_quote [of k] t(2) by (simp add: kv member_cost_def)
    then show ?case using kts t kv by (intro exI [of _ "(k, t) # kts"]) simp
  qed simp
  then obtain kts where "join_fields (map (\<lambda>(k, v). (k, pv_json v)) fs) = Some kts"
    "sum_list (map (\<lambda>x. countUtf8Bytes x + 1) (map (field_json T) kts)) \<le> sum_list (map member_cost (zip fs ns))" by blast
  moreover have "countUtf8Bytes (print_json T (Jn_obj kts)) \<le> 2 + countUtf8Bytes (commas (map (field_json T) kts))"
    using countUtf8Bytes_append_le [of "[123]" "commas (map (field_json T) kts) @ [125]"]
      countUtf8Bytes_append_le [of "commas (map (field_json T) kts)" "[125]"] by simp
  ultimately show ?thesis
    using count_commas [of "map (field_json T) kts"] by (auto simp: costs_def as_result_def)
qed

lemma truncation_costs:
  assumes "number_texts T"
  shows "list_all2 (\<lambda>kv n. costs T n (snd kv)) (truncation bytes preview) [5, 25, 2 + 6 * length preview]"
  using costs_simps(1,3) costs_simps(2) [OF assms] by (simp add: truncation_def pnum_def)

lemma key_lengths: "length truncated_key = 20" "length (lit ''bytes'') = 5" "length (lit ''preview'') = 7" "length (lit ''[omitted]'') = 9"
  by (simp_all add: truncated_key_def)

lemma truncation_object_costs:
  assumes "number_texts T"
  shows "costs T (238 + 6 * length preview) (Pv_obj None (truncation bytes preview))"
  using costs_object [OF truncation_costs [OF assms, of bytes preview]]
  by (simp add: truncation_def member_cost_def key_lengths del: lit_simps)

lemma marked_fits:
  assumes "number_texts T" "length preview \<le> PREVIEW_CHARS"
  shows "utf8ByteLength encoder (fst (marked T (truncation bytes preview))) \<le> 12288"
proof -
  obtain t where t: "pv_json (Pv_obj None (truncation bytes preview)) = Jr_tree t"
      "countUtf8Bytes (print_json T t) \<le> 238 + 6 * length preview"
    using truncation_object_costs [OF assms(1), of preview bytes] unfolding costs_def by blast
  have "fst (marked T (truncation bytes preview)) = print_json T t"
    using t(1) by (simp add: marked_def safeStringify_def json_tree_def del: pv_json.simps)
  moreover have "utf8ByteLength encoder (print_json T t) = countUtf8Bytes (print_json T t)"
    using well_formed_print [OF assms(1), of "[]" t] by (simp add: utf8ByteLength_exact)
  ultimately show ?thesis using t(2) assms(2) by (simp add: PREVIEW_CHARS_def)
qed

lemma shrunk_fits:
  assumes "number_texts T" and "case maxBytes of None \<Rightarrow> True | Some m \<Rightarrow> 12288 \<le> m"
    and "safeStringify T payload \<noteq> None \<or> Option.bind ty skeletonPlan \<noteq> None"
    and "serializePayload T encoder parses payload maxBytes ty = (json, p, truncated)"
  shows "safeStringify T p = Some json \<and> within_budget (countUtf8Bytes json) maxBytes
    \<and> serializePayload T encoder parses p maxBytes ty = (json, p, False)"
proof -
  have json: "safeStringify T p = Some json" using assms(4) by (rule serializePayload_text)
  have marker: "within_budget (utf8ByteLength encoder (fst (marked T (truncation bytes preview)))) maxBytes"
    if "length preview \<le> PREVIEW_CHARS" for bytes preview
    using marked_fits [OF assms(1) that, of encoder bytes] assms(2)
    by (auto simp: within_budget_def split: option.splits)
  have "length (lit ''[unserializable payload]'') \<le> PREVIEW_CHARS" by (simp add: PREVIEW_CHARS_def)
  note unmarked = marker [OF this, of 0, folded unserializable_marker_def]
  have fits: "within_budget (utf8ByteLength encoder json) maxBytes"
  proof (cases "safeStringify T payload")
    case None
    show ?thesis
    proof (cases payload)
      case (Pv_obj own fs)
      show ?thesis
      proof (cases "unserializable T encoder parses fs ty maxBytes")
        case (Some r)
        then have "json = fst r" using assms(4) None Pv_obj by (auto simp: serializePayload_def replaced_def split: prod.splits)
        then show ?thesis
          using unserializable_text(2) [of T encoder parses fs ty maxBytes "fst r" "snd r"] Some assms(3) None by auto
      next
        case no: None
        then show ?thesis using assms(4) None Pv_obj unmarked by (simp add: serializePayload_def)
      qed
    qed (use assms(4) None unmarked in \<open>simp_all add: serializePayload_def\<close>)
  next
    case (Some text_of_it)
    have mark: "within_budget (utf8ByteLength encoder
        (fst (marked T (truncation (utf8ByteLength encoder text_of_it) (take PREVIEW_CHARS text_of_it))))) maxBytes"
      by (rule marker) simp
    show ?thesis
      using assms(4) Some mark
      by (auto simp: serializePayload_def Let_def replaced_def dest!: or_else_cases trimmed_to_fit_text or_skeleton_text
          split: pval.splits option.splits if_splits prod.splits)
  qed
  have "utf8ByteLength encoder json = countUtf8Bytes json" by (rule utf8ByteLength_text [OF assms(1) json])
  then show ?thesis using json fits by (simp add: serializePayload_def)
qed

text \<open>
  C19: The budget is kept, and shrinking once is enough. Whatever serialisable payload of whatever type
  is given, with a budget of at least 12 KiB - 512 KiB is used - the text that is returned is the text
  of the payload that is returned, it has at most as many bytes in UTF-8 as the budget allows, and given
  that payload again nothing changes: the same text, the same payload, not truncated. The same holds of
  payloads that are not serialisable when the event type is known.
\<close>

theorem shrunk_payload_fits:
  assumes "number_texts T" and "case maxBytes of None \<Rightarrow> True | Some m \<Rightarrow> 12288 \<le> m"
    and "safeStringify T payload \<noteq> None \<or> Option.bind ty skeletonPlan \<noteq> None"
    and "serializePayload T encoder parses payload maxBytes ty = (json, p, truncated)"
  shows "safeStringify T p = Some json \<and> within_budget (countUtf8Bytes json) maxBytes
    \<and> serializePayload T encoder parses p maxBytes ty = (json, p, False)"
  using assms by (rule shrunk_fits)

section \<open>The skeleton fits and is valid\<close>

fun plan_cost :: "plan \<Rightarrow> nat" where
  "plan_cost (Pl_keys ks) = 332 + sum_list (map (\<lambda>(k, p). 4 + 6 * length k + plan_cost p) ks)"
| "plan_cost p = 332"

lemma length_suffix: "length TRUNCATION_SUFFIX = 23"
  by (simp add: TRUNCATION_SUFFIX_def)

lemma omitted_costs: "number_texts T \<Longrightarrow> costs T 332 omittedMarker"
  using costs_le [OF truncation_object_costs [of T "lit ''[omitted]''" 0]] key_lengths(4)
  by (simp add: omittedMarker_def del: lit_simps)

definition plan_spent :: "(jstr \<times> plan) list \<Rightarrow> nat" where
  "plan_spent ks = sum_list (map (\<lambda>(k, p). 4 + 6 * length k + plan_cost p) ks)"

lemmas hardShrink_of = hardShrink.simps
declare hardShrink.simps [simp del]

lemma skeleton_costs:
  assumes T: "number_texts T" and chars: "chars = SKELETON_MIN_CHARS"
  shows "costs T (plan_cost plan) (fst (hardShrink chars plan v))"
    and "\<exists>ns. list_all2 (\<lambda>kv n. costs T n (snd kv)) (fst (keepPlanned chars ks fs)) ns
          \<and> sum_list (map member_cost (zip (fst (keepPlanned chars ks fs)) ns)) \<le> plan_spent ks"
  using chars
proof (induction chars plan v and chars ks fs rule: hardShrink_keepPlanned.induct)
  case (1 chars plan v)
  have base: "costs T (plan_cost plan) w" if "costs T 332 w" for w
    using costs_le [OF that] by (cases plan) auto
  note small = base [OF costs_le [OF costs_simps(3)]] base [OF costs_le [OF costs_simps(2) [OF T]]]
    base [OF costs_le [OF costs_simps(4)]] base [OF costs_le [OF costs_simps(5)]] base [OF omitted_costs [OF T]]
  show ?case
  proof (cases v)
    case (Pv_str s)
    have "costs T 332 (Pv_str t)" if "length t \<le> 55" for t
      using costs_le [OF costs_simps(1), of t 332] that by simp
    then show ?thesis
      using base Pv_str 1(2) length_suffix by (simp add: SKELETON_MIN_CHARS_def hardShrink_of)
  next
    case (Pv_obj ov fs)
    show ?thesis
    proof (cases plan)
      case (Pl_keys ks)
      obtain out verbatim kept where k: "keepPlanned chars ks fs = (out, verbatim, kept)" by (metis prod_cases3)
      from 1(1) [OF Pv_obj Pl_keys 1(2)] k obtain ns where
        ns: "list_all2 (\<lambda>kv n. costs T n (snd kv)) out ns" "sum_list (map member_cost (zip out ns)) \<le> plan_spent ks" by auto
      have "costs T (plan_cost plan) (Pv_obj None out)"
        using costs_le [OF costs_object [OF ns(1)]] ns(2) Pl_keys by (simp add: plan_spent_def)
      then show ?thesis using Pv_obj Pl_keys k by (simp add: hardShrink_of)
    qed (use small Pv_obj in \<open>simp_all add: hardShrink_of\<close>)
  qed (use small in \<open>simp_all add: hardShrink_of\<close>)
next
  case (2 chars fs)
  then show ?case by (simp add: plan_spent_def)
next
  case (3 chars key sub ks fs)
  show ?case
  proof (cases "map_of fs key")
    case None
    then show ?thesis using 3(1) [OF None 3(5)] by (auto simp: plan_spent_def)
  next
    case (Some child)
    show ?thesis
    proof (cases "sub = Pl_optional \<and> \<not> primitive child")
      case True
      then show ?thesis using 3(2) [OF Some True 3(5)] Some by (auto simp: plan_spent_def)
    next
      case False
      obtain v same where h: "hardShrink chars sub child = (v, same)" by fastforce
      obtain out verbatim kept where k: "keepPlanned chars ks fs = (out, verbatim, kept)" by (metis prod_cases3)
      have v: "costs T (plan_cost sub) v" using 3(3) [OF Some False 3(5)] h by simp
      have "\<exists>ns. list_all2 (\<lambda>kv n. costs T n (snd kv)) (fst (keepPlanned chars ks fs)) ns
          \<and> sum_list (map member_cost (zip (fst (keepPlanned chars ks fs)) ns)) \<le> plan_spent ks"
        by (rule 3(4) [OF Some False refl h [symmetric] 3(5)])
      then obtain ns where
        ns: "list_all2 (\<lambda>kv n. costs T n (snd kv)) out ns" "sum_list (map member_cost (zip out ns)) \<le> plan_spent ks"
        using k by auto
      show ?thesis
        using Some False h k v ns
        by (intro exI [of _ "plan_cost sub # ns"]) (auto simp: plan_spent_def member_cost_def)
    qed
  qed
qed

text \<open>What the lookups in a skeleton give.\<close>

lemma keepPlanned_keys: "k \<notin> fst ` set ks \<Longrightarrow> map_of (fst (keepPlanned chars ks fs)) k = None"
proof (induction ks)
  case (Cons kp ks)
  then show ?case by (cases kp) (auto split: option.splits prod.splits simp: Let_def)
qed simp

lemma keepPlanned_lookup:
  "\<lbrakk>distinct (map fst ks); (k, sub) \<in> set ks\<rbrakk> \<Longrightarrow>
   map_of (fst (keepPlanned chars ks fs)) k =
     (case map_of fs k of
        None \<Rightarrow> None
      | Some child \<Rightarrow> if sub = Pl_optional \<and> \<not> primitive child then None else Some (fst (hardShrink chars sub child)))"
proof (induction ks)
  case (Cons kv ks)
  obtain key s where kv: "kv = (key, s)" by (cases kv)
  show ?case
  proof (cases "k = key")
    case True
    then have absent: "map_of (fst (keepPlanned chars ks fs)) k = None"
      using Cons.prems(1) kv keepPlanned_keys [of k ks] by simp
    have "sub = s" using Cons.prems kv True by (auto simp: rev_image_eqI)
    then show ?thesis
      using True absent kv by (auto split: option.splits prod.splits simp: Let_def)
  next
    case False
    then have "(k, sub) \<in> set ks" using Cons.prems(2) kv by auto
    then show ?thesis
      using Cons.IH Cons.prems(1) kv False by (auto split: option.splits prod.splits simp: Let_def)
  qed
qed simp

lemma hardShrink_primitive: "primitive v \<Longrightarrow> hardShrink chars p v = hardShrink chars q v"
  by (cases v) (simp_all add: primitive_def hardShrink_of)

text \<open>Schemas whose enumerations survive: distinct names, choices of at most 32 characters.\<close>

fun schema_fit :: "field_schema \<Rightarrow> bool" where
  "schema_fit (Fs_enum choices) \<longleftrightarrow> list_all (\<lambda>c. length c \<le> 32) choices"
| "schema_fit (Fs_object members) \<longleftrightarrow> distinct (map fst members) \<and> list_all (\<lambda>(k, r, s). schema_fit s) members"
| "schema_fit s \<longleftrightarrow> True"

lemma planned_keys:
  "distinct (map fst members) \<Longrightarrow> distinct (map fst (map (\<lambda>(k, required, s). (lit k, f required s)) members))"
proof (induction members)
  case (Cons m members)
  then show ?case by (cases m) (force simp: lit_inj)
qed simp

lemma hardShrink_accepted:
  "\<lbrakk>accepts s v; schema_fit s; 32 \<le> chars\<rbrakk> \<Longrightarrow> accepts s (fst (hardShrink chars (planOf s) v))"
proof (induction s arbitrary: v)
  case (Fs_enum choices)
  then obtain c where c: "v = Pv_str (lit c)" "c \<in> set choices" by (auto split: pval.splits)
  then have "length (lit c) \<le> chars"
    using Fs_enum.prems(2,3) by (fastforce simp: list_all_iff lit_def)
  then show ?case using c by (simp add: hardShrink_of)
next
  case (Fs_object members)
  obtain ov fs where v: "v = Pv_obj ov fs" using Fs_object.prems(1) by (cases v) auto
  let ?plan = "\<lambda>required s. if required then planOf s else Pl_optional"
  let ?ks = "map (\<lambda>(k, required, s). (lit k, ?plan required s)) members"
  let ?out = "fst (keepPlanned chars ?ks fs)"
  have distinct: "distinct (map fst ?ks)" using Fs_object.prems(2) planned_keys [of members ?plan] by simp
  have member: "case map_of ?out (lit k) of None \<Rightarrow> \<not> required | Some w \<Rightarrow> accepts s w \<or> \<not> required \<and> w = Pv_absent"
    if m: "(k, required, s) \<in> set members" for k required s
  proof -
    have look: "map_of ?out (lit k) =
      (case map_of fs (lit k) of
         None \<Rightarrow> None
       | Some child \<Rightarrow> if ?plan required s = Pl_optional \<and> \<not> primitive child then None
                      else Some (fst (hardShrink chars (?plan required s) child)))"
      by (rule keepPlanned_lookup [OF distinct]) (use m in force)
    have given: "case map_of fs (lit k) of None \<Rightarrow> \<not> required | Some w \<Rightarrow> accepts s w \<or> \<not> required \<and> w = Pv_absent"
      using Fs_object.prems(1) m v by (auto simp: list_all_iff)
    have fit: "schema_fit s" using Fs_object.prems(2) m by (auto simp: list_all_iff)
    have ih: "accepts s w \<Longrightarrow> accepts s (fst (hardShrink chars (planOf s) w))" for w
      using Fs_object.IH [OF m] fit Fs_object.prems(3) by (auto simp: snds.simps)
    show ?thesis
    proof (cases "map_of fs (lit k)")
      case None
      then show ?thesis using look given by simp
    next
      case (Some w)
      have plan: "planOf s \<noteq> Pl_optional" by (cases s) auto
      show ?thesis
      proof (cases required)
        case True
        then show ?thesis using look given Some ih plan by simp
      next
        case False
        show ?thesis
        proof (cases "primitive w")
          case True
          then have "accepts s w" using given Some by (auto simp: primitive_def)
          then show ?thesis using look Some False True ih hardShrink_primitive [OF True, of chars Pl_optional "planOf s"] by simp
        next
          case no: False
          then show ?thesis using look Some False by simp
        qed
      qed
    qed
  qed
  have "fst (hardShrink chars (planOf (Fs_object members)) v) = Pv_obj None ?out"
    by (simp add: v hardShrink_of split: prod.split)
  then show ?case using member by (auto simp: list_all_iff)
qed (auto simp: hardShrink_of omittedMarker_def split: pval.splits)

text \<open>Facts of the table of schemas.\<close>

definition marker_names :: "string list" where
  "marker_names = [''__graphmindTruncated'', ''bytes'', ''preview'', ''fields'']"

definition event_fit :: "(string \<times> bool \<times> field_schema) list \<Rightarrow> bool" where
  "event_fit members \<longleftrightarrow>
     schema_fit (Fs_object members) \<and> list_all (\<lambda>(k, r, s). k \<notin> set marker_names) members
     \<and> plan_cost (planOf (Fs_object members)) \<le> 4000"

lemma events_fit: "list_all (\<lambda>(ty, members). event_fit members) EventPayloadSchemas"
  by code_simp

lemma event_fit: "map_of EventPayloadSchemas ty = Some members \<Longrightarrow> event_fit members"
  using events_fit by (auto simp: list_all_iff dest!: map_of_SomeD)

lemma map_of_assign_all: "k \<notin> fst ` set extra \<Longrightarrow> map_of (assign_all extra fs) k = map_of fs k"
proof (induction extra arbitrary: fs)
  case (Cons kv extra)
  then show ?case by (cases kv) (auto simp: assign_all_def)
qed (simp add: assign_all_def)

lemma accepts_marked:
  assumes "accepts (Fs_object members) (Pv_obj ov fs)" "list_all (\<lambda>(k, r, s). k \<notin> set marker_names) members"
    and "fst ` set extra \<subseteq> lit ` set marker_names"
  shows "accepts (Fs_object members) (Pv_obj ov' (assign_all extra fs))"
proof -
  have "map_of (assign_all extra fs) (lit k) = map_of fs (lit k)" if "(k, r, s) \<in> set members" for k r s
  proof -
    have "k \<notin> set marker_names" using assms(2) that by (auto simp: list_all_iff)
    then have "lit k \<notin> lit ` set marker_names" by (auto simp: lit_inj)
    then show ?thesis using assms(3) by (intro map_of_assign_all) blast
  qed
  then show ?thesis using assms(1) by (auto simp: list_all_iff split: prod.splits)
qed

lemma truncation_names: "fst ` set (truncation n preview) \<subseteq> lit ` set marker_names"
  by (auto simp: truncation_def marker_names_def truncated_key_def)

lemma assign_fresh: "\<lbrakk>distinct (map fst extra); fst ` set extra \<inter> fst ` set fs = {}\<rbrakk> \<Longrightarrow> assign_all extra fs = fs @ extra"
proof (induction extra arbitrary: fs)
  case (Cons kv extra)
  then show ?case by (cases kv) (auto simp: assign_all_def update_fresh)
qed (simp add: assign_all_def)

text \<open>The last attempt at a skeleton succeeds.\<close>

lemma last_attempt:
  assumes T: "number_texts T" and members: "map_of EventPayloadSchemas ty = Some members"
    and plan: "planOf (Fs_object members) = Pl_keys ks" and ok: "accepts (Fs_object members) (Pv_obj ov fs)"
    and room: "4096 \<le> m" and zod: "\<And>v. accepts (Fs_object members) v \<Longrightarrow> parses ty v"
  shows "skeleton_attempt T encoder (parses ty) fs ks (Some m) bytes preview (SKELETON_MIN_CHARS, False) \<noteq> None"
proof -
  have fit: "schema_fit (Fs_object members)" "list_all (\<lambda>(k, r, s). k \<notin> set marker_names) members"
    "plan_cost (Pl_keys ks) \<le> 4000"
    using event_fit [OF members] plan
    by (simp_all add: event_fit_def del: planOf.simps schema_fit.simps plan_cost.simps)
  obtain out verbatim kept where k: "keepPlanned SKELETON_MIN_CHARS ks fs = (out, verbatim, kept)" by (metis prod_cases3)
  let ?out = "assign_all (truncation bytes []) out"
  have "fst (hardShrink SKELETON_MIN_CHARS (planOf (Fs_object members)) (Pv_obj ov fs)) = Pv_obj None out"
    using k plan by (simp add: hardShrink_of)
  then have "accepts (Fs_object members) (Pv_obj None out)"
    using hardShrink_accepted [OF ok fit(1), of SKELETON_MIN_CHARS] by (simp add: SKELETON_MIN_CHARS_def)
  from accepts_marked [OF this fit(2) truncation_names]
  have valid: "parses ty (Pv_obj None ?out)" by (rule zod)
  have "fst ` set out \<inter> lit ` set marker_names = {}"
  proof -
    have "x \<in> fst ` set ks" if "x \<in> fst ` set out" for x
      using keepPlanned_keys [of x ks SKELETON_MIN_CHARS fs] that k by (auto simp: map_of_eq_None_iff)
    moreover have "fst ` set ks = lit ` fst ` set members" using plan by force
    ultimately show ?thesis using fit(2) by (fastforce simp: list_all_iff lit_inj)
  qed
  then have "fst ` set (truncation bytes []) \<inter> fst ` set out = {}" using truncation_names by blast
  moreover have "distinct (map fst (truncation bytes []))" by (simp add: truncation_def truncated_key_def lit_inj del: lit_simps)
  ultimately have out: "?out = out @ truncation bytes []" by (rule assign_fresh [rotated])
  obtain ns where ns: "list_all2 (\<lambda>kv n. costs T n (snd kv)) out ns" "sum_list (map member_cost (zip out ns)) \<le> plan_spent ks"
    using skeleton_costs(2) [OF T refl, of ks fs] k by auto
  have "list_all2 (\<lambda>kv n. costs T n (snd kv)) ?out (ns @ [5, 25, 2])"
    unfolding out using list_all2_appendI [OF ns(1) truncation_costs [OF T, of bytes "[]"]] by simp
  note sized = costs_object [OF this]
  have "sum_list (map member_cost (zip ?out (ns @ [5, 25, 2])))
      = sum_list (map member_cost (zip out ns)) + sum_list (map member_cost (zip (truncation bytes []) [5, 25, 2]))"
    unfolding out using list_all2_lengthD [OF ns(1)] by simp
  also have "sum_list (map member_cost (zip (truncation bytes []) [5, 25, 2])) = 236"
    by (simp add: truncation_def member_cost_def key_lengths del: lit_simps)
  finally have "costs T (2 + plan_spent ks + 236) (Pv_obj None ?out)"
    using ns(2) by (intro costs_le [OF sized]) simp
  then obtain t where t: "pv_json (Pv_obj None ?out) = Jr_tree t" "countUtf8Bytes (print_json T t) \<le> 2 + plan_spent ks + 236"
    unfolding costs_def by blast
  have "plan_spent ks + 332 \<le> 4000" using fit(3) by (simp add: plan_spent_def)
  then have small: "countUtf8Bytes (print_json T t) \<le> m" using t(2) room by simp
  have written: "safeStringify T (Pv_obj None ?out) = Some (print_json T t)"
    using t(1) by (simp add: safeStringify_def json_tree_def del: pv_json.simps)
  have "utf8ByteLength encoder (print_json T t) \<le> m" using utf8ByteLength_text [OF T written] small by simp
  then show ?thesis using k written valid by (simp add: skeleton_attempt_def within_budget_def)
qed

lemma known_valid:
  assumes "number_texts T" and "map_of EventPayloadSchemas ty = Some members"
    and "\<forall>v. accepts (Fs_object members) v \<longrightarrow> parses ty v"
    and "accepts (Fs_object members) payload" and "4096 \<le> m"
    and "serializePayload T encoder parses payload (Some m) (Some ty) = (json, p, truncated)"
  shows "parses ty p \<and> safeStringify T p = Some json \<and> countUtf8Bytes json \<le> m
    \<and> serializePayload T encoder parses p (Some m) (Some ty) = (json, p, False)"
proof -
  obtain ov fs where payload: "payload = Pv_obj ov fs" using assms(4) by (cases payload) auto
  obtain ks where ks: "planOf (Fs_object members) = Pl_keys ks" by simp
  have plan: "skeletonPlan ty = Some ks" using ks assms(2) by (simp add: skeletonPlan_def del: planOf.simps)
  have skeleton: "or_skeleton T encoder parses fs (Some ty) (Some m) n preview \<noteq> None" for n preview
    using last_attempt [OF assms(1,2) ks assms(4) [unfolded payload] assms(5), of parses encoder n preview] assms(3) plan
    by (auto simp: or_skeleton_def skeletonPayload_def SKELETON_ATTEMPTS_def split: option.splits)
  have known: "isValidFor parses (Some ty) v \<longleftrightarrow> parses ty v" for v using assms(2) by (simp add: isValidFor_def)
  have json: "safeStringify T p = Some json" using assms(6) by (rule serializePayload_text)
  have both: "parses ty p \<and> within_budget (utf8ByteLength encoder json) (Some m)"
  proof (cases "safeStringify T payload")
    case None
    have "unserializable T encoder parses fs (Some ty) (Some m) \<noteq> None"
      using skeleton by (auto simp: unserializable_def or_else_def split: option.splits)
    then obtain encoded out where r: "unserializable T encoder parses fs (Some ty) (Some m) = Some (encoded, out)" by auto
    then have "json = encoded" "p = Pv_obj None out"
      using assms(6) None payload by (simp_all add: serializePayload_def replaced_def)
    then show ?thesis using unserializable_text(2) [OF r] plan known by simp
  next
    case (Some text_of_it)
    let ?n = "utf8ByteLength encoder text_of_it"
    show ?thesis
    proof (cases "within_budget ?n (Some m)")
      case True
      then show ?thesis using assms(3,4,6) Some by (simp add: serializePayload_def)
    next
      case False
      let ?r = "or_else (trimmed_to_fit T encoder parses ov fs (Some ty) (Some m) ?n text_of_it)
                 (or_skeleton T encoder parses fs (Some ty) (Some m) ?n (take PREVIEW_CHARS text_of_it))"
      have "?r \<noteq> None" using skeleton by (auto simp: or_else_def split: option.splits)
      then obtain encoded out where r: "?r = Some (encoded, out)" by auto
      then have "json = encoded" "p = Pv_obj None out"
        using assms(6) Some False payload by (simp_all add: serializePayload_def replaced_def Let_def)
      then show ?thesis
        using or_else_cases [OF r] known by (auto dest!: trimmed_to_fit_text or_skeleton_text)
    qed
  qed
  have "utf8ByteLength encoder json = countUtf8Bytes json" by (rule utf8ByteLength_text [OF assms(1) json])
  then show ?thesis using json both by (simp add: serializePayload_def within_budget_def)
qed

text \<open>
  C14: An event stays an event. A payload that its event's schema accepts comes back as one that the
  schema still accepts, within any budget of at least 4,096 bytes, whether it was too long or had no
  JSON at all - a cycle, a BigInt - and its text is its own; sent through again it does not change.
\<close>

theorem known_events_stay_valid:
  assumes "number_texts T" and "map_of EventPayloadSchemas ty = Some members"
    and "\<forall>v. accepts (Fs_object members) v \<longrightarrow> parses ty v"
    and "accepts (Fs_object members) payload" and "4096 \<le> m"
    and "serializePayload T encoder parses payload (Some m) (Some ty) = (json, p, truncated)"
  shows "parses ty p \<and> safeStringify T p = Some json \<and> countUtf8Bytes json \<le> m
    \<and> serializePayload T encoder parses p (Some m) (Some ty) = (json, p, False)"
  using assms by (rule known_valid)

section \<open>The field trim\<close>

lemma join_fields_lookup:
  assumes "join_fields (map (\<lambda>(k, v). (k, pv_json v)) fs) = Some kts" "distinct (map fst fs)"
  shows "distinct (map fst kts) \<and> fst ` set kts \<subseteq> fst ` set fs
    \<and> (\<forall>(k, v)\<in>set fs. pv_json v \<noteq> Jr_throws \<and> map_of kts k = (case pv_json v of Jr_tree t \<Rightarrow> Some t | _ \<Rightarrow> None))"
  using assms
proof (induction fs arbitrary: kts)
  case (Cons kv fs)
  obtain k v where kv: "kv = (k, v)" by (cases kv)
  show ?case
  proof (cases "pv_json v")
    case Jr_throws
    then show ?thesis using Cons.prems kv by simp
  next
    case Jr_undefined
    then have ih: "distinct (map fst kts) \<and> fst ` set kts \<subseteq> fst ` set fs
      \<and> (\<forall>(k, v)\<in>set fs. pv_json v \<noteq> Jr_throws \<and> map_of kts k = (case pv_json v of Jr_tree t \<Rightarrow> Some t | _ \<Rightarrow> None))"
      using Cons kv by simp
    then have "map_of kts k = None" using Cons.prems(2) kv by (auto simp: map_of_eq_None_iff)
    then show ?thesis using ih Jr_undefined kv by auto
  next
    case (Jr_tree t)
    then obtain kts' where kts': "kts = (k, t) # kts'" "join_fields (map (\<lambda>(k, v). (k, pv_json v)) fs) = Some kts'"
      using Cons.prems kv by auto
    then have ih: "distinct (map fst kts') \<and> fst ` set kts' \<subseteq> fst ` set fs
      \<and> (\<forall>(k, v)\<in>set fs. pv_json v \<noteq> Jr_throws \<and> map_of kts' k = (case pv_json v of Jr_tree t \<Rightarrow> Some t | _ \<Rightarrow> None))"
      using Cons kv by simp
    have "k' \<noteq> k" if "(k', v') \<in> set fs" for k' v' using that Cons.prems(2) kv by force
    then show ?thesis using ih kts'(1) Jr_tree kv Cons.prems(2) by auto
  qed
qed simp

lemma field_texts:
  assumes "number_texts T" "distinct (map fst fs)" "safeStringify T (Pv_obj None fs) = Some json" "(k, v) \<in> set fs"
  shows "field_json_text T json (topLevelSpans json) (k, v) = safeStringify T v"
proof -
  obtain kts where kts: "join_fields (map (\<lambda>(k, v). (k, pv_json v)) fs) = Some kts" "json = print_json T (Jn_obj kts)"
    using assms(3)
    by (cases "join_fields (map (\<lambda>(k, v). (k, pv_json v)) fs)")
      (auto simp: safeStringify_def json_tree_def as_result_def simp del: print_json.simps)
  note look = join_fields_lookup [OF kts(1) assms(2)]
  have spans: "topLevelSpans json = Some (spans_of T 1 kts)" using topLevelSpans_print [OF assms(1)] look kts(2) by simp
  have at: "map_of kts k = (case pv_json v of Jr_tree t \<Rightarrow> Some t | _ \<Rightarrow> None)" "pv_json v \<noteq> Jr_throws"
    using look assms(4) by auto
  have slices: "map_option (slice json) (map_of (spans_of T 1 kts) k) = map_option (print_json T) (map_of kts k)"
    using spans_of_slices [of json "[123]" T kts "[125]" k] look kts(2) by simp
  show ?thesis
  proof (cases "map_of kts k")
    case None
    then show ?thesis using slices spans by (simp add: field_json_text_def)
  next
    case (Some t)
    then obtain sp where "map_of (spans_of T 1 kts) k = Some sp" "slice json sp = print_json T t"
      using slices by (cases "map_of (spans_of T 1 kts) k") auto
    moreover have "pv_json v = Jr_tree t" using Some at by (cases "pv_json v") auto
    ultimately show ?thesis using spans by (simp add: field_json_text_def safeStringify_def json_tree_def)
  qed
qed

text \<open>
  Sizing the fields without serialising them again is exact. Where the payload is a plain object
  that serialises to \<open>json\<close>, the text cut out of \<open>json\<close> at the span of a field - or, where the field has
  no span, its own text - is what serialising the field gives, for every field.
\<close>

theorem field_texts_are_exact:
  assumes "number_texts T" "distinct (map fst fs)" "safeStringify T (Pv_obj None fs) = Some json" "(k, v) \<in> set fs"
  shows "field_json_text T json (topLevelSpans json) (k, v) = safeStringify T v"
  using assms by (rule field_texts)












section \<open>Concrete payloads\<close>

text \<open>Every number is written as \<open>0\<close>; a schema accepts what it declares.\<close>

definition zeros :: "rat \<Rightarrow> jstr" where "zeros q = lit ''0''"

lemma number_texts_zeros: "number_texts zeros"
  by (simp add: number_texts_def zeros_def)

definition as_declared :: "string \<Rightarrow> pval \<Rightarrow> bool" where
  "as_declared ty v \<longleftrightarrow> (case map_of EventPayloadSchemas ty of None \<Rightarrow> False | Some members \<Rightarrow> accepts (Fs_object members) v)"

text \<open>A tool call whose input is a BigInt, and a text of 20,000 units.\<close>

definition big_input :: pval where
  "big_input = Pv_obj None
     [(lit ''nodeId'', Pv_str (lit ''n'')), (lit ''kind'', Pv_str (lit ''tool'')), (lit ''name'', Pv_str (lit ''t'')),
      (lit ''instanceId'', Pv_str (lit ''i'')), (lit ''input'', Pv_big)]"

definition long_text :: pval where "long_text = Pv_str (replicate 20000 97)"

lemma quote_units_same: "quote_units (replicate n 97) = replicate n 97"
proof (induction n)
  case (Suc n)
  then show ?case by (cases n) (simp_all add: high_surrogate_def low_surrogate_def escape_unit_def)
qed simp

lemma count_same: "countUtf8Bytes (replicate n 97) = n"
  by (simp add: count_ascii ascii_def list_all_iff)

lemma long_text_units: "safeStringify zeros long_text = Some ([34] @ replicate 20000 97 @ [34])"
  by (simp only: long_text_def safeStringify_def json_tree_def pv_json.simps json_result.case option.map
      print_json.simps quote_def quote_units_same)

lemma long_text_is_long:
  assumes "serializePayload zeros encoder parses long_text (Some 12288) ty = (json, p, truncated)"
  shows "truncated"
proof -
  have "countUtf8Bytes ([34] @ replicate 20000 97 @ [34]) = 20002"
    by (subst count_ascii) (simp_all add: ascii_def list_all_iff)
  then have "utf8ByteLength encoder ([34] @ replicate 20000 97 @ [34]) = 20002"
    using utf8ByteLength_text [OF number_texts_zeros long_text_units, of encoder] by simp
  then show ?thesis
    using assms unfolding serializePayload_def long_text_units option.case Let_def
    by (simp add: within_budget_def long_text_def marked_def del: append.simps)
qed

lemma big_input_has_no_json: "safeStringify zeros big_input = None"
  by code_simp

lemma shrunk_payload_fits_witness:
  "\<exists>json p. serializePayload zeros True as_declared long_text (Some 12288) None = (json, p, True)
     \<and> safeStringify zeros p = Some json \<and> countUtf8Bytes json \<le> 12288
     \<and> serializePayload zeros True as_declared p (Some 12288) None = (json, p, False)"
proof -
  obtain json p t where r: "serializePayload zeros True as_declared long_text (Some 12288) None = (json, p, t)"
    by (rule prod_cases3)
  have "safeStringify zeros p = Some json \<and> within_budget (countUtf8Bytes json) (Some 12288)
      \<and> serializePayload zeros True as_declared p (Some 12288) None = (json, p, False)"
    by (rule shrunk_payload_fits [OF number_texts_zeros _ _ r]) (simp_all add: long_text_units)
  then show ?thesis using r long_text_is_long [OF r] by (simp add: within_budget_def)
qed

lemma known_events_stay_valid_witness:
  "\<exists>json p. serializePayload zeros True as_declared big_input (Some 4096) (Some ''node.started'') = (json, p, True)
     \<and> as_declared ''node.started'' p \<and> safeStringify zeros p = Some json \<and> countUtf8Bytes json \<le> 4096
     \<and> serializePayload zeros True as_declared p (Some 4096) (Some ''node.started'') = (json, p, False)"
proof -
  obtain members where m: "map_of EventPayloadSchemas ''node.started'' = Some members"
    by (simp add: EventPayloadSchemas_def)
  have "as_declared ''node.started'' big_input" by code_simp
  then have valid: "accepts (Fs_object members) big_input" using m by (simp add: as_declared_def del: accepts.simps)
  obtain json p t where r: "serializePayload zeros True as_declared big_input (Some 4096) (Some ''node.started'') = (json, p, t)"
    by (rule prod_cases3)
  have "as_declared ''node.started'' p \<and> safeStringify zeros p = Some json \<and> countUtf8Bytes json \<le> 4096
      \<and> serializePayload zeros True as_declared p (Some 4096) (Some ''node.started'') = (json, p, False)"
    by (rule known_events_stay_valid [OF number_texts_zeros m _ valid _ r]) (simp_all add: as_declared_def m del: accepts.simps)
  moreover have t
    using r unfolding serializePayload_def big_input_has_no_json option.case
    by (auto simp: marked_def replaced_def split: pval.splits option.splits prod.splits)
  ultimately show ?thesis using r by simp
qed

text \<open>An array in a field, and the field's text in that of the payload.\<close>

definition one_array :: pfields where "one_array = [(lit ''a'', Pv_arr None [Pv_null])]"
definition one_array_json :: jstr where "one_array_json = lit ''{\"a\":[null]}''"

lemma one_array_json: "safeStringify zeros (Pv_obj None one_array) = Some one_array_json"
  by (simp add: one_array_def one_array_json_def safeStringify_def json_tree_def as_result_def quote_def
      high_surrogate_def low_surrogate_def escape_unit_def)


lemma field_texts_are_exact_witness:
  "field_json_text zeros one_array_json (topLevelSpans one_array_json) (lit ''a'', Pv_arr None [Pv_null]) = Some (lit ''[null]'')"
proof -
  have "field_json_text zeros one_array_json (topLevelSpans one_array_json) (lit ''a'', Pv_arr None [Pv_null])
      = safeStringify zeros (Pv_arr None [Pv_null])"
    by (rule field_texts_are_exact [OF number_texts_zeros _ one_array_json]) (simp_all add: one_array_def)
  then show ?thesis by (simp add: safeStringify_def json_tree_def as_result_def)
qed



text \<open>
  Without a known event type the trimmed payload is returned as it is, over the budget or not.
\<close>

lemma unserializable_has_no_budget:
  "n \<le> length (fst (serializePayload T encoder parses (Pv_obj None [(lit ''a'', Pv_big), (lit ''b'', Pv_str (replicate n 97))]) maxBytes None))"
proof -
  let ?fs = "[(lit ''a'', Pv_big), (lit ''b'', Pv_str (replicate n 97))]"
  have big: "safeStringify T (Pv_obj None ?fs) = None"
    by (simp add: safeStringify_def json_tree_def as_result_def)
  have "\<exists>json out. truncateUnserializableFields T ?fs = Some (json, out) \<and> n \<le> length json"
    by (simp add: truncateUnserializableFields_def safeStringify_def json_tree_def without_json_def assign_all_def
        truncated_key_def names_def as_result_def quote_def quote_units_same truncation_def pnum_def)
  then show ?thesis
    unfolding serializePayload_def big option.case pval.case unserializable_def
    by (auto simp: marked_def replaced_def or_else_def)
qed

end
