(* ===== verification/Session_Budget.thy ===== *)
theory Session_Budget
  imports Payload_Shrink
begin

text \<open>
  \<open>serializeWithinBudget\<close> of \<open>packages/client/src/session.ts\<close>, with \<open>createEnvelope\<close> and
  \<open>serializeEnvelope\<close> of \<open>packages/schema/src/envelope.ts\<close>: the frame of an event, its payload shrunk
  the way the server would shrink it, so that the server's own pass over what it receives changes
  nothing. \<open>JSON.parse\<close> of a frame gives the values of the tree the frame is the text of; the limit of
  the length of strings is not modelled.
\<close>

section \<open>Frames\<close>

record envelope =
  ev_seq :: nat
  ev_ts :: jsnum
  ev_runId :: jstr
  ev_type :: string
  ev_payload :: pval

definition PROTOCOL_VERSION_frame :: nat where "PROTOCOL_VERSION_frame = 1"


definition head_fields :: "envelope \<Rightarrow> pfields" where
  "head_fields e =
     [(lit ''gm'', pnum PROTOCOL_VERSION_frame), (lit ''seq'', pnum (ev_seq e)), (lit ''ts'', Pv_num (ev_ts e)),
      (lit ''runId'', Pv_str (ev_runId e)), (lit ''type'', Pv_str (lit (ev_type e)))]"

definition envelope_value :: "envelope \<Rightarrow> pval" where
  "envelope_value e = Pv_obj None (head_fields e @ [(lit ''payload'', ev_payload e)])"

text \<open>None: \<open>JSON.stringify\<close> throws. The tree is that of the text.\<close>

definition frame_tree :: "envelope \<Rightarrow> json option" where
  "frame_tree e = (case pv_json (envelope_value e) of Jr_tree t \<Rightarrow> Some t | _ \<Rightarrow> None)"

definition serializeEnvelope :: "(rat \<Rightarrow> jstr) \<Rightarrow> envelope \<Rightarrow> jstr option" where
  "serializeEnvelope T e = map_option (print_json T) (frame_tree e)"

fun parsed :: "json \<Rightarrow> pval" where
  "parsed Jn_null = Pv_null"
| "parsed (Jn_bool b) = Pv_bool b"
| "parsed (Jn_num q) = Pv_num (Fin q)"
| "parsed (Jn_str s) = Pv_str s"
| "parsed (Jn_arr xs) = Pv_arr None (map parsed xs)"
| "parsed (Jn_obj kvs) = Pv_obj None (map (\<lambda>kv. (fst kv, parsed (snd kv))) kvs)"


section \<open>The budget of the client\<close>

datatype budget_warning = Bw_invalid | Bw_unserializable | Bw_budget

record budget_result =
  br_tree :: json
  br_shrunk :: bool
  br_warned :: "budget_warning list"


text \<open>\<open>well\<close>: whether \<open>parseEnvelope\<close> finds the envelope valid. None: the error is thrown on.\<close>

definition degrade_payload ::
  "(rat \<Rightarrow> jstr) \<Rightarrow> bool \<Rightarrow> (string \<Rightarrow> pval \<Rightarrow> bool) \<Rightarrow> (envelope \<Rightarrow> bool) \<Rightarrow> envelope \<Rightarrow> budget_result option" where
  "degrade_payload T encoder parses well e =
     (let (_, p, truncated) = serializePayload T encoder parses (ev_payload e) None (Some (ev_type e));
          degraded = e\<lparr>ev_payload := p\<rparr>
      in if \<not> truncated then None
         else case frame_tree degraded of
                None \<Rightarrow> None
              | Some t \<Rightarrow>
                  Some \<lparr>br_tree = t, br_shrunk = True,
                        br_warned = [if well degraded then Bw_unserializable else Bw_invalid]\<rparr>)"


section \<open>What the server reads\<close>

lemma pv_json_parsed: "pv_json (parsed t) = Jr_tree t"
proof (induction t)
  case (Jn_arr xs)
  then have "join_items (map pv_json (map parsed xs)) = Some xs" by (induction xs) simp_all
  then show ?case by (simp add: as_result_def)
next
  case (Jn_obj kvs)
  then have "join_fields (map (\<lambda>(k, v). (k, pv_json v)) (map (\<lambda>kv. (fst kv, parsed (snd kv))) kvs)) = Some kvs"
    by (induction kvs) (auto simp: snds.simps)
  then show ?case by (simp add: as_result_def del: map_map)
qed simp_all


definition head_trees :: "envelope \<Rightarrow> (jstr \<times> json) list" where
  "head_trees e = the (join_fields (map (\<lambda>(k, v). (k, pv_json v)) (head_fields e)))"

lemma head_has_trees: "join_fields (map (\<lambda>(k, v). (k, pv_json v)) (head_fields e @ fs))
    = map_option ((@) (head_trees e)) (join_fields (map (\<lambda>(k, v). (k, pv_json v)) fs))"
  by (cases "join_fields (map (\<lambda>(k, v). (k, pv_json v)) fs)") (simp_all add: head_trees_def head_fields_def pnum_def)


lemma frame_tree_of:
  "frame_tree e = (case pv_json (ev_payload e) of
       Jr_throws \<Rightarrow> None
     | Jr_undefined \<Rightarrow> Some (Jn_obj (head_trees e))
     | Jr_tree t \<Rightarrow> Some (Jn_obj (head_trees e @ [(lit ''payload'', t)])))"
  unfolding frame_tree_def envelope_value_def pv_json.simps head_has_trees
  by (simp add: as_result_def split: json_result.split)

lemma head_trees_payload [simp]: "head_trees (e\<lparr>ev_payload := p\<rparr>) = head_trees e"
  by (simp add: head_trees_def head_fields_def)


section \<open>Plain values\<close>

text \<open>What \<open>JSON.parse\<close> gives; shrinking such a value gives such a value.\<close>

fun plain :: "pval \<Rightarrow> bool" where
  "plain Pv_absent \<longleftrightarrow> False"
| "plain Pv_null \<longleftrightarrow> True"
| "plain (Pv_bool b) \<longleftrightarrow> True"
| "plain (Pv_num x) \<longleftrightarrow> (case x of Fin q \<Rightarrow> True | _ \<Rightarrow> False)"
| "plain (Pv_str s) \<longleftrightarrow> True"
| "plain Pv_big \<longleftrightarrow> False"
| "plain (Pv_arr ov xs) \<longleftrightarrow> ov = None \<and> list_all plain xs"
| "plain (Pv_obj ov fs) \<longleftrightarrow> ov = None \<and> list_all (\<lambda>kv. plain (snd kv)) fs"

definition plain_fields :: "pfields \<Rightarrow> bool" where
  "plain_fields fs \<longleftrightarrow> (\<forall>(k, v)\<in>set fs. plain v)"

lemma plain_object: "plain (Pv_obj ov fs) \<longleftrightarrow> ov = None \<and> plain_fields fs"
  by (auto simp: plain.simps(8) plain_fields_def list_all_iff)

declare plain.simps(8) [simp del]


lemma plain_is_parsed: "plain v \<Longrightarrow> \<exists>t. v = parsed t"
proof (induction v)
  case (Pv_num x)
  then show ?case by (cases x) (auto intro: exI [of _ "Jn_num q" for q])
next
  case (Pv_arr ov xs)
  then have "\<exists>ts. xs = map parsed ts" unfolding ex_map_conv by (simp add: list_all_iff)
  then show ?case using Pv_arr.prems by (auto intro: exI [of _ "Jn_arr ts" for ts])
next
  case (Pv_obj ov fs)
  have "\<forall>kv\<in>set fs. \<exists>kt. kv = (\<lambda>kv. (fst kv, parsed (snd kv))) kt"
  proof
    fix kv assume kv: "kv \<in> set fs"
    obtain k v where v: "kv = (k, v)" by (cases kv)
    then have "plain v" using Pv_obj.prems kv by (auto simp: plain_object plain_fields_def)
    then obtain t where "v = parsed t" using Pv_obj.IH [OF kv, of v] v by (auto simp: snds.simps)
    then show "\<exists>kt. kv = (\<lambda>kv. (fst kv, parsed (snd kv))) kt" using v by (intro exI [of _ "(k, t)"]) simp
  qed
  then have "\<exists>kts. fs = map (\<lambda>kv. (fst kv, parsed (snd kv))) kts" unfolding ex_map_conv .
  then show ?case using Pv_obj.prems by (auto simp: plain_object intro: exI [of _ "Jn_obj kts" for kts])
qed (auto intro: exI [of _ Jn_null] exI [of _ "Jn_bool b" for b] exI [of _ "Jn_str s" for s])

lemma parsed_plain: "\<lbrakk>plain v; pv_json v = Jr_tree t\<rbrakk> \<Longrightarrow> parsed t = v"
  using plain_is_parsed [of v] pv_json_parsed by auto

















section \<open>The frame fits, and the server changes nothing\<close>











lemma degraded:
  assumes "frame_tree e = None"
  obtains p t where "degrade_payload T encoder parses well e = Some \<lparr>br_tree = t, br_shrunk = True,
      br_warned = [if well (e\<lparr>ev_payload := p\<rparr>) then Bw_unserializable else Bw_invalid]\<rparr>"
    "frame_tree (e\<lparr>ev_payload := p\<rparr>) = Some t"
proof -
  obtain json p truncated where s: "serializePayload T encoder parses (ev_payload e) None (Some (ev_type e)) = (json, p, truncated)"
    by (rule prod_cases3)
  have "pv_json (ev_payload e) = Jr_throws" using assms by (auto simp: frame_tree_of split: json_result.splits)
  then have "safeStringify T (ev_payload e) = None" by (simp add: safeStringify_def json_tree_def)
  then have truncated using s
    by (auto simp: serializePayload_def marked_def replaced_def split: pval.splits option.splits prod.splits)
  have "safeStringify T p = Some json" using s by (rule serializePayload_text)
  then have "pv_json p \<noteq> Jr_throws" by (auto simp: safeStringify_def json_tree_def)
  then obtain t where "frame_tree (e\<lparr>ev_payload := p\<rparr>) = Some t"
    by (cases "pv_json p") (auto simp: frame_tree_of)
  then show ?thesis using that s \<open>truncated\<close> by (simp add: degrade_payload_def)
qed













end
