(* ===== verification/Spec2Isabelle.thy ===== *)
theory Spec2Isabelle
  imports Held_Ledger Pause_Registry Loop_Runs Schema_Exact Tool_Edit Transport Mcp_Relay Stderr_Ring Session_Delivery
    Session_Pause Session_Budget
begin

text \<open>
  A verification development of GraphMind: a debugger for agents that are instrumented with a client
  library, record their events to a hub, and can be held at gates and released from a viewer.

  \<^bold>\<open>The program.\<close> The client (\<open>packages/client/src\<close>) runs inside the host program. A \<open>Session\<close> emits
  events: it redacts a payload (\<open>redaction.ts\<close>), numbers the event, shrinks its payload to a budget
  (\<open>shrink.ts\<close> of \<open>packages/schema/src\<close>), keeps it in a replay buffer (\<open>ring-buffer.ts\<close>) and sends it
  over a socket that comes and goes (\<open>transport.ts\<close>). At a gate it decides whether to hold the call
  (breakpoints, step mode, the loop guard of \<open>loop-guard.ts\<close>, the detectors of \<open>smart.ts\<close>), keeps the held
  gate (\<open>gate-engine.ts\<close>), measures the time it is held (\<open>held-ledger.ts\<close>) and answers the resumes of the
  debugger, edited inputs among them (\<open>edit-input.ts\<close>, \<open>tool-edit.ts\<close>). The hub (\<open>packages/cli/src\<close>) knows who
  may resume (\<open>control-auth.ts\<close>) and settles races between resumes (\<open>pause-registry.ts\<close>); its MCP proxy
  (\<open>mcp-proxy\<close>) relays the bytes of a server it watches.

  \<^bold>\<open>How it is modelled.\<close> A class is a record of its state and one definition per method, from state to
  state and a list of effects: the calls it makes to the outside, in order. Timers are part of the
  state or events of their own; a clock is an argument, None when it throws. A Map is an
  association list in insertion order. Text that is cut, sorted or searched is a list of UTF-16 units
  (\<open>jstr\<close>). Host values live in a heap (\<open>Js_Value\<close>), with getters and proxies that throw; a payload whose
  JSON is all that matters is a tree (\<open>Payload_Shrink\<close>). A throw is None or \<open>Inl\<close>. Numbers are rationals,
  so rounding is left out. SHA-256 and HMAC, the text and the parsing of a number, zod and other
  schema libraries, the parser of envelopes and the host's callbacks are parameters, with what is
  relied on as a named hypothesis.

  \<^bold>\<open>Ground.\<close> \<open>GM_Prelude\<close>: the protocol's enumerations, the locales \<open>ordered_map\<close> (bounded memories)
  and \<open>event_machine\<close> (invariants of runs of events). \<open>Js_Text\<close>, \<open>Js_Value\<close>: text, \<open>JSON.stringify\<close>
  (which can be read back, and is injective). \<open>Clock\<close>: durations and ids.

  \<^bold>\<open>Events.\<close>
    \<^item> \<open>Ring_Buffer\<close>, the circular array of \<open>RingBuffer\<close>, refines a bounded list; in a run of pushes what
      was evicted and what is kept are the items in order (locale \<open>replay_buffer\<close>).
    \<^item> \<open>Redaction\<close>, all of \<open>redaction.ts\<close>: no covered value is in what is sent, what is sent does not
      depend on it, and a tool's results stay hidden over a run of events.
    \<^item> \<open>Json_Scan\<close>, \<open>Payload_Shrink\<close>: \<open>utf8ByteLength\<close>, \<open>topLevelSpans\<close>, \<open>serializePayload\<close> and the schemas
      of the events (\<open>events.ts\<close>, \<open>primitives.ts\<close>). The result is within its budget, is not shrunk again,
      stays a valid event, and keeps the shape of what was trimmed.
    \<^item> \<open>Session_Budget\<close>, \<open>serializeWithinBudget\<close> of \<open>session.ts\<close>: the frame that is sent is one whose
      payload the server's own pass leaves as it is.
    \<^item> \<open>Session_Delivery\<close>, \<open>emitInternal\<close>, \<open>handleUnbuffered\<close>, \<open>recordEviction\<close>, \<open>flushGapMarkers\<close>,
      \<open>handleAttached\<close>: every event that the debugger does not get is counted, and told of in a gap
      marker; an attach sends all that was missed, in order. A host logger does not emit.
    \<^item> \<open>Transport\<close>: the reconnecting socket refines a small link machine, and never gives up.

  \<^bold>\<open>Gates.\<close>
    \<^item> \<open>Gate_Engine\<close>: a held gate is answered exactly once, releasing all answers all, and the pause
      timeout bounds a validation too. \<open>Held_Ledger\<close>: the time reported as held is the time during
      which at least one hold of the instance was open.
    \<^item> \<open>Smart_Breakpoints\<close>: switches (\<open>env.ts\<close>, \<open>smart.ts\<close>), warner (\<open>safe.ts\<close>), detectors.
    \<^item> \<open>Loop_Canon\<close> (canonical calls), \<open>Loop_Guard\<close> (options and bookkeeping), \<open>Loop_Detect\<close> (what the
      index scans decide), \<open>Loop_Runs\<close> (runs of calls): \<open>loop-guard.ts\<close>. Two calls have the same canonical
      text exactly when they are the same up to the order of keys; streaks, laps and repeated
      errors are what a reader of the history would count; a streak is held once; memory is bounded.
    \<^item> \<open>Edit_Input\<close>, \<open>Tool_Schema\<close>, \<open>Schema_Exact\<close>, \<open>Tool_Edit\<close>: \<open>edit-input.ts\<close>, \<open>tool-edit.ts\<close>. Marked or
      polluting content is refused, and only such; the JSON Schema check refuses only what the schema
      forbids and, within its limits, all of it; a tool's transforms never run twice.
    \<^item> \<open>Session_Pause\<close>: \<open>gate\<close>, \<open>handleResume\<close>, the validation of an edit and its verdict, over the engine.
      A call never runs with an input that was not permitted, validated and recorded; every resume is
      answered; every validation ends.

  \<^bold>\<open>Hub.\<close> \<open>Control_Auth\<close>: a credential is accepted when all its presentations are one known token.
  \<open>Pause_Registry\<close>: one writer at a time, every waiter answered once, books that balance. \<open>Mcp_Relay\<close>
  (\<open>framing.ts\<close>, \<open>relay.ts\<close>, \<open>writer.ts\<close>): the relayed bytes are those received, in order.
  \<open>Stderr_Ring\<close>: \<open>stderr-ring.ts\<close>, \<open>exit-status.ts\<close>.

  \<^bold>\<open>How they meet.\<close> \<open>Session_Delivery\<close> pushes to \<open>Ring_Buffer\<close>; \<open>Session_Pause\<close> calls \<open>Gate_Engine\<close>,
  \<open>Edit_Input\<close> and \<open>Redaction\<close>; \<open>Session_Budget\<close> calls \<open>Payload_Shrink\<close>; \<open>Tool_Edit\<close> calls \<open>Edit_Input\<close> and
  \<open>Tool_Schema\<close>; \<open>Loop_Guard\<close> calls \<open>Loop_Canon\<close>; \<open>contentRefusal\<close> of the hub is in \<open>Edit_Input\<close>. The transport
  calls the session by hooks, which are effects there and events of \<open>Session_Delivery\<close>.

  \<^bold>\<open>Bounds and fuel.\<close>
    \<^item> \<open>checkJsonSchemaLite\<close> recurses on the depth left, \<open>LITE_MAX_DEPTH\<close> at the top: the code's own
      bound, after which it lets a value pass. Its work budget is the code's.
    \<^item> The search for a pollution path is a \<open>partial_function\<close>; it is shown to end whenever finitely many
      objects can be reached. \<open>JSON.stringify\<close> takes the depth of its stack as an argument: running
      out is the RangeError of the code. Other loops terminate by a measure.
    \<^item> The budgets: \<open>serializePayload\<close> keeps every budget of at least 12,288 bytes, the most the whole-payload
      marker takes, and for an accepted event of at least 4,096, the most the smallest skeleton of
      a known type takes. The client uses 512 KiB. The markers of evicted runs are
      bounded by \<open>MAX_TRACKED_GAP_RUNS\<close>, the memory of kinds by 10,000 nodes: past them the code forgets the
      oldest, and the properties say so.

  \<^bold>\<open>Not modelled.\<close>
    \<^item> The rest of \<open>session.ts\<close> (runs and their async context, the construction of options, the emitters of
      single payloads), \<open>llm-capture.ts\<close>: glue over what is modelled, and the host's objects.
    \<^item> The declarations of \<open>packages/schema\<close> for control messages and \<open>parseEnvelope\<close>: what they decide is zod's.
    \<^item> The hub's server, storage and HTTP (\<open>hub.ts\<close>, \<open>server.ts\<close>, \<open>control-http.ts\<close>, \<open>sqlite-storage.ts\<close>): the
      state is that of sockets and of a database. The MCP proxy's process and reporter, the command
      line, importers and the agent builder: files, child processes, text for people.
    \<^item> The adapters (\<open>packages/mcp\<close>, \<open>langgraph\<close>, \<open>ai-sdk\<close>, \<open>anthropic\<close>, \<open>openai\<close>): they wrap the objects of
      libraries whose behaviour decides theirs. The viewer and the web site: React. The Python and Ruby ports:
      other languages.
    \<^item> In the modelled parts: rounding of doubles, -0, the limit of the length of strings, getters that
      answer differently the second time, the wording of log lines, and what each theory's text names.
\<close>

end
